(* ===== verification/Aegir_Prelude.thy ===== *)
theory Aegir_Prelude
  imports Main "HOL-Library.Word"
begin

text \<open>
  Shared vocabulary of the development: the machine integer types of the sources, little-endian
  byte strings, ASCII case folding, and generic lemmas on lists that several components use.
  Nothing here models a particular source file, apart from the case folding every text library
  of Aegir repeats.
\<close>

unbundle bit_operations_syntax

section \<open>Types and lemma collections\<close>

type_synonym u8 = "8 word"
type_synonym u16 = "16 word"
type_synonym u32 = "32 word"
type_synonym u64 = "64 word"

named_theorems bytes_simps \<open>encoding and decoding of little-endian byte strings\<close>
named_theorems upd_simps \<open>reading back what an update of a byte buffer or a list wrote\<close>
named_theorems fold_simps \<open>ASCII case folding\<close>

section \<open>Little-endian byte strings\<close>

text \<open>The number a run of bytes spells, low byte first, and its inverse at a given width.\<close>

fun le_nat :: "u8 list \<Rightarrow> nat" where
  "le_nat [] = 0"
| "le_nat (b # bs) = unat b + 256 * le_nat bs"

fun nat_le :: "nat \<Rightarrow> nat \<Rightarrow> u8 list" where
  "nat_le 0 v = []"
| "nat_le (Suc n) v = of_nat v # nat_le n (v div 256)"

lemma length_nat_le [simp, bytes_simps]: "length (nat_le n v) = n"
  by (induction n arbitrary: v) auto

lemma unat_of_nat_u8: "unat (of_nat v :: u8) = v mod 256"
  by (simp add: unat_of_nat take_bit_eq_mod)

lemma le_nat_nat_le [bytes_simps]: "le_nat (nat_le n v) = v mod 256 ^ n"
proof (induction n arbitrary: v)
  case 0
  then show ?case by simp
next
  case (Suc n)
  have "le_nat (nat_le (Suc n) v) = v mod 256 + 256 * (v div 256 mod 256 ^ n)"
    by (simp add: Suc unat_of_nat_u8)
  also have "\<dots> = v mod (256 * 256 ^ n)"
    by (simp add: mod_mult2_eq)
  finally show ?case by simp
qed

lemma le_nat_less: "le_nat bs < 256 ^ length bs"
proof (induction bs)
  case Nil
  then show ?case by simp
next
  case (Cons b bs)
  have "unat b < 256"
    using unsigned_less [of b] by simp
  moreover have "le_nat bs + 1 \<le> 256 ^ length bs"
    using Cons by simp
  then have "256 * (le_nat bs + 1) \<le> 256 * 256 ^ length bs"
    by (rule mult_le_mono2)
  ultimately show ?case by simp
qed

lemma nat_le_le_nat [bytes_simps]: "length bs = n \<Longrightarrow> nat_le n (le_nat bs) = bs"
proof (induction bs arbitrary: n)
  case Nil
  then show ?case by simp
next
  case (Cons b bs)
  have "unat b < 256"
    using unsigned_less [of b] by simp
  then have "(unat b + 256 * le_nat bs) div 256 = le_nat bs"
    by simp
  moreover have "(of_nat (unat b + 256 * le_nat bs) :: u8) = b"
    by (rule word_unat_eq_iff [THEN iffD2])
      (simp only: unat_of_nat_u8, simp add: \<open>unat b < 256\<close>)
  ultimately show ?case using Cons by auto
qed

lemma le_nat_zeros [simp]: "le_nat (replicate n 0) = 0"
  by (induction n) auto

lemma le_nat_inj: "length as = length bs \<Longrightarrow> le_nat as = le_nat bs \<Longrightarrow> as = bs"
  by (metis nat_le_le_nat)

text \<open>A message is words; a struct that travels in one is its bytes, eight to the word.\<close>

fun words_of_bytes :: "nat \<Rightarrow> u8 list \<Rightarrow> u64 list" where
  "words_of_bytes 0 bs = []"
| "words_of_bytes (Suc n) bs = of_nat (le_nat (take 8 bs)) # words_of_bytes n (drop 8 bs)"

definition bytes_of_words :: "u64 list \<Rightarrow> u8 list" where
  "bytes_of_words ws = concat (map (\<lambda>w. nat_le 8 (unat w)) ws)"

lemma length_words_of_bytes [simp, bytes_simps]: "length (words_of_bytes n bs) = n"
  by (induction n arbitrary: bs) auto

lemma length_bytes_of_words [simp, bytes_simps]: "length (bytes_of_words ws) = 8 * length ws"
  by (induction ws) (auto simp: bytes_of_words_def)

lemma bytes_of_words_simps [simp]:
  "bytes_of_words [] = []"
  "bytes_of_words (w # ws) = nat_le 8 (unat w) @ bytes_of_words ws"
  by (auto simp: bytes_of_words_def)

lemma unat_of_nat_u64: "v < 2 ^ 64 \<Longrightarrow> unat (of_nat v :: u64) = v"
  by (simp add: unat_of_nat take_bit_eq_mod)

lemma le_nat_take8: "le_nat (take 8 bs) < 2 ^ 64"
proof -
  have "le_nat (take 8 bs) < 256 ^ length (take 8 bs)"
    by (rule le_nat_less)
  also have "\<dots> \<le> 256 ^ 8"
    by (rule power_increasing) auto
  finally show ?thesis by simp
qed

lemma bytes_of_words_of_bytes [bytes_simps]:
  "length bs = 8 * n \<Longrightarrow> bytes_of_words (words_of_bytes n bs) = bs"
proof (induction n arbitrary: bs)
  case 0
  then show ?case by simp
next
  case (Suc n)
  then have "bytes_of_words (words_of_bytes n (drop 8 bs)) = drop 8 bs" by simp
  moreover have "nat_le 8 (le_nat (take 8 bs)) = take 8 bs"
    using Suc.prems by (intro nat_le_le_nat) simp
  ultimately show ?case
    by (simp add: unat_of_nat_u64 [OF le_nat_take8])
qed

lemma words_of_bytes_of_words [bytes_simps]:
  "length ws = n \<Longrightarrow> words_of_bytes n (bytes_of_words ws) = ws"
proof (induction ws arbitrary: n)
  case Nil
  then show ?case by simp
next
  case (Cons w ws)
  have "le_nat (nat_le 8 (unat w)) = unat w"
    using unsigned_less [where 'a = nat, of w] by (simp add: le_nat_nat_le)
  with Cons show ?case by auto
qed

section \<open>Writing a run of elements into a buffer\<close>

text \<open>
  \<open>bsplice at xs buf\<close> overwrites the elements of \<open>buf\<close> from position \<open>at\<close> on with \<open>xs\<close>: what a
  loop of stores through a pointer does. It is only used where the run fits the buffer.
\<close>

definition bsplice :: "nat \<Rightarrow> 'a list \<Rightarrow> 'a list \<Rightarrow> 'a list" where
  "bsplice at xs buf = take at buf @ xs @ drop (at + length xs) buf"

text \<open>\<open>bslice at n buf\<close> is the run of \<open>n\<close> elements from position \<open>at\<close>.\<close>

definition bslice :: "nat \<Rightarrow> nat \<Rightarrow> 'a list \<Rightarrow> 'a list" where
  "bslice at n buf = take n (drop at buf)"

lemma length_bsplice [simp, upd_simps]:
  "at + length xs \<le> length buf \<Longrightarrow> length (bsplice at xs buf) = length buf"
  by (simp add: bsplice_def)

lemma length_bslice [simp, upd_simps]:
  "at + n \<le> length buf \<Longrightarrow> length (bslice at n buf) = n"
  by (simp add: bslice_def)

lemma bslice_bsplice_same [upd_simps]:
  "at + length xs \<le> length buf \<Longrightarrow> n = length xs \<Longrightarrow> bslice at n (bsplice at xs buf) = xs"
  by (simp add: bslice_def bsplice_def)

lemma nth_bsplice:
  "at + length xs \<le> length buf \<Longrightarrow> i < length buf \<Longrightarrow>
   bsplice at xs buf ! i = (if at \<le> i \<and> i < at + length xs then xs ! (i - at) else buf ! i)"
  by (auto simp: bsplice_def nth_append)

lemma nth_bslice: "at + n \<le> length buf \<Longrightarrow> i < n \<Longrightarrow> bslice at n buf ! i = buf ! (at + i)"
  by (simp add: bslice_def)

lemma bslice_bsplice_other [upd_simps]:
  assumes "at + length xs \<le> length buf" and "pos + n \<le> length buf"
    and "pos + n \<le> at \<or> at + length xs \<le> pos"
  shows "bslice pos n (bsplice at xs buf) = bslice pos n buf"
proof (rule nth_equalityI)
  show "length (bslice pos n (bsplice at xs buf)) = length (bslice pos n buf)"
    using assms by simp
next
  fix i assume "i < length (bslice pos n (bsplice at xs buf))"
  then have "i < n" using assms by simp
  then show "bslice pos n (bsplice at xs buf) ! i = bslice pos n buf ! i"
    using assms by (auto simp: nth_bslice nth_bsplice)
qed

lemma bsplice_Nil [simp]: "bsplice at [] buf = buf"
  by (simp add: bsplice_def)

lemma bsplice_append:
  "at + length xs \<le> length buf \<Longrightarrow> bsplice (at + length xs) ys (bsplice at xs buf) = bsplice at (xs @ ys) buf"
  by (simp add: bsplice_def add_ac)

section \<open>ASCII case folding\<close>

text \<open>
  The helper \<^verbatim>\<open>fold\<close> / \<^verbatim>\<open>lower\<close> that the pattern, argument and script libraries each carry:
  \<^verbatim>\<open>c >= 'A' && c <= 'Z' ? c - 'A' + 'a' : c\<close>. Plain \<^verbatim>\<open>char\<close> is unsigned on RISC-V.
\<close>

definition ascii_lower :: "char \<Rightarrow> char" where
  "ascii_lower c =
     (let n = (of_char c :: nat)
      in if 65 \<le> n \<and> n \<le> 90 then char_of (n - 65 + 97) else c)"

lemma of_char_ascii_lower:
  "(of_char (ascii_lower c) :: nat) =
     (if 65 \<le> (of_char c :: nat) \<and> (of_char c :: nat) \<le> 90 then of_char c + 32 else of_char c)"
  by (auto simp: ascii_lower_def Let_def)

lemma ascii_lower_idem [simp, fold_simps]: "ascii_lower (ascii_lower c) = ascii_lower c"
  by (auto simp: ascii_lower_def [of "ascii_lower c"] Let_def of_char_ascii_lower)

lemma of_char_eq_nat_iff: "((of_char c :: nat) = of_char d) \<longleftrightarrow> c = d"
  by (metis char_of_char)

text \<open>A byte that is not an ASCII letter is its own fold, and only its own.\<close>

lemma ascii_lower_eq_nonletter:
  assumes "\<not> (65 \<le> (of_char c :: nat) \<and> (of_char c :: nat) \<le> 90)"
    and "\<not> (97 \<le> (of_char c :: nat) \<and> (of_char c :: nat) \<le> 122)"
  shows "ascii_lower d = ascii_lower c \<longleftrightarrow> d = c"
proof -
  have "ascii_lower d = ascii_lower c \<longleftrightarrow>
        (of_char (ascii_lower d) :: nat) = of_char (ascii_lower c)"
    by (simp add: of_char_eq_nat_iff)
  also have "\<dots> \<longleftrightarrow> (of_char d :: nat) = of_char c"
    using assms by (auto simp: of_char_ascii_lower)
  finally show ?thesis by (simp add: of_char_eq_nat_iff)
qed

text \<open>Equality of two texts up to case, as \<^verbatim>\<open>eq_ci\<close> and \<^verbatim>\<open>equals_folded\<close> decide it.\<close>

definition eq_folded :: "string \<Rightarrow> string \<Rightarrow> bool" where
  "eq_folded a b \<longleftrightarrow> map ascii_lower a = map ascii_lower b"

lemma eq_folded_refl [simp]: "eq_folded a a"
  by (simp add: eq_folded_def)

lemma eq_folded_sym: "eq_folded a b \<longleftrightarrow> eq_folded b a"
  by (auto simp: eq_folded_def)

lemma eq_folded_trans: "eq_folded a b \<Longrightarrow> eq_folded b c \<Longrightarrow> eq_folded a c"
  by (simp add: eq_folded_def)

section \<open>Lists with distinct keys\<close>

lemma find_append:
  "List.find P (xs @ ys) = (case List.find P xs of None \<Rightarrow> List.find P ys | Some x \<Rightarrow> Some x)"
  by (induction xs) auto

lemma distinct_map_take: "distinct (map f xs) \<Longrightarrow> distinct (map f (take n xs))"
  by (simp add: take_map [symmetric])

lemma take_list_update_append:
  "n < length xs \<Longrightarrow> take (Suc n) (xs[n := x]) = take n xs @ [x]"
  by (simp add: take_Suc_conv_app_nth)

section \<open>Chains\<close>

text \<open>A linked list in a memory: the cells from \<open>c\<close> on, following the links \<open>nx\<close>, with zero the null link.\<close>

primrec chain :: "(nat \<Rightarrow> nat) \<Rightarrow> nat \<Rightarrow> nat list \<Rightarrow> bool" where
  "chain nx c [] \<longleftrightarrow> c = 0"
| "chain nx c (x # xs) \<longleftrightarrow> c = x \<and> x \<noteq> 0 \<and> chain nx (nx x) xs"

lemma chain_zero [simp]: "chain nx 0 xs \<longleftrightarrow> xs = []"
  by (cases xs) auto

lemma chain_unique: "chain nx c xs \<Longrightarrow> chain nx c ys \<Longrightarrow> xs = ys"
proof (induction xs arbitrary: c ys)
  case Nil
  then show ?case by simp
next
  case (Cons x xs)
  then show ?case by (cases ys) auto
qed

lemma chain_cong: "(\<And>x. x \<in> set xs \<Longrightarrow> nx x = nx' x) \<Longrightarrow> chain nx c xs \<longleftrightarrow> chain nx' c xs"
  by (induction xs arbitrary: c) auto

text \<open>A cell hung behind the last one.\<close>

lemma chain_snoc:
  assumes "chain nx c xs" and "xs \<noteq> []" and "distinct xs" and "y \<notin> set xs" and "y \<noteq> 0"
    and "nx' (last xs) = y" and "nx' y = 0" and "\<And>x. x \<in> set xs \<Longrightarrow> x \<noteq> last xs \<Longrightarrow> nx' x = nx x"
  shows "chain nx' c (xs @ [y])"
  using assms
proof (induction xs arbitrary: c)
  case Nil
  then show ?case by simp
next
  case (Cons x xs)
  show ?case
  proof (cases xs)
    case Nil
    then show ?thesis using Cons.prems by simp
  next
    case (Cons z zs)
    then have "x \<noteq> last xs" using Cons.prems by auto
    then have "nx' x = nx x" using Cons.prems Cons by simp
    then show ?thesis using Cons.IH [of "nx x"] Cons.prems Cons by auto
  qed
qed

lemma chain_hd: "chain nx c xs \<Longrightarrow> xs \<noteq> [] \<Longrightarrow> c = hd xs"
  by (cases xs) auto

lemma chain_nonzero: "chain nx c xs \<Longrightarrow> x \<in> set xs \<Longrightarrow> x \<noteq> 0"
  by (induction xs arbitrary: c) auto

text \<open>A cell put between two others.\<close>

lemma chain_insert:
  assumes "chain nx c (us @ vs)" and "us \<noteq> []" and "distinct us" and "set us \<inter> set vs = {}" and "y \<noteq> 0"
    and "nx' (last us) = y" and "nx' y = (if vs = [] then 0 else hd vs)"
    and "\<And>x. x \<in> set us \<Longrightarrow> x \<noteq> last us \<Longrightarrow> nx' x = nx x" and "\<And>x. x \<in> set vs \<Longrightarrow> nx' x = nx x"
  shows "chain nx' c (us @ y # vs)"
  using assms
proof (induction us arbitrary: c)
  case Nil
  then show ?case by simp
next
  case (Cons u us)
  show ?case
  proof (cases us)
    case Nil
    have "chain nx (nx u) vs" and u: "c = u" "u \<noteq> 0" using Cons.prems(1) Nil by auto
    then have "chain nx' (if vs = [] then 0 else hd vs) vs"
      using chain_cong [of vs nx' nx] Cons.prems(9) by (cases vs) auto
    then show ?thesis using Cons.prems(5-7) u Nil by simp
  next
    case (Cons w ws)
    then have "u \<noteq> last us" using Cons.prems(3) by auto
    then have "nx' u = nx u" using Cons.prems(8) Cons by simp
    then show ?thesis using Cons.IH [of "nx u"] Cons.prems Cons by auto
  qed
qed

end
