(* ===== verification/Ipc_Badge.thy ===== *)
theory Ipc_Badge
  imports Aegir_Prelude
begin

text \<open>
  The designed badge space, \<^verbatim>\<open>src/libs/freestanding/aegir-ipc/include/aegir/ipc/badge.h\<close>: identity
  is the badge the kernel reports; bit 62 is the user class, bits 24..61 the user index and bits
  0..23 the serial. The union marks of \<^verbatim>\<open>aegir/nmspace.h\<close> live in the same word and are here too.
\<close>

definition kUserBadge :: u64 where
  "kUserBadge = push_bit 62 1"

definition make_user_badge :: "u64 \<Rightarrow> u64 \<Rightarrow> u64" where
  "make_user_badge user serial = kUserBadge OR push_bit 24 user OR serial"

definition kUserIndexMask :: u64 where
  "kUserIndexMask = 0x3fffffffff"

definition user_index :: "u64 \<Rightarrow> u64" where
  "user_index badge = drop_bit 24 badge AND kUserIndexMask"

definition is_user_badge :: "u64 \<Rightarrow> bool" where
  "is_user_badge badge \<longleftrightarrow> badge AND kUserBadge \<noteq> 0"

definition kUserSerialMask :: u64 where
  "kUserSerialMask = 0xffffff"

definition serial_of :: "u64 \<Rightarrow> u64" where
  "serial_of badge = badge AND kUserSerialMask"

definition kUnionMark :: u64 where
  "kUnionMark = push_bit 63 1"

definition union_badge :: "u32 \<Rightarrow> u64" where
  "union_badge i = kUnionMark OR push_bit 32 (ucast i)"

definition is_union :: "u64 \<Rightarrow> bool" where
  "is_union badge \<longleftrightarrow> badge AND kUnionMark \<noteq> 0"

definition union_id :: "u64 \<Rightarrow> u32" where
  "union_id badge = ucast (drop_bit 32 badge AND (push_bit 30 1 - 1))"

section \<open>Bits of a badge\<close>

text \<open>Every accessor is a mask; reading badges bit by bit reduces their laws to arithmetic.\<close>

lemma kUserIndexMask_mask: "kUserIndexMask = mask 38"
  by (simp add: kUserIndexMask_def mask_eq_exp_minus_1)

lemma kUserSerialMask_mask: "kUserSerialMask = mask 24"
  by (simp add: kUserSerialMask_def mask_eq_exp_minus_1)

lemma bit_kUserBadge: "bit kUserBadge n \<longleftrightarrow> n = 62"
  unfolding kUserBadge_def bit_push_bit_iff bit_1_iff by auto

lemma bit_kUnionMark: "bit kUnionMark n \<longleftrightarrow> n = 63"
  unfolding kUnionMark_def bit_push_bit_iff bit_1_iff by auto

lemma and_single_bit:
  fixes w :: "'a::len word"
  assumes "\<And>n. bit m n \<longleftrightarrow> n = k"
  shows "w AND m \<noteq> 0 \<longleftrightarrow> bit w k"
proof
  assume "w AND m \<noteq> 0"
  then obtain n where "bit (w AND m) n"
    by (metis bit_0_eq bit_eqI bot_apply bot_bool_def)
  then show "bit w k" by (auto simp add: bit_and_iff assms)
next
  assume "bit w k"
  then have "bit (w AND m) k" by (simp add: bit_and_iff assms)
  then show "w AND m \<noteq> 0" by auto
qed

lemma is_user_badge_bit: "is_user_badge b \<longleftrightarrow> bit b 62"
  unfolding is_user_badge_def by (rule and_single_bit) (rule bit_kUserBadge)

lemma is_union_bit: "is_union b \<longleftrightarrow> bit b 63"
  unfolding is_union_def by (rule and_single_bit) (rule bit_kUnionMark)

lemma bit_user_index: "bit (user_index b) n \<longleftrightarrow> n < 38 \<and> bit b (n + 24)"
  by (auto simp: user_index_def kUserIndexMask_mask bit_simps ac_simps)

lemma bit_serial_of: "bit (serial_of b) n \<longleftrightarrow> n < 24 \<and> bit b n"
  by (auto simp: serial_of_def kUserSerialMask_mask bit_simps)

lemma small_word_bit: "w < push_bit k (1 :: 'a::len word) \<Longrightarrow> bit w n \<Longrightarrow> k < LENGTH('a) \<Longrightarrow> n < k"
proof (rule ccontr)
  assume w: "w < push_bit k 1" and b: "bit w n" and k: "k < LENGTH('a)" and "\<not> n < k"
  then have "k \<le> n" by simp
  have "unat (of_nat (2 ^ k) :: 'a word) = 2 ^ k"
    using k by (simp add: unat_of_nat take_bit_eq_mod del: of_nat_power)
  then have "unat w < 2 ^ k"
    using w by (simp add: word_less_nat_alt push_bit_eq_mult)
  then have "unat w < 2 ^ n"
    using \<open>k \<le> n\<close> by (meson less_le_trans one_le_numeral power_increasing)
  then have "\<not> bit (unat w) n"
    by (simp add: bit_iff_odd)
  with b show False by (simp add: bit_unsigned_iff)
qed

lemma bit_make_user_badge:
  assumes "user < push_bit 38 1" and "serial < push_bit 24 1"
  shows "bit (make_user_badge user serial) n \<longleftrightarrow>
    n = 62 \<or> (24 \<le> n \<and> n < 62 \<and> bit user (n - 24)) \<or> (n < 24 \<and> bit serial n)"
  using small_word_bit [OF assms(1)] small_word_bit [OF assms(2)]
  by (fastforce simp: make_user_badge_def bit_kUserBadge bit_simps)

lemma make_user_badge_fields:
  assumes "user < push_bit 38 1" and "serial < push_bit 24 1"
  shows "is_user_badge (make_user_badge user serial)"
    and "user_index (make_user_badge user serial) = user"
    and "serial_of (make_user_badge user serial) = serial"
    and "\<not> is_union (make_user_badge user serial)"
proof -
  note bits = bit_make_user_badge [OF assms]
  show "is_user_badge (make_user_badge user serial)"
    by (simp add: is_user_badge_bit bits)
  show "user_index (make_user_badge user serial) = user"
    by (rule bit_eqI) (use small_word_bit [OF assms(1)] in \<open>auto simp: bit_user_index bits\<close>)
  show "serial_of (make_user_badge user serial) = serial"
    by (rule bit_eqI) (use small_word_bit [OF assms(2)] in \<open>auto simp: bit_serial_of bits\<close>)
  show "\<not> is_union (make_user_badge user serial)"
    by (simp add: is_union_bit bits)
qed

text \<open>
  Badges minted by \<^verbatim>\<open>make_user_badge\<close> decode to exactly the user index and serial they were
  minted from, carry the user class and are never taken for a union's capability; in the other
  direction a user badge with no union mark is the one its own fields mint. So identity is
  injective: two principals never share a badge.
\<close>

lemma badge_roundtrip:
  assumes "user < push_bit 38 1" and "serial < push_bit 24 1"
  shows "is_user_badge (make_user_badge user serial) \<and>
    user_index (make_user_badge user serial) = user \<and>
    serial_of (make_user_badge user serial) = serial \<and>
    \<not> is_union (make_user_badge user serial) \<and>
    (\<forall>b. is_user_badge b \<and> \<not> is_union b \<and> user_index b = user \<and> serial_of b = serial \<longrightarrow>
      b = make_user_badge user serial)"
proof -
  have "b = make_user_badge user serial"
    if b: "is_user_badge b" "\<not> is_union b" "user_index b = user" "serial_of b = serial" for b
  proof (rule bit_eqI)
    fix n assume "possible_bit TYPE(u64) n"
    then have "n < 64" by simp
    consider "n < 24" | "24 \<le> n" "n < 62" | "n = 62" | "n = 63"
      using \<open>n < 64\<close> by linarith
    then show "bit b n \<longleftrightarrow> bit (make_user_badge user serial) n"
    proof cases
      case 1
      with b(4) bit_serial_of [of b n] show ?thesis by (simp add: bit_make_user_badge [OF assms])
    next
      case 2
      then have "n - 24 < 38" by linarith
      with 2 b(3) bit_user_index [of b "n - 24"] show ?thesis
        by (simp add: bit_make_user_badge [OF assms])
    next
      case 3
      with b(1) show ?thesis by (simp add: bit_make_user_badge [OF assms] is_user_badge_bit)
    next
      case 4
      with b(2) show ?thesis by (simp add: bit_make_user_badge [OF assms] is_union_bit)
    qed
  qed
  with make_user_badge_fields [OF assms] show ?thesis by blast
qed

lemma badge_roundtrip_witness:
  "(5 :: u64) < push_bit 38 1 \<and> (7 :: u64) < push_bit 24 1 \<and>
   make_user_badge 5 7 = 4611686018511273991 \<and> user_index (make_user_badge 5 7) = 5 \<and>
   serial_of (make_user_badge 5 7) = 7"
proof -
  have h: "(5 :: u64) < push_bit 38 1" "(7 :: u64) < push_bit 24 1" by simp_all
  show ?thesis
    using h badge_roundtrip [OF h] by (simp add: make_user_badge_def kUserBadge_def)
qed

end
