(* ===== verification/Process_Table.thy ===== *)
theory Process_Table
  imports Ipc_Badge "HOL-Library.Multiset"
begin

text \<open>
  The process registry's table, \<^verbatim>\<open>src/libs/freestanding/aegir-process\<close> (\<^verbatim>\<open>process.h\<close>,
  \<^verbatim>\<open>process_table.cc\<close>): the live set of processes, the authority check behind \<^verbatim>\<open>break\<close>, and the
  request handler. The table is an array of \<^verbatim>\<open>capacity\<close> rows of which the first \<^verbatim>\<open>count\<close> are live.
  The abstraction function \<open>pt_map\<close> reads it as a finite map from pids to rows; the contract a
  client relies on is the locale \<open>keyed_rows\<close>, interpreted below on the table's own operations.
\<close>

section \<open>Protocol constants and rows\<close>

definition kMethodCount :: nat where "kMethodCount = 1"
definition kMethodDescribe :: nat where "kMethodDescribe = 2"
definition kMethodBreak :: nat where "kMethodBreak = 3"
definition kMethodRegister :: nat where "kMethodRegister = 4"
definition kMethodUnregister :: nat where "kMethodUnregister = 5"
definition kMethodOwner :: nat where "kMethodOwner = 6"

definition kAttnC :: u64 where "kAttnC = push_bit 0 1"
definition kAttnAll :: u64 where
  "kAttnAll = kAttnC OR push_bit 1 1 OR push_bit 2 1 OR push_bit 3 1"

definition kStateRunning :: u64 where "kStateRunning = 0"
definition kStateBreakPending :: u64 where "kStateBreakPending = 1"
definition kBreakRefused :: u64 where "kBreakRefused = 0"
definition kBreakSet :: u64 where "kBreakSet = 1"
definition kProcessRefused :: u64 where "kProcessRefused = 0"
definition kProcessAdded :: u64 where "kProcessAdded = 1"

definition kNameMax :: nat where "kNameMax = 24"
definition kPathMax :: nat where "kPathMax = 72"

lemmas method_defs = kMethodCount_def kMethodDescribe_def kMethodBreak_def kMethodRegister_def
  kMethodUnregister_def kMethodOwner_def

lemmas answer_defs = kBreakRefused_def kBreakSet_def kProcessRefused_def kProcessAdded_def

record row =
  pid :: u64
  parent :: u64
  flags :: u64
  state :: u64
  name :: "u8 list"
  path :: "u8 list"

text \<open>\<^verbatim>\<open>sizeof(Row)\<close> is 32 + 24 + 72 bytes, so a row travels in 16 words.\<close>

definition kRowWords :: nat where "kRowWords = 16"

definition row_words :: "row \<Rightarrow> u64 list" where
  "row_words r = [pid r, parent r, flags r, state r] @ words_of_bytes 3 (name r) @
     words_of_bytes 9 (path r)"

definition row_of_words :: "u64 list \<Rightarrow> row" where
  "row_of_words ws =
     \<lparr>pid = ws ! 0, parent = ws ! 1, flags = ws ! 2, state = ws ! 3,
      name = bytes_of_words (bslice 4 3 ws), path = bytes_of_words (bslice 7 9 ws)\<rparr>"

definition row_wf :: "row \<Rightarrow> bool" where
  "row_wf r \<longleftrightarrow> length (name r) = kNameMax \<and> length (path r) = kPathMax"

section \<open>The table\<close>

record ptable =
  rows :: "row list"
  capacity :: nat
  live_count :: nat

definition pt_new :: "row list \<Rightarrow> nat \<Rightarrow> ptable" where
  "pt_new rs cap = \<lparr>rows = rs, capacity = cap, live_count = 0\<rparr>"

definition pt_at :: "ptable \<Rightarrow> nat \<Rightarrow> row option" where
  "pt_at t index = (if index < live_count t then Some (rows t ! index) else None)"

text \<open>The loops of \<^verbatim>\<open>find\<close>, \<^verbatim>\<open>remove\<close> and \<^verbatim>\<open>set_flags\<close> stop at the first live row with the pid.\<close>

definition pt_index :: "ptable \<Rightarrow> u64 \<Rightarrow> nat option" where
  "pt_index t p = List.find (\<lambda>i. pid (rows t ! i) = p) [0..<live_count t]"

definition pt_find :: "ptable \<Rightarrow> u64 \<Rightarrow> row option" where
  "pt_find t p = map_option (\<lambda>i. rows t ! i) (pt_index t p)"

definition may_break :: "u64 \<Rightarrow> u64 \<Rightarrow> bool" where
  "may_break caller target =
     (if \<not> is_user_badge caller then True
      else if \<not> is_user_badge target then False
      else user_index caller = user_index target)"

text \<open>What the registry keeps of a seed row: its own flags and state, and terminated strings.\<close>

definition seed_row :: "row \<Rightarrow> row" where
  "seed_row seed = seed\<lparr>flags := 0, state := kStateRunning,
     name := (name seed)[kNameMax - 1 := 0], path := (path seed)[kPathMax - 1 := 0]\<rparr>"

definition pt_add :: "ptable \<Rightarrow> row \<Rightarrow> ptable \<times> bool" where
  "pt_add t seed =
     (if live_count t \<ge> capacity t \<or> pt_find t (pid seed) \<noteq> None then (t, False)
      else (t\<lparr>rows := (rows t)[live_count t := seed_row seed], live_count := live_count t + 1\<rparr>, True))"

definition pt_remove :: "ptable \<Rightarrow> u64 \<Rightarrow> ptable \<times> bool" where
  "pt_remove t p =
     (case pt_index t p of
        Some i \<Rightarrow> (t\<lparr>rows := (rows t)[i := rows t ! (live_count t - 1)], live_count := live_count t - 1\<rparr>, True)
      | None \<Rightarrow> (t, False))"

definition break_row :: "u64 \<Rightarrow> row \<Rightarrow> row" where
  "break_row fl r =
     (let r' = r\<lparr>flags := fl\<rparr>
      in if fl AND kAttnC \<noteq> 0 then r'\<lparr>state := kStateBreakPending\<rparr> else r')"

definition pt_set_flags :: "ptable \<Rightarrow> u64 \<Rightarrow> u64 \<Rightarrow> u64 \<Rightarrow> ptable \<times> bool" where
  "pt_set_flags t p fl caller =
     (case pt_index t p of
        Some i \<Rightarrow>
          if \<not> may_break caller (pid (rows t ! i)) then (t, False)
          else (t\<lparr>rows := (rows t)[i := break_row fl (rows t ! i)]\<rparr>, True)
      | None \<Rightarrow> (t, False))"

text \<open>
  One call on the port: the new table and the reply words (the C function returns their number).
  \<open>cap\<close> is the room in the reply buffer. The index of \<^verbatim>\<open>describe\<close> is cast to 32 bits.
\<close>

definition pt_handle :: "ptable \<Rightarrow> nat \<Rightarrow> u64 list \<Rightarrow> u64 \<Rightarrow> nat \<Rightarrow> ptable \<times> u64 list" where
  "pt_handle t mth words caller cap =
     (if mth = kMethodCount then
        (if cap < 1 then (t, []) else (t, [of_nat (live_count t)]))
      else if mth = kMethodDescribe then
        (if length words < 1 \<or> cap < kRowWords then (t, [])
         else case pt_at t (unat (ucast (words ! 0) :: u32)) of
                None \<Rightarrow> (t, [])
              | Some r \<Rightarrow> (t, row_words r))
      else if mth = kMethodBreak then
        (if length words < 2 \<or> cap < 1 then (t, [])
         else case pt_set_flags t (words ! 0) (words ! 1 AND kAttnAll) caller of
                (t', ok) \<Rightarrow> (t', [if ok then kBreakSet else kBreakRefused]))
      else if mth = kMethodRegister then
        (if length words < kRowWords \<or> cap < 1 then (t, [])
         else case pt_add t (row_of_words words) of
                (t', ok) \<Rightarrow> (t', [if ok then kProcessAdded else kProcessRefused]))
      else if mth = kMethodUnregister then
        (if length words < 1 \<or> cap < 1 then (t, [])
         else case pt_remove t (words ! 0) of
                (t', ok) \<Rightarrow> (t', [if ok then kProcessAdded else kProcessRefused]))
      else (t, []))"

section \<open>Rows on the wire\<close>

lemma length_row_words [simp]: "length (row_words r) = kRowWords"
  by (simp add: row_words_def kRowWords_def)

lemma bslice_row_words:
  "bslice 4 3 (row_words r) = words_of_bytes 3 (name r)"
  "bslice 7 9 (row_words r) = words_of_bytes 9 (path r)"
  by (simp_all add: bslice_def row_words_def)

lemma row_of_row_words: "row_wf r \<Longrightarrow> row_of_words (row_words r) = r"
  by (cases r) (simp add: row_of_words_def bslice_row_words row_wf_def bytes_simps kNameMax_def
      kPathMax_def, simp add: row_words_def)

lemma row_words_of_words:
  assumes "length ws = kRowWords"
  shows "row_words (row_of_words ws) = ws"
proof -
  obtain a b c d r where ws: "ws = [a, b, c, d] @ r" "length r = 12"
    using assms by (auto simp: kRowWords_def numeral_eq_Suc length_Suc_conv)
  then have "ws = [a, b, c, d] @ take 3 r @ drop 3 r" by simp
  with ws show ?thesis
    by (simp add: row_words_def row_of_words_def bslice_def bytes_simps)
qed

lemma row_wf_row_of_words: "kRowWords \<le> length ws \<Longrightarrow> row_wf (row_of_words ws)"
  by (simp add: row_wf_def row_of_words_def kNameMax_def kPathMax_def kRowWords_def)

section \<open>Invariant and abstraction\<close>

definition live :: "ptable \<Rightarrow> row list" where
  "live t = take (live_count t) (rows t)"

definition pt_inv :: "ptable \<Rightarrow> bool" where
  "pt_inv t \<longleftrightarrow> length (rows t) = capacity t \<and> live_count t \<le> capacity t \<and>
     distinct (map pid (live t)) \<and> (\<forall>r \<in> set (live t). row_wf r)"

definition pt_map :: "ptable \<Rightarrow> u64 \<rightharpoonup> row" where
  "pt_map t = map_of (map (\<lambda>r. (pid r, r)) (live t))"

lemma length_live: "pt_inv t \<Longrightarrow> length (live t) = live_count t"
  by (simp add: pt_inv_def live_def)

lemma nth_live: "i < live_count t \<Longrightarrow> pt_inv t \<Longrightarrow> live t ! i = rows t ! i"
  by (simp add: live_def)

lemma pt_index_Some:
  assumes "pt_index t p = Some i"
  shows "i < live_count t" and "pid (rows t ! i) = p"
  using assms by (auto simp: pt_index_def find_Some_iff)

lemma pt_index_None: "pt_index t p = None \<longleftrightarrow> (\<forall>i < live_count t. pid (rows t ! i) \<noteq> p)"
  by (auto simp: pt_index_def find_None_iff)

lemma pt_index_unique:
  assumes "pt_inv t" "i < live_count t" "pid (rows t ! i) = p"
  shows "pt_index t p = Some i"
proof -
  obtain j where j: "pt_index t p = Some j"
    using assms(2,3) pt_index_None by (cases "pt_index t p") auto
  note pt_index_Some [OF j]
  moreover have "distinct (map pid (live t))" using assms(1) by (simp add: pt_inv_def)
  ultimately have "j = i"
    using assms nth_eq_iff_index_eq [of "map pid (live t)" j i]
    by (simp add: length_live nth_live)
  with j show ?thesis by simp
qed

lemma map_of_pid: "distinct (map pid rs) \<Longrightarrow> r \<in> set rs \<Longrightarrow>
    map_of (map (\<lambda>r. (pid r, r)) rs) (pid r) = Some r"
  by (induction rs) (auto simp: rev_image_eqI)

lemma map_of_pid_dom: "map_of (map (\<lambda>r. (pid r, r)) rs) p = Some r \<Longrightarrow> r \<in> set rs \<and> pid r = p"
  by (induction rs) (auto split: if_splits)

lemma pt_map_index:
  assumes "pt_inv t"
  shows "pt_map t p = map_option (\<lambda>i. rows t ! i) (pt_index t p)"
proof (cases "pt_index t p")
  case None
  then have "\<forall>r \<in> set (live t). pid r \<noteq> p"
    using assms by (force simp: pt_index_None in_set_conv_nth length_live nth_live)
  then show ?thesis
    using None by (auto simp: pt_map_def map_of_eq_None_iff)
next
  case (Some i)
  note i = pt_index_Some [OF Some]
  then have "rows t ! i \<in> set (live t)"
    using assms by (metis length_live nth_live nth_mem)
  then show ?thesis
    using assms Some i map_of_pid [of "live t" "rows t ! i"] by (simp add: pt_map_def pt_inv_def)
qed

lemma pt_find_map: "pt_inv t \<Longrightarrow> pt_find t p = pt_map t p"
  by (simp add: pt_find_def pt_map_index)

lemma pt_map_pid: "pt_map t p = Some r \<Longrightarrow> pid r = p"
  using map_of_pid_dom by (fastforce simp: pt_map_def)

lemma pt_map_wf: "pt_inv t \<Longrightarrow> pt_map t p = Some r \<Longrightarrow> row_wf r"
  using map_of_pid_dom by (fastforce simp: pt_map_def pt_inv_def)

lemma pt_inv_new: "length rs = cap \<Longrightarrow> pt_inv (pt_new rs cap) \<and> pt_map (pt_new rs cap) = Map.empty"
  by (simp add: pt_inv_def pt_new_def live_def pt_map_def)

section \<open>Each operation on the map\<close>

lemma seed_row_wf: "row_wf r \<Longrightarrow> row_wf (seed_row r)"
  by (simp add: row_wf_def seed_row_def)

lemma pid_seed_row [simp]: "pid (seed_row r) = pid r"
  by (simp add: seed_row_def)

lemma pid_break_row [simp]: "pid (break_row fl r) = pid r"
  by (simp add: break_row_def Let_def)

lemma break_row_wf [simp]: "row_wf (break_row fl r) = row_wf r"
  by (simp add: row_wf_def break_row_def Let_def)

lemma live_add:
  assumes "pt_inv t" and "live_count t < capacity t"
  shows "live (t\<lparr>rows := (rows t)[live_count t := r], live_count := live_count t + 1\<rparr>) = live t @ [r]"
  using assms by (simp add: live_def pt_inv_def take_Suc_conv_app_nth)

lemma pt_add_spec:
  assumes "pt_inv t" and "row_wf seed" and "pt_add t seed = (t', ok)"
  shows "pt_inv t' \<and> capacity t' = capacity t \<and>
    ok = (live_count t < capacity t \<and> pt_map t (pid seed) = None) \<and>
    pt_map t' = (if ok then (pt_map t)(pid seed \<mapsto> seed_row seed) else pt_map t)"
proof (cases "live_count t < capacity t \<and> pt_map t (pid seed) = None")
  case False
  with assms show ?thesis by (auto simp: pt_add_def pt_find_map)
next
  case True
  with assms have t': "t' = t\<lparr>rows := (rows t)[live_count t := seed_row seed], live_count := live_count t + 1\<rparr>"
    and ok: ok by (auto simp: pt_add_def pt_find_map)
  have l: "live t' = live t @ [seed_row seed]"
    unfolding t' using True assms(1) by (intro live_add) auto
  from True have fresh: "pid seed \<notin> pid ` set (live t)"
    by (auto simp: pt_map_def map_of_eq_None_iff image_image)
  have "pt_inv t'"
    using assms(1,2) True fresh l unfolding pt_inv_def
    by (auto simp: t' seed_row_wf)
  moreover have "pt_map t' = (pt_map t)(pid seed \<mapsto> seed_row seed)"
    using True by (auto simp: pt_map_def l map_add_def fun_eq_iff split: option.splits)
  ultimately show ?thesis using True ok by (simp add: t')
qed

lemma live_remove:
  assumes "pt_inv t" and "i < live_count t"
  shows "live (t\<lparr>rows := (rows t)[i := rows t ! (live_count t - 1)], live_count := live_count t - 1\<rparr>) =
    butlast ((live t)[i := last (live t)])"
proof -
  have ne: "live t \<noteq> []" using assms length_live by fastforce
  have "last (live t) = rows t ! (live_count t - 1)"
    using assms ne by (simp add: last_conv_nth length_live nth_live)
  moreover have "take (live_count t - 1) (take (live_count t) xs) = take (live_count t - 1) xs" for xs :: "row list"
    by simp
  ultimately show ?thesis
    using assms by (simp add: live_def butlast_conv_take pt_inv_def take_update_swap)
qed

text \<open>Moving the last element into a hole and dropping the end removes exactly one element.\<close>

lemma mset_hole:
  assumes "i < length xs"
  shows "mset (butlast (xs[i := last xs])) = mset (take i xs @ drop (Suc i) xs)"
proof -
  have ne: "xs \<noteq> []" using assms by auto
  have l: "last (xs[i := last xs]) = last xs"
    using assms ne by (cases "i = length xs - 1") (auto simp: last_conv_nth nth_list_update)
  have "add_mset (last xs) (mset (butlast (xs[i := last xs]))) = mset (xs[i := last xs])"
    using l ne append_butlast_last_id [of "xs[i := last xs]"]
    by (metis add_mset_add_single list_update_nonempty mset_append mset_single_iff_right)
  also have "\<dots> = mset (take i xs @ last xs # drop (Suc i) xs)"
    using assms by (simp add: upd_conv_take_nth_drop)
  also have "\<dots> = add_mset (last xs) (mset (take i xs @ drop (Suc i) xs))"
    by simp
  finally show ?thesis by simp
qed

lemma distinct_hole:
  assumes "distinct (map f xs)" and "i < length xs"
  shows "distinct (map f (butlast (xs[i := last xs])))"
proof -
  have "distinct (map f (take i xs @ xs ! i # drop (Suc i) xs))"
    using assms by (simp only: id_take_nth_drop [symmetric])
  then have "distinct (map f (take i xs @ drop (Suc i) xs))" by auto
  moreover have "mset (map f (butlast (xs[i := last xs]))) = mset (map f (take i xs @ drop (Suc i) xs))"
    by (simp only: mset_map mset_hole [OF assms(2)])
  ultimately show ?thesis using mset_eq_imp_distinct_iff by blast
qed

lemma set_hole:
  assumes "distinct xs" and "i < length xs"
  shows "set (butlast (xs[i := last xs])) = set xs - {xs ! i}"
proof -
  have "set (butlast (xs[i := last xs])) = set (take i xs @ drop (Suc i) xs)"
    using mset_hole [OF assms(2)] by (rule mset_eq_setD)
  moreover have "distinct (take i xs @ xs ! i # drop (Suc i) xs)"
    and "set xs = set (take i xs @ xs ! i # drop (Suc i) xs)"
    using assms by (simp_all only: id_take_nth_drop [symmetric])
  ultimately show ?thesis by auto
qed

lemma map_of_pid_iff:
  "distinct (map pid rs) \<Longrightarrow> map_of (map (\<lambda>r. (pid r, r)) rs) p = Some r \<longleftrightarrow> r \<in> set rs \<and> pid r = p"
  using map_of_pid map_of_pid_dom by blast

lemma pt_map_iff: "pt_inv t \<Longrightarrow> pt_map t p = Some r \<longleftrightarrow> r \<in> set (live t) \<and> pid r = p"
  by (simp add: pt_map_def pt_inv_def map_of_pid_iff)

lemma pt_remove_spec:
  assumes "pt_inv t" and "pt_remove t p = (t', ok)"
  shows "pt_inv t' \<and> capacity t' = capacity t \<and> ok = (pt_map t p \<noteq> None) \<and>
    pt_map t' = (pt_map t)(p := None)"
proof (cases "pt_index t p")
  case None
  with assms show ?thesis by (auto simp: pt_remove_def pt_map_index fun_upd_idem)
next
  case (Some i)
  note i = pt_index_Some [OF Some]
  from assms Some have ok: ok
    and t': "t' = t\<lparr>rows := (rows t)[i := rows t ! (live_count t - 1)], live_count := live_count t - 1\<rparr>"
    by (auto simp: pt_remove_def)
  have l: "live t' = butlast ((live t)[i := last (live t)])"
    unfolding t' using assms(1) i(1) by (rule live_remove)
  have len: "i < length (live t)" using assms(1) i(1) by (simp add: length_live)
  have d: "distinct (map pid (live t))" using assms(1) by (simp add: pt_inv_def)
  have s: "set (live t') = set (live t) - {live t ! i}"
    unfolding l using d len by (intro set_hole) (auto simp: distinct_map)
  have inv: "pt_inv t'"
    using assms(1) distinct_hole [OF d len] s unfolding pt_inv_def l [symmetric] by (auto simp: t')
  have at_i: "live t ! i = rows t ! i" using assms(1) i(1) by (simp add: nth_live)
  have only: "r = rows t ! i \<longleftrightarrow> pid r = p" if "r \<in> set (live t)" for r
    using that d i(2) at_i nth_mem [OF len] by (auto simp: distinct_map dest: inj_onD)
  have "pt_map t' q = Some r \<longleftrightarrow> ((pt_map t)(p := None)) q = Some r" for q r
    using only [of r] by (auto simp: pt_map_iff [OF inv] pt_map_iff [OF assms(1)] s at_i)
  then have "pt_map t' = (pt_map t)(p := None)"
    by (metis ext not_Some_eq)
  then show ?thesis using inv ok Some assms(1) by (auto simp: t' pt_map_index)
qed

lemma live_set_flags:
  assumes "pt_inv t" and "i < live_count t"
  shows "live (t\<lparr>rows := (rows t)[i := r]\<rparr>) = (live t)[i := r]"
  using assms by (simp add: live_def take_update_swap)

lemma pt_set_flags_spec:
  assumes "pt_inv t" and "pt_set_flags t p fl caller = (t', ok)"
  shows "pt_inv t' \<and> capacity t' = capacity t \<and> live_count t' = live_count t \<and>
    ok = (pt_map t p \<noteq> None \<and> may_break caller p) \<and>
    pt_map t' = (if ok then (pt_map t)(p \<mapsto> break_row fl (the (pt_map t p))) else pt_map t)"
proof (cases "pt_index t p")
  case None
  with assms show ?thesis by (auto simp: pt_set_flags_def pt_map_index)
next
  case (Some i)
  note i = pt_index_Some [OF Some]
  let ?r = "rows t ! i"
  show ?thesis
  proof (cases "may_break caller p")
    case False
    with assms Some i show ?thesis by (auto simp: pt_set_flags_def)
  next
    case True
    from True assms Some i(2) have ok: ok and t': "t' = t\<lparr>rows := (rows t)[i := break_row fl ?r]\<rparr>"
      by (auto simp: pt_set_flags_def)
    have len: "i < length (live t)" using assms(1) i(1) by (simp add: length_live)
    have l: "live t' = (live t)[i := break_row fl ?r]"
      unfolding t' using assms(1) i(1) by (rule live_set_flags)
    have at_i: "live t ! i = ?r" using assms(1) i(1) by (simp add: nth_live)
    have pids: "map pid (live t') = map pid (live t)"
      using len list_update_id [of "map pid (live t)" i] by (simp add: l map_update at_i [symmetric])
    have "row_wf ?r"
      using assms(1) nth_mem [OF len] by (auto simp: pt_inv_def at_i)
    then have "\<forall>r \<in> set (live t'). row_wf r"
      using assms(1) set_update_subset_insert [of "live t" i] unfolding l pt_inv_def by fastforce
    then have inv: "pt_inv t'"
      using assms(1) pids unfolding pt_inv_def by (auto simp: t')
    have idx: "pt_index t' q = pt_index t q" for q
      unfolding pt_index_def t' using i(1) assms(1)
      by (intro find_cong) (auto simp: nth_list_update pt_inv_def)
    have "pt_map t' q = ((pt_map t)(p \<mapsto> break_row fl ?r)) q" for q
    proof (cases "pt_index t q")
      case None
      then have "q \<noteq> p" using Some by auto
      with None show ?thesis
        by (simp add: pt_map_index [OF inv] pt_map_index [OF assms(1)] idx)
    next
      case (Some j)
      note j = pt_index_Some [OF Some]
      have ji: "j = i \<longleftrightarrow> q = p"
        using i(2) j(2) Some \<open>pt_index t p = Some i\<close> by (metis option.inject)
      have "pt_map t' q = Some (rows t' ! j)" "pt_map t q = Some (rows t ! j)"
        using Some by (simp_all add: pt_map_index [OF inv] pt_map_index [OF assms(1)] idx)
      moreover have "rows t' ! j = (if q = p then break_row fl ?r else rows t ! j)"
        using i(1) assms(1) ji by (auto simp add: t' pt_inv_def nth_list_update)
      ultimately show ?thesis by simp
    qed
    then have "pt_map t' = (pt_map t)(p \<mapsto> break_row fl ?r)" by (rule ext)
    moreover have "pt_map t p = Some ?r"
      using assms(1) Some by (simp add: pt_map_index)
    ultimately show ?thesis using inv ok True by (simp add: t')
  qed
qed

section \<open>The contract of a table of keyed rows\<close>

text \<open>
  What a client of the table relies on: it behaves as a finite map from keys to rows, adding is
  refused for a key that is there or for want of room, and every operation keeps the invariant.
\<close>

locale keyed_rows =
  fixes inv :: "'t \<Rightarrow> bool"
    and view :: "'t \<Rightarrow> 'k \<rightharpoonup> 'v"
    and full :: "'t \<Rightarrow> bool"
    and key :: "'v \<Rightarrow> 'k"
    and valid :: "'v \<Rightarrow> bool"
    and stored :: "'v \<Rightarrow> 'v"
    and add :: "'t \<Rightarrow> 'v \<Rightarrow> 't \<times> bool"
    and remove :: "'t \<Rightarrow> 'k \<Rightarrow> 't \<times> bool"
  assumes add_inv: "inv t \<Longrightarrow> valid v \<Longrightarrow> inv (fst (add t v))"
    and add_ok: "inv t \<Longrightarrow> valid v \<Longrightarrow> snd (add t v) \<longleftrightarrow> \<not> full t \<and> view t (key v) = None"
    and add_view: "inv t \<Longrightarrow> valid v \<Longrightarrow>
      view (fst (add t v)) = (if snd (add t v) then (view t)(key v \<mapsto> stored v) else view t)"
    and remove_inv: "inv t \<Longrightarrow> inv (fst (remove t k))"
    and remove_ok: "inv t \<Longrightarrow> snd (remove t k) \<longleftrightarrow> view t k \<noteq> None"
    and remove_view: "inv t \<Longrightarrow> view (fst (remove t k)) = (view t)(k := None)"
begin

lemma add_twice_refused:
  assumes "inv t" "valid v" "valid w" "snd (add t v)" "key w = key v"
  shows "\<not> snd (add (fst (add t v)) w)"
  using assms by (simp add: add_ok add_view add_inv)

lemma add_remove_restores:
  assumes "inv t" "valid v" "snd (add t v)"
  shows "view (fst (remove (fst (add t v)) (key v))) = view t"
    and "snd (remove (fst (add t v)) (key v))"
  using assms by (auto simp: remove_view remove_ok add_inv add_view add_ok fun_upd_idem)

lemma other_keys_untouched:
  assumes "inv t" "valid v" "k \<noteq> key v"
  shows "view (fst (add t v)) k = view t k"
  using assms by (simp add: add_view)

end

interpretation pt: keyed_rows pt_inv pt_map "\<lambda>t. live_count t \<ge> capacity t" pid row_wf seed_row
  pt_add pt_remove
proof
  fix t :: ptable and v :: row
  assume "pt_inv t" "row_wf v"
  note spec = pt_add_spec [OF this prod.collapse [symmetric]]
  show "pt_inv (fst (pt_add t v))" using spec by simp
  show "snd (pt_add t v) \<longleftrightarrow> \<not> capacity t \<le> live_count t \<and> pt_map t (pid v) = None"
    using spec by auto
  show "pt_map (fst (pt_add t v)) =
    (if snd (pt_add t v) then (pt_map t)(pid v \<mapsto> seed_row v) else pt_map t)"
    using spec by simp
next
  fix t :: ptable and k :: u64
  assume "pt_inv t"
  note spec = pt_remove_spec [OF this prod.collapse [symmetric]]
  show "pt_inv (fst (pt_remove t k))" using spec by simp
  show "snd (pt_remove t k) \<longleftrightarrow> pt_map t k \<noteq> None" using spec by simp
  show "pt_map (fst (pt_remove t k)) = (pt_map t)(k := None)" using spec by simp
qed

section \<open>The handler\<close>

lemma pt_handle_cases:
  "fst (pt_handle t mth words caller cap) = t \<or>
   mth = kMethodBreak \<and> fst (pt_handle t mth words caller cap) =
     fst (pt_set_flags t (words ! 0) (words ! 1 AND kAttnAll) caller) \<or>
   mth = kMethodRegister \<and> kRowWords \<le> length words \<and>
     fst (pt_handle t mth words caller cap) = fst (pt_add t (row_of_words words)) \<or>
   mth = kMethodUnregister \<and>
     fst (pt_handle t mth words caller cap) = fst (pt_remove t (words ! 0))"
  unfolding pt_handle_def by (simp add: case_prod_beta split: option.split)

text \<open>
  A fact about tables that every primitive operation establishes holds after any call.
\<close>

lemma pt_handle_preserves:
  assumes "pt_inv t" and "P t"
    and "\<And>p fl. P (fst (pt_set_flags t p fl caller))"
    and "\<And>r. row_wf r \<Longrightarrow> P (fst (pt_add t r))"
    and "\<And>p. P (fst (pt_remove t p))"
  shows "P (fst (pt_handle t mth words caller cap))"
  using pt_handle_cases [of t mth words caller cap] assms row_wf_row_of_words by metis

text \<open>
  C1. Every call on the registry's port, well-formed or not and from any caller, keeps the table
  well-formed: the live rows fit the caller's run of rows, no pid is live twice, and every row's
  strings have their full field. So the set a walker of \<^verbatim>\<open>count\<close>/\<^verbatim>\<open>describe\<close> sees names each process once.
\<close>

theorem process_table_invariant:
  assumes "pt_inv t"
  shows "pt_inv (fst (pt_handle t mth words caller cap)) \<and>
    capacity (fst (pt_handle t mth words caller cap)) = capacity t"
proof (rule pt_handle_preserves [OF assms])
  show "pt_inv t \<and> capacity t = capacity t" using assms by simp
  show "pt_inv (fst (pt_set_flags t p fl caller)) \<and>
      capacity (fst (pt_set_flags t p fl caller)) = capacity t" for p fl
    using pt_set_flags_spec [OF assms prod.collapse [symmetric]] by simp
  show "pt_inv (fst (pt_add t r)) \<and> capacity (fst (pt_add t r)) = capacity t" if "row_wf r" for r
    using pt_add_spec [OF assms that prod.collapse [symmetric]] by simp
  show "pt_inv (fst (pt_remove t p)) \<and> capacity (fst (pt_remove t p)) = capacity t" for p
    using pt_remove_spec [OF assms prod.collapse [symmetric]] by simp
qed

text \<open>A one-row table with the process of badge \<open>make_user_badge 1 1\<close> in it, for witnesses.\<close>

definition sample_row :: "u64 \<Rightarrow> row" where
  "sample_row p = \<lparr>pid = p, parent = 0, flags = 0, state = 0, name = replicate 24 0,
     path = replicate 72 0\<rparr>"

definition sample_table :: ptable where
  "sample_table = \<lparr>rows = [sample_row (make_user_badge 1 1), sample_row 0], capacity = 2,
     live_count = 1\<rparr>"

lemma sample_table_inv: "pt_inv sample_table"
  by (simp add: sample_table_def sample_row_def pt_inv_def live_def row_wf_def kNameMax_def
      kPathMax_def)

theorem process_table_invariant_witness:
  "pt_inv sample_table \<and>
   pt_inv (fst (pt_handle sample_table kMethodRegister (row_words (sample_row 9)) 0 1)) \<and>
   live_count (fst (pt_handle sample_table kMethodRegister (row_words (sample_row 9)) 0 1)) = 2"
proof -
  have "row_of_words (row_words (sample_row 9)) = sample_row 9"
    by (rule row_of_row_words) (simp add: row_wf_def sample_row_def kNameMax_def kPathMax_def)
  moreover have "make_user_badge 1 1 \<noteq> 9"
    by (simp add: make_user_badge_def kUserBadge_def)
  ultimately have "live_count (fst (pt_handle sample_table kMethodRegister
      (row_words (sample_row 9)) 0 1)) = 2"
    by (simp add: pt_handle_def method_defs pt_add_def pt_find_def pt_index_def sample_table_def
        sample_row_def)
  then show ?thesis
    using sample_table_inv process_table_invariant [OF sample_table_inv] by blast
qed

text \<open>
  C2. The authority rule of \<^verbatim>\<open>break\<close>: whatever a caller with a user badge sends, a process row it
  changes without registering or unregistering belongs to a process of the same user, only the
  attention flags and the state of that row change, and the row is the one the request named.
  A system process is never changed by a user's call.
\<close>

theorem break_authority:
  assumes "pt_inv t" and "is_user_badge caller"
    and "mth \<noteq> kMethodRegister" and "mth \<noteq> kMethodUnregister"
    and "pt_map (fst (pt_handle t mth words caller cap)) p \<noteq> pt_map t p"
  shows "is_user_badge p \<and> user_index p = user_index caller \<and> p = words ! 0 \<and>
    mth = kMethodBreak \<and>
    (\<exists>r. pt_map t p = Some r \<and>
      pt_map (fst (pt_handle t mth words caller cap)) p =
        Some (break_row (words ! 1 AND kAttnAll) r))"
proof -
  have m: "mth = kMethodBreak"
    using assms(3-5) pt_handle_cases [of t mth words caller cap] by auto
  then have len: "\<not> (length words < 2 \<or> cap < 1)"
    using assms(5) by (auto simp: pt_handle_def method_defs split: if_splits)
  obtain t' ok where sf: "pt_set_flags t (words ! 0) (words ! 1 AND kAttnAll) caller = (t', ok)"
    by fastforce
  have t': "fst (pt_handle t mth words caller cap) = t'"
    using m len sf by (simp add: pt_handle_def method_defs)
  note spec = pt_set_flags_spec [OF assms(1) sf]
  have ok: ok and p: "p = words ! 0"
    using spec assms(5) by (auto simp: t' split: if_splits)
  with spec obtain r where r: "pt_map t p = Some r" and mb: "may_break caller p" by auto
  with spec ok p have "pt_map t' p = Some (break_row (words ! 1 AND kAttnAll) r)" by simp
  with mb assms(2) m p r t' show ?thesis
    by (auto simp: may_break_def split: if_splits)
qed

theorem break_authority_witness:
  "is_user_badge (make_user_badge 1 2) \<and>
   (\<exists>r. pt_map (fst (pt_handle sample_table kMethodBreak [make_user_badge 1 1, 1]
      (make_user_badge 1 2) 1)) (make_user_badge 1 1) = Some r \<and> state r = kStateBreakPending)"
proof -
  have h1: "is_user_badge (make_user_badge 1 2)"
    by (simp add: is_user_badge_def make_user_badge_def kUserBadge_def)
  let ?t = "fst (pt_handle sample_table kMethodBreak [make_user_badge 1 1, 1] (make_user_badge 1 2) 1)"
  have mb: "may_break (make_user_badge 1 2) (make_user_badge 1 1)"
    by (simp add: may_break_def is_user_badge_def make_user_badge_def kUserBadge_def user_index_def
        kUserIndexMask_def)
  have "pt_map ?t (make_user_badge 1 1) =
      Some (break_row (1 AND kAttnAll) (sample_row (make_user_badge 1 1)))"
    using mb by (simp add: pt_handle_def method_defs pt_set_flags_def pt_index_def sample_table_def
        pt_map_def live_def) (simp add: sample_row_def)
  moreover have "pt_map sample_table (make_user_badge 1 1) = Some (sample_row (make_user_badge 1 1))"
    by (simp add: sample_table_def pt_map_def live_def sample_row_def)
  moreover have s: "state (break_row (1 AND kAttnAll) (sample_row (make_user_badge 1 1))) = kStateBreakPending"
    by (simp add: break_row_def Let_def kAttnAll_def kAttnC_def)
  ultimately have "pt_map ?t (make_user_badge 1 1) \<noteq> pt_map sample_table (make_user_badge 1 1)"
    by (auto simp: sample_row_def kStateBreakPending_def)
  from break_authority [OF sample_table_inv h1 _ _ this]
  have "\<exists>r. pt_map sample_table (make_user_badge 1 1) = Some r \<and>
      pt_map ?t (make_user_badge 1 1) = Some (break_row (1 AND kAttnAll) r)"
    by (simp add: method_defs)
  with h1 s \<open>pt_map sample_table _ = _\<close> show ?thesis by auto
qed

text \<open>
  What a walker reads is what was registered: after an accepted \<^verbatim>\<open>register\<close> of a row's words the
  table has one row more, a \<^verbatim>\<open>describe\<close> of the last index answers sixteen words that decode to the
  registered row with its flags clear, its state running and its strings cut to their fields, and
  a second registration of the same pid is refused and changes nothing.
\<close>

lemma register_describe_roundtrip:
  assumes "pt_inv t" and "length ws = kRowWords" and "1 \<le> cap"
    and "pt_handle t kMethodRegister ws caller cap = (t', [kProcessAdded])"
    and "live_count t < 2 ^ 32"
  shows "live_count t' = live_count t + 1 \<and>
    pt_handle t' kMethodDescribe [of_nat (live_count t)] c2 kRowWords =
      (t', row_words (seed_row (row_of_words ws))) \<and>
    row_of_words (row_words (seed_row (row_of_words ws))) = seed_row (row_of_words ws) \<and>
    pt_handle t' kMethodRegister ws c3 cap = (t', [kProcessRefused])"
proof -
  let ?r = "row_of_words ws"
  have wf: "row_wf ?r" using assms(2) by (simp add: row_wf_row_of_words)
  have add: "pt_add t ?r = (t', True)"
    using assms(2-4) by (auto simp: pt_handle_def method_defs answer_defs split: prod.splits if_splits)
  then have t': "t' = t\<lparr>rows := (rows t)[live_count t := seed_row ?r], live_count := live_count t + 1\<rparr>"
    and room: "live_count t < length (rows t)"
    using assms(1) by (auto simp: pt_add_def pt_inv_def split: if_splits)
  have "unat (ucast (of_nat (live_count t) :: u64) :: u32) = live_count t"
    using assms(5) by (simp add: unat_of_nat unsigned_ucast_eq take_bit_eq_mod)
  then have d: "pt_at t' (unat (ucast ([of_nat (live_count t) :: u64] ! 0) :: u32)) = Some (seed_row ?r)"
    using room by (simp add: pt_at_def t')
  have "\<not> snd (pt_add t' ?r)"
    using pt.add_twice_refused [OF assms(1) wf wf] add by simp
  then have "pt_add t' ?r = (t', False)"
    by (auto simp: pt_add_def split: if_splits)
  with d show ?thesis
    using assms(2,3) row_of_row_words [OF seed_row_wf [OF wf]]
    by (simp add: pt_handle_def method_defs t' [symmetric]) (simp add: t')
qed

lemma register_describe_roundtrip_witness:
  "\<exists>t'. pt_handle sample_table kMethodRegister (row_words (sample_row 9)) 0 1 = (t', [kProcessAdded]) \<and>
    live_count t' = 2"
proof -
  have r: "row_of_words (row_words (sample_row 9)) = sample_row 9"
    by (rule row_of_row_words) (simp add: row_wf_def sample_row_def kNameMax_def kPathMax_def)
  have "make_user_badge 1 1 \<noteq> 9"
    by (simp add: make_user_badge_def kUserBadge_def)
  then obtain t' where t': "pt_handle sample_table kMethodRegister (row_words (sample_row 9)) 0 1 =
      (t', [kProcessAdded])"
    by (simp add: pt_handle_def method_defs pt_add_def pt_find_def pt_index_def sample_table_def r)
      (simp add: sample_row_def)
  show ?thesis
    using t' register_describe_roundtrip [OF sample_table_inv _ _ t', of 0 0]
    by (simp add: sample_table_def)
qed

text \<open>
  The index of \<^verbatim>\<open>describe\<close> is read modulo $2^{32}$: an index of $2^{32}$, past the count of any
  table, is answered with the first live row, where the header says an index past the count is
  answered by the empty reply.
\<close>

lemma describe_index_truncated:
  assumes "pt_inv t" and "0 < live_count t"
  shows "pt_handle t kMethodDescribe [2 ^ 32] caller kRowWords = (t, row_words (rows t ! 0)) \<and>
    live_count t \<le> capacity t"
proof -
  have "(ucast (2 ^ 32 :: u64) :: u32) = 0" by simp
  with assms show ?thesis
    by (simp add: pt_handle_def method_defs pt_at_def pt_inv_def)
qed

lemma describe_index_truncated_witness:
  "pt_handle sample_table kMethodDescribe [2 ^ 32] 0 kRowWords =
     (sample_table, row_words (sample_row (make_user_badge 1 1))) \<and> live_count sample_table = 1"
proof -
  have n: "0 < live_count sample_table" by (simp add: sample_table_def)
  have r: "rows sample_table ! 0 = sample_row (make_user_badge 1 1)" "live_count sample_table = 1"
    by (simp_all add: sample_table_def)
  show ?thesis
    using describe_index_truncated [OF sample_table_inv n, of 0] by (simp only: r)
qed

end
