(* ===== verification/Process_Registry.thy ===== *)
theory Process_Registry
  imports Process_Table
begin

text \<open>
  The service around the table, \<^verbatim>\<open>src/apps/freestanding/aegir-process-registry/src/main.cc\<close>: one
  iteration of its receive loop as a step from a request to the new state, the reply words and the
  kernel actions performed on the way. The service keeps, beside the table, one break source per
  row in a parallel array and the release ports spawners named, and draws slots from a cursor
  (\<^verbatim>\<open>g_slots\<close>, an allocator over a plain ascending run to which nothing is ever returned here).

  The kernel is a parameter: \<open>mint\<close> says whether minting a flag-badged copy of a source into a slot
  succeeds, \<open>take_cap\<close> whether a received capability can be moved into a slot.
\<close>

section \<open>State and actions\<close>

datatype kaction =
    CNodeDelete u64
  | SignalFlags u64 u64
  | HaltCall u64 u64
  | DropReceived

record owner =
  badge :: u64
  port :: u64

record registry =
  table :: ptable
  sources :: "u64 list"
  owners :: "owner list"
  owner_count :: nat
  slots_next :: u64
  slots_end :: u64

definition kOwnerRefused :: u64 where "kOwnerRefused = 0"
definition kOwnerNamed :: u64 where "kOwnerNamed = 1"

definition kMaxWords :: nat where "kMaxWords = 119"

text \<open>\<^verbatim>\<open>g_slots.alloc_slot()\<close>: the next slot of the run, or zero when it is spent.\<close>

definition reg_alloc_slot :: "registry \<Rightarrow> registry \<times> u64" where
  "reg_alloc_slot r =
     (if slots_next r \<ge> slots_end r then (r, 0)
      else (r\<lparr>slots_next := slots_next r + 1\<rparr>, slots_next r))"

section \<open>Owners, signals, halts\<close>

definition owner_index :: "owner list \<Rightarrow> nat \<Rightarrow> u64 \<Rightarrow> nat option" where
  "owner_index os n b = List.find (\<lambda>i. badge (os ! i) = b) [0..<n]"

definition set_owner :: "registry \<Rightarrow> u64 \<Rightarrow> u64 \<Rightarrow> registry \<times> bool \<times> kaction list" where
  "set_owner r b p =
     (if b = 0 then (r, False, [])
      else case owner_index (owners r) (owner_count r) b of
        Some i \<Rightarrow>
          (r\<lparr>owners := (owners r)[i := (owners r ! i)\<lparr>port := p\<rparr>]\<rparr>, True,
           [CNodeDelete (port (owners r ! i))])
      | None \<Rightarrow>
          if owner_count r \<ge> capacity (table r) then (r, False, [])
          else (r\<lparr>owners := (owners r)[owner_count r := \<lparr>badge = b, port = p\<rparr>],
                  owner_count := owner_count r + 1\<rparr>, True, []))"

definition signal_flags ::
    "(u64 \<Rightarrow> u64 \<Rightarrow> u64 \<Rightarrow> bool) \<Rightarrow> registry \<Rightarrow> u64 \<Rightarrow> u64 \<Rightarrow> registry \<times> kaction list" where
  "signal_flags mint r source fl =
     (case reg_alloc_slot r of (r', slot) \<Rightarrow>
        if slot = 0 then (r', [])
        else if \<not> mint slot source fl then (r', [])
        else (r', [SignalFlags source fl, CNodeDelete slot]))"

definition halt_owner :: "registry \<Rightarrow> u64 \<Rightarrow> u64 \<Rightarrow> bool \<times> kaction list" where
  "halt_owner r owner_badge p =
     (case owner_index (owners r) (owner_count r) owner_badge of
        Some i \<Rightarrow> (True, [HaltCall (port (owners r ! i)) p])
      | None \<Rightarrow> (False, []))"

definition drop_row :: "registry \<Rightarrow> u64 \<Rightarrow> registry \<times> kaction list" where
  "drop_row r p =
     (case pt_index (table r) p of
        None \<Rightarrow> (r, [])
      | Some index \<Rightarrow>
          (let source = sources r ! index;
               acts = (if source \<noteq> 0 then [CNodeDelete source] else []);
               t' = fst (pt_handle (table r) kMethodUnregister [p] 0 1);
               s1 = (sources r)[index := sources r ! live_count t'];
               s2 = s1[live_count t' := 0]
           in (r\<lparr>table := t', sources := s2\<rparr>, acts)))"

section \<open>One request\<close>

definition step_owner ::
    "(u64 \<Rightarrow> bool) \<Rightarrow> registry \<Rightarrow> u64 list \<Rightarrow> bool \<Rightarrow> registry \<times> u64 list \<times> kaction list" where
  "step_owner take_cap r words cap_arrived =
     (let (r1, named, acts1) =
        (if length words \<ge> 1 \<and> cap_arrived then
           (case reg_alloc_slot r of (ra, slot) \<Rightarrow>
              if slot \<noteq> 0 \<and> take_cap slot then
                (case set_owner ra (words ! 0) slot of (rb, ok, acts) \<Rightarrow>
                   (rb, ok, acts @ (if ok then [] else [CNodeDelete slot])))
              else if slot \<noteq> 0 then (ra, False, [DropReceived])
              else (ra, False, []))
         else (r, False, []));
        acts2 = (if \<not> named \<and> cap_arrived then [DropReceived] else [])
      in (r1, [if named then kOwnerNamed else kOwnerRefused], acts1 @ acts2))"

definition step_unregister ::
    "registry \<Rightarrow> u64 list \<Rightarrow> bool \<Rightarrow> registry \<times> u64 list \<times> kaction list" where
  "step_unregister r words cap_arrived =
     (let (removed, r1, acts1) =
        (if length words \<ge> 1 then
           (case drop_row r (words ! 0) of (ra, acts) \<Rightarrow>
              (pt_find (table r) (words ! 0) \<noteq> None, ra, acts))
         else (False, r, []));
        acts2 = (if cap_arrived then [DropReceived] else [])
      in (r1, [if removed then kProcessAdded else kProcessRefused], acts1 @ acts2))"

text \<open>The break source a registration brings: moved into a slot of its own, or dropped.\<close>

definition accept_source ::
    "(u64 \<Rightarrow> bool) \<Rightarrow> registry \<Rightarrow> bool \<Rightarrow> registry \<times> u64 \<times> kaction list" where
  "accept_source take_cap r cap_arrived =
     (if cap_arrived then
        (case reg_alloc_slot r of (r', slot) \<Rightarrow>
           if slot \<noteq> 0 \<and> take_cap slot then (r', slot, []) else (r', 0, [DropReceived]))
      else (r, 0, []))"

definition step_register ::
    "(u64 \<Rightarrow> bool) \<Rightarrow> registry \<Rightarrow> u64 list \<Rightarrow> u64 list \<Rightarrow> bool \<Rightarrow> registry \<times> kaction list" where
  "step_register take_cap r words reply cap_arrived =
     (if length reply \<ge> 1 \<and> reply ! 0 = kProcessAdded \<and> length words \<ge> kRowWords then
        (case accept_source take_cap r cap_arrived of (r', source, acts) \<Rightarrow>
           let index = (case pt_index (table r) (pid (row_of_words words)) of Some i \<Rightarrow> i | None \<Rightarrow> 0)
           in (r'\<lparr>sources := (sources r')[index := source]\<rparr>, acts))
      else (r, if cap_arrived then [DropReceived] else []))"

definition step_break ::
    "(u64 \<Rightarrow> u64 \<Rightarrow> u64 \<Rightarrow> bool) \<Rightarrow> registry \<Rightarrow> u64 list \<Rightarrow> registry \<times> kaction list" where
  "step_break mint r words =
     (let p = words ! 0; fl = words ! 1 AND kAttnAll in
      case pt_index (table r) p of
        None \<Rightarrow> (r, [])
      | Some i \<Rightarrow>
          if fl = 0 then (r, [])
          else
            let source = sources r ! i;
                (r1, acts1) = (if source \<noteq> 0 then signal_flags mint r source fl else (r, []))
            in if fl AND kAttnC \<noteq> 0 then
                 (case halt_owner r1 (parent (rows (table r) ! i)) p of (halted, acts2) \<Rightarrow>
                    if halted then (case drop_row r1 p of (r2, acts3) \<Rightarrow> (r2, acts1 @ acts2 @ acts3))
                    else (r1, acts1 @ acts2))
               else (r1, acts1))"

definition registry_step ::
    "(u64 \<Rightarrow> u64 \<Rightarrow> u64 \<Rightarrow> bool) \<Rightarrow> (u64 \<Rightarrow> bool) \<Rightarrow> registry \<Rightarrow> nat \<Rightarrow> u64 list \<Rightarrow> u64 \<Rightarrow> bool \<Rightarrow>
     registry \<times> u64 list \<times> kaction list" where
  "registry_step mint take_cap r mth words caller cap_arrived =
     (if mth = kMethodOwner then step_owner take_cap r words cap_arrived
      else if mth = kMethodUnregister then step_unregister r words cap_arrived
      else
        (case pt_handle (table r) mth words caller kMaxWords of (t', reply) \<Rightarrow>
           let r1 = r\<lparr>table := t'\<rparr>;
               (r2, acts2) =
                 (if mth = kMethodRegister then step_register take_cap r1 words reply cap_arrived
                  else (r1, if cap_arrived then [DropReceived] else []));
               (r3, acts3) =
                 (if mth = kMethodBreak \<and> length reply \<ge> 1 \<and> reply ! 0 = kBreakSet \<and>
                     length words \<ge> 2
                  then step_break mint r2 words else (r2, []))
           in (r3, reply, acts2 @ acts3)))"

section \<open>Where a process sits in the table\<close>

lemma pt_index_set_flags: "pt_index (fst (pt_set_flags t p fl c)) q = pt_index t q"
proof (cases "pt_index t p")
  case None
  then show ?thesis by (simp add: pt_set_flags_def)
next
  case (Some i)
  then have "pid ((rows t)[i := break_row fl (rows t ! i)] ! j) = pid (rows t ! j)" for j
    by (cases "i < length (rows t)") (auto simp: nth_list_update list_update_beyond)
  then show ?thesis
    using Some by (simp add: pt_set_flags_def pt_index_def)
qed

lemma pt_index_add:
  assumes "pt_inv t" "row_wf v" "snd (pt_add t v)"
  shows "pt_index (fst (pt_add t v)) q = (if q = pid v then Some (live_count t) else pt_index t q)"
proof -
  let ?t = "fst (pt_add t v)"
  have inv: "pt_inv ?t" using assms by (simp add: pt.add_inv)
  have t: "?t = t\<lparr>rows := (rows t)[live_count t := seed_row v], live_count := live_count t + 1\<rparr>"
    and room: "live_count t < length (rows t)"
    using assms by (auto simp: pt_add_def pt_inv_def split: if_splits)
  show ?thesis
  proof (cases "q = pid v")
    case True
    with room show ?thesis by (subst pt_index_unique [OF inv]) (auto simp: t)
  next
    case False
    show ?thesis
    proof (cases "pt_index t q")
      case None
      with False room have "pt_index ?t q = None"
        unfolding pt_index_None by (auto simp: t nth_list_update less_Suc_eq)
      with None False show ?thesis by simp
    next
      case (Some j)
      note j = pt_index_Some [OF Some]
      have "pt_index ?t q = Some j"
        by (rule pt_index_unique [OF inv]) (use j in \<open>auto simp: t nth_list_update\<close>)
      with Some False show ?thesis by simp
    qed
  qed
qed

lemma pt_index_remove:
  assumes "pt_inv t" "pt_index t p = Some i"
  shows "pt_index (fst (pt_remove t p)) q =
    (if q = p then None
     else if pt_index t q = Some (live_count t - 1) then Some i else pt_index t q)"
proof -
  let ?t = "fst (pt_remove t p)"
  have inv: "pt_inv ?t" and m: "pt_map ?t = (pt_map t)(p := None)"
    using assms by (simp_all add: pt.remove_inv pt.remove_view)
  have t: "?t = t\<lparr>rows := (rows t)[i := rows t ! (live_count t - 1)], live_count := live_count t - 1\<rparr>"
    using assms(2) by (simp add: pt_remove_def)
  note i = pt_index_Some [OF assms(2)]
  have len: "i < length (rows t)" using i(1) assms(1) by (simp add: pt_inv_def)
  show ?thesis
  proof (cases "q = p \<or> pt_index t q = None")
    case True
    then have "pt_map ?t q = None" using m assms(1) by (auto simp: pt_map_index)
    then have "pt_index ?t q = None" by (simp add: pt_map_index [OF inv])
    with True show ?thesis by auto
  next
    case False
    then obtain j where Some: "pt_index t q = Some j" by auto
    note j = pt_index_Some [OF Some]
    have ne: "j \<noteq> i" using False i(2) j(2) by auto
    have "pt_index ?t q = Some (if j = live_count t - 1 then i else j)"
      by (rule pt_index_unique [OF inv]) (use i(1) j ne len in \<open>auto simp: t nth_list_update\<close>)
    with False Some show ?thesis by auto
  qed
qed

section \<open>The parallel array of break sources\<close>

definition reg_inv :: "registry \<Rightarrow> bool" where
  "reg_inv r \<longleftrightarrow> pt_inv (table r) \<and> length (sources r) = capacity (table r) \<and>
     length (owners r) = capacity (table r) \<and> owner_count r \<le> capacity (table r)"

definition source_of :: "registry \<Rightarrow> u64 \<rightharpoonup> u64" where
  "source_of r p = map_option (\<lambda>i. sources r ! i) (pt_index (table r) p)"

lemma handle_unregister: "1 \<le> cap \<Longrightarrow> fst (pt_handle t kMethodUnregister [p] c cap) = fst (pt_remove t p)"
  by (simp add: pt_handle_def method_defs case_prod_beta)

lemma drop_row_spec:
  assumes "reg_inv r"
  shows "reg_inv (fst (drop_row r p)) \<and> table (fst (drop_row r p)) = fst (pt_remove (table r) p) \<and>
    source_of (fst (drop_row r p)) = (source_of r)(p := None) \<and>
    owners (fst (drop_row r p)) = owners r \<and> slots_next (fst (drop_row r p)) = slots_next r"
proof (cases "pt_index (table r) p")
  case None
  then show ?thesis
    using assms by (auto simp: drop_row_def pt_remove_def source_of_def fun_upd_idem)
next
  case (Some i)
  let ?r = "fst (drop_row r p)" and ?t = "fst (pt_remove (table r) p)"
  have inv: "pt_inv (table r)" and len: "length (sources r) = capacity (table r)"
    using assms by (simp_all add: reg_inv_def)
  note i = pt_index_Some [OF Some]
  have n: "live_count ?t = live_count (table r) - 1" "capacity ?t = capacity (table r)"
    using Some by (simp_all add: pt_remove_def)
  have fields: "table ?r = ?t" "owners ?r = owners r" "owner_count ?r = owner_count r"
      "slots_next ?r = slots_next r"
    and src: "sources ?r = ((sources r)[i := sources r ! (live_count (table r) - 1)])
      [live_count (table r) - 1 := 0]"
    using Some n by (simp_all add: drop_row_def Let_def handle_unregister)
  have "live_count (table r) \<le> length (sources r)"
    using inv len by (simp add: pt_inv_def)
  then have room: "i < length (sources r)" using i(1) by simp
  have "source_of ?r q = ((source_of r)(p := None)) q" for q
  proof (cases "pt_index (table r) q")
    case None
    then show ?thesis
      using Some pt_index_remove [OF inv Some, of q] by (simp add: source_of_def fields)
  next
    case (Some j)
    have "j \<noteq> i \<or> q = p"
      using pt_index_Some(2) [OF Some] i(2) by auto
    then show ?thesis
      using Some \<open>pt_index (table r) p = Some i\<close> pt_index_remove [OF inv \<open>pt_index (table r) p = Some i\<close>, of q]
        pt_index_Some(1) [OF Some] i(1) room
      by (auto simp: source_of_def fields src)
  qed
  moreover have "reg_inv ?r"
    using assms n by (simp add: reg_inv_def fields src pt.remove_inv)
  ultimately show ?thesis using fields by blast
qed

text \<open>Steps that leave the table and the sources alone: everything that only takes a slot.\<close>

definition same_rows :: "registry \<Rightarrow> registry \<Rightarrow> bool" where
  "same_rows r r' \<longleftrightarrow> table r' = table r \<and> sources r' = sources r"

lemma same_rows_alloc [simp]: "same_rows r (fst (reg_alloc_slot r))"
  and reg_inv_alloc [simp]: "reg_inv (fst (reg_alloc_slot r)) = reg_inv r"
  by (simp_all add: same_rows_def reg_alloc_slot_def reg_inv_def)

lemma same_rows_source: "same_rows r r' \<Longrightarrow> source_of r' = source_of r"
  by (simp add: same_rows_def source_of_def fun_eq_iff)

lemma same_rows_trans: "same_rows a b \<Longrightarrow> same_rows b c \<Longrightarrow> same_rows a c"
  by (simp add: same_rows_def)

lemma set_owner_inv:
  "reg_inv r \<Longrightarrow> reg_inv (fst (set_owner r b p)) \<and> same_rows r (fst (set_owner r b p))"
  by (auto simp: set_owner_def reg_inv_def same_rows_def split: option.splits)

lemma signal_flags_inv:
  "reg_inv r \<Longrightarrow> reg_inv (fst (signal_flags mint r s fl)) \<and> same_rows r (fst (signal_flags mint r s fl))"
  by (simp add: signal_flags_def case_prod_beta)

lemma accept_source_inv:
  "reg_inv r \<Longrightarrow> reg_inv (fst (accept_source tc r ca)) \<and> same_rows r (fst (accept_source tc r ca))"
  by (simp add: accept_source_def case_prod_beta) (simp add: same_rows_def)

lemma step_owner_inv:
  assumes "reg_inv r"
  shows "reg_inv (fst (step_owner tc r ws ca)) \<and> same_rows r (fst (step_owner tc r ws ca))"
proof -
  obtain ra slot where a: "reg_alloc_slot r = (ra, slot)" by fastforce
  have ra: "reg_inv ra" "same_rows r ra" using assms reg_inv_alloc [of r] same_rows_alloc [of r] a by auto
  have "same_rows r r" by (simp add: same_rows_def)
  with assms ra show ?thesis
    using set_owner_inv [OF ra(1), of "ws ! 0" slot] same_rows_trans [OF ra(2)]
    by (auto simp: step_owner_def a case_prod_beta Let_def)
qed

lemma step_unregister_fst:
  "fst (step_unregister r ws ca) = (if ws = [] then r else fst (drop_row r (ws ! 0)))"
  by (cases ws) (auto simp: step_unregister_def case_prod_beta Let_def)

lemma step_break_inv:
  assumes "reg_inv r"
  shows "reg_inv (fst (step_break mint r ws)) \<and>
    (source_of (fst (step_break mint r ws)) = source_of r \<or>
     source_of (fst (step_break mint r ws)) = (source_of r)(ws ! 0 := None))"
proof (cases "pt_index (table r) (ws ! 0)")
  case None
  then show ?thesis using assms by (simp add: step_break_def)
next
  case (Some i)
  define fl where "fl = ws ! 1 AND kAttnAll"
  define r1 where "r1 = fst (if sources r ! i \<noteq> 0 then signal_flags mint r (sources r ! i) fl else (r, []))"
  have r1: "reg_inv r1 \<and> source_of r1 = source_of r"
    using signal_flags_inv [OF assms] same_rows_source assms by (auto simp: r1_def)
  have "fst (step_break mint r ws) \<in> {r, r1, fst (drop_row r1 (ws ! 0))}"
    using Some by (auto simp: step_break_def Let_def case_prod_beta fl_def r1_def)
  then show ?thesis
    using r1 assms drop_row_spec [of r1 "ws ! 0"] by auto
qed

lemma registered_source:
  assumes "reg_inv r" and "length ws \<ge> kRowWords"
    and add: "pt_handle (table r) kMethodRegister ws caller kMaxWords = (t', reply)"
  shows "reg_inv (fst (step_register tc (r\<lparr>table := t'\<rparr>) ws reply ca)) \<and>
    (\<forall>p. source_of (fst (step_register tc (r\<lparr>table := t'\<rparr>) ws reply ca)) p = source_of r p \<or>
      p = ws ! 0 \<and> source_of r p = None)"
proof -
  let ?v = "row_of_words ws" and ?r1 = "r\<lparr>table := t'\<rparr>"
  have wf: "row_wf ?v" and inv: "pt_inv (table r)"
    using assms(1,2) by (auto simp: row_wf_row_of_words reg_inv_def)
  have t': "t' = fst (pt_add (table r) ?v)"
    and reply: "reply = [if snd (pt_add (table r) ?v) then kProcessAdded else kProcessRefused]"
    using add assms(2) by (auto simp: pt_handle_def method_defs kMaxWords_def split: prod.splits)
  have inv1: "reg_inv ?r1"
    using assms(1) pt_add_spec [OF inv wf prod.collapse [symmetric]] by (simp add: reg_inv_def t')
  show ?thesis
  proof (cases "snd (pt_add (table r) ?v)")
    case False
    then have "t' = table r" by (auto simp: t' pt_add_def split: if_splits)
    with False show ?thesis
      using assms(1) by (simp add: step_register_def reply answer_defs)
  next
    case True
    have idx: "pt_index t' q = (if q = pid ?v then Some (live_count (table r)) else pt_index (table r) q)" for q
      unfolding t' by (rule pt_index_add [OF inv wf True])
    obtain r2 src acts where a: "accept_source tc ?r1 ca = (r2, src, acts)" by (metis prod_cases3)
    have r2: "reg_inv r2" "same_rows ?r1 r2"
      using accept_source_inv [OF inv1, of tc ca] a by auto
    have st: "fst (step_register tc ?r1 ws reply ca) = r2\<lparr>sources := (sources r)[live_count (table r) := src]\<rparr>"
      using True assms(2) r2(2) idx [of "pid ?v"]
      by (simp add: step_register_def reply answer_defs a same_rows_def)
    have "pt_map (table r) (pid ?v) = None" using True pt.add_ok [OF inv wf] by simp
    then have new: "source_of r (pid ?v) = None" by (simp add: source_of_def pt_map_index [OF inv])
    have "source_of (fst (step_register tc ?r1 ws reply ca)) q = source_of r q" if "q \<noteq> pid ?v" for q
      using that idx [of q] pt_index_Some(1) [of "table r" q] r2(2)
      by (cases "pt_index (table r) q") (auto simp: st source_of_def same_rows_def)
    moreover have "pid ?v = ws ! 0" by (simp add: row_of_words_def)
    moreover have "reg_inv (fst (step_register tc ?r1 ws reply ca))"
      using r2 assms(1) by (simp add: st reg_inv_def same_rows_def)
    ultimately show ?thesis using new by metis
  qed
qed

lemma reg_handle_inv:
  assumes "reg_inv r"
  shows "reg_inv (r\<lparr>table := fst (pt_handle (table r) m ws c cap)\<rparr>)"
proof -
  have inv: "pt_inv (table r)" using assms by (simp add: reg_inv_def)
  have "pt_inv (fst (pt_handle (table r) m ws c cap)) \<and>
      capacity (fst (pt_handle (table r) m ws c cap)) = capacity (table r)"
    by (rule pt_handle_preserves [OF inv])
      (use inv pt_set_flags_spec [OF inv prod.collapse [symmetric]]
        pt_add_spec [OF inv _ prod.collapse [symmetric]]
        pt_remove_spec [OF inv prod.collapse [symmetric]] in auto)
  with assms show ?thesis by (simp add: reg_inv_def)
qed

lemma source_of_handle:
  assumes "m \<noteq> kMethodRegister" "m \<noteq> kMethodUnregister"
  shows "source_of (r\<lparr>table := fst (pt_handle (table r) m ws c cap)\<rparr>) = source_of r"
  using pt_handle_cases [of "table r" m ws c cap] assms
  by (auto simp: source_of_def pt_index_set_flags fun_eq_iff)

lemma registry_step_rows:
  assumes "reg_inv r"
  shows "reg_inv (fst (registry_step mint tc r m ws c ca)) \<and>
    (\<forall>p. source_of (fst (registry_step mint tc r m ws c ca)) p \<in> {source_of r p, None} \<or>
      m = kMethodRegister \<and> p = ws ! 0 \<and> source_of r p = None)"
proof -
  consider "m = kMethodOwner" | "m = kMethodUnregister" | "m = kMethodRegister" | "m = kMethodBreak"
    | "m \<notin> {kMethodOwner, kMethodUnregister, kMethodRegister, kMethodBreak}" by blast
  then show ?thesis
  proof cases
    case 1
    then show ?thesis
      using step_owner_inv [OF assms, of tc ws ca] same_rows_source by (auto simp: registry_step_def)
  next
    case 2
    then show ?thesis
      using assms drop_row_spec [OF assms, of "ws ! 0"]
      by (auto simp: registry_step_def method_defs step_unregister_fst)
  next
    case 3
    obtain t' reply where h: "pt_handle (table r) kMethodRegister ws c kMaxWords = (t', reply)" by fastforce
    have f: "fst (registry_step mint tc r m ws c ca) =
        fst (step_register tc (r\<lparr>table := t'\<rparr>) ws reply ca)"
      using 3 h by (simp add: registry_step_def method_defs case_prod_beta Let_def)
    show ?thesis
    proof (cases "kRowWords \<le> length ws")
      case True
      with registered_source [OF assms True h, of tc ca] f 3 show ?thesis by auto
    next
      case False
      then have "t' = table r" "reply = []" using h by (auto simp: pt_handle_def method_defs)
      with f assms show ?thesis by (simp add: step_register_def)
    qed
  next
    case 4
    let ?r1 = "r\<lparr>table := fst (pt_handle (table r) m ws c kMaxWords)\<rparr>"
    have inv1: "reg_inv ?r1" and src1: "source_of ?r1 = source_of r"
      using reg_handle_inv [OF assms] source_of_handle [of m] 4 by (auto simp: method_defs)
    have "fst (registry_step mint tc r m ws c ca) \<in> {?r1, fst (step_break mint ?r1 ws)}"
      using 4 by (simp add: registry_step_def method_defs case_prod_beta Let_def)
    then show ?thesis
      using inv1 src1 step_break_inv [OF inv1, of mint ws] by (auto split: if_splits)
  next
    case 5
    then have "fst (registry_step mint tc r m ws c ca) = r\<lparr>table := fst (pt_handle (table r) m ws c kMaxWords)\<rparr>"
      by (simp add: registry_step_def case_prod_beta Let_def)
    then show ?thesis
      using reg_handle_inv [OF assms] source_of_handle [of m r ws c kMaxWords] 5 by auto
  qed
qed

text \<open>
  C3. The registry's parallel array of break sources never drifts from its table: over any request
  from any caller, whatever the kernel answers, a process that stays registered keeps the break
  source it was registered with; only a registration of a pid that was not live introduces one.
  In particular unregistering (which moves the last row into the hole) never leaves another
  process with a wrong source.
\<close>

theorem registry_sources_stable:
  assumes "reg_inv r" and "registry_step mint take_cap r mth words caller cap_arrived = (r', reply, acts)"
  shows "reg_inv r' \<and>
    (\<forall>p s s'. source_of r p = Some s \<and> source_of r' p = Some s' \<longrightarrow> s' = s) \<and>
    (\<forall>p. source_of r p = None \<and> source_of r' p \<noteq> None \<longrightarrow> mth = kMethodRegister \<and> p = words ! 0)"
proof -
  have inv: "reg_inv r'"
    and src: "source_of r' p \<in> {source_of r p, None} \<or>
      mth = kMethodRegister \<and> p = words ! 0 \<and> source_of r p = None" for p
    using registry_step_rows [OF assms(1), of mint take_cap mth words caller cap_arrived] assms(2)
    by simp_all
  have "s' = s" if "source_of r p = Some s" "source_of r' p = Some s'" for p s s'
    using src [of p] that by auto
  moreover have "mth = kMethodRegister \<and> p = words ! 0"
    if "source_of r p = None" "source_of r' p \<noteq> None" for p
    using src [of p] that by auto
  ultimately show ?thesis using inv by blast
qed

definition sample_registry :: "u64 \<Rightarrow> registry" where
  "sample_registry next_slot = \<lparr>table = sample_table, sources = [77, 0],
     owners = replicate 2 \<lparr>badge = 0, port = 0\<rparr>, owner_count = 0,
     slots_next = next_slot, slots_end = 100\<rparr>"

lemma sample_registry_inv: "reg_inv (sample_registry n)"
  using sample_table_inv by (simp add: reg_inv_def sample_registry_def sample_table_def)

lemma sample_index: "pt_index sample_table (make_user_badge 1 1) = Some 0"
  by (simp add: pt_index_def sample_table_def sample_row_def)

lemma sample_registry_break:
  "pt_handle sample_table kMethodBreak [make_user_badge 1 1, 1] 0 kMaxWords =
     (sample_table\<lparr>rows := (rows sample_table)[0 := break_row 1 (sample_row (make_user_badge 1 1))]\<rparr>,
      [kBreakSet])"
proof -
  have "may_break 0 p" for p by (simp add: may_break_def is_user_badge_def)
  moreover have "(1 :: u64) AND kAttnAll = 1" by (simp add: kAttnAll_def kAttnC_def)
  moreover have "rows sample_table ! 0 = sample_row (make_user_badge 1 1)"
    by (simp add: sample_table_def)
  ultimately show ?thesis
    by (simp add: pt_handle_def method_defs pt_set_flags_def sample_index kMaxWords_def)
qed

theorem registry_sources_stable_witness:
  "reg_inv (sample_registry 90) \<and>
   source_of (sample_registry 90) (make_user_badge 1 1) = Some 77 \<and>
   (\<exists>r' reply acts. registry_step (\<lambda>_ _ _. True) (\<lambda>_. True) (sample_registry 90) kMethodBreak
      [make_user_badge 1 1, 1] 0 False = (r', reply, acts) \<and> reg_inv r' \<and>
      (\<forall>s'. source_of r' (make_user_badge 1 1) = Some s' \<longrightarrow> s' = 77))"
proof -
  have s: "source_of (sample_registry 90) (make_user_badge 1 1) = Some 77"
    by (simp add: source_of_def sample_registry_def sample_table_def pt_index_def sample_row_def)
  obtain r' reply acts where st: "registry_step (\<lambda>_ _ _. True) (\<lambda>_. True) (sample_registry 90)
      kMethodBreak [make_user_badge 1 1, 1] 0 False = (r', reply, acts)" by (metis prod_cases3)
  note stable = registry_sources_stable [OF sample_registry_inv st]
  from stable have "reg_inv r'" by (rule conjunct1)
  moreover from stable s have "\<forall>s'. source_of r' (make_user_badge 1 1) = Some s' \<longrightarrow> s' = 77" by metis
  ultimately show ?thesis using s sample_registry_inv st by metis
qed

text \<open>Only \<^verbatim>\<open>signal_flags\<close> signals, and it signals what it was given.\<close>

lemma no_signal_drop_row: "SignalFlags s fl \<notin> set (snd (drop_row r p))"
  by (simp add: drop_row_def Let_def split: option.split)

lemma no_signal_halt_owner: "SignalFlags s fl \<notin> set (snd (halt_owner r b p))"
  by (simp add: halt_owner_def split: option.split)

lemma no_signal_set_owner: "SignalFlags s fl \<notin> set (snd (snd (set_owner r b p)))"
  by (simp add: set_owner_def split: option.split)

lemma no_signal_step_owner: "SignalFlags s fl \<notin> set (snd (snd (step_owner tc r ws ca)))"
  using no_signal_set_owner by (auto simp: step_owner_def case_prod_beta Let_def)

lemma no_signal_step_unregister: "SignalFlags s fl \<notin> set (snd (snd (step_unregister r ws ca)))"
  using no_signal_drop_row by (auto simp: step_unregister_def case_prod_beta Let_def)

lemma no_signal_step_register: "SignalFlags s fl \<notin> set (snd (step_register tc r ws rep ca))"
  by (auto simp: step_register_def accept_source_def case_prod_beta Let_def)

lemmas no_signal = no_signal_drop_row no_signal_halt_owner no_signal_step_owner
  no_signal_step_unregister no_signal_step_register

lemma signal_in_signal_flags:
  "SignalFlags s fl \<in> set (snd (signal_flags mint r s' fl')) \<Longrightarrow> s = s' \<and> fl = fl'"
  by (auto simp: signal_flags_def case_prod_beta split: if_splits)

lemma signal_in_step_break:
  assumes "SignalFlags s fl \<in> set (snd (step_break mint r ws))"
  shows "\<exists>i. pt_index (table r) (ws ! 0) = Some i \<and> s = sources r ! i \<and> s \<noteq> 0 \<and>
    fl = ws ! 1 AND kAttnAll \<and> fl \<noteq> 0"
proof (cases "pt_index (table r) (ws ! 0)")
  case None
  with assms show ?thesis by (simp add: step_break_def)
next
  case (Some i)
  define a1 where "a1 = snd (if sources r ! i \<noteq> 0
    then signal_flags mint r (sources r ! i) (ws ! 1 AND kAttnAll) else (r, []))"
  have "SignalFlags s fl \<in> set a1 \<and> ws ! 1 AND kAttnAll \<noteq> 0"
  proof (cases "ws ! 1 AND kAttnAll = 0")
    case True
    with assms Some show ?thesis by (simp add: step_break_def)
  next
    case False
    with assms Some show ?thesis
      by (auto simp: step_break_def Let_def case_prod_beta a1_def no_signal
          split: if_splits)
  qed
  then show ?thesis
    using Some signal_in_signal_flags by (fastforce simp: a1_def split: if_splits)
qed

text \<open>
  C4. A break is only ever signalled to the process the request names, through the source it was
  registered with, with the attention flags of the request, and only when the caller may break it:
  no other request and no caller without authority makes the registry signal anything.
\<close>

theorem break_signal_authority:
  assumes "reg_inv r" and "registry_step mint take_cap r mth words caller cap_arrived = (r', reply, acts)"
    and "SignalFlags s fl \<in> set acts"
  shows "mth = kMethodBreak \<and> may_break caller (words ! 0) \<and>
    source_of r (words ! 0) = Some s \<and> s \<noteq> 0 \<and> fl = words ! 1 AND kAttnAll \<and> fl \<noteq> 0 \<and>
    reply = [kBreakSet]"
proof -
  let ?h = "pt_handle (table r) mth words caller kMaxWords"
  let ?r1 = "r\<lparr>table := fst ?h\<rparr>"
  have "SignalFlags s fl \<in> set (snd (snd (registry_step mint take_cap r mth words caller cap_arrived)))"
    using assms(2,3) by simp
  then have m: "mth = kMethodBreak"
    by (auto simp: registry_step_def no_signal case_prod_beta Let_def split: if_splits)
  then have rep: "reply = snd ?h" "reply \<noteq> []" "reply ! 0 = kBreakSet"
    and act: "SignalFlags s fl \<in> set (snd (step_break mint ?r1 words))"
    using assms(2,3) by (auto simp: registry_step_def method_defs case_prod_beta Let_def split: if_splits)
  have inv: "pt_inv (table r)" using assms(1) by (simp add: reg_inv_def)
  obtain t' ok where sf: "pt_set_flags (table r) (words ! 0) (words ! 1 AND kAttnAll) caller = (t', ok)"
    by fastforce
  have ok: ok and single: "reply = [kBreakSet]"
    using rep m sf by (auto simp: pt_handle_def method_defs answer_defs split: if_splits)
  then have mb: "may_break caller (words ! 0)"
    using pt_set_flags_spec [OF inv sf] by simp
  have src: "source_of ?r1 (words ! 0) = source_of r (words ! 0)"
    using source_of_handle [of mth r words caller kMaxWords] m by (simp add: method_defs)
  obtain i where i: "pt_index (table ?r1) (words ! 0) = Some i" "s = sources r ! i" "s \<noteq> 0"
      "fl = words ! 1 AND kAttnAll" "fl \<noteq> 0"
    using signal_in_step_break [OF act] by auto
  then have "source_of ?r1 (words ! 0) = Some s" by (simp add: source_of_def)
  with src mb m single i show ?thesis by simp
qed

theorem break_signal_authority_witness:
  "\<exists>r' reply acts. registry_step (\<lambda>_ _ _. True) (\<lambda>_. True) (sample_registry 90) kMethodBreak
      [make_user_badge 1 1, 1] 0 False = (r', reply, acts) \<and> SignalFlags 77 1 \<in> set acts \<and>
      may_break 0 (make_user_badge 1 1)"
proof -
  obtain r' reply acts where st: "registry_step (\<lambda>_ _ _. True) (\<lambda>_. True) (sample_registry 90)
      kMethodBreak [make_user_badge 1 1, 1] 0 False = (r', reply, acts)" by (metis prod_cases3)
  let ?t = "sample_table\<lparr>rows := (rows sample_table)[0 := break_row 1 (sample_row (make_user_badge 1 1))]\<rparr>"
  let ?r = "(sample_registry 90)\<lparr>table := ?t\<rparr>"
  have tab: "table (sample_registry 90) = sample_table" by (simp add: sample_registry_def)
  have "acts = snd (snd (registry_step (\<lambda>_ _ _. True) (\<lambda>_. True) (sample_registry 90)
      kMethodBreak [make_user_badge 1 1, 1] 0 False))" by (simp add: st)
  also have "\<dots> = snd (step_break (\<lambda>_ _ _. True) ?r [make_user_badge 1 1, 1])"
    using sample_registry_break
    by (simp add: registry_step_def tab case_prod_beta Let_def method_defs)
  also have "SignalFlags 77 1 \<in> set \<dots>"
  proof -
    have idx: "pt_index ?t (make_user_badge 1 1) = Some 0"
      by (simp add: pt_index_def sample_table_def sample_row_def)
    have src: "sources (sample_registry 90) ! 0 = 77" by (simp add: sample_registry_def)
    have fl: "(1 :: u64) AND kAttnAll = 1" by (simp add: kAttnAll_def kAttnC_def)
    have sig: "snd (signal_flags (\<lambda>_ _ _. True) ?r 77 1) = [SignalFlags 77 1, CNodeDelete 90]"
      by (simp add: signal_flags_def reg_alloc_slot_def sample_registry_def)
    show ?thesis
      by (simp add: step_break_def idx src fl case_prod_beta sig Let_def del: registry.simps)
  qed
  finally have a: "SignalFlags 77 1 \<in> set acts" .
  show ?thesis
    using st a break_signal_authority [OF sample_registry_inv st a] by auto
qed

section \<open>The cost of a break\<close>

lemma drop_row_slots [simp]: "slots_next (fst (drop_row r p)) = slots_next r"
  by (simp add: drop_row_def Let_def split: option.split)

lemma signal_flags_slots:
  "slots_next (fst (signal_flags mint r s fl)) =
     (if slots_next r < slots_end r then slots_next r + 1 else slots_next r)"
  "\<not> slots_next r < slots_end r \<Longrightarrow> snd (signal_flags mint r s fl) = []"
  by (auto simp: signal_flags_def reg_alloc_slot_def word_neq_0_conv not_less)

lemma step_break_slots:
  assumes "pt_index (table r) (ws ! 0) = Some i" and "sources r ! i \<noteq> 0" and "ws ! 1 AND kAttnAll \<noteq> 0"
  shows "slots_next (fst (step_break mint r ws)) =
      slots_next (fst (signal_flags mint r (sources r ! i) (ws ! 1 AND kAttnAll)))"
    and "snd (signal_flags mint r (sources r ! i) (ws ! 1 AND kAttnAll)) = [] \<Longrightarrow>
      SignalFlags s fl \<notin> set (snd (step_break mint r ws))"
  using assms by (simp_all add: step_break_def Let_def case_prod_beta no_signal)

text \<open>
  Every break the registry accepts for a process that has a break source spends one slot of its
  run for good: the slot the flag-badged copy was minted into is emptied but never handed back, so
  the cursor moves by one per break. Once the run is spent the registry still answers \<^verbatim>\<open>kBreakSet\<close>,
  and the process is not signalled.
\<close>

lemma break_spends_slot:
  assumes "registry_step mint take_cap r kMethodBreak words caller cap_arrived = (r', [kBreakSet], acts)"
    and "2 \<le> length words" and "source_of r (words ! 0) = Some s" and "s \<noteq> 0"
    and "words ! 1 AND kAttnAll \<noteq> 0"
  shows "(slots_next r < slots_end r \<longrightarrow> slots_next r' = slots_next r + 1) \<and>
    (\<not> slots_next r < slots_end r \<longrightarrow> slots_next r' = slots_next r \<and> (\<forall>src fl. SignalFlags src fl \<notin> set acts))"
proof -
  let ?r1 = "r\<lparr>table := fst (pt_handle (table r) kMethodBreak words caller kMaxWords)\<rparr>"
  have "source_of ?r1 (words ! 0) = Some s"
    using source_of_handle [of kMethodBreak r words caller kMaxWords] assms(3) by (simp add: method_defs)
  then obtain i where i: "pt_index (table ?r1) (words ! 0) = Some i" "sources ?r1 ! i \<noteq> 0"
    using assms(4) by (auto simp: source_of_def)
  have st: "r' = fst (step_break mint ?r1 words)"
      "\<And>src fl. SignalFlags src fl \<in> set acts \<longleftrightarrow> SignalFlags src fl \<in> set (snd (step_break mint ?r1 words))"
    using assms(1,2) by (auto simp: registry_step_def method_defs case_prod_beta Let_def split: if_splits)
  show ?thesis
    using step_break_slots [OF i assms(5), of mint] signal_flags_slots (1) [of mint ?r1] signal_flags_slots(2) [of ?r1 mint]
    by (simp add: st)
qed

lemma break_spends_slot_witness:
  "\<exists>r' acts. registry_step (\<lambda>_ _ _. True) (\<lambda>_. True) (sample_registry 100) kMethodBreak
      [make_user_badge 1 1, 1] 0 False = (r', [kBreakSet], acts) \<and>
      (\<forall>src fl. SignalFlags src fl \<notin> set acts)"
proof -
  obtain r' acts where st: "registry_step (\<lambda>_ _ _. True) (\<lambda>_. True) (sample_registry 100)
      kMethodBreak [make_user_badge 1 1, 1] 0 False = (r', [kBreakSet], acts)"
    using sample_registry_break
    by (simp add: registry_step_def method_defs case_prod_beta sample_registry_def Let_def)
  have src: "source_of (sample_registry 100) (make_user_badge 1 1) = Some 77"
    by (simp add: source_of_def sample_registry_def sample_index)
  have "\<not> slots_next (sample_registry 100) < slots_end (sample_registry 100)"
    by (simp add: sample_registry_def)
  moreover have "(1 :: u64) AND kAttnAll \<noteq> 0" by (simp add: kAttnAll_def kAttnC_def)
  ultimately have "\<forall>src fl. SignalFlags src fl \<notin> set acts"
    using break_spends_slot [OF st _ _ _, of 77] src by simp
  with st show ?thesis by blast
qed

end
