(* ===== verification/Slot_Pool.thy ===== *)
theory Slot_Pool
  imports Aegir_Prelude
begin

text \<open>
  The shared capability-slot pool of \<^verbatim>\<open>src/libs/freestanding/aegir-mem/include/aegir/mem/slot_pool.h\<close>:
  one contiguous range of a CSpace and the caller's owner table beside it (zero is free). The file
  models every member of the class, gives the pool the abstract reading \<open>slot holder\<close> (which owner
  holds which slot), and states the contract a client of the pool relies on as the locale
  \<open>slot_source\<close>.
\<close>

section \<open>The pool\<close>

text \<open>
  \<open>sp_owners = None\<close> is the null pointer of a pool that adopted nothing. The loop counters run over
  the caller's table, so they are natural numbers; the slot names are machine words and the
  additions on them wrap.
\<close>

record slot_pool =
  sp_first :: u64
  sp_count :: nat
  sp_owners :: "u32 list option"
  sp_descend :: bool

definition sp_empty :: slot_pool where
  "sp_empty = \<lparr>sp_first = 0, sp_count = 0, sp_owners = None, sp_descend = False\<rparr>"

definition sp_adopt :: "u64 \<Rightarrow> nat \<Rightarrow> u32 list \<Rightarrow> bool \<Rightarrow> slot_pool" where
  "sp_adopt first cnt os descend =
     \<lparr>sp_first = first, sp_count = cnt, sp_owners = Some (replicate cnt 0 @ drop cnt os),
      sp_descend = descend\<rparr>"

definition sp_at :: "slot_pool \<Rightarrow> nat \<Rightarrow> nat" where
  "sp_at p i = (if sp_descend p then sp_count p - 1 - i else i)"

definition sp_alloc :: "slot_pool \<Rightarrow> u32 \<Rightarrow> slot_pool \<times> u64" where
  "sp_alloc p owner =
     (case sp_owners p of
        None \<Rightarrow> (p, 0)
      | Some os \<Rightarrow>
          (case find (\<lambda>i. os ! sp_at p i = 0) [0..< sp_count p] of
             None \<Rightarrow> (p, 0)
           | Some i \<Rightarrow>
               (p\<lparr>sp_owners := Some (os[sp_at p i := owner])\<rparr>, sp_first p + of_nat (sp_at p i))))"

definition sp_run_free :: "u32 list \<Rightarrow> nat \<Rightarrow> nat \<Rightarrow> bool" where
  "sp_run_free os start cnt \<longleftrightarrow> (\<forall>j\<in>set [0..<cnt]. os ! (start + j) = 0)"

definition sp_alloc_run :: "slot_pool \<Rightarrow> nat \<Rightarrow> u32 \<Rightarrow> slot_pool \<times> u64" where
  "sp_alloc_run p cnt owner =
     (case sp_owners p of
        None \<Rightarrow> (p, 0)
      | Some os \<Rightarrow>
          if cnt = 0 \<or> cnt > sp_count p then (p, 0)
          else
            (case find (\<lambda>start. sp_run_free os start cnt) [0..<Suc (sp_count p - cnt)] of
               None \<Rightarrow> (p, 0)
             | Some start \<Rightarrow>
                 (p\<lparr>sp_owners := Some (bsplice start (replicate cnt owner) os)\<rparr>,
                  sp_first p + of_nat start)))"

definition sp_free :: "slot_pool \<Rightarrow> u64 \<Rightarrow> u32 \<Rightarrow> slot_pool" where
  "sp_free p slot owner =
     (case sp_owners p of
        None \<Rightarrow> p
      | Some os \<Rightarrow>
          if slot \<ge> sp_first p \<and> slot < sp_first p + of_nat (sp_count p) \<and>
             os ! unat (slot - sp_first p) = owner
          then p\<lparr>sp_owners := Some (os[unat (slot - sp_first p) := 0])\<rparr>
          else p)"

definition sp_free_owner :: "slot_pool \<Rightarrow> u32 \<Rightarrow> slot_pool" where
  "sp_free_owner p owner =
     (case sp_owners p of
        None \<Rightarrow> p
      | Some os \<Rightarrow>
          p\<lparr>sp_owners := Some (map (\<lambda>o'. if o' = owner then 0 else o') (take (sp_count p) os) @
                              drop (sp_count p) os)\<rparr>)"

definition sp_used :: "slot_pool \<Rightarrow> nat" where
  "sp_used p =
     (case sp_owners p of
        None \<Rightarrow> 0
      | Some os \<Rightarrow> length (filter (\<lambda>o'. o' \<noteq> 0) (take (sp_count p) os)))"

section \<open>The invariant and the abstract reading\<close>

text \<open>
  A pool in use: its table covers the range, and the range is one the CSpace can have, above the
  null capability and without wrapping round the end of the word.
\<close>

definition sp_inv :: "slot_pool \<Rightarrow> bool" where
  "sp_inv p \<longleftrightarrow>
     (case sp_owners p of
        None \<Rightarrow> sp_count p = 0
      | Some os \<Rightarrow> sp_count p \<le> length os) \<and>
     (sp_count p > 0 \<longrightarrow> 0 < sp_first p) \<and> unat (sp_first p) + sp_count p < 2 ^ 64"

definition sp_table :: "slot_pool \<Rightarrow> u32 list" where
  "sp_table p = (case sp_owners p of None \<Rightarrow> [] | Some os \<Rightarrow> take (sp_count p) os)"

text \<open>Position \<open>i\<close> of the table is the slot \<open>first + i\<close>.\<close>

definition sp_slot :: "slot_pool \<Rightarrow> nat \<Rightarrow> u64" where
  "sp_slot p i = sp_first p + of_nat i"

text \<open>Whom a slot belongs to: \<open>None\<close> outside the range, \<open>Some 0\<close> while it is free.\<close>

definition slot_holder :: "slot_pool \<Rightarrow> u64 \<rightharpoonup> u32" where
  "slot_holder p s =
     (let i = unat (s - sp_first p)
      in if sp_first p \<le> s \<and> i < length (sp_table p) then Some (sp_table p ! i) else None)"

text \<open>A client that asks for one slot after another, until it has \<open>n\<close> or the source is dry.\<close>

fun alloc_seq :: "('p \<Rightarrow> u32 \<Rightarrow> 'p \<times> u64) \<Rightarrow> 'p \<Rightarrow> u32 \<Rightarrow> nat \<Rightarrow> 'p \<times> u64 list" where
  "alloc_seq al p owner 0 = (p, [])"
| "alloc_seq al p owner (Suc n) =
     (case al p owner of (p', s) \<Rightarrow>
        if s = 0 then (p', [])
        else (case alloc_seq al p' owner n of (p'', ss) \<Rightarrow> (p'', s # ss)))"

section \<open>The contract of a slot source\<close>

text \<open>
  What a client of a slot allocator relies on: a slot it is given was free and is now its own, no
  other slot changed hands, and a refusal means nothing was free.
\<close>

locale slot_source =
  fixes inv :: "'p \<Rightarrow> bool"
    and holder :: "'p \<Rightarrow> u64 \<rightharpoonup> u32"
    and al :: "'p \<Rightarrow> u32 \<Rightarrow> 'p \<times> u64"
  assumes al_inv: "inv p \<Longrightarrow> al p owner = (p', s) \<Longrightarrow> inv p'"
    and al_fresh: "inv p \<Longrightarrow> al p owner = (p', s) \<Longrightarrow> s \<noteq> 0 \<Longrightarrow>
      holder p s = Some 0 \<and> holder p' = (holder p)(s \<mapsto> owner)"
    and al_full: "inv p \<Longrightarrow> al p owner = (p', 0) \<Longrightarrow> p' = p \<and> (\<forall>s. holder p s \<noteq> Some 0)"
begin

lemma seq_inv: "inv p \<Longrightarrow> alloc_seq al p owner n = (p', ss) \<Longrightarrow> inv p'"
proof (induction n arbitrary: p ss)
  case 0
  then show ?case by simp
next
  case (Suc n)
  obtain p1 s where s: "al p owner = (p1, s)" by fastforce
  then have "inv p1" using al_inv Suc.prems(1) by blast
  then show ?case
    using Suc s by (cases "s = 0") (auto simp: case_prod_beta prod_eq_iff)
qed

lemma seq_fresh:
  assumes "inv p" and "owner \<noteq> 0" and "alloc_seq al p owner n = (p', ss)"
  shows "distinct ss \<and> (\<forall>s\<in>set ss. s \<noteq> 0 \<and> holder p s = Some 0) \<and>
    holder p' = (\<lambda>s. if s \<in> set ss then Some owner else holder p s) \<and>
    (length ss < n \<longrightarrow> (\<forall>s. holder p' s \<noteq> Some 0)) \<and> length ss \<le> n"
  using assms
proof (induction n arbitrary: p ss)
  case 0
  then show ?case by auto
next
  case (Suc n)
  obtain p1 s where s: "al p owner = (p1, s)" by fastforce
  have i1: "inv p1" using s al_inv Suc.prems(1) by blast
  show ?case
  proof (cases "s = 0")
    case True
    then show ?thesis
      using Suc.prems s al_full [of p owner p1] by auto
  next
    case False
    obtain ss' where ss': "alloc_seq al p1 owner n = (p', ss')" "ss = s # ss'"
      using Suc.prems(3) s False by (auto simp: case_prod_beta prod_eq_iff)
    have f: "holder p s = Some 0" "holder p1 = (holder p)(s \<mapsto> owner)"
      using al_fresh [OF Suc.prems(1) s False] by auto
    note ih = Suc.IH [OF i1 Suc.prems(2) ss'(1)]
    have n: "s \<notin> set ss'"
      using ih f(2) Suc.prems(2) by auto
    have old: "\<forall>x\<in>set ss'. x \<noteq> 0 \<and> holder p x = Some 0"
      using ih f(2) n by (metis fun_upd_other)
    have "holder p' = (\<lambda>x. if x \<in> set ss then Some owner else holder p x)"
      using ih f(2) ss'(2) by (intro ext) simp
    moreover have "length ss < Suc n \<longrightarrow> (\<forall>x. holder p' x \<noteq> Some 0)"
      using ih ss'(2) by (metis Suc_less_eq length_Cons)
    moreover have "distinct ss" "\<forall>x\<in>set ss. x \<noteq> 0 \<and> holder p x = Some 0" "length ss \<le> Suc n"
      using ih n old f(1) False ss'(2) by simp_all
    ultimately show ?thesis by blast
  qed
qed

end

section \<open>Slots and positions\<close>

lemma sp_slot_position:
  assumes "sp_inv p" and "i < sp_count p"
  shows "sp_first p \<le> sp_slot p i \<and> unat (sp_slot p i - sp_first p) = i \<and> sp_slot p i \<noteq> 0"
proof -
  have b: "unat (sp_first p) + i < 2 ^ 64" "i < 2 ^ 64" "0 < unat (sp_first p)"
    using assms by (auto simp: sp_inv_def word_less_nat_alt)
  have u: "unat (sp_slot p i) = unat (sp_first p) + i"
    using b by (simp add: sp_slot_def unat_word_ariths unat_of_nat take_bit_eq_mod)
  have "unat (sp_slot p i - sp_first p) = i"
    using b by (simp add: sp_slot_def unat_of_nat take_bit_eq_mod)
  then show ?thesis
    using u b(3) by (auto simp: word_le_nat_alt)
qed

lemma sp_slot_inj:
  "sp_inv p \<Longrightarrow> i < sp_count p \<Longrightarrow> j < sp_count p \<Longrightarrow> sp_slot p i = sp_slot p j \<longleftrightarrow> i = j"
  using sp_slot_position by metis

lemma length_sp_table [simp]: "sp_inv p \<Longrightarrow> length (sp_table p) = sp_count p"
  by (auto simp: sp_inv_def sp_table_def split: option.splits)

lemma slot_holder_slot:
  "sp_inv p \<Longrightarrow> i < sp_count p \<Longrightarrow> slot_holder p (sp_slot p i) = Some (sp_table p ! i)"
  using sp_slot_position [of p i] by (simp add: slot_holder_def)

lemma slot_holder_Some:
  assumes "sp_inv p"
  shows "slot_holder p s = Some x \<longleftrightarrow> (\<exists>i< sp_count p. s = sp_slot p i \<and> sp_table p ! i = x)"
proof
  assume "slot_holder p s = Some x"
  then have "unat (s - sp_first p) < sp_count p" "sp_table p ! unat (s - sp_first p) = x"
    using assms by (auto simp: slot_holder_def Let_def split: if_splits)
  moreover have "s = sp_slot p (unat (s - sp_first p))"
    by (simp add: sp_slot_def)
  ultimately show "\<exists>i< sp_count p. s = sp_slot p i \<and> sp_table p ! i = x" by blast
qed (use assms slot_holder_slot in auto)

text \<open>Two pools over the same range have the holders their tables say.\<close>

lemma slot_holder_ext:
  assumes "sp_inv p" and "sp_inv p'" and "sp_first p' = sp_first p" and "sp_count p' = sp_count p"
    and "\<And>i. i < sp_count p \<Longrightarrow> Some (sp_table p' ! i) = h (sp_slot p i)"
    and "\<And>s. slot_holder p s = None \<Longrightarrow> h s = None"
  shows "slot_holder p' = h"
proof
  fix s
  show "slot_holder p' s = h s"
  proof (cases "slot_holder p s")
    case None
    then have "slot_holder p' s = None"
      using assms(1-4) by (auto simp: slot_holder_def Let_def split: if_splits)
    then show ?thesis using assms(6) None by simp
  next
    case (Some x)
    then obtain i where i: "i < sp_count p" "s = sp_slot p i"
      using slot_holder_Some [OF assms(1)] by blast
    moreover have "sp_slot p' i = sp_slot p i"
      using assms(3) by (simp add: sp_slot_def)
    ultimately show ?thesis
      using slot_holder_slot [OF assms(2), of i] assms(4,5) by simp
  qed
qed

lemma sp_inv_owners_update:
  "sp_inv p \<Longrightarrow> sp_owners p = Some os \<Longrightarrow> length os' = length os \<Longrightarrow>
   sp_inv (p\<lparr>sp_owners := Some os'\<rparr>)"
  by (simp add: sp_inv_def)

section \<open>The operations against the abstract reading\<close>

lemma sp_at_less: "i < sp_count p \<Longrightarrow> sp_at p i < sp_count p"
  by (auto simp: sp_at_def)

lemma sp_at_surj: "j < sp_count p \<Longrightarrow> \<exists>i< sp_count p. sp_at p i = j"
  by (cases "sp_descend p") (auto simp: sp_at_def intro: exI [of _ "sp_count p - 1 - j"])

lemma find_SomeD: "find P xs = Some x \<Longrightarrow> x \<in> set xs \<and> P x"
  by (induction xs) (auto split: if_splits)

lemma sp_alloc_cases:
  assumes "sp_inv p" and "sp_alloc p owner = (p', s)"
  obtains (full) "p' = p" "s = 0" "\<forall>i< sp_count p. sp_table p ! i \<noteq> 0"
  | (got) os i where "sp_owners p = Some os" "i < sp_count p" "sp_table p ! i = 0"
      "p' = p\<lparr>sp_owners := Some (os[i := owner])\<rparr>" "s = sp_slot p i"
proof (cases "sp_owners p")
  case None
  then show ?thesis
    using assms full by (auto simp: sp_alloc_def sp_inv_def)
next
  case (Some os)
  have tab: "sp_table p ! i = os ! i" if "i < sp_count p" for i
    using that Some by (simp add: sp_table_def)
  show ?thesis
  proof (cases "find (\<lambda>i. os ! sp_at p i = 0) [0..< sp_count p]")
    case None
    then have n: "\<forall>i< sp_count p. os ! sp_at p i \<noteq> 0"
      by (auto simp: find_None_iff)
    have "\<forall>j< sp_count p. sp_table p ! j \<noteq> 0"
      using n sp_at_surj [of _ p] tab by metis
    then show ?thesis
      using assms(2) Some None full by (auto simp: sp_alloc_def)
  next
    case (Some i)
    then have "i < sp_count p" "os ! sp_at p i = 0"
      using find_SomeD [OF Some] by auto
    then show ?thesis
      using assms(2) \<open>sp_owners p = Some os\<close> Some tab [OF sp_at_less] sp_at_less
      by (intro got [of os "sp_at p i"]) (auto simp: sp_alloc_def sp_slot_def)
  qed
qed

lemma sp_table_update:
  "sp_owners p = Some os \<Longrightarrow> i < sp_count p \<Longrightarrow>
   sp_table (p\<lparr>sp_owners := Some (os[i := x])\<rparr>) = (sp_table p)[i := x]"
  by (simp add: sp_table_def take_update_swap)

lemma slot_holder_update:
  assumes "sp_inv p" and "sp_owners p = Some os" and "i < sp_count p"
  shows "slot_holder (p\<lparr>sp_owners := Some (os[i := x])\<rparr>) = (slot_holder p)(sp_slot p i \<mapsto> x)"
  using assms slot_holder_slot [OF assms(1)] sp_slot_inj [OF assms(1)]
  by (intro slot_holder_ext [OF assms(1) sp_inv_owners_update [OF assms(1,2)]])
    (auto simp: sp_table_update nth_list_update)

lemma sp_alloc_inv: "sp_inv p \<Longrightarrow> sp_alloc p owner = (p', s) \<Longrightarrow> sp_inv p'"
  by (rule sp_alloc_cases) (auto intro: sp_inv_owners_update)

lemma sp_alloc_fresh:
  assumes "sp_inv p" and "sp_alloc p owner = (p', s)" and "s \<noteq> 0"
  shows "slot_holder p s = Some 0 \<and> slot_holder p' = (slot_holder p)(s \<mapsto> owner)"
  using assms(1,2)
proof (cases rule: sp_alloc_cases)
  case full
  then show ?thesis using assms(3) by simp
next
  case (got os i)
  then show ?thesis
    using assms(1) slot_holder_slot slot_holder_update by simp
qed

lemma sp_alloc_full:
  assumes "sp_inv p" and "sp_alloc p owner = (p', 0)"
  shows "p' = p \<and> (\<forall>s. slot_holder p s \<noteq> Some 0)"
  using assms
proof (cases rule: sp_alloc_cases)
  case full
  then show ?thesis using slot_holder_Some [OF assms(1)] by auto
next
  case (got os i)
  then show ?thesis using sp_slot_position [OF assms(1)] by metis
qed

interpretation sp: slot_source sp_inv slot_holder sp_alloc
proof unfold_locales
  show "sp_inv p \<Longrightarrow> sp_alloc p owner = (p', s) \<Longrightarrow> sp_inv p'" for p owner p' s
    by (rule sp_alloc_inv)
  show "sp_inv p \<Longrightarrow> sp_alloc p owner = (p', s) \<Longrightarrow> s \<noteq> 0 \<Longrightarrow>
    slot_holder p s = Some 0 \<and> slot_holder p' = (slot_holder p)(s \<mapsto> owner)" for p owner p' s
    by (rule sp_alloc_fresh)
  show "sp_inv p \<Longrightarrow> sp_alloc p owner = (p', 0) \<Longrightarrow> p' = p \<and> (\<forall>s. slot_holder p s \<noteq> Some 0)"
    for p owner p'
    by (rule sp_alloc_full)
qed

text \<open>A run is handed out whole, and refused only when no run of that length is free.\<close>

lemma sp_alloc_run_spec:
  assumes "sp_inv p" and "sp_alloc_run p n owner = (p', s)"
  shows "sp_inv p' \<and>
    (if s = 0 then p' = p \<and>
        (0 < n \<longrightarrow> \<not> (\<exists>start. start + n \<le> sp_count p \<and> (\<forall>j<n. sp_table p ! (start + j) = 0)))
     else 0 < n \<and> (\<exists>start. start + n \<le> sp_count p \<and> s = sp_slot p start \<and>
        (\<forall>j<n. sp_table p ! (start + j) = 0) \<and>
        sp_table p' = bsplice start (replicate n owner) (sp_table p)))"
proof (cases "sp_owners p")
  case None
  then show ?thesis
    using assms by (auto simp: sp_alloc_run_def sp_inv_def)
next
  case (Some os)
  have len: "sp_count p \<le> length os"
    using assms(1) Some by (simp add: sp_inv_def)
  have rf: "sp_run_free os start n \<longleftrightarrow> (\<forall>j<n. sp_table p ! (start + j) = 0)"
    if "start + n \<le> sp_count p" for start
    using that Some by (auto simp: sp_run_free_def sp_table_def)
  consider (none) "n = 0 \<or> n > sp_count p"
    | (search) "0 < n" "n \<le> sp_count p" by linarith
  then show ?thesis
  proof cases
    case none
    then show ?thesis
      using assms Some by (auto simp: sp_alloc_run_def)
  next
    case search
    show ?thesis
    proof (cases "find (\<lambda>start. sp_run_free os start n) [0..<Suc (sp_count p - n)]")
      case None
      then have "\<not> sp_run_free os start n" if "start + n \<le> sp_count p" for start
        using that by (simp add: find_None_iff del: upt_Suc)
      then have "\<not> (\<exists>start. start + n \<le> sp_count p \<and> (\<forall>j<n. sp_table p ! (start + j) = 0))"
        using rf by blast
      moreover have "p' = p" "s = 0"
        using assms(2) Some None search by (auto simp: sp_alloc_run_def simp del: upt_Suc)
      ultimately show ?thesis using assms(1) by simp
    next
      case (Some start)
      then have st: "start + n \<le> sp_count p" "sp_run_free os start n"
        using find_SomeD [OF Some] search by auto
      then have p': "p' = p\<lparr>sp_owners := Some (bsplice start (replicate n owner) os)\<rparr>"
        and s: "s = sp_slot p start"
        using assms(2) Some search \<open>sp_owners p = Some os\<close>
        by (auto simp: sp_alloc_run_def sp_slot_def simp del: upt_Suc)
      have "s \<noteq> 0"
        using s sp_slot_position [OF assms(1), of start] st search by simp
      moreover have "sp_inv p'"
        unfolding p' using st len
        by (intro sp_inv_owners_update [OF assms(1) \<open>sp_owners p = Some os\<close>]) simp
      moreover have "sp_table p' = bsplice start (replicate n owner) (sp_table p)"
        using st len by (simp add: p' sp_table_def bsplice_def \<open>sp_owners p = Some os\<close> drop_take)
      ultimately show ?thesis
        using st s rf search(1) by auto
    qed
  qed
qed

lemma bsplice_replicate_nth:
  "at + n \<le> length xs \<Longrightarrow> i < length xs \<Longrightarrow>
   bsplice at (replicate n x) xs ! i = (if at \<le> i \<and> i < at + n then x else xs ! i)"
  by (subst nth_bsplice) auto

lemma sp_free_holder:
  assumes "sp_inv p"
  shows "sp_inv (sp_free p slot owner) \<and>
    slot_holder (sp_free p slot owner) =
      (if slot_holder p slot = Some owner then (slot_holder p)(slot \<mapsto> 0) else slot_holder p)"
proof (cases "sp_owners p")
  case None
  then have "slot_holder p slot \<noteq> Some owner"
    by (simp add: slot_holder_def sp_table_def)
  then show ?thesis using assms None by (simp add: sp_free_def)
next
  case (Some os)
  let ?i = "unat (slot - sp_first p)"
  have top: "unat (sp_first p + of_nat (sp_count p)) = unat (sp_first p) + sp_count p"
    using assms by (simp add: sp_inv_def unat_word_ariths unat_of_nat take_bit_eq_mod)
  have in_range: "slot < sp_first p + of_nat (sp_count p) \<longleftrightarrow> ?i < sp_count p"
    if "sp_first p \<le> slot"
    using that top unat_sub [OF that] by (auto simp: word_less_nat_alt word_le_nat_alt)
  have cond: "slot \<ge> sp_first p \<and> slot < sp_first p + of_nat (sp_count p) \<and> os ! ?i = owner \<longleftrightarrow>
      slot_holder p slot = Some owner"
    using in_range Some assms by (auto simp: slot_holder_def Let_def sp_table_def sp_inv_def)
  show ?thesis
  proof (cases "slot_holder p slot = Some owner")
    case True
    have "slot = sp_slot p ?i" by (simp add: sp_slot_def)
    moreover have "?i < sp_count p" using cond True in_range by blast
    ultimately have "slot_holder (p\<lparr>sp_owners := Some (os[?i := 0])\<rparr>) =
        (slot_holder p)(slot \<mapsto> 0)"
      using slot_holder_update [OF assms Some, of ?i 0] by simp
    then show ?thesis
      using cond True Some sp_inv_owners_update [OF assms Some] by (simp add: sp_free_def)
  next
    case False
    then show ?thesis using cond Some assms by (auto simp: sp_free_def)
  qed
qed

lemma sp_free_owner_holder:
  assumes "sp_inv p"
  shows "sp_inv (sp_free_owner p owner) \<and>
    slot_holder (sp_free_owner p owner) =
      (\<lambda>s. if slot_holder p s = Some owner then Some 0 else slot_holder p s)"
proof (cases "sp_owners p")
  case None
  then have "slot_holder p = (\<lambda>s. None)"
    by (simp add: slot_holder_def sp_table_def fun_eq_iff)
  then show ?thesis using assms None by (simp add: sp_free_owner_def)
next
  case (Some os)
  have len: "sp_count p \<le> length os"
    using assms Some by (simp add: sp_inv_def)
  let ?p' = "sp_free_owner p owner"
  have i': "sp_inv ?p'"
    using Some len by (auto simp: sp_free_owner_def intro!: sp_inv_owners_update [OF assms Some])
  have "slot_holder ?p' = (\<lambda>s. if slot_holder p s = Some owner then Some 0 else slot_holder p s)"
  proof (rule slot_holder_ext [OF assms i'])
    show "sp_first ?p' = sp_first p" "sp_count ?p' = sp_count p"
      using Some by (simp_all add: sp_free_owner_def)
    show "Some (sp_table ?p' ! i) =
        (if slot_holder p (sp_slot p i) = Some owner then Some 0 else slot_holder p (sp_slot p i))"
      if "i < sp_count p" for i
      using that Some len slot_holder_slot [OF assms that]
      by (simp add: sp_free_owner_def sp_table_def nth_append)
  qed simp
  with i' show ?thesis by simp
qed

lemma sp_used_free:
  assumes "sp_inv p"
  shows "sp_used p = card {s. \<exists>x. slot_holder p s = Some x \<and> x \<noteq> 0} \<and> sp_used p \<le> sp_count p"
proof -
  have u: "sp_used p = length (filter (\<lambda>x. x \<noteq> 0) (sp_table p))"
    by (simp add: sp_used_def sp_table_def split: option.splits)
  have "{s. \<exists>x. slot_holder p s = Some x \<and> x \<noteq> 0} =
      sp_slot p ` {i. i < length (sp_table p) \<and> sp_table p ! i \<noteq> 0}"
    using slot_holder_Some [OF assms] assms by auto
  moreover have "inj_on (sp_slot p) {i. i < length (sp_table p) \<and> sp_table p ! i \<noteq> 0}"
    using sp_slot_inj [OF assms] assms by (auto simp: inj_on_def)
  ultimately have "card {s. \<exists>x. slot_holder p s = Some x \<and> x \<noteq> 0} =
      card {i. i < length (sp_table p) \<and> sp_table p ! i \<noteq> 0}"
    by (simp add: card_image)
  then show ?thesis
    using u assms length_filter_le [of "\<lambda>x. x \<noteq> 0" "sp_table p"]
    by (simp add: length_filter_conv_card)
qed

text \<open>A run of positions, read as slots: when it is free, and what marking it does.\<close>

lemma run_holder_free:
  assumes "sp_inv p" and "start + n \<le> sp_count p"
  shows "(\<forall>j<n. slot_holder p (sp_first p + of_nat (start + j)) = Some 0) \<longleftrightarrow>
    (\<forall>j<n. sp_table p ! (start + j) = 0)"
  using slot_holder_slot [OF assms(1)] assms(2) unfolding sp_slot_def [symmetric] by auto

lemma slot_holder_run:
  assumes "sp_inv p" and "sp_inv p'" and "sp_first p' = sp_first p" and "sp_count p' = sp_count p"
    and "start + n \<le> sp_count p" and "sp_table p' = bsplice start (replicate n owner) (sp_table p)"
  shows "slot_holder p' =
    (\<lambda>t. if \<exists>j<n. t = sp_slot p start + of_nat j then Some owner else slot_holder p t)"
proof (rule slot_holder_ext [OF assms(1-4)])
  have s: "sp_slot p start + of_nat j = sp_slot p (start + j)" for j
    by (simp add: sp_slot_def)
  fix i assume i: "i < sp_count p"
  have "(\<exists>j<n. sp_slot p i = sp_slot p start + of_nat j) \<longleftrightarrow> start \<le> i \<and> i < start + n"
    using sp_slot_inj [OF assms(1) i] assms(5) unfolding s
    by (metis add.commute add_less_cancel_left le_add1 le_add_diff_inverse order_less_le_trans)
  then show "Some (sp_table p' ! i) =
      (if \<exists>j<n. sp_slot p i = sp_slot p start + of_nat j then Some owner else slot_holder p (sp_slot p i))"
    using i assms(5,6) slot_holder_slot [OF assms(1) i] assms(1)
    by (simp add: bsplice_replicate_nth)
next
  have s: "sp_slot p start + of_nat j = sp_slot p (start + j)" for j
    by (simp add: sp_slot_def)
  fix t assume "slot_holder p t = None"
  then show "(if \<exists>j<n. t = sp_slot p start + of_nat j then Some owner else slot_holder p t) = None"
    unfolding s using slot_holder_slot [OF assms(1)] assms(5) by auto
qed

section \<open>Properties\<close>

text \<open>
  C8. No slot is handed out twice. A client that asks the pool for slots one after another is
  given pairwise distinct slots, each of them in the range and free before, each its own
  afterwards; nobody else's slot changes hands; and it gets fewer than it asked for only when the
  range has no free slot left.
\<close>

theorem slots_handed_out_once:
  assumes "sp_inv p" and "owner \<noteq> 0" and "alloc_seq sp_alloc p owner n = (p', ss)"
  shows "sp_inv p' \<and> distinct ss \<and> (\<forall>s\<in>set ss. s \<noteq> 0 \<and> slot_holder p s = Some 0) \<and>
    slot_holder p' = (\<lambda>s. if s \<in> set ss then Some owner else slot_holder p s) \<and>
    (length ss < n \<longrightarrow> (\<forall>s. slot_holder p' s \<noteq> Some 0))"
  using sp.seq_inv [OF assms(1,3)] sp.seq_fresh [OF assms] by blast

definition sample_pool :: slot_pool where
  "sample_pool = fst (sp_alloc (sp_adopt 100 4 [0, 0, 0, 0] True) 7)"

lemma sample_pool_eq:
  "sample_pool =
     \<lparr>sp_first = 100, sp_count = 4, sp_owners = Some [0, 0, 0, 7], sp_descend = True\<rparr>"
  by (simp add: sample_pool_def sp_adopt_def sp_alloc_def sp_at_def upt_rec
      numeral_eq_Suc)

lemma sample_pool_inv: "sp_inv sample_pool"
  by (simp add: sample_pool_eq sp_inv_def)

theorem slots_handed_out_once_witness:
  "alloc_seq sp_alloc sample_pool 9 5 =
     (sample_pool\<lparr>sp_owners := Some [9, 9, 9, 7]\<rparr>, [102, 101, 100]) \<and>
   (\<forall>s. slot_holder (sample_pool\<lparr>sp_owners := Some [9, 9, 9, 7]\<rparr>) s \<noteq> Some 0)"
proof -
  have five: "(5 :: nat) = Suc (Suc (Suc (Suc (Suc 0))))" by simp
  have s: "alloc_seq sp_alloc sample_pool 9 5 =
     (sample_pool\<lparr>sp_owners := Some [9, 9, 9, 7]\<rparr>, [102, 101, 100])"
    unfolding five by (simp add: sample_pool_eq sp_alloc_def sp_at_def upt_rec)
  have "length [102, 101, 100 :: u64] < 5" "(9 :: u32) \<noteq> 0" by simp_all
  then show ?thesis
    using slots_handed_out_once [OF sample_pool_inv _ s] s by blast
qed

text \<open>
  A run of slots is consecutive, was free in every position and is marked for its owner in
  every position, and nothing outside it changes; it is refused only when no run of that length
  is free.
\<close>

lemma slot_run_consecutive:
  assumes "sp_inv p" and "0 < n" and "sp_alloc_run p n owner = (p', s)"
  shows "sp_inv p' \<and>
    (if s = 0
     then p' = p \<and> \<not> (\<exists>start. start + n \<le> sp_count p \<and>
       (\<forall>j<n. slot_holder p (sp_first p + of_nat (start + j)) = Some 0))
     else (\<forall>j<n. slot_holder p (s + of_nat j) = Some 0) \<and>
       slot_holder p' = (\<lambda>t. if \<exists>j<n. t = s + of_nat j then Some owner else slot_holder p t))"
proof (cases "s = 0")
  case True
  then have "sp_inv p'" "p' = p" and
    n: "\<not> (\<exists>start. start + n \<le> sp_count p \<and> (\<forall>j<n. sp_table p ! (start + j) = 0))"
    using sp_alloc_run_spec [OF assms(1,3)] assms(2) by auto
  moreover have "\<not> (\<exists>start. start + n \<le> sp_count p \<and>
     (\<forall>j<n. slot_holder p (sp_first p + of_nat (start + j)) = Some 0))"
    using n run_holder_free [OF assms(1)] by blast
  ultimately show ?thesis using True by (simp only: if_True simp_thms)
next
  case False
  then obtain start where st: "start + n \<le> sp_count p" "s = sp_slot p start"
      "\<forall>j<n. sp_table p ! (start + j) = 0"
      "sp_table p' = bsplice start (replicate n owner) (sp_table p)" and i': "sp_inv p'"
    using sp_alloc_run_spec [OF assms(1,3)] by auto
  have "sp_first p' = sp_first p" "sp_count p' = sp_count p"
    using assms(3) by (auto simp: sp_alloc_run_def split: option.splits if_splits)
  note h = slot_holder_run [OF assms(1) i' this st(1,4)]
  have "\<forall>j<n. slot_holder p (s + of_nat j) = Some 0"
    using st(1-3) run_holder_free [OF assms(1) st(1)]
    by (simp add: sp_slot_def add.assoc)
  then show ?thesis
    using False i' h st(2) by (simp only: if_False simp_thms)
qed

lemma slot_run_consecutive_witness:
  "sp_alloc_run sample_pool 3 9 = (sample_pool\<lparr>sp_owners := Some [9, 9, 9, 7]\<rparr>, 100) \<and>
   sp_inv (sample_pool\<lparr>sp_owners := Some [9, 9, 9, 7]\<rparr>)"
proof -
  have s: "sp_alloc_run sample_pool 3 9 = (sample_pool\<lparr>sp_owners := Some [9, 9, 9, 7]\<rparr>, 100)"
    by (simp add: sample_pool_eq sp_alloc_run_def sp_run_free_def bsplice_def upt_rec
        numeral_3_eq_3)
  then show ?thesis
    using slot_run_consecutive [OF sample_pool_inv _ s] by simp
qed

text \<open>
  What is freed is free, and only the holder can free it. Freeing one slot frees exactly that
  slot when the owner named holds it and is without effect otherwise; freeing an owner frees
  exactly the slots it holds; the used count is the number of slots held.
\<close>

lemma slot_free_exact:
  assumes "sp_inv p"
  shows "slot_holder (sp_free p slot owner) =
      (if slot_holder p slot = Some owner then (slot_holder p)(slot \<mapsto> 0) else slot_holder p) \<and>
    slot_holder (sp_free_owner p owner) =
      (\<lambda>s. if slot_holder p s = Some owner then Some 0 else slot_holder p s) \<and>
    sp_used p = card {s. \<exists>x. slot_holder p s = Some x \<and> x \<noteq> 0} \<and>
    sp_inv (sp_free p slot owner) \<and> sp_inv (sp_free_owner p owner)"
  using sp_free_holder [OF assms] sp_free_owner_holder [OF assms] sp_used_free [OF assms]
  by blast

lemma slot_free_exact_witness:
  "slot_holder (sp_free sample_pool 103 7) = (slot_holder sample_pool)(103 \<mapsto> 0) \<and>
   slot_holder (sp_free sample_pool 103 8) = slot_holder sample_pool"
proof -
  have "slot_holder sample_pool 103 = Some 7"
    by (simp add: sample_pool_eq slot_holder_def sp_table_def)
  then show ?thesis
    using slot_free_exact [OF sample_pool_inv, of 103 7]
      slot_free_exact [OF sample_pool_inv, of 103 8]
    by simp
qed

end
