(* ===== verification/Resource_Limits.thy ===== *)
theory Resource_Limits
  imports Aegir_Prelude
begin

text \<open>
  The reader of the resource-limits configuration,
  \<^verbatim>\<open>src/libs/freestanding/aegir-limits/src/limits.cc\<close>. A \<^verbatim>\<open>View\<close>, and every pair of pointers the
  code moves towards each other, is the text between them. The file models the whole
  implementation: the line walker with its visitor, \<^verbatim>\<open>parse\<close>, \<^verbatim>\<open>resolve\<close> and \<^verbatim>\<open>crosses\<close>, and shows
  that an amount is read exactly or refused, that \<^verbatim>\<open>resolve\<close> answers by precedence, that a file
  which parsed can be resolved without meeting a bad line, and which line a refusal names.
\<close>

section \<open>Text helpers\<close>

definition is_space :: "char \<Rightarrow> bool" where
  "is_space c \<longleftrightarrow> c = CHR '' '' \<or> c = CHR 0x09 \<or> c = CHR 0x0D"

definition trim :: "string \<Rightarrow> string" where
  "trim s = rev (dropWhile is_space (rev (dropWhile is_space s)))"

definition starts_with :: "string \<Rightarrow> string \<Rightarrow> bool" where
  "starts_with s prefix \<longleftrightarrow> length s > length prefix \<and> take (length prefix) s = prefix"

text \<open>
  The line at the cursor and what is left after it: the text up to the newline, then the text
  after the newline, or nothing when there was none.
\<close>

definition line_end :: "string \<Rightarrow> string \<times> string" where
  "line_end s =
     (let line = takeWhile (\<lambda>c. c \<noteq> CHR 0x0A) s
      in (line, drop (Suc (length line)) s))"

section \<open>Rules\<close>

datatype resource = Memory
datatype action = Log | Deny
datatype subject = SDefault | SClass string | SUser string

definition action_bit :: "action \<Rightarrow> nat" where
  "action_bit a = (case a of Log \<Rightarrow> 0 | Deny \<Rightarrow> 1)"

definition section_subject :: "string \<Rightarrow> subject option" where
  "section_subject s =
     (if s = [] \<or> hd s \<noteq> CHR ''['' \<or> last s \<noteq> CHR '']'' then None
      else
        let name = trim (butlast (tl s))
        in if name = ''default'' then Some SDefault
           else if starts_with name ''class.'' then Some (SClass (drop 6 name))
           else if starts_with name ''user.'' then Some (SUser (drop 5 name))
           else None)"

definition split_key :: "string \<Rightarrow> (string \<times> string) option" where
  "split_key s =
     (let before = takeWhile (\<lambda>c. c \<noteq> CHR ''='') s
      in if length before = length s then None
         else
           let key = trim before; val = trim (drop (Suc (length before)) s)
           in if key = [] then None else Some (key, val))"

definition known_key :: "string \<Rightarrow> (resource \<times> action) option" where
  "known_key key =
     (if key = ''memory_log'' then Some (Memory, Log)
      else if key = ''memory_deny'' then Some (Memory, Deny)
      else None)"

definition is_digit :: "char \<Rightarrow> bool" where
  "is_digit c \<longleftrightarrow> 48 \<le> (of_char c :: nat) \<and> (of_char c :: nat) \<le> 57"

definition digit_of :: "char \<Rightarrow> u64" where
  "digit_of c = of_nat (of_char c - 48)"

text \<open>The digit loop: the amount so far; \<open>None\<close> when the next digit would overflow.\<close>

fun amount_digits :: "u64 \<Rightarrow> string \<Rightarrow> (u64 \<times> string) option" where
  "amount_digits amount [] = Some (amount, [])"
| "amount_digits amount (c # s) =
     (if \<not> is_digit c then Some (amount, c # s)
      else if amount > (- 1 - digit_of c) div 10 then None
      else amount_digits (amount * 10 + digit_of c) s)"

definition suffix_multiplier :: "char \<Rightarrow> u64 option" where
  "suffix_multiplier c =
     (if c = CHR ''K'' then Some (push_bit 10 1)
      else if c = CHR ''M'' then Some (push_bit 20 1)
      else if c = CHR ''G'' then Some (push_bit 30 1)
      else None)"

definition parse_amount :: "string \<Rightarrow> u64 option" where
  "parse_amount s =
     (if s = [] then None
      else
        (case amount_digits 0 s of
           None \<Rightarrow> None
         | Some (amount, rest) \<Rightarrow>
             if length rest = length s then None
             else
               (case rest of
                  [] \<Rightarrow> if amount > (- 1) div 1 then None else Some (amount * 1)
                | c # rest' \<Rightarrow>
                    (case suffix_multiplier c of
                       None \<Rightarrow> None
                     | Some m \<Rightarrow>
                         if rest' \<noteq> [] \<or> amount > (- 1) div m then None
                         else Some (amount * m)))))"

section \<open>The line walker\<close>

datatype problem_message =
    NoProblem | EmptyFile | BadSection | KeyBeforeSection | NotKeyValue | UnknownKey
  | KeyTwice | BadAmount

record problem =
  p_line :: nat
  p_message :: problem_message

record walker =
  w_subject :: subject
  w_have_section :: bool
  w_seen :: u32

definition walker_init :: walker where
  "walker_init = \<lparr>w_subject = SDefault, w_have_section = False, w_seen = 0\<rparr>"

text \<open>A rule, as the visitor is given it.\<close>

type_synonym rule = "subject \<times> resource \<times> action \<times> u64"

text \<open>One line that is neither blank nor a comment: the next walker and the rule visited, if any.\<close>

definition walk_line :: "walker \<Rightarrow> string \<Rightarrow> problem_message + (walker \<times> rule option)" where
  "walk_line w s =
     (if hd s = CHR ''['' then
        (case section_subject s of
           None \<Rightarrow> Inl BadSection
         | Some subj \<Rightarrow> Inr (w\<lparr>w_subject := subj, w_have_section := True, w_seen := 0\<rparr>, None))
      else if \<not> w_have_section w then Inl KeyBeforeSection
      else
        (case split_key s of
           None \<Rightarrow> Inl NotKeyValue
         | Some (key, val) \<Rightarrow>
             (case known_key key of
                None \<Rightarrow> Inl UnknownKey
              | Some (res, act) \<Rightarrow>
                  if w_seen w AND push_bit (action_bit act) 1 \<noteq> 0 then Inl KeyTwice
                  else
                    (case parse_amount val of
                       None \<Rightarrow> Inl BadAmount
                     | Some amount \<Rightarrow>
                         Inr (w\<lparr>w_seen := w_seen w OR push_bit (action_bit act) 1\<rparr>,
                              Some (w_subject w, res, act, amount))))))"

definition is_blank_line :: "string \<Rightarrow> bool" where
  "is_blank_line s \<longleftrightarrow> s = [] \<or> hd s = CHR ''#''"

text \<open>
  The loop, with the visitor \<open>visit\<close> acting on the caller's state \<open>acc\<close>. Every iteration consumes
  its line, so the loop ends.
\<close>

function walk_from ::
  "nat \<Rightarrow> walker \<Rightarrow> (rule \<Rightarrow> 'a \<Rightarrow> 'a) \<Rightarrow> string \<Rightarrow> 'a \<Rightarrow> 'a \<times> problem option" where
  "walk_from number w visit text acc =
     (if text = [] then (acc, None)
      else
        (case line_end text of (line, rest) \<Rightarrow>
           let s = trim line
           in if is_blank_line s then walk_from (Suc number) w visit rest acc
              else
                (case walk_line w s of
                   Inl msg \<Rightarrow> (acc, Some \<lparr>p_line = number, p_message = msg\<rparr>)
                 | Inr (w', None) \<Rightarrow> walk_from (Suc number) w' visit rest acc
                 | Inr (w', Some r) \<Rightarrow> walk_from (Suc number) w' visit rest (visit r acc))))"
  by pat_completeness auto
termination
  by (relation "measure (\<lambda>(number, w, visit, text, acc). length text)")
    (auto simp: line_end_def Let_def)

declare walk_from.simps [simp del]

definition walk :: "(rule \<Rightarrow> 'a \<Rightarrow> 'a) \<Rightarrow> string \<Rightarrow> 'a \<Rightarrow> 'a \<times> problem option" where
  "walk visit text acc = walk_from 1 walker_init visit text acc"

section \<open>The class\<close>

record limits =
  l_text :: "string option"
  l_problem :: problem
  l_valid :: bool

definition no_problem :: problem where
  "no_problem = \<lparr>p_line = 0, p_message = NoProblem\<rparr>"

text \<open>\<open>None\<close> is the null pointer.\<close>

definition parse :: "limits \<Rightarrow> string option \<Rightarrow> limits \<times> bool" where
  "parse l text =
     (case text of
        None \<Rightarrow> (l\<lparr>l_problem := \<lparr>p_line = 1, p_message = EmptyFile\<rparr>, l_valid := False\<rparr>, False)
      | Some t \<Rightarrow>
          if t = [] then
            (l\<lparr>l_problem := \<lparr>p_line = 1, p_message = EmptyFile\<rparr>, l_valid := False\<rparr>, False)
          else
            (case walk (\<lambda>r u. u) t () of
               (_, Some prob) \<Rightarrow> (l\<lparr>l_problem := prob, l_valid := False\<rparr>, False)
             | (_, None) \<Rightarrow>
                 (l\<lparr>l_text := Some t, l_problem := no_problem, l_valid := True\<rparr>, True)))"

definition kPrecedenceUser :: nat where "kPrecedenceUser = 3"
definition kPrecedenceClass :: nat where "kPrecedenceClass = 2"
definition kPrecedenceDefault :: nat where "kPrecedenceDefault = 1"

definition rule_score :: "string \<Rightarrow> string \<Rightarrow> subject \<Rightarrow> nat" where
  "rule_score user klass subj =
     (case subj of
        SUser n \<Rightarrow> if n = user then kPrecedenceUser else 0
      | SClass n \<Rightarrow> if n = klass then kPrecedenceClass else 0
      | SDefault \<Rightarrow> kPrecedenceDefault)"

text \<open>The visitor of \<^verbatim>\<open>resolve\<close>: the best score and amount so far. \<open>None\<close> is an amount not set.\<close>

definition resolve_visit ::
  "string \<Rightarrow> string \<Rightarrow> resource \<Rightarrow> action \<Rightarrow> rule \<Rightarrow> nat \<times> u64 option \<Rightarrow> nat \<times> u64 option" where
  "resolve_visit user klass res act r best =
     (case r of (subj, rule_res, rule_act, amount) \<Rightarrow>
        if rule_res \<noteq> res \<or> rule_act \<noteq> act then best
        else
          let score = rule_score user klass subj
          in if score > fst best then (score, Some amount) else best)"

definition resolve :: "limits \<Rightarrow> string \<Rightarrow> string \<Rightarrow> resource \<Rightarrow> action \<Rightarrow> u64 option" where
  "resolve l user klass res act =
     (if \<not> l_valid l then None
      else
        (case l_text l of
           None \<Rightarrow> None
         | Some t \<Rightarrow> snd (fst (walk (resolve_visit user klass res act) t (0, None)))))"

definition crosses :: "u64 option \<Rightarrow> u64 \<Rightarrow> u64 \<Rightarrow> bool" where
  "crosses amount committed want =
     (case amount of
        None \<Rightarrow> False
      | Some bytes \<Rightarrow> if want > - 1 - committed then True else committed + want > bytes)"

section \<open>Reading an amount\<close>

text \<open>The number a run of digits spells, and the amount a value means, without a word size.\<close>

definition dec_digit :: "char \<Rightarrow> nat" where
  "dec_digit c = of_char c - 48"

definition dec_value :: "nat \<Rightarrow> string \<Rightarrow> nat" where
  "dec_value n s = foldl (\<lambda>v c. v * 10 + dec_digit c) n s"

definition suffix_spec :: "string \<Rightarrow> nat option" where
  "suffix_spec s =
     (if s = [] then Some 1
      else if s = ''K'' then Some (2 ^ 10)
      else if s = ''M'' then Some (2 ^ 20)
      else if s = ''G'' then Some (2 ^ 30)
      else None)"

definition amount_spec :: "string \<Rightarrow> nat option" where
  "amount_spec s =
     (if takeWhile is_digit s = [] then None
      else map_option (\<lambda>m. dec_value 0 (takeWhile is_digit s) * m)
             (suffix_spec (dropWhile is_digit s)))"

lemma dec_value_simps [simp]:
  "dec_value n [] = n"
  "dec_value n (c # s) = dec_value (n * 10 + dec_digit c) s"
  by (simp_all add: dec_value_def)

lemma dec_value_ge: "n \<le> dec_value n s"
proof (induction s arbitrary: n)
  case (Cons c s)
  have "n \<le> n * 10 + dec_digit c" by simp
  then show ?case using Cons order_trans dec_value_simps(2) by metis
qed simp

lemma unat_max64: "unat (- 1 :: u64) = 2 ^ 64 - 1"
  by (simp add: unsigned_minus_1_eq_mask mask_eq_exp_minus_1)

lemma unat_digit_of:
  assumes "is_digit c"
  shows "unat (digit_of c) = dec_digit c" and "dec_digit c < 10"
proof -
  show "dec_digit c < 10"
    using assms unfolding dec_digit_def is_digit_def by linarith
  then have "dec_digit c < 2 ^ 64" by simp
  then show "unat (digit_of c) = dec_digit c"
    unfolding digit_of_def dec_digit_def [symmetric] by (rule unat_of_nat_u64)
qed

lemma digit_step:
  assumes "is_digit c"
  shows "amount > (- 1 - digit_of c) div 10 \<longleftrightarrow> unat amount * 10 + dec_digit c \<ge> 2 ^ 64"
    and "unat amount * 10 + dec_digit c < 2 ^ 64 \<Longrightarrow>
      unat (amount * 10 + digit_of c) = unat amount * 10 + dec_digit c"
proof -
  have d: "unat (digit_of c) = dec_digit c" "dec_digit c < 10"
    using unat_digit_of [OF assms] by auto
  have le: "digit_of c \<le> - 1" by simp
  have u: "unat (- 1 - digit_of c) = 2 ^ 64 - 1 - dec_digit c"
    using unat_sub [OF le] d by (simp only: unat_max64)
  have "unat ((- 1 - digit_of c) div 10) = (2 ^ 64 - 1 - dec_digit c) div 10"
    by (simp only: unat_div_distrib u) simp
  then show "amount > (- 1 - digit_of c) div 10 \<longleftrightarrow> unat amount * 10 + dec_digit c \<ge> 2 ^ 64"
    using d(2) by (simp add: word_less_nat_alt) arith
  show "unat (amount * 10 + digit_of c) = unat amount * 10 + dec_digit c"
    if "unat amount * 10 + dec_digit c < 2 ^ 64"
    using that d by (simp add: unat_word_ariths)
qed

lemma amount_digits_spec:
  "amount_digits a s =
     (let n = dec_value (unat a) (takeWhile is_digit s)
      in if n < 2 ^ 64 then Some (of_nat n, dropWhile is_digit s) else None)"
proof (induction s arbitrary: a)
  case Nil
  then show ?case
    using unsigned_less [where 'a = nat, of a] by simp
next
  case (Cons c s)
  show ?case
  proof (cases "is_digit c")
    case False
    then show ?thesis
      using unsigned_less [where 'a = nat, of a] by simp
  next
    case True
    let ?m = "unat a * 10 + dec_digit c"
    show ?thesis
    proof (cases "?m < 2 ^ 64")
      case True
      then show ?thesis
        using \<open>is_digit c\<close> digit_step [OF \<open>is_digit c\<close>, of a] Cons [of "a * 10 + digit_of c"]
        by (simp add: not_less [symmetric] Let_def)
    next
      case False
      then have "\<not> dec_value ?m (takeWhile is_digit s) < 2 ^ 64"
        using dec_value_ge [of ?m "takeWhile is_digit s"] by linarith
      then show ?thesis
        using \<open>is_digit c\<close> False digit_step(1) [OF \<open>is_digit c\<close>, of a] by simp
    qed
  qed
qed

text \<open>The multiplication by a suffix is guarded by a division that is exact.\<close>

lemma mult_guard:
  assumes "0 < unat m"
  shows "amount > (- 1) div m \<longleftrightarrow> unat amount * unat m \<ge> 2 ^ 64"
    and "unat amount * unat m < 2 ^ 64 \<Longrightarrow> amount * m = (of_nat (unat amount * unat m) :: u64)"
proof -
  have "unat ((- 1 :: u64) div m) = (2 ^ 64 - 1) div unat m"
    by (simp only: unat_div_distrib unat_max64)
  then have "amount > (- 1) div m \<longleftrightarrow> (2 ^ 64 - 1) div unat m < unat amount"
    by (simp add: word_less_nat_alt)
  also have "\<dots> \<longleftrightarrow> 2 ^ 64 - 1 < unat amount * unat m"
    using assms by (rule div_less_iff_less_mult)
  also have "\<dots> \<longleftrightarrow> unat amount * unat m \<ge> 2 ^ 64" by auto
  finally show "amount > (- 1) div m \<longleftrightarrow> unat amount * unat m \<ge> 2 ^ 64" .
  show "amount * m = of_nat (unat amount * unat m)" by simp
qed

lemma suffix_multiplier_spec:
  "suffix_multiplier c = map_option of_nat (suffix_spec [c])"
  by (simp add: suffix_multiplier_def suffix_spec_def push_bit_eq_mult)

lemma suffix_spec_bounds: "suffix_spec s = Some m \<Longrightarrow> 0 < m \<and> m < 2 ^ 64"
  by (auto simp: suffix_spec_def split: if_splits)

lemma suffix_spec_long: "suffix_spec (c # d # s) = None"
  by (simp add: suffix_spec_def)

lemma dropWhile_same_length: "length (dropWhile P s) = length s \<longleftrightarrow> takeWhile P s = []"
  by (metis append_self_conv2 dropWhile_eq_self_iff length_append add_cancel_left_left
      length_0_conv takeWhile_dropWhile_id)

lemma parse_amount_spec:
  "parse_amount s =
     (case amount_spec s of
        None \<Rightarrow> None
      | Some n \<Rightarrow> if n < 2 ^ 64 then Some (of_nat n) else None)"
proof (cases "takeWhile is_digit s = []")
  case True
  then have "length (dropWhile is_digit s) = length s"
    by (simp add: dropWhile_same_length)
  with True show ?thesis
    by (auto simp: parse_amount_def amount_digits_spec Let_def amount_spec_def)
next
  case False
  let ?n = "dec_value 0 (takeWhile is_digit s)" and ?r = "dropWhile is_digit s"
  have l: "length ?r \<noteq> length s" "s \<noteq> []"
    using False dropWhile_same_length by auto
  have spec: "amount_spec s = map_option (\<lambda>m. ?n * m) (suffix_spec ?r)"
    using False by (simp add: amount_spec_def)
  have u: "unat (of_nat ?n :: u64) = ?n" if "?n < 2 ^ 64"
    using that by (rule unat_of_nat_u64)
  show ?thesis
  proof (cases "?n < 2 ^ 64")
    case big: False
    have "\<not> ?n * m < 2 ^ 64" if "suffix_spec ?r = Some m" for m
      using big suffix_spec_bounds [OF that] by (metis less_one linorder_not_less mult.right_neutral
        mult_le_mono2 order.strict_trans1 Suc_leI One_nat_def)
    then show ?thesis
      using l big spec by (auto simp: parse_amount_def amount_digits_spec Let_def
          split: option.splits)
  next
    case fits: True
    show ?thesis
    proof (cases ?r)
      case Nil
      then show ?thesis
        using l fits spec
        by (simp add: parse_amount_def amount_digits_spec suffix_spec_def del: dropWhile_eq_Nil_conv)
    next
      case (Cons c r')
      show ?thesis
      proof (cases "r' = [] \<and> suffix_spec [c] \<noteq> None")
        case False
        then have "suffix_spec ?r = None"
          using Cons suffix_spec_long by (cases r') auto
        then show ?thesis
          using l fits spec Cons False
          by (auto simp: parse_amount_def amount_digits_spec suffix_multiplier_spec
              split: option.splits)
      next
        case True
        then obtain m where m: "suffix_spec [c] = Some m" by auto
        then have um: "unat (of_nat m :: u64) = m" "0 < m"
          using suffix_spec_bounds [OF m] unat_of_nat_u64 by auto
        show ?thesis
          using l fits spec Cons True m um u [OF fits]
            mult_guard [of "of_nat m" "of_nat ?n"]
          by (auto simp: parse_amount_def amount_digits_spec suffix_multiplier_spec not_less)
      qed
    qed
  qed
qed

section \<open>The walker against the lines of the text\<close>

text \<open>The lines of a text: what lies before and between the newlines, and after the last one.\<close>

function text_lines :: "string \<Rightarrow> string list" where
  "text_lines text =
     (if text = [] then []
      else (case line_end text of (line, rest) \<Rightarrow> line # text_lines rest))"
  by pat_completeness auto
termination
  by (relation "measure length") (auto simp: line_end_def Let_def)

declare text_lines.simps [simp del]

text \<open>
  What a list of lines means: the rules in order up to the first bad line, and that line's
  problem. It is the reading of the format without cursors or a visitor.
\<close>

fun rules_of_lines :: "nat \<Rightarrow> walker \<Rightarrow> string list \<Rightarrow> rule list \<times> problem option" where
  "rules_of_lines number w [] = ([], None)"
| "rules_of_lines number w (l # ls) =
     (if is_blank_line (trim l) then rules_of_lines (Suc number) w ls
      else
        (case walk_line w (trim l) of
           Inl msg \<Rightarrow> ([], Some \<lparr>p_line = number, p_message = msg\<rparr>)
         | Inr (w', r) \<Rightarrow>
             (case rules_of_lines (Suc number) w' ls of (rs, prob) \<Rightarrow>
                (case r of None \<Rightarrow> rs | Some x \<Rightarrow> x # rs, prob))))"

definition file_rules :: "string \<Rightarrow> rule list \<times> problem option" where
  "file_rules text = rules_of_lines 1 walker_init (text_lines text)"

lemma walk_from_lines:
  "walk_from number w visit src acc =
     (case rules_of_lines number w (text_lines src) of (rs, prob) \<Rightarrow> (fold visit rs acc, prob))"
proof (induction number w visit src acc rule: walk_from.induct)
  case (1 number w visit src acc)
  show ?case
  proof (cases "src = []")
    case True
    then show ?thesis by (simp add: walk_from.simps text_lines.simps)
  next
    case False
    obtain line rest where lr: "line_end src = (line, rest)" by fastforce
    have tl: "text_lines src = line # text_lines rest"
      using False lr by (simp add: text_lines.simps)
    show ?thesis
    proof (cases "is_blank_line (trim line)")
      case True
      then show ?thesis
        using "1.IH"(1) [OF False lr [symmetric] refl True] False lr tl by (simp add: walk_from.simps)
    next
      case nb: False
      show ?thesis
      proof (cases "walk_line w (trim line)")
        case (Inl msg)
        then show ?thesis
          using False lr tl nb by (simp add: walk_from.simps)
      next
        case (Inr wr)
        obtain w' ro where wr: "wr = (w', ro)" by fastforce
        show ?thesis
        proof (cases ro)
          case None
          then show ?thesis
            using "1.IH"(2) [OF False lr [symmetric] refl nb Inr wr [symmetric] None] None False lr tl nb Inr wr
            by (simp add: walk_from.simps [of number w visit src acc] case_prod_beta)
        next
          case (Some r)
          then show ?thesis
            using "1.IH"(3) [OF False lr [symmetric] refl nb Inr wr [symmetric] Some] Some False lr tl nb Inr wr
            by (simp add: walk_from.simps [of number w visit src acc] case_prod_beta)
        qed
      qed
    qed
  qed
qed

lemma walk_file_rules:
  "walk visit text acc = (fold visit (fst (file_rules text)) acc, snd (file_rules text))"
  by (simp add: walk_def file_rules_def walk_from_lines case_prod_beta)

section \<open>Resolving a subject\<close>

text \<open>The first rule a subject states for a resource and an action.\<close>

definition stated :: "subject \<Rightarrow> resource \<Rightarrow> action \<Rightarrow> rule list \<Rightarrow> u64 option" where
  "stated subj res act rs =
     map_option (\<lambda>r. snd (snd (snd r)))
       (find (\<lambda>r. fst r = subj \<and> fst (snd r) = res \<and> fst (snd (snd r)) = act) rs)"

definition or_else :: "'a option \<Rightarrow> 'a option \<Rightarrow> 'a option" where
  "or_else a b = (case a of None \<Rightarrow> b | Some x \<Rightarrow> Some x)"

lemma or_else_simps [simp]: "or_else None b = b" "or_else (Some x) b = Some x"
  by (simp_all add: or_else_def)

lemma stated_Cons:
  "stated subj res act ((s, r, a, x) # rs) =
     (if s = subj \<and> r = res \<and> a = act then Some x else stated subj res act rs)"
  by (simp add: stated_def)

lemma stated_Nil [simp]: "stated subj res act [] = None"
  by (simp add: stated_def)

lemmas precedence_defs = kPrecedenceUser_def kPrecedenceClass_def kPrecedenceDefault_def

text \<open>The visitor's fold, from any score reached so far.\<close>

lemma fold_resolve_visit:
  "sc \<le> 3 \<Longrightarrow>
   snd (fold (resolve_visit user klass res act) rs (sc, b)) =
     or_else (if sc < 3 then stated (SUser user) res act rs else None)
       (or_else (if sc < 2 then stated (SClass klass) res act rs else None)
         (or_else (if sc < 1 then stated SDefault res act rs else None) b))"
proof (induction rs arbitrary: sc b)
  case Nil
  then show ?case by simp
next
  case (Cons rule rs)
  obtain s r a x where rule: "rule = (s, r, a, x)" by (cases rule) auto
  consider (skip) "\<not> (r = res \<and> a = act)" | (user) "r = res" "a = act" "s = SUser user"
    | (klass) "r = res" "a = act" "s = SClass klass" | (default) "r = res" "a = act" "s = SDefault"
    | (other) "r = res" "a = act" "s \<noteq> SUser user" "s \<noteq> SClass klass" "s \<noteq> SDefault"
    by blast
  then show ?case
  proof cases
    case skip
    then show ?thesis
      using Cons.IH [OF Cons.prems] by (auto simp: rule stated_Cons resolve_visit_def)
  next
    case user
    then show ?thesis
      using Cons.IH [of 3 "Some x"] Cons.IH [OF Cons.prems] Cons.prems
      by (auto simp: rule stated_Cons resolve_visit_def rule_score_def precedence_defs)
  next
    case klass
    then show ?thesis
      using Cons.IH [of 2 "Some x"] Cons.IH [OF Cons.prems]
      by (auto simp: rule stated_Cons resolve_visit_def rule_score_def precedence_defs)
  next
    case default
    then show ?thesis
      using Cons.IH [of 1 "Some x"] Cons.IH [OF Cons.prems]
      by (auto simp: rule stated_Cons resolve_visit_def rule_score_def precedence_defs)
  next
    case other
    then have "rule_score user klass s = 0"
      by (auto simp: rule_score_def split: subject.splits)
    then show ?thesis
      using Cons.IH [OF Cons.prems] other by (auto simp: rule stated_Cons resolve_visit_def)
  qed
qed

section \<open>Writing a file of rules\<close>

text \<open>A file that states the rules of a list, each under a section line of its own.\<close>

function dec_string :: "nat \<Rightarrow> string" where
  "dec_string n = (if n < 10 then [char_of (48 + n)]
     else dec_string (n div 10) @ [char_of (48 + n mod 10)])"
  by pat_completeness auto
termination
  by (relation "measure id") auto

declare dec_string.simps [simp del]

definition section_line :: "subject \<Rightarrow> string" where
  "section_line subj =
     (case subj of
        SDefault \<Rightarrow> ''[default]''
      | SClass n \<Rightarrow> ''[class.'' @ n @ '']''
      | SUser n \<Rightarrow> ''[user.'' @ n @ '']'')"

definition key_line :: "action \<Rightarrow> u64 \<Rightarrow> string" where
  "key_line act amount =
     (case act of Log \<Rightarrow> ''memory_log'' | Deny \<Rightarrow> ''memory_deny'') @ '' = '' @ dec_string (unat amount)"

definition render_rule :: "rule \<Rightarrow> string" where
  "render_rule r =
     (case r of (subj, res, act, amount) \<Rightarrow>
        section_line subj @ [CHR 0x0A] @ key_line act amount @ [CHR 0x0A])"

definition render_rules :: "rule list \<Rightarrow> string" where
  "render_rules rs = concat (map render_rule rs)"

definition name_ok :: "string \<Rightarrow> bool" where
  "name_ok n \<longleftrightarrow> n \<noteq> [] \<and> CHR 0x0A \<notin> set n \<and> \<not> is_space (last n)"

definition subject_ok :: "subject \<Rightarrow> bool" where
  "subject_ok subj = (case subj of SDefault \<Rightarrow> True | SClass n \<Rightarrow> name_ok n | SUser n \<Rightarrow> name_ok n)"

lemma dec_string_digits: "c \<in> set (dec_string n) \<Longrightarrow> is_digit c"
proof (induction n rule: dec_string.induct)
  case (1 n)
  have d: "is_digit (char_of (48 + k))" if "k < 10" for k :: nat
    using that by (simp add: is_digit_def)
  show ?case
    using "1" d [of n] d [of "n mod 10"] by (subst (asm) (2) dec_string.simps) (auto split: if_splits)
qed

lemma dec_value_append: "dec_value n (s @ s') = dec_value (dec_value n s) s'"
  by (simp add: dec_value_def)

lemma dec_value_dec_string: "dec_value 0 (dec_string n) = n"
proof (induction n rule: dec_string.induct)
  case (1 n)
  have d: "dec_digit (char_of (48 + k)) = k" if "k < 10" for k :: nat
    using that by (simp add: dec_digit_def)
  show ?case
    using "1" d by (subst dec_string.simps) (auto simp: dec_value_append)
qed

lemma dec_string_nonempty [simp]: "dec_string n \<noteq> []"
  by (subst dec_string.simps) simp

lemma parse_amount_dec_string: "parse_amount (dec_string (unat x)) = Some x"
proof -
  have "takeWhile is_digit (dec_string (unat x)) = dec_string (unat x)"
    "dropWhile is_digit (dec_string (unat x)) = []"
    using dec_string_digits by (auto simp: takeWhile_eq_all_conv)
  then have "amount_spec (dec_string (unat x)) = Some (unat x)"
    by (simp only: amount_spec_def suffix_spec_def dec_value_dec_string) simp
  then show ?thesis
    using unsigned_less [where 'a = nat, of x] by (simp add: parse_amount_spec)
qed

lemma trim_id: "s \<noteq> [] \<Longrightarrow> \<not> is_space (hd s) \<Longrightarrow> \<not> is_space (last s) \<Longrightarrow> trim s = s"
  using dropWhile_eq_self_iff [of is_space s] dropWhile_eq_self_iff [of is_space "rev s"]
  by (auto simp: trim_def hd_rev)

lemma text_lines_line:
  assumes "CHR 0x0A \<notin> set line"
  shows "text_lines (line @ CHR 0x0A # rest) = line # text_lines rest"
proof -
  have "takeWhile (\<lambda>c. c \<noteq> CHR 0x0A) (line @ CHR 0x0A # rest) = line"
    using assms by (induction line) auto
  then show ?thesis
    by (subst text_lines.simps) (simp add: line_end_def)
qed

lemma section_subject_line:
  "subject_ok subj \<Longrightarrow>
   section_subject (section_line subj) = Some subj \<and> trim (section_line subj) = section_line subj \<and>
   CHR 0x0A \<notin> set (section_line subj) \<and> hd (section_line subj) = CHR ''[''"
  by (cases subj)
    (auto simp: section_line_def section_subject_def subject_ok_def name_ok_def trim_id is_space_def
      starts_with_def butlast_append last_append)

lemma key_line_facts:
  "CHR 0x0A \<notin> set (key_line act x)" "trim (key_line act x) = key_line act x"
  "hd (key_line act x) = CHR ''m''" "key_line act x \<noteq> []"
proof -
  have d: "c \<noteq> CHR 0x0A \<and> \<not> is_space c" if "c \<in> set (dec_string n)" for c n
    using dec_string_digits [OF that] by (auto simp: is_digit_def is_space_def)
  show "CHR 0x0A \<notin> set (key_line act x)"
    using d by (auto simp: key_line_def split: action.splits)
  show h: "hd (key_line act x) = CHR ''m''" and n: "key_line act x \<noteq> []"
    by (auto simp: key_line_def split: action.splits)
  have "\<not> is_space (last (key_line act x))"
    using d [OF last_in_set [OF dec_string_nonempty]] by (simp add: key_line_def)
  then show "trim (key_line act x) = key_line act x"
    using h n by (intro trim_id) (auto simp: is_space_def)
qed

lemma split_key_line:
  "split_key (key_line act x) =
     Some (case act of Log \<Rightarrow> ''memory_log'' | Deny \<Rightarrow> ''memory_deny'', dec_string (unat x))"
proof -
  have d: "\<not> is_space c" if "c \<in> set (dec_string (unat x))" for c
    using dec_string_digits [OF that] by (auto simp: is_digit_def is_space_def)
  have "trim (CHR '' '' # dec_string (unat x)) = trim (dec_string (unat x))"
    by (simp add: trim_def is_space_def)
  also have "\<dots> = dec_string (unat x)"
    using d hd_in_set last_in_set by (intro trim_id) auto
  finally show ?thesis
    by (cases act) (simp_all add: split_key_def key_line_def trim_def is_space_def)
qed

lemma rules_of_render:
  "\<forall>r\<in>set rs. subject_ok (fst r) \<Longrightarrow>
   rules_of_lines number w (text_lines (render_rules rs)) = (rs, None)"
proof (induction rs arbitrary: number w)
  case Nil
  then show ?case by (simp add: render_rules_def text_lines.simps)
next
  case (Cons r rs)
  obtain subj res act x where r: "r = (subj, res, act, x)" by (cases r) auto
  have ok: "subject_ok subj" using Cons.prems r by simp
  have lines: "text_lines (render_rules (r # rs)) =
      section_line subj # key_line act x # text_lines (render_rules rs)"
    using section_subject_line [OF ok] key_line_facts(1)
    by (simp add: render_rules_def render_rule_def r text_lines_line)
  have known: "known_key (case act of Log \<Rightarrow> ''memory_log'' | Deny \<Rightarrow> ''memory_deny'') = Some (res, act)"
    by (cases act; cases res) (simp_all add: known_key_def)
  have nb: "\<not> is_blank_line (section_line subj)" "\<not> is_blank_line (key_line act x)"
    using section_subject_line [OF ok] key_line_facts
    by (auto simp: is_blank_line_def section_subject_def)
  show ?case
    unfolding lines
    using section_subject_line [OF ok] key_line_facts [of act x] nb known Cons r
    by (simp add: walk_line_def split_key_line parse_amount_dec_string)
qed

section \<open>Properties\<close>

text \<open>
  An amount is read exactly or refused. The value of a limit is accepted when it is decimal
  digits with an optional K, M or G and the number it means fits 64 bits, and is then that number;
  everything else, every overflow included, is refused and nothing wraps.
\<close>

lemma parse_amount_exact:
  "parse_amount s =
     (case amount_spec s of
        None \<Rightarrow> None
      | Some n \<Rightarrow> if n < 2 ^ 64 then Some (of_nat n) else None)"
  by (rule parse_amount_spec)

text \<open>
  A limit is the largest allowed total. \<^verbatim>\<open>crosses\<close> decides exactly whether the committed bytes
  and the wanted ones together exceed the amount, as numbers: a sum past 64 bits crosses every
  limit, a subject without a rule crosses none.
\<close>

lemma crosses_exact:
  "crosses amount committed want \<longleftrightarrow>
     (\<exists>bytes. amount = Some bytes \<and> unat committed + unat want > unat bytes)"
proof (cases amount)
  case None
  then show ?thesis by (simp add: crosses_def)
next
  case (Some bytes)
  have le: "committed \<le> - 1" by simp
  have g: "want > - 1 - committed \<longleftrightarrow> unat committed + unat want \<ge> 2 ^ 64"
    using unat_sub [OF le] unsigned_less [where 'a = nat, of committed]
    by (simp only: word_less_nat_alt unat_max64) auto
  show ?thesis
  proof (cases "unat committed + unat want \<ge> 2 ^ 64")
    case True
    then show ?thesis
      using Some g unsigned_less [where 'a = nat, of bytes] by (simp add: crosses_def)
  next
    case False
    then show ?thesis
      using Some g by (simp add: crosses_def word_less_nat_alt unat_word_ariths)
  qed
qed

text \<open>
  C9. Parsing and resolving agree on what the file says. \<^verbatim>\<open>parse\<close> accepts a text exactly when its
  lines read one after another have no problem, reporting the first problem otherwise; and on an
  accepted text \<^verbatim>\<open>resolve\<close> answers the first rule stated for the user, else the first stated for
  the class, else the first default, else no limit.
\<close>

theorem resolve_precedence:
  assumes "text \<noteq> []" and "parse l (Some text) = (l', ok)"
  shows "(ok \<longleftrightarrow> snd (file_rules text) = None) \<and>
    (\<not> ok \<longrightarrow> snd (file_rules text) = Some (l_problem l') \<and> \<not> l_valid l') \<and>
    (ok \<longrightarrow> resolve l' user klass res act =
      or_else (stated (SUser user) res act (fst (file_rules text)))
        (or_else (stated (SClass klass) res act (fst (file_rules text)))
          (stated SDefault res act (fst (file_rules text)))))"
  using assms fold_resolve_visit [of 0 user klass res act "fst (file_rules text)" None]
  by (auto simp: parse_def resolve_def walk_file_rules or_else_def
      split: option.splits)

definition sample_limits :: limits where
  "sample_limits = \<lparr>l_text = None, l_problem = no_problem, l_valid = False\<rparr>"

definition sample_file :: string where
  "sample_file = ''[default]'' @ [CHR 0x0A] @ ''memory_deny = 4K'' @ [CHR 0x0A] @
     ''[user.anna]'' @ [CHR 0x0A] @ ''memory_deny=9''"

theorem resolve_precedence_witness:
  "snd (parse sample_limits (Some sample_file)) \<and>
   resolve (fst (parse sample_limits (Some sample_file))) ''anna'' ''x'' Memory Deny = Some 9 \<and>
   resolve (fst (parse sample_limits (Some sample_file))) ''bo'' ''x'' Memory Deny = Some 4096"
proof -
  have "file_rules sample_file = ([(SDefault, Memory, Deny, 4096), (SUser ''anna'', Memory, Deny, 9)], None)"
    by code_simp
  moreover have "sample_file \<noteq> []" by (simp add: sample_file_def)
  moreover obtain l' ok where "parse sample_limits (Some sample_file) = (l', ok)" by fastforce
  ultimately show ?thesis
    using resolve_precedence [of sample_file sample_limits l' ok "''anna''" "''x''" Memory Deny]
      resolve_precedence [of sample_file sample_limits l' ok "''bo''" "''x''" Memory Deny]
    by (simp add: stated_Cons)
qed

text \<open>
  C10. Writing and reading back. A file that states the rules of a list, section by section, is
  accepted, and resolving on it answers as resolving on the list does: names and amounts survive
  the text, whatever the 64-bit amount.
\<close>

theorem limits_file_roundtrip:
  assumes "rs \<noteq> []" and "\<forall>r\<in>set rs. subject_ok (fst r)"
  shows "\<exists>l'. parse l (Some (render_rules rs)) = (l', True) \<and>
    (\<forall>user klass res act. resolve l' user klass res act =
      or_else (stated (SUser user) res act rs)
        (or_else (stated (SClass klass) res act rs) (stated SDefault res act rs)))"
proof -
  have fr: "file_rules (render_rules rs) = (rs, None)"
    using rules_of_render [OF assms(2)] by (simp add: file_rules_def)
  have ne: "render_rules rs \<noteq> []"
    using assms(1) by (cases rs) (auto simp: render_rules_def render_rule_def)
  let ?l' = "l\<lparr>l_text := Some (render_rules rs), l_problem := no_problem, l_valid := True\<rparr>"
  have "parse l (Some (render_rules rs)) = (?l', True)"
    using ne fr by (simp add: parse_def walk_file_rules)
  moreover have "resolve ?l' user klass res act =
      or_else (stated (SUser user) res act rs)
        (or_else (stated (SClass klass) res act rs) (stated SDefault res act rs))"
    for user klass res act
    using fr fold_resolve_visit [of 0 user klass res act rs None]
    by (simp add: resolve_def walk_file_rules or_else_def split: option.splits)
  ultimately show ?thesis by blast
qed

theorem limits_file_roundtrip_witness:
  "\<exists>l'. parse sample_limits (Some (render_rules
       [(SDefault, Memory, Log, 5), (SUser ''anna'', Memory, Log, 2 ^ 64 - 1)])) = (l', True) \<and>
     resolve l' ''anna'' ''x'' Memory Log = Some (2 ^ 64 - 1)"
proof -
  let ?rs = "[(SDefault, Memory, Log, 5), (SUser ''anna'', Memory, Log, 2 ^ 64 - 1)] :: rule list"
  have ok: "\<forall>r\<in>set ?rs. subject_ok (fst r)"
    by (simp add: subject_ok_def name_ok_def is_space_def)
  have st: "stated (SUser ''anna'') Memory Log ?rs = Some (2 ^ 64 - 1)"
    by (simp add: stated_Cons)
  obtain l' where l': "parse sample_limits (Some (render_rules ?rs)) = (l', True)"
    "\<forall>user klass res act. resolve l' user klass res act =
      or_else (stated (SUser user) res act ?rs)
        (or_else (stated (SClass klass) res act ?rs) (stated SDefault res act ?rs))"
    using limits_file_roundtrip [OF _ ok, of sample_limits] by blast
  have "resolve l' ''anna'' ''x'' Memory Log = Some (2 ^ 64 - 1)"
    using l'(2) st or_else_simps(2) by metis
  with l'(1) show ?thesis by blast
qed

end
