(* ===== verification/Pattern.thy ===== *)
theory Pattern
  imports Aegir_Prelude
begin

text \<open>
  The AmigaDOS wildcard matcher, \<^verbatim>\<open>src/libs/freestanding/aegir-pattern/src/pattern.cc\<close>: a recursive
  descent with backtracking over index spans of the pattern and of the name. The definitions keep
  the spans of the source; the theorems give the matcher a denotational meaning (the set of names a
  pattern denotes) and show that the two agree, that it ends on every pattern, that it looks at
  nothing outside the spans it is given, and that case does not matter.

  Spans are 32-bit in the source; they are natural numbers here, which is the same thing while
  pattern and name are shorter than \<open>2 ^ 32 - 2\<close> bytes. An access \<open>p ! i\<close> stands for \<^verbatim>\<open>p[i]\<close>.
\<close>

section \<open>Expressions of the pattern\<close>

text \<open>The index of the first \<open>c\<close> in the span, or its end.\<close>

function find_from :: "string \<Rightarrow> nat \<Rightarrow> nat \<Rightarrow> char \<Rightarrow> nat" where
  "find_from p pe i c = (if i < pe \<and> p ! i \<noteq> c then find_from p pe (Suc i) c else i)"
  by pat_completeness auto
termination
  by (relation "measure (\<lambda>(p, pe, i, c). pe - i)") auto

text \<open>The index past the parenthesis that closes the group, or the end of the span.\<close>

function group_end :: "string \<Rightarrow> nat \<Rightarrow> int \<Rightarrow> nat \<Rightarrow> nat" where
  "group_end p pe depth i =
     (if i < pe then
        if p ! i = CHR ''('' then group_end p pe (depth + 1) (Suc i)
        else if p ! i = CHR '')'' then
          if depth - 1 = 0 then i + 1 else group_end p pe (depth - 1) (Suc i)
        else group_end p pe depth (Suc i)
      else pe)"
  by pat_completeness auto
termination
  by (relation "measure (\<lambda>(p, pe, depth, i). pe - i)") auto

declare find_from.simps [simp del] group_end.simps [simp del]

function expr_end :: "string \<Rightarrow> nat \<Rightarrow> nat \<Rightarrow> nat" where
  "expr_end p pe at =
     (if at \<ge> pe then at
      else if p ! at = CHR 0x27 then (if at + 2 \<le> pe then at + 2 else pe)
      else if p ! at = CHR ''['' then
        (let i = find_from p pe (at + 1) (CHR '']'') in if i < pe then i + 1 else pe)
      else if p ! at = CHR ''('' then group_end p pe 0 at
      else if p ! at = CHR ''#'' \<or> p ! at = CHR ''~'' then expr_end p pe (at + 1)
      else at + 1)"
  by pat_completeness auto
termination
  by (relation "measure (\<lambda>(p, pe, at). pe - at)") auto

declare expr_end.simps [simp del]

function alternative_scan :: "string \<Rightarrow> nat \<Rightarrow> int \<Rightarrow> nat \<Rightarrow> nat" where
  "alternative_scan p ge depth i =
     (if i + 1 < ge then
        if p ! i = CHR ''('' then alternative_scan p ge (depth + 1) (Suc i)
        else if p ! i = CHR '')'' then alternative_scan p ge (depth - 1) (Suc i)
        else if p ! i = CHR ''|'' \<and> depth = 0 then i
        else alternative_scan p ge depth (Suc i)
      else i)"
  by pat_completeness auto
termination
  by (relation "measure (\<lambda>(p, ge, depth, i). ge - i)") auto

declare alternative_scan.simps [simp del]

definition alternative_end :: "string \<Rightarrow> nat \<Rightarrow> nat \<Rightarrow> nat" where
  "alternative_end p ge at = alternative_scan p ge 0 at"

lemma alternative_scan_ge: "i \<le> alternative_scan p ge depth i"
proof (induction p ge depth i rule: alternative_scan.induct)
  case (1 p ge depth i)
  then show ?case by (subst alternative_scan.simps) (auto intro: Suc_leD)
qed

text \<open>The spans of the alternatives the loop of a group visits, in order.\<close>

function alternatives :: "string \<Rightarrow> nat \<Rightarrow> nat \<Rightarrow> (nat \<times> nat) list" where
  "alternatives p ge a =
     (if a + 1 < ge then
        (let ae = alternative_end p ge a in (a, ae) # alternatives p ge (ae + 1))
      else [])"
  by pat_completeness auto
termination
proof (relation "measure (\<lambda>(p, ge, a). ge - a)", goal_cases)
  case (2 p ge a ae)
  then show ?case
    using alternative_scan_ge [of a p ge 0] by (auto simp: alternative_end_def)
qed simp

declare alternatives.simps [simp del]

text \<open>The class loop over \<open>[i, e)\<close>, \<open>e\<close> the index of the closing bracket.\<close>

function class_scan :: "string \<Rightarrow> nat \<Rightarrow> nat \<Rightarrow> char \<Rightarrow> bool \<Rightarrow> bool" where
  "class_scan p i e ch found =
     (if i < e then
        if i + 2 < e \<and> p ! (i + 1) = CHR ''-'' then
          class_scan p (i + 3) e ch
            (found \<or> (of_char (ascii_lower ch) \<ge> (of_char (ascii_lower (p ! i)) :: nat) \<and>
                      of_char (ascii_lower ch) \<le> (of_char (ascii_lower (p ! (i + 2))) :: nat)))
        else class_scan p (Suc i) e ch (found \<or> ascii_lower ch = ascii_lower (p ! i))
      else found)"
  by pat_completeness auto
termination
  by (relation "measure (\<lambda>(p, i, e, ch, found). e - i)") auto

declare class_scan.simps [simp del]

definition class_has :: "string \<Rightarrow> nat \<Rightarrow> nat \<Rightarrow> char \<Rightarrow> bool" where
  "class_has p at ce ch =
     (let negated = (at + 1 < ce - 1 \<and> p ! (at + 1) = CHR ''~'');
          i = (if negated then at + 2 else at + 1)
      in class_scan p i (ce - 1) ch False \<noteq> negated)"

section \<open>Bounds of the spans\<close>

lemma find_from_bounds: "i \<le> pe \<Longrightarrow> i \<le> find_from p pe i c \<and> find_from p pe i c \<le> pe"
proof (induction p pe i c rule: find_from.induct)
  case (1 p pe i c)
  then show ?case by (subst (1 2) find_from.simps) auto
qed

lemma group_end_bounds: "i \<le> pe \<Longrightarrow> i \<le> group_end p pe depth i \<and> group_end p pe depth i \<le> pe"
proof (induction p pe depth i rule: group_end.induct)
  case (1 p pe depth i)
  then show ?case by (subst (1 2) group_end.simps) auto
qed

text \<open>A group or any other expression is never empty, and stays in the span.\<close>

lemma group_end_gt: "i < pe \<Longrightarrow> i < group_end p pe depth i"
  using group_end_bounds [of "Suc i" pe p]
  by (subst group_end.simps) (auto simp: Suc_le_eq)

lemma expr_end_bounds:
  "at \<le> pe \<Longrightarrow> at \<le> expr_end p pe at \<and> expr_end p pe at \<le> pe \<and> (at < pe \<longrightarrow> at < expr_end p pe at)"
proof (induction p pe at rule: expr_end.induct)
  case (1 p pe at)
  then show ?case
    using find_from_bounds [of "at + 1" pe p "CHR '']''"] group_end_bounds [of at pe p 0]
      group_end_gt [of at pe p 0]
    by (subst (1 2 3) expr_end.simps) (auto simp: Let_def)
qed

lemma alternative_end_bounds:
  assumes "a + 1 < ge"
  shows "a \<le> alternative_end p ge a \<and> alternative_end p ge a + 1 \<le> ge"
proof -
  have "i + 1 \<le> ge \<Longrightarrow> alternative_scan p ge d i + 1 \<le> ge" for d i
  proof (induction p ge d i rule: alternative_scan.induct)
    case (1 p ge d i)
    then show ?case by (subst alternative_scan.simps) auto
  qed
  then show ?thesis
    using assms alternative_scan_ge [of a p ge 0] by (simp add: alternative_end_def)
qed

lemma alternatives_bounds:
  "(a', ae) \<in> set (alternatives p ge a) \<Longrightarrow> a \<le> a' \<and> a' \<le> ae \<and> ae + 1 \<le> ge \<and> a' + 1 < ge"
proof (induction p ge a rule: alternatives.induct)
  case (1 p ge a)
  show ?case
  proof (cases "a + 1 < ge")
    case True
    note b = alternative_end_bounds [OF True, of p]
    show ?thesis
      using "1.IH" [OF True refl] "1.prems" True b
      by (subst (asm) (2) alternatives.simps) (auto simp: Let_def)
  next
    case False
    then show ?thesis using "1.prems" by (simp add: alternatives.simps)
  qed
qed

section \<open>The matcher\<close>

definition match_measure ::
  "(string \<times> nat \<times> nat \<times> nat \<times> nat \<times> string \<times> nat \<times> nat) +
   (string \<times> nat \<times> nat \<times> string \<times> nat \<times> nat) \<Rightarrow> nat \<times> nat" where
  "match_measure x =
     (case x of
        Inl (p, xp, xe, rp, pe, s, ni, ne) \<Rightarrow> (2 * max (pe - rp) (xe - xp) + 1, ne - ni)
      | Inr (p, pi, pe, s, ni, ne) \<Rightarrow> (2 * (pe - pi), 0))"

lemma expr_split_less:
  assumes "i < pe"
  shows "expr_end p pe (Suc i) - Suc i < pe - i" and "pe - expr_end p pe (Suc i) < pe - i"
    and "Suc i \<le> expr_end p pe (Suc i)" and "expr_end p pe (Suc i) \<le> pe"
  using expr_end_bounds [of "Suc i" pe p] assms by auto

lemma alternative_less:
  assumes "i < pe" and "(a, b) \<in> set (alternatives p (expr_end p pe i) (Suc i))"
  shows "b - a < pe - i"
  using alternatives_bounds [OF assms(2)] expr_end_bounds [of i pe p] assms(1) by linarith

function (sequential) match_rep :: "string \<Rightarrow> nat \<Rightarrow> nat \<Rightarrow> nat \<Rightarrow> nat \<Rightarrow> string \<Rightarrow> nat \<Rightarrow> nat \<Rightarrow> bool"
  and match_sub :: "string \<Rightarrow> nat \<Rightarrow> nat \<Rightarrow> string \<Rightarrow> nat \<Rightarrow> nat \<Rightarrow> bool" where
  "match_rep p xp xe rp pe s ni ne =
     (match_sub p rp pe s ni ne \<or>
      (\<exists>mid\<in>set [ni + 1..<Suc ne].
         match_sub p xp xe s ni mid \<and> match_rep p xp xe rp pe s mid ne))"
| "match_sub p pi pe s ni ne =
     (if pi \<ge> pe then ni \<ge> ne
      else if p ! pi = CHR ''#'' then
        (let xe = expr_end p pe (pi + 1) in match_rep p (pi + 1) xe xe pe s ni ne)
      else if p ! pi = CHR ''~'' then
        (let xe = expr_end p pe (pi + 1)
         in \<exists>mid\<in>set [ni..<Suc ne].
              \<not> match_sub p (pi + 1) xe s ni mid \<and> match_sub p xe pe s mid ne)
      else if p ! pi = CHR ''('' then
        (let ge = expr_end p pe pi
         in if ge < pi + 2 \<or> p ! (ge - 1) \<noteq> CHR '')'' then False
            else \<exists>alt\<in>set (alternatives p ge (pi + 1)). \<exists>mid\<in>set [ni..<Suc ne].
                   match_sub p (fst alt) (snd alt) s ni mid \<and> match_sub p ge pe s mid ne)
      else if p ! pi = CHR ''['' then
        (let ce = expr_end p pe pi
         in if ce < pi + 2 \<or> p ! (ce - 1) \<noteq> CHR '']'' then False
            else ni < ne \<and> class_has p pi ce (s ! ni) \<and> match_sub p ce pe s (ni + 1) ne)
      else if p ! pi = CHR 0x27 then
        pi + 1 < pe \<and> ni < ne \<and> ascii_lower (p ! (pi + 1)) = ascii_lower (s ! ni) \<and>
        match_sub p (pi + 2) pe s (ni + 1) ne
      else if p ! pi = CHR ''%'' then match_sub p (pi + 1) pe s ni ne
      else if p ! pi = CHR ''?'' then ni < ne \<and> match_sub p (pi + 1) pe s (ni + 1) ne
      else ni < ne \<and> ascii_lower (p ! pi) = ascii_lower (s ! ni) \<and>
           match_sub p (pi + 1) pe s (ni + 1) ne)"
  by pat_completeness auto

termination
proof (relation "inv_image (less_than <*lex*> less_than) match_measure", goal_cases)
  case (5 p i pe s ni ne xe)
  then show ?case
    using expr_split_less [of i pe p] by (auto simp: match_measure_def max_def)
qed (use expr_split_less alternative_less expr_end_bounds in \<open>auto simp: match_measure_def not_le\<close>)

declare match_rep.simps [simp del] match_sub.simps [simp del]

text \<open>\<open>None\<close> is the null pointer.\<close>

definition match :: "string option \<Rightarrow> string option \<Rightarrow> bool" where
  "match pat name =
     (case (pat, name) of
        (Some p, Some s) \<Rightarrow> match_sub p 0 (length p) s 0 (length s)
      | _ \<Rightarrow> False)"

section \<open>What a match looks at\<close>

text \<open>
  \<open>agree p q d n\<close>: the \<open>n\<close> characters of \<open>p\<close> from \<open>d\<close> on are those of \<open>q\<close>, up to case. Everything the
  matcher computes on such spans is the same, so it depends on nothing outside them.
\<close>

definition agree :: "string \<Rightarrow> string \<Rightarrow> nat \<Rightarrow> nat \<Rightarrow> bool" where
  "agree p q d n \<longleftrightarrow> (\<forall>i<n. ascii_lower (p ! (d + i)) = ascii_lower (q ! i))"

definition plain_char :: "char \<Rightarrow> bool" where
  "plain_char c \<longleftrightarrow> \<not> (65 \<le> (of_char c :: nat) \<and> (of_char c :: nat) \<le> 90) \<and>
     \<not> (97 \<le> (of_char c :: nat) \<and> (of_char c :: nat) \<le> 122)"

lemma agree_char:
  "agree p q d n \<Longrightarrow> i < n \<Longrightarrow> plain_char c \<Longrightarrow> p ! (d + i) = c \<longleftrightarrow> q ! i = c"
  unfolding agree_def plain_char_def using ascii_lower_eq_nonletter by metis

lemma agree_mono: "agree p q d n \<Longrightarrow> m \<le> n \<Longrightarrow> agree p q d m"
  by (simp add: agree_def)

lemma plain_tokens [simp]:
  "plain_char (CHR ''#'')" "plain_char (CHR ''~'')" "plain_char (CHR ''('')" "plain_char (CHR '')'')"
  "plain_char (CHR ''['')" "plain_char (CHR '']'')" "plain_char (CHR 0x27)" "plain_char (CHR ''%'')"
  "plain_char (CHR ''?'')" "plain_char (CHR ''|'')" "plain_char (CHR ''-'')"
  by (simp_all add: plain_char_def)

lemma find_from_shift:
  "agree p q d n \<Longrightarrow> plain_char c \<Longrightarrow> find_from p (d + n) (d + i) c = d + find_from q n i c"
proof (induction q n i c rule: find_from.induct)
  case (1 q n i c)
  then show ?case
    using agree_char [OF "1.prems"(1), of i c]
    by (subst (1 2) find_from.simps) (auto simp: add_Suc_right [symmetric] simp del: add_Suc_right)
qed

lemma group_end_shift:
  "agree p q d n \<Longrightarrow> group_end p (d + n) depth (d + i) = d + group_end q n depth i"
proof (induction q n depth i rule: group_end.induct)
  case (1 q n depth i)
  note c = agree_char [OF "1.prems", of i]
  show ?case
  proof (cases "i < n")
    case True
    have c': "p ! (d + i) = CHR ''('' \<longleftrightarrow> q ! i = CHR ''(''"
      "p ! (d + i) = CHR '')'' \<longleftrightarrow> q ! i = CHR '')''"
      using c [OF True] by simp_all
    show ?thesis
      using "1.IH" "1.prems" True
      by (simp add: group_end.simps [of p "d + n" depth "d + i"] group_end.simps [of q n depth i]
          c' add_Suc_right [symmetric] del: add_Suc_right)
  next
    case False
    then show ?thesis
      by (simp add: group_end.simps [of p "d + n" depth "d + i"] group_end.simps [of q n depth i])
  qed
qed

lemma expr_end_shift: "agree p q d n \<Longrightarrow> expr_end p (d + n) (d + i) = d + expr_end q n i"
proof (induction q n i rule: expr_end.induct)
  case (1 q n i)
  show ?case
  proof (cases "i < n")
    case True
    note c = agree_char [OF "1.prems" True]
    have c': "p ! (d + i) = CHR 0x27 \<longleftrightarrow> q ! i = CHR 0x27"
      "p ! (d + i) = CHR ''['' \<longleftrightarrow> q ! i = CHR ''[''"
      "p ! (d + i) = CHR ''('' \<longleftrightarrow> q ! i = CHR ''(''"
      "p ! (d + i) = CHR ''#'' \<longleftrightarrow> q ! i = CHR ''#''"
      "p ! (d + i) = CHR ''~'' \<longleftrightarrow> q ! i = CHR ''~''"
      using c by simp_all
    show ?thesis
      using "1.IH" "1.prems" True find_from_shift [OF "1.prems", of "CHR '']''" "Suc i"]
        group_end_shift [OF "1.prems", of 0 i]
      by (simp add: expr_end.simps [of p "d + n" "d + i"] expr_end.simps [of q n i]
          c' Let_def)
  next
    case False
    then show ?thesis
      by (simp add: expr_end.simps [of p "d + n" "d + i"] expr_end.simps [of q n i])
  qed
qed

lemma alternative_scan_shift:
  "agree p q d n \<Longrightarrow> ge \<le> n \<Longrightarrow> 0 < ge \<Longrightarrow>
   alternative_scan p (d + ge) depth (d + i) = d + alternative_scan q ge depth i"
proof (induction q ge depth i rule: alternative_scan.induct)
  case (1 q ge depth i)
  show ?case
  proof (cases "i + 1 < ge")
    case True
    note c = agree_char [OF "1.prems"(1), of i]
    have c': "p ! (d + i) = CHR ''('' \<longleftrightarrow> q ! i = CHR ''(''"
      "p ! (d + i) = CHR '')'' \<longleftrightarrow> q ! i = CHR '')''"
      "p ! (d + i) = CHR ''|'' \<longleftrightarrow> q ! i = CHR ''|''"
      using c True "1.prems" by simp_all
    show ?thesis
      using "1.IH" "1.prems" True
      by (simp add: alternative_scan.simps [of p "d + ge" depth "d + i"]
          alternative_scan.simps [of q ge depth i] c')
  next
    case False
    then show ?thesis
      by (simp add: alternative_scan.simps [of p "d + ge" depth "d + i"]
          alternative_scan.simps [of q ge depth i])
  qed
qed

lemma alternatives_shift:
  "agree p q d n \<Longrightarrow> ge \<le> n \<Longrightarrow>
   alternatives p (d + ge) (d + a) = map (\<lambda>(a, b). (d + a, d + b)) (alternatives q ge a)"
proof (induction q ge a rule: alternatives.induct)
  case (1 q ge a)
  show ?case
  proof (cases "a + 1 < ge")
    case True
    have e: "alternative_end p (d + ge) (d + a) = d + alternative_end q ge a"
      using alternative_scan_shift [OF "1.prems"] True by (simp add: alternative_end_def)
    show ?thesis
      using "1.IH" [OF True refl "1.prems"] True e
      by (simp add: alternatives.simps [of p "d + ge" "d + a"] alternatives.simps [of q ge a] Let_def)
  next
    case False
    then show ?thesis
      by (simp add: alternatives.simps [of p "d + ge" "d + a"] alternatives.simps [of q ge a])
  qed
qed

lemma class_scan_shift:
  "agree p q d n \<Longrightarrow> e \<le> n \<Longrightarrow> ascii_lower ch = ascii_lower ch' \<Longrightarrow>
   class_scan p (d + i) (d + e) ch found = class_scan q i e ch' found"
proof (induction q i e ch' found rule: class_scan.induct)
  case (1 q i e ch' found)
  show ?case
  proof (cases "i < e")
    case True
    have l: "ascii_lower (p ! (d + i)) = ascii_lower (q ! i)"
      using "1.prems" True by (simp add: agree_def)
    have l2: "ascii_lower (p ! Suc (Suc (d + i))) = ascii_lower (q ! Suc (Suc i))" if "i + 2 < e"
      using "1.prems" that unfolding agree_def
      by (metis add_2_eq_Suc' add_Suc_right order_less_le_trans)
    have c: "p ! Suc (d + i) = CHR ''-'' \<longleftrightarrow> q ! Suc i = CHR ''-''" if "i + 2 < e"
      using agree_char [OF "1.prems"(1), of "Suc i" "CHR ''-''"] "1.prems" that by simp
    have s3: "d + i + 3 = d + (i + 3)" by simp
    show ?thesis
      using "1.IH" "1.prems" True l l2 c
      by (cases "i + 2 < e") (simp_all add: class_scan.simps [of p "d + i" "d + e" ch found]
          class_scan.simps [of q i e ch' found] s3 del: add.assoc)
  next
    case False
    then show ?thesis
      by (simp add: class_scan.simps [of p "d + i" "d + e" ch found]
          class_scan.simps [of q i e ch' found])
  qed
qed

lemma class_has_shift:
  assumes "agree p q d n" and "ce \<le> n" and "at + 2 \<le> ce" and "ascii_lower ch = ascii_lower ch'"
  shows "class_has p (d + at) (d + ce) ch = class_has q at ce ch'"
proof -
  have c: "p ! Suc (d + at) = CHR ''~'' \<longleftrightarrow> q ! Suc at = CHR ''~''"
    using agree_char [OF assms(1), of "Suc at" "CHR ''~''"] assms(2,3) by simp
  have e: "d + ce - 1 = d + (ce - 1)" using assms(3) by simp
  show ?thesis
    using class_scan_shift [OF assms(1) _ assms(4), of "ce - 1" "Suc at" False]
      class_scan_shift [OF assms(1) _ assms(4), of "ce - 1" "Suc (Suc at)" False] assms(2,3)
    by (auto simp: class_has_def Let_def c e)
qed

lemma bex_shift:
  "(\<exists>mid\<in>set [d + a..<Suc (d + b)]. P mid) \<longleftrightarrow> (\<exists>mid\<in>set [a..<Suc b]. P (d + mid))"
proof
  assume "\<exists>mid\<in>set [d + a..<Suc (d + b)]. P mid"
  then obtain mid where "d + a \<le> mid" "mid < Suc (d + b)" "P mid"
    by (metis atLeastLessThan_iff set_upt)
  then show "\<exists>mid\<in>set [a..<Suc b]. P (d + mid)"
    by (intro bexI [of _ "mid - d"]) auto
qed (metis add_Suc_right atLeastLessThan_iff nat_add_left_cancel_le nat_add_left_cancel_less set_upt)

text \<open>
  Both halves of the matcher move with their spans: the repetition when its two parts do, by
  induction on the name, and then a sub-pattern by induction on its length.
\<close>

lemma match_rep_shift:
  assumes "\<And>x y. y \<le> m \<Longrightarrow>
      match_sub p (d + rp) (d + pe) s (e + x) (e + y) = match_sub q rp pe s' x y"
    and "\<And>x y. y \<le> m \<Longrightarrow>
      match_sub p (d + xp) (d + xe) s (e + x) (e + y) = match_sub q xp xe s' x y"
    and "ne \<le> m"
  shows "match_rep p (d + xp) (d + xe) (d + rp) (d + pe) s (e + ni) (e + ne) =
    match_rep q xp xe rp pe s' ni ne"
proof (induction "ne - ni" arbitrary: ni rule: less_induct)
  case less
  have step: "match_sub p (d + xp) (d + xe) s (e + ni) (e + mid) \<and>
      match_rep p (d + xp) (d + xe) (d + rp) (d + pe) s (e + mid) (e + ne) \<longleftrightarrow>
      match_sub q xp xe s' ni mid \<and> match_rep q xp xe rp pe s' mid ne"
    if "mid \<in> set [Suc ni..<Suc ne]" for mid
    using that assms(2) [of mid ni] assms(3) less [of mid] by auto
  show ?case
    unfolding match_rep.simps [of p "d + xp" "d + xe" "d + rp" "d + pe" s "e + ni" "e + ne"]
      match_rep.simps [of q xp xe rp pe s' ni ne]
    using assms(1) [OF assms(3), of ni] step
      bex_shift [of e "Suc ni" ne "\<lambda>mid. match_sub p (d + xp) (d + xe) s (e + ni) mid \<and>
        match_rep p (d + xp) (d + xe) (d + rp) (d + pe) s mid (e + ne)"]
    by simp
qed

lemma match_sub_shift:
  "\<lbrakk>agree p q d n; agree s s' e m; pe \<le> n; ne \<le> m\<rbrakk> \<Longrightarrow>
   match_sub p (d + i) (d + pe) s (e + ni) (e + ne) = match_sub q i pe s' ni ne"
proof (induction "pe - i" arbitrary: i pe ni ne rule: less_induct)
  case less
  note ag = less.prems(1) and as = less.prems(2)
  have ag': "agree p q d pe" using ag less.prems(3) agree_mono by blast
  have IH: "match_sub p (d + a) (d + b) s (e + x) (e + y) = match_sub q a b s' x y"
    if "b - a < pe - i" "b \<le> n" "y \<le> m" for a b x y
    using less.hyps [OF that(1) ag as that(2,3)] .
  note unf = match_sub.simps [of p "d + i" "d + pe" s "e + ni" "e + ne"]
    match_sub.simps [of q i pe s' ni ne]
  show ?case
  proof (cases "i < pe")
    case False
    then show ?thesis by (simp add: unf)
  next
    case True
    note c = agree_char [OF ag' True]
    have c': "p ! (d + i) = CHR 0x27 \<longleftrightarrow> q ! i = CHR 0x27"
      "p ! (d + i) = CHR ''['' \<longleftrightarrow> q ! i = CHR ''[''"
      "p ! (d + i) = CHR ''('' \<longleftrightarrow> q ! i = CHR ''(''"
      "p ! (d + i) = CHR ''#'' \<longleftrightarrow> q ! i = CHR ''#''"
      "p ! (d + i) = CHR ''~'' \<longleftrightarrow> q ! i = CHR ''~''"
      "p ! (d + i) = CHR ''%'' \<longleftrightarrow> q ! i = CHR ''%''"
      "p ! (d + i) = CHR ''?'' \<longleftrightarrow> q ! i = CHR ''?''"
      using c by simp_all
    have lp: "ascii_lower (p ! (d + j)) = ascii_lower (q ! j)" if "j < pe" for j
      using ag' that by (simp add: agree_def)
    have ls: "ascii_lower (s ! (e + j)) = ascii_lower (s' ! j)" if "j < ne" for j
      using as less.prems(4) that by (simp add: agree_def)
    have ee: "expr_end p (d + pe) (d + j) = d + expr_end q pe j" for j
      by (rule expr_end_shift [OF ag'])
    have ee1: "expr_end p (d + pe) (Suc (d + i)) = d + expr_end q pe (Suc i)"
      using ee [of "Suc i"] by simp
    note xs = expr_split_less [OF True, of q]
    have one: "match_sub p (Suc (d + i)) (d + pe) s (e + x) (e + ne) = match_sub q (Suc i) pe s' x ne" for x
      using IH [of pe "Suc i" ne x] True less.prems by simp
    have lit: "(e + ni < e + ne \<and> P (s ! (e + ni)) \<and> match_sub p (d + j) (d + pe) s (Suc (e + ni)) (e + ne)) =
        (ni < ne \<and> P (s' ! ni) \<and> match_sub q j pe s' (Suc ni) ne)"
      if "i < j" "\<And>ch ch'. ascii_lower ch = ascii_lower ch' \<Longrightarrow> P ch = P ch'" for j P
      using IH [of pe j ne "Suc ni"] that(1) that(2) [OF ls [of ni]] True less.prems(3,4)
      by (cases "ni < ne") simp_all
    consider (hash) "q ! i = CHR ''#''" | (tilde) "q ! i = CHR ''~''" | (group) "q ! i = CHR ''(''"
      | (cls) "q ! i = CHR ''[''" | (quote) "q ! i = CHR 0x27" | (other) "q ! i \<noteq> CHR ''#''"
        "q ! i \<noteq> CHR ''~''" "q ! i \<noteq> CHR ''(''" "q ! i \<noteq> CHR ''[''" "q ! i \<noteq> CHR 0x27" by blast
    then show ?thesis
    proof cases
      case hash
      have "match_rep p (d + Suc i) (d + expr_end q pe (Suc i)) (d + expr_end q pe (Suc i)) (d + pe)
          s (e + ni) (e + ne) =
        match_rep q (Suc i) (expr_end q pe (Suc i)) (expr_end q pe (Suc i)) pe s' ni ne"
        using xs less.prems(3,4) by (intro match_rep_shift [where m = m] IH) auto
      then show ?thesis using True hash by (simp add: unf c' ee1 Let_def)
    next
      case tilde
      let ?x = "expr_end q pe (Suc i)"
      have "\<not> match_sub p (d + Suc i) (d + ?x) s (e + ni) (e + mid) \<and>
          match_sub p (d + ?x) (d + pe) s (e + mid) (e + ne) \<longleftrightarrow>
          \<not> match_sub q (Suc i) ?x s' ni mid \<and> match_sub q ?x pe s' mid ne"
        if "mid \<in> set [ni..<Suc ne]" for mid
        using IH [of ?x "Suc i" mid ni] IH [of pe ?x ne mid] xs less.prems(3,4) that by auto
      then show ?thesis
        using True tilde bex_shift [of e ni ne "\<lambda>mid.
            \<not> match_sub p (d + Suc i) (d + ?x) s (e + ni) mid \<and>
            match_sub p (d + ?x) (d + pe) s mid (e + ne)"]
        by (simp add: unf c' ee1 Let_def del: upt_Suc)
    next
      case group
      let ?g = "expr_end q pe i"
      have g: "i < ?g" "?g \<le> pe" using expr_end_bounds [of i pe q] True by auto
      have close: "p ! (d + ?g - Suc 0) = CHR '')'' \<longleftrightarrow> q ! (?g - Suc 0) = CHR '')''"
        using agree_char [OF ag', of "?g - 1" "CHR '')''"] g by simp
      have alts: "alternatives p (d + ?g) (Suc (d + i)) =
          map (\<lambda>(a, b). (d + a, d + b)) (alternatives q ?g (Suc i))"
        using alternatives_shift [OF ag' g(2), of "Suc i"] by simp
      have alt: "(\<exists>mid\<in>set [e + ni..<Suc (e + ne)]. match_sub p (d + a) (d + b) s (e + ni) mid \<and>
            match_sub p (d + ?g) (d + pe) s mid (e + ne)) \<longleftrightarrow>
          (\<exists>mid\<in>set [ni..<Suc ne]. match_sub q a b s' ni mid \<and> match_sub q ?g pe s' mid ne)"
        if ab: "(a, b) \<in> set (alternatives q ?g (Suc i))" for a b
      proof -
        have "match_sub p (d + a) (d + b) s (e + ni) (e + mid) = match_sub q a b s' ni mid"
          "match_sub p (d + ?g) (d + pe) s (e + mid) (e + ne) = match_sub q ?g pe s' mid ne"
          if "mid \<in> set [ni..<Suc ne]" for mid
          using IH [of b a mid ni] IH [of pe ?g ne mid] alternative_less [OF True ab]
            alternatives_bounds [OF ab] g less.prems(3,4) that by auto
        then show ?thesis by (simp only: bex_shift cong: bex_cong)
      qed
      show ?thesis
        using True group alt
        by (simp add: unf c' ee Let_def alts close case_prod_beta del: upt_Suc)
    next
      case cls
      let ?c = "expr_end q pe i"
      have g: "i < ?c" "?c \<le> pe" using expr_end_bounds [of i pe q] True by auto
      have close: "p ! (d + ?c - Suc 0) = CHR '']'' \<longleftrightarrow> q ! (?c - Suc 0) = CHR '']''"
        using agree_char [OF ag', of "?c - 1" "CHR '']''"] g by simp
      have "class_has p (d + i) (d + ?c) (s ! (e + ni)) = class_has q i ?c (s' ! ni)"
        if "ni < ne" "i + 2 \<le> ?c"
        using class_has_shift [OF ag' g(2) that(2)] ls [OF that(1)] by blast
      then show ?thesis
        using True cls IH [of pe ?c ne "Suc ni"] g less.prems(3,4)
        by (auto simp: unf c' ee Let_def close)
    next
      case quote
      then show ?thesis
        using True lit [of "Suc (Suc i)" "\<lambda>ch. ascii_lower (q ! Suc i) = ascii_lower ch"] lp [of "Suc i"]
        by (cases "Suc i < pe") (auto simp: unf c')
    next
      case other
      then show ?thesis
        using True lit [of "Suc i" "\<lambda>ch. ascii_lower (q ! i) = ascii_lower ch"]
          lit [of "Suc i" "\<lambda>ch. True"] lp [of i] one [of ni]
        by (simp add: unf c')
    qed
  qed
qed

section \<open>The meaning of a pattern\<close>

text \<open>Zero or more texts of a set, one after another.\<close>

inductive_set reps :: "string set \<Rightarrow> string set" for X where
  reps_Nil: "[] \<in> reps X"
| reps_step: "u \<in> X \<Longrightarrow> v \<in> reps X \<Longrightarrow> u @ v \<in> reps X"

definition conc :: "string set \<Rightarrow> string set \<Rightarrow> string set" where
  "conc A B = {u @ v | u v. u \<in> A \<and> v \<in> B}"

definition one_of :: "(char \<Rightarrow> bool) \<Rightarrow> string set" where
  "one_of P = {[c] | c. P c}"

text \<open>
  The names a pattern denotes, by the table of the format: the expression after \<^verbatim>\<open>#\<close> repeated, the
  complement of the expression after \<^verbatim>\<open>~\<close>, the union of a group's alternatives, a class, a quoted
  character, the empty text, any character, a literal; each followed by the rest of the pattern.
  A group or a class that is not closed denotes nothing.
\<close>

function denotes :: "string \<Rightarrow> string set" where
  "denotes p =
     (if p = [] then {[]}
      else if hd p = CHR ''#'' then
        (let x = expr_end p (length p) 1
         in conc (reps (denotes (take (x - 1) (tl p)))) (denotes (drop x p)))
      else if hd p = CHR ''~'' then
        (let x = expr_end p (length p) 1
         in conc (- denotes (take (x - 1) (tl p))) (denotes (drop x p)))
      else if hd p = CHR ''('' then
        (let g = expr_end p (length p) 0
         in if g < 2 \<or> p ! (g - 1) \<noteq> CHR '')'' then {}
            else conc (\<Union>alt\<in>set (alternatives p g 1).
                         denotes (take (snd alt - fst alt) (drop (fst alt) p)))
                   (denotes (drop g p)))
      else if hd p = CHR ''['' then
        (let c = expr_end p (length p) 0
         in if c < 2 \<or> p ! (c - 1) \<noteq> CHR '']'' then {}
            else conc (one_of (class_has p 0 c)) (denotes (drop c p)))
      else if hd p = CHR 0x27 then
        (if length p < 2 then {}
         else conc (one_of (\<lambda>ch. ascii_lower (p ! 1) = ascii_lower ch)) (denotes (drop 2 p)))
      else if hd p = CHR ''%'' then denotes (tl p)
      else if hd p = CHR ''?'' then conc (one_of (\<lambda>ch. True)) (denotes (tl p))
      else conc (one_of (\<lambda>ch. ascii_lower (hd p) = ascii_lower ch)) (denotes (tl p)))"
  by pat_completeness auto
termination
proof (relation "measure length", goal_cases)
  case (2 p x)
  then show ?case using expr_end_bounds [of 1 "length p" p] by (cases p) auto
next
  case (3 p x)
  then show ?case using expr_end_bounds [of 1 "length p" p] by (cases p) auto
next
  case (4 p x)
  then show ?case using expr_end_bounds [of 1 "length p" p] by (cases p) auto
next
  case (5 p x)
  then show ?case using expr_end_bounds [of 1 "length p" p] by (cases p) auto
next
  case (6 p g alt)
  then show ?case
    using alternative_less [of 0 "length p" "fst alt" "snd alt" p] by (auto simp: min_def)
qed auto

declare denotes.simps [simp del]

lemma concI: "u \<in> A \<Longrightarrow> v \<in> B \<Longrightarrow> u @ v \<in> conc A B"
  by (auto simp: conc_def)

lemma conc_split: "w \<in> conc A B \<longleftrightarrow> (\<exists>k\<le>length w. take k w \<in> A \<and> drop k w \<in> B)"
proof
  assume "w \<in> conc A B"
  then obtain u v where "w = u @ v" "u \<in> A" "v \<in> B" by (auto simp: conc_def)
  then show "\<exists>k\<le>length w. take k w \<in> A \<and> drop k w \<in> B"
    by (intro exI [of _ "length u"]) auto
qed (metis append_take_drop_id concI)

lemma conc_Union: "w \<in> conc (\<Union>a\<in>A. f a) B \<longleftrightarrow> (\<exists>a\<in>A. w \<in> conc (f a) B)"
  by (auto simp: conc_def)

lemma conc_one_of: "w \<in> conc (one_of P) B \<longleftrightarrow> w \<noteq> [] \<and> P (hd w) \<and> tl w \<in> B"
proof -
  have "w \<in> conc (one_of P) B" if "w = c # v" "P c" "v \<in> B" for c v
    using that concI [of "[c]" "one_of P" v B] by (auto simp: one_of_def)
  then show ?thesis
    by (cases w) (auto simp: conc_def one_of_def)
qed

text \<open>A repetition can leave its empty steps out.\<close>

lemma reps_nonempty_step:
  "w \<in> reps X \<Longrightarrow> w = [] \<or> (\<exists>k. 0 < k \<and> k \<le> length w \<and> take k w \<in> X \<and> drop k w \<in> reps X)"
proof (induction rule: reps.induct)
  case reps_Nil
  then show ?case by simp
next
  case (reps_step u v)
  then show ?case
    by (cases "u = []") (auto intro!: exI [of _ "length u"])
qed

lemma conc_reps_unfold:
  "w \<in> conc (reps X) R \<longleftrightarrow>
   w \<in> R \<or> (\<exists>k. 0 < k \<and> k \<le> length w \<and> take k w \<in> X \<and> drop k w \<in> conc (reps X) R)"
proof
  assume "w \<in> conc (reps X) R"
  then obtain u v where w: "w = u @ v" "u \<in> reps X" "v \<in> R" by (auto simp: conc_def)
  show "w \<in> R \<or> (\<exists>k. 0 < k \<and> k \<le> length w \<and> take k w \<in> X \<and> drop k w \<in> conc (reps X) R)"
    using reps_nonempty_step [OF w(2)]
  proof (elim disjE exE)
    assume "u = []"
    then show ?thesis using w by simp
  next
    fix k
    assume k: "0 < k \<and> k \<le> length u \<and> take k u \<in> X \<and> drop k u \<in> reps X"
    then have "drop k w \<in> conc (reps X) R" using w(1,3) concI by simp
    moreover have "take k w \<in> X" "k \<le> length w" using k w(1) by simp_all
    ultimately show ?thesis using k by blast
  qed
next
  assume "w \<in> R \<or> (\<exists>k. 0 < k \<and> k \<le> length w \<and> take k w \<in> X \<and> drop k w \<in> conc (reps X) R)"
  then show "w \<in> conc (reps X) R"
  proof (elim disjE exE)
    assume "w \<in> R"
    then show ?thesis using concI [OF reps_Nil, of w R X] by simp
  next
    fix k
    assume k: "0 < k \<and> k \<le> length w \<and> take k w \<in> X \<and> drop k w \<in> conc (reps X) R"
    then obtain u v where uv: "drop k w = u @ v" "u \<in> reps X" "v \<in> R" by (auto simp: conc_def)
    have "w = (take k w @ u) @ v"
      using uv(1) by (metis append.assoc append_take_drop_id)
    then show ?thesis
      using k uv reps_step concI by (metis (no_types, lifting))
  qed
qed

section \<open>The matcher decides the meaning\<close>

definition whole_match :: "string \<Rightarrow> string \<Rightarrow> bool" where
  "whole_match p s \<longleftrightarrow> match_sub p 0 (length p) s 0 (length s)"

lemma match_sub_span:
  assumes "a \<le> b" "b \<le> length p" "x \<le> y" "y \<le> length s"
  shows "match_sub p a b s x y = whole_match (take (b - a) (drop a p)) (take (y - x) (drop x s))"
proof -
  have "agree p (take (b - a) (drop a p)) a (b - a)" "agree s (take (y - x) (drop x s)) x (y - x)"
    using assms by (simp_all add: agree_def)
  from match_sub_shift [OF this order_refl order_refl, of 0 0]
  have "match_sub p a b s x y =
      match_sub (take (b - a) (drop a p)) 0 (b - a) (take (y - x) (drop x s)) 0 (y - x)"
    using assms by simp
  moreover have "length (take (b - a) (drop a p)) = b - a" "length (take (y - x) (drop x s)) = y - x"
    using assms by simp_all
  ultimately show ?thesis by (simp only: whole_match_def)
qed

lemma match_rep_meaning:
  assumes "\<And>x y. x \<le> y \<Longrightarrow> y \<le> length s \<Longrightarrow>
      match_sub p rp pe s x y \<longleftrightarrow> take (y - x) (drop x s) \<in> R"
    and "\<And>x y. x \<le> y \<Longrightarrow> y \<le> length s \<Longrightarrow>
      match_sub p xp xe s x y \<longleftrightarrow> take (y - x) (drop x s) \<in> X"
    and "ni \<le> length s"
  shows "match_rep p xp xe rp pe s ni (length s) \<longleftrightarrow> drop ni s \<in> conc (reps X) R"
  using assms(3)
proof (induction "length s - ni" arbitrary: ni rule: less_induct)
  case less
  have step: "match_sub p xp xe s ni mid \<and> match_rep p xp xe rp pe s mid (length s) \<longleftrightarrow>
      take (mid - ni) (drop ni s) \<in> X \<and> drop mid s \<in> conc (reps X) R"
    if "ni < mid" "mid \<le> length s" for mid
    using that assms(2) [of ni mid] less.hyps [of mid] by simp
  have "(\<exists>mid\<in>set [ni + 1..<Suc (length s)].
      match_sub p xp xe s ni mid \<and> match_rep p xp xe rp pe s mid (length s)) \<longleftrightarrow>
    (\<exists>k. 0 < k \<and> k \<le> length (drop ni s) \<and> take k (drop ni s) \<in> X \<and>
      drop k (drop ni s) \<in> conc (reps X) R)" (is "?l \<longleftrightarrow> ?r")
  proof
    assume ?l
    then obtain mid where m: "ni < mid" "mid \<le> length s" "take (mid - ni) (drop ni s) \<in> X"
      "drop mid s \<in> conc (reps X) R"
      using step by (metis Suc_eq_plus1 atLeastLessThan_iff less_Suc_eq_le Suc_le_eq set_upt)
    then show ?r by (intro exI [of _ "mid - ni"]) (simp add: drop_drop)
  next
    assume ?r
    then obtain k where "0 < k" "k \<le> length (drop ni s)" "take k (drop ni s) \<in> X"
      "drop (ni + k) s \<in> conc (reps X) R" by (auto simp: add.commute)
    then show ?l
      using step [of "ni + k"] less.prems by (intro bexI [of _ "ni + k"]) auto
  qed
  then show ?case
    using conc_reps_unfold [of "drop ni s" X R] assms(1) [OF less.prems order_refl]
    by (simp add: match_rep.simps [of p xp xe rp pe s ni "length s"] del: upt_Suc)
qed

lemma bex_mid:
  "(\<exists>mid\<in>set [0..<Suc (length s)]. P (take mid s) \<and> Q (drop mid s)) \<longleftrightarrow>
   (\<exists>k\<le>length s. P (take k s) \<and> Q (drop k s))"
  by (metis atLeastLessThan_iff less_Suc_eq_le set_upt zero_le)

lemma whole_match_denotes: "whole_match p s \<longleftrightarrow> s \<in> denotes p"
proof (induction "length p" arbitrary: p s rule: less_induct)
  case less
  have span: "match_sub p a b s x y \<longleftrightarrow> take (y - x) (drop x s) \<in> denotes (take (b - a) (drop a p))"
    if "a \<le> b" "b \<le> length p" "b - a < length p" "x \<le> y" "y \<le> length s" for a b x y
    using that match_sub_span [OF that(1,2,4,5)] less [of "take (b - a) (drop a p)"] by simp
  have rest: "match_sub p a (length p) s x (length s) \<longleftrightarrow> drop x s \<in> denotes (drop a p)"
    if "0 < a" "a \<le> length p" "x \<le> length s" for a x
    using that span [of a "length p" x "length s"] by simp
  note unf = match_sub.simps [of p 0 "length p" s 0 "length s"] denotes.simps [of p]
  show ?case
  proof (cases p)
    case Nil
    then show ?thesis
      by (auto simp: whole_match_def match_sub.simps [of "[]"] denotes.simps [of "[]"])
  next
    case (Cons c p')
    then have n: "0 < length p" and ne: "p \<noteq> []" and hd: "p ! 0 = hd p" and tl: "tl p = drop 1 p"
      by simp_all
    let ?x = "expr_end p (length p) 1" and ?e = "expr_end p (length p) 0"
    have xb: "1 \<le> ?x" "?x \<le> length p" using expr_end_bounds [of 1 "length p" p] n by auto
    have eb: "0 < ?e" "?e \<le> length p" using expr_end_bounds [of 0 "length p" p] n by auto
    have lit: "(0 < length s \<and> P (s ! 0) \<and> match_sub p j (length p) s 1 (length s)) \<longleftrightarrow>
        s \<in> conc (one_of P) (denotes (drop j p))" if "0 < j" "j \<le> length p" for j P
      using rest [OF that, of 1] by (cases s) (auto simp: conc_one_of)
    consider (hash) "hd p = CHR ''#''" | (tilde) "hd p = CHR ''~''" | (group) "hd p = CHR ''(''"
      | (cls) "hd p = CHR ''[''" | (quote) "hd p = CHR 0x27" | (pct) "hd p = CHR ''%''"
      | (any) "hd p = CHR ''?''"
      | (other) "hd p \<notin> {CHR ''#'', CHR ''~'', CHR ''('', CHR ''['', CHR 0x27, CHR ''%'', CHR ''?''}"
      by blast
    then show ?thesis
    proof cases
      case hash
      have "match_rep p 1 ?x ?x (length p) s 0 (length s) \<longleftrightarrow>
          drop 0 s \<in> conc (reps (denotes (take (?x - 1) (tl p)))) (denotes (drop ?x p))"
      proof (rule match_rep_meaning)
        show "match_sub p ?x (length p) s x y \<longleftrightarrow> take (y - x) (drop x s) \<in> denotes (drop ?x p)"
          if "x \<le> y" "y \<le> length s" for x y
          using span [of ?x "length p" x y] that xb n by simp
        show "match_sub p 1 ?x s x y \<longleftrightarrow> take (y - x) (drop x s) \<in> denotes (take (?x - 1) (tl p))"
          if "x \<le> y" "y \<le> length s" for x y
          using span [of 1 ?x x y] that xb n by (simp add: tl)
      qed simp
      then show ?thesis
        using hash hd ne by (simp add: whole_match_def unf Let_def)
    next
      case tilde
      have "\<not> match_sub p 1 ?x s 0 mid \<and> match_sub p ?x (length p) s mid (length s) \<longleftrightarrow>
          take mid s \<in> - denotes (take (?x - 1) (tl p)) \<and> drop mid s \<in> denotes (drop ?x p)"
        if "mid \<le> length s" for mid
        using span [of 1 ?x 0 mid] rest [of ?x mid] that xb n by (simp add: tl)
      then show ?thesis
        using tilde hd ne
          bex_mid [of s "\<lambda>u. u \<in> - denotes (take (?x - 1) (tl p))" "\<lambda>v. v \<in> denotes (drop ?x p)"]
        by (simp add: whole_match_def unf Let_def conc_split del: upt_Suc)
    next
      case group
      have alt: "(\<exists>mid\<in>set [0..<Suc (length s)].
            match_sub p (fst alt) (snd alt) s 0 mid \<and> match_sub p ?e (length p) s mid (length s)) \<longleftrightarrow>
          s \<in> conc (denotes (take (snd alt - fst alt) (drop (fst alt) p))) (denotes (drop ?e p))"
        if al: "alt \<in> set (alternatives p ?e 1)" for alt
      proof -
        have "match_sub p (fst alt) (snd alt) s 0 mid \<and> match_sub p ?e (length p) s mid (length s) \<longleftrightarrow>
            take mid s \<in> denotes (take (snd alt - fst alt) (drop (fst alt) p)) \<and>
            drop mid s \<in> denotes (drop ?e p)" if "mid \<in> set [0..<Suc (length s)]" for mid
          using span [of "fst alt" "snd alt" 0 mid] rest [of ?e mid] that al eb
            alternatives_bounds [of "fst alt" "snd alt" p ?e 1] by auto
        then show ?thesis
          using bex_mid [of s "\<lambda>u. u \<in> denotes (take (snd alt - fst alt) (drop (fst alt) p))"
              "\<lambda>v. v \<in> denotes (drop ?e p)"]
          by (simp only: conc_split cong: bex_cong)
      qed
      have "(\<exists>alt\<in>set (alternatives p ?e 1). \<exists>mid\<in>set [0..<Suc (length s)].
            match_sub p (fst alt) (snd alt) s 0 mid \<and> match_sub p ?e (length p) s mid (length s)) \<longleftrightarrow>
          s \<in> conc (\<Union>alt\<in>set (alternatives p ?e 1).
              denotes (take (snd alt - fst alt) (drop (fst alt) p))) (denotes (drop ?e p))"
        using alt by (simp only: conc_Union cong: bex_cong)
      then show ?thesis
        using group hd ne by (simp add: whole_match_def unf Let_def del: upt_Suc)
    next
      case cls
      then show ?thesis
        using hd ne lit [of ?e "class_has p 0 ?e"] eb
        by (simp add: whole_match_def unf Let_def del: length_greater_0_conv)
    next
      case quote
      then show ?thesis
        using hd ne lit [of 2 "\<lambda>ch. ascii_lower (p ! 1) = ascii_lower ch"] n
        by (simp add: whole_match_def unf not_less numeral_2_eq_2 del: length_greater_0_conv)
    next
      case pct
      then show ?thesis
        using hd ne rest [of 1 0] n by (simp add: whole_match_def unf tl)
    next
      case any
      then show ?thesis
        using hd ne lit [of 1 "\<lambda>ch. True"] n
        by (simp add: whole_match_def unf tl del: length_greater_0_conv)
    next
      case other
      then show ?thesis
        using hd ne lit [of 1 "\<lambda>ch. ascii_lower (hd p) = ascii_lower ch"] n
        by (simp add: whole_match_def unf tl del: length_greater_0_conv)
    qed
  qed
qed

section \<open>Properties\<close>


text \<open>
  Case does not matter, in the pattern or in the name: texts that are the same up to ASCII case
  match the same.
\<close>

theorem match_case_insensitive:
  assumes "eq_folded p q" and "eq_folded s t"
  shows "match (Some p) (Some s) \<longleftrightarrow> match (Some q) (Some t)"
proof -
  have len: "length p = length q" "length s = length t"
    using assms by (auto simp: eq_folded_def dest: map_eq_imp_length_eq)
  have "agree p q 0 (length p)" "agree s t 0 (length s)"
    using assms len unfolding agree_def eq_folded_def
    by (metis add_0 length_map nth_map)+
  from match_sub_shift [OF this order_refl order_refl, of 0 0] show ?thesis
    by (simp add: match_def len)
qed

theorem match_case_insensitive_witness:
  "eq_folded ''#?.Info'' ''#?.INFO'' \<and> eq_folded ''disk.info'' ''Disk.Info'' \<and>
   match (Some ''#?.Info'') (Some ''disk.info'') = match (Some ''#?.INFO'') (Some ''Disk.Info'')"
proof -
  have "eq_folded ''#?.Info'' ''#?.INFO''" "eq_folded ''disk.info'' ''Disk.Info''"
    by code_simp+
  then show ?thesis using match_case_insensitive by blast
qed

definition is_token :: "char \<Rightarrow> bool" where
  "is_token c \<longleftrightarrow> c \<in> {CHR ''#'', CHR ''~'', CHR ''('', CHR ''['', CHR 0x27, CHR ''%'', CHR ''?''}"

lemma denotes_literal: "\<forall>c\<in>set p. \<not> is_token c \<Longrightarrow> s \<in> denotes p \<longleftrightarrow> eq_folded p s"
proof (induction p arbitrary: s)
  case Nil
  then show ?case by (auto simp: denotes.simps [of "[]"] eq_folded_def)
next
  case (Cons c p)
  then show ?case
    by (cases s) (auto simp: denotes.simps [of "c # p"] is_token_def conc_one_of eq_folded_def)
qed

lemma denotes_any: "denotes ''?'' = {[c] | c. True}"
  by (auto simp: denotes.simps [of "''?''"] denotes.simps [of "[]"] conc_def one_of_def)

lemma reps_any: "w \<in> reps {[c] | c. True}"
proof (induction w)
  case Nil
  then show ?case by (rule reps_Nil)
next
  case (Cons c w)
  then show ?case using reps_step [of "[c]" "{[c] | c. True}" w] by simp
qed

lemma denotes_run: "s \<in> denotes (''#?'' @ p) \<longleftrightarrow> (\<exists>k\<le>length s. drop k s \<in> denotes p)"
proof -
  have e: "expr_end (''#?'' @ p) (length (''#?'' @ p)) 1 = 2"
    by (simp add: expr_end.simps)
  have "denotes (''#?'' @ p) = conc (reps (denotes ''?'')) (denotes p)"
    using e by (simp add: denotes.simps [of "CHR ''#'' # CHR ''?'' # p"] Let_def numeral_2_eq_2)
  then show ?thesis
    using reps_any by (simp add: denotes_any conc_split)
qed

text \<open>
  A pattern with no token in it matches only itself, up to case; and \<^verbatim>\<open>#?\<close> in front of any
  pattern stands for any run of characters: the rest of the pattern then has to match some suffix
  of the name.
\<close>

theorem match_literal_and_run:
  assumes "\<forall>c\<in>set p. \<not> is_token c"
  shows "(match (Some p) (Some s) \<longleftrightarrow> eq_folded p s) \<and>
    (match (Some (''#?'' @ q)) (Some s) \<longleftrightarrow> (\<exists>k\<le>length s. match (Some q) (Some (drop k s)))) \<and>
    match (Some ''#?'') (Some s)"
proof -
  have m: "match (Some p) (Some s) \<longleftrightarrow> s \<in> denotes p" for p s
    using whole_match_denotes by (simp add: match_def whole_match_def)
  have "s \<in> denotes ''#?''"
    using denotes_run [of s "[]"] by (auto simp: denotes.simps [of "[]"])
  then show ?thesis
    using denotes_literal [OF assms] denotes_run by (simp add: m)
qed

theorem match_literal_and_run_witness:
  "match (Some ''Read Me'') (Some ''READ me'') \<and> \<not> match (Some ''Read Me'') (Some ''READ m'')"
proof -
  have n: "\<forall>c\<in>set ''Read Me''. \<not> is_token c" by (simp add: is_token_def)
  have "eq_folded ''Read Me'' ''READ me''" "\<not> eq_folded ''Read Me'' ''READ m''" by code_simp+
  then show ?thesis
    using match_literal_and_run [OF n, of "''READ me''" "[]"]
      match_literal_and_run [OF n, of "''READ m''" "[]"] by blast
qed

text \<open>
  The matcher stays inside its spans: what lies in memory after the pattern or after the name
  never changes the answer, for any spans the recursion can be at.
\<close>

lemma match_sub_local:
  assumes "b \<le> length p" and "y \<le> length s"
  shows "match_sub (p @ p') a b (s @ s') x y = match_sub p a b s x y"
proof -
  have "agree (p @ p') p 0 (length p)" "agree (s @ s') s 0 (length s)"
    by (simp_all add: agree_def nth_append)
  from match_sub_shift [OF this assms, of a x] show ?thesis by simp
qed

lemma match_sub_local_witness:
  "match_sub (''[a'' @ ''-z]'') 0 2 (''x'' @ ''yz'') 0 1 = match_sub ''[a'' 0 2 ''x'' 0 1"
  using match_sub_local [of 2 "''[a''" 1 "''x''" "''-z]''" 0 "''yz''" 0] by simp

end
