(* ===== verification/Posix_Path.thy ===== *)
theory Posix_Path
  imports Aegir_Prelude
begin

text \<open>
  The POSIX view of paths, \<^verbatim>\<open>src/libs/aegir-posix/include/aegir/posix/path.h\<close>: \<^verbatim>\<open>translate\<close> rewrites
  \<^verbatim>\<open>/Name/rest\<close> to \<^verbatim>\<open>Name:rest\<close>, normalising it in place in the caller's buffer, and \<^verbatim>\<open>present\<close> goes the
  other way. The buffer is a list of as many characters as the capacity; the cursors of the source
  are indices into it, and the sums of lengths wrap at 32 bits as they do there. The theorems relate
  the in-place pass to the obvious reading on lists of components.
\<close>

section \<open>Helpers\<close>

fun names_a_volume :: "string \<Rightarrow> bool" where
  "names_a_volume [] = False"
| "names_a_volume (c # s) =
     (if c = CHR '':'' then True else if c = CHR ''/'' then False else names_a_volume s)"

text \<open>The two inner loops that move the read cursor, and the loop that moves the write cursor back.\<close>

function skip_slashes :: "string \<Rightarrow> nat \<Rightarrow> nat \<Rightarrow> nat" where
  "skip_slashes buf used i =
     (if i < used \<and> buf ! i = CHR ''/'' then skip_slashes buf used (Suc i) else i)"
  by pat_completeness auto
termination
  by (relation "measure (\<lambda>(buf, used, i). used - i)") auto

function name_end :: "string \<Rightarrow> nat \<Rightarrow> nat \<Rightarrow> nat" where
  "name_end buf used i =
     (if i < used \<and> buf ! i \<noteq> CHR ''/'' then name_end buf used (Suc i) else i)"
  by pat_completeness auto
termination
  by (relation "measure (\<lambda>(buf, used, i). used - i)") auto

declare skip_slashes.simps [simp del] name_end.simps [simp del]

fun back_to_slash :: "string \<Rightarrow> nat \<Rightarrow> nat" where
  "back_to_slash buf 0 = 0"
| "back_to_slash buf (Suc w) = (if buf ! w \<noteq> CHR ''/'' then back_to_slash buf w else Suc w)"

text \<open>The copy within the buffer, byte by byte from the front.\<close>

fun copy_down :: "string \<Rightarrow> nat \<Rightarrow> nat \<Rightarrow> nat \<Rightarrow> string" where
  "copy_down buf w st 0 = buf"
| "copy_down buf w st (Suc n) = copy_down (buf[w := buf ! st]) (Suc w) (Suc st) n"

lemma skip_slashes_bounds: "i \<le> used \<Longrightarrow> i \<le> skip_slashes buf used i \<and> skip_slashes buf used i \<le> used"
proof (induction buf used i rule: skip_slashes.induct)
  case (1 buf used i)
  then show ?case by (subst (1 2) skip_slashes.simps) auto
qed

lemma name_end_bounds: "i \<le> used \<Longrightarrow> i \<le> name_end buf used i \<and> name_end buf used i \<le> used"
proof (induction buf used i rule: name_end.induct)
  case (1 buf used i)
  then show ?case by (subst (1 2) name_end.simps) auto
qed

text \<open>One turn of the outer loop moves the read cursor on.\<close>

lemma name_after_slashes:
  "i < used \<Longrightarrow> i < name_end buf used (skip_slashes buf used i)"
proof -
  assume i: "i < used"
  have s: "i \<le> skip_slashes buf used i" "skip_slashes buf used i \<le> used"
    using skip_slashes_bounds [of i used buf] i by auto
  show ?thesis
  proof (cases "buf ! i = CHR ''/''")
    case True
    then have "Suc i \<le> skip_slashes buf used i"
      using skip_slashes_bounds [of "Suc i" used buf] i by (subst skip_slashes.simps) auto
    then show ?thesis using name_end_bounds [OF s(2), of buf] by linarith
  next
    case False
    then have "skip_slashes buf used i = i" by (subst skip_slashes.simps) simp
    then show ?thesis
      using False i name_end_bounds [of "Suc i" used buf] by (subst name_end.simps) auto
  qed
qed

section \<open>Normalising in place\<close>

text \<open>The buffer, the write cursor and the number of components kept.\<close>

function normalise :: "string \<Rightarrow> nat \<Rightarrow> nat \<Rightarrow> nat \<Rightarrow> nat \<Rightarrow> string \<times> nat \<times> nat" where
  "normalise buf used rd wr kept =
     (if rd < used then
        (let start = skip_slashes buf used rd;
             rd' = name_end buf used start;
             component = rd' - start
         in if component = 0 then normalise buf used rd' wr kept
            else if component = 1 \<and> buf ! start = CHR ''.'' then normalise buf used rd' wr kept
            else if component = 2 \<and> buf ! start = CHR ''.'' \<and> buf ! (start + 1) = CHR ''.'' then
              (if kept \<noteq> 0 then
                 (let w = back_to_slash buf wr
                  in normalise buf used rd' (if w > 0 then w - 1 else w) (kept - 1))
               else normalise buf used rd' wr kept)
            else
              (let (buf1, w1) = (if kept \<noteq> 0 then (buf[wr := CHR ''/''], wr + 1) else (buf, wr))
               in normalise (copy_down buf1 w1 start component) used rd' (w1 + component) (kept + 1)))
      else (buf, wr, kept))"
  by pat_completeness auto
termination
  by (relation "measure (\<lambda>(buf, used, rd, wr, kept). used - rd)")
    (use name_after_slashes name_end_bounds skip_slashes_bounds in \<open>auto simp: diff_less_mono2\<close>)

declare normalise.simps [simp del]

section \<open>Translating\<close>

datatype target = Vfs | Root

record translation =
  tr_target :: target
  tr_length :: nat

text \<open>The first three characters are folded before the comparison with \<^verbatim>\<open>dev/null\<close>.\<close>

definition is_dev_null :: "string \<Rightarrow> nat \<Rightarrow> bool" where
  "is_dev_null buf wr \<longleftrightarrow>
     wr = 8 \<and> map ascii_lower (take 3 buf) @ take 5 (drop 3 buf) = ''dev/null''"

definition kNative :: string where
  "kNative = ''NIL:null'' @ [CHR 0x00]"

text \<open>The answer from a normalised buffer: \<open>None\<close> is the refusal.\<close>

definition translate_finish :: "string \<Rightarrow> nat \<Rightarrow> nat \<Rightarrow> (string \<times> translation) option" where
  "translate_finish buf wr kept =
     (if is_dev_null buf wr then
        if length kNative > length buf then None
        else Some (bsplice 0 kNative buf, \<lparr>tr_target = Vfs, tr_length = length kNative - 1\<rparr>)
      else if kept = 0 then Some (buf, \<lparr>tr_target = Root, tr_length = 0\<rparr>)
      else
        (let separator = name_end buf wr 0
         in if separator = wr then
              if wr = length buf then None
              else Some (buf[wr := CHR '':''], \<lparr>tr_target = Vfs, tr_length = wr + 1\<rparr>)
            else Some (buf[separator := CHR '':''], \<lparr>tr_target = Vfs, tr_length = wr\<rparr>)))"

text \<open>
  \<open>None\<close> is a null pointer for the path, the current directory and the buffer. The buffer has the
  capacity's length.
\<close>

definition translate ::
  "string option \<Rightarrow> string option \<Rightarrow> string option \<Rightarrow> (string \<times> translation) option" where
  "translate path cwd vfs =
     (case (path, vfs) of
        (Some path, Some vfs) \<Rightarrow>
          if path = [] then None
          else if names_a_volume path then
            if length path > length vfs then None
            else Some (bsplice 0 path vfs, \<lparr>tr_target = Vfs, tr_length = length path\<rparr>)
          else if hd path = CHR ''/'' then
            if length path > length vfs then None
            else
              (case normalise (bsplice 0 path vfs) (length path) 0 0 0 of (buf, wr, kept) \<Rightarrow>
                 translate_finish buf wr kept)
          else
            (case cwd of
               None \<Rightarrow> None
             | Some cwd \<Rightarrow>
                 if cwd = [] \<or> (length cwd + 1 + length path) mod 2 ^ 32 > length vfs then None
                 else
                   (let full = cwd @ CHR ''/'' # path
                    in case normalise (bsplice 0 full vfs) (length full) 0 0 0 of (buf, wr, kept) \<Rightarrow>
                         translate_finish buf wr kept))
      | _ \<Rightarrow> None)"

definition present :: "string option \<Rightarrow> string option \<Rightarrow> (string \<times> nat) option" where
  "present vfs out =
     (case (vfs, out) of
        (Some vfs, Some out) \<Rightarrow>
          (let colon = length (takeWhile (\<lambda>c. c \<noteq> CHR '':'') vfs)
           in if colon = 0 \<or> colon = length vfs then None
              else
                (let rest = length vfs - colon - 1;
                     total = (1 + colon + (if rest \<noteq> 0 then 1 + rest else 0)) mod 2 ^ 32;
                     answer = CHR ''/'' # take colon vfs @
                       (if rest \<noteq> 0 then CHR ''/'' # drop (colon + 1) vfs else [])
                 in if total > length out then None
                    else Some (bsplice 0 answer out, length answer)))
      | _ \<Rightarrow> None)"

section \<open>Components\<close>

text \<open>What a path means: its names between slashes, with \<^verbatim>\<open>.\<close> dropped and \<^verbatim>\<open>..\<close> taking one back.\<close>

function components :: "string \<Rightarrow> string list" where
  "components s =
     (let s' = dropWhile (\<lambda>c. c = CHR ''/'') s
      in if s' = [] then []
         else takeWhile (\<lambda>c. c \<noteq> CHR ''/'') s' # components (dropWhile (\<lambda>c. c \<noteq> CHR ''/'') s'))"
  by pat_completeness auto
termination
proof (relation "measure length", goal_cases)
  case (2 s s')
  have "hd s' \<noteq> CHR ''/''"
    using 2 hd_dropWhile [of "\<lambda>c. c = CHR ''/''" s] by simp
  then obtain c cs where "s' = c # cs" "c \<noteq> CHR ''/''"
    using 2(2) by (cases s') auto
  moreover have "length s' \<le> length s" using 2 by (simp add: length_dropWhile_le)
  moreover have "length (dropWhile (\<lambda>c. c \<noteq> CHR ''/'') cs) \<le> length cs"
    by (rule length_dropWhile_le)
  ultimately show ?case by simp
qed simp

declare components.simps [simp del]

definition dot_step :: "string list \<Rightarrow> string \<Rightarrow> string list" where
  "dot_step st c = (if c = ''.'' then st else if c = ''..'' then butlast st else st @ [c])"

definition resolve_dots :: "string list \<Rightarrow> string list \<Rightarrow> string list" where
  "resolve_dots st cs = foldl dot_step st cs"

fun join :: "string list \<Rightarrow> string" where
  "join [] = []"
| "join [c] = c"
| "join (c # d # cs) = c @ CHR ''/'' # join (d # cs)"

definition name_comp :: "string \<Rightarrow> bool" where
  "name_comp c \<longleftrightarrow> c \<noteq> [] \<and> CHR ''/'' \<notin> set c"

lemma join_snoc: "join (cs @ [c]) = (if cs = [] then c else join cs @ CHR ''/'' # c)"
  by (induction cs rule: join.induct) auto

lemma join_nonempty: "cs \<noteq> [] \<Longrightarrow> \<forall>c\<in>set cs. name_comp c \<Longrightarrow> join cs \<noteq> []"
  by (induction cs rule: join.induct) (auto simp: name_comp_def)

lemma resolve_dots_simps [simp]:
  "resolve_dots st [] = st"
  "resolve_dots st (c # cs) = resolve_dots (dot_step st c) cs"
  by (simp_all add: resolve_dots_def)

section \<open>The cursors and the components\<close>

text \<open>The text from a cursor to the end of what was read.\<close>

definition rest_text :: "string \<Rightarrow> nat \<Rightarrow> nat \<Rightarrow> string" where
  "rest_text buf used i = drop i (take used buf)"

lemma rest_text_Cons:
  "i < used \<Longrightarrow> used \<le> length buf \<Longrightarrow> rest_text buf used i = buf ! i # rest_text buf used (Suc i)"
  by (simp add: rest_text_def Cons_nth_drop_Suc [symmetric])

lemma rest_text_end: "used \<le> i \<Longrightarrow> rest_text buf used i = []"
  by (simp add: rest_text_def)

lemma skip_slashes_text:
  "used \<le> length buf \<Longrightarrow>
   rest_text buf used (skip_slashes buf used i) = dropWhile (\<lambda>c. c = CHR ''/'') (rest_text buf used i)"
proof (induction buf used i rule: skip_slashes.induct)
  case (1 buf used i)
  show ?case
  proof (cases "i < used")
    case True
    then show ?thesis
      using "1.IH" "1.prems" by (subst skip_slashes.simps) (auto simp: rest_text_Cons)
  next
    case False
    then show ?thesis by (subst skip_slashes.simps) (simp add: rest_text_end)
  qed
qed

lemma name_end_text:
  "used \<le> length buf \<Longrightarrow>
   rest_text buf used (name_end buf used i) = dropWhile (\<lambda>c. c \<noteq> CHR ''/'') (rest_text buf used i) \<and>
   bslice i (name_end buf used i - i) buf = takeWhile (\<lambda>c. c \<noteq> CHR ''/'') (rest_text buf used i)"
proof (induction buf used i rule: name_end.induct)
  case (1 buf used i)
  show ?case
  proof (cases "i < used \<and> buf ! i \<noteq> CHR ''/''")
    case True
    have e: "name_end buf used i = name_end buf used (Suc i)"
      using True by (subst name_end.simps) simp
    have "Suc i \<le> name_end buf used (Suc i)"
      using name_end_bounds [of "Suc i" used buf] True by simp
    then have "bslice i (name_end buf used (Suc i) - i) buf =
        buf ! i # bslice (Suc i) (name_end buf used (Suc i) - Suc i) buf"
      using True "1.prems" by (simp add: bslice_def Cons_nth_drop_Suc [symmetric] take_Cons'
          Suc_diff_le [symmetric] Suc_diff_Suc)
    then show ?thesis
      using "1.IH" [OF True "1.prems"] True "1.prems" e by (simp add: rest_text_Cons)
  next
    case False
    then have e: "name_end buf used i = i" by (subst name_end.simps) auto
    show ?thesis
    proof (cases "i < used")
      case True
      then show ?thesis using False "1.prems" e by (simp add: rest_text_Cons bslice_def)
    next
      case False
      then show ?thesis using e by (simp add: rest_text_end bslice_def)
    qed
  qed
qed

lemma components_cursor:
  assumes "used \<le> length buf"
  defines "st \<equiv> \<lambda>rd. skip_slashes buf used rd" and "en \<equiv> \<lambda>rd. name_end buf used (skip_slashes buf used rd)"
  shows "components (rest_text buf used rd) =
    (if en rd - st rd = 0 then [] else bslice (st rd) (en rd - st rd) buf # components (rest_text buf used (en rd)))"
    and "en rd - st rd = 0 \<Longrightarrow> rd \<le> used \<Longrightarrow> en rd = used"
    and "rest_text buf used (en rd) = [] \<or> hd (rest_text buf used (en rd)) = CHR ''/''"
proof -
  let ?s = "dropWhile (\<lambda>c. c = CHR ''/'') (rest_text buf used rd)"
  have s: "rest_text buf used (st rd) = ?s"
    unfolding st_def by (rule skip_slashes_text [OF assms(1)])
  have e: "rest_text buf used (en rd) = dropWhile (\<lambda>c. c \<noteq> CHR ''/'') ?s"
    "bslice (st rd) (en rd - st rd) buf = takeWhile (\<lambda>c. c \<noteq> CHR ''/'') ?s"
    using name_end_text [OF assms(1), of "st rd"] s by (simp_all add: st_def en_def)
  have len: "length (takeWhile (\<lambda>c. c \<noteq> CHR ''/'') ?s) = en rd - st rd" if "rd \<le> used"
  proof -
    have "st rd \<le> used" "st rd \<le> en rd" "en rd \<le> used"
      using that skip_slashes_bounds [of rd used buf] name_end_bounds [of "st rd" used buf]
      by (auto simp: st_def en_def)
    then show ?thesis using e(2) assms(1) by (metis length_bslice le_add_diff_inverse order_trans)
  qed
  have hd: "?s \<noteq> [] \<Longrightarrow> hd ?s \<noteq> CHR ''/''"
    using hd_dropWhile by blast
  have z: "en rd - st rd = 0 \<longleftrightarrow> ?s = []" if "rd \<le> used"
    using len [OF that] hd by (cases ?s) auto
  have out: "rd \<le> used \<or> ?s = [] \<and> en rd - st rd = 0"
  proof (cases "rd \<le> used")
    case False
    then have "st rd = rd" "en rd = rd"
      by (simp_all add: st_def en_def skip_slashes.simps [of buf used rd] name_end.simps [of buf used rd])
    then show ?thesis using False by (simp add: rest_text_end)
  qed simp
  show "components (rest_text buf used rd) =
    (if en rd - st rd = 0 then [] else bslice (st rd) (en rd - st rd) buf # components (rest_text buf used (en rd)))"
    using out z e by (subst components.simps) (auto simp: Let_def)
  show "en rd = used" if "en rd - st rd = 0" "rd \<le> used"
  proof -
    have b: "st rd \<le> used" "st rd \<le> en rd" "en rd \<le> used"
      using that skip_slashes_bounds [of rd used buf] name_end_bounds [of "st rd" used buf]
      by (auto simp: st_def en_def)
    have "rest_text buf used (st rd) = []" using z that s by simp
    then have "used \<le> st rd" using assms(1) b by (simp add: rest_text_def)
    then show ?thesis using b by simp
  qed
  show "rest_text buf used (en rd) = [] \<or> hd (rest_text buf used (en rd)) = CHR ''/''"
    using hd_dropWhile [of "\<lambda>c. c \<noteq> CHR ''/''" ?s] e(1) by auto
qed

section \<open>The in-place pass keeps the resolved components\<close>

lemma copy_down_bsplice:
  "w \<le> st \<Longrightarrow> st + n \<le> length buf \<Longrightarrow> copy_down buf w st n = bsplice w (bslice st n buf) buf"
proof (induction n arbitrary: buf w st)
  case 0
  then show ?case by (simp add: bsplice_def bslice_def)
next
  case (Suc n)
  have "copy_down (buf[w := buf ! st]) (Suc w) (Suc st) n =
      bsplice (Suc w) (bslice (Suc st) n (buf[w := buf ! st])) (buf[w := buf ! st])"
    using Suc by simp
  also have "bslice (Suc st) n (buf[w := buf ! st]) = bslice (Suc st) n buf"
    using Suc.prems by (simp add: bslice_def)
  also have "bsplice (Suc w) (bslice (Suc st) n buf) (buf[w := buf ! st]) =
      bsplice w (buf ! st # bslice (Suc st) n buf) buf"
    using Suc.prems by (simp add: bsplice_def take_Suc_conv_app_nth)
  also have "buf ! st # bslice (Suc st) n buf = bslice st (Suc n) buf"
    using Suc.prems by (simp add: bslice_def Cons_nth_drop_Suc [symmetric])
  finally show ?case by simp
qed

lemma back_to_slash_text:
  "take w buf = x @ c \<Longrightarrow> w \<le> length buf \<Longrightarrow> CHR ''/'' \<notin> set c \<Longrightarrow>
   x = [] \<or> last x = CHR ''/'' \<Longrightarrow> back_to_slash buf w = length x"
proof (induction c arbitrary: w rule: rev_induct)
  case Nil
  then have w: "w = length x" by (metis append_Nil2 length_take min.absorb2)
  show ?case
  proof (cases w)
    case 0
    then show ?thesis using w by simp
  next
    case (Suc k)
    then have "buf ! k = last x"
      using Nil w by (metis append_Nil2 diff_Suc_1 last_conv_nth lessI list.size(3) nat.distinct(1) nth_take)
    then show ?thesis using Nil Suc w by auto
  qed
next
  case (snoc d c)
  have w: "w = length x + length c + 1"
    using snoc.prems(1,2) by (metis append.assoc length_append length_append_singleton length_take
        min.absorb2 Suc_eq_plus1)
  then have "take (length x + length c) buf = x @ c"
    using snoc.prems(1) by (metis append.assoc append_eq_conv_conj length_append take_take min.absorb1
        le_add1)
  moreover have "buf ! (length x + length c) = d"
    using snoc.prems(1,2) w by (metis append.assoc length_append less_add_one nth_append_length nth_take)
  ultimately show ?case
    using snoc.IH [of "length x + length c"] snoc.prems w by auto
qed

text \<open>
  The invariant of the outer loop: the front of the buffer spells the components resolved so far,
  the write cursor is behind the read cursor, and the read cursor stands at a separator once
  anything was kept.
\<close>

definition norm_inv :: "string \<Rightarrow> nat \<Rightarrow> nat \<Rightarrow> nat \<Rightarrow> nat \<Rightarrow> string list \<Rightarrow> bool" where
  "norm_inv buf used rd wr kept st \<longleftrightarrow>
     used \<le> length buf \<and> rd \<le> used \<and> wr \<le> rd \<and> take wr buf = join st \<and> kept = length st \<and>
     (\<forall>c\<in>set st. name_comp c) \<and> (rd = 0 \<or> rd = used \<or> buf ! rd = CHR ''/'')"

lemma components_names: "c \<in> set (components s) \<Longrightarrow> name_comp c"
proof (induction s rule: components.induct)
  case (1 s)
  let ?s = "dropWhile (\<lambda>c. c = CHR ''/'') s"
  show ?case
  proof (cases "?s = []")
    case True
    then show ?thesis using "1.prems" by (simp add: components.simps)
  next
    case False
    have "hd ?s \<noteq> CHR ''/''" using False hd_dropWhile by blast
    then have "name_comp (takeWhile (\<lambda>c. c \<noteq> CHR ''/'') ?s)"
      using False by (cases ?s) (auto simp: name_comp_def dest: set_takeWhileD)
    then show ?thesis
      using "1.IH" [OF refl False] "1.prems" False
      by (subst (asm) (2) components.simps) (auto simp: Let_def split: if_splits)
  qed
qed

lemma take_prefix:
  assumes "take w buf = x @ c" and "w \<le> length buf"
  shows "take (length x) buf = x \<and> length x \<le> w"
proof -
  have "length x + length c = w" using assms by (metis length_append length_take min.absorb2)
  moreover have "take (length x) (take w buf) = x" using assms(1) by simp
  ultimately show ?thesis by (simp add: min_def)
qed

lemma take_bsplice:
  "at \<le> length buf \<Longrightarrow> n = length xs \<Longrightarrow> take (at + n) (bsplice at xs buf) = take at buf @ xs"
  by (simp add: bsplice_def)

text \<open>The step that takes a component back, and the step that keeps one, on the buffer.\<close>

lemma pop_step:
  assumes "norm_inv buf used rd wr kept st" and "st \<noteq> []"
  defines "w \<equiv> back_to_slash buf wr"
  shows "take (if w > 0 then w - 1 else w) buf = join (butlast st) \<and> (if w > 0 then w - 1 else w) \<le> wr"
proof -
  obtain st' c where st: "st = st' @ [c]" using assms(2) by (cases st rule: rev_cases) auto
  have c: "CHR ''/'' \<notin> set c" and wr: "take wr buf = join st" "wr \<le> length buf"
    using assms(1) st by (auto simp: norm_inv_def name_comp_def)
  let ?x = "if st' = [] then [] else join st' @ [CHR ''/'']"
  have tx: "take wr buf = ?x @ c" using wr(1) by (simp add: st join_snoc)
  have "w = length ?x"
    unfolding w_def by (rule back_to_slash_text [OF tx wr(2) c]) simp
  then show ?thesis
    using take_prefix [of wr buf "[]" c] take_prefix [of wr buf "join st'" "CHR ''/'' # c"] tx wr(2)
    by (cases "st' = []") (auto simp: st)
qed

lemma keep_step:
  assumes inv: "norm_inv buf used rd wr kept st" and "start = skip_slashes buf used rd"
    and "rd' = name_end buf used start" and "rd' - start \<noteq> 0"
    and "(buf1, w1) = (if kept \<noteq> 0 then (buf[wr := CHR ''/''], wr + 1) else (buf, wr))"
  defines "buf2 \<equiv> copy_down buf1 w1 start (rd' - start)"
  shows "take (w1 + (rd' - start)) buf2 = join (st @ [bslice start (rd' - start) buf])"
    and "w1 + (rd' - start) \<le> rd'" and "length buf2 = length buf"
    and "\<And>i. rd' \<le> i \<Longrightarrow> i < length buf \<Longrightarrow> buf2 ! i = buf ! i"
proof -
  have b: "used \<le> length buf" "rd \<le> used" "wr \<le> rd" "take wr buf = join st" "kept = length st"
    "rd = 0 \<or> rd = used \<or> buf ! rd = CHR ''/''"
    using inv by (auto simp: norm_inv_def)
  have sb: "rd \<le> start" "start \<le> used" "start < rd'" "rd' \<le> used"
    using assms(2-4) skip_slashes_bounds [OF b(2), of buf] name_end_bounds [of start used buf] by auto
  have w1: "w1 \<le> start"
  proof (cases "kept = 0")
    case True
    then show ?thesis using assms(5) b sb by simp
  next
    case False
    have "rd < used" using sb by linarith
    moreover have "rd \<noteq> 0"
    proof
      assume "rd = 0"
      then have "join st = []" using b(3,4) by simp
      then show False using False b(5) inv join_nonempty by (auto simp: norm_inv_def)
    qed
    ultimately have "buf ! rd = CHR ''/''" using b(6) by simp
    then have "rd < start"
      using assms(2) \<open>rd < used\<close> skip_slashes_bounds [of "Suc rd" used buf]
      by (subst (asm) skip_slashes.simps) auto
    then show ?thesis using False assms(5) b(3) by simp
  qed
  have l1: "length buf1 = length buf" and wr1: "w1 \<le> wr + 1" "wr \<le> w1"
    using assms(5) by (auto split: if_splits)
  have s1: "bslice start (rd' - start) buf1 = bslice start (rd' - start) buf"
    using assms(5) w1 by (auto simp: bslice_def split: if_splits)
  have t1: "take w1 buf1 = (if st = [] then [] else join st @ [CHR ''/''])"
    using assms(5) b w1 sb by (auto simp: take_Suc_conv_app_nth split: if_splits)
  have buf2: "buf2 = bsplice w1 (bslice start (rd' - start) buf) buf1"
    using copy_down_bsplice [OF w1, of "rd' - start" buf1] sb b(1) l1 s1 by (simp add: buf2_def)
  have n: "length (bslice start (rd' - start) buf) = rd' - start"
    using sb b(1) by simp
  show "length buf2 = length buf"
    using buf2 n w1 sb b(1) l1 by simp
  show "w1 + (rd' - start) \<le> rd'" using w1 sb by simp
  show "take (w1 + (rd' - start)) buf2 = join (st @ [bslice start (rd' - start) buf])"
    unfolding buf2 using t1 n w1 sb b(1) l1 by (subst take_bsplice) (auto simp: join_snoc)
  show "buf2 ! i = buf ! i" if "rd' \<le> i" "i < length buf" for i
  proof -
    have "\<not> i < w1 + (rd' - start)" using that(1) w1 sb by linarith
    then have "buf2 ! i = buf1 ! i"
      using that(2) n w1 sb b(1) l1 by (simp add: buf2 nth_bsplice)
    then show ?thesis using that assms(5) w1 sb b(3) by (auto split: if_splits)
  qed
qed

lemma normalise_refines:
  "norm_inv buf used rd wr kept st \<Longrightarrow>
   \<exists>buf' wr' st'. normalise buf used rd wr kept = (buf', wr', length st') \<and>
     st' = resolve_dots st (components (rest_text buf used rd)) \<and>
     take wr' buf' = join st' \<and> wr' \<le> used \<and> length buf' = length buf \<and> (\<forall>c\<in>set st'. name_comp c)"
proof (induction "used - rd" arbitrary: buf rd wr kept st rule: less_induct)
  case less
  note inv = less.prems
  have b: "used \<le> length buf" "rd \<le> used" "wr \<le> rd" "take wr buf = join st" "kept = length st"
    using inv by (auto simp: norm_inv_def)
  note unf = normalise.simps [of buf used rd wr kept]
  show ?case
  proof (cases "rd < used")
    case False
    then have "components (rest_text buf used rd) = []"
      by (simp add: rest_text_end components.simps)
    moreover have "normalise buf used rd wr kept = (buf, wr, kept)"
      using False by (simp add: unf)
    ultimately show ?thesis using inv b(5) by (auto simp: norm_inv_def)
  next
    case True
    define start where "start = skip_slashes buf used rd"
    define rd' where "rd' = name_end buf used start"
    let ?c = "bslice start (rd' - start) buf"
    have sb: "start \<le> rd'" "rd' \<le> used" "rd < rd'"
      using name_after_slashes [OF True, of buf] skip_slashes_bounds [OF b(2), of buf]
        name_end_bounds [of start used buf] by (auto simp: start_def rd'_def)
    have comps: "components (rest_text buf used rd) =
        (if rd' - start = 0 then [] else ?c # components (rest_text buf used rd'))"
      using components_cursor(1) [OF b(1), of rd] by (simp add: start_def rd'_def)
    have sep: "rd' = used \<or> buf ! rd' = CHR ''/''"
      using components_cursor(3) [OF b(1), of rd] b(1) sb(2) rest_text_Cons [of rd' used buf]
      unfolding start_def [symmetric] rd'_def [symmetric]
      by (metis le_neq_implies_less list.distinct(1) list.sel(1))
    have m: "used - rd' < used - rd" using sb True by simp
    have same: "norm_inv buf used rd' wr kept st"
      using inv sb sep by (simp add: norm_inv_def)
    have IH0: "\<exists>buf' wr' st'. normalise buf used rd' wr kept = (buf', wr', length st') \<and>
       st' = resolve_dots st (components (rest_text buf used rd')) \<and>
       take wr' buf' = join st' \<and> wr' \<le> used \<and> length buf' = length buf \<and> (\<forall>c\<in>set st'. name_comp c)"
      by (rule less.hyps [OF m same])
    have len: "length ?c = rd' - start" using sb b(1) by simp
    have dot: "?c = ''.'' \<longleftrightarrow> rd' - start = 1 \<and> buf ! start = CHR ''.''"
      using len sb b(1) by (auto simp: list_eq_iff_nth_eq nth_bslice)
    have dots: "?c = ''..'' \<longleftrightarrow> rd' - start = 2 \<and> buf ! start = CHR ''.'' \<and> buf ! (start + 1) = CHR ''.''"
      using len sb b(1) by (auto simp: list_eq_iff_nth_eq nth_bslice less_Suc_eq numeral_2_eq_2)
    note unf' = unf [unfolded start_def [symmetric] rd'_def [symmetric] Let_def]
    consider (none) "rd' - start = 0" | (dot) "rd' - start \<noteq> 0" "?c = ''.''"
      | (pop) "rd' - start \<noteq> 0" "?c = ''..''" "kept \<noteq> 0" | (stay) "rd' - start \<noteq> 0" "?c = ''..''" "kept = 0"
      | (keep) "rd' - start \<noteq> 0" "?c \<noteq> ''.''" "?c \<noteq> ''..''" by blast
    then show ?thesis
    proof cases
      case none
      then have "rd' = used"
        using components_cursor(2) [OF b(1), of rd] b(2) by (simp add: start_def rd'_def)
      then have "components (rest_text buf used rd') = []"
        by (simp add: rest_text_end components.simps)
      then show ?thesis
        using IH0 comps none True by (simp add: unf start_def [symmetric] rd'_def [symmetric])
    next
      case dot
      then show ?thesis
        using IH0 comps True dots \<open>?c = ''.'' \<longleftrightarrow> _\<close>
        by (simp add: unf start_def [symmetric] rd'_def [symmetric] dot_step_def)
    next
      case stay
      then have "normalise buf used rd wr kept = normalise buf used rd' wr kept"
        using dots True by (subst unf) (simp add: start_def [symmetric] rd'_def [symmetric])
      moreover have "dot_step st ?c = st" using stay b(5) by (simp add: dot_step_def)
      ultimately show ?thesis using IH0 comps stay(1) by simp
    next
      case pop
      let ?w = "back_to_slash buf wr"
      let ?w' = "if ?w > 0 then ?w - 1 else ?w"
      have ne: "st \<noteq> []" using pop b(5) by simp
      have "norm_inv buf used rd' ?w' (kept - 1) (butlast st)"
        using pop_step [OF inv ne] inv sb sep ne
        by (auto simp: norm_inv_def Let_def dest: in_set_butlastD)
      from less.hyps [OF m this] show ?thesis
        using pop comps True dots
        by (simp add: unf start_def [symmetric] rd'_def [symmetric] dot_step_def Let_def)
    next
      case keep
      obtain buf1 w1 where bw: "(buf1, w1) = (if kept \<noteq> 0 then (buf[wr := CHR ''/''], wr + 1) else (buf, wr))"
        by (metis surj_pair)
      let ?buf2 = "copy_down buf1 w1 start (rd' - start)"
      note ks = keep_step [OF inv start_def rd'_def keep(1) bw]
      have same_rest: "rest_text ?buf2 used rd' = rest_text buf used rd'"
        using ks(3,4) b(1) sb by (intro nth_equalityI) (auto simp: rest_text_def)
      have nc: "name_comp ?c"
        using components_names [of ?c "rest_text buf used rd"] comps keep(1) by simp
      have "rd' = used \<or> ?buf2 ! rd' = CHR ''/''"
        using sep ks(4) [of rd'] sb(2) b(1) by (cases "rd' = used") auto
      then have "norm_inv ?buf2 used rd' (w1 + (rd' - start)) (kept + 1) (st @ [?c])"
        using ks(1-3) inv sb nc b(1) by (auto simp: norm_inv_def)
      from less.hyps [OF m this] same_rest ks(3)
      have IH1: "\<exists>buf' wr' st'.
         normalise ?buf2 used rd' (w1 + (rd' - start)) (kept + 1) = (buf', wr', length st') \<and>
         st' = resolve_dots (st @ [?c]) (components (rest_text buf used rd')) \<and>
         take wr' buf' = join st' \<and> wr' \<le> used \<and> length buf' = length buf \<and>
         (\<forall>c\<in>set st'. name_comp c)"
        by simp
      have nd: "\<not> (rd' - start = 1 \<and> buf ! start = CHR ''.'')"
        "\<not> (rd' - start = 2 \<and> buf ! start = CHR ''.'' \<and> buf ! (start + 1) = CHR ''.'')"
        using keep(2,3) dot dots by blast+
      have "normalise buf used rd wr kept = normalise ?buf2 used rd' (w1 + (rd' - start)) (kept + 1)"
        using keep(1) nd True
        by (simp only: unf start_def [symmetric] rd'_def [symmetric] Let_def bw [symmetric]
            if_True if_False prod.case)
      moreover have "dot_step st ?c = st @ [?c]" using keep(2,3) by (simp add: dot_step_def)
      ultimately show ?thesis using IH1 comps keep(1) by simp
    qed
  qed
qed

section \<open>The answer\<close>

text \<open>
  The native path the resolved components stand for: the first one names the volume. The device
  \<^verbatim>\<open>/dev/null\<close> is the native \<^verbatim>\<open>NIL:null\<close>, and no component at all is the root.
\<close>

definition native_of :: "string list \<Rightarrow> string" where
  "native_of st =
     (if map ascii_lower (take 3 (join st)) @ drop 3 (join st) = ''dev/null'' then ''NIL:null''
      else if st = [] then [] else hd st @ CHR '':'' # join (tl st))"

text \<open>The absolute POSIX text a path stands for.\<close>

definition full_text :: "string \<Rightarrow> string \<Rightarrow> string" where
  "full_text cwd path = (if hd path = CHR ''/'' then path else cwd @ CHR ''/'' # path)"

definition path_components :: "string \<Rightarrow> string \<Rightarrow> string list" where
  "path_components cwd path = resolve_dots [] (components (full_text cwd path))"

lemma name_end_first:
  assumes "take wr buf = c @ r" and "wr \<le> length buf" and "CHR ''/'' \<notin> set c"
    and "r = [] \<or> hd r = CHR ''/''"
  shows "name_end buf wr 0 = length c"
proof -
  have rt: "rest_text buf wr 0 = c @ r" using assms(1) by (simp add: rest_text_def)
  have tw: "takeWhile (\<lambda>x. x \<noteq> CHR ''/'') (c @ r) = c"
    using assms(3,4) by (cases r) (auto simp: takeWhile_append)
  have "bslice 0 (name_end buf wr 0) buf = c"
    using name_end_text [OF assms(2), of 0] rt tw by simp
  then show ?thesis
    using name_end_bounds [of 0 wr buf] assms(2) by (auto simp: bslice_def)
qed

lemma translate_finish_native:
  assumes "take wr buf = join st" and "wr \<le> length buf" and "\<forall>c\<in>set st. name_comp c"
  shows "(case translate_finish buf wr (length st) of
      None \<Rightarrow> length buf \<le> wr \<or> length buf < 9
    | Some (out, tr) \<Rightarrow> length out = length buf \<and> tr_length tr \<le> length out \<and>
        take (tr_length tr) out = native_of st \<and> (tr_target tr = Root \<longleftrightarrow> st = []))"
proof -
  have wr: "wr = length (join st)" using assms(1,2) by (metis length_take min.absorb2)
  have dn: "is_dev_null buf wr \<longleftrightarrow> map ascii_lower (take 3 (join st)) @ drop 3 (join st) = ''dev/null''"
  proof -
    have "take 3 (join st) = take 3 buf" "drop 3 (join st) = take 5 (drop 3 buf)" if "wr = 8"
      unfolding assms(1) [symmetric] using that by (simp_all add: drop_take)
    moreover have "wr = 8" if "map ascii_lower (take 3 (join st)) @ drop 3 (join st) = ''dev/null''"
    proof -
      have "length (map ascii_lower (take 3 (join st)) @ drop 3 (join st)) = 8"
        using that by (simp only:) simp
      then show ?thesis using wr by simp
    qed
    ultimately show ?thesis unfolding is_dev_null_def by (metis (full_types))
  qed
  show ?thesis
  proof (cases "is_dev_null buf wr")
    case True
    have "st \<noteq> []" using True dn by auto
    moreover have "length kNative = 9" "take 8 (bsplice 0 kNative buf) = ''NIL:null''"
      by (simp_all add: kNative_def bsplice_def)
    ultimately show ?thesis
      using True dn by (simp add: translate_finish_def native_of_def)
  next
    case False
    show ?thesis
    proof (cases st)
      case Nil
      then show ?thesis using False dn by (simp add: translate_finish_def native_of_def)
    next
      case (Cons c cs)
      have c: "CHR ''/'' \<notin> set c" using assms(3) Cons by (simp add: name_comp_def)
      have js: "join st = c @ (if cs = [] then [] else CHR ''/'' # join cs)"
        using Cons by (cases cs) auto
      have sep: "name_end buf wr 0 = length c"
        using name_end_first [of wr buf c "if cs = [] then [] else CHR ''/'' # join cs"] assms(1,2) js c
        by simp
      have nat: "native_of st = c @ CHR '':'' # join cs"
        using False dn Cons by (simp add: native_of_def)
      show ?thesis
      proof (cases "cs = []")
        case True
        then have "take (Suc wr) (buf[wr := CHR '':'']) = c @ [CHR '':'']" if "wr \<noteq> length buf"
          using that assms(1,2) js by (simp add: take_Suc_conv_app_nth)
        then show ?thesis
          using False Cons sep js wr True nat assms(2)
          by (simp add: translate_finish_def Let_def)
      next
        case ne: False
        have "take wr (buf[length c := CHR '':'']) = (take wr buf)[length c := CHR '':'']"
          by (rule take_update_swap)
        also have "\<dots> = c @ CHR '':'' # join cs"
          using assms(1) js ne by (simp add: list_update_append)
        finally show ?thesis
          using False Cons sep js wr ne nat assms(2)
          by (simp add: translate_finish_def Let_def)
      qed
    qed
  qed
qed

lemma normalise_whole:
  assumes "length full \<le> length vfs"
  shows "\<exists>buf wr. normalise (bsplice 0 full vfs) (length full) 0 0 0 =
      (buf, wr, length (resolve_dots [] (components full))) \<and>
    take wr buf = join (resolve_dots [] (components full)) \<and> wr \<le> length full \<and>
    length buf = length vfs \<and> (\<forall>c\<in>set (resolve_dots [] (components full)). name_comp c)"
proof -
  have "norm_inv (bsplice 0 full vfs) (length full) 0 0 0 []"
    using assms by (simp add: norm_inv_def)
  moreover have "rest_text (bsplice 0 full vfs) (length full) 0 = full"
    by (simp add: rest_text_def bsplice_def)
  ultimately show ?thesis
    using normalise_refines [of "bsplice 0 full vfs" "length full" 0 0 0 "[]"] assms by auto
qed

lemma translate_posix:
  assumes "path \<noteq> []" and "\<not> names_a_volume path" and "hd path = CHR ''/'' \<or> cwd \<noteq> []"
    and "length cwd + 1 + length path < 2 ^ 32"
  shows "case translate (Some path) (Some cwd) (Some vfs) of
      None \<Rightarrow> length vfs \<le> length (full_text cwd path) \<or> length vfs < 9
    | Some (out, tr) \<Rightarrow> length out = length vfs \<and> tr_length tr \<le> length out \<and>
        take (tr_length tr) out = native_of (path_components cwd path) \<and>
        (tr_target tr = Root \<longleftrightarrow> path_components cwd path = [])"
proof -
  let ?full = "full_text cwd path"
  have len: "length ?full \<le> length cwd + 1 + length path"
    by (simp add: full_text_def)
  show ?thesis
  proof (cases "length ?full \<le> length vfs")
    case False
    then show ?thesis using assms
      by (auto simp: translate_def full_text_def)
  next
    case True
    obtain buf wr where nw: "normalise (bsplice 0 ?full vfs) (length ?full) 0 0 0 =
        (buf, wr, length (path_components cwd path))"
      "take wr buf = join (path_components cwd path)" "wr \<le> length ?full" "length buf = length vfs"
      "\<forall>c\<in>set (path_components cwd path). name_comp c"
      using normalise_whole [OF True] by (auto simp: path_components_def)
    have tr: "translate (Some path) (Some cwd) (Some vfs) =
        translate_finish buf wr (length (path_components cwd path))"
      using assms nw(1) True
      by (cases "hd path = CHR ''/''") (auto simp: translate_def full_text_def)
    have "wr \<le> length buf" using nw(3,4) True by simp
    from translate_finish_native [OF nw(2) this nw(5)] show ?thesis
      unfolding tr using nw(3,4) by (auto split: option.splits)
  qed
qed

section \<open>Properties\<close>

text \<open>
  C6. A POSIX path is translated to what it means. For a path that is not native, with a current
  directory where it is relative: the answer is the native form of the path's components with
  \<^verbatim>\<open>.\<close> and \<^verbatim>\<open>..\<close> resolved, the root exactly when nothing is left, and it lies inside the caller's
  buffer; a refusal means the buffer does not have a byte to spare beyond the text, or fewer than
  the nine bytes the null device takes.
\<close>

theorem translate_meaning:
  assumes "path \<noteq> []" and "\<not> names_a_volume path" and "hd path = CHR ''/'' \<or> cwd \<noteq> []"
    and "length cwd + 1 + length path < 2 ^ 32"
  shows "case translate (Some path) (Some cwd) (Some vfs) of
      None \<Rightarrow> length vfs \<le> length (full_text cwd path) \<or> length vfs < 9
    | Some (out, tr) \<Rightarrow> length out = length vfs \<and> tr_length tr \<le> length out \<and>
        take (tr_length tr) out = native_of (path_components cwd path) \<and>
        (tr_target tr = Root \<longleftrightarrow> path_components cwd path = [])"
  by (rule translate_posix [OF assms])

theorem translate_meaning_witness:
  "case translate (Some ''../b//./c'') (Some ''/Sys/a'') (Some (replicate 20 (CHR ''x''))) of
     None \<Rightarrow> False
   | Some (out, tr) \<Rightarrow> take (tr_length tr) out = ''Sys:b/c'' \<and> tr_target tr = Vfs"
proof -
  have pc: "path_components ''/Sys/a'' ''../b//./c'' = [''Sys'', ''b'', ''c'']"
    by code_simp
  have nat: "native_of [''Sys'', ''b'', ''c''] = ''Sys:b/c''" by code_simp
  have len: "length (full_text ''/Sys/a'' ''../b//./c'') = 16" by (simp add: full_text_def)
  have "\<not> names_a_volume ''../b//./c''" by simp
  then show ?thesis
    using translate_meaning [of "''../b//./c''" "''/Sys/a''" "replicate 20 (CHR ''x'')"]
    by (auto simp: pc nat len split: option.splits) (metis target.exhaust)
qed

definition proper_comp :: "string \<Rightarrow> bool" where
  "proper_comp c \<longleftrightarrow> name_comp c \<and> c \<noteq> ''.'' \<and> c \<noteq> ''..'' \<and> CHR '':'' \<notin> set c"

lemma components_join: "\<forall>c\<in>set cs. name_comp c \<Longrightarrow> components (join cs) = cs"
proof (induction cs rule: join.induct)
  case 1
  then show ?case by (simp add: components.simps)
next
  case (2 c)
  then have c: "c \<noteq> []" "\<forall>x\<in>set c. x \<noteq> CHR ''/''" by (auto simp: name_comp_def)
  then have "dropWhile (\<lambda>c. c = CHR ''/'') c = c"
    by (cases c) auto
  moreover have "takeWhile (\<lambda>c. c \<noteq> CHR ''/'') c = c" "dropWhile (\<lambda>c. c \<noteq> CHR ''/'') c = []"
    using c by (simp_all add: takeWhile_eq_all_conv)
  moreover have "components [] = []" by (simp add: components.simps)
  ultimately show ?case
    using c(1) by (simp only: join.simps components.simps [of c] Let_def if_False)
next
  case (3 c d cs)
  let ?r = "join (d # cs)"
  have c: "c \<noteq> []" "\<forall>x\<in>set c. x \<noteq> CHR ''/''" using 3 by (auto simp: name_comp_def)
  have d: "dropWhile (\<lambda>c. c = CHR ''/'') (c @ CHR ''/'' # ?r) = c @ CHR ''/'' # ?r"
    using c by (cases c) auto
  have tw: "takeWhile (\<lambda>c. c \<noteq> CHR ''/'') (c @ CHR ''/'' # ?r) = c"
    "dropWhile (\<lambda>c. c \<noteq> CHR ''/'') (c @ CHR ''/'' # ?r) = CHR ''/'' # ?r"
    using c(2) by (simp_all add: takeWhile_append2 dropWhile_append2 takeWhile_append dropWhile_append)
  have "components (CHR ''/'' # ?r) = components ?r"
    by (subst (1 2) components.simps) simp
  then show ?case
    using 3 c d tw by (simp add: components.simps [of "c @ CHR ''/'' # ?r"] Let_def)
qed

lemma components_slash: "components (CHR ''/'' # s) = components s"
  by (subst (1 2) components.simps) simp

lemma resolve_proper: "\<forall>c\<in>set cs. proper_comp c \<Longrightarrow> resolve_dots st cs = st @ cs"
  by (induction cs arbitrary: st) (auto simp: dot_step_def proper_comp_def)

text \<open>
  C7. Presenting and translating are inverse. For a native path whose volume name and components
  are proper names, \<^verbatim>\<open>present\<close> gives the POSIX path (\<^verbatim>\<open>/Sys/Tests\<close> for \<^verbatim>\<open>Sys:Tests\<close>) and
  \<^verbatim>\<open>translate\<close> of that gives the native path back, unless it is the null device's POSIX name.
\<close>

theorem present_translate:
  assumes "\<forall>c\<in>set (v # cs). proper_comp c" and "native_of (v # cs) = v @ CHR '':'' # join cs"
    and "length (v @ CHR '':'' # join cs) + 2 < 2 ^ 32"
    and "length (v @ CHR '':'' # join cs) < length out"
    and "length (v @ CHR '':'' # join cs) + 1 < length vfs" and "9 \<le> length vfs"
  shows "\<exists>out' n buf tr. present (Some (v @ CHR '':'' # join cs)) (Some out) = Some (out', n) \<and>
    take n out' = CHR ''/'' # join (v # cs) \<and>
    translate (Some (take n out')) cwd (Some vfs) = Some (buf, tr) \<and>
    tr_target tr = Vfs \<and> take (tr_length tr) buf = v @ CHR '':'' # join cs"
proof -
  let ?native = "v @ CHR '':'' # join cs" and ?posix = "CHR ''/'' # join (v # cs)"
  have names: "\<forall>c\<in>set (v # cs). name_comp c" and v: "v \<noteq> []" "CHR '':'' \<notin> set v"
    using assms(1) by (auto simp: proper_comp_def name_comp_def)
  have join: "join (v # cs) = v @ (if cs = [] then [] else CHR ''/'' # join cs)"
    by (cases cs) auto
  have jne: "join cs = [] \<longleftrightarrow> cs = []"
    using join_nonempty [of cs] names by auto
  have tw: "takeWhile (\<lambda>c. c \<noteq> CHR '':'') (v @ CHR '':'' # x) = v" for x
    using v(2) by (induction v) auto
  have answer: "CHR ''/'' # take (length v) ?native @
      (if length ?native - length v - 1 \<noteq> 0 then CHR ''/'' # drop (length v + 1) ?native else []) = ?posix"
    using jne by (simp add: join)
  have plen: "length ?posix \<le> length ?native + 1" "length ?posix \<le> length out"
    using assms(4) by (auto simp: join)
  have pr: "present (Some ?native) (Some out) = Some (bsplice 0 ?posix out, length ?posix)"
    using v(1) assms(3,4) plen jne by (auto simp: present_def tw Let_def join)
  have tk: "take (length ?posix) (bsplice 0 ?posix out) = ?posix"
    by (simp add: bsplice_def)
  have pc: "path_components x ?posix = v # cs" for x
    using components_join [OF names] resolve_proper [OF assms(1), of "[]"]
    by (simp add: path_components_def full_text_def components_slash)
  have tr: "translate (Some ?posix) cwd (Some vfs) = translate (Some ?posix) (Some []) (Some vfs)"
    by (simp add: translate_def)
  have "case translate (Some ?posix) (Some []) (Some vfs) of
      None \<Rightarrow> length vfs \<le> length (full_text [] ?posix) \<or> length vfs < 9
    | Some (out, tr) \<Rightarrow> length out = length vfs \<and> tr_length tr \<le> length out \<and>
        take (tr_length tr) out = native_of (path_components [] ?posix) \<and>
        (tr_target tr = Root \<longleftrightarrow> path_components [] ?posix = [])"
    by (rule translate_posix) (use plen assms(3) in simp_all)
  moreover have "\<not> (length vfs \<le> length (full_text [] ?posix) \<or> length vfs < 9)"
    using plen(1) assms(5,6) by (simp add: full_text_def)
  ultimately obtain buf t where bt: "translate (Some ?posix) cwd (Some vfs) = Some (buf, t)"
    "take (tr_length t) buf = ?native" "tr_target t \<noteq> Root"
    unfolding tr pc assms(2) by (auto split: option.splits)
  then have "tr_target t = Vfs" by (cases "tr_target t") auto
  with bt(1,2) pr tk show ?thesis by (intro exI) (auto simp only:)
qed

theorem present_translate_witness:
  "\<exists>out' n buf tr. present (Some ''Sys:Tests/x'') (Some (replicate 20 (CHR ''?''))) = Some (out', n) \<and>
    take n out' = ''/Sys/Tests/x'' \<and>
    translate (Some (take n out')) None (Some (replicate 20 (CHR ''?''))) = Some (buf, tr) \<and>
    tr_target tr = Vfs \<and> take (tr_length tr) buf = ''Sys:Tests/x''"
proof -
  have p: "\<forall>c\<in>set [''Sys'', ''Tests'', ''x'']. proper_comp c"
    by (simp add: proper_comp_def name_comp_def)
  have n: "native_of [''Sys'', ''Tests'', ''x''] = ''Sys'' @ CHR '':'' # join [''Tests'', ''x'']"
    by code_simp
  show ?thesis
    using present_translate [OF p n, of "replicate 20 (CHR ''?'')" "replicate 20 (CHR ''?'')" None]
    by simp
qed

end
