(* ===== verification/Bfs_Layout.thy ===== *)
theory Bfs_Layout
  imports Aegir_Prelude
begin

text \<open>
  The on-disk structures of the Be File System,
  \<^verbatim>\<open>src/libs/freestanding/aegir-bfs/include/aegir/bfs/layout.h\<close>: the little-endian readers and writers,
  block runs, links, the field offsets the other theories use, the size of a run array and the
  alignment of tree keys. A pointer into a buffer is the buffer and an offset.
\<close>

section \<open>Constants\<close>

definition kMaxBlockSize :: nat where "kMaxBlockSize = 8192"
definition kSuperblockBytes :: nat where "kSuperblockBytes = 512"
definition kSectorBytes :: nat where "kSectorBytes = 512"
definition kMagic1 :: u32 where "kMagic1 = 0x42465331"
definition kMagic2 :: u32 where "kMagic2 = 0xdd121031"
definition kMagic3 :: u32 where "kMagic3 = 0x15b6830e"
definition kByteOrderLittleEndian :: u32 where "kByteOrderLittleEndian = 0x42494745"
definition kClean :: u32 where "kClean = 0x434c454e"
definition kDirty :: u32 where "kDirty = 0x44495254"

text \<open>The superblock's field offsets.\<close>

definition sb_kMagic1 :: nat where "sb_kMagic1 = 32"
definition sb_kByteOrder :: nat where "sb_kByteOrder = 36"
definition sb_kBlockSize :: nat where "sb_kBlockSize = 40"
definition sb_kBlockShift :: nat where "sb_kBlockShift = 44"
definition sb_kNumBlocks :: nat where "sb_kNumBlocks = 48"
definition sb_kUsedBlocks :: nat where "sb_kUsedBlocks = 56"
definition sb_kInodeSize :: nat where "sb_kInodeSize = 64"
definition sb_kMagic2 :: nat where "sb_kMagic2 = 68"
definition sb_kBlocksPerAg :: nat where "sb_kBlocksPerAg = 72"
definition sb_kAgShift :: nat where "sb_kAgShift = 76"
definition sb_kNumAgs :: nat where "sb_kNumAgs = 80"
definition sb_kFlags :: nat where "sb_kFlags = 84"
definition sb_kLog :: nat where "sb_kLog = 88"
definition sb_kLogStart :: nat where "sb_kLogStart = 96"
definition sb_kLogEnd :: nat where "sb_kLogEnd = 104"
definition sb_kMagic3 :: nat where "sb_kMagic3 = 112"
definition sb_kRootDir :: nat where "sb_kRootDir = 116"
definition sb_kIndices :: nat where "sb_kIndices = 124"

lemmas sb_offsets = sb_kMagic1_def sb_kByteOrder_def sb_kBlockSize_def sb_kBlockShift_def
  sb_kNumBlocks_def sb_kUsedBlocks_def sb_kInodeSize_def sb_kMagic2_def sb_kBlocksPerAg_def
  sb_kAgShift_def sb_kNumAgs_def sb_kFlags_def sb_kLog_def sb_kLogStart_def sb_kLogEnd_def
  sb_kMagic3_def sb_kRootDir_def sb_kIndices_def

text \<open>The run array's field offsets.\<close>

definition ra_kCount :: nat where "ra_kCount = 0"
definition ra_kMaxRuns :: nat where "ra_kMaxRuns = 4"
definition ra_kRuns :: nat where "ra_kRuns = 8"

lemmas ra_offsets = ra_kCount_def ra_kMaxRuns_def ra_kRuns_def

section \<open>Little-endian access\<close>

definition le16 :: "u8 list \<Rightarrow> nat \<Rightarrow> u16" where
  "le16 buf at = of_nat (le_nat (bslice at 2 buf))"

definition le32 :: "u8 list \<Rightarrow> nat \<Rightarrow> u32" where
  "le32 buf at = of_nat (le_nat (bslice at 4 buf))"

definition le64 :: "u8 list \<Rightarrow> nat \<Rightarrow> u64" where
  "le64 buf at = of_nat (le_nat (bslice at 8 buf))"

definition put_le16 :: "u8 list \<Rightarrow> nat \<Rightarrow> u16 \<Rightarrow> u8 list" where
  "put_le16 buf at val = bsplice at (nat_le 2 (unat val)) buf"

definition put_le32 :: "u8 list \<Rightarrow> nat \<Rightarrow> u32 \<Rightarrow> u8 list" where
  "put_le32 buf at val = bsplice at (nat_le 4 (unat val)) buf"

definition put_le64 :: "u8 list \<Rightarrow> nat \<Rightarrow> u64 \<Rightarrow> u8 list" where
  "put_le64 buf at val = bsplice at (nat_le 8 (unat val)) buf"

section \<open>Block runs\<close>

record run =
  run_ag :: u32
  run_start :: u16
  run_len :: u16

definition le_run :: "u8 list \<Rightarrow> nat \<Rightarrow> run" where
  "le_run buf at =
     \<lparr>run_ag = le32 buf at, run_start = le16 buf (at + 4), run_len = le16 buf (at + 6)\<rparr>"

definition put_run :: "u8 list \<Rightarrow> nat \<Rightarrow> run \<Rightarrow> u8 list" where
  "put_run buf at r =
     put_le16 (put_le16 (put_le32 buf at (run_ag r)) (at + 4) (run_start r)) (at + 6) (run_len r)"

definition run_make :: "u32 \<Rightarrow> u16 \<Rightarrow> u16 \<Rightarrow> run" where
  "run_make ag start len = \<lparr>run_ag = ag, run_start = start, run_len = len\<rparr>"

definition runs_contiguous :: "run \<Rightarrow> run \<Rightarrow> bool" where
  "runs_contiguous a b \<longleftrightarrow>
     run_ag a = run_ag b \<and> unat (run_start a) + unat (run_len a) = unat (run_start b)"

definition run_is_zero :: "run \<Rightarrow> bool" where
  "run_is_zero r \<longleftrightarrow> run_ag r = 0 \<and> run_start r = 0 \<and> run_len r = 0"

text \<open>The subtraction is 32-bit, as is the comparison.\<close>

definition max_runs :: "u32 \<Rightarrow> u32" where
  "max_runs block_size = (let fits = (block_size - 8) div 8 in if fits < 128 then fits else 127)"

section \<open>Links and key alignment\<close>

definition kDuplicateNode :: u32 where "kDuplicateNode = 2"
definition kDuplicateFragment :: u32 where "kDuplicateFragment = 3"

definition link_type :: "u64 \<Rightarrow> u32" where
  "link_type link = ucast (drop_bit 62 link)"

definition link_is_duplicate :: "u64 \<Rightarrow> bool" where
  "link_is_duplicate link \<longleftrightarrow> link_type link AND (kDuplicateNode OR kDuplicateFragment) \<noteq> 0"

definition link_offset :: "u64 \<Rightarrow> u64" where
  "link_offset link = link AND 0x3ffffffffffffc00"

definition make_link :: "u32 \<Rightarrow> u64 \<Rightarrow> u64" where
  "make_link typ offset = push_bit 62 (ucast typ) OR (offset AND 0x3ffffffffffffc00)"

definition key_align :: "u32 \<Rightarrow> u32" where
  "key_align val = (val + 7) AND NOT 7"

section \<open>Reading back what was written\<close>

lemma length_put [simp, upd_simps]:
  "at + 2 \<le> length buf \<Longrightarrow> length (put_le16 buf at x) = length buf"
  "at + 4 \<le> length buf \<Longrightarrow> length (put_le32 buf at y) = length buf"
  "at + 8 \<le> length buf \<Longrightarrow> length (put_le64 buf at z) = length buf"
  by (simp_all add: put_le16_def put_le32_def put_le64_def)

lemma le_nat_word:
  fixes w :: "'a::len word"
  assumes "256 ^ n = (2::nat) ^ LENGTH('a)"
  shows "of_nat (le_nat (nat_le n (unat w))) = w"
  using unsigned_less [where 'a = nat and 'b = 'a, of w] assms by (simp add: le_nat_nat_le)

lemma le_put_same [upd_simps]:
  "at + 2 \<le> length buf \<Longrightarrow> le16 (put_le16 buf at x) at = x"
  "at + 4 \<le> length buf \<Longrightarrow> le32 (put_le32 buf at y) at = y"
  "at + 8 \<le> length buf \<Longrightarrow> le64 (put_le64 buf at z) at = z"
  by (simp_all add: le16_def put_le16_def le32_def put_le32_def le64_def put_le64_def
      bslice_bsplice_same le_nat_word)

lemma put_le_other [upd_simps]:
  "at + 2 \<le> length buf \<Longrightarrow> pos + n \<le> length buf \<Longrightarrow> pos + n \<le> at \<or> at + 2 \<le> pos \<Longrightarrow>
   bslice pos n (put_le16 buf at x) = bslice pos n buf"
  "at + 4 \<le> length buf \<Longrightarrow> pos + n \<le> length buf \<Longrightarrow> pos + n \<le> at \<or> at + 4 \<le> pos \<Longrightarrow>
   bslice pos n (put_le32 buf at y) = bslice pos n buf"
  "at + 8 \<le> length buf \<Longrightarrow> pos + n \<le> length buf \<Longrightarrow> pos + n \<le> at \<or> at + 8 \<le> pos \<Longrightarrow>
   bslice pos n (put_le64 buf at z) = bslice pos n buf"
  by (simp_all add: put_le16_def put_le32_def put_le64_def bslice_bsplice_other)

lemma length_put_run [simp, upd_simps]:
  "at + 8 \<le> length buf \<Longrightarrow> length (put_run buf at r) = length buf"
  by (simp add: put_run_def)

lemma le_run_put_run [upd_simps]:
  assumes "at + 8 \<le> length buf"
  shows "le_run (put_run buf at r) at = r"
proof -
  have "le32 (put_run buf at r) at = run_ag r"
    using assms by (simp add: put_run_def le32_def put_le_other)
      (simp add: le32_def [symmetric] le_put_same)
  moreover have "le16 (put_run buf at r) (at + 4) = run_start r"
    using assms by (simp add: put_run_def le16_def put_le_other)
      (simp add: le16_def [symmetric] le_put_same)
  moreover have "le16 (put_run buf at r) (at + 6) = run_len r"
    using assms by (simp add: put_run_def le_put_same)
  ultimately show ?thesis by (simp add: le_run_def)
qed

lemma put_run_other [upd_simps]:
  "at + 8 \<le> length buf \<Longrightarrow> pos + n \<le> length buf \<Longrightarrow> pos + n \<le> at \<or> at + 8 \<le> pos \<Longrightarrow>
   bslice pos n (put_run buf at r) = bslice pos n buf"
  by (auto simp: put_run_def put_le_other)

text \<open>Runs are read from the eight bytes at their place only.\<close>

lemma bslice_bslice: "i + m \<le> n \<Longrightarrow> bslice i m (bslice pos n buf) = bslice (pos + i) m buf"
  by (simp add: bslice_def drop_take add.commute min_def)

lemma le_run_cong:
  assumes "bslice at 8 buf = bslice at' 8 buf'"
  shows "le_run buf at = le_run buf' at'"
proof -
  have "bslice (at + i) m buf = bslice (at' + i) m buf'" if "i + m \<le> 8" for i m
    using bslice_bslice [OF that, of at buf] bslice_bslice [OF that, of at' buf'] assms by simp
  from this [of 0 4] this [of 4 2] this [of 6 2] show ?thesis
    by (simp add: le_run_def le32_def le16_def)
qed

text \<open>A field is untouched by a write that does not overlap it.\<close>

lemma le_put_far:
  assumes "at + 8 \<le> length sb"
  shows "pos + 4 \<le> length sb \<Longrightarrow> pos + 4 \<le> at \<or> at + 8 \<le> pos \<Longrightarrow> le32 (put_le64 sb at x) pos = le32 sb pos"
    and "pos + 8 \<le> length sb \<Longrightarrow> pos + 8 \<le> at \<or> at + 8 \<le> pos \<Longrightarrow> le64 (put_le64 sb at x) pos = le64 sb pos"
    and "pos + 8 \<le> length sb \<Longrightarrow> pos + 8 \<le> at \<or> at + 8 \<le> pos \<Longrightarrow> le_run (put_le64 sb at x) pos = le_run sb pos"
  using assms by (auto simp: le32_def le64_def put_le_other intro!: le_run_cong)

lemma le_put32_far:
  assumes "at + 4 \<le> length sb"
  shows "pos + 4 \<le> length sb \<Longrightarrow> pos + 4 \<le> at \<or> at + 4 \<le> pos \<Longrightarrow> le32 (put_le32 sb at x) pos = le32 sb pos"
    and "pos + 8 \<le> length sb \<Longrightarrow> pos + 8 \<le> at \<or> at + 4 \<le> pos \<Longrightarrow> le64 (put_le32 sb at x) pos = le64 sb pos"
    and "pos + 8 \<le> length sb \<Longrightarrow> pos + 8 \<le> at \<or> at + 4 \<le> pos \<Longrightarrow> le_run (put_le32 sb at x) pos = le_run sb pos"
  using assms by (auto simp: le32_def le64_def put_le_other intro!: le_run_cong)

lemma le_put_run_far:
  assumes "at + 8 \<le> length sb"
  shows "pos + 4 \<le> length sb \<Longrightarrow> pos + 4 \<le> at \<or> at + 8 \<le> pos \<Longrightarrow> le32 (put_run sb at r) pos = le32 sb pos"
    and "pos + 8 \<le> length sb \<Longrightarrow> pos + 8 \<le> at \<or> at + 8 \<le> pos \<Longrightarrow> le64 (put_run sb at r) pos = le64 sb pos"
    and "pos + 8 \<le> length sb \<Longrightarrow> pos + 8 \<le> at \<or> at + 8 \<le> pos \<Longrightarrow> le_run (put_run sb at r) pos = le_run sb pos"
  using assms by (auto simp: le32_def le64_def put_run_other intro!: le_run_cong)

lemma bslice_split: "bslice at (m + n) b = bslice at m b @ bslice (at + m) n b"
  by (simp add: bslice_def take_add add.commute)

lemma nat_le_zero: "nat_le n 0 = replicate n 0"
  by (induction n) auto

lemma put_le64_zero: "at + 8 \<le> length b \<Longrightarrow> bslice at 8 (put_le64 b at 0) = replicate 8 0"
  by (simp add: put_le64_def bslice_bsplice_same nat_le_zero)

text \<open>The length of a buffer after a chain of writes, one step for each.\<close>

lemma length_put_eq:
  "at + 2 \<le> n \<Longrightarrow> length b = n \<Longrightarrow> length (put_le16 b at w) = n"
  "at + 4 \<le> n \<Longrightarrow> length b = n \<Longrightarrow> length (put_le32 b at x) = n"
  "at + 8 \<le> n \<Longrightarrow> length b = n \<Longrightarrow> length (put_le64 b at y) = n"
  "at + 8 \<le> n \<Longrightarrow> length b = n \<Longrightarrow> length (put_run b at r) = n"
  by simp_all

end
