(* ===== verification/Bfs_Volume.thy ===== *)
theory Bfs_Volume
  imports Bfs_Layout
begin

text \<open>
  The block half of a BFS volume, \<^verbatim>\<open>src/libs/freestanding/aegir-bfs/src/volume.cc\<close>: opening it by its
  superblock, turning runs into blocks and back, whole-block reads and writes with the small cache,
  and the in-memory superblock. The transport the service hands in is the device below: an array of
  sectors, and an arbitrary outcome for every request, so that a refused request, a torn write and a
  loss of power at any point are all instances of it.

  Block numbers and sector numbers are natural numbers; the 64-bit wrap-around is written out where
  the source computes on them.
\<close>

section \<open>The transport\<close>

text \<open>
  A request is answered, or refused after the first \<open>n\<close> of its sectors went through. A single
  sector is written whole or not at all. What the device does with request number \<open>k\<close> is
  \<open>dev_outcome k\<close>, of which nothing is assumed. A refused read leaves the caller's buffer alone.
\<close>

datatype outcome = Done | Refused nat

record device =
  dev_sectors :: "nat \<Rightarrow> u8 list"
  dev_outcome :: "nat \<Rightarrow> outcome"
  dev_clock :: nat

text \<open>The first \<open>n\<close> sectors of \<open>bytes\<close>, stored from \<open>sector\<close> on.\<close>

definition put_sectors :: "(nat \<Rightarrow> u8 list) \<Rightarrow> nat \<Rightarrow> u8 list \<Rightarrow> nat \<Rightarrow> nat \<Rightarrow> u8 list" where
  "put_sectors secs sector bytes n =
     (\<lambda>s. if sector \<le> s \<and> s < sector + n then bslice ((s - sector) * kSectorBytes) kSectorBytes bytes
          else secs s)"

definition get_sectors :: "(nat \<Rightarrow> u8 list) \<Rightarrow> nat \<Rightarrow> nat \<Rightarrow> u8 list" where
  "get_sectors secs sector n = concat (map secs [sector..<sector + n])"

definition dev_write :: "device \<Rightarrow> nat \<Rightarrow> u8 list \<Rightarrow> nat \<Rightarrow> device \<times> bool" where
  "dev_write d sector bytes n =
     (let d' = d\<lparr>dev_clock := Suc (dev_clock d)\<rparr>
      in case dev_outcome d (dev_clock d) of
           Done \<Rightarrow> (d'\<lparr>dev_sectors := put_sectors (dev_sectors d) sector bytes n\<rparr>, True)
         | Refused k \<Rightarrow>
             (d'\<lparr>dev_sectors := put_sectors (dev_sectors d) sector bytes (min k n)\<rparr>, False))"

definition dev_read :: "device \<Rightarrow> nat \<Rightarrow> nat \<Rightarrow> device \<times> u8 list option" where
  "dev_read d sector n =
     (d\<lparr>dev_clock := Suc (dev_clock d)\<rparr>,
      case dev_outcome d (dev_clock d) of
        Done \<Rightarrow> Some (get_sectors (dev_sectors d) sector n)
      | Refused k \<Rightarrow> None)"

section \<open>The volume\<close>

text \<open>\<open>v_write\<close>: the volume was given the write half of the transport. A cache line holds a block number and its bytes.\<close>

record volume =
  v_write :: bool
  v_discard :: bool
  v_block_shift :: nat
  v_max_sectors :: nat
  v_ag_shift :: nat
  v_num_ags :: nat
  v_blocks_per_ag :: nat
  v_num_blocks :: nat
  v_used_blocks :: nat
  v_root :: run
  v_indices :: run
  v_log :: run
  v_log_start :: nat
  v_log_end :: nat
  v_valid :: bool
  v_name :: "u8 list"
  v_superblock :: "u8 list"
  v_cache :: "nat \<Rightarrow> (nat \<times> u8 list) option"

definition kCacheLines :: nat where "kCacheLines = 8"

definition wrap64 :: "nat \<Rightarrow> nat" where
  "wrap64 n = n mod 2 ^ 64"

definition vol_block_size :: "volume \<Rightarrow> nat" where
  "vol_block_size v = 2 ^ v_block_shift v"

definition block_sectors :: "volume \<Rightarrow> nat" where
  "block_sectors v = vol_block_size v div kSectorBytes"

text \<open>The check of the superblock's fields; a shift of 32 or more, undefined in the source, is refused.\<close>

definition superblock_ok :: "u8 list \<Rightarrow> bool" where
  "superblock_ok sb \<longleftrightarrow>
     (let block_size = le32 sb sb_kBlockSize;
          block_shift = le32 sb sb_kBlockShift;
          inode_size = le32 sb sb_kInodeSize;
          ag_shift = le32 sb sb_kAgShift;
          num_ags = le32 sb sb_kNumAgs;
          blocks_per_ag = le32 sb sb_kBlocksPerAg;
          num_blocks = le64 sb sb_kNumBlocks
      in le32 sb sb_kMagic1 = kMagic1 \<and> le32 sb sb_kMagic2 = kMagic2 \<and>
         le32 sb sb_kMagic3 = kMagic3 \<and> le32 sb sb_kByteOrder = kByteOrderLittleEndian \<and>
         \<not> (block_size = 0 \<or> unat block_size > kMaxBlockSize \<or> block_size \<noteq> inode_size \<or>
            push_bit (unat block_shift) 1 \<noteq> block_size \<or> ag_shift < 1 \<or> ag_shift > 30 \<or>
            num_ags < 1 \<or> blocks_per_ag < 1 \<or> num_blocks < 10) \<and>
         ucast num_ags = drop_bit (unat ag_shift) (num_blocks + push_bit (unat ag_shift) 1 - 1))"

definition load_superblock :: "u8 list \<Rightarrow> volume \<Rightarrow> volume" where
  "load_superblock sb v =
     v\<lparr>v_block_shift := unat (le32 sb sb_kBlockShift),
       v_ag_shift := unat (le32 sb sb_kAgShift),
       v_num_ags := unat (le32 sb sb_kNumAgs),
       v_blocks_per_ag := unat (le32 sb sb_kBlocksPerAg),
       v_num_blocks := unat (le64 sb sb_kNumBlocks),
       v_used_blocks := unat (le64 sb sb_kUsedBlocks),
       v_root := le_run sb sb_kRootDir,
       v_indices := le_run sb sb_kIndices,
       v_log := le_run sb sb_kLog,
       v_log_start := unat (le64 sb sb_kLogStart),
       v_log_end := unat (le64 sb sb_kLogEnd),
       v_name := take 32 sb,
       v_superblock := sb,
       v_valid := True\<rparr>"

definition vol_open :: "volume \<Rightarrow> device \<Rightarrow> bool \<Rightarrow> volume \<times> device \<times> bool" where
  "vol_open v d write =
     (let v0 = v\<lparr>v_write := write, v_valid := False\<rparr>
      in case dev_read d 1 1 of
           (d', None) \<Rightarrow> (v0, d', False)
         | (d', Some sb) \<Rightarrow>
             if superblock_ok sb then (load_superblock sb v0, d', True) else (v0, d', False))"

section \<open>Runs and blocks\<close>

definition to_block :: "volume \<Rightarrow> run \<Rightarrow> nat" where
  "to_block v r = wrap64 (push_bit (v_ag_shift v) (unat (run_ag r))) OR unat (run_start r)"

definition to_run :: "volume \<Rightarrow> nat \<Rightarrow> run" where
  "to_run v block =
     \<lparr>run_ag = of_nat (drop_bit (v_ag_shift v) block),
      run_start = of_nat (block AND (2 ^ v_ag_shift v - 1)), run_len = 1\<rparr>"

definition validate_run :: "volume \<Rightarrow> run \<Rightarrow> bool" where
  "validate_run v r \<longleftrightarrow>
     \<not> (run_len r = 0 \<or> unat (run_ag r) \<ge> v_num_ags v) \<and>
     \<not> unat (run_start r) + unat (run_len r) > 2 ^ v_ag_shift v \<and>
     to_block v r + unat (run_len r) \<le> v_num_blocks v"

definition run_bytes :: "volume \<Rightarrow> run \<Rightarrow> nat" where
  "run_bytes v r = unat (run_len r) * vol_block_size v"

section \<open>The in-memory superblock\<close>

definition set_log_start :: "nat \<Rightarrow> volume \<Rightarrow> volume" where
  "set_log_start pos v =
     v\<lparr>v_log_start := pos, v_superblock := put_le64 (v_superblock v) sb_kLogStart (of_nat pos)\<rparr>"

definition set_log_end :: "nat \<Rightarrow> volume \<Rightarrow> volume" where
  "set_log_end pos v =
     v\<lparr>v_log_end := pos, v_superblock := put_le64 (v_superblock v) sb_kLogEnd (of_nat pos)\<rparr>"

definition set_used_blocks :: "nat \<Rightarrow> volume \<Rightarrow> volume" where
  "set_used_blocks used v =
     v\<lparr>v_used_blocks := used, v_superblock := put_le64 (v_superblock v) sb_kUsedBlocks (of_nat used)\<rparr>"

definition set_flags :: "u32 \<Rightarrow> volume \<Rightarrow> volume" where
  "set_flags flags v = v\<lparr>v_superblock := put_le32 (v_superblock v) sb_kFlags flags\<rparr>"

definition restore_superblock :: "u8 list \<Rightarrow> volume \<Rightarrow> volume" where
  "restore_superblock img v =
     v\<lparr>v_superblock := img, v_used_blocks := unat (le64 img sb_kUsedBlocks),
       v_log_start := unat (le64 img sb_kLogStart), v_log_end := unat (le64 img sb_kLogEnd)\<rparr>"

definition write_superblock_now :: "volume \<Rightarrow> device \<Rightarrow> device \<times> bool" where
  "write_superblock_now v d = (if \<not> v_write v then (d, False) else dev_write d 1 (v_superblock v) 1)"

section \<open>Whole blocks\<close>

definition read_block_now :: "volume \<Rightarrow> device \<Rightarrow> nat \<Rightarrow> device \<times> u8 list option" where
  "read_block_now v d block = dev_read d (wrap64 (block * block_sectors v)) (block_sectors v)"

definition clear_cache :: "volume \<Rightarrow> volume" where
  "clear_cache v = v\<lparr>v_cache := (\<lambda>_. None)\<rparr>"

definition write_block_now ::
  "volume \<Rightarrow> device \<Rightarrow> nat \<Rightarrow> u8 list \<Rightarrow> volume \<times> device \<times> bool" where
  "write_block_now v d block bytes =
     (let v' = clear_cache v
      in if \<not> v_write v then (v', d, False)
         else (v', dev_write d (wrap64 (block * block_sectors v)) bytes (block_sectors v)))"

text \<open>The blocks of a run, told to the device; the request goes to the service's discard callback.\<close>

definition discard_range :: "volume \<Rightarrow> run \<Rightarrow> (nat \<times> nat) option" where
  "discard_range v r =
     (if \<not> v_discard v \<or> run_len r = 0 then None
      else Some (wrap64 (to_block v r * block_sectors v), unat (run_len r) * block_sectors v))"

section \<open>The contract of a block store\<close>

text \<open>A client that stores a list of blocks in order and stops when one is refused.\<close>

fun store_all ::
  "('d \<Rightarrow> nat \<Rightarrow> u8 list \<Rightarrow> 'd \<times> bool) \<Rightarrow> 'd \<Rightarrow> (nat \<times> u8 list) list \<Rightarrow> 'd \<times> bool" where
  "store_all wr d [] = (d, True)"
| "store_all wr d (e # es) =
     (case wr d (fst e) (snd e) of (d', ok) \<Rightarrow> if ok then store_all wr d' es else (d', False))"

text \<open>
  What the journal relies on below it: a block written is the block read, and a write, refused or
  torn as it may be, touches no other block and not the superblock's sector.
\<close>

locale block_store =
  fixes content :: "'d \<Rightarrow> nat \<Rightarrow> u8 list"
    and super :: "'d \<Rightarrow> u8 list"
    and wr :: "'d \<Rightarrow> nat \<Rightarrow> u8 list \<Rightarrow> 'd \<times> bool"
    and good :: "nat \<Rightarrow> bool"
    and fits :: "u8 list \<Rightarrow> bool"
  assumes wr_same: "good b \<Longrightarrow> fits x \<Longrightarrow> wr d b x = (d', True) \<Longrightarrow> content d' b = x"
    and wr_other: "good b \<Longrightarrow> good b' \<Longrightarrow> b' \<noteq> b \<Longrightarrow> wr d b x = (d', ok) \<Longrightarrow> content d' b' = content d b'"
    and wr_super: "good b \<Longrightarrow> wr d b x = (d', ok) \<Longrightarrow> super d' = super d"
begin

lemma store_all_super:
  "\<forall>e\<in>set es. good (fst e) \<Longrightarrow> store_all wr d es = (d', ok) \<Longrightarrow> super d' = super d"
proof (induction es arbitrary: d)
  case Nil
  then show ?case by simp
next
  case (Cons e es)
  obtain d1 ok1 where s: "wr d (fst e) (snd e) = (d1, ok1)" by fastforce
  have "super d1 = super d" using wr_super [OF _ s] Cons.prems(1) by simp
  then show ?case
    using Cons.IH [of d1] Cons.prems s by (cases ok1) auto
qed

lemma store_all_other:
  "\<forall>e\<in>set es. good (fst e) \<Longrightarrow> good b \<Longrightarrow> b \<notin> fst ` set es \<Longrightarrow> store_all wr d es = (d', ok) \<Longrightarrow>
   content d' b = content d b"
proof (induction es arbitrary: d)
  case Nil
  then show ?case by simp
next
  case (Cons e es)
  obtain d1 ok1 where s: "wr d (fst e) (snd e) = (d1, ok1)" by fastforce
  have "content d1 b = content d b" using wr_other [OF _ _ _ s] Cons.prems(1-3) by auto
  then show ?case
    using Cons.IH [of d1] Cons.prems s by (cases ok1) auto
qed

lemma store_all_done:
  "\<forall>e\<in>set es. good (fst e) \<and> fits (snd e) \<Longrightarrow> distinct (map fst es) \<Longrightarrow> store_all wr d es = (d', True) \<Longrightarrow>
   (b, x) \<in> set es \<Longrightarrow> content d' b = x"
proof (induction es arbitrary: d)
  case Nil
  then show ?case by simp
next
  case (Cons e es)
  obtain d1 where s: "wr d (fst e) (snd e) = (d1, True)" and r: "store_all wr d1 es = (d', True)"
    using Cons.prems(3) by (auto split: prod.splits if_splits)
  show ?case
  proof (cases "(b, x) = e")
    case True
    then have "content d1 b = x" using wr_same [OF _ _ s] Cons.prems(1) by auto
    moreover have "b \<notin> fst ` set es"
      using True Cons.prems(2) by (metis distinct.simps(2) fst_conv list.simps(9) set_map)
    ultimately show ?thesis
      using store_all_other [of es b d1 d' True] Cons.prems(1) r True by auto
  next
    case False
    then show ?thesis using Cons.IH [OF _ _ r] Cons.prems by auto
  qed
qed

end

section \<open>The volume's blocks are such a store\<close>

text \<open>
  The geometry the theorems need: blocks of 512 to 8192 bytes (the source accepts smaller ones too,
  which no sector can hold), group shifts for which a run's 16-bit start is enough, and sector
  numbers that do not wrap.
\<close>

definition vol_geom :: "volume \<Rightarrow> bool" where
  "vol_geom v \<longleftrightarrow> 9 \<le> v_block_shift v \<and> v_block_shift v \<le> 13 \<and> v_ag_shift v \<le> 16 \<and>
     v_num_ags v < 2 ^ 32 \<and> v_num_blocks v \<le> v_num_ags v * 2 ^ v_ag_shift v \<and>
     v_num_blocks v * block_sectors v < 2 ^ 64"

text \<open>A block of the volume that does not hold the superblock's sector.\<close>

definition plain_block :: "volume \<Rightarrow> nat \<Rightarrow> bool" where
  "plain_block v b \<longleftrightarrow> vol_geom v \<and> b < v_num_blocks v \<and> b \<noteq> 1 div block_sectors v"

definition block_content :: "volume \<Rightarrow> device \<Rightarrow> nat \<Rightarrow> u8 list" where
  "block_content v d b = get_sectors (dev_sectors d) (b * block_sectors v) (block_sectors v)"

definition super_sector :: "device \<Rightarrow> u8 list" where
  "super_sector d = dev_sectors d 1"

definition write_at :: "volume \<Rightarrow> device \<Rightarrow> nat \<Rightarrow> u8 list \<Rightarrow> device \<times> bool" where
  "write_at v d b x = (if v_write v then dev_write d (wrap64 (b * block_sectors v)) x (block_sectors v) else (d, False))"

lemma block_sectors_pos: "vol_geom v \<Longrightarrow> 0 < block_sectors v"
  and vol_block_size_sectors: "vol_geom v \<Longrightarrow> vol_block_size v = block_sectors v * kSectorBytes"
proof -
  assume g: "vol_geom v"
  then obtain k where k: "v_block_shift v = 9 + k"
    by (metis le_Suc_ex vol_geom_def)
  have "vol_block_size v = 2 ^ k * 512" by (simp add: vol_block_size_def k power_add)
  then have "block_sectors v = 2 ^ k" by (simp add: block_sectors_def kSectorBytes_def)
  then show "0 < block_sectors v" "vol_block_size v = block_sectors v * kSectorBytes"
    using \<open>vol_block_size v = 2 ^ k * 512\<close> by (simp_all add: kSectorBytes_def)
qed

lemma plain_block_wrap:
  assumes "vol_geom v" and "b < v_num_blocks v"
  shows "wrap64 (b * block_sectors v) = b * block_sectors v"
proof -
  have "b * block_sectors v \<le> v_num_blocks v * block_sectors v"
    using assms(2) by (intro mult_le_mono1) simp
  also have "\<dots> < 2 ^ 64" using assms(1) by (simp add: vol_geom_def)
  finally show ?thesis by (simp add: wrap64_def)
qed

lemma concat_slices:
  "length bytes = n * m \<Longrightarrow> concat (map (\<lambda>i. bslice (i * m) m bytes) [0..<n]) = bytes"
proof (induction n arbitrary: bytes)
  case 0
  then show ?case by simp
next
  case (Suc n)
  have "concat (map (\<lambda>i. bslice (i * m) m (take (n * m) bytes)) [0..<n]) = take (n * m) bytes"
    using Suc.IH [of "take (n * m) bytes"] Suc.prems by simp
  moreover have "bslice (i * m) m (take (n * m) bytes) = bslice (i * m) m bytes" if "i < n" for i
  proof -
    have "m + i * m \<le> n * m" using that by (metis Suc_leI mult_Suc mult_le_mono1)
    then show ?thesis by (simp add: bslice_def drop_take min_def)
  qed
  then have "map (\<lambda>i. bslice (i * m) m (take (n * m) bytes)) [0..<n] = map (\<lambda>i. bslice (i * m) m bytes) [0..<n]"
    by simp
  moreover have "bslice (n * m) m bytes = drop (n * m) bytes"
    using Suc.prems by (simp add: bslice_def)
  ultimately show ?case by simp
qed

lemma get_put_same:
  assumes "length bytes = n * kSectorBytes"
  shows "get_sectors (put_sectors secs s bytes n) s n = bytes"
proof -
  have "map (put_sectors secs s bytes n) [s..<s + n] =
      map (\<lambda>i. bslice (i * kSectorBytes) kSectorBytes bytes) [0..<n]"
    by (rule nth_equalityI) (auto simp: put_sectors_def)
  then show ?thesis
    using concat_slices [OF assms] by (simp add: get_sectors_def)
qed

lemma get_put_other:
  "s' + m \<le> s \<or> s + n \<le> s' \<Longrightarrow> get_sectors (put_sectors secs s bytes n) s' m = get_sectors secs s' m"
  unfolding get_sectors_def put_sectors_def by (intro arg_cong [of _ _ concat] map_cong) auto

lemma block_ranges_disjoint:
  "b' \<noteq> b \<Longrightarrow> b' * n + n \<le> b * n \<or> b * n + n \<le> b' * (n::nat)"
  by (metis add.commute linorder_neqE_nat mult_Suc mult_le_mono1 Suc_leI)

lemma plain_block_sector1:
  assumes "plain_block v b"
  shows "\<not> (b * block_sectors v \<le> 1 \<and> 1 < b * block_sectors v + block_sectors v)"
proof
  assume a: "b * block_sectors v \<le> 1 \<and> 1 < b * block_sectors v + block_sectors v"
  have "1 div block_sectors v = b"
    using a by (intro div_nat_eqI) (auto simp: mult.commute)
  then show False using assms by (simp add: plain_block_def)
qed

lemma dev_write_cases:
  assumes "dev_write d s x n = (d', ok)"
  obtains k where "k \<le> n" "dev_sectors d' = put_sectors (dev_sectors d) s x k" "ok \<Longrightarrow> k = n"
    "dev_outcome d' = dev_outcome d"
proof (cases "dev_outcome d (dev_clock d)")
  case Done
  then show ?thesis using assms that [of n] by (auto simp: dev_write_def Let_def)
next
  case (Refused k)
  then show ?thesis using assms that [of "min k n"] by (auto simp: dev_write_def Let_def)
qed

interpretation bs: block_store "block_content v" super_sector "write_at v" "plain_block v"
  "\<lambda>x. length x = vol_block_size v" for v
proof unfold_locales
  show "block_content v d' b = x"
    if "plain_block v b" "length x = vol_block_size v" "write_at v d b x = (d', True)" for b x d d'
    using that vol_block_size_sectors [of v] plain_block_wrap [of v b]
    by (auto simp: write_at_def dev_write_def Let_def block_content_def plain_block_def get_put_same
        split: outcome.splits if_splits)
  show "block_content v d' b' = block_content v d b'"
    if "plain_block v b" "plain_block v b'" "b' \<noteq> b" "write_at v d b x = (d', ok)" for b b' d x d' ok
  proof (cases "v_write v")
    case True
    then have "dev_write d (b * block_sectors v) x (block_sectors v) = (d', ok)"
      using that plain_block_wrap [of v b] by (simp add: write_at_def plain_block_def)
    then obtain k where "k \<le> block_sectors v"
      "dev_sectors d' = put_sectors (dev_sectors d) (b * block_sectors v) x k"
      by (rule dev_write_cases)
    then show ?thesis
      using block_ranges_disjoint [OF that(3), of "block_sectors v"]
      by (auto simp: block_content_def intro!: get_put_other)
  next
    case False
    then show ?thesis using that(4) by (simp add: write_at_def)
  qed
  show "super_sector d' = super_sector d"
    if "plain_block v b" "write_at v d b x = (d', ok)" for b d x d' ok
  proof (cases "v_write v")
    case True
    then have "dev_write d (b * block_sectors v) x (block_sectors v) = (d', ok)"
      using that plain_block_wrap [of v b] by (simp add: write_at_def plain_block_def)
    then obtain k where "k \<le> block_sectors v"
      "dev_sectors d' = put_sectors (dev_sectors d) (b * block_sectors v) x k"
      by (rule dev_write_cases)
    then show ?thesis
      using plain_block_sector1 [OF that(1)] by (auto simp: super_sector_def put_sectors_def)
  next
    case False
    then show ?thesis using that(2) by (simp add: write_at_def)
  qed
qed

section \<open>Runs name blocks\<close>

lemma push_drop_or: "push_bit a (drop_bit a b) OR (b AND (2 ^ a - 1)) = (b :: nat)"
proof -
  have "b AND (2 ^ a - 1) = take_bit a b"
    by (simp add: take_bit_eq_mask mask_eq_exp_minus_1)
  moreover have "push_bit a (drop_bit a b) OR take_bit a b = b"
    by (rule bit_eqI) (auto simp: bit_simps)
  ultimately show ?thesis by simp
qed

lemma block_fields:
  assumes "vol_geom v" and "b < v_num_blocks v"
  shows "unat (run_ag (to_run v b)) = drop_bit (v_ag_shift v) b"
    and "unat (run_start (to_run v b)) = b AND (2 ^ v_ag_shift v - 1)"
    and "drop_bit (v_ag_shift v) b < v_num_ags v"
    and "b AND (2 ^ v_ag_shift v - 1) < 2 ^ v_ag_shift v" and "b < 2 ^ 64"
proof -
  have bn: "b < v_num_ags v * 2 ^ v_ag_shift v"
    using assms by (simp add: vol_geom_def)
  then show ag: "drop_bit (v_ag_shift v) b < v_num_ags v"
    by (simp add: drop_bit_eq_div less_mult_imp_div_less)
  have m: "b AND (2 ^ v_ag_shift v - 1) = b mod 2 ^ v_ag_shift v"
    by (metis mask_eq_exp_minus_1 take_bit_eq_mask take_bit_eq_mod)
  then show st: "b AND (2 ^ v_ag_shift v - 1) < 2 ^ v_ag_shift v" by simp
  have "drop_bit (v_ag_shift v) b < 2 ^ 32"
    using ag assms(1) by (simp add: vol_geom_def)
  then show "unat (run_ag (to_run v b)) = drop_bit (v_ag_shift v) b"
    by (simp add: to_run_def unat_of_nat take_bit_eq_mod)
  have "(2 :: nat) ^ v_ag_shift v \<le> 2 ^ 16"
    using assms(1) by (intro power_increasing) (auto simp: vol_geom_def)
  then show "unat (run_start (to_run v b)) = b AND (2 ^ v_ag_shift v - 1)"
    using st by (simp add: to_run_def unat_of_nat take_bit_eq_mod)
  have "b \<le> b * block_sectors v" using block_sectors_pos [OF assms(1)] by simp
  then show "b < 2 ^ 64"
    using plain_block_wrap [OF assms] unfolding wrap64_def
    by (metis mod_less_divisor order_le_less_trans zero_less_numeral zero_less_power)
qed

lemma to_block_to_run:
  assumes "vol_geom v" and "b < v_num_blocks v"
  shows "to_block v (to_run v b) = b"
proof -
  have "push_bit (v_ag_shift v) (drop_bit (v_ag_shift v) b) \<le> b"
    by (simp add: push_bit_eq_mult drop_bit_eq_div)
  then have "wrap64 (push_bit (v_ag_shift v) (drop_bit (v_ag_shift v) b)) =
      push_bit (v_ag_shift v) (drop_bit (v_ag_shift v) b)"
    using block_fields(5) [OF assms] by (simp add: wrap64_def)
  then show ?thesis
    using block_fields(1,2) [OF assms] push_drop_or [of "v_ag_shift v" b] by (simp add: to_block_def)
qed

lemma validate_to_run:
  assumes "vol_geom v" and "b < v_num_blocks v"
  shows "validate_run v (to_run v b)"
proof -
  have "run_len (to_run v b) = 1" by (simp add: to_run_def)
  then show ?thesis
    using block_fields [OF assms] to_block_to_run [OF assms] assms(2) by (simp add: validate_run_def)
qed

section \<open>Volumes of the same geometry\<close>

definition same_geom :: "volume \<Rightarrow> volume \<Rightarrow> bool" where
  "same_geom v v' \<longleftrightarrow> v_write v = v_write v' \<and> v_block_shift v = v_block_shift v' \<and>
     v_ag_shift v = v_ag_shift v' \<and> v_num_ags v = v_num_ags v' \<and> v_num_blocks v = v_num_blocks v' \<and>
     v_log v = v_log v'"

lemma same_geom_refl [simp]: "same_geom v v"
  by (simp add: same_geom_def)

lemma same_geom_trans: "same_geom a b \<Longrightarrow> same_geom b c \<Longrightarrow> same_geom a c"
  by (simp add: same_geom_def)

lemma same_geom_set [simp]:
  "same_geom (clear_cache v) v" "same_geom (set_log_start p v) v" "same_geom (set_log_end p v) v"
  "same_geom (set_flags f v) v" "same_geom (set_used_blocks u v) v"
  by (simp_all add: same_geom_def clear_cache_def set_log_start_def set_log_end_def set_flags_def
      set_used_blocks_def)

lemma same_geom_eq:
  assumes "same_geom v v'"
  shows "vol_block_size v = vol_block_size v'" "block_sectors v = block_sectors v'"
    "vol_geom v = vol_geom v'" "plain_block v = plain_block v'" "block_content v = block_content v'"
    "to_block v = to_block v'" "to_run v = to_run v'" "validate_run v = validate_run v'"
    "write_at v = write_at v'" "read_block_now v = read_block_now v'"
proof -
  have bs: "vol_block_size v = vol_block_size v'" "block_sectors v = block_sectors v'"
    using assms by (simp_all add: same_geom_def vol_block_size_def block_sectors_def)
  then show "vol_block_size v = vol_block_size v'" "block_sectors v = block_sectors v'" by auto
  show g: "vol_geom v = vol_geom v'"
    using assms bs by (simp add: same_geom_def vol_geom_def)
  show "plain_block v = plain_block v'"
    using assms bs g by (simp add: same_geom_def plain_block_def fun_eq_iff)
  show "block_content v = block_content v'"
    using bs by (simp add: block_content_def fun_eq_iff)
  show tb: "to_block v = to_block v'"
    using assms by (simp add: same_geom_def to_block_def fun_eq_iff)
  show "to_run v = to_run v'"
    using assms by (simp add: same_geom_def to_run_def fun_eq_iff)
  show "validate_run v = validate_run v'"
    using assms tb by (simp add: same_geom_def validate_run_def fun_eq_iff)
  show "write_at v = write_at v'"
    using assms bs by (simp add: same_geom_def write_at_def fun_eq_iff)
  show "read_block_now v = read_block_now v'"
    using bs by (simp add: read_block_now_def fun_eq_iff)
qed

lemma write_block_now_at:
  "write_block_now v d b x = (clear_cache v, write_at v d b x)"
  by (simp add: write_block_now_def write_at_def Let_def)

lemma read_block_now_content:
  assumes "vol_geom v" and "b < v_num_blocks v" and "\<forall>k. dev_outcome d k = Done"
  shows "read_block_now v d b = (d\<lparr>dev_clock := Suc (dev_clock d)\<rparr>, Some (block_content v d b))"
  using assms plain_block_wrap [OF assms(1,2)]
  by (simp add: read_block_now_def dev_read_def block_content_def)

lemma block_content_clock [simp]:
  "block_content v (d\<lparr>dev_clock := k\<rparr>) = block_content v d"
  "block_content v (d\<lparr>dev_outcome := f\<rparr>) = block_content v d"
  "super_sector (d\<lparr>dev_clock := k\<rparr>) = super_sector d"
  "super_sector (d\<lparr>dev_outcome := f\<rparr>) = super_sector d"
  by (simp_all add: block_content_def super_sector_def fun_eq_iff)

section \<open>The superblock on the disk\<close>

text \<open>A superblock that mounts with the geometry of \<open>v\<close>.\<close>

definition sb_geom :: "u8 list \<Rightarrow> volume \<Rightarrow> bool" where
  "sb_geom sb v \<longleftrightarrow> length sb = kSuperblockBytes \<and> superblock_ok sb \<and>
     unat (le32 sb sb_kBlockShift) = v_block_shift v \<and> unat (le32 sb sb_kAgShift) = v_ag_shift v \<and>
     unat (le32 sb sb_kNumAgs) = v_num_ags v \<and> unat (le64 sb sb_kNumBlocks) = v_num_blocks v \<and>
     le_run sb sb_kLog = v_log v"

text \<open>The fields a transaction changes lie between the fields that fix the geometry.\<close>

lemma sb_geom_put [simp]:
  assumes "length sb = kSuperblockBytes"
  shows "sb_geom (put_le64 sb sb_kLogStart x) v = sb_geom sb v"
    "sb_geom (put_le64 sb sb_kLogEnd x) v = sb_geom sb v"
    "sb_geom (put_le64 sb sb_kUsedBlocks x) v = sb_geom sb v"
    "sb_geom (put_le32 sb sb_kFlags y) v = sb_geom sb v"
  using assms
  by (simp_all add: sb_geom_def superblock_ok_def Let_def sb_offsets kSuperblockBytes_def le_put_far
      le_put32_far)

lemma sb_geom_cong: "same_geom v v' \<Longrightarrow> sb_geom sb v = sb_geom sb v'"
  by (simp add: sb_geom_def same_geom_def)

lemma load_superblock_geom:
  "sb_geom sb v \<Longrightarrow> v_write v0 = v_write v \<Longrightarrow> same_geom (load_superblock sb v0) v"
  by (simp add: sb_geom_def same_geom_def load_superblock_def)

lemma vol_open_done:
  assumes "sb_geom (super_sector d) v" and "v_write v = w" and "\<forall>k. dev_outcome d k = Done"
  shows "vol_open v0 d w =
    (load_superblock (super_sector d) (v0\<lparr>v_write := w, v_valid := False\<rparr>),
     d\<lparr>dev_clock := Suc (dev_clock d)\<rparr>, True)"
  using assms by (simp add: vol_open_def dev_read_def get_sectors_def super_sector_def sb_geom_def)

end
