(* ===== verification/Bfs_Journal.thy ===== *)
theory Bfs_Journal
  imports Bfs_Volume "HOL-Library.Multiset"
begin

text \<open>
  The journal of a BFS volume, \<^verbatim>\<open>src/libs/freestanding/aegir-bfs/src/journal.cc\<close>, and the block reads
  and writes of \<^verbatim>\<open>volume.cc\<close> that go through it. A transaction collects block images; \<^verbatim>\<open>commit\<close> writes
  them to the log, commits by the one sector of the superblock, writes them to their homes and
  retires the log; \<^verbatim>\<open>replay\<close> repeats what a mount finds in the log. The main theorem is the crash
  atomicity of a commit: whatever the device does with the requests, a remount afterwards sees all
  of the transaction or none of it.
\<close>

section \<open>The transaction\<close>

text \<open>\<open>j_entries\<close> are the first \<^verbatim>\<open>count_\<close> entries of \<^verbatim>\<open>blocks_\<close> and \<^verbatim>\<open>data_\<close>, in order.\<close>

record journal =
  j_block_size :: nat
  j_active :: bool
  j_entries :: "(nat \<times> u8 list) list"
  j_snapshot_valid :: bool
  j_committed :: bool
  j_superblock :: "u8 list"

definition kMaxJournalBlocks :: nat where "kMaxJournalBlocks = 32"

definition log_length :: "volume \<Rightarrow> nat" where
  "log_length v = unat (run_len (v_log v))"

definition journal_open :: "volume \<Rightarrow> journal \<Rightarrow> journal \<times> bool" where
  "journal_open v j =
     (if \<not> v_valid v \<or> \<not> v_write v then (j, False)
      else
        let j' = j\<lparr>j_block_size := vol_block_size v, j_active := False, j_entries := []\<rparr>
        in (j', \<not> (log_length v < 2 \<or> vol_block_size v > kMaxBlockSize)))"

definition free_blocks :: "volume \<Rightarrow> nat" where
  "free_blocks v =
     (let len = log_length v;
          used = wrap64 (v_log_end v + len + 2 ^ 64 - v_log_start v) mod len
      in len - used)"

definition peek :: "journal \<Rightarrow> nat \<Rightarrow> u8 list option" where
  "peek j block = map_of (j_entries j) block"

definition journal_begin :: "volume \<Rightarrow> journal \<Rightarrow> journal" where
  "journal_begin v j =
     j\<lparr>j_active := True, j_entries := [], j_committed := False, j_superblock := v_superblock v,
       j_snapshot_valid := True\<rparr>"

fun replace_entry :: "nat \<Rightarrow> u8 list \<Rightarrow> (nat \<times> u8 list) list \<Rightarrow> (nat \<times> u8 list) list" where
  "replace_entry block bytes [] = []"
| "replace_entry block bytes (e # es) =
     (if fst e = block then (block, bytes) # es else e # replace_entry block bytes es)"

definition journal_log :: "journal \<Rightarrow> nat \<Rightarrow> u8 list \<Rightarrow> journal \<times> bool" where
  "journal_log j block bytes =
     (if \<not> j_active j then (j, False)
      else if block \<in> fst ` set (j_entries j) then
        (j\<lparr>j_entries := replace_entry block bytes (j_entries j)\<rparr>, True)
      else if length (j_entries j) \<ge> kMaxJournalBlocks then (j, False)
      else (j\<lparr>j_entries := j_entries j @ [(block, bytes)]\<rparr>, True))"

definition journal_abort :: "volume \<Rightarrow> journal \<Rightarrow> volume \<times> journal" where
  "journal_abort v j =
     (if j_snapshot_valid j \<and> \<not> j_committed j then restore_superblock (j_superblock j) v else v,
      j\<lparr>j_snapshot_valid := False, j_committed := False, j_active := False, j_entries := []\<rparr>)"

section \<open>Committing\<close>

definition run_before :: "volume \<Rightarrow> nat \<Rightarrow> nat \<Rightarrow> bool" where
  "run_before v a b =
     (let l = to_run v a; r = to_run v b
      in if run_ag l \<noteq> run_ag r then run_ag l < run_ag r else run_start l < run_start r)"

text \<open>The insertion sort, on the sorted front of the order array read from its right end.\<close>

fun insert_entry ::
  "volume \<Rightarrow> nat \<times> u8 list \<Rightarrow> (nat \<times> u8 list) list \<Rightarrow> (nat \<times> u8 list) list" where
  "insert_entry v key [] = [key]"
| "insert_entry v key (e # es) =
     (if run_before v (fst key) (fst e) then e # insert_entry v key es else key # e # es)"

definition sort_entries :: "volume \<Rightarrow> (nat \<times> u8 list) list \<Rightarrow> (nat \<times> u8 list) list" where
  "sort_entries v es = rev (foldl (\<lambda>front e. insert_entry v e front) [] es)"

fun put_runs :: "volume \<Rightarrow> u8 list \<Rightarrow> nat \<Rightarrow> (nat \<times> u8 list) list \<Rightarrow> u8 list" where
  "put_runs v arr i [] = arr"
| "put_runs v arr i (e # es) =
     put_runs v (put_run arr (ra_kRuns + i * 8) (to_run v (fst e))) (Suc i) es"

definition run_array :: "volume \<Rightarrow> nat \<Rightarrow> (nat \<times> u8 list) list \<Rightarrow> u8 list" where
  "run_array v block_size es =
     put_runs v
       (put_le32 (put_le32 (replicate block_size 0) ra_kCount (of_nat (length es)))
          ra_kMaxRuns (max_runs (of_nat block_size)))
       0 es"

text \<open>The position after \<open>pos\<close> in the log.\<close>

definition log_next :: "volume \<Rightarrow> nat \<Rightarrow> nat" where
  "log_next v pos = wrap64 (pos + 1) mod log_length v"

definition log_at :: "volume \<Rightarrow> nat \<Rightarrow> nat" where
  "log_at v pos = wrap64 (to_block v (v_log v) + pos)"

fun log_slots :: "volume \<Rightarrow> nat \<Rightarrow> (nat \<times> u8 list) list \<Rightarrow> (nat \<times> u8 list) list" where
  "log_slots v pos [] = []"
| "log_slots v pos (e # es) = (log_at v pos, snd e) # log_slots v (log_next v pos) es"

fun log_after :: "volume \<Rightarrow> nat \<Rightarrow> (nat \<times> u8 list) list \<Rightarrow> nat" where
  "log_after v pos [] = pos"
| "log_after v pos (e # es) = log_after v (log_next v pos) es"

text \<open>A loop of block writes that stops at the first refusal.\<close>

fun write_blocks :: "volume \<Rightarrow> device \<Rightarrow> (nat \<times> u8 list) list \<Rightarrow> volume \<times> device \<times> bool" where
  "write_blocks v d [] = (v, d, True)"
| "write_blocks v d (e # es) =
     (case write_block_now v d (fst e) (snd e) of (v', d', ok) \<Rightarrow>
        if ok then write_blocks v' d' es else (v', d', False))"

definition commit :: "volume \<Rightarrow> journal \<Rightarrow> device \<Rightarrow> volume \<times> journal \<times> device \<times> bool" where
  "commit v j d =
     (if \<not> j_active j then (v, j, d, True)
      else
        let j1 = j\<lparr>j_active := False\<rparr>; es = j_entries j; j0 = j1\<lparr>j_entries := []\<rparr>
        in if es = [] then (v, j1\<lparr>j_snapshot_valid := False\<rparr>, d, True)
           else if length es + 1 > free_blocks v \<or>
                   of_nat (length es) > max_runs (of_nat (j_block_size j)) - 1
           then (v, j0, d, False)
           else
             let sorted = sort_entries v es;
                 first = v_log_end v;
                 position = log_after v (log_next v first) sorted;
                 array = run_array v (j_block_size j) sorted
             in case write_blocks v d ((log_at v first, array) # log_slots v (log_next v first) sorted) of
                  (v1, d1, ok1) \<Rightarrow>
                    if \<not> ok1 then (v1, j0, d1, False)
                    else
                      let v2 = set_flags kDirty (set_log_end position v1)
                      in case write_superblock_now v2 d1 of (d2, ok2) \<Rightarrow>
                           if \<not> ok2 then (v2, j0, d2, False)
                           else
                             case write_blocks v2 d2 es of (v3, d3, ok3) \<Rightarrow>
                               if \<not> ok3 then (v3, j0\<lparr>j_committed := True\<rparr>, d3, False)
                               else
                                 let v4 = set_flags kClean (set_log_start position v3);
                                     j4 = j0\<lparr>j_committed := False, j_snapshot_valid := False\<rparr>
                                 in case write_superblock_now v4 d3 of (d4, ok4) \<Rightarrow> (v4, j4, d4, ok4))"

section \<open>Replaying\<close>

fun runs_valid :: "volume \<Rightarrow> u8 list \<Rightarrow> nat \<Rightarrow> nat \<Rightarrow> bool" where
  "runs_valid v arr i 0 = True"
| "runs_valid v arr i (Suc n) =
     (validate_run v (le_run arr (ra_kRuns + i * 8)) \<and> runs_valid v arr (Suc i) n)"

text \<open>Copying the data blocks of one entry home: the volume, the device, the position after, the verdict.\<close>

fun replay_copy ::
  "volume \<Rightarrow> device \<Rightarrow> u8 list \<Rightarrow> nat \<Rightarrow> nat \<Rightarrow> nat \<Rightarrow> volume \<times> device \<times> nat \<times> bool" where
  "replay_copy v d arr pos i 0 = (v, d, pos, True)"
| "replay_copy v d arr pos i (Suc n) =
     (case read_block_now v d (log_at v pos) of
        (d', None) \<Rightarrow> (v, d', pos, False)
      | (d', Some bytes) \<Rightarrow>
          (case write_block_now v d' (to_block v (le_run arr (ra_kRuns + i * 8))) bytes of
             (v', d'', ok) \<Rightarrow>
               if ok then replay_copy v' d'' arr (log_next v pos) (Suc i) n
               else (v', d'', pos, False)))"

text \<open>The walk over the entries; the source bounds it by the log's length, which is \<open>n\<close> at the start.\<close>

fun replay_walk :: "nat \<Rightarrow> volume \<Rightarrow> device \<Rightarrow> nat \<Rightarrow> nat \<Rightarrow> nat \<Rightarrow> volume \<times> device \<times> bool" where
  "replay_walk 0 v d block_size start end = (v, d, True)"
| "replay_walk (Suc n) v d block_size start end =
     (case read_block_now v d (log_at v start) of
        (d', None) \<Rightarrow> (v, d', False)
      | (d', Some arr) \<Rightarrow>
          (let cnt = le32 arr ra_kCount; stored_max = le32 arr ra_kMaxRuns;
               maxr = max_runs (of_nat block_size)
           in if stored_max \<noteq> maxr \<or> cnt = 0 \<or> cnt > maxr - 1 then (v, d', False)
              else if \<not> runs_valid v arr 0 (unat cnt) then (v, d', False)
              else
                (case replay_copy v d' arr (log_next v start) 0 (unat cnt) of
                   (v', d'', pos, ok) \<Rightarrow>
                     if \<not> ok then (v', d'', False)
                     else if pos = end then (v', d'', True)
                     else replay_walk n v' d'' block_size pos end)))"

definition replay :: "volume \<Rightarrow> journal \<Rightarrow> device \<Rightarrow> volume \<times> device \<times> bool" where
  "replay v j d =
     (if v_log_start v = v_log_end v then (v, d, True)
      else if \<not> v_write v then (v, d, False)
      else
        (case replay_walk (log_length v) v d (j_block_size j) (v_log_start v) (v_log_end v) of
           (v1, d1, ok) \<Rightarrow>
             if \<not> ok then (v1, d1, False)
             else
               let v2 = set_flags kClean (set_log_start (v_log_end v) v1)
               in case write_superblock_now v2 d1 of (d2, ok2) \<Rightarrow> (v2, d2, ok2)))"

section \<open>Block access through the journal\<close>

text \<open>\<open>None\<close> is a volume with no journal attached.\<close>

definition journal_active :: "journal option \<Rightarrow> bool" where
  "journal_active jo = (case jo of None \<Rightarrow> False | Some j \<Rightarrow> j_active j)"

definition read_block ::
  "volume \<Rightarrow> journal option \<Rightarrow> device \<Rightarrow> nat \<Rightarrow> volume \<times> device \<times> u8 list option" where
  "read_block v jo d block =
     (case Option.bind jo (\<lambda>j. peek j block) of
        Some bytes \<Rightarrow> (v, d, Some bytes)
      | None \<Rightarrow>
          let line = block mod kCacheLines
          in case v_cache v line of
               Some (b, bytes) \<Rightarrow>
                 if b = block then (v, d, Some bytes)
                 else (case read_block_now v d block of
                         (d', None) \<Rightarrow> (v, d', None)
                       | (d', Some got) \<Rightarrow>
                           (v\<lparr>v_cache := (v_cache v)(line \<mapsto> (block, got))\<rparr>, d', Some got))
             | None \<Rightarrow>
                 (case read_block_now v d block of
                    (d', None) \<Rightarrow> (v, d', None)
                  | (d', Some got) \<Rightarrow>
                      (v\<lparr>v_cache := (v_cache v)(line \<mapsto> (block, got))\<rparr>, d', Some got)))"

definition write_block ::
  "volume \<Rightarrow> journal option \<Rightarrow> device \<Rightarrow> nat \<Rightarrow> u8 list \<Rightarrow> volume \<times> journal option \<times> device \<times> bool" where
  "write_block v jo d block bytes =
     (let v' = clear_cache v
      in case jo of
           Some j \<Rightarrow>
             if j_active j then
               (case journal_log j block bytes of (j', ok) \<Rightarrow> (v', Some j', d, ok))
             else (case write_block_now v' d block bytes of (v'', d', ok) \<Rightarrow> (v'', jo, d', ok))
         | None \<Rightarrow> (case write_block_now v' d block bytes of (v'', d', ok) \<Rightarrow> (v'', jo, d', ok)))"

definition flush_superblock :: "volume \<Rightarrow> journal option \<Rightarrow> device \<Rightarrow> device \<times> bool" where
  "flush_superblock v jo d =
     (if journal_active jo then (d, True) else write_superblock_now v d)"

text \<open>
  Mounting, as the service does it once the power is back: open the volume, bind the journal, replay.
\<close>

definition mount :: "volume \<Rightarrow> journal \<Rightarrow> device \<Rightarrow> volume \<times> device \<times> bool" where
  "mount v0 j0 d =
     (case vol_open v0 d True of (v, d1, ok) \<Rightarrow>
        if \<not> ok then (v, d1, False)
        else (case journal_open v j0 of (j, ok2) \<Rightarrow> if \<not> ok2 then (v, d1, False) else replay v j d1))"

section \<open>Helpers\<close>

lemma clear_cache_idem [simp]: "clear_cache (clear_cache v) = clear_cache v"
  by (simp add: clear_cache_def)

lemma write_blocks_store:
  "write_blocks v d es = (v', d', ok) \<Longrightarrow>
   store_all (write_at v) d es = (d', ok) \<and> (v' = v \<or> v' = clear_cache v)"
proof (induction es arbitrary: v d)
  case Nil
  then show ?case by simp
next
  case (Cons e es)
  obtain d1 ok1 where w: "write_at v d (fst e) (snd e) = (d1, ok1)" by fastforce
  show ?case
  proof (cases ok1)
    case True
    then have "write_blocks (clear_cache v) d1 es = (v', d', ok)"
      using Cons.prems w by (simp add: write_block_now_at)
    then show ?thesis
      using Cons.IH w True same_geom_eq(9) [OF same_geom_set(1), of v] by fastforce
  next
    case False
    then show ?thesis using Cons.prems w by (simp add: write_block_now_at)
  qed
qed

lemma mset_insert_entry: "mset (insert_entry v e es) = add_mset e (mset es)"
  by (induction es) auto

lemma mset_sort_entries: "mset (sort_entries v es) = mset es"
proof -
  have "mset (foldl (\<lambda>front e. insert_entry v e front) acc es) = mset acc + mset es" for acc
    by (induction es arbitrary: acc) (auto simp: mset_insert_entry)
  from this [of "[]"] show ?thesis by (simp add: sort_entries_def)
qed

lemma sort_entries_facts:
  "length (sort_entries v es) = length es" "set (sort_entries v es) = set es"
  "distinct (map fst (sort_entries v es)) = distinct (map fst es)"
proof -
  show "length (sort_entries v es) = length es" using mset_sort_entries by (metis size_mset)
  show "set (sort_entries v es) = set es" using mset_sort_entries by (metis set_mset_mset)
  show "distinct (map fst (sort_entries v es)) = distinct (map fst es)"
    using mset_sort_entries [of v es] by (metis mset_eq_imp_distinct_iff mset_map)
qed

section \<open>The run array\<close>

lemma put_runs_facts:
  "ra_kRuns + (i + length es) * 8 \<le> length arr \<Longrightarrow>
   length (put_runs v arr i es) = length arr \<and>
   (\<forall>pos n. pos + n \<le> ra_kRuns + i * 8 \<longrightarrow> bslice pos n (put_runs v arr i es) = bslice pos n arr) \<and>
   (\<forall>k<length es. le_run (put_runs v arr i es) (ra_kRuns + (i + k) * 8) = to_run v (fst (es ! k)))"
proof (induction es arbitrary: arr i)
  case Nil
  then show ?case by simp
next
  case (Cons e es)
  let ?arr = "put_run arr (ra_kRuns + i * 8) (to_run v (fst e))"
  have fit: "ra_kRuns + i * 8 + 8 \<le> length arr" using Cons.prems by simp
  have len: "length ?arr = length arr" using fit by simp
  have IH: "length (put_runs v ?arr (Suc i) es) = length arr"
    "\<And>pos n. pos + n \<le> ra_kRuns + Suc i * 8 \<Longrightarrow> bslice pos n (put_runs v ?arr (Suc i) es) = bslice pos n ?arr"
    "\<And>k. k < length es \<Longrightarrow> le_run (put_runs v ?arr (Suc i) es) (ra_kRuns + (Suc i + k) * 8) = to_run v (fst (es ! k))"
    using Cons.IH [of "Suc i" ?arr] Cons.prems len by auto
  have "le_run (put_runs v ?arr (Suc i) es) (ra_kRuns + (i + k) * 8) = to_run v (fst ((e # es) ! k))"
    if "k < length (e # es)" for k
  proof (cases k)
    case 0
    have "le_run (put_runs v ?arr (Suc i) es) (ra_kRuns + i * 8) = le_run ?arr (ra_kRuns + i * 8)"
      by (rule le_run_cong, rule IH(2)) simp
    then show ?thesis using 0 le_run_put_run [OF fit] by simp
  next
    case (Suc k')
    then show ?thesis using IH(3) [of k'] that by simp
  qed
  moreover have "bslice pos n (put_runs v ?arr (Suc i) es) = bslice pos n arr" if "pos + n \<le> ra_kRuns + i * 8" for pos n
    using IH(2) [of pos n] put_run_other [OF fit, of pos n] that fit by simp
  ultimately show ?case using IH(1) by simp
qed

lemma max_runs_bound:
  assumes "vol_geom v" and "\<not> of_nat n > max_runs (of_nat (vol_block_size v)) - 1" and "n < 2 ^ 32"
  shows "ra_kRuns + n * 8 \<le> vol_block_size v"
    and "unat (of_nat n :: u32) = n"
proof -
  show un: "unat (of_nat n :: u32) = n"
    using assms(3) by (simp add: unat_of_nat take_bit_eq_mod)
  have "v_block_shift v = 9 \<or> v_block_shift v = 10 \<or> v_block_shift v = 11 \<or> v_block_shift v = 12 \<or>
      v_block_shift v = 13"
    using assms(1) unfolding vol_geom_def by linarith
  then have bs: "vol_block_size v \<in> {512, 1024, 2048, 4096, 8192}"
    by (auto simp: vol_block_size_def)
  then have "unat (max_runs (of_nat (vol_block_size v)) - 1) \<le> 126 \<and>
      (vol_block_size v = 512 \<longrightarrow> unat (max_runs (of_nat (vol_block_size v)) - 1) \<le> 62)"
    by (auto simp: max_runs_def Let_def)
  moreover have "n \<le> unat (max_runs (of_nat (vol_block_size v)) - 1)"
    using assms(2) un by (simp add: not_less word_le_nat_alt)
  ultimately show "ra_kRuns + n * 8 \<le> vol_block_size v"
    using bs by (auto simp: ra_kRuns_def)
qed

lemma run_array_facts:
  assumes "ra_kRuns + length es * 8 \<le> bs" and "length es < 2 ^ 32"
  shows "length (run_array v bs es) = bs"
    and "unat (le32 (run_array v bs es) ra_kCount) = length es"
    and "le32 (run_array v bs es) ra_kMaxRuns = max_runs (of_nat bs)"
    and "\<And>k. k < length es \<Longrightarrow> le_run (run_array v bs es) (ra_kRuns + k * 8) = to_run v (fst (es ! k))"
proof -
  let ?c = "put_le32 (replicate bs 0) ra_kCount (of_nat (length es))"
  let ?b = "put_le32 ?c ra_kMaxRuns (max_runs (of_nat bs))"
  have b8: "8 \<le> bs" using assms(1) by (simp add: ra_kRuns_def)
  have lc: "length ?c = bs" using b8 by (simp add: ra_kCount_def)
  have lb: "length ?b = bs" using b8 lc by (simp add: ra_kMaxRuns_def)
  note pr = put_runs_facts [of 0 es ?b v, unfolded lb]
  have sl: "bslice pos n (run_array v bs es) = bslice pos n ?b" if "pos + n \<le> 8" for pos n
    using pr assms(1) that by (simp add: run_array_def ra_kRuns_def)
  show "length (run_array v bs es) = bs" using pr assms(1) by (simp add: run_array_def)
  have "le32 (run_array v bs es) ra_kCount = le32 ?b ra_kCount"
    using sl [of 0 4] by (simp add: le32_def ra_kCount_def)
  also have "\<dots> = of_nat (length es)"
    using b8 lc le_put32_far(1) [of ra_kMaxRuns ?c ra_kCount] le_put_same(2) [of ra_kCount "replicate bs 0"]
    by (simp add: ra_offsets)
  finally show "unat (le32 (run_array v bs es) ra_kCount) = length es"
    using assms(2) by (simp add: unat_of_nat take_bit_eq_mod)
  have "le32 (run_array v bs es) ra_kMaxRuns = le32 ?b ra_kMaxRuns"
    using sl [of 4 4] by (simp add: le32_def ra_kMaxRuns_def)
  then show "le32 (run_array v bs es) ra_kMaxRuns = max_runs (of_nat bs)"
    using b8 lc le_put_same(2) [of ra_kMaxRuns ?c] by (simp add: ra_kMaxRuns_def)
  show "le_run (run_array v bs es) (ra_kRuns + k * 8) = to_run v (fst (es ! k))" if "k < length es" for k
    using pr assms(1) that by (simp add: run_array_def)
qed

section \<open>Positions in the log\<close>

text \<open>The log lies in the volume, away from the superblock.\<close>

definition log_ok :: "volume \<Rightarrow> bool" where
  "log_ok v \<longleftrightarrow> vol_geom v \<and> 2 \<le> log_length v \<and>
     (\<forall>p<log_length v. plain_block v (to_block v (v_log v) + p))"

lemma log_length_bound: "log_length v < 2 ^ 16"
  using unsigned_less [where 'a = nat, of "run_len (v_log v)"] by (simp add: log_length_def)

lemma log_at_eq:
  assumes "log_ok v" and "p < log_length v"
  shows "log_at v p = to_block v (v_log v) + p" and "plain_block v (log_at v p)"
proof -
  have pb: "plain_block v (to_block v (v_log v) + p)" using assms by (simp add: log_ok_def)
  then have "to_block v (v_log v) + p < 2 ^ 64"
    by (intro block_fields(5)) (auto simp: plain_block_def)
  then show "log_at v p = to_block v (v_log v) + p" by (simp add: log_at_def wrap64_def)
  then show "plain_block v (log_at v p)" using pb by simp
qed

lemma log_next_eq:
  assumes "log_ok v"
  shows "log_next v (p mod log_length v) = Suc p mod log_length v"
proof -
  have "p mod log_length v < log_length v" using assms by (simp add: log_ok_def)
  then have "p mod log_length v + 1 < 2 ^ 64" using log_length_bound [of v] by simp
  then show ?thesis by (simp add: log_next_def wrap64_def mod_Suc_eq)
qed

lemma log_after_eq:
  "log_ok v \<Longrightarrow> log_after v (p mod log_length v) es = (p + length es) mod log_length v"
  by (induction es arbitrary: p) (simp_all add: log_next_eq)

lemma log_slots_eq:
  "log_ok v \<Longrightarrow> log_slots v (p mod log_length v) es =
     zip (map (\<lambda>k. log_at v ((p + k) mod log_length v)) [0..<length es]) (map snd es)"
proof (induction es arbitrary: p)
  case Nil
  then show ?case by simp
next
  case (Cons e es)
  have "map (\<lambda>k. log_at v ((Suc p + k) mod log_length v)) [0..<length es] =
      map (\<lambda>k. log_at v ((p + k) mod log_length v)) [Suc 0..<Suc (length es)]"
    by (rule nth_equalityI) (auto simp del: upt_Suc)
  then show ?case
    using Cons by (simp add: log_next_eq upt_rec del: upt_Suc)
qed

text \<open>The blocks a commit writes in the log, from position \<open>p\<close>: the array, then the data.\<close>

lemma log_entry_keys:
  assumes "log_ok v" and "p < log_length v"
  shows "map fst ((log_at v p, arr) # log_slots v (log_next v p) es) =
    map (\<lambda>k. to_block v (v_log v) + (p + k) mod log_length v) [0..<Suc (length es)]"
proof -
  have L: "0 < log_length v" using assms(1) by (simp add: log_ok_def)
  have "log_slots v (log_next v p) es =
      zip (map (\<lambda>k. log_at v ((Suc p + k) mod log_length v)) [0..<length es]) (map snd es)"
    using log_next_eq [OF assms(1), of p] assms(2) log_slots_eq [OF assms(1), of "Suc p" es] by simp
  then have "map fst (log_slots v (log_next v p) es) =
      map (\<lambda>k. to_block v (v_log v) + (p + Suc k) mod log_length v) [0..<length es]"
    using log_at_eq(1) [OF assms(1)] L by simp
  then show ?thesis
    using log_at_eq(1) [OF assms] assms(2)
    by (simp add: upt_conv_Cons map_Suc_upt [symmetric] del: upt_Suc)
qed

lemma mod_add_inj:
  assumes "(p + i) mod L = (p + k) mod (L::nat)" and "i < L" and "k < L"
  shows "i = k"
proof -
  have "a = b" if "a \<le> b" "(p + a) mod L = (p + b) mod L" "b < L" for a b
    using that mod_eq_dvd_iff_nat [of "p + a" "p + b" L] by (auto dest: dvd_imp_le)
  then show ?thesis using assms by (metis nat_le_linear)
qed

lemma log_entry_distinct:
  assumes "log_ok v" and "p < log_length v" and "length es < log_length v"
  shows "distinct (map fst ((log_at v p, arr) # log_slots v (log_next v p) es))"
proof -
  have "inj_on (\<lambda>k. to_block v (v_log v) + (p + k) mod log_length v) (set [0..<Suc (length es)])"
  proof (rule inj_onI)
    fix i k
    assume "i \<in> set [0..<Suc (length es)]" "k \<in> set [0..<Suc (length es)]"
    then have "i < log_length v" "k < log_length v" using assms(3) by (auto simp del: upt_Suc)
    moreover assume "to_block v (v_log v) + (p + i) mod log_length v =
        to_block v (v_log v) + (p + k) mod log_length v"
    ultimately show "i = k" by (metis add_left_cancel mod_add_inj)
  qed
  then show ?thesis
    unfolding log_entry_keys [OF assms(1,2)] distinct_map by simp
qed

lemma log_entry_plain:
  assumes "log_ok v" and "p < log_length v"
    and "e \<in> set ((log_at v p, arr) # log_slots v (log_next v p) es)"
  shows "plain_block v (fst e) \<and> (\<exists>q<log_length v. fst e = to_block v (v_log v) + q)"
proof -
  have "fst e \<in> set (map fst ((log_at v p, arr) # log_slots v (log_next v p) es))"
    using assms(3) by auto
  then obtain k where k: "fst e = to_block v (v_log v) + (p + k) mod log_length v"
    unfolding log_entry_keys [OF assms(1,2)] by auto
  moreover have "(p + k) mod log_length v < log_length v"
    using assms(1) by (simp add: log_ok_def)
  ultimately show ?thesis using assms(1) by (auto simp: log_ok_def)
qed

section \<open>Replaying one entry\<close>

lemma same_geom_log:
  assumes "same_geom v v'"
  shows "log_length v = log_length v'" "log_at v = log_at v'" "log_next v = log_next v'" "log_ok v = log_ok v'"
    "runs_valid v = runs_valid v'"
proof -
  show L: "log_length v = log_length v'" using assms by (simp add: same_geom_def log_length_def)
  have l: "v_log v = v_log v'" using assms by (simp add: same_geom_def)
  show "log_at v = log_at v'"
    using same_geom_eq(6) [OF assms] l by (simp add: log_at_def fun_eq_iff)
  show "log_next v = log_next v'" using L by (simp add: log_next_def fun_eq_iff)
  show "log_ok v = log_ok v'"
    using same_geom_eq(3,4,6) [OF assms] l L by (simp add: log_ok_def)
  have "runs_valid v arr i n = runs_valid v' arr i n" for arr i n
    using same_geom_eq(8) [OF assms] by (induction n arbitrary: i) auto
  then show "runs_valid v = runs_valid v'" by (simp add: fun_eq_iff)
qed

lemmas clear_cache_geom [simp] =
  same_geom_eq [OF same_geom_set(1)] same_geom_log [OF same_geom_set(1)]

lemma v_clear_cache [simp]: "v_write (clear_cache v) = v_write v" "v_log_end (clear_cache v) = v_log_end v"
  "v_log_start (clear_cache v) = v_log_start v" "v_superblock (clear_cache v) = v_superblock v"
  "v_used_blocks (clear_cache v) = v_used_blocks v" "v_log (clear_cache v) = v_log v"
  by (simp_all add: clear_cache_def)

lemma write_at_done:
  assumes "v_write v" and "\<forall>k. dev_outcome d k = Done"
  obtains d' where "write_at v d b x = (d', True)" "dev_outcome d' = dev_outcome d"
  using assms that by (auto simp: write_at_def dev_write_def Let_def)

text \<open>What a transaction's blocks have to be: blocks of the volume outside the log and off the superblock.\<close>

definition targets_ok :: "volume \<Rightarrow> (nat \<times> u8 list) list \<Rightarrow> bool" where
  "targets_ok v es \<longleftrightarrow> distinct (map fst es) \<and>
     (\<forall>e\<in>set es. plain_block v (fst e) \<and> length (snd e) = vol_block_size v \<and>
        (\<forall>p<log_length v. fst e \<noteq> to_block v (v_log v) + p))"

text \<open>The contents of the volume's blocks after the entries went home.\<close>

definition applied :: "(nat \<times> u8 list) list \<Rightarrow> (nat \<Rightarrow> u8 list) \<Rightarrow> nat \<Rightarrow> u8 list" where
  "applied es c b = (case map_of es b of Some x \<Rightarrow> x | None \<Rightarrow> c b)"

lemma replay_copy_done:
  assumes "log_ok v" and "v_write v" and "\<forall>k. dev_outcome d k = Done" and "targets_ok v es"
    and "\<forall>k<length es. le_run arr (ra_kRuns + (i + k) * 8) = to_run v (fst (es ! k))"
    and "\<forall>k<length es. block_content v d (log_at v ((p + k) mod log_length v)) = snd (es ! k)"
  shows "\<exists>v' d'. replay_copy v d arr (p mod log_length v) i (length es) =
      (v', d', (p + length es) mod log_length v, True) \<and> (v' = v \<or> v' = clear_cache v) \<and>
    dev_outcome d' = dev_outcome d \<and> super_sector d' = super_sector d \<and>
    (\<forall>b. plain_block v b \<longrightarrow> block_content v d' b = applied es (block_content v d) b)"
  using assms
proof (induction es arbitrary: v d i p)
  case Nil
  show ?case by (simp add: applied_def)
next
  case (Cons e es)
  let ?L = "log_length v" and ?b = "fst e" and ?x = "snd e"
  have L: "0 < ?L" using Cons.prems(1) by (simp add: log_ok_def)
  have e: "plain_block v ?b" "length ?x = vol_block_size v" "\<And>q. q < ?L \<Longrightarrow> ?b \<noteq> to_block v (v_log v) + q"
    "?b \<notin> fst ` set es"
    using Cons.prems(4) by (auto simp: targets_ok_def)
  have geom: "vol_geom v" "?b < v_num_blocks v" using e(1) by (simp_all add: plain_block_def)
  have slot: "log_at v (q mod ?L) = to_block v (v_log v) + q mod ?L" "plain_block v (log_at v (q mod ?L))" for q
    using log_at_eq [OF Cons.prems(1), of "q mod ?L"] L by simp_all
  let ?d1 = "d\<lparr>dev_clock := Suc (dev_clock d)\<rparr>"
  have rd: "read_block_now v d (log_at v (p mod ?L)) = (?d1, Some ?x)"
    using read_block_now_content [OF geom(1) _ Cons.prems(3)] slot(2) [of p] Cons.prems(6)
    by (auto simp: plain_block_def)
  obtain d2 where w: "write_at v ?d1 ?b ?x = (d2, True)" and o2: "dev_outcome d2 = dev_outcome d"
    using write_at_done [of v ?d1 ?b ?x] Cons.prems(2,3) by auto
  have run: "to_block v (le_run arr (ra_kRuns + i * 8)) = ?b"
    using Cons.prems(5) to_block_to_run [OF geom] by force
  have c2: "block_content v d2 ?b = ?x"
    "\<And>b'. plain_block v b' \<Longrightarrow> b' \<noteq> ?b \<Longrightarrow> block_content v d2 b' = block_content v d b'"
    "super_sector d2 = super_sector d"
    using bs.wr_same [OF e(1,2) w] bs.wr_other [OF e(1) _ _ w] bs.wr_super [OF e(1) w] by simp_all
  have step: "replay_copy v d arr (p mod ?L) i (length (e # es)) =
      replay_copy (clear_cache v) d2 arr (Suc p mod ?L) (Suc i) (length es)"
    using rd w run log_next_eq [OF Cons.prems(1)] by (simp add: write_block_now_at)
  have "\<exists>v' d'. replay_copy (clear_cache v) d2 arr (Suc p mod ?L) (Suc i) (length es) =
      (v', d', (Suc p + length es) mod ?L, True) \<and> (v' = clear_cache v \<or> v' = clear_cache (clear_cache v)) \<and>
    dev_outcome d' = dev_outcome d2 \<and> super_sector d' = super_sector d2 \<and>
    (\<forall>b. plain_block v b \<longrightarrow> block_content v d' b = applied es (block_content v d2) b)"
  proof (rule Cons.IH [of "clear_cache v" d2 "Suc i" "Suc p", unfolded clear_cache_geom])
    show "log_ok v" "v_write (clear_cache v)" "\<forall>k. dev_outcome d2 k = Done"
      using Cons.prems o2 by simp_all
    show "targets_ok (clear_cache v) es" using Cons.prems(4) by (simp add: targets_ok_def)
    show "\<forall>k<length es. le_run arr (ra_kRuns + (Suc i + k) * 8) = to_run v (fst (es ! k))"
      using Cons.prems(5) [rule_format, of "Suc k" for k] by simp
    show "\<forall>k<length es. block_content v d2 (log_at v ((Suc p + k) mod ?L)) = snd (es ! k)"
    proof (intro allI impI)
      fix k assume k: "k < length es"
      have "log_at v ((Suc p + k) mod ?L) \<noteq> ?b"
        using slot(1) [of "Suc p + k"] e(3) [of "(Suc p + k) mod ?L"] L by auto
      then have "block_content v d2 (log_at v ((Suc p + k) mod ?L)) =
          block_content v d (log_at v ((p + Suc k) mod ?L))"
        using c2(2) [OF slot(2) [of "Suc p + k"]] by simp
      then show "block_content v d2 (log_at v ((Suc p + k) mod ?L)) = snd (es ! k)"
        using Cons.prems(6) [rule_format, of "Suc k"] k by simp
    qed
  qed
  then obtain v' d' where r: "replay_copy (clear_cache v) d2 arr (Suc p mod ?L) (Suc i) (length es) =
      (v', d', (Suc p + length es) mod ?L, True)" "v' = clear_cache v"
    "dev_outcome d' = dev_outcome d2" "super_sector d' = super_sector d2"
    "\<forall>b. plain_block v b \<longrightarrow> block_content v d' b = applied es (block_content v d2) b" by auto
  have "block_content v d' b = applied (e # es) (block_content v d) b" if "plain_block v b" for b
    using r(5) that c2 e(4) by (auto simp: applied_def map_of_eq_None_iff split: option.splits)
  then show ?case
    using r step c2(3) o2 by auto
qed

text \<open>An entry in the log: the array at \<open>first\<close>, the data behind it.\<close>

definition log_holds :: "volume \<Rightarrow> device \<Rightarrow> nat \<Rightarrow> (nat \<times> u8 list) list \<Rightarrow> bool" where
  "log_holds v d first es \<longleftrightarrow>
     block_content v d (log_at v first) = run_array v (vol_block_size v) es \<and>
     (\<forall>k<length es. block_content v d (log_at v ((Suc first + k) mod log_length v)) = snd (es ! k))"

text \<open>Sizes for which one array is enough.\<close>

definition entry_fits :: "volume \<Rightarrow> nat \<Rightarrow> bool" where
  "entry_fits v n \<longleftrightarrow> 0 < n \<and> n < 2 ^ 32 \<and> \<not> of_nat n > max_runs (of_nat (vol_block_size v)) - 1"

lemma run_array_valid:
  assumes "vol_geom v" and "targets_ok v es" and "entry_fits v (length es)"
  shows "runs_valid v (run_array v (vol_block_size v) es) 0 (length es)"
proof -
  note f = max_runs_bound(1) [OF assms(1), of "length es"] assms(3)
  have arr: "le_run (run_array v (vol_block_size v) es) (ra_kRuns + k * 8) = to_run v (fst (es ! k))"
    if "k < length es" for k
    using run_array_facts(4) [of es "vol_block_size v" k v] f that by (simp add: entry_fits_def)
  have "runs_valid v (run_array v (vol_block_size v) es) i n" if "i + n \<le> length es" for i n
    using that
  proof (induction n arbitrary: i)
    case 0
    then show ?case by simp
  next
    case (Suc n)
    then have "es ! i \<in> set es" by simp
    then have "validate_run v (to_run v (fst (es ! i)))"
      using assms(2) validate_to_run [OF assms(1)] by (auto simp: targets_ok_def plain_block_def)
    then show ?case using Suc arr [of i] by simp
  qed
  then show ?thesis by simp
qed

lemma replay_walk_done:
  assumes "log_ok v" and "v_write v" and "\<forall>k. dev_outcome d k = Done" and "targets_ok v es"
    and "entry_fits v (length es)" and "first < log_length v" and "log_holds v d first es"
  shows "\<exists>v' d'. replay_walk (log_length v) v d (vol_block_size v) first
      ((Suc first + length es) mod log_length v) = (v', d', True) \<and> (v' = v \<or> v' = clear_cache v) \<and>
    dev_outcome d' = dev_outcome d \<and> super_sector d' = super_sector d \<and>
    (\<forall>b. plain_block v b \<longrightarrow> block_content v d' b = applied es (block_content v d) b)"
proof -
  let ?L = "log_length v" and ?arr = "run_array v (vol_block_size v) es"
  let ?d1 = "d\<lparr>dev_clock := Suc (dev_clock d)\<rparr>"
  obtain n where n: "?L = Suc n" using assms(6) by (cases ?L) auto
  have geom: "vol_geom v" using assms(1) by (simp add: log_ok_def)
  have fits: "ra_kRuns + length es * 8 \<le> vol_block_size v" "length es < 2 ^ 32" "length es \<noteq> 0"
    using max_runs_bound(1) [OF geom, of "length es"] assms(5) by (auto simp: entry_fits_def)
  note arr = run_array_facts [OF fits(1,2), where v = v]
  have rd: "read_block_now v d (log_at v first) = (?d1, Some ?arr)"
    using read_block_now_content [OF geom _ assms(3)] log_at_eq(2) [OF assms(1,6)] assms(7)
    by (auto simp: plain_block_def log_holds_def)
  have cnt: "le32 ?arr ra_kCount = of_nat (length es)"
    using arg_cong [OF arr(2), of "of_nat :: nat \<Rightarrow> u32"] by simp
  have cnt0: "(of_nat (length es) :: u32) \<noteq> 0"
    using arr(2) cnt fits(3) by auto
  have rc: "\<exists>v' d'. replay_copy v ?d1 ?arr (Suc first mod ?L) 0 (length es) =
      (v', d', (Suc first + length es) mod ?L, True) \<and> (v' = v \<or> v' = clear_cache v) \<and>
    dev_outcome d' = dev_outcome ?d1 \<and> super_sector d' = super_sector ?d1 \<and>
    (\<forall>b. plain_block v b \<longrightarrow> block_content v d' b = applied es (block_content v ?d1) b)"
    using assms(3,7) arr(4)
    by (intro replay_copy_done [OF assms(1,2) _ assms(4)]) (auto simp: log_holds_def)
  have "log_next v first = Suc first mod ?L"
    using log_next_eq [OF assms(1), of first] assms(6) by simp
  moreover have "\<not> of_nat (length es) > max_runs (of_nat (vol_block_size v)) - 1"
    using assms(5) by (simp add: entry_fits_def)
  ultimately show ?thesis
    using rc rd arr(2,3) cnt cnt0 run_array_valid [OF geom assms(4,5)]
    by (auto simp: n Let_def)
qed

lemma put_runs_cong: "to_run w = to_run v \<Longrightarrow> put_runs w = put_runs v"
proof -
  assume a: "to_run w = to_run v"
  have "put_runs w arr i es = put_runs v arr i es" for arr i es
    using a by (induction es arbitrary: arr i) auto
  then show ?thesis by (simp add: fun_eq_iff)
qed

section \<open>Mounting\<close>

lemma write_superblock_cases:
  assumes "write_superblock_now v d = (d', ok)" and "length (v_superblock v) = kSuperblockBytes"
  shows "super_sector d' = v_superblock v \<or> \<not> ok \<and> super_sector d' = super_sector d"
    and "plain_block w b \<Longrightarrow> block_content w d' b = block_content w d b"
    and "dev_outcome d' = dev_outcome d"
proof -
  have "(super_sector d' = v_superblock v \<or> \<not> ok \<and> super_sector d' = super_sector d) \<and>
    (plain_block w b \<longrightarrow> block_content w d' b = block_content w d b) \<and> dev_outcome d' = dev_outcome d"
  proof (cases "v_write v")
    case False
    then show ?thesis using assms(1) by (simp add: write_superblock_now_def)
  next
    case True
    then have "dev_write d 1 (v_superblock v) 1 = (d', ok)"
      using assms(1) by (simp add: write_superblock_now_def)
    then obtain k where k: "k \<le> 1" "dev_sectors d' = put_sectors (dev_sectors d) 1 (v_superblock v) k"
      "ok \<Longrightarrow> k = 1" "dev_outcome d' = dev_outcome d"
      by (rule dev_write_cases) blast
    have full: "bslice 0 kSectorBytes (v_superblock v) = v_superblock v"
      using assms(2) by (simp add: bslice_def kSectorBytes_def kSuperblockBytes_def)
    have "block_content w d' b = block_content w d b" if "plain_block w b"
      unfolding block_content_def k(2) using plain_block_sector1 [OF that] k(1)
      by (intro get_put_other) auto
    then show ?thesis
      using k full by (cases "k = 0") (auto simp: super_sector_def put_sectors_def)
  qed
  then show "super_sector d' = v_superblock v \<or> \<not> ok \<and> super_sector d' = super_sector d"
    "plain_block w b \<Longrightarrow> block_content w d' b = block_content w d b"
    "dev_outcome d' = dev_outcome d" by auto
qed

lemma journal_open_ok:
  assumes "log_ok v" and "v_write v" and "v_valid v"
  shows "journal_open v j = (j\<lparr>j_block_size := vol_block_size v, j_active := False, j_entries := []\<rparr>, True)"
proof -
  have "vol_block_size v \<le> 2 ^ 13"
    unfolding vol_block_size_def using assms(1) by (intro power_increasing) (auto simp: log_ok_def vol_geom_def)
  then show ?thesis
    using assms by (simp add: journal_open_def Let_def log_ok_def kMaxBlockSize_def)
qed

lemma mount_open:
  assumes "log_ok v" and "v_write v" and "sb_geom (super_sector d) v" and "\<forall>k. dev_outcome d k = Done"
  obtains w j where "mount v0 j0 d = replay w j (d\<lparr>dev_clock := Suc (dev_clock d)\<rparr>)"
    "same_geom w v" "j_block_size j = vol_block_size v" "v_superblock w = super_sector d"
    "v_log_start w = unat (le64 (super_sector d) sb_kLogStart)"
    "v_log_end w = unat (le64 (super_sector d) sb_kLogEnd)"
    "v_used_blocks w = unat (le64 (super_sector d) sb_kUsedBlocks)"
proof -
  let ?w = "load_superblock (super_sector d) (v0\<lparr>v_write := True, v_valid := False\<rparr>)"
  have sg: "same_geom ?w v"
    using load_superblock_geom [OF assms(3)] assms(2) by simp
  have "log_ok ?w" "v_write ?w" "v_valid ?w"
    using same_geom_log(4) [OF sg] assms(1) by (simp_all add: load_superblock_def)
  note jo = journal_open_ok [OF this, of j0]
  show ?thesis
  proof (rule that)
    show "mount v0 j0 d = replay ?w (j0\<lparr>j_block_size := vol_block_size ?w, j_active := False, j_entries := []\<rparr>)
        (d\<lparr>dev_clock := Suc (dev_clock d)\<rparr>)"
      using vol_open_done [OF assms(3) _ assms(4), of True v0] assms(2) jo by (simp add: mount_def)
  qed (use sg same_geom_eq(1) [OF sg] in \<open>simp_all add: load_superblock_def\<close>)
qed

text \<open>A clean log: mounting changes nothing.\<close>

lemma mount_clean:
  assumes "log_ok v" and "v_write v" and "sb_geom (super_sector d) v" and "\<forall>k. dev_outcome d k = Done"
    and "le64 (super_sector d) sb_kLogStart = le64 (super_sector d) sb_kLogEnd"
  shows "\<exists>w d'. mount v0 j0 d = (w, d', True) \<and> v_log_start w = v_log_end w \<and>
    v_used_blocks w = unat (le64 (super_sector d) sb_kUsedBlocks) \<and> block_content v d' = block_content v d"
  by (rule mount_open [OF assms(1-4), of v0 j0]) (use assms(5) in \<open>simp add: replay_def\<close>)

text \<open>A log with one entry: mounting brings the entry's blocks home and retires it.\<close>

lemma mount_dirty:
  assumes "log_ok v" and "v_write v" and "sb_geom (super_sector d) v" and "\<forall>k. dev_outcome d k = Done"
    and "targets_ok v es" and "entry_fits v (length es)" and "first < log_length v"
    and "length es + 1 < log_length v" and "log_holds v d first es"
    and "le64 (super_sector d) sb_kLogStart = of_nat first"
    and "le64 (super_sector d) sb_kLogEnd = of_nat ((Suc first + length es) mod log_length v)"
  shows "\<exists>w d'. mount v0 j0 d = (w, d', True) \<and> v_log_start w = v_log_end w \<and>
    v_used_blocks w = unat (le64 (super_sector d) sb_kUsedBlocks) \<and>
    (\<forall>b. plain_block v b \<longrightarrow> block_content v d' b = applied es (block_content v d) b)"
proof -
  let ?L = "log_length v" and ?d1 = "d\<lparr>dev_clock := Suc (dev_clock d)\<rparr>"
  let ?fin = "(Suc first + length es) mod ?L"
  obtain w j where m: "mount v0 j0 d = replay w j ?d1" and sg: "same_geom w v"
    and j: "j_block_size j = vol_block_size v" and sb: "v_superblock w = super_sector d"
    and cur: "v_log_start w = unat (le64 (super_sector d) sb_kLogStart)"
      "v_log_end w = unat (le64 (super_sector d) sb_kLogEnd)"
      "v_used_blocks w = unat (le64 (super_sector d) sb_kUsedBlocks)"
    by (rule mount_open [OF assms(1-4)])
  have L: "?L < 2 ^ 16" by (rule log_length_bound)
  have endL: "?fin < ?L" using assms(7) by (intro mod_less_divisor) simp
  have st: "v_log_start w = first" using cur(1) assms(7,10) L by (simp add: unat_of_nat_u64)
  have en: "v_log_end w = ?fin" using cur(2) assms(11) endL L by (simp add: unat_of_nat_u64)
  have ne: "first \<noteq> ?fin"
    using mod_add_inj [of first 0 ?L "Suc (length es)"] assms(7,8) by auto
  have w: "log_ok w" "v_write w" "targets_ok w es" "entry_fits w (length es)" "log_holds w ?d1 first es"
    "log_length w = ?L"
    using assms same_geom_log [OF sg] same_geom_eq [OF sg] sg
    by (simp_all add: targets_ok_def entry_fits_def log_holds_def run_array_def same_geom_def
        put_runs_cong [OF same_geom_eq(7) [OF sg]])
  obtain w1 d1 where r: "replay_walk ?L w ?d1 (vol_block_size w) first ?fin = (w1, d1, True)"
    "w1 = w \<or> w1 = clear_cache w" "dev_outcome d1 = dev_outcome d" "super_sector d1 = super_sector d"
    "\<forall>b. plain_block w b \<longrightarrow> block_content w d1 b = applied es (block_content w ?d1) b"
    using replay_walk_done [OF w(1,2) _ w(3,4) _ w(5)] assms(4,7) w(6) by auto
  let ?w2 = "set_flags kClean (set_log_start ?fin w1)"
  obtain d2 ok2 where s: "write_superblock_now ?w2 d1 = (d2, ok2)" by fastforce
  have "v_write ?w2" using r(2) w(2) by (auto simp: set_flags_def set_log_start_def)
  then have ok2: "ok2"
    using s r(3) assms(4) by (auto simp: write_superblock_now_def dev_write_def Let_def)
  have len: "length (v_superblock ?w2) = kSuperblockBytes"
    using r(2) sb assms(3)
    by (auto simp: set_flags_def set_log_start_def sb_geom_def sb_offsets kSuperblockBytes_def)
  have "replay w j ?d1 = (?w2, d2, True)"
    using st en ne w(2,6) j r(1) s ok2 same_geom_eq(1) [OF sg] by (simp add: replay_def Let_def)
  moreover have "v_log_start ?w2 = v_log_end ?w2" "v_used_blocks ?w2 = v_used_blocks w"
    using r(2) en by (auto simp: set_flags_def set_log_start_def)
  moreover have "block_content v d2 b = applied es (block_content v d) b" if "plain_block v b" for b
    using write_superblock_cases(2) [OF s len that] r(5) that same_geom_eq(4,5) [OF sg] by simp
  ultimately show ?thesis using m cur(3) by auto
qed

section \<open>What a commit leaves on the disk\<close>

text \<open>A block that belongs neither to the log nor to the superblock.\<close>

definition home_block :: "volume \<Rightarrow> nat \<Rightarrow> bool" where
  "home_block v b \<longleftrightarrow> plain_block v b \<and> (\<forall>p<log_length v. b \<noteq> to_block v (v_log v) + p)"

text \<open>
  A transaction about to commit: the volume is mounted read-write with a clean log, on the disk and
  in memory, and the entries are blocks it may write.
\<close>

definition txn_ready :: "volume \<Rightarrow> journal \<Rightarrow> device \<Rightarrow> bool" where
  "txn_ready v j d \<longleftrightarrow> log_ok v \<and> v_write v \<and>
     sb_geom (super_sector d) v \<and> sb_geom (v_superblock v) v \<and>
     le64 (super_sector d) sb_kLogStart = le64 (super_sector d) sb_kLogEnd \<and>
     le64 (v_superblock v) sb_kLogStart = of_nat (v_log_start v) \<and>
     v_used_blocks v = unat (le64 (v_superblock v) sb_kUsedBlocks) \<and>
     v_log_start v = v_log_end v \<and> v_log_end v < log_length v \<and>
     j_active j \<and> j_block_size j = vol_block_size v \<and> j_entries j \<noteq> [] \<and> targets_ok v (j_entries j)"

lemma applied_sort:
  assumes "targets_ok v es"
  shows "applied (sort_entries w es) = applied es"
proof -
  have "map_of (sort_entries w es) = map_of es"
    using assms sort_entries_facts [of w es] by (intro map_of_inject_set [THEN iffD2]) (auto simp: targets_ok_def)
  then show ?thesis by (simp add: applied_def fun_eq_iff)
qed

lemma targets_ok_sort: "targets_ok v (sort_entries w es) = targets_ok v es"
  using sort_entries_facts [of w es] by (simp add: targets_ok_def)

lemma log_written:
  assumes "log_ok v" and "first < log_length v" and "targets_ok v es" and "entry_fits v (length es)"
    and "length es < log_length v"
    and "store_all (write_at v) d ((log_at v first, run_array v (vol_block_size v) es) #
      log_slots v (log_next v first) es) = (d', True)"
  shows "log_holds v d' first es"
proof -
  let ?arr = "run_array v (vol_block_size v) es" and ?L = "log_length v"
  let ?l = "(log_at v first, ?arr) # log_slots v (log_next v first) es"
  have geom: "vol_geom v" using assms(1) by (simp add: log_ok_def)
  have "ra_kRuns + length es * 8 \<le> vol_block_size v" "length es < 2 ^ 32"
    using max_runs_bound(1) [OF geom, of "length es"] assms(4) by (auto simp: entry_fits_def)
  note arr = run_array_facts(1) [OF this, of v]
  have slots: "log_slots v (log_next v first) es =
      zip (map (\<lambda>k. log_at v ((Suc first + k) mod ?L)) [0..<length es]) (map snd es)"
    using log_slots_eq [OF assms(1), of "Suc first" es] log_next_eq [OF assms(1), of first] assms(2) by simp
  have fits: "length (snd e) = vol_block_size v" if "e \<in> set ?l" for e
  proof -
    have "snd e = ?arr \<or> snd e \<in> set (map snd es)"
      using that unfolding slots list.set insert_iff by (metis prod.collapse set_zip_rightD snd_conv)
    then show ?thesis using arr assms(3) by (auto simp: targets_ok_def)
  qed
  have all: "\<forall>e\<in>set ?l. plain_block v (fst e) \<and> length (snd e) = vol_block_size v"
    using log_entry_plain [OF assms(1,2)] fits by blast
  note stored = bs.store_all_done [OF all log_entry_distinct [OF assms(1,2,5)] assms(6)]
  have "(log_at v ((Suc first + k) mod ?L), snd (es ! k)) \<in> set ?l" if "k < length es" for k
    unfolding slots using that by (auto simp: set_zip intro!: exI [of _ k])
  then show ?thesis
    unfolding log_holds_def using stored by auto
qed

lemma log_kept:
  assumes "log_ok v" and "first < log_length v"
    and "\<And>p. p < log_length v \<Longrightarrow> block_content v d' (log_at v p) = block_content v d (log_at v p)"
    and "log_holds v d first es"
  shows "log_holds v d' first es"
  using assms by (auto simp: log_holds_def log_ok_def)

lemma log_not_target:
  assumes "log_ok v" and "targets_ok v es" and "p < log_length v"
  shows "log_at v p \<notin> fst ` set es"
proof
  assume "log_at v p \<in> fst ` set es"
  then obtain e where "e \<in> set es" "fst e = log_at v p" by auto
  then show False
    using log_at_eq(1) [OF assms(1,3)] assms(2,3) by (auto simp: targets_ok_def)
qed

lemma home_not_log:
  assumes "log_ok v" and "first < log_length v" and "home_block v b"
  shows "b \<notin> fst ` set ((log_at v first, arr) # log_slots v (log_next v first) es)"
  using log_entry_plain [OF assms(1,2)] assms(3) unfolding home_block_def by blast

lemma applied_other:
  assumes "\<And>b. b \<notin> fst ` set es \<Longrightarrow> P b \<Longrightarrow> c b = c' b" and "P b"
  shows "applied es c b = applied es c' b"
proof (cases "b \<in> fst ` set es")
  case True
  then obtain x where "map_of es b = Some x"
    by (metis map_of_eq_None_iff not_Some_eq)
  then show ?thesis by (simp add: applied_def)
next
  case False
  then have "map_of es b = None" by (simp add: map_of_eq_None_iff)
  then show ?thesis using assms False by (simp add: applied_def)
qed

text \<open>
  The four stages a commit can stop at, each as the device it leaves: while writing the log, at the
  superblock that commits, while writing the homes, at the superblock that retires the log.
\<close>

lemma commit_stages:
  assumes "txn_ready v j d" and "commit v j d = (v', j', d', ok)"
  defines "es \<equiv> j_entries j" and "ordered \<equiv> sort_entries v (j_entries j)" and "first \<equiv> v_log_end v"
  defines "entry \<equiv> (log_at v first, run_array v (vol_block_size v) ordered) # log_slots v (log_next v first) ordered"
    and "position \<equiv> log_after v (log_next v first) ordered"
  obtains (refused) "d' = d" "\<not> ok" "length es + 1 > free_blocks v \<or> of_nat (length es) > max_runs (of_nat (vol_block_size v)) - 1"
  | (log) "store_all (write_at v) d entry = (d', False)" "\<not> ok"
  | (super1) d1 w where "\<not> of_nat (length es) > max_runs (of_nat (vol_block_size v)) - 1" "store_all (write_at v) d entry = (d1, True)" "\<not> ok"
      "w = v \<or> w = clear_cache v" "write_superblock_now (set_flags kDirty (set_log_end position w)) d1 = (d', False)"
  | (homes) d1 d2 w where "\<not> of_nat (length es) > max_runs (of_nat (vol_block_size v)) - 1" "store_all (write_at v) d entry = (d1, True)" "\<not> ok" "w = v \<or> w = clear_cache v"
      "write_superblock_now (set_flags kDirty (set_log_end position w)) d1 = (d2, True)"
      "store_all (write_at v) d2 es = (d', False)"
  | (super2) d1 d2 d3 w w' where "\<not> of_nat (length es) > max_runs (of_nat (vol_block_size v)) - 1" "store_all (write_at v) d entry = (d1, True)" "w = v \<or> w = clear_cache v"
      "write_superblock_now (set_flags kDirty (set_log_end position w)) d1 = (d2, True)"
      "store_all (write_at v) d2 es = (d3, True)"
      "w' = set_flags kDirty (set_log_end position w) \<or> w' = clear_cache (set_flags kDirty (set_log_end position w))"
      "v' = set_flags kClean (set_log_start position w')"
      "write_superblock_now (set_flags kClean (set_log_start position w')) d3 = (d', ok)"
proof -
  have act: "j_active j" "es \<noteq> []" "j_block_size j = vol_block_size v" "j_entries j = es"
    using assms(1) by (auto simp: txn_ready_def es_def)
  have so: "sort_entries v es = ordered" by (simp add: ordered_def es_def)
  note c = assms(2) [unfolded commit_def Let_def act(3,4) so first_def [symmetric], folded entry_def position_def]
  let ?bad = "length es + 1 > free_blocks v \<or> of_nat (length es) > max_runs (of_nat (vol_block_size v)) - 1"
  let ?v2 = "\<lambda>w. set_flags kDirty (set_log_end position w)"
  obtain w d1 ok1 where s1: "write_blocks v d entry = (w, d1, ok1)" by (metis surj_pair)
  note a1 = write_blocks_store [OF s1]
  obtain d2 ok2 where s2: "write_superblock_now (?v2 w) d1 = (d2, ok2)" by fastforce
  obtain w' d3 ok3 where s3: "write_blocks (?v2 w) d2 es = (w', d3, ok3)" by (metis surj_pair)
  have "same_geom (?v2 w) v"
    using a1 same_geom_set same_geom_trans by (metis same_geom_refl)
  then have a3: "store_all (write_at v) d2 es = (d3, ok3)" "w' = ?v2 w \<or> w' = clear_cache (?v2 w)"
    using write_blocks_store [OF s3] same_geom_eq(9) by metis+
  show ?thesis
  proof (cases "?bad \<or> \<not> ok1")
    case True
    then show ?thesis
      using c act(1,2) s1 a1 refused log by (cases ?bad) auto
  next
    case ok1: False
    show ?thesis
    proof (cases "ok2 \<and> ok3")
      case False
      then show ?thesis
        using c act(1,2) s1 s2 s3 a1 a3(1) ok1 super1 [of d1 w] homes [of d1 w d2] by (cases ok2) auto
    next
      case True
      obtain d4 ok4 where s4: "write_superblock_now (set_flags kClean (set_log_start position w')) d3 = (d4, ok4)"
        by fastforce
      have "v' = set_flags kClean (set_log_start position w')" "d' = d4" "ok = ok4"
        using c act(1,2) s1 s2 s3 s4 ok1 True by auto
      then show ?thesis
        using super2 [of d1 w d2 d3 w'] s2 s4 a1 a3 ok1 True by auto
    qed
  qed
qed

section \<open>Crash atomicity\<close>

text \<open>The two disks a mount can find: the old one with a clean log, or the log with the entry in it.\<close>

lemma mount_old:
  assumes "txn_ready v j d" and "super_sector d' = super_sector d"
    and "\<And>b. home_block v b \<Longrightarrow> block_content v d' b = block_content v d b"
  shows "\<exists>w d2. mount v0 j0 (d'\<lparr>dev_outcome := \<lambda>_. Done\<rparr>) = (w, d2, True) \<and> v_log_start w = v_log_end w \<and>
    v_used_blocks w = unat (le64 (super_sector d) sb_kUsedBlocks) \<and>
    (\<forall>b. home_block v b \<longrightarrow> block_content v d2 b = block_content v d b)"
  using mount_clean [of v "d'\<lparr>dev_outcome := \<lambda>_. Done\<rparr>" v0 j0] assms
  by (fastforce simp: txn_ready_def)

lemma committed_superblock:
  assumes "txn_ready v j d" and "w = v \<or> w = clear_cache v" and "n < log_length v"
  defines "s \<equiv> v_superblock (set_flags kDirty (set_log_end n w))"
  shows "sb_geom s v" "le64 s sb_kLogStart = of_nat (v_log_end v)" "le64 s sb_kLogEnd = of_nat n"
    "unat (le64 s sb_kUsedBlocks) = v_used_blocks v" "length s = kSuperblockBytes"
proof -
  have g: "sb_geom (v_superblock v) v" using assms(1) by (simp add: txn_ready_def)
  then have len: "length (v_superblock v) = 512" by (simp add: sb_geom_def kSuperblockBytes_def)
  have s: "s = put_le32 (put_le64 (v_superblock v) sb_kLogEnd (of_nat n)) sb_kFlags kDirty"
    using assms(2) by (auto simp: s_def set_flags_def set_log_end_def)
  have "length (put_le64 (v_superblock v) sb_kLogEnd (of_nat n)) = kSuperblockBytes"
    using len by (simp add: sb_kLogEnd_def kSuperblockBytes_def)
  then show "sb_geom s v" using g len by (simp add: s kSuperblockBytes_def)
  then show "length s = kSuperblockBytes" by (simp add: sb_geom_def)
  show "le64 s sb_kLogStart = of_nat (v_log_end v)" "le64 s sb_kLogEnd = of_nat n"
    "unat (le64 s sb_kUsedBlocks) = v_used_blocks v"
    using assms(1) len
    by (simp_all add: s sb_offsets le_put32_far le_put_far le_put_same txn_ready_def)
qed

lemma mount_committed:
  assumes "txn_ready v j d" and "entry_fits v (length (j_entries j))"
    and "length (j_entries j) + 1 < log_length v" and "w = v \<or> w = clear_cache v"
    and "super_sector d' = v_superblock (set_flags kDirty (set_log_end
      (log_after v (log_next v (v_log_end v)) (sort_entries v (j_entries j))) w))"
    and "log_holds v d' (v_log_end v) (sort_entries v (j_entries j))"
    and "\<And>b. home_block v b \<Longrightarrow> b \<notin> fst ` set (j_entries j) \<Longrightarrow> block_content v d' b = block_content v d b"
  shows "\<exists>u d2. mount v0 j0 (d'\<lparr>dev_outcome := \<lambda>_. Done\<rparr>) = (u, d2, True) \<and> v_log_start u = v_log_end u \<and>
    v_used_blocks u = v_used_blocks v \<and>
    (\<forall>b. home_block v b \<longrightarrow> block_content v d2 b = applied (j_entries j) (block_content v d) b)"
proof -
  let ?es = "j_entries j" and ?so = "sort_entries v (j_entries j)" and ?first = "v_log_end v"
  let ?fin = "(Suc ?first + length ?es) mod log_length v" and ?d = "d'\<lparr>dev_outcome := \<lambda>_. Done\<rparr>"
  have ready: "log_ok v" "v_write v" "?first < log_length v" "targets_ok v ?es"
    using assms(1) by (auto simp: txn_ready_def)
  have so: "targets_ok v ?so" "length ?so = length ?es" "applied ?so = applied ?es"
    using ready(4) targets_ok_sort sort_entries_facts(1) applied_sort by auto
  have pos: "log_after v (log_next v ?first) ?so = ?fin"
    using log_next_eq [OF ready(1), of ?first] log_after_eq [OF ready(1), of "Suc ?first" ?so] ready(3) so(2)
    by simp
  have "?fin < log_length v" using ready(3) by (intro mod_less_divisor) simp
  note sb = committed_superblock [OF assms(1,4) this]
  obtain u d2 where m: "mount v0 j0 ?d = (u, d2, True)" "v_log_start u = v_log_end u"
    "v_used_blocks u = unat (le64 (super_sector ?d) sb_kUsedBlocks)"
    "\<forall>b. plain_block v b \<longrightarrow> block_content v d2 b = applied ?so (block_content v ?d) b"
    using mount_dirty [OF ready(1,2) _ _ so(1), of ?d ?first v0 j0] assms(2,3,5,6) sb pos so(2) ready(3)
    by (auto simp: log_holds_def)
  have "block_content v d2 b = applied ?es (block_content v d) b" if "home_block v b" for b
    using m(4) that so(3) applied_other [of ?es "home_block v" "block_content v d'" "block_content v d" b]
      assms(7) by (auto simp: home_block_def)
  then show ?thesis using m assms(5) sb(4) pos by auto
qed

text \<open>Past the commit point everything is recovered, whatever happened to the homes.\<close>

lemma after_commit_point:
  assumes "txn_ready v j d" and "entry_fits v (length (j_entries j))"
    and "length (j_entries j) + 1 < log_length v" and "w = v \<or> w = clear_cache v"
  defines "so \<equiv> sort_entries v (j_entries j)" and "first \<equiv> v_log_end v"
  assumes "store_all (write_at v) d ((log_at v first, run_array v (vol_block_size v) so) #
      log_slots v (log_next v first) so) = (d1, True)"
    and "super_sector d' = v_superblock (set_flags kDirty (set_log_end (log_after v (log_next v first) so) w))"
    and "\<And>b. plain_block v b \<Longrightarrow> b \<notin> fst ` set (j_entries j) \<Longrightarrow> block_content v d' b = block_content v d1 b"
  shows "\<exists>u d2. mount v0 j0 (d'\<lparr>dev_outcome := \<lambda>_. Done\<rparr>) = (u, d2, True) \<and> v_log_start u = v_log_end u \<and>
    v_used_blocks u = v_used_blocks v \<and>
    (\<forall>b. home_block v b \<longrightarrow> block_content v d2 b = applied (j_entries j) (block_content v d) b)"
proof (rule mount_committed [OF assms(1-4)])
  have ready: "log_ok v" "first < log_length v" "targets_ok v (j_entries j)"
    using assms(1) by (auto simp: txn_ready_def first_def)
  have so: "targets_ok v so" "length so = length (j_entries j)"
    using ready(3) targets_ok_sort sort_entries_facts(1) by (auto simp: so_def)
  have "log_holds v d1 first so"
    using log_written [OF ready(1,2) so(1) _ _ assms(7)] assms(2,3) so(2) by simp
  moreover have "block_content v d' (log_at v p) = block_content v d1 (log_at v p)" if "p < log_length v" for p
    using assms(9) [OF log_at_eq(2) [OF ready(1) that] log_not_target [OF ready(1,3) that]] .
  ultimately show "log_holds v d' (v_log_end v) (sort_entries v (j_entries j))"
    using log_kept [OF ready(1,2)] by (simp add: first_def so_def)
  show "super_sector d' = v_superblock (set_flags kDirty (set_log_end
      (log_after v (log_next v (v_log_end v)) (sort_entries v (j_entries j))) w))"
    using assms(8) by (simp add: first_def so_def)
  show "block_content v d' b = block_content v d b" if "home_block v b" "b \<notin> fst ` set (j_entries j)" for b
  proof -
    have "block_content v d1 b = block_content v d b"
      using bs.store_all_other [OF _ _ home_not_log [OF ready(1,2) that(1)] assms(7)]
        log_entry_plain [OF ready(1,2)] that(1) unfolding home_block_def by blast
    then show ?thesis using assms(9) that by (simp add: home_block_def)
  qed
qed

lemma retired_superblock:
  assumes "txn_ready v j d" and "w = v \<or> w = clear_cache v"
    and "w' = set_flags kDirty (set_log_end n w) \<or> w' = clear_cache (set_flags kDirty (set_log_end n w))"
  defines "s \<equiv> v_superblock (set_flags kClean (set_log_start n w'))"
  shows "sb_geom s v" "le64 s sb_kLogStart = le64 s sb_kLogEnd"
    "unat (le64 s sb_kUsedBlocks) = v_used_blocks v" "length s = kSuperblockBytes"
proof -
  have g: "sb_geom (v_superblock v) v" using assms(1) by (simp add: txn_ready_def)
  then have len: "length (v_superblock v) = 512" by (simp add: sb_geom_def kSuperblockBytes_def)
  let ?a = "put_le32 (put_le64 (v_superblock v) sb_kLogEnd (of_nat n)) sb_kFlags kDirty"
  have s: "s = put_le32 (put_le64 ?a sb_kLogStart (of_nat n)) sb_kFlags kClean"
    using assms(2,3) by (auto simp: s_def set_flags_def set_log_end_def set_log_start_def)
  have la: "length (put_le64 (v_superblock v) sb_kLogEnd (of_nat n)) = 512" "length ?a = 512"
    "length (put_le64 ?a sb_kLogStart (of_nat n)) = 512"
    using len by (simp_all add: sb_offsets)
  show "sb_geom s v" using g len la by (simp add: s kSuperblockBytes_def)
  then show "length s = kSuperblockBytes" by (simp add: sb_geom_def)
  show "le64 s sb_kLogStart = le64 s sb_kLogEnd" "unat (le64 s sb_kUsedBlocks) = v_used_blocks v"
    using assms(1) len la
    by (simp_all add: s sb_offsets le_put32_far le_put_far le_put_same txn_ready_def)
qed

lemma checkpoint_retired:
  assumes "txn_ready v j d" and "w = v \<or> w = clear_cache v"
    and "w' = set_flags kDirty (set_log_end n w) \<or> w' = clear_cache (set_flags kDirty (set_log_end n w))"
    and "super_sector d' = v_superblock (set_flags kClean (set_log_start n w'))"
    and "\<And>b. plain_block v b \<Longrightarrow> block_content v d' b = block_content v d3 b"
    and "store_all (write_at v) d2 (j_entries j) = (d3, True)"
    and "\<And>b. home_block v b \<Longrightarrow> block_content v d2 b = block_content v d b"
  shows "\<exists>u d4. mount v0 j0 (d'\<lparr>dev_outcome := \<lambda>_. Done\<rparr>) = (u, d4, True) \<and> v_log_start u = v_log_end u \<and>
    v_used_blocks u = v_used_blocks v \<and>
    (\<forall>b. home_block v b \<longrightarrow> block_content v d4 b = applied (j_entries j) (block_content v d) b)"
proof -
  let ?es = "j_entries j" and ?d = "d'\<lparr>dev_outcome := \<lambda>_. Done\<rparr>"
  have ready: "log_ok v" "v_write v" "targets_ok v ?es" using assms(1) by (auto simp: txn_ready_def)
  note sb = retired_superblock [OF assms(1-3)]
  have pl: "\<forall>e\<in>set ?es. plain_block v (fst e)" "\<forall>e\<in>set ?es. plain_block v (fst e) \<and> length (snd e) = vol_block_size v"
    "distinct (map fst ?es)"
    using ready(3) by (auto simp: targets_ok_def)
  have "block_content v d3 b = applied ?es (block_content v d) b" if h: "home_block v b" for b
  proof (cases "map_of ?es b")
    case None
    then have "b \<notin> fst ` set ?es" by (simp add: map_of_eq_None_iff)
    then show ?thesis
      using bs.store_all_other [OF pl(1) _ _ assms(6)] assms(7) h None by (simp add: home_block_def applied_def)
  next
    case (Some x)
    then show ?thesis
      using bs.store_all_done [OF pl(2,3) assms(6) map_of_SomeD [OF Some]] by (simp add: applied_def)
  qed
  then have home: "block_content v ?d b = applied ?es (block_content v d) b" if "home_block v b" for b
    using assms(5) that by (simp add: home_block_def)
  obtain u d4 where m: "mount v0 j0 ?d = (u, d4, True)" "v_log_start u = v_log_end u"
    "v_used_blocks u = unat (le64 (super_sector ?d) sb_kUsedBlocks)" "block_content v d4 = block_content v ?d"
    using mount_clean [OF ready(1,2), of ?d v0 j0] sb(1,2) assms(4) by auto
  then show ?thesis using home sb(3) assms(4) by auto
qed

lemma entry_room:
  assumes "txn_ready v j d" and "length (j_entries j) + 1 < log_length v"
    and "\<not> of_nat (length (j_entries j)) > max_runs (of_nat (vol_block_size v)) - 1"
  shows "entry_fits v (length (j_entries j))"
  using assms log_length_bound [of v] by (simp add: entry_fits_def txn_ready_def)

lemma commit_position:
  assumes "txn_ready v j d"
  shows "log_after v (log_next v (v_log_end v)) es < log_length v"
proof -
  have "log_ok v" "v_log_end v < log_length v" using assms by (auto simp: txn_ready_def)
  then have "log_after v (log_next v (v_log_end v)) es = (Suc (v_log_end v) + length es) mod log_length v"
    using log_next_eq [of v "v_log_end v"] log_after_eq [of v "Suc (v_log_end v)" es] by simp
  also have "\<dots> < log_length v" using \<open>v_log_end v < log_length v\<close> by (intro mod_less_divisor) simp
  finally show ?thesis .
qed

lemma crash_outcomes:
  assumes "txn_ready v j d" and "length (j_entries j) + 1 < log_length v"
    and "commit v j d = (v', j', d', ok)"
  shows "(\<not> ok \<and> super_sector d' = super_sector d \<and>
      (\<forall>b. home_block v b \<longrightarrow> block_content v d' b = block_content v d b)) \<or>
    (\<exists>u d2. mount v0 j0 (d'\<lparr>dev_outcome := \<lambda>_. Done\<rparr>) = (u, d2, True) \<and> v_log_start u = v_log_end u \<and>
      v_used_blocks u = v_used_blocks v \<and>
      (\<forall>b. home_block v b \<longrightarrow> block_content v d2 b = applied (j_entries j) (block_content v d) b))"
    (is "?old \<or> ?new")
proof -
  let ?es = "j_entries j" and ?so = "sort_entries v (j_entries j)" and ?first = "v_log_end v"
  let ?entry = "(log_at v ?first, run_array v (vol_block_size v) ?so) # log_slots v (log_next v ?first) ?so"
  let ?pos = "log_after v (log_next v ?first) ?so"
  have ready: "log_ok v" "?first < log_length v" "targets_ok v ?es"
    using assms(1) by (auto simp: txn_ready_def)
  have pl: "\<forall>e\<in>set ?entry. plain_block v (fst e)" "\<forall>e\<in>set ?es. plain_block v (fst e)"
    using log_entry_plain [OF ready(1,2)] ready(3) by (blast, simp add: targets_ok_def)
  have kept: "block_content v d1 b = block_content v d b"
    if "store_all (write_at v) d ?entry = (d1, k)" "home_block v b" for d1 k b
    using bs.store_all_other [OF pl(1) _ home_not_log [OF ready(1,2) that(2)] that(1)] that(2)
    by (simp add: home_block_def)
  note fit = entry_room [OF assms(1,2)] and sb = committed_superblock(5) [OF assms(1) _ commit_position [OF assms(1)]]
  show ?thesis
    using assms(1,3)
  proof (cases rule: commit_stages)
    case refused
    then show ?thesis by auto
  next
    case log
    then show ?thesis using bs.store_all_super [OF pl(1) log(1)] kept [OF log(1)] by auto
  next
    case (super1 d1 w)
    note ws = write_superblock_cases [OF super1(5) sb [OF super1(4)]]
    show ?thesis
    proof (cases "super_sector d' = v_superblock (set_flags kDirty (set_log_end ?pos w))")
      case True
      have ?new by (rule after_commit_point [OF assms(1) fit [OF super1(1)] assms(2) super1(4,2) True]) (use ws(2) in auto)
      then show ?thesis by blast
    next
      case False
      then have "super_sector d' = super_sector d"
        using ws(1) bs.store_all_super [OF pl(1) super1(2)] by simp
      moreover have "block_content v d' b = block_content v d b" if "home_block v b" for b
        using ws(2) [of v b] kept [OF super1(2) that] that by (simp add: home_block_def)
      ultimately show ?thesis using super1(3) by blast
    qed
  next
    case (homes d1 d2 w)
    note ws = write_superblock_cases [OF homes(5) sb [OF homes(4)]]
    have sup: "super_sector d' = v_superblock (set_flags kDirty (set_log_end ?pos w))"
      using ws(1) bs.store_all_super [OF pl(2) homes(6)] by simp
    have ?new
      by (rule after_commit_point [OF assms(1) fit [OF homes(1)] assms(2) homes(4,2) sup])
        (use ws(2) bs.store_all_other [OF pl(2) _ _ homes(6)] in auto)
    then show ?thesis by blast
  next
    case (super2 d1 d2 d3 w w')
    note ws = write_superblock_cases [OF super2(4) sb [OF super2(3)]]
    note ws' = write_superblock_cases [OF super2(8) retired_superblock(4) [OF assms(1) super2(3,6)]]
    have ?new
    proof (cases "super_sector d' = v_superblock (set_flags kClean (set_log_start ?pos w'))")
      case True
      have "block_content v d2 b = block_content v d b" if "home_block v b" for b
        using ws(2) [of v b] kept [OF super2(2) that] that by (simp add: home_block_def)
      note old = this
      show ?thesis
        by (rule checkpoint_retired [OF assms(1) super2(3,6) True ws'(2) super2(5) old])
    next
      case False
      then have sup: "super_sector d' = v_superblock (set_flags kDirty (set_log_end ?pos w))"
        using ws'(1) ws(1) bs.store_all_super [OF pl(2) super2(5)] by simp
      show ?thesis
        by (rule after_commit_point [OF assms(1) fit [OF super2(1)] assms(2) super2(3,2) sup])
          (use ws(2) ws'(2) bs.store_all_other [OF pl(2) _ _ super2(5)] in auto)
    qed
    then show ?thesis by blast
  qed
qed

text \<open>
  C11. A commit is atomic against every failure of the device. The device may refuse or tear any
  request from any point on, which includes losing power there. Mounting what is left, on a device
  that works again, succeeds, finds a clean log, and shows the transaction's blocks either all old or all
  new, with the matching count of used blocks; when the commit reported success they are all new.
  The log must have a block to spare beyond the entry.
\<close>

theorem commit_crash_atomic:
  assumes "txn_ready v j d" and "length (j_entries j) + 1 < log_length v"
  shows "case commit v j d of (v', j', d', ok) \<Rightarrow>
    \<exists>u d2. mount v0 j0 (d'\<lparr>dev_outcome := \<lambda>_. Done\<rparr>) = (u, d2, True) \<and> v_log_start u = v_log_end u \<and>
      (\<not> ok \<and> v_used_blocks u = unat (le64 (super_sector d) sb_kUsedBlocks) \<and>
         (\<forall>b. home_block v b \<longrightarrow> block_content v d2 b = block_content v d b) \<or>
       v_used_blocks u = v_used_blocks v \<and>
         (\<forall>b. home_block v b \<longrightarrow> block_content v d2 b = applied (j_entries j) (block_content v d) b))"
proof -
  obtain v' j' d' ok where c: "commit v j d = (v', j', d', ok)" by (metis surj_pair)
  from crash_outcomes [OF assms c, of v0 j0] show ?thesis
  proof
    assume "\<not> ok \<and> super_sector d' = super_sector d \<and>
      (\<forall>b. home_block v b \<longrightarrow> block_content v d' b = block_content v d b)"
    then show ?thesis using mount_old [OF assms(1), of d' v0 j0] c by fastforce
  next
    assume "\<exists>u d2. mount v0 j0 (d'\<lparr>dev_outcome := \<lambda>_. Done\<rparr>) = (u, d2, True) \<and> v_log_start u = v_log_end u \<and>
      v_used_blocks u = v_used_blocks v \<and>
      (\<forall>b. home_block v b \<longrightarrow> block_content v d2 b = applied (j_entries j) (block_content v d) b)"
    then show ?thesis using c by auto
  qed
qed

text \<open>A volume of 64 blocks of 512 bytes in two groups, with a log of eight blocks from block 4.\<close>

definition sample_superblock :: "u8 list" where
  "sample_superblock =
     put_run (put_le32 (put_le32 (put_le32 (put_le32 (put_le32 (put_le64 (put_le64 (put_le32 (put_le32
       (put_le32 (put_le32 (put_le32 (replicate 512 0)
         sb_kMagic1 kMagic1) sb_kByteOrder kByteOrderLittleEndian) sb_kBlockSize 512) sb_kBlockShift 9)
         sb_kInodeSize 512) sb_kNumBlocks 64) sb_kUsedBlocks 12) sb_kMagic2 kMagic2) sb_kBlocksPerAg 1)
         sb_kAgShift 5) sb_kNumAgs 2) sb_kMagic3 kMagic3) sb_kLog (run_make 0 4 8)"

definition sample_volume :: volume where
  "sample_volume =
     \<lparr>v_write = True, v_discard = False, v_block_shift = 9, v_max_sectors = 8, v_ag_shift = 5,
      v_num_ags = 2, v_blocks_per_ag = 1, v_num_blocks = 64, v_used_blocks = 12, v_root = run_make 0 20 1,
      v_indices = run_make 0 0 0, v_log = run_make 0 4 8, v_log_start = 0, v_log_end = 0, v_valid = True,
      v_name = [], v_superblock = sample_superblock, v_cache = (\<lambda>_. None)\<rparr>"

definition sample_journal :: journal where
  "sample_journal =
     \<lparr>j_block_size = 512, j_active = True, j_entries = [(40, replicate 512 7), (21, replicate 512 9)],
      j_snapshot_valid = True, j_committed = False, j_superblock = sample_superblock\<rparr>"

text \<open>A device on which power fails inside the request number \<open>n\<close>.\<close>

definition sample_device :: "nat \<Rightarrow> device" where
  "sample_device n =
     \<lparr>dev_sectors = (\<lambda>s. if s = 1 then sample_superblock else replicate 512 0),
      dev_outcome = (\<lambda>k. if k < n then Done else Refused 0), dev_clock = 0\<rparr>"

lemma sample_superblock_facts:
  "length sample_superblock = 512"
  "le32 sample_superblock sb_kMagic1 = kMagic1" "le32 sample_superblock sb_kByteOrder = kByteOrderLittleEndian"
  "le32 sample_superblock sb_kBlockSize = 512" "le32 sample_superblock sb_kBlockShift = 9"
  "le32 sample_superblock sb_kInodeSize = 512" "le64 sample_superblock sb_kNumBlocks = 64"
  "le64 sample_superblock sb_kUsedBlocks = 12" "le32 sample_superblock sb_kMagic2 = kMagic2"
  "le32 sample_superblock sb_kBlocksPerAg = 1" "le32 sample_superblock sb_kAgShift = 5"
  "le32 sample_superblock sb_kNumAgs = 2" "le32 sample_superblock sb_kMagic3 = kMagic3"
  "le_run sample_superblock sb_kLog = run_make 0 4 8"
  "le64 sample_superblock sb_kLogStart = 0" "le64 sample_superblock sb_kLogEnd = 0"
proof -
  have zero: "le64 (replicate 512 0) at = 0" if "at + 8 \<le> 512" for at
    using that by (simp add: le64_def bslice_def le_nat_zeros)
  note facts = length_put_eq [where n = 512] le_run_put_run le_put_same le_put_far le_put32_far le_put_run_far
  show "length sample_superblock = 512"
    unfolding sample_superblock_def sb_offsets by (simp add: length_put_eq [where n = 512] del: length_put length_put_run)
  show "le32 sample_superblock sb_kMagic1 = kMagic1" "le32 sample_superblock sb_kByteOrder = kByteOrderLittleEndian"
    "le32 sample_superblock sb_kBlockSize = 512" "le32 sample_superblock sb_kBlockShift = 9"
    "le32 sample_superblock sb_kInodeSize = 512" "le64 sample_superblock sb_kNumBlocks = 64"
    "le64 sample_superblock sb_kUsedBlocks = 12" "le32 sample_superblock sb_kMagic2 = kMagic2"
    "le32 sample_superblock sb_kBlocksPerAg = 1" "le32 sample_superblock sb_kAgShift = 5"
    "le32 sample_superblock sb_kNumAgs = 2" "le32 sample_superblock sb_kMagic3 = kMagic3"
    "le_run sample_superblock sb_kLog = run_make 0 4 8"
    "le64 sample_superblock sb_kLogStart = 0" "le64 sample_superblock sb_kLogEnd = 0"
    unfolding sample_superblock_def sb_offsets by (simp_all add: facts zero del: length_put length_put_run)
qed

lemma sample_geom: "vol_geom sample_volume" "sb_geom sample_superblock sample_volume"
proof -
  show "vol_geom sample_volume"
    by (simp add: vol_geom_def sample_volume_def block_sectors_def vol_block_size_def kSectorBytes_def)
  show "sb_geom sample_superblock sample_volume"
    by (simp add: sb_geom_def superblock_ok_def sample_superblock_facts sample_volume_def Let_def
        kSuperblockBytes_def kMaxBlockSize_def drop_bit_eq_div push_bit_eq_mult)
qed

lemma sample_plain: "plain_block sample_volume b \<longleftrightarrow> b < 64 \<and> b \<noteq> 1"
  using sample_geom(1)
  by (simp add: plain_block_def sample_volume_def block_sectors_def vol_block_size_def kSectorBytes_def)

lemma sample_log: "to_block sample_volume (v_log sample_volume) = 4" "log_length sample_volume = 8"
  by (simp_all add: to_block_def sample_volume_def run_make_def wrap64_def log_length_def push_bit_eq_mult)

lemma sample_ready: "txn_ready sample_volume sample_journal (sample_device n)"
proof -
  have "log_ok sample_volume"
    using sample_geom(1) by (auto simp: log_ok_def sample_plain sample_log)
  moreover have "targets_ok sample_volume (j_entries sample_journal)"
    by (simp add: targets_ok_def sample_plain sample_log sample_journal_def)
      (simp add: sample_volume_def vol_block_size_def)
  moreover have "super_sector (sample_device n) = sample_superblock" "v_superblock sample_volume = sample_superblock"
    by (simp_all add: super_sector_def sample_device_def sample_volume_def)
  moreover have "v_write sample_volume" "v_log_start sample_volume = 0" "v_log_end sample_volume = 0"
    "v_used_blocks sample_volume = 12" "j_active sample_journal" "j_entries sample_journal \<noteq> []"
    "j_block_size sample_journal = vol_block_size sample_volume"
    by (simp_all add: sample_volume_def sample_journal_def vol_block_size_def)
  ultimately show ?thesis
    using sample_geom(2) by (simp add: txn_ready_def sample_superblock_facts sample_log)
qed

theorem commit_crash_atomic_witness:
  "txn_ready sample_volume sample_journal (sample_device 4) \<and>
   length (j_entries sample_journal) + 1 < log_length sample_volume \<and>
   (case commit sample_volume sample_journal (sample_device 4) of (v', j', d', ok) \<Rightarrow>
     \<exists>u d2. mount sample_volume sample_journal (d'\<lparr>dev_outcome := \<lambda>_. Done\<rparr>) = (u, d2, True))"
proof -
  have r: "length (j_entries sample_journal) + 1 < log_length sample_volume"
    by (simp add: sample_journal_def sample_log)
  then show ?thesis
    using sample_ready [of 4] commit_crash_atomic [OF sample_ready r, of sample_volume sample_journal 4]
    by (auto simp: case_prod_beta)
qed

end
