(* ===== verification/Bfs_Tree.thy ===== *)
theory Bfs_Tree
  imports Bfs_Layout
begin

text \<open>
  The nodes of BFS B+trees, \<^verbatim>\<open>src/libs/freestanding/aegir-bfs/src/bplustree.cc\<close>: the tree header, the
  order of keys, searching, inserting into and removing from the packed bytes of a node, and the
  arrays of duplicate values. A node is shown to be a sorted map: the operations on its bytes refine
  those on an association list of keys and values.

  Sizes and offsets are natural numbers: a node has at most \<^verbatim>\<open>kMaxBlockSize\<close> bytes and its counters 16
  bits, so the 32-bit sums of the source cannot wrap. The 16-bit cumulative key lengths are words.
\<close>

section \<open>Constants\<close>

definition kTreeMagic :: u32 where "kTreeMagic = 0x69f6c2e8"
definition kTreeStringType :: u32 where "kTreeStringType = 0"
definition kTreeInt32Type :: u32 where "kTreeInt32Type = 1"
definition kTreeUInt32Type :: u32 where "kTreeUInt32Type = 2"
definition kTreeInt64Type :: u32 where "kTreeInt64Type = 3"
definition kTreeUInt64Type :: u32 where "kTreeUInt64Type = 4"
definition kNumDuplicateValues :: nat where "kNumDuplicateValues = 125"
definition kMaxName :: nat where "kMaxName = 255"
definition kMaxKeyLength :: nat where "kMaxKeyLength = 256"
definition kNullLink :: u64 where "kNullLink = - 1"
definition kFreeLink :: u64 where "kFreeLink = - 2"

definition th_kMagic :: nat where "th_kMagic = 0"
definition th_kNodeSize :: nat where "th_kNodeSize = 4"
definition th_kMaxLevels :: nat where "th_kMaxLevels = 8"
definition th_kDataType :: nat where "th_kDataType = 12"
definition th_kRootNode :: nat where "th_kRootNode = 16"
definition th_kFreeNode :: nat where "th_kFreeNode = 24"
definition th_kMaximumSize :: nat where "th_kMaximumSize = 32"
definition th_kBytes :: nat where "th_kBytes = 40"

lemmas th_offsets = th_kMagic_def th_kNodeSize_def th_kMaxLevels_def th_kDataType_def th_kRootNode_def
  th_kFreeNode_def th_kMaximumSize_def th_kBytes_def

definition nd_kLeftLink :: nat where "nd_kLeftLink = 0"
definition nd_kRightLink :: nat where "nd_kRightLink = 8"
definition nd_kOverflowLink :: nat where "nd_kOverflowLink = 16"
definition nd_kKeyCount :: nat where "nd_kKeyCount = 24"
definition nd_kAllKeyLength :: nat where "nd_kAllKeyLength = 26"
definition nd_kFixed :: nat where "nd_kFixed = 28"

lemmas nd_offsets = nd_kLeftLink_def nd_kRightLink_def nd_kOverflowLink_def nd_kKeyCount_def
  nd_kAllKeyLength_def nd_kFixed_def

section \<open>The tree header\<close>

record tree_header =
  th_node_size :: u32
  th_max_levels :: u32
  th_data_type :: u32
  th_root :: u64
  th_free_node :: u64
  th_maximum :: u64

definition tree_header_parse :: "u8 list \<Rightarrow> tree_header option" where
  "tree_header_parse bytes =
     (if le32 bytes th_kMagic \<noteq> kTreeMagic then None
      else
        let out = \<lparr>th_node_size = le32 bytes th_kNodeSize, th_max_levels = le32 bytes th_kMaxLevels,
                   th_data_type = le32 bytes th_kDataType, th_root = le64 bytes th_kRootNode,
                   th_free_node = le64 bytes th_kFreeNode, th_maximum = le64 bytes th_kMaximumSize\<rparr>
        in if th_node_size out \<noteq> 0 \<and> unat (th_node_size out) \<le> kMaxBlockSize then Some out else None)"

definition tree_header_build :: "u8 list \<Rightarrow> tree_header \<Rightarrow> u8 list" where
  "tree_header_build bytes header =
     put_le64 (put_le64 (put_le64 (put_le32 (put_le32 (put_le32 (put_le32 bytes
       th_kMagic kTreeMagic) th_kNodeSize (th_node_size header)) th_kMaxLevels (th_max_levels header))
       th_kDataType (th_data_type header)) th_kRootNode (th_root header))
       th_kFreeNode (th_free_node header)) th_kMaximumSize (th_maximum header)"

section \<open>The order of keys\<close>

fun key_compare :: "u8 list \<Rightarrow> u8 list \<Rightarrow> int" where
  "key_compare [] [] = 0"
| "key_compare [] (y # ys) = -1"
| "key_compare (x # xs) [] = 1"
| "key_compare (x # xs) (y # ys) =
     (if x \<noteq> y then (if x < y then -1 else 1) else key_compare xs ys)"

definition order3 :: "'a::linorder \<Rightarrow> 'a \<Rightarrow> int" where
  "order3 x y = (if x < y then -1 else if x > y then 1 else 0)"

definition key_compare_typed :: "u32 \<Rightarrow> u8 list \<Rightarrow> u8 list \<Rightarrow> int" where
  "key_compare_typed data_type a b =
     (if data_type = kTreeInt32Type \<and> length a = 4 \<and> length b = 4 then
        order3 (sint (le32 a 0)) (sint (le32 b 0))
      else if data_type = kTreeUInt32Type \<and> length a = 4 \<and> length b = 4 then
        order3 (le32 a 0) (le32 b 0)
      else if data_type = kTreeInt64Type \<and> length a = 8 \<and> length b = 8 then
        order3 (sint (le64 a 0)) (sint (le64 b 0))
      else if data_type = kTreeUInt64Type \<and> length a = 8 \<and> length b = 8 then
        order3 (le64 a 0) (le64 b 0)
      else key_compare a b)"

section \<open>Searching a node\<close>

definition key_lengths_at :: "u8 list \<Rightarrow> nat" where
  "key_lengths_at node = unat (key_align (of_nat (nd_kFixed + unat (le16 node nd_kAllKeyLength))))"

text \<open>Where a key starts in the node, and its length.\<close>

definition key_at :: "u8 list \<Rightarrow> nat \<Rightarrow> nat \<Rightarrow> (nat \<times> nat) option" where
  "key_at node cnt index =
     (if index \<ge> cnt then None
      else
        let lengths = key_lengths_at node;
            fin = le16 node (lengths + index * 2);
            start = (if index = 0 then 0 else le16 node (lengths + (index - 1) * 2))
        in Some (nd_kFixed + unat start, unat (fin - start)))"

definition copy_key :: "u8 list \<Rightarrow> nat \<Rightarrow> u8 list \<Rightarrow> nat \<Rightarrow> nat \<Rightarrow> u8 list \<times> nat" where
  "copy_key dst at node cnt index =
     (case key_at node cnt index of
        None \<Rightarrow> (dst, at)
      | Some (key, len) \<Rightarrow> (bsplice at (bslice key len node) dst, at + len))"

record node_facts =
  ni_count :: nat
  ni_all_key_length :: nat
  ni_overflow :: u64
  ni_used :: nat

definition node_info :: "u8 list \<Rightarrow> nat \<Rightarrow> node_facts option" where
  "node_info node node_size =
     (if node_size < nd_kFixed then None
      else
        let cnt = unat (le16 node nd_kKeyCount);
            out = \<lparr>ni_count = cnt, ni_all_key_length = unat (le16 node nd_kAllKeyLength),
                   ni_overflow = le64 node nd_kOverflowLink,
                   ni_used = key_lengths_at node + cnt * (2 + 8)\<rparr>
        in if ni_used out \<le> node_size then Some out else None)"

definition values_at :: "u8 list \<Rightarrow> nat \<Rightarrow> nat" where
  "values_at node cnt = key_lengths_at node + cnt * 2"

definition node_value :: "u8 list \<Rightarrow> nat \<Rightarrow> nat \<Rightarrow> u64" where
  "node_value node cnt i = le64 node (values_at node cnt + i * 8)"

text \<open>
  How key \<open>i\<close> compares with \<open>name\<close>. The loops of the source leave when \<open>key_at\<close> refuses, which it
  never does for an index below the count.
\<close>

definition key_order :: "u8 list \<Rightarrow> nat \<Rightarrow> u32 \<Rightarrow> u8 list \<Rightarrow> nat \<Rightarrow> int option" where
  "key_order node cnt data_type name i =
     map_option (\<lambda>(key, len). key_compare_typed data_type (bslice key len node) name) (key_at node cnt i)"

fun node_find_from :: "u8 list \<Rightarrow> nat \<Rightarrow> u32 \<Rightarrow> u8 list \<Rightarrow> nat \<Rightarrow> nat \<Rightarrow> u64 option" where
  "node_find_from node cnt data_type name i 0 = None"
| "node_find_from node cnt data_type name i (Suc n) =
     (case key_order node cnt data_type name i of
        None \<Rightarrow> None
      | Some order \<Rightarrow>
          if order = 0 then Some (node_value node cnt i)
          else node_find_from node cnt data_type name (Suc i) n)"

definition node_find :: "u8 list \<Rightarrow> nat \<Rightarrow> u32 \<Rightarrow> u8 list \<Rightarrow> u64 option" where
  "node_find node node_size data_type name =
     (case node_info node node_size of
        None \<Rightarrow> None
      | Some info \<Rightarrow> node_find_from node (ni_count info) data_type name 0 (ni_count info))"

definition node_entry :: "u8 list \<Rightarrow> nat \<Rightarrow> nat \<Rightarrow> (u8 list \<times> u64) option" where
  "node_entry node node_size index =
     (case node_info node node_size of
        None \<Rightarrow> None
      | Some info \<Rightarrow>
          if index \<ge> ni_count info then None
          else
            (case key_at node (ni_count info) index of
               None \<Rightarrow> None
             | Some (key, len) \<Rightarrow>
                 if len > kMaxName then None
                 else Some (bslice key len node, node_value node (ni_count info) index)))"

section \<open>Inserting\<close>

text \<open>The first entry not less than \<open>name\<close>, and whether it is \<open>name\<close>; the count when there is none.\<close>

fun insert_at :: "u8 list \<Rightarrow> nat \<Rightarrow> u32 \<Rightarrow> u8 list \<Rightarrow> nat \<Rightarrow> nat \<Rightarrow> (nat \<times> bool) option" where
  "insert_at node cnt data_type name i 0 = Some (i, False)"
| "insert_at node cnt data_type name i (Suc n) =
     (case key_order node cnt data_type name i of
        None \<Rightarrow> None
      | Some order \<Rightarrow>
          if order \<ge> 0 then Some (i, order = 0)
          else insert_at node cnt data_type name (Suc i) n)"

text \<open>Copying the keys from index \<open>i\<close> on, \<open>n\<close> of them.\<close>

fun copy_keys :: "u8 list \<Rightarrow> nat \<Rightarrow> u8 list \<Rightarrow> nat \<Rightarrow> nat \<Rightarrow> nat \<Rightarrow> u8 list \<times> nat" where
  "copy_keys dst at node cnt i 0 = (dst, at)"
| "copy_keys dst at node cnt i (Suc n) =
     (case copy_key dst at node cnt i of (dst', at') \<Rightarrow> copy_keys dst' at' node cnt (Suc i) n)"

text \<open>The links, the count and the length of the keys, in a zeroed node.\<close>

definition node_frame :: "nat \<Rightarrow> u8 list \<Rightarrow> u16 \<Rightarrow> u16 \<Rightarrow> u8 list" where
  "node_frame node_size node cnt all =
     put_le16 (put_le16 (put_le64 (put_le64 (put_le64 (replicate node_size 0)
       nd_kLeftLink (le64 node nd_kLeftLink)) nd_kRightLink (le64 node nd_kRightLink))
       nd_kOverflowLink (le64 node nd_kOverflowLink)) nd_kKeyCount cnt) nd_kAllKeyLength all"

text \<open>The loop over the new entries, the one inserted among the old.\<close>

fun insert_fill ::
  "u8 list \<Rightarrow> nat \<Rightarrow> nat \<Rightarrow> nat \<Rightarrow> nat \<Rightarrow> nat \<Rightarrow> u64 \<Rightarrow> u8 list \<Rightarrow> nat \<Rightarrow> nat \<Rightarrow> u16 \<Rightarrow> nat \<Rightarrow> u8 list option" where
  "insert_fill node cnt lengths vals at_index len val work i inserted cumulative 0 = Some work"
| "insert_fill node cnt lengths vals at_index len val work i inserted cumulative (Suc n) =
     (if i = at_index then
        let c = cumulative + of_nat len
        in insert_fill node cnt lengths vals at_index len val
             (put_le64 (put_le16 work (lengths + i * 2) c) (vals + i * 8) val) (Suc i) (Suc inserted) c n
      else
        (case key_at node cnt (i - inserted) of
           None \<Rightarrow> None
         | Some (key, key_length) \<Rightarrow>
             let c = cumulative + of_nat key_length
             in insert_fill node cnt lengths vals at_index len val
                  (put_le64 (put_le16 work (lengths + i * 2) c) (vals + i * 8)
                     (node_value node cnt (i - inserted)))
                  (Suc i) inserted c n))"

text \<open>The rebuilt node and \<^verbatim>\<open>existed\<close>; \<open>None\<close> is the refusal.\<close>

definition node_insert :: "nat \<Rightarrow> u32 \<Rightarrow> u8 list \<Rightarrow> u8 list \<Rightarrow> u64 \<Rightarrow> (u8 list \<times> bool) option" where
  "node_insert node_size data_type node name val =
     (if length name = 0 \<or> length name > kMaxKeyLength then None
      else
        (case node_info node node_size of
           None \<Rightarrow> None
         | Some info \<Rightarrow>
             let cnt = ni_count info
             in (case insert_at node cnt data_type name 0 cnt of
                   None \<Rightarrow> None
                 | Some (at_index, True) \<Rightarrow>
                     Some (put_le64 (take node_size node) (values_at node cnt + at_index * 8) val, True)
                 | Some (at_index, False) \<Rightarrow>
                     let new_all = ni_all_key_length info + length name;
                         lengths = unat (key_align (of_nat (nd_kFixed + new_all)));
                         new_used = lengths + (cnt + 1) * (2 + 8)
                     in if new_used > node_size then None
                        else
                          let work = node_frame node_size node (of_nat (cnt + 1)) (of_nat new_all);
                              (work1, at1) = copy_keys work nd_kFixed node cnt 0 at_index;
                              work2 = bsplice at1 name work1;
                              (work3, at3) = copy_keys work2 (at1 + length name) node cnt at_index (cnt - at_index)
                          in map_option (\<lambda>w. (w, False))
                               (insert_fill node cnt lengths (lengths + (cnt + 1) * 2) at_index (length name) val
                                  work3 0 0 0 (cnt + 1)))))"

section \<open>Removing\<close>

fun remove_at :: "u8 list \<Rightarrow> nat \<Rightarrow> u32 \<Rightarrow> u8 list \<Rightarrow> nat \<Rightarrow> nat \<Rightarrow> (nat \<times> nat) option" where
  "remove_at node cnt data_type name i 0 = Some (cnt, 0)"
| "remove_at node cnt data_type name i (Suc n) =
     (case key_at node cnt i of
        None \<Rightarrow> None
      | Some (key, len) \<Rightarrow>
          if key_compare_typed data_type (bslice key len node) name = 0 then Some (i, len)
          else remove_at node cnt data_type name (Suc i) n)"

fun remove_copy :: "u8 list \<Rightarrow> nat \<Rightarrow> u8 list \<Rightarrow> nat \<Rightarrow> nat \<Rightarrow> nat \<Rightarrow> nat \<Rightarrow> u8 list \<times> nat" where
  "remove_copy dst at node cnt found i 0 = (dst, at)"
| "remove_copy dst at node cnt found i (Suc n) =
     (if i = found then remove_copy dst at node cnt found (Suc i) n
      else (case copy_key dst at node cnt i of (dst', at') \<Rightarrow> remove_copy dst' at' node cnt found (Suc i) n))"

fun remove_fill ::
  "u8 list \<Rightarrow> nat \<Rightarrow> nat \<Rightarrow> nat \<Rightarrow> nat \<Rightarrow> u8 list \<Rightarrow> nat \<Rightarrow> nat \<Rightarrow> u16 \<Rightarrow> nat \<Rightarrow> u8 list option" where
  "remove_fill node cnt lengths vals found work i out cumulative 0 = Some work"
| "remove_fill node cnt lengths vals found work i out cumulative (Suc n) =
     (if i = found then remove_fill node cnt lengths vals found work (Suc i) out cumulative n
      else
        (case key_at node cnt i of
           None \<Rightarrow> None
         | Some (key, key_length) \<Rightarrow>
             let c = cumulative + of_nat key_length
             in remove_fill node cnt lengths vals found
                  (put_le64 (put_le16 work (lengths + out * 2) c) (vals + out * 8) (node_value node cnt i))
                  (Suc i) (Suc out) c n))"

text \<open>The rebuilt node and \<^verbatim>\<open>removed\<close>. The 32-bit difference of the key lengths wraps in a corrupt node.\<close>

definition node_remove :: "nat \<Rightarrow> u32 \<Rightarrow> u8 list \<Rightarrow> u8 list \<Rightarrow> (u8 list \<times> bool) option" where
  "node_remove node_size data_type node name =
     (case node_info node node_size of
        None \<Rightarrow> None
      | Some info \<Rightarrow>
          let cnt = ni_count info
          in (case remove_at node cnt data_type name 0 cnt of
                None \<Rightarrow> None
              | Some (found, remove_length) \<Rightarrow>
                  if found = cnt then Some (take node_size node, False)
                  else
                    let new_all = (of_nat (ni_all_key_length info) - of_nat remove_length :: u32);
                        work = node_frame node_size node (of_nat (cnt - 1)) (ucast new_all);
                        (work1, at1) = remove_copy work nd_kFixed node cnt found 0 cnt;
                        lengths = unat (key_align (of_nat nd_kFixed + new_all))
                    in map_option (\<lambda>w. (w, True))
                         (remove_fill node cnt lengths (lengths + (cnt - 1) * 2) found work1 0 0 0 cnt)))"

definition node_set_value :: "nat \<Rightarrow> u8 list \<Rightarrow> nat \<Rightarrow> u64 \<Rightarrow> u8 list option" where
  "node_set_value node_size node index val =
     (case node_info node node_size of
        None \<Rightarrow> None
      | Some info \<Rightarrow>
          if index \<ge> ni_count info then None
          else Some (put_le64 (take node_size node) (values_at node (ni_count info) + index * 8) val))"

section \<open>Duplicate arrays\<close>

definition duplicate_capacity :: "nat \<Rightarrow> nat" where
  "duplicate_capacity node_size =
     (let base = nd_kOverflowLink + 8
      in if node_size \<le> base then 0
         else let fits = (node_size - base) div 8 in if fits < kNumDuplicateValues then fits else kNumDuplicateValues)"

text \<open>The stored count is cut to 32 bits before it is clamped.\<close>

definition duplicate_count :: "u8 list \<Rightarrow> nat \<Rightarrow> nat" where
  "duplicate_count node node_size =
     (let capacity = duplicate_capacity node_size;
          counted = unat (ucast (le64 node nd_kOverflowLink) :: u32)
      in if counted < capacity then counted else capacity)"

definition duplicate_value :: "u8 list \<Rightarrow> nat \<Rightarrow> nat \<Rightarrow> u64 option" where
  "duplicate_value node node_size index =
     (if index \<ge> duplicate_count node node_size then None
      else Some (le64 node (nd_kOverflowLink + 8 + index * 8)))"

fun put_values :: "u8 list \<Rightarrow> nat \<Rightarrow> u64 list \<Rightarrow> u8 list" where
  "put_values node i [] = node"
| "put_values node i (v # vs) = put_values (put_le64 node (nd_kOverflowLink + 8 + i * 8) v) (Suc i) vs"

definition duplicate_build :: "nat \<Rightarrow> u64 \<Rightarrow> u64 \<Rightarrow> u64 list \<Rightarrow> u8 list" where
  "duplicate_build node_size left right vals =
     put_values
       (put_le64 (put_le64 (put_le64 (replicate node_size 0) nd_kLeftLink left) nd_kRightLink right)
          nd_kOverflowLink (of_nat (length vals)))
       0 vals"

section \<open>Maps kept as lists in ascending order\<close>

text \<open>
  What an ordered node promises, stated once for any order: replacing or inserting where the first
  key is not less keeps the keys ascending and updates the map, removing keeps both.
\<close>

fun upd_entries :: "('k \<Rightarrow> 'k \<Rightarrow> int) \<Rightarrow> 'k \<Rightarrow> 'v \<Rightarrow> ('k \<times> 'v) list \<Rightarrow> ('k \<times> 'v) list" where
  "upd_entries cmp k v [] = [(k, v)]"
| "upd_entries cmp k v (e # es) =
     (if cmp (fst e) k < 0 then e # upd_entries cmp k v es
      else if cmp (fst e) k = 0 then (fst e, v) # es else (k, v) # e # es)"

definition del_entries :: "'k \<Rightarrow> ('k \<times> 'v) list \<Rightarrow> ('k \<times> 'v) list" where
  "del_entries k es = filter (\<lambda>e. fst e \<noteq> k) es"

definition ascending :: "('k \<Rightarrow> 'k \<Rightarrow> int) \<Rightarrow> ('k \<times> 'v) list \<Rightarrow> bool" where
  "ascending cmp es = sorted_wrt (\<lambda>a b. cmp (fst a) (fst b) < 0) es"

locale ordered_keys =
  fixes cmp :: "'k \<Rightarrow> 'k \<Rightarrow> int" and good :: "'k \<Rightarrow> bool"
  assumes cmp_eq: "cmp a b = 0 \<longleftrightarrow> a = b"
    and cmp_swap: "cmp a b < 0 \<longleftrightarrow> cmp b a > 0"
    and cmp_trans: "good a \<Longrightarrow> good b \<Longrightarrow> good c \<Longrightarrow> cmp a b < 0 \<Longrightarrow> cmp b c < 0 \<Longrightarrow> cmp a c < 0"
begin

lemma set_upd: "fst ` set (upd_entries cmp k v es) = insert k (fst ` set es)"
  by (induction es) (auto simp: cmp_eq)

lemma ascending_upd:
  "ascending cmp es \<Longrightarrow> \<forall>e\<in>set es. good (fst e) \<Longrightarrow> good k \<Longrightarrow> ascending cmp (upd_entries cmp k v es)"
proof (induction es)
  case Nil
  then show ?case by (simp add: ascending_def)
next
  case (Cons e es)
  consider "cmp (fst e) k < 0" | "fst e = k" | "cmp k (fst e) < 0"
    using cmp_eq [of "fst e" k] cmp_swap [of k "fst e"] by linarith
  then show ?case
  proof cases
    case 1
    have "cmp (fst e) (fst x) < 0" if "x \<in> set (upd_entries cmp k v es)" for x
    proof -
      have "fst x = k \<or> fst x \<in> fst ` set es" using that set_upd by (metis image_eqI insertE)
      then show ?thesis using 1 Cons.prems(1) by (auto simp: ascending_def)
    qed
    then show ?thesis using 1 Cons by (simp add: ascending_def)
  next
    case 2
    then show ?thesis using Cons.prems(1) cmp_eq [of k k] by (simp add: ascending_def)
  next
    case 3
    moreover have "cmp k (fst x) < 0" if "x \<in> set es" for x
      using cmp_trans [of k "fst e" "fst x"] 3 that Cons.prems by (auto simp: ascending_def)
    ultimately show ?thesis using Cons.prems(1) cmp_swap [of k "fst e"] by (auto simp: ascending_def)
  qed
qed

lemma ascending_distinct: "ascending cmp es \<Longrightarrow> distinct (map fst es)"
proof (induction es)
  case (Cons e es)
  have "fst e \<notin> fst ` set es"
    using Cons.prems cmp_eq [of "fst e" "fst e"] by (fastforce simp: ascending_def)
  then show ?case using Cons by (simp add: ascending_def)
qed simp

lemma ascending_absent:
  assumes "ascending cmp (e # es)" and "\<forall>x\<in>set (e # es). good (fst x)" and "good k" and "cmp k (fst e) < 0"
  shows "k \<notin> fst ` set (e # es)"
proof
  assume "k \<in> fst ` set (e # es)"
  then obtain x where x: "x \<in> set (e # es)" "fst x = k" by (metis imageE)
  then have "cmp (fst e) k < 0 \<or> fst e = k" using assms(1) by (auto simp: ascending_def)
  then show False using assms(4) cmp_swap [of "fst e" k] cmp_eq [of k k] by auto
qed

lemma map_of_upd:
  "ascending cmp es \<Longrightarrow> \<forall>e\<in>set es. good (fst e) \<Longrightarrow> good k \<Longrightarrow>
   map_of (upd_entries cmp k v es) = (map_of es)(k \<mapsto> v)"
proof (induction es)
  case Nil
  then show ?case by auto
next
  case (Cons e es)
  obtain a b where e: "e = (a, b)" by fastforce
  have asc: "ascending cmp es" using Cons.prems(1) by (simp add: ascending_def)
  show ?case
    using Cons.IH [OF asc] Cons.prems(2,3) cmp_eq [of a k] cmp_eq [of k k] e
    by (auto simp: fun_eq_iff)
qed

lemma upd_length:
  "ascending cmp es \<Longrightarrow> \<forall>e\<in>set es. good (fst e) \<Longrightarrow> good k \<Longrightarrow>
   length (upd_entries cmp k v es) = (if k \<in> fst ` set es then length es else Suc (length es))"
proof (induction es)
  case Nil
  then show ?case by simp
next
  case (Cons e es)
  have asc: "ascending cmp es" using Cons.prems(1) by (simp add: ascending_def)
  have "k \<notin> fst ` set (e # es)" if "cmp k (fst e) < 0"
    using ascending_absent [OF Cons.prems(1,2,3) that] .
  then show ?case
    using Cons.IH [OF asc] Cons.prems(2,3) cmp_eq [of "fst e" k] cmp_swap [of k "fst e"] by auto
qed

lemma ascending_del: "ascending cmp es \<Longrightarrow> ascending cmp (del_entries k es)"
  by (simp add: ascending_def del_entries_def sorted_wrt_filter)

lemma map_of_del: "map_of (del_entries k es) = (map_of es)(k := None)"
  by (induction es) (auto simp: del_entries_def fun_eq_iff)

end

section \<open>The key order is such an order\<close>

text \<open>The keys a tree of the type holds: fixed width for the numbers, any bytes for the rest.\<close>

definition typed_key :: "u32 \<Rightarrow> u8 list \<Rightarrow> bool" where
  "typed_key data_type k \<longleftrightarrow>
     (data_type = kTreeInt32Type \<or> data_type = kTreeUInt32Type \<longrightarrow> length k = 4) \<and>
     (data_type = kTreeInt64Type \<or> data_type = kTreeUInt64Type \<longrightarrow> length k = 8)"

lemma key_compare_eq: "key_compare a b = 0 \<longleftrightarrow> a = b"
  by (induction a b rule: key_compare.induct) auto

lemma key_compare_swap: "key_compare a b < 0 \<longleftrightarrow> key_compare b a > 0"
  by (induction a b rule: key_compare.induct) (auto simp: not_less)

lemma key_compare_trans: "key_compare a b < 0 \<Longrightarrow> key_compare b c < 0 \<Longrightarrow> key_compare a c < 0"
proof (induction a b arbitrary: c rule: key_compare.induct)
  case (2 y ys)
  then show ?case by (cases c) auto
next
  case (4 x xs y ys)
  then show ?case by (cases c) (auto split: if_splits)
qed auto

lemma order3_facts:
  "order3 a b = 0 \<longleftrightarrow> a = b" "order3 a b < 0 \<longleftrightarrow> a < b" "order3 a b > 0 \<longleftrightarrow> b < a"
  by (auto simp: order3_def)

lemma sint_eq_iff: "sint a = sint b \<longleftrightarrow> a = b"
  by (auto intro: signed_word_eqI)

lemma le_word_inj:
  assumes "length a = length b"
  shows "length a = 4 \<Longrightarrow> le32 a 0 = le32 b 0 \<longleftrightarrow> a = b" and "length a = 8 \<Longrightarrow> le64 a 0 = le64 b 0 \<longleftrightarrow> a = b"
proof -
  have slice: "bslice 0 n x = x" if "length x = n" for x :: "u8 list" and n using that by (simp add: bslice_def)
  show "le32 a 0 = le32 b 0 \<longleftrightarrow> a = b" if "length a = 4"
    using le_nat_less [of a] le_nat_less [of b] le_nat_inj [OF assms] that assms
    by (auto simp: le32_def slice of_nat_inverse word_of_nat_eq_iff take_bit_eq_mod)
  show "le64 a 0 = le64 b 0 \<longleftrightarrow> a = b" if "length a = 8"
    using le_nat_less [of a] le_nat_less [of b] le_nat_inj [OF assms] that assms
    by (auto simp: le64_def slice of_nat_inverse word_of_nat_eq_iff take_bit_eq_mod)
qed

lemmas tree_types = kTreeInt32Type_def kTreeUInt32Type_def kTreeInt64Type_def kTreeUInt64Type_def

text \<open>The comparison is one of five, chosen by the type and the two lengths.\<close>

lemma key_compare_typed_cases:
  obtains (i32) "data_type = kTreeInt32Type" "length a = 4" "length b = 4"
      "key_compare_typed data_type a b = order3 (sint (le32 a 0)) (sint (le32 b 0))"
  | (u32) "data_type = kTreeUInt32Type" "length a = 4" "length b = 4"
      "key_compare_typed data_type a b = order3 (le32 a 0) (le32 b 0)"
  | (i64) "data_type = kTreeInt64Type" "length a = 8" "length b = 8"
      "key_compare_typed data_type a b = order3 (sint (le64 a 0)) (sint (le64 b 0))"
  | (u64) "data_type = kTreeUInt64Type" "length a = 8" "length b = 8"
      "key_compare_typed data_type a b = order3 (le64 a 0) (le64 b 0)"
  | (bytes) "\<not> (length a = 4 \<and> length b = 4 \<and> (data_type = kTreeInt32Type \<or> data_type = kTreeUInt32Type))"
      "\<not> (length a = 8 \<and> length b = 8 \<and> (data_type = kTreeInt64Type \<or> data_type = kTreeUInt64Type))"
      "key_compare_typed data_type a b = key_compare a b"
proof -
  let ?four = "length a = 4 \<and> length b = 4" and ?eight = "length a = 8 \<and> length b = 8"
  consider "data_type = kTreeInt32Type \<and> ?four" | "data_type = kTreeUInt32Type \<and> ?four"
    | "data_type = kTreeInt64Type \<and> ?eight" | "data_type = kTreeUInt64Type \<and> ?eight"
    | "\<not> (data_type = kTreeInt32Type \<and> ?four) \<and> \<not> (data_type = kTreeUInt32Type \<and> ?four) \<and>
       \<not> (data_type = kTreeInt64Type \<and> ?eight) \<and> \<not> (data_type = kTreeUInt64Type \<and> ?eight)"
    by blast
  then show ?thesis
  proof cases
    case 1
    then show ?thesis by (intro i32) (simp_all add: key_compare_typed_def)
  next
    case 2
    then show ?thesis by (intro u32) (simp_all add: key_compare_typed_def tree_types)
  next
    case 3
    then show ?thesis by (intro i64) (simp_all add: key_compare_typed_def tree_types)
  next
    case 4
    then show ?thesis by (intro u64) (simp_all add: key_compare_typed_def tree_types)
  next
    case 5
    then have "key_compare_typed data_type a b = key_compare a b"
      unfolding key_compare_typed_def by (simp only: if_False)
    then show ?thesis using 5 by (intro bytes) blast+
  qed
qed

lemma key_compare_typed_swap: "key_compare_typed data_type a b < 0 \<longleftrightarrow> key_compare_typed data_type b a > 0"
proof (cases rule: key_compare_typed_cases [of data_type a b])
  case bytes
  then have "key_compare_typed data_type b a = key_compare b a"
    by (cases rule: key_compare_typed_cases [of data_type b a]) auto
  then show ?thesis using bytes(3) by (simp add: key_compare_swap)
qed (simp_all add: key_compare_typed_def order3_facts tree_types)

lemma key_compare_typed_trans:
  assumes "typed_key data_type a" "typed_key data_type b" "typed_key data_type c"
    and "key_compare_typed data_type a b < 0" "key_compare_typed data_type b c < 0"
  shows "key_compare_typed data_type a c < 0"
proof (cases rule: key_compare_typed_cases [of data_type a b])
  case bytes
  have "data_type \<notin> {kTreeInt32Type, kTreeUInt32Type, kTreeInt64Type, kTreeUInt64Type}"
    using bytes(1,2) assms(1,2) unfolding typed_key_def by blast
  then have "key_compare_typed data_type x y = key_compare x y" for x y
    by (simp add: key_compare_typed_def)
  then show ?thesis using assms(4,5) key_compare_trans by metis
qed (use assms in \<open>simp_all add: key_compare_typed_def typed_key_def order3_facts tree_types\<close>)

interpretation kc: ordered_keys "key_compare_typed data_type" "typed_key data_type" for data_type
proof unfold_locales
  show "key_compare_typed data_type a b = 0 \<longleftrightarrow> a = b" for a b
    using le_word_inj [of a b]
    by (auto simp: key_compare_typed_def order3_facts key_compare_eq sint_eq_iff)
  show "key_compare_typed data_type a b < 0 \<longleftrightarrow> key_compare_typed data_type b a > 0" for a b
    by (rule key_compare_typed_swap)
  show "key_compare_typed data_type a c < 0"
    if "typed_key data_type a" "typed_key data_type b" "typed_key data_type c"
      "key_compare_typed data_type a b < 0" "key_compare_typed data_type b c < 0" for a b c
    using that by (rule key_compare_typed_trans)
qed

section \<open>Alignment\<close>

definition align8 :: "nat \<Rightarrow> nat" where
  "align8 n = (n + 7) div 8 * 8"

lemma key_align_nat:
  assumes "n + 7 < 2 ^ 32"
  shows "unat (key_align (of_nat n)) = align8 n"
proof -
  have "(w :: u32) AND NOT 7 = push_bit 3 (drop_bit 3 w)" for w
  proof (rule bit_word_eqI)
    fix k assume "k < LENGTH(32)"
    have seven: "(7 :: u32) = mask 3" by (simp add: mask_eq_exp_minus_1)
    show "bit (w AND NOT 7) k = bit (push_bit 3 (drop_bit 3 w)) k"
      using \<open>k < LENGTH(32)\<close> unfolding seven by (auto simp: bit_simps)
  qed
  then have "unat (key_align (of_nat n)) = unat (push_bit 3 (drop_bit 3 (of_nat (n + 7) :: u32)))"
    by (simp add: key_align_def)
  also have "unat (of_nat (n + 7) :: u32) = n + 7"
    using assms by (simp only: unat_of_nat take_bit_eq_mod) simp
  then have "unat (push_bit 3 (drop_bit 3 (of_nat (n + 7) :: u32))) = take_bit 32 (push_bit 3 (drop_bit 3 (n + 7)))"
    by (simp only: unsigned_push_bit_eq unsigned_drop_bit_eq) (use assms in \<open>simp add: take_bit_eq_mod\<close>)
  also have "\<dots> = align8 n"
    using assms by (simp add: align8_def push_bit_eq_mult drop_bit_eq_div take_bit_eq_mod)
  finally show ?thesis .
qed

lemma align8_facts: "n \<le> align8 n" "align8 n < n + 8"
  by (auto simp: align8_def)

section \<open>The entries a node holds\<close>

definition key_bytes :: "(u8 list \<times> u64) list \<Rightarrow> nat" where
  "key_bytes es = sum_list (map (\<lambda>e. length (fst e)) es)"

definition lens_pos :: "nat \<Rightarrow> nat" where
  "lens_pos all = align8 (nd_kFixed + all)"

text \<open>
  \<open>node_rep sz l r ov es node\<close>: the bytes \<open>node\<close>, \<open>sz\<close> of them, hold the entries \<open>es\<close> in order and the
  three links. The bytes between the parts are free.
\<close>

definition node_rep :: "nat \<Rightarrow> u64 \<Rightarrow> u64 \<Rightarrow> u64 \<Rightarrow> (u8 list \<times> u64) list \<Rightarrow> u8 list \<Rightarrow> bool" where
  "node_rep sz l r ov es node \<longleftrightarrow>
     length node = sz \<and> sz \<le> kMaxBlockSize \<and> lens_pos (key_bytes es) + length es * 10 \<le> sz \<and>
     le64 node nd_kLeftLink = l \<and> le64 node nd_kRightLink = r \<and> le64 node nd_kOverflowLink = ov \<and>
     le16 node nd_kKeyCount = of_nat (length es) \<and> le16 node nd_kAllKeyLength = of_nat (key_bytes es) \<and>
     bslice nd_kFixed (key_bytes es) node = concat (map fst es) \<and>
     (\<forall>i<length es. le16 node (lens_pos (key_bytes es) + i * 2) = of_nat (key_bytes (take (Suc i) es)) \<and>
        le64 node (lens_pos (key_bytes es) + length es * 2 + i * 8) = snd (es ! i))"

lemma key_bytes_simps [simp]:
  "key_bytes [] = 0" "key_bytes (e # es) = length (fst e) + key_bytes es" "key_bytes (xs @ ys) = key_bytes xs + key_bytes ys"
  by (simp_all add: key_bytes_def)

lemma length_concat_fst [simp]: "length (concat (map fst es)) = key_bytes es"
  by (induction es) auto

lemma key_bytes_take: "i \<le> j \<Longrightarrow> key_bytes (take i es) \<le> key_bytes (take j es)" "key_bytes (take i es) \<le> key_bytes es"
proof -
  have "key_bytes (take i es) \<le> key_bytes es" for es :: "(u8 list \<times> u64) list" and i
    by (metis append_take_drop_id le_add1 key_bytes_simps(3))
  then show "key_bytes (take i es) \<le> key_bytes es" "i \<le> j \<Longrightarrow> key_bytes (take i es) \<le> key_bytes (take j es)"
    by (auto, metis min.absorb1 take_take)
qed

lemma key_bytes_take_Suc: "i < length es \<Longrightarrow> key_bytes (take (Suc i) es) = key_bytes (take i es) + length (fst (es ! i))"
  by (simp add: take_Suc_conv_app_nth)

lemma node_rep_bounds:
  assumes "node_rep sz l r ov es node"
  shows "nd_kFixed + key_bytes es \<le> lens_pos (key_bytes es)" "lens_pos (key_bytes es) < nd_kFixed + key_bytes es + 8"
    "key_bytes es < 2 ^ 16" "length es < 2 ^ 16" "nd_kFixed + key_bytes es + 7 < 2 ^ 32"
  using assms align8_facts [of "nd_kFixed + key_bytes es"]
  by (auto simp: node_rep_def lens_pos_def kMaxBlockSize_def nd_kFixed_def)

lemma unat_small: "n < 2 ^ 16 \<Longrightarrow> unat (of_nat n :: u16) = n"
  by (simp add: unat_of_nat take_bit_eq_mod)

lemma node_rep_lengths_at:
  assumes "node_rep sz l r ov es node"
  shows "key_lengths_at node = lens_pos (key_bytes es)"
proof -
  have "unat (le16 node nd_kAllKeyLength) = key_bytes es"
    using assms unat_small [OF node_rep_bounds(3) [OF assms]] by (simp add: node_rep_def)
  then show ?thesis
    unfolding key_lengths_at_def lens_pos_def using key_align_nat [OF node_rep_bounds(5) [OF assms]] by simp
qed

lemma node_rep_info:
  assumes "node_rep sz l r ov es node"
  shows "node_info node sz =
    Some \<lparr>ni_count = length es, ni_all_key_length = key_bytes es, ni_overflow = ov,
          ni_used = lens_pos (key_bytes es) + length es * 10\<rparr>"
  using assms node_rep_bounds [OF assms] node_rep_lengths_at [OF assms]
  by (simp add: node_info_def Let_def unat_small node_rep_def)

lemma node_rep_key:
  assumes "node_rep sz l r ov es node" and "i < length es"
  shows "key_at node (length es) i = Some (nd_kFixed + key_bytes (take i es), length (fst (es ! i)))"
    and "bslice (nd_kFixed + key_bytes (take i es)) (length (fst (es ! i))) node = fst (es ! i)"
proof -
  let ?L = "lens_pos (key_bytes es)"
  have small: "key_bytes (take j es) < 2 ^ 16" for j
    using key_bytes_take(2) [of j es] node_rep_bounds(3) [OF assms(1)] by simp
  have slot: "le16 node (?L + j * 2) = of_nat (key_bytes (take (Suc j) es))" if "j < length es" for j
    using assms(1) that by (simp add: node_rep_def)
  have fin: "le16 node (?L + i * 2) = of_nat (key_bytes (take i es)) + of_nat (length (fst (es ! i)))"
    using slot [OF assms(2)] key_bytes_take_Suc [OF assms(2)] by simp
  have start: "(if i = 0 then 0 else le16 node (?L + (i - 1) * 2)) = of_nat (key_bytes (take i es))"
    using slot [of "i - 1"] assms(2) by (cases i) auto
  have len: "length (fst (es ! i)) < 2 ^ 16"
    using small [of "Suc i"] key_bytes_take_Suc [OF assms(2)] by simp
  show "key_at node (length es) i = Some (nd_kFixed + key_bytes (take i es), length (fst (es ! i)))"
    unfolding key_at_def node_rep_lengths_at [OF assms(1)] Let_def start fin
    using assms(2) unat_small [OF small [of i]] unat_small [OF len] by simp
  have c: "bslice nd_kFixed (key_bytes es) node = concat (map fst es)"
    using assms(1) by (simp add: node_rep_def)
  have "bslice (nd_kFixed + key_bytes (take i es)) (length (fst (es ! i))) node =
      bslice (key_bytes (take i es)) (length (fst (es ! i))) (concat (map fst es))"
    using bslice_bslice [of "key_bytes (take i es)" "length (fst (es ! i))" "key_bytes es" nd_kFixed node]
      key_bytes_take(2) [of "Suc i" es] key_bytes_take_Suc [OF assms(2)] c by simp
  also have "concat (map fst es) =
      concat (map fst (take i es)) @ fst (es ! i) @ concat (map fst (drop (Suc i) es))"
    using arg_cong [OF id_take_nth_drop [OF assms(2)], of "\<lambda>x. concat (map fst x)"] by simp
  also have "bslice (key_bytes (take i es)) (length (fst (es ! i))) \<dots> = fst (es ! i)"
    by (simp add: bslice_def)
  finally show "bslice (nd_kFixed + key_bytes (take i es)) (length (fst (es ! i))) node = fst (es ! i)" .
qed

lemma node_rep_value:
  assumes "node_rep sz l r ov es node" and "i < length es"
  shows "node_value node (length es) i = snd (es ! i)"
  using assms by (simp add: node_value_def values_at_def node_rep_lengths_at [OF assms(1)] node_rep_def)

lemma node_rep_order:
  assumes "node_rep sz l r ov es node" and "i < length es"
  shows "key_order node (length es) data_type name i = Some (key_compare_typed data_type (fst (es ! i)) name)"
  using node_rep_key [OF assms] by (simp add: key_order_def)

text \<open>Looking a name up in the bytes is looking it up in the entries.\<close>

lemma node_find_rep:
  assumes "node_rep sz l r ov es node"
  shows "node_find node sz data_type name = map_of es name"
proof -
  have "node_find_from node (length es) data_type name i n = map_of (drop i es) name"
    if "i + n = length es" for i n
    using that
  proof (induction n arbitrary: i)
    case 0
    then show ?case by simp
  next
    case (Suc n)
    then have i: "i < length es" by simp
    have "drop i es = es ! i # drop (Suc i) es" using i by (simp add: Cons_nth_drop_Suc)
    then show ?case
      using Suc.IH [of "Suc i"] Suc.prems node_rep_order [OF assms i] node_rep_value [OF assms i]
        kc.cmp_eq [of data_type "fst (es ! i)" name]
      by (cases "es ! i") auto
  qed
  from this [of 0 "length es"] show ?thesis by (simp add: node_find_def node_rep_info [OF assms])
qed

lemma node_entry_rep:
  assumes "node_rep sz l r ov es node"
  shows "node_entry node sz i =
    (if i < length es \<and> length (fst (es ! i)) \<le> kMaxName then Some (es ! i) else None)"
  using node_rep_key [OF assms, of i] node_rep_value [OF assms, of i]
  by (auto simp: node_entry_def node_rep_info [OF assms])

section \<open>Building a node\<close>

text \<open>Writing the cumulative lengths and the values of a list of entries.\<close>

fun put_entries :: "u8 list \<Rightarrow> nat \<Rightarrow> nat \<Rightarrow> nat \<Rightarrow> u16 \<Rightarrow> (u8 list \<times> u64) list \<Rightarrow> u8 list" where
  "put_entries w L V i c [] = w"
| "put_entries w L V i c (e # es) =
     put_entries (put_le64 (put_le16 w (L + i * 2) (c + of_nat (length (fst e)))) (V + i * 8) (snd e))
       L V (Suc i) (c + of_nat (length (fst e))) es"

lemma put_entries_facts:
  "L + (i + length es) * 2 \<le> V \<Longrightarrow> V + (i + length es) * 8 \<le> length w \<Longrightarrow>
   length (put_entries w L V i c es) = length w \<and>
   (\<forall>pos m. pos + m \<le> L + i * 2 \<or> V \<le> pos \<and> pos + m \<le> V + i * 8 \<longrightarrow>
      bslice pos m (put_entries w L V i c es) = bslice pos m w) \<and>
   (\<forall>k<length es. le16 (put_entries w L V i c es) (L + (i + k) * 2) = c + of_nat (key_bytes (take (Suc k) es)) \<and>
      le64 (put_entries w L V i c es) (V + (i + k) * 8) = snd (es ! k))"
proof (induction es arbitrary: w i c)
  case Nil
  then show ?case by simp
next
  case (Cons e es)
  let ?c = "c + of_nat (length (fst e))"
  let ?w1 = "put_le16 w (L + i * 2) ?c" and ?v = "V + i * 8"
  let ?w = "put_le64 ?w1 ?v (snd e)"
  let ?r = "put_entries ?w L V (Suc i) ?c es"
  have len: "length ?w1 = length w" "length ?w = length w" using Cons.prems by simp_all
  have IH: "length ?r = length w"
    "\<And>pos m. pos + m \<le> L + Suc i * 2 \<or> V \<le> pos \<and> pos + m \<le> V + Suc i * 8 \<Longrightarrow> bslice pos m ?r = bslice pos m ?w"
    "\<And>k. k < length es \<Longrightarrow> le16 ?r (L + (Suc i + k) * 2) = ?c + of_nat (key_bytes (take (Suc k) es))"
    "\<And>k. k < length es \<Longrightarrow> le64 ?r (V + (Suc i + k) * 8) = snd (es ! k)"
    using Cons.IH [of "Suc i" ?w ?c] Cons.prems len by auto
  have keep: "bslice pos m ?r = bslice pos m w"
    if "pos + m \<le> L + i * 2 \<or> V \<le> pos \<and> pos + m \<le> V + i * 8" for pos m
    using IH(2) [of pos m] that Cons.prems len by (auto simp: put_le_other)
  have "bslice (L + i * 2) 2 ?r = bslice (L + i * 2) 2 ?w1"
    using IH(2) [of "L + i * 2" 2] Cons.prems len by (simp add: put_le_other)
  then have first: "le16 ?r (L + i * 2) = ?c" using le_put_same(1) [of "L + i * 2" w ?c] Cons.prems by (simp add: le16_def)
  have "bslice ?v 8 ?r = bslice ?v 8 ?w" using IH(2) [of ?v 8] by simp
  then have second: "le64 ?r ?v = snd e" using le_put_same(3) [of ?v ?w1 "snd e"] len Cons.prems by (simp add: le64_def)
  have "le16 ?r (L + (i + k) * 2) = c + of_nat (key_bytes (take (Suc k) (e # es))) \<and>
      le64 ?r (V + (i + k) * 8) = snd ((e # es) ! k)" if "k < length (e # es)" for k
    using first second IH(3,4) [of "k - 1"] that by (cases k) (auto simp: add.assoc)
  then show ?case using IH(1) keep by simp
qed

lemma node_frame_facts:
  assumes "nd_kFixed \<le> sz"
  shows "length (node_frame sz node cnt all) = sz"
    "le64 (node_frame sz node cnt all) nd_kLeftLink = le64 node nd_kLeftLink"
    "le64 (node_frame sz node cnt all) nd_kRightLink = le64 node nd_kRightLink"
    "le64 (node_frame sz node cnt all) nd_kOverflowLink = le64 node nd_kOverflowLink"
    "le16 (node_frame sz node cnt all) nd_kKeyCount = cnt"
    "le16 (node_frame sz node cnt all) nd_kAllKeyLength = all"
  using assms
  by (simp_all add: node_frame_def nd_offsets le16_def le64_def put_le_other)
    (simp_all add: le16_def [symmetric] le64_def [symmetric] le_put_same)

lemma built_rep:
  assumes "sz \<le> kMaxBlockSize" and "lens_pos (key_bytes es) + length es * 10 \<le> sz"
    and "le64 node nd_kLeftLink = l" "le64 node nd_kRightLink = r" "le64 node nd_kOverflowLink = ov"
  defines "frame \<equiv> node_frame sz node (of_nat (length es)) (of_nat (key_bytes es))"
    and "L \<equiv> lens_pos (key_bytes es)"
  shows "node_rep sz l r ov es
    (put_entries (bsplice nd_kFixed (concat (map fst es)) frame) L (L + length es * 2) 0 0 es)"
proof -
  let ?w = "bsplice nd_kFixed (concat (map fst es)) frame"
  let ?r = "put_entries ?w L (L + length es * 2) 0 0 es"
  have L: "nd_kFixed + key_bytes es \<le> L" using align8_facts(1) by (simp add: L_def lens_pos_def)
  then have sz: "nd_kFixed \<le> sz" "nd_kFixed + key_bytes es \<le> sz" using assms(2) by (simp_all add: L_def)
  note f = node_frame_facts [OF sz(1), of node "of_nat (length es)" "of_nat (key_bytes es)", folded frame_def]
  have len: "length ?w = sz" using f(1) sz(2) by simp
  note p = put_entries_facts [of L 0 es "L + length es * 2" ?w 0]
  have p1: "length ?r = sz" using p len assms(2) by (simp add: L_def)
  have p2: "bslice pos m ?r = bslice pos m ?w" if "pos + m \<le> L" for pos m
    using p len assms(2) that by (simp add: L_def)
  have p3: "le16 ?r (L + k * 2) = of_nat (key_bytes (take (Suc k) es)) \<and> le64 ?r (L + length es * 2 + k * 8) = snd (es ! k)"
    if "k < length es" for k
    using p len assms(2) that by (simp add: L_def)
  have fixed: "bslice pos m ?r = bslice pos m frame" if "pos + m \<le> nd_kFixed" for pos m
    using p2 [of pos m] that L f(1) sz(2) by (simp add: bslice_bsplice_other)
  have "bslice nd_kFixed (key_bytes es) ?r = concat (map fst es)"
    using p2 [OF L] f(1) sz(2) by (simp add: bslice_bsplice_same)
  moreover have "le64 ?r nd_kLeftLink = l" "le64 ?r nd_kRightLink = r" "le64 ?r nd_kOverflowLink = ov"
    "le16 ?r nd_kKeyCount = of_nat (length es)" "le16 ?r nd_kAllKeyLength = of_nat (key_bytes es)"
    using f(2-6) assms(3-5) fixed [of nd_kLeftLink 8] fixed [of nd_kRightLink 8] fixed [of nd_kOverflowLink 8]
      fixed [of nd_kKeyCount 2] fixed [of nd_kAllKeyLength 2]
    by (simp_all add: le64_def le16_def nd_offsets)
  ultimately show ?thesis
    using p1 p3 assms(1,2) by (simp add: node_rep_def L_def)
qed

lemma copy_keys_eq:
  assumes "node_rep sz l r ov es node" and "i + n \<le> length es"
    and "at + key_bytes (take n (drop i es)) \<le> length dst"
  shows "copy_keys dst at node (length es) i n =
    (bsplice at (concat (map fst (take n (drop i es)))) dst, at + key_bytes (take n (drop i es)))"
  using assms(2,3)
proof (induction n arbitrary: i dst at)
  case 0
  then show ?case by simp
next
  case (Suc n)
  have i: "i < length es" using Suc.prems(1) by simp
  let ?k = "fst (es ! i)"
  have d: "take (Suc n) (drop i es) = es ! i # take n (drop (Suc i) es)"
    using i by (metis Cons_nth_drop_Suc take_Suc_Cons)
  have c: "copy_key dst at node (length es) i = (bsplice at ?k dst, at + length ?k)"
    using node_rep_key [OF assms(1) i] by (simp add: copy_key_def)
  have "copy_keys (bsplice at ?k dst) (at + length ?k) node (length es) (Suc i) n =
     (bsplice (at + length ?k) (concat (map fst (take n (drop (Suc i) es)))) (bsplice at ?k dst),
      at + length ?k + key_bytes (take n (drop (Suc i) es)))"
    using Suc.IH [of "Suc i" "at + length ?k" "bsplice at ?k dst"] Suc.prems d by simp
  then show ?case
    using c d Suc.prems(2) bsplice_append [of at ?k dst] by (simp add: add.assoc)
qed

section \<open>Inserting refines updating the entries\<close>

abbreviation below :: "u32 \<Rightarrow> u8 list \<Rightarrow> u8 list \<times> u64 \<Rightarrow> bool" where
  "below data_type name e \<equiv> key_compare_typed data_type (fst e) name < 0"

lemma insert_at_eq:
  assumes "node_rep sz l r ov es node" and "i + n = length es"
  shows "insert_at node (length es) data_type name i n =
    Some (i + length (takeWhile (below data_type name) (drop i es)),
      (case dropWhile (below data_type name) (drop i es) of [] \<Rightarrow> False | e # _ \<Rightarrow> fst e = name))"
  using assms(2)
proof (induction n arbitrary: i)
  case 0
  then show ?case by simp
next
  case (Suc n)
  have i: "i < length es" using Suc.prems by simp
  have d: "drop i es = es ! i # drop (Suc i) es" using i by (simp add: Cons_nth_drop_Suc)
  show ?case
    using node_rep_order [OF assms(1) i, of data_type name] Suc.IH [of "Suc i"] Suc.prems
      kc.cmp_eq [of data_type "fst (es ! i)" name]
    by (simp add: d not_less)
qed

lemma upd_entries_split:
  "upd_entries (key_compare_typed data_type) name val es =
     takeWhile (below data_type name) es @
     (case dropWhile (below data_type name) es of [] \<Rightarrow> [(name, val)]
      | e # rest \<Rightarrow> if fst e = name then (name, val) # rest else (name, val) # e # rest)"
  using kc.cmp_eq [of data_type] by (induction es) auto

lemma insert_fill_after:
  assumes "node_rep sz l r ov es node" and "at_index < i" and "i + n = length es + 1"
  shows "insert_fill node (length es) L V at_index len val w i 1 c n = Some (put_entries w L V i c (drop (i - 1) es))"
  using assms(2,3)
proof (induction n arbitrary: i w c)
  case 0
  then show ?case by simp
next
  case (Suc n)
  obtain j where j: "i = Suc j" using Suc.prems(1) by (cases i) auto
  then have i: "j < length es" using Suc.prems(2) by simp
  have d: "drop j es = es ! j # drop (Suc j) es" using i by (simp add: Cons_nth_drop_Suc)
  show ?case
    using Suc.IH [of "Suc i"] Suc.prems node_rep_key(1) [OF assms(1) i] node_rep_value [OF assms(1) i]
    unfolding j d diff_Suc_1 by (simp add: Let_def)
qed

lemma insert_fill_eq:
  assumes "node_rep sz l r ov es node" and "i \<le> at_index" and "at_index \<le> length es" and "i + n = length es + 1"
  shows "insert_fill node (length es) L V at_index (length name) val w i 0 c n =
    Some (put_entries w L V i c (drop i (take at_index es) @ (name, val) # drop at_index es))"
  using assms(2,4)
proof (induction n arbitrary: i w c)
  case 0
  then show ?case using assms(3) by simp
next
  case (Suc n)
  show ?case
  proof (cases "i = at_index")
    case True
    then show ?thesis
      using insert_fill_after [OF assms(1), of at_index "Suc i" n L V "length name" val] Suc.prems
      by (simp add: Let_def)
  next
    case False
    then have i: "i < length es" "i < at_index" using Suc.prems assms(3) by auto
    have "drop i (take at_index es) = es ! i # drop (Suc i) (take at_index es)"
      using i assms(3) by (metis Cons_nth_drop_Suc length_take min.absorb2 nth_take)
    then show ?thesis
      using False i Suc.IH [of "Suc i"] Suc.prems node_rep_key(1) [OF assms(1) i(1)] node_rep_value [OF assms(1) i(1)]
      by (simp add: Let_def)
  qed
qed

text \<open>Replacing one value.\<close>

lemma set_value_rep:
  assumes "node_rep sz l r ov es node" and "i < length es"
  shows "node_rep sz l r ov (es[i := (fst (es ! i), val)])
    (put_le64 node (lens_pos (key_bytes es) + length es * 2 + i * 8) val)"
proof -
  let ?es = "es[i := (fst (es ! i), val)]" and ?at = "lens_pos (key_bytes es) + length es * 2 + i * 8"
  let ?L = "lens_pos (key_bytes es)" and ?w = "put_le64 node (lens_pos (key_bytes es) + length es * 2 + i * 8) val"
  have fst: "map fst ?es = map fst es" using assms(2) by (simp add: map_update list_update_same_conv)
  have kb: "key_bytes (take k ?es) = key_bytes (take k es)" for k
    using fst by (metis length_concat_fst take_map)
  have kb': "key_bytes ?es = key_bytes es" using kb [of "length es"] by simp
  have len: "length node = sz" "?L + length es * 10 \<le> sz" using assms(1) by (auto simp: node_rep_def)
  have fit: "?at + 8 \<le> length node" using assms(2) len by simp
  have far: "bslice pos m ?w = bslice pos m node" if "pos + m \<le> ?at \<or> ?at + 8 \<le> pos" "pos + m \<le> sz" for pos m
    using put_le_other(3) [OF fit, of pos m val] that len by simp
  have L: "nd_kFixed + key_bytes es \<le> ?L" by (rule node_rep_bounds(1) [OF assms(1)])
  have head: "bslice pos m ?w = bslice pos m node" if "pos + m \<le> nd_kFixed + key_bytes es" for pos m
    using far [of pos m] that L len by simp
  have "le64 ?w (?L + length es * 2 + k * 8) = snd (?es ! k)" if "k < length es" for k
  proof (cases "k = i")
    case True
    then show ?thesis using le_put_same(3) [OF fit] assms(2) by simp
  next
    case False
    then have "bslice (?L + length es * 2 + k * 8) 8 ?w = bslice (?L + length es * 2 + k * 8) 8 node"
      using that len by (intro far) auto
    then show ?thesis using False that assms(1) by (simp add: le64_def node_rep_def)
  qed
  moreover have "le16 ?w (?L + k * 2) = of_nat (key_bytes (take (Suc k) es))" if "k < length es" for k
  proof -
    have "bslice (?L + k * 2) 2 ?w = bslice (?L + k * 2) 2 node" using that len by (intro far) auto
    then show ?thesis using that assms(1) by (simp add: le16_def node_rep_def)
  qed
  ultimately show ?thesis
    using assms(1) fit head [of nd_kLeftLink 8] head [of nd_kRightLink 8] head [of nd_kOverflowLink 8]
      head [of nd_kKeyCount 2] head [of nd_kAllKeyLength 2] head [of nd_kFixed "key_bytes es"]
    unfolding node_rep_def kb kb' fst length_list_update by (simp add: le16_def le64_def nd_offsets)
qed

lemma lens_pos_word:
  "n + 50 < 2 ^ 32 \<Longrightarrow> unat (key_align (of_nat (nd_kFixed + n))) = lens_pos n"
  using key_align_nat [of "nd_kFixed + n"] by (simp add: lens_pos_def nd_kFixed_def)

lemma node_insert_new:
  fixes val :: u64
  assumes rep: "node_rep sz l r ov es node" and name: "name \<noteq> []" "length name \<le> kMaxKeyLength"
    and at: "insert_at node (length es) data_type name 0 (length es) = Some (a, False)" and a: "a \<le> length es"
  defines "new \<equiv> take a es @ (name, val) # drop a es"
  shows "case node_insert sz data_type node name val of
      None \<Rightarrow> sz < lens_pos (key_bytes new) + length new * 10
    | Some (work, existed) \<Rightarrow> \<not> existed \<and> node_rep sz l r ov new work"
proof -
  let ?all = "key_bytes es + length name" and ?frame = "node_frame sz node (of_nat (length new)) (of_nat (key_bytes new))"
  let ?L = "lens_pos (key_bytes new)"
  have split: "key_bytes es = key_bytes (take a es) + key_bytes (drop a es)"
    by (metis append_take_drop_id key_bytes_simps(3))
  then have all: "?all = key_bytes new" and len: "length es + 1 = length new"
    using a by (simp_all add: new_def)
  have small: "?all + 50 < 2 ^ 32" using node_rep_bounds(3) [OF rep] name(2) by (simp add: kMaxKeyLength_def)
  note pos = lens_pos_word [OF small]
  have c: "node_insert sz data_type node name val =
    (if ?L + length new * 10 > sz then None
     else case copy_keys ?frame nd_kFixed node (length es) 0 a of (w1, at1) \<Rightarrow>
       case copy_keys (bsplice at1 name w1) (at1 + length name) node (length es) a (length es - a) of (w3, at3) \<Rightarrow>
       map_option (\<lambda>w. (w, False)) (insert_fill node (length es) ?L (?L + length new * 2) a (length name) val w3 0 0 0 (length new)))"
    using name at len pos unfolding node_insert_def node_rep_info [OF rep]
    by (simp add: Let_def case_prod_beta all mult.commute)
  show ?thesis
  proof (cases "?L + length new * 10 > sz")
    case True
    then show ?thesis using c by simp
  next
    case False
    have room: "nd_kFixed + key_bytes new \<le> ?L" using align8_facts(1) by (simp add: lens_pos_def)
    then have "length ?frame = sz" using node_frame_facts(1) False by simp
    then have fits: "nd_kFixed + key_bytes (take a es) + length name + key_bytes (drop a es) \<le> length ?frame"
      using room False split all by simp
    have w1: "copy_keys ?frame nd_kFixed node (length es) 0 a =
        (bsplice nd_kFixed (concat (map fst (take a es))) ?frame, nd_kFixed + key_bytes (take a es))"
      using copy_keys_eq [OF rep, of 0 a nd_kFixed ?frame] a fits by simp
    let ?w2 = "bsplice nd_kFixed (concat (map fst (take a es)) @ name) ?frame"
    have w2: "bsplice (nd_kFixed + key_bytes (take a es)) name (bsplice nd_kFixed (concat (map fst (take a es))) ?frame) = ?w2"
      using bsplice_append [of nd_kFixed "concat (map fst (take a es))" ?frame name] fits by simp
    have w3: "copy_keys ?w2 (nd_kFixed + key_bytes (take a es) + length name) node (length es) a (length es - a) =
        (bsplice nd_kFixed (concat (map fst new)) ?frame, nd_kFixed + key_bytes new)"
      using copy_keys_eq [OF rep, of a "length es - a" "nd_kFixed + key_bytes (take a es) + length name" ?w2] a fits
        bsplice_append [of nd_kFixed "concat (map fst (take a es)) @ name" ?frame "concat (map fst (drop a es))"]
      by (simp add: new_def add.assoc)
    have "node_insert sz data_type node name val =
        Some (put_entries (bsplice nd_kFixed (concat (map fst new)) ?frame) ?L (?L + length new * 2) 0 0 new, False)"
      using c False w1 w2 w3 insert_fill_eq [OF rep, of 0 a "length new"] a len by (simp add: new_def)
    then show ?thesis
      using built_rep [of sz new node l r ov] False rep by (simp add: node_rep_def)
  qed
qed

lemma node_insert_rep:
  fixes val :: u64
  assumes rep: "node_rep sz l r ov es node" and name: "name \<noteq> []" "length name \<le> kMaxKeyLength"
    and asc: "ascending (key_compare_typed data_type) es" "\<forall>e\<in>set es. typed_key data_type (fst e)" "typed_key data_type name"
  defines "new \<equiv> upd_entries (key_compare_typed data_type) name val es"
  shows "case node_insert sz data_type node name val of
      None \<Rightarrow> sz < lens_pos (key_bytes new) + length new * 10
    | Some (work, existed) \<Rightarrow> existed = (name \<in> fst ` set es) \<and> node_rep sz l r ov new work"
proof -
  let ?p = "below data_type name"
  let ?a = "length (takeWhile ?p es)" and ?b = "dropWhile ?p es"
  have at: "insert_at node (length es) data_type name 0 (length es) =
      Some (?a, case ?b of [] \<Rightarrow> False | e # _ \<Rightarrow> fst e = name)"
    using insert_at_eq [OF rep, of 0 "length es" data_type name] by simp
  have parts: "take ?a es = takeWhile ?p es" "drop ?a es = ?b"
    by (metis append_eq_conv_conj takeWhile_dropWhile_id, metis append_eq_conv_conj takeWhile_dropWhile_id)
  note len = kc.upd_length [OF asc, of val, folded new_def]
  have sp: "length es = ?a + length ?b" by (metis length_append takeWhile_dropWhile_id)
  show ?thesis
  proof (cases "\<exists>e rest. ?b = e # rest \<and> fst e = name")
    case True
    then obtain e rest where b: "?b = e # rest" "fst e = name" by blast
    have es: "es = takeWhile ?p es @ e # rest" using b by (metis takeWhile_dropWhile_id)
    have new: "new = es[?a := (fst (es ! ?a), val)]"
    proof -
      have "es ! ?a = e" "es[?a := (name, val)] = takeWhile ?p es @ (name, val) # rest"
        using es by (metis nth_append_length, metis list_update_length)
      then show ?thesis using b upd_entries_split [of data_type name val es] by (simp add: new_def)
    qed
    have "length new = length es" using new by simp
    then have "name \<in> fst ` set es" using len by (simp split: if_splits)
    moreover have "node_insert sz data_type node name val =
        Some (put_le64 node (lens_pos (key_bytes es) + length es * 2 + ?a * 8) val, True)"
      using name at b rep unfolding node_insert_def node_rep_info [OF rep]
      by (simp add: Let_def values_at_def node_rep_lengths_at [OF rep] node_rep_def)
    ultimately show ?thesis
      using set_value_rep [OF rep, of ?a val] sp b(1) new by simp
  next
    case False
    then have at': "insert_at node (length es) data_type name 0 (length es) = Some (?a, False)"
      using at by (cases ?b) auto
    have "(case b of [] \<Rightarrow> [(name, val)] | e # rest \<Rightarrow> if fst e = name then (name, val) # rest else (name, val) # e # rest) =
        (name, val) # b" if "\<nexists>e rest. b = e # rest \<and> fst e = name" for b
      using that by (cases b) auto
    from this [OF False] have new: "new = take ?a es @ (name, val) # drop ?a es"
      unfolding parts new_def upd_entries_split by (rule arg_cong)
    then have "length new = Suc (length es)" using sp parts by simp
    then have "name \<notin> fst ` set es" using len by (simp split: if_splits)
    then show ?thesis
      using node_insert_new [OF rep name at', of val] sp unfolding new [symmetric]
      by (auto split: option.splits)
  qed
qed

section \<open>Removing refines deleting from the entries\<close>

lemma remove_at_eq:
  assumes "node_rep sz l r ov es node" and "i + n = length es"
  shows "remove_at node (length es) data_type name i n =
    (let k = i + length (takeWhile (\<lambda>e. fst e \<noteq> name) (drop i es))
     in Some (k, if k < length es then length (fst (es ! k)) else 0))"
  using assms(2)
proof (induction n arbitrary: i)
  case 0
  then show ?case by simp
next
  case (Suc n)
  have i: "i < length es" using Suc.prems by simp
  have d: "drop i es = es ! i # drop (Suc i) es" using i by (simp add: Cons_nth_drop_Suc)
  show ?case
    using node_rep_key [OF assms(1) i] Suc.IH [of "Suc i"] Suc.prems i kc.cmp_eq [of data_type "fst (es ! i)" name]
    by (simp add: d Let_def)
qed

text \<open>The entries from index \<open>i\<close> on, without the one at \<open>found\<close>.\<close>

definition skip_rest :: "'a list \<Rightarrow> nat \<Rightarrow> nat \<Rightarrow> 'a list" where
  "skip_rest es found i = (if i \<le> found then drop i (take found es) @ drop (Suc found) es else drop i es)"

lemma skip_rest_simps:
  assumes "found < length es"
  shows "skip_rest es found (length es) = []" "skip_rest es found found = skip_rest es found (Suc found)"
    "skip_rest es found 0 = take found es @ drop (Suc found) es"
    "i < length es \<Longrightarrow> i \<noteq> found \<Longrightarrow> skip_rest es found i = es ! i # skip_rest es found (Suc i)"
proof -
  show "skip_rest es found (length es) = []" "skip_rest es found found = skip_rest es found (Suc found)"
    "skip_rest es found 0 = take found es @ drop (Suc found) es"
    using assms by (simp_all add: skip_rest_def)
  assume i: "i < length es" "i \<noteq> found"
  show "skip_rest es found i = es ! i # skip_rest es found (Suc i)"
  proof (cases "i < found")
    case True
    then have "drop i (take found es) = es ! i # drop (Suc i) (take found es)"
      using assms by (metis Cons_nth_drop_Suc length_take min.absorb4 nth_take)
    then show ?thesis using True by (simp add: skip_rest_def)
  next
    case False
    then show ?thesis using i by (simp add: skip_rest_def Cons_nth_drop_Suc)
  qed
qed

lemma remove_copy_eq:
  assumes "node_rep sz l r ov es node" and "found < length es" and "i + n = length es"
    and "at + key_bytes (skip_rest es found i) \<le> length dst"
  shows "remove_copy dst at node (length es) found i n =
    (bsplice at (concat (map fst (skip_rest es found i))) dst, at + key_bytes (skip_rest es found i))"
  using assms(3,4)
proof (induction n arbitrary: i dst at)
  case 0
  then show ?case using skip_rest_simps(1) [OF assms(2)] by simp
next
  case (Suc n)
  note sk = skip_rest_simps [OF assms(2)]
  have i: "i < length es" using Suc.prems(1) by simp
  show ?case
  proof (cases "i = found")
    case True
    then show ?thesis using Suc.IH [of "Suc i" at dst] Suc.prems sk(2) by simp
  next
    case False
    let ?k = "fst (es ! i)" and ?rest = "skip_rest es found (Suc i)"
    note d = sk(4) [OF i False]
    have "copy_key dst at node (length es) i = (bsplice at ?k dst, at + length ?k)"
      using node_rep_key [OF assms(1) i] by (simp add: copy_key_def)
    moreover have "remove_copy (bsplice at ?k dst) (at + length ?k) node (length es) found (Suc i) n =
       (bsplice (at + length ?k) (concat (map fst ?rest)) (bsplice at ?k dst), at + length ?k + key_bytes ?rest)"
      using Suc.IH [of "Suc i" "at + length ?k" "bsplice at ?k dst"] Suc.prems d by simp
    ultimately show ?thesis
      using False d Suc.prems(2) bsplice_append [of at ?k dst] by (simp add: add.assoc)
  qed
qed

lemma remove_fill_eq:
  assumes "node_rep sz l r ov es node" and "found < length es" and "i + n = length es"
    and "out = (if i \<le> found then i else i - 1)"
  shows "remove_fill node (length es) L V found w i out c n = Some (put_entries w L V out c (skip_rest es found i))"
  using assms(3,4)
proof (induction n arbitrary: i w c out)
  case 0
  then show ?case using skip_rest_simps(1) [OF assms(2)] by simp
next
  case (Suc n)
  note sk = skip_rest_simps [OF assms(2)]
  have i: "i < length es" using Suc.prems(1) by simp
  show ?case
  proof (cases "i = found")
    case True
    then show ?thesis using Suc.IH [of "Suc i" out w c] Suc.prems sk(2) by simp
  next
    case False
    then have "Suc out = (if Suc i \<le> found then Suc i else Suc i - 1)" using Suc.prems(2) by auto
    then show ?thesis
      using False Suc.IH [of "Suc i" "Suc out"] Suc.prems node_rep_key(1) [OF assms(1) i]
        node_rep_value [OF assms(1) i] sk(4) [OF i False]
      by (simp add: Let_def)
  qed
qed

lemma del_entries_split:
  fixes name :: 'k and es :: "('k \<times> 'v) list"
  assumes "distinct (map fst es)"
  defines "a \<equiv> length (takeWhile (\<lambda>e. fst e \<noteq> name) es)"
  shows "a = length es \<Longrightarrow> del_entries name es = es \<and> name \<notin> fst ` set es"
    and "a < length es \<Longrightarrow> fst (es ! a) = name \<and> del_entries name es = take a es @ drop (Suc a) es"
proof -
  let ?p = "\<lambda>e. fst e \<noteq> name"
  have split: "es = takeWhile ?p es @ dropWhile ?p es" by simp
  have t: "takeWhile ?p es = take a es" unfolding a_def by (rule takeWhile_eq_take)
  have all: "\<forall>e\<in>set (take a es). fst e \<noteq> name" unfolding t [symmetric] by (auto dest: set_takeWhileD)
  show "del_entries name es = es \<and> name \<notin> fst ` set es" if "a = length es"
    using all that by (auto simp: del_entries_def)
  show "fst (es ! a) = name \<and> del_entries name es = take a es @ drop (Suc a) es" if lt: "a < length es"
  proof -
    have n: "fst (es ! a) = name" using nth_length_takeWhile [of ?p es] lt by (simp add: a_def)
    have es: "es = take a es @ es ! a # drop (Suc a) es" using lt by (rule id_take_nth_drop)
    have "name \<notin> fst ` set (drop (Suc a) es)"
      using assms(1) n lt by (subst (asm) es) auto
    then have "filter ?p (drop (Suc a) es) = drop (Suc a) es" by (auto simp: filter_id_conv)
    then have "filter ?p (take a es @ es ! a # drop (Suc a) es) = take a es @ drop (Suc a) es"
      using all n by (simp add: filter_id_conv)
    then show ?thesis using n es by (simp add: del_entries_def)
  qed
qed

lemma node_remove_found:
  assumes rep: "node_rep sz l r ov es node" and a: "a < length es"
    and at: "remove_at node (length es) data_type name 0 (length es) = Some (a, length (fst (es ! a)))"
  defines "new \<equiv> take a es @ drop (Suc a) es"
  shows "\<exists>work. node_remove sz data_type node name = Some (work, True) \<and> node_rep sz l r ov new work"
proof -
  have kb: "key_bytes es = key_bytes new + length (fst (es ! a))"
    using arg_cong [OF id_take_nth_drop [OF a], of key_bytes] by (simp add: new_def)
  have len: "length es - 1 = length new" "length es \<noteq> a" using a by (simp_all add: new_def)
  let ?L = "lens_pos (key_bytes new)" and ?frame = "node_frame sz node (of_nat (length new)) (of_nat (key_bytes new))"
  let ?w = "bsplice nd_kFixed (concat (map fst new)) ?frame"
  have "lens_pos (key_bytes new) \<le> lens_pos (key_bytes es)"
    using kb by (simp add: lens_pos_def align8_def div_le_mono)
  moreover have "lens_pos (key_bytes es) + length es * 10 \<le> sz" using rep by (simp add: node_rep_def)
  ultimately have fit: "?L + length new * 10 \<le> sz" using len(1) by linarith
  have room: "nd_kFixed + key_bytes new \<le> ?L" using align8_facts(1) by (simp add: lens_pos_def)
  then have "length ?frame = sz" using node_frame_facts(1) fit by simp
  then have w1: "remove_copy ?frame nd_kFixed node (length es) a 0 (length es) = (?w, nd_kFixed + key_bytes new)"
    using remove_copy_eq [OF rep a, of 0 "length es" nd_kFixed ?frame] skip_rest_simps(3) [OF a] room fit
    by (simp add: new_def)
  have w2: "remove_fill node (length es) ?L (?L + length new * 2) a ?w 0 0 0 (length es) =
      Some (put_entries ?w ?L (?L + length new * 2) 0 0 new)"
    using remove_fill_eq [OF rep a, of 0 "length es" 0] skip_rest_simps(3) [OF a] by (simp add: new_def)
  have all: "(of_nat (key_bytes es) - of_nat (length (fst (es ! a))) :: u32) = of_nat (key_bytes new)"
    using kb by simp
  have small: "key_bytes new < 2 ^ 16" using node_rep_bounds(3) [OF rep] kb by simp
  have uc: "ucast (of_nat (key_bytes new) :: u32) = (of_nat (key_bytes new) :: u16)"
    using small by (intro word_unat_eq_iff [THEN iffD2]) (simp add: unsigned_ucast_eq unat_of_nat take_bit_eq_mod)
  have pos: "unat (key_align (of_nat nd_kFixed + of_nat (key_bytes new))) = ?L"
    using lens_pos_word [of "key_bytes new"] small by simp
  have "node_remove sz data_type node name = Some (put_entries ?w ?L (?L + length new * 2) 0 0 new, True)"
    unfolding node_remove_def node_rep_info [OF rep] using at len w1 w2 by (simp add: Let_def all uc pos)
  then show ?thesis using built_rep [of sz new node l r ov] fit rep by (simp add: node_rep_def)
qed

lemma node_remove_rep:
  assumes rep: "node_rep sz l r ov es node" and "distinct (map fst es)"
  shows "\<exists>work. node_remove sz data_type node name = Some (work, name \<in> fst ` set es) \<and>
    node_rep sz l r ov (del_entries name es) work"
proof -
  let ?a = "length (takeWhile (\<lambda>e. fst e \<noteq> name) es)"
  have at: "remove_at node (length es) data_type name 0 (length es) =
      Some (?a, if ?a < length es then length (fst (es ! ?a)) else 0)"
    using remove_at_eq [OF rep, of 0 "length es" data_type name] by (simp add: Let_def)
  show ?thesis
  proof (cases "?a < length es")
    case False
    then have a: "?a = length es" by (metis length_takeWhile_le order_le_imp_less_or_eq)
    then have "node_remove sz data_type node name = Some (node, False)"
      using at rep unfolding node_remove_def node_rep_info [OF rep] by (simp add: Let_def node_rep_def)
    then show ?thesis using del_entries_split(1) [OF assms(2) a] rep by simp
  next
    case True
    note del = del_entries_split(2) [OF assms(2) True]
    have "fst (es ! ?a) \<in> fst ` set es" using True by simp
    then have "(name \<in> fst ` set es) = True" using del by (simp only:)
    moreover have "remove_at node (length es) data_type name 0 (length es) = Some (?a, length (fst (es ! ?a)))"
      using at True by (simp only: if_True)
    ultimately show ?thesis
      using node_remove_found [OF rep True] del by (simp only:)
  qed
qed

lemma upd_entries_room:
  fixes val :: u64
  assumes "node_rep sz l r ov es node" and "ascending (key_compare_typed data_type) es"
    and "\<forall>e\<in>set es. typed_key data_type (fst e)" and "typed_key data_type name"
  defines "new \<equiv> upd_entries (key_compare_typed data_type) name val es"
  assumes "sz < lens_pos (key_bytes new) + length new * 10"
  shows "name \<notin> fst ` set es \<and> sz < lens_pos (key_bytes es + length name) + (length es + 1) * 10"
proof -
  have kb: "key_bytes new = (if name \<in> fst ` set es then key_bytes es else key_bytes es + length name)"
    using assms(2,3) unfolding new_def
  proof (induction es)
    case (Cons e es)
    have "name \<notin> fst ` set (e # es)" if "key_compare_typed data_type name (fst e) < 0"
      using kc.ascending_absent [OF Cons.prems assms(4) that] .
    then show ?case
      using Cons kc.cmp_eq [of data_type "fst e" name] kc.cmp_swap [of data_type name "fst e"]
      by (auto simp: ascending_def)
  qed simp
  have "length new = (if name \<in> fst ` set es then length es else Suc (length es))"
    unfolding new_def by (rule kc.upd_length [OF assms(2,3,4)])
  then show ?thesis
    using kb assms(1,6) by (auto simp: node_rep_def split: if_splits)
qed

section \<open>A node is a sorted map\<close>

text \<open>
  C12. Inserting a key into a node whose keys ascend in the tree's order gives a node of the same
  size and links, whose keys ascend, and which finds the new value under the key and under every
  other key what it found before; \<^verbatim>\<open>existed\<close> says whether the key was there. The insertion is refused
  only when the entry does not fit the node.
\<close>

theorem node_insert_map:
  assumes "node_rep sz l r ov es node" and "ascending (key_compare_typed data_type) es"
    and "\<forall>e\<in>set es. typed_key data_type (fst e)" and "typed_key data_type name"
    and "name \<noteq> []" and "length name \<le> kMaxKeyLength"
  shows "case node_insert sz data_type node name val of
      None \<Rightarrow> name \<notin> fst ` set es \<and> sz < lens_pos (key_bytes es + length name) + (length es + 1) * 10
    | Some (work, existed) \<Rightarrow>
        existed = (node_find node sz data_type name \<noteq> None) \<and>
        (\<forall>k. node_find work sz data_type k = (if k = name then Some val else node_find node sz data_type k)) \<and>
        (\<exists>new. node_rep sz l r ov new work \<and> ascending (key_compare_typed data_type) new \<and>
           set (map fst new) = insert name (set (map fst es)))"
proof -
  let ?new = "upd_entries (key_compare_typed data_type) name val es"
  note ins = node_insert_rep [OF assms(1,5,6,2,3,4), of val]
  note facts = kc.set_upd [of data_type name val es] kc.ascending_upd [OF assms(2,3,4), of val]
    kc.map_of_upd [OF assms(2,3,4), of val] node_find_rep [OF assms(1), of data_type]
  show ?thesis
  proof (cases "node_insert sz data_type node name val")
    case None
    show ?thesis using None ins upd_entries_room [OF assms(1-4), of val] by simp
  next
    case (Some p)
    obtain work existed where p: "p = (work, existed)" by fastforce
    then have rep: "node_rep sz l r ov ?new work" and ex: "existed = (name \<in> fst ` set es)"
      using ins Some by auto
    have "name \<in> fst ` set es \<longleftrightarrow> map_of es name \<noteq> None" by (simp add: map_of_eq_None_iff)
    then show ?thesis
      using Some p rep ex facts node_find_rep [OF rep, of data_type] by auto
  qed
qed

text \<open>
  Removing a key from such a node always succeeds: the node keeps its size and links and its keys
  ascend, it no longer finds the key, finds under every other key what it found before, and
  \<^verbatim>\<open>removed\<close> says whether the key was there.
\<close>

lemma node_remove_map:
  assumes "node_rep sz l r ov es node" and "ascending (key_compare_typed data_type) es"
  shows "\<exists>work new. node_remove sz data_type node name = Some (work, node_find node sz data_type name \<noteq> None) \<and>
    (\<forall>k. node_find work sz data_type k = (if k = name then None else node_find node sz data_type k)) \<and>
    node_rep sz l r ov new work \<and> ascending (key_compare_typed data_type) new"
proof -
  obtain work where w: "node_remove sz data_type node name = Some (work, name \<in> fst ` set es)"
    "node_rep sz l r ov (del_entries name es) work"
    using node_remove_rep [OF assms(1) kc.ascending_distinct [OF assms(2)]] by blast
  have "name \<in> fst ` set es \<longleftrightarrow> map_of es name \<noteq> None" by (simp add: map_of_eq_None_iff)
  then show ?thesis
    using w node_find_rep [OF assms(1), of data_type] node_find_rep [OF w(2), of data_type]
      kc.map_of_del [of name es] kc.ascending_del [OF assms(2), of name]
    by (intro exI [of _ work] exI [of _ "del_entries name es"]) auto
qed

definition sample_entries :: "(u8 list \<times> u64) list" where
  "sample_entries = [([97], 5), ([99], 7)]"

definition sample_node :: "u8 list" where
  "sample_node = put_entries (bsplice nd_kFixed [97, 99] (node_frame 64 (replicate 64 0) 2 2)) 32 36 0 0 sample_entries"

lemma sample_node_rep: "node_rep 64 0 0 0 sample_entries sample_node"
proof -
  have z: "le64 (replicate 64 0) nd_kLeftLink = 0" "le64 (replicate 64 0) nd_kRightLink = 0"
    "le64 (replicate 64 0) nd_kOverflowLink = 0"
    by (simp_all add: le64_def bslice_def nd_offsets le_nat_zeros)
  have e: "lens_pos (Suc (Suc 0)) = 32" by (simp add: lens_pos_def align8_def nd_kFixed_def)
  show ?thesis
    using built_rep [of 64 sample_entries "replicate 64 0", OF _ _ z] e
    by (simp add: sample_node_def sample_entries_def kMaxBlockSize_def)
qed

lemma sample_entries_ok:
  "ascending (key_compare_typed kTreeStringType) sample_entries"
  "\<forall>e\<in>set sample_entries. typed_key kTreeStringType (fst e)" "typed_key kTreeStringType k"
  by (simp_all add: ascending_def sample_entries_def key_compare_typed_def typed_key_def tree_types kTreeStringType_def)

theorem node_insert_map_witness:
  "case node_insert 64 kTreeStringType sample_node [98] 9 of
     None \<Rightarrow> False
   | Some (work, existed) \<Rightarrow> \<not> existed \<and> node_find work 64 kTreeStringType [98] = Some 9 \<and>
       node_find work 64 kTreeStringType [99] = Some 7"
proof -
  have room: "\<not> 64 < lens_pos (key_bytes sample_entries + length [98 :: u8]) + (length sample_entries + 1) * 10"
    by (simp add: sample_entries_def lens_pos_def align8_def nd_kFixed_def)
  note t = node_insert_map [OF sample_node_rep sample_entries_ok, of "[98]" 9]
  show ?thesis
    using t room node_find_rep [OF sample_node_rep, of kTreeStringType]
    by (auto simp: kMaxKeyLength_def sample_entries_def split: option.splits)
qed

lemma node_remove_map_witness:
  "\<exists>work. node_remove 64 kTreeStringType sample_node [97] = Some (work, True) \<and>
     node_find work 64 kTreeStringType [97] = None \<and> node_find work 64 kTreeStringType [99] = Some 7"
  using node_remove_map [OF sample_node_rep sample_entries_ok(1), of "[97]"]
    node_find_rep [OF sample_node_rep, of kTreeStringType]
  by (auto simp: sample_entries_def)

text \<open>
  The operations trust the cumulative lengths of the node: one that passes the check of \<open>node_info\<close> may
  claim a key longer than any node, which \<^verbatim>\<open>copy_key\<close> would copy.
\<close>

lemma corrupt_key_length:
  "\<exists>node. length node = 64 \<and> node_info node 64 \<noteq> None \<and> key_at node 1 0 = Some (nd_kFixed, 65535)"
proof -
  let ?f = "node_frame 64 [] 1 0" and ?n = "put_le16 (node_frame 64 [] 1 0) 32 65535"
  note f = node_frame_facts [of 64 "[]" 1 0, unfolded nd_kFixed_def, simplified]
  have le: "le16 ?n nd_kKeyCount = 1" "le16 ?n nd_kAllKeyLength = 0" "le16 ?n 32 = 65535"
    using f by (simp_all add: le16_def put_le_other nd_offsets) (simp_all add: le16_def [symmetric] le_put_same)
  have "key_align 28 = 32"
    using key_align_nat [of 28] by (simp add: align8_def word_unat_eq_iff)
  then show ?thesis
    using le f(1) by (intro exI [of _ ?n]) (simp add: node_info_def key_at_def key_lengths_at_def nd_kFixed_def Let_def)
qed

section \<open>The tree header and the duplicate arrays read back\<close>

lemma tree_header_parse_build:
  assumes "th_kBytes \<le> length bytes" and "th_node_size h \<noteq> 0" and "unat (th_node_size h) \<le> kMaxBlockSize"
  shows "tree_header_parse (tree_header_build bytes h) = Some h"
proof -
  let ?b = "tree_header_build bytes h"
  have "le32 ?b th_kMagic = kTreeMagic" "le32 ?b th_kNodeSize = th_node_size h" "le32 ?b th_kMaxLevels = th_max_levels h"
    "le32 ?b th_kDataType = th_data_type h" "le64 ?b th_kRootNode = th_root h" "le64 ?b th_kFreeNode = th_free_node h"
    "le64 ?b th_kMaximumSize = th_maximum h"
    using assms(1) unfolding tree_header_build_def th_offsets
    by (simp_all add: le32_def le64_def put_le_other) (simp_all add: le32_def [symmetric] le64_def [symmetric] le_put_same)
  then show ?thesis using assms(2,3) by (simp add: tree_header_parse_def Let_def)
qed

lemma put_values_facts:
  "nd_kOverflowLink + 8 + (i + length vs) * 8 \<le> length w \<Longrightarrow>
   length (put_values w i vs) = length w \<and>
   (\<forall>pos m. pos + m \<le> nd_kOverflowLink + 8 + i * 8 \<longrightarrow> bslice pos m (put_values w i vs) = bslice pos m w) \<and>
   (\<forall>k<length vs. le64 (put_values w i vs) (nd_kOverflowLink + 8 + (i + k) * 8) = vs ! k)"
proof (induction vs arbitrary: w i)
  case Nil
  then show ?case by simp
next
  case (Cons v vs)
  let ?at = "nd_kOverflowLink + 8 + i * 8"
  let ?w = "put_le64 w ?at v" and ?r = "put_values (put_le64 w ?at v) (Suc i) vs"
  have len: "length ?w = length w" using Cons.prems by simp
  have IH: "length ?r = length w" "\<And>pos m. pos + m \<le> nd_kOverflowLink + 8 + Suc i * 8 \<Longrightarrow> bslice pos m ?r = bslice pos m ?w"
    "\<And>k. k < length vs \<Longrightarrow> le64 ?r (nd_kOverflowLink + 8 + (Suc i + k) * 8) = vs ! k"
    using Cons.IH [of "Suc i" ?w] Cons.prems len by auto
  have keep: "bslice pos m ?r = bslice pos m w" if "pos + m \<le> ?at" for pos m
    using IH(2) [of pos m] that Cons.prems by (simp add: put_le_other)
  have "le64 ?r ?at = v" using IH(2) [of ?at 8] le_put_same(3) [of ?at w v] Cons.prems by (simp add: le64_def)
  then have "le64 ?r (nd_kOverflowLink + 8 + (i + k) * 8) = (v # vs) ! k" if "k < length (v # vs)" for k
    using IH(3) [of "k - 1"] that by (cases k) auto
  then show ?case using IH(1) keep by simp
qed

text \<open>What a duplicate array was built from is what it reports.\<close>

lemma duplicate_build_read:
  fixes left right :: u64
  assumes "length vals \<le> duplicate_capacity sz" and "nd_kFixed \<le> sz"
  defines "node \<equiv> duplicate_build sz left right vals"
  shows "duplicate_count node sz = length vals" "le64 node nd_kRightLink = right"
    "duplicate_value node sz i = (if i < length vals then Some (vals ! i) else None)"
proof -
  let ?base = "put_le64 (put_le64 (replicate sz 0) nd_kLeftLink left) nd_kRightLink right"
  let ?w = "put_le64 ?base nd_kOverflowLink (of_nat (length vals))"
  have cap: "nd_kOverflowLink + 8 + length vals * 8 \<le> sz" "length vals \<le> 125"
    using assms(1,2) by (auto simp: duplicate_capacity_def Let_def nd_offsets kNumDuplicateValues_def split: if_splits)
  have len: "length ?w = sz" "length ?base = sz" using assms(2) by (simp_all add: nd_offsets)
  note f = put_values_facts [of 0 vals ?w, folded duplicate_build_def, folded node_def]
  have f2: "bslice pos m node = bslice pos m ?w" if "pos + m \<le> nd_kOverflowLink + 8" for pos m
    using f cap len that by simp
  have f3: "le64 node (nd_kOverflowLink + 8 + k * 8) = vals ! k" if "k < length vals" for k
    using f cap len that by simp
  have "le64 node nd_kOverflowLink = of_nat (length vals)"
    using f2 [of nd_kOverflowLink 8] le_put_same(3) [of nd_kOverflowLink ?base "of_nat (length vals)"] len assms(2) by (simp add: le64_def nd_offsets)
  then show cnt: "duplicate_count node sz = length vals"
    using cap(2) assms(1) by (simp add: duplicate_count_def Let_def unsigned_ucast_eq unat_of_nat take_bit_eq_mod)
  have "bslice nd_kRightLink 8 node = bslice nd_kRightLink 8 ?base"
    using f2 [of nd_kRightLink 8] assms(2) by (simp add: put_le_other nd_offsets)
  then show "le64 node nd_kRightLink = right"
    using le_put_same(3) [of nd_kRightLink "put_le64 (replicate sz 0) nd_kLeftLink left" right] assms(2)
    by (simp add: le64_def nd_offsets)
  show "duplicate_value node sz i = (if i < length vals then Some (vals ! i) else None)"
    using f3 [of i] by (simp add: duplicate_value_def cnt)
qed

end
