(* ===== verification/Bfs_Inode.thy ===== *)
theory Bfs_Inode
  imports Bfs_Tree
begin

text \<open>
  Inode blocks and the attributes kept inside them,
  \<^verbatim>\<open>src/libs/freestanding/aegir-bfs/src/inode.cc\<close>, \<^verbatim>\<open>attribute.cc\<close> and their headers: building and patching an
  inode block, and the packed list of small attributes at its end. The operations on the bytes of
  that list are shown to be those of a map from names to typed values.

  Offsets are natural numbers; the 32-bit sums that depend on a caller's length wrap as in the source.
\<close>

section \<open>Constants\<close>

definition kInodeMagic1 :: u32 where "kInodeMagic1 = 0x3bbe0ad9"
definition kInodeInUse :: u32 where "kInodeInUse = 1"
definition kInodeDeleted :: u32 where "kInodeDeleted = 0x10"
definition kModeTypeMask :: u32 where "kModeTypeMask = 0xf000"
definition kModeDirectory :: u32 where "kModeDirectory = 0x4000"
definition kModeAttrDir :: u32 where "kModeAttrDir = 0x08000000"
definition kModeAttr :: u32 where "kModeAttr = 0x10000000"
definition kFileNameName :: u8 where "kFileNameName = 0x13"
definition kFileNameType :: u32 where "kFileNameType = 0x43535452"

definition in_kMagic1 :: nat where "in_kMagic1 = 0"
definition in_kInodeNum :: nat where "in_kInodeNum = 4"
definition in_kUid :: nat where "in_kUid = 12"
definition in_kGid :: nat where "in_kGid = 16"
definition in_kMode :: nat where "in_kMode = 20"
definition in_kFlags :: nat where "in_kFlags = 24"
definition in_kCreateTime :: nat where "in_kCreateTime = 28"
definition in_kLastModified :: nat where "in_kLastModified = 36"
definition in_kParent :: nat where "in_kParent = 44"
definition in_kAttributes :: nat where "in_kAttributes = 52"
definition in_kType :: nat where "in_kType = 60"
definition in_kInodeSize :: nat where "in_kInodeSize = 64"
definition in_kEtc :: nat where "in_kEtc = 68"
definition in_kData :: nat where "in_kData = 72"
definition in_kSmallData :: nat where "in_kSmallData = 232"

definition ds_kDirect :: nat where "ds_kDirect = 0"
definition ds_kDirectCount :: nat where "ds_kDirectCount = 12"
definition ds_kIndirect :: nat where "ds_kIndirect = 104"
definition ds_kDoubleIndirect :: nat where "ds_kDoubleIndirect = 120"
definition ds_kSize :: nat where "ds_kSize = 136"
definition ds_kBytes :: nat where "ds_kBytes = 144"

lemmas in_offsets = in_kMagic1_def in_kInodeNum_def in_kUid_def in_kGid_def in_kMode_def in_kFlags_def
  in_kCreateTime_def in_kLastModified_def in_kParent_def in_kAttributes_def in_kType_def in_kInodeSize_def
  in_kEtc_def in_kData_def in_kSmallData_def ds_kDirect_def ds_kDirectCount_def ds_kIndirect_def
  ds_kDoubleIndirect_def ds_kSize_def ds_kBytes_def

definition wrap32 :: "nat \<Rightarrow> nat" where
  "wrap32 n = n mod 2 ^ 32"

section \<open>Building and patching\<close>

definition write_small_name :: "u8 list \<Rightarrow> nat \<Rightarrow> u8 list \<Rightarrow> u8 list" where
  "write_small_name block block_size name =
     (let at = in_kSmallData
      in if length name = 0 \<or> length name > kMaxName \<or> at + 13 + length name > block_size then block
         else
           bsplice (at + 8) ([kFileNameName, 0, 0, 0] @ name @ [0])
             (put_le16 (put_le16 (put_le32 block at kFileNameType) (at + 4) 1) (at + 6) (of_nat (length name))))"

definition inode_build ::
  "nat \<Rightarrow> run \<Rightarrow> run \<Rightarrow> u32 \<Rightarrow> u32 \<Rightarrow> u32 \<Rightarrow> u64 \<Rightarrow> u8 list \<Rightarrow> u8 list" where
  "inode_build block_size r parent mode uid gid time name =
     (let b0 = replicate block_size 0;
          b1 = put_le32 b0 in_kMagic1 kInodeMagic1;
          b2 = put_run b1 in_kInodeNum r;
          b3 = put_le32 (put_le32 (put_le32 b2 in_kUid uid) in_kGid gid) in_kMode mode;
          b4 = put_le32 b3 in_kFlags kInodeInUse;
          b5 = put_le64 (put_le64 b4 in_kCreateTime time) in_kLastModified time;
          b6 = put_run (put_run b5 in_kParent parent) in_kAttributes (run_make 0 0 0);
          b7 = put_le32 (put_le32 (put_le32 b6 in_kType 0) in_kInodeSize (of_nat block_size)) in_kEtc 0;
          b8 = put_le64 (put_le64 b7 (in_kData + ds_kSize) 0) (in_kData + ds_kBytes) time
      in write_small_name b8 block_size name)"

definition inode_set_owner :: "u8 list \<Rightarrow> u32 \<Rightarrow> u32 \<Rightarrow> u8 list" where
  "inode_set_owner block uid gid = put_le32 (put_le32 block in_kUid uid) in_kGid gid"

definition inode_set_mode :: "u8 list \<Rightarrow> u32 \<Rightarrow> u8 list" where
  "inode_set_mode block mode = put_le32 block in_kMode mode"

definition inode_get_stream :: "u8 list \<Rightarrow> u8 list" where
  "inode_get_stream block = bslice in_kData ds_kBytes block"

definition inode_set_stream :: "u8 list \<Rightarrow> u8 list \<Rightarrow> u64 \<Rightarrow> u64 \<Rightarrow> u8 list" where
  "inode_set_stream block stream sz mtime =
     put_le64 (put_le64 (put_le64 (bsplice in_kData (take ds_kBytes stream) block)
       (in_kData + ds_kSize) sz) in_kLastModified mtime) (in_kData + ds_kBytes) mtime"

definition inode_mark_deleted :: "u8 list \<Rightarrow> u8 list" where
  "inode_mark_deleted block = put_le32 (put_le32 block in_kMagic1 0) in_kFlags kInodeDeleted"

definition inode_set_type :: "u8 list \<Rightarrow> u32 \<Rightarrow> u8 list" where
  "inode_set_type block ty = put_le32 block in_kType ty"

definition inode_mode :: "u8 list \<Rightarrow> u32" where "inode_mode block = le32 block in_kMode"
definition inode_size :: "u8 list \<Rightarrow> u64" where "inode_size block = le64 block (in_kData + ds_kSize)"
definition inode_mtime :: "u8 list \<Rightarrow> u64" where "inode_mtime block = le64 block in_kLastModified"
definition inode_type :: "u8 list \<Rightarrow> u32" where "inode_type block = le32 block in_kType"
definition inode_flags :: "u8 list \<Rightarrow> u32" where "inode_flags block = le32 block in_kFlags"

definition mode_is_attr_dir :: "u32 \<Rightarrow> bool" where
  "mode_is_attr_dir mode \<longleftrightarrow> mode AND kModeAttrDir \<noteq> 0"

definition mode_is_attr :: "u32 \<Rightarrow> bool" where
  "mode_is_attr mode \<longleftrightarrow> mode AND kModeAttr \<noteq> 0"

definition mode_is_directory :: "u32 \<Rightarrow> bool" where
  "mode_is_directory mode \<longleftrightarrow> mode AND kModeTypeMask = kModeDirectory"

section \<open>The small attributes\<close>

record small_attribute =
  sa_type :: u32
  sa_name :: "u8 list"
  sa_data :: "u8 list"

definition small_entry_size :: "nat \<Rightarrow> nat \<Rightarrow> nat" where
  "small_entry_size name_length data_length = wrap32 (12 + name_length + data_length)"

definition in_bounds :: "nat \<Rightarrow> nat \<Rightarrow> bool" where
  "in_bounds isize at \<longleftrightarrow> at + 8 \<le> isize"

definition name_len :: "u8 list \<Rightarrow> nat \<Rightarrow> nat" where
  "name_len block at = unat (le16 block (at + 4))"

definition data_len :: "u8 list \<Rightarrow> nat \<Rightarrow> nat" where
  "data_len block at = unat (le16 block (at + 6))"

definition entry_size :: "u8 list \<Rightarrow> nat \<Rightarrow> nat \<Rightarrow> nat" where
  "entry_size block isize at =
     (let sz = small_entry_size (name_len block at) (data_len block at)
      in if at + sz \<le> isize then sz else 0)"

definition is_file_name :: "u8 list \<Rightarrow> nat \<Rightarrow> bool" where
  "is_file_name block at \<longleftrightarrow> name_len block at = 1 \<and> block ! (at + 8) = kFileNameName"

definition small_at :: "u8 list \<Rightarrow> nat \<Rightarrow> small_attribute" where
  "small_at block at =
     \<lparr>sa_type = le32 block at, sa_name = bslice (at + 8) (name_len block at) block,
      sa_data = bslice (at + 8 + name_len block at + 3) (data_len block at) block\<rparr>"

text \<open>The offset of the last entry of the name, 0 when there is none, and of the terminator.\<close>

function locate_from :: "u8 list \<Rightarrow> nat \<Rightarrow> u8 list \<Rightarrow> nat \<Rightarrow> nat \<Rightarrow> (nat \<times> nat) option" where
  "locate_from block isize name at found =
     (if in_bounds isize at \<and> name_len block at \<noteq> 0 then
        let sz = entry_size block isize at
        in if sz = 0 then None
           else locate_from block isize name (at + sz)
                  (if \<not> is_file_name block at \<and> bslice (at + 8) (name_len block at) block = name then at else found)
      else Some (found, at))"
  by pat_completeness auto
termination
  by (relation "measure (\<lambda>(block, isize, name, at, found). isize - at)")
    (auto simp: in_bounds_def entry_size_def Let_def split: if_splits)

declare locate_from.simps [simp del]

definition locate :: "u8 list \<Rightarrow> nat \<Rightarrow> u8 list \<Rightarrow> (nat \<times> nat) option" where
  "locate block isize name = locate_from block isize name in_kSmallData 0"

text \<open>The cursor after, and the attribute found.\<close>

function small_next_from :: "u8 list \<Rightarrow> nat \<Rightarrow> nat \<Rightarrow> nat \<Rightarrow> nat \<times> small_attribute option" where
  "small_next_from block isize cursor at =
     (if in_bounds isize at \<and> name_len block at \<noteq> 0 then
        let sz = entry_size block isize at
        in if sz = 0 then (cursor, None)
           else if \<not> is_file_name block at then (at + sz, Some (small_at block at))
           else small_next_from block isize (at + sz) (at + sz)
      else (cursor, None))"
  by pat_completeness auto
termination
  by (relation "measure (\<lambda>(block, isize, cursor, at). isize - at)")
    (auto simp: in_bounds_def entry_size_def Let_def split: if_splits)

declare small_next_from.simps [simp del]

definition small_next :: "u8 list \<Rightarrow> nat \<Rightarrow> nat \<Rightarrow> nat \<times> small_attribute option" where
  "small_next block isize cursor = small_next_from block isize cursor cursor"

lemma small_next_from_progress:
  "small_next_from block isize cursor at = (c, Some e) \<Longrightarrow> at < c \<and> c \<le> isize"
proof (induction block isize cursor at rule: small_next_from.induct)
  case (1 block isize cursor at)
  let ?size = "entry_size block isize at"
  have le: "?size \<noteq> 0 \<Longrightarrow> at + ?size \<le> isize" by (simp add: entry_size_def Let_def split: if_splits)
  have "in_bounds isize at \<and> name_len block at \<noteq> 0" "?size \<noteq> 0"
    using 1(2) by (auto simp: small_next_from.simps [of block isize cursor at] Let_def split: if_splits)
  then show ?case
    using 1 le by (auto simp: small_next_from.simps [of block isize cursor at] Let_def split: if_splits)
qed

lemma small_next_progress: "small_next block isize cursor = (c, Some e) \<Longrightarrow> isize - c < isize - cursor"
  using small_next_from_progress [of block isize cursor cursor c e] by (auto simp: small_next_def)

function small_find_from :: "u8 list \<Rightarrow> nat \<Rightarrow> u8 list \<Rightarrow> nat \<Rightarrow> small_attribute option" where
  "small_find_from block isize name cursor =
     (case small_next block isize cursor of
        (c, None) \<Rightarrow> None
      | (c, Some entry) \<Rightarrow>
          if sa_name entry = name then Some entry else small_find_from block isize name c)"
  by pat_completeness auto
termination
  by (relation "measure (\<lambda>(block, isize, name, cursor). isize - cursor)")
    (auto dest: small_next_progress small_next_progress [OF sym])

declare small_find_from.simps [simp del]

definition small_find :: "u8 list \<Rightarrow> nat \<Rightarrow> u8 list \<Rightarrow> small_attribute option" where
  "small_find block isize name = small_find_from block isize name in_kSmallData"

text \<open>Moving \<open>n\<close> bytes down to \<open>dst\<close>, and clearing from \<open>from\<close> to \<open>to\<close>.\<close>

definition move_down :: "u8 list \<Rightarrow> nat \<Rightarrow> nat \<Rightarrow> nat \<Rightarrow> u8 list" where
  "move_down block dst src n = bsplice dst (bslice src n block) block"

definition zero :: "u8 list \<Rightarrow> nat \<Rightarrow> nat \<Rightarrow> u8 list" where
  "zero block start to = bsplice start (replicate (to - start) 0) block"

definition put_entry :: "u8 list \<Rightarrow> nat \<Rightarrow> u32 \<Rightarrow> u8 list \<Rightarrow> u8 list \<Rightarrow> u8 list" where
  "put_entry block at ty name data =
     bsplice (at + 8) (name @ [0, 0, 0] @ data @ [0])
       (put_le16 (put_le16 (put_le32 block at ty) (at + 4) (of_nat (length name))) (at + 6) (of_nat (length data)))"

text \<open>\<open>None\<close> is the refusal, which leaves the block alone.\<close>

definition small_set :: "u8 list \<Rightarrow> nat \<Rightarrow> u32 \<Rightarrow> u8 list \<Rightarrow> u8 list \<Rightarrow> u8 list option" where
  "small_set block isize ty name data =
     (if length name = 0 \<or> length name > kMaxName then None
      else
        (case locate block isize name of
           None \<Rightarrow> None
         | Some (found_at, fin) \<Rightarrow>
             let needed = small_entry_size (length name) (length data);
                 old_size = (if found_at \<noteq> 0 then entry_size block isize found_at else 0)
             in if needed > wrap32 (isize + 2 ^ 32 - fin + old_size) then None
                else
                  let block1 = (if found_at \<noteq> 0 then move_down block found_at (found_at + old_size) (fin - (found_at + old_size))
                                else block);
                      fin1 = (if found_at \<noteq> 0 then fin - old_size else fin)
                  in Some (zero (put_entry block1 fin1 ty name data) (fin1 + needed) isize)))"

definition small_remove :: "u8 list \<Rightarrow> nat \<Rightarrow> u8 list \<Rightarrow> u8 list option" where
  "small_remove block isize name =
     (case locate block isize name of
        None \<Rightarrow> None
      | Some (found_at, fin) \<Rightarrow>
          if found_at = 0 then None
          else
            let sz = entry_size block isize found_at
            in Some (zero (move_down block found_at (found_at + sz) (fin - (found_at + sz))) (fin - sz) isize))"

text \<open>The stored name without the zero bytes at its end.\<close>

definition strip_zeros :: "u8 list \<Rightarrow> u8 list" where
  "strip_zeros bytes = rev (dropWhile (\<lambda>b. b = 0) (rev bytes))"

function small_file_name_from :: "u8 list \<Rightarrow> nat \<Rightarrow> nat \<Rightarrow> nat \<Rightarrow> u8 list option" where
  "small_file_name_from block isize capacity at =
     (if in_bounds isize at \<and> name_len block at \<noteq> 0 then
        let sz = entry_size block isize at
        in if sz = 0 then None
           else if is_file_name block at then
             let name = strip_zeros (sa_data (small_at block at))
             in if length name > capacity then None else Some name
           else small_file_name_from block isize capacity (at + sz)
      else None)"
  by pat_completeness auto
termination
  by (relation "measure (\<lambda>(block, isize, capacity, at). isize - at)")
    (auto simp: in_bounds_def entry_size_def Let_def split: if_splits)

declare small_file_name_from.simps [simp del]

definition small_file_name :: "u8 list \<Rightarrow> nat \<Rightarrow> nat \<Rightarrow> u8 list option" where
  "small_file_name block isize capacity = small_file_name_from block isize capacity in_kSmallData"

section \<open>The section as a list of attributes\<close>

definition esize :: "small_attribute \<Rightarrow> nat" where
  "esize e = 12 + length (sa_name e) + length (sa_data e)"

definition esizes :: "small_attribute list \<Rightarrow> nat" where
  "esizes es = sum_list (map esize es)"

definition is_name_entry :: "small_attribute \<Rightarrow> bool" where
  "is_name_entry e \<longleftrightarrow> sa_name e = [kFileNameName]"

text \<open>The entries \<open>es\<close> lie one after another from \<open>at\<close> on; after the last is the terminator.\<close>

fun entries_at :: "u8 list \<Rightarrow> nat \<Rightarrow> nat \<Rightarrow> small_attribute list \<Rightarrow> bool" where
  "entries_at block isize at [] \<longleftrightarrow> at \<le> isize"
| "entries_at block isize at (e # es) \<longleftrightarrow>
     small_at block at = e \<and> name_len block at = length (sa_name e) \<and> data_len block at = length (sa_data e) \<and>
     sa_name e \<noteq> [] \<and> at + esize e \<le> isize \<and> entries_at block isize (at + esize e) es"

definition terminated :: "u8 list \<Rightarrow> nat \<Rightarrow> nat \<Rightarrow> bool" where
  "terminated block isize at \<longleftrightarrow> \<not> (in_bounds isize at \<and> name_len block at \<noteq> 0)"

definition smalls :: "u8 list \<Rightarrow> nat \<Rightarrow> small_attribute list \<Rightarrow> bool" where
  "smalls block isize es \<longleftrightarrow> length block = isize \<and> isize \<le> kMaxBlockSize \<and>
     entries_at block isize in_kSmallData es \<and> terminated block isize (in_kSmallData + esizes es)"

lemma esizes_simps [simp]:
  "esizes [] = 0" "esizes (e # es) = esize e + esizes es" "esizes (xs @ ys) = esizes xs + esizes ys"
  by (simp_all add: esizes_def)

lemma entries_at_bound: "entries_at block isize at es \<Longrightarrow> at + esizes es \<le> isize"
  by (induction es arbitrary: at) (auto simp: add.assoc [symmetric])

lemma entries_at_append:
  "entries_at block isize at (xs @ ys) \<longleftrightarrow> entries_at block isize at xs \<and> entries_at block isize (at + esizes xs) ys"
proof (induction xs arbitrary: at)
  case Nil
  then show ?case using entries_at_bound [of block isize at ys] by auto
next
  case (Cons x xs)
  then show ?case by (auto simp: add.assoc)
qed

lemma entry_facts:
  assumes "entries_at block isize at (e # es)" and "length block = isize" and "isize \<le> kMaxBlockSize"
  shows "in_bounds isize at" "name_len block at \<noteq> 0" "entry_size block isize at = esize e"
    "is_file_name block at = is_name_entry e" "bslice (at + 8) (name_len block at) block = sa_name e"
proof -
  have e: "small_at block at = e" "name_len block at = length (sa_name e)" "data_len block at = length (sa_data e)"
    "sa_name e \<noteq> []" "at + esize e \<le> isize"
    using assms(1) by auto
  show "in_bounds isize at" using e(5) by (simp add: in_bounds_def esize_def)
  show "name_len block at \<noteq> 0" using e(2,4) by simp
  show "entry_size block isize at = esize e"
    using e(2,3,5) assms(3)
    by (simp add: entry_size_def small_entry_size_def wrap32_def esize_def kMaxBlockSize_def)
  show n: "bslice (at + 8) (name_len block at) block = sa_name e"
    using e(1) by (auto simp: small_at_def)
  have "block ! (at + 8) = hd (sa_name e)"
    using n e(2,4,5) assms(2) by (simp add: bslice_def esize_def hd_drop_conv_nth [symmetric])
      (metis drop_eq_Nil hd_take length_greater_0_conv e(4))
  then show "is_file_name block at = is_name_entry e"
    using e(2,4) by (cases "sa_name e") (auto simp: is_file_name_def is_name_entry_def)
qed

text \<open>The entries depend on their own bytes only, so moving the bytes moves them.\<close>

lemma small_at_shift:
  assumes "bslice at n block = bslice at' n block'" and "12 + name_len block at + data_len block at \<le> n"
  shows "name_len block' at' = name_len block at" "data_len block' at' = data_len block at"
    "small_at block' at' = small_at block at"
proof -
  have sl: "bslice (at + i) m block = bslice (at' + i) m block'" if "i + m \<le> n" for i m
    using bslice_bslice [OF that, of at block] bslice_bslice [OF that, of at' block'] assms(1) by simp
  show nl: "name_len block' at' = name_len block at" and dl: "data_len block' at' = data_len block at"
    using sl [of 4 2] sl [of 6 2] assms(2) by (simp_all add: name_len_def data_len_def le16_def)
  show "small_at block' at' = small_at block at"
    using sl [of 0 4] sl [of 8 "name_len block at"] sl [of "8 + name_len block at + 3" "data_len block at"] assms(2) nl dl
    by (simp add: small_at_def le32_def add.assoc)
qed

lemma entries_at_shift:
  "entries_at block isize at es \<Longrightarrow> bslice at (esizes es) block = bslice at' (esizes es) block' \<Longrightarrow>
   at' + esizes es \<le> isize \<Longrightarrow> entries_at block' isize at' es"
proof (induction es arbitrary: at at')
  case Nil
  then show ?case by simp
next
  case (Cons e es)
  have fit: "12 + name_len block at + data_len block at = esize e" using Cons.prems(1) by (simp add: esize_def)
  have sl: "bslice (at + i) m block = bslice (at' + i) m block'" if "i + m \<le> esizes (e # es)" for i m
    using bslice_bslice [OF that, of at block] bslice_bslice [OF that, of at' block'] Cons.prems(2) by simp
  have "entries_at block' isize (at' + esize e) es"
    using Cons.IH [of "at + esize e" "at' + esize e"] sl [of "esize e" "esizes es"] Cons.prems by (simp add: add.assoc)
  then show ?case
    using small_at_shift [OF Cons.prems(2)] fit Cons.prems by simp
qed

section \<open>Searching\<close>

lemma small_next_entries:
  assumes "entries_at block isize at (e # es)" and "length block = isize" "isize \<le> kMaxBlockSize"
  shows "small_next block isize at =
    (if is_name_entry e then small_next block isize (at + esize e) else (at + esize e, Some e))"
proof -
  note f = entry_facts [OF assms]
  have "small_next_from block isize at at =
    (if is_name_entry e then small_next_from block isize (at + esize e) (at + esize e) else (at + esize e, Some (small_at block at)))"
    using f by (simp add: small_next_from.simps [of block isize at at] Let_def esize_def)
  then show ?thesis using assms(1) by (simp add: small_next_def)
qed

lemma small_next_end: "terminated block isize at \<Longrightarrow> small_next block isize at = (at, None)"
  by (auto simp: small_next_def small_next_from.simps [of block isize at at] terminated_def)

definition find_entry :: "u8 list \<Rightarrow> small_attribute list \<Rightarrow> small_attribute option" where
  "find_entry name es = List.find (\<lambda>e. \<not> is_name_entry e \<and> sa_name e = name) es"

lemma small_find_entries:
  assumes "entries_at block isize at es" and "length block = isize" "isize \<le> kMaxBlockSize"
    and "terminated block isize (at + esizes es)"
  shows "small_find_from block isize name at = find_entry name es"
  using assms(1,4)
proof (induction es arbitrary: at)
  case Nil
  then show ?case by (simp add: small_find_from.simps [of block isize name at] small_next_end find_entry_def)
next
  case (Cons e es)
  note n = small_next_entries [OF Cons.prems(1) assms(2,3)]
  have IH: "small_find_from block isize name (at + esize e) = find_entry name es"
    using Cons.IH [of "at + esize e"] Cons.prems by (simp add: add.assoc)
  show ?case
  proof (cases "is_name_entry e")
    case True
    then have "small_find_from block isize name at = small_find_from block isize name (at + esize e)"
      using n by (simp add: small_find_from.simps [of block isize name at] small_find_from.simps [of block isize name "at + esize e"])
    then show ?thesis using IH True by (simp add: find_entry_def)
  next
    case False
    then show ?thesis using n IH by (simp add: small_find_from.simps [of block isize name at] find_entry_def)
  qed
qed

lemma small_find_smalls: "smalls block isize es \<Longrightarrow> small_find block isize name = find_entry name es"
  by (simp add: small_find_def smalls_def small_find_entries)

lemma locate_entries:
  assumes "entries_at block isize at es" and "length block = isize" "isize \<le> kMaxBlockSize"
    and "terminated block isize (at + esizes es)" and "find_entry name es = None"
  shows "locate_from block isize name at found = Some (found, at + esizes es)"
  using assms(1,4,5)
proof (induction es arbitrary: at)
  case Nil
  then show ?case by (auto simp: locate_from.simps [of block isize name at] terminated_def)
next
  case (Cons e es)
  note f = entry_facts [OF Cons.prems(1) assms(2,3)]
  show ?case
    using f Cons.IH [of "at + esize e"] Cons.prems
    by (auto simp: locate_from.simps [of block isize name at] Let_def esize_def find_entry_def add.assoc split: if_splits)
qed

lemma locate_found:
  assumes "entries_at block isize at (xs @ e # ys)" and "length block = isize" "isize \<le> kMaxBlockSize"
    and "terminated block isize (at + esizes (xs @ e # ys))"
    and "find_entry name xs = None" "find_entry name ys = None" "\<not> is_name_entry e" "sa_name e = name"
  shows "locate_from block isize name at found = Some (at + esizes xs, at + esizes (xs @ e # ys))"
  using assms(1,4,5)
proof (induction xs arbitrary: at found)
  case Nil
  have h: "entries_at block isize at (e # ys)" using Nil.prems(1) by simp
  note f = entry_facts [OF h assms(2,3)]
  have "locate_from block isize name (at + esize e) at = Some (at, at + esize e + esizes ys)"
    by (rule locate_entries) (use Nil.prems h assms(2,3,6) in \<open>auto simp: add.assoc\<close>)
  then show ?case
    using f assms(7,8) by (simp add: locate_from.simps [of block isize name at found] Let_def esize_def add.assoc)
next
  case (Cons x xs)
  have h: "entries_at block isize at (x # (xs @ e # ys))" using Cons.prems(1) by simp
  note f = entry_facts [OF h assms(2,3)]
  show ?case
    using f Cons.IH [of "at + esize x"] Cons.prems
    by (auto simp: locate_from.simps [of block isize name at] Let_def esize_def find_entry_def add.assoc split: if_splits)
qed

section \<open>Setting and removing\<close>

text \<open>The attributes without the one of the name; the file name is not an attribute.\<close>

definition drop_entry :: "u8 list \<Rightarrow> small_attribute list \<Rightarrow> small_attribute list" where
  "drop_entry name es = filter (\<lambda>e. is_name_entry e \<or> sa_name e \<noteq> name) es"

definition attr_names :: "small_attribute list \<Rightarrow> u8 list list" where
  "attr_names es = map sa_name (filter (\<lambda>e. \<not> is_name_entry e) es)"

lemma find_entry_None: "find_entry name es = None \<longleftrightarrow> drop_entry name es = es"
  by (auto simp: find_entry_def drop_entry_def find_None_iff filter_id_conv)

lemma split_entry:
  assumes "find_entry name es = Some e" and "distinct (attr_names es)"
  obtains xs ys where "es = xs @ e # ys" "find_entry name xs = None" "find_entry name ys = None"
    "\<not> is_name_entry e" "sa_name e = name" "drop_entry name es = xs @ ys"
proof -
  obtain i where i: "i < length es" "\<not> is_name_entry (es ! i)" "sa_name (es ! i) = name" "e = es ! i"
    "\<forall>j<i. \<not> (\<not> is_name_entry (es ! j) \<and> sa_name (es ! j) = name)"
    using assms(1) by (auto simp: find_entry_def find_Some_iff)
  let ?xs = "take i es" and ?ys = "drop (Suc i) es"
  have es: "es = ?xs @ e # ?ys" using i(1,4) by (simp add: id_take_nth_drop)
  have x: "find_entry name ?xs = None"
    using i(5) by (auto simp: find_entry_def find_None_iff in_set_conv_nth)
  have "distinct (attr_names (?xs @ e # ?ys))" using assms(2) es by simp
  then have y: "find_entry name ?ys = None"
    using i(2-4) by (auto simp: find_entry_def find_None_iff attr_names_def image_iff)
  have "drop_entry name (?xs @ e # ?ys) = ?xs @ ?ys"
    using x y i(2-4) by (auto simp: find_entry_None drop_entry_def)
  then have "drop_entry name es = ?xs @ ?ys" using es by simp
  then show ?thesis using that [OF es x y] i(2-4) by simp
qed

lemma drop_entry_find:
  assumes "distinct (attr_names es)"
  shows "find_entry k (drop_entry name es) = (if k = name then None else find_entry k es)"
    and "distinct (attr_names (drop_entry name es))" and "name \<notin> set (attr_names (drop_entry name es))"
proof -
  show "find_entry k (drop_entry name es) = (if k = name then None else find_entry k es)"
    by (induction es) (auto simp: find_entry_def drop_entry_def)
  show "distinct (attr_names (drop_entry name es))"
  proof -
    have "attr_names (drop_entry name es) = filter (\<lambda>n. n \<noteq> name) (attr_names es)"
      by (induction es) (auto simp: attr_names_def drop_entry_def)
    then show ?thesis using assms by simp
  qed
  show "name \<notin> set (attr_names (drop_entry name es))"
    by (auto simp: attr_names_def drop_entry_def)
qed

text \<open>Writing one entry at the end of a list, and clearing the rest.\<close>

lemma put_entry_facts:
  fixes ty :: u32
  assumes "at + 12 + length name + length data \<le> length block" "length name < 2 ^ 16" "length data < 2 ^ 16"
  defines "w \<equiv> put_entry block at ty name data"
  shows "length w = length block" "name_len w at = length name" "data_len w at = length data"
    "small_at w at = \<lparr>sa_type = ty, sa_name = name, sa_data = data\<rparr>"
    "pos + m \<le> at \<Longrightarrow> bslice pos m w = bslice pos m block"
    "at + 12 + length name + length data \<le> pos \<Longrightarrow> pos + m \<le> length block \<Longrightarrow> bslice pos m w = bslice pos m block"
proof -
  let ?b = "put_le16 (put_le16 (put_le32 block at ty) (at + 4) (of_nat (length name))) (at + 6) (of_nat (length data))"
  let ?x = "name @ [0, 0, 0] @ data @ [0]"
  have len: "length ?b = length block" "at + 8 + length ?x \<le> length ?b" using assms(1) by simp_all
  show "length w = length block" unfolding w_def put_entry_def using len by (simp only: length_bsplice)
  have low: "bslice pos m w = bslice pos m ?b" if "pos + m \<le> at + 8" for pos m
    unfolding w_def put_entry_def using len that by (intro bslice_bsplice_other) auto
  have high: "bslice (at + 8 + i) m w = bslice i m ?x" if "i + m \<le> length ?x" for i m
    using bslice_bslice [OF that, of "at + 8" w] bslice_bsplice_same [OF len(2) refl]
    by (simp add: w_def put_entry_def)
  have f: "le32 w at = ty" "le16 w (at + 4) = of_nat (length name)" "le16 w (at + 6) = of_nat (length data)"
    using low [of at 4] low [of "at + 4" 2] low [of "at + 6" 2] assms(1)
    by (simp_all add: le32_def le16_def put_le_other)
      (simp_all add: le32_def [symmetric] le16_def [symmetric] le_put_same)
  show nl: "name_len w at = length name" and dl: "data_len w at = length data"
    using f assms(2,3) by (simp_all add: name_len_def data_len_def unat_small)
  have "bslice (at + 8) (length name) w = name" using high [of 0 "length name"] by (simp add: bslice_def)
  moreover have "bslice (at + 8 + length name + 3) (length data) w = data"
    using high [of "length name + 3" "length data"] by (simp add: bslice_def add.assoc)
  ultimately show "small_at w at = \<lparr>sa_type = ty, sa_name = name, sa_data = data\<rparr>"
    using f(1) nl dl by (simp add: small_at_def)
  show "bslice pos m w = bslice pos m block" if "pos + m \<le> at"
    using low [of pos m] that assms(1) by (simp add: put_le_other)
  show "bslice pos m w = bslice pos m block"
    if "at + 12 + length name + length data \<le> pos" "pos + m \<le> length block"
  proof -
    have "bslice pos m w = bslice pos m ?b"
      unfolding w_def put_entry_def using len that by (intro bslice_bsplice_other) auto
    then show ?thesis using that assms(1) by (simp add: put_le_other)
  qed
qed

lemma zero_facts:
  assumes "start \<le> length block"
  defines "w \<equiv> zero block start (length block)"
  shows "length w = length block" "pos + m \<le> start \<Longrightarrow> bslice pos m w = bslice pos m block"
    "terminated w (length block) start"
proof -
  have fit: "start + length (replicate (length block - start) (0 :: u8)) \<le> length block" using assms by simp
  show "length w = length block" using fit by (simp add: w_def zero_def)
  show "bslice pos m w = bslice pos m block" if "pos + m \<le> start"
    unfolding w_def zero_def using fit that assms(1) by (intro bslice_bsplice_other) auto
  show "terminated w (length block) start"
  proof (cases "in_bounds (length block) start")
    case True
    have all: "bslice start (length block - start) w = replicate (length block - start) 0"
      unfolding w_def zero_def using bslice_bsplice_same [OF fit] by simp
    have "bslice (start + 4) 2 w = bslice 4 2 (bslice start (length block - start) w)"
      using True by (simp add: bslice_bslice in_bounds_def)
    also have "\<dots> = replicate 2 0" unfolding all using True by (simp add: bslice_def in_bounds_def)
    finally have "name_len w start = 0" by (simp add: name_len_def le16_def)
    then show ?thesis by (simp add: terminated_def)
  qed (simp add: terminated_def)
qed

lemma move_down_facts:
  assumes "dst \<le> src" "src + n \<le> length block"
  shows "length (move_down block dst src n) = length block"
    "pos + m \<le> dst \<Longrightarrow> bslice pos m (move_down block dst src n) = bslice pos m block"
    "bslice dst n (move_down block dst src n) = bslice src n block"
  using assms by (auto simp: move_down_def bslice_bsplice_other bslice_bsplice_same)

lemma append_entry:
  fixes ty :: u32
  assumes ents: "entries_at block isize in_kSmallData es" and len: "length block = isize" "isize \<le> kMaxBlockSize"
    and name: "name \<noteq> []" and room: "in_kSmallData + esizes es + 12 + length name + length data \<le> isize"
  defines "at \<equiv> in_kSmallData + esizes es" and "new \<equiv> \<lparr>sa_type = ty, sa_name = name, sa_data = data\<rparr>"
  defines "w \<equiv> zero (put_entry block at ty name data) (at + esize new) isize"
  shows "smalls w isize (es @ [new])" "bslice 0 in_kSmallData w = bslice 0 in_kSmallData block"
proof -
  have sz: "esize new = 12 + length name + length data" by (simp add: esize_def new_def)
  have small: "length name < 2 ^ 16" "length data < 2 ^ 16" using room len(2) by (simp_all add: kMaxBlockSize_def)
  let ?p = "put_entry block at ty name data"
  have fit: "at + 12 + length name + length data \<le> length block" using room len(1) by (simp add: at_def)
  note p = put_entry_facts [OF fit small, where ty = ty]
  have start: "at + esize new \<le> length ?p" using p(1) fit sz by simp
  note z = zero_facts [OF start, unfolded p(1) len(1), folded w_def]
  have keep: "bslice pos m w = bslice pos m block" if "pos + m \<le> at" for pos m
    using z(2) [of pos m] p(5) [of pos m] that sz by simp
  then show "bslice 0 in_kSmallData w = bslice 0 in_kSmallData block" by (simp add: at_def)
  have old: "entries_at w isize in_kSmallData es"
    using entries_at_shift [OF ents, of in_kSmallData w] keep [of in_kSmallData "esizes es"] entries_at_bound [OF ents]
    by (simp add: at_def)
  have "bslice at (esize new) ?p = bslice at (esize new) w" using z(2) [of at "esize new"] by simp
  note sh = small_at_shift [OF this]
  have "entries_at w isize at [new]"
    using sh p(2-4) sz name start p(1) len(1) by (simp add: new_def)
  then have "entries_at w isize in_kSmallData (es @ [new])"
    using old by (simp add: entries_at_append at_def)
  then show "smalls w isize (es @ [new])"
    using z(1,3) len(2) by (simp add: smalls_def at_def add.assoc)
qed

text \<open>Closing the gap a dropped entry leaves.\<close>

lemma close_gap:
  assumes ents: "entries_at block isize in_kSmallData (xs @ e # ys)" and len: "length block = isize"
  defines "w \<equiv> move_down block (in_kSmallData + esizes xs) (in_kSmallData + esizes xs + esize e) (esizes ys)"
  shows "entries_at w isize in_kSmallData (xs @ ys)" "length w = isize"
    "bslice 0 in_kSmallData w = bslice 0 in_kSmallData block"
proof -
  let ?at = "in_kSmallData + esizes xs"
  have parts: "entries_at block isize in_kSmallData xs" "entries_at block isize (?at + esize e) ys"
    using ents by (auto simp: entries_at_append)
  have fit: "?at + esize e + esizes ys \<le> length block" using entries_at_bound [OF parts(2)] len by simp
  note mv = move_down_facts [of ?at "?at + esize e" "esizes ys" block, OF le_add1 fit, folded w_def]
  show "length w = isize" using mv(1) len by simp
  show "bslice 0 in_kSmallData w = bslice 0 in_kSmallData block" using mv(2) by simp
  have "entries_at w isize in_kSmallData xs"
    using entries_at_shift [OF parts(1), of in_kSmallData w] mv(2) [of in_kSmallData "esizes xs"] entries_at_bound [OF parts(1)]
    by simp
  moreover have "entries_at w isize ?at ys"
    using entries_at_shift [OF parts(2), of ?at w] mv(3) fit len by simp
  ultimately show "entries_at w isize in_kSmallData (xs @ ys)" by (simp add: entries_at_append)
qed

lemma locate_smalls:
  assumes "smalls block isize es" and "distinct (attr_names es)"
  shows "find_entry name es = None \<Longrightarrow> locate block isize name = Some (0, in_kSmallData + esizes es)"
    and "es = xs @ e # ys \<Longrightarrow> find_entry name xs = None \<Longrightarrow> find_entry name ys = None \<Longrightarrow> \<not> is_name_entry e \<Longrightarrow>
      sa_name e = name \<Longrightarrow> locate block isize name = Some (in_kSmallData + esizes xs, in_kSmallData + esizes es) \<and>
      entry_size block isize (in_kSmallData + esizes xs) = esize e"
proof -
  have s: "entries_at block isize in_kSmallData es" "length block = isize" "isize \<le> kMaxBlockSize"
    "terminated block isize (in_kSmallData + esizes es)"
    using assms(1) by (auto simp: smalls_def)
  show "locate block isize name = Some (0, in_kSmallData + esizes es)" if "find_entry name es = None"
    unfolding locate_def by (rule locate_entries [OF s that])
  assume es: "es = xs @ e # ys" and x: "find_entry name xs = None" "find_entry name ys = None" "\<not> is_name_entry e" "sa_name e = name"
  have "entries_at block isize (in_kSmallData + esizes xs) (e # ys)" using s(1) es by (simp add: entries_at_append)
  from entry_facts(3) [OF this s(2,3)]
  show "locate block isize name = Some (in_kSmallData + esizes xs, in_kSmallData + esizes es) \<and>
      entry_size block isize (in_kSmallData + esizes xs) = esize e"
    using locate_found [OF s(1) [unfolded es] s(2,3) s(4) [unfolded es] x] by (simp add: locate_def es)
qed

lemma small_set_entries:
  fixes ty :: u32
  assumes sm: "smalls block isize es" and dist: "distinct (attr_names es)"
    and name: "name \<noteq> []" "length name \<le> kMaxName" and data: "length data < 2 ^ 31"
  defines "new \<equiv> \<lparr>sa_type = ty, sa_name = name, sa_data = data\<rparr>" and "rest \<equiv> drop_entry name es"
  shows "case small_set block isize ty name data of
      None \<Rightarrow> isize < in_kSmallData + esizes rest + esize new
    | Some w \<Rightarrow> smalls w isize (rest @ [new]) \<and> bslice 0 in_kSmallData w = bslice 0 in_kSmallData block"
proof -
  have s: "entries_at block isize in_kSmallData es" "length block = isize" "isize \<le> kMaxBlockSize"
    using sm by (auto simp: smalls_def)
  have sz: "esize new = 12 + length name + length data" by (simp add: esize_def new_def)
  have needed: "small_entry_size (length name) (length data) = esize new"
    using name(2) data sz by (simp add: small_entry_size_def wrap32_def kMaxName_def)
  have w32: "wrap32 (isize + 2 ^ 32 - f + old) = isize - f + old" if "f \<le> isize" "old \<le> isize" for f old
  proof -
    have "isize + 2 ^ 32 - f + old = (isize - f + old) + 2 ^ 32" using that(1) by simp
    then show ?thesis using that(2) s(3) by (simp only: wrap32_def mod_add_self2) (simp add: kMaxBlockSize_def)
  qed
  have le: "in_kSmallData + esizes es \<le> isize" by (rule entries_at_bound [OF s(1)])
  show ?thesis
  proof (cases "find_entry name es")
    case None
    note loc = locate_smalls(1) [OF sm dist None]
    have rest: "rest = es" using None by (simp add: rest_def find_entry_None)
    let ?at = "in_kSmallData + esizes es"
    have c: "small_set block isize ty name data =
      (if esize new > isize - ?at then None else Some (zero (put_entry block ?at ty name data) (?at + esize new) isize))"
      using loc name needed w32 [OF le, of 0] by (simp add: small_set_def Let_def)
    show ?thesis
      using c append_entry [OF s name(1), of data ty] le unfolding rest by (auto simp: esize_def new_def)
  next
    case (Some e)
    from split_entry [OF this dist] obtain xs ys where es: "es = xs @ e # ys"
      and p: "find_entry name xs = None" "find_entry name ys = None" "\<not> is_name_entry e" "sa_name e = name"
      and rest: "rest = xs @ ys"
      unfolding rest_def by metis
    note loc = locate_smalls(2) [OF sm dist es p]
    note gap = close_gap [OF s(1) [unfolded es] s(2)]
    let ?f = "in_kSmallData + esizes xs" and ?fin = "in_kSmallData + esizes es" and ?at = "in_kSmallData + esizes rest"
    let ?b = "move_down block ?f (?f + esize e) (esizes ys)"
    have eq: "?fin - (?f + esize e) = esizes ys" "?fin - esize e = ?at" "isize - ?fin + esize e = isize - ?at" "?f \<noteq> 0"
      using es rest le by (simp_all add: in_kSmallData_def)
    have "esize e \<le> isize" using le es by simp
    note w32 = w32 [OF le this]
    have c: "small_set block isize ty name data =
      (if esize new > isize - ?at then None else Some (zero (put_entry ?b ?at ty name data) (?at + esize new) isize))"
      unfolding small_set_def loc [THEN conjunct1] using name needed w32 loc eq by (simp add: Let_def)
    have at: "?at \<le> isize" using eq(2) le by linarith
    note ap = append_entry [OF gap(1) [folded rest] gap(2) s(3) name(1), of data ty]
    show ?thesis
      using c ap gap(3) at by (auto simp: esize_def new_def)
  qed
qed

lemma small_remove_entries:
  assumes sm: "smalls block isize es" and dist: "distinct (attr_names es)"
  shows "case small_remove block isize name of
      None \<Rightarrow> find_entry name es = None
    | Some w \<Rightarrow> find_entry name es \<noteq> None \<and> smalls w isize (drop_entry name es) \<and>
        bslice 0 in_kSmallData w = bslice 0 in_kSmallData block"
proof (cases "find_entry name es")
  case None
  then show ?thesis using locate_smalls(1) [OF sm dist None] by (simp add: small_remove_def)
next
  case (Some e)
  have s: "entries_at block isize in_kSmallData es" "length block = isize" "isize \<le> kMaxBlockSize"
    using sm by (auto simp: smalls_def)
  from split_entry [OF Some dist] obtain xs ys where es: "es = xs @ e # ys"
    and p: "find_entry name xs = None" "find_entry name ys = None" "\<not> is_name_entry e" "sa_name e = name"
    and rest: "drop_entry name es = xs @ ys"
    by metis
  note loc = locate_smalls(2) [OF sm dist es p]
  note gap = close_gap [OF s(1) [unfolded es] s(2)]
  let ?f = "in_kSmallData + esizes xs" and ?at = "in_kSmallData + esizes (xs @ ys)"
  let ?b = "move_down block ?f (?f + esize e) (esizes ys)"
  have le: "?at \<le> length ?b" using entries_at_bound [OF gap(1)] gap(2) by simp
  note z = zero_facts [OF le, unfolded gap(2)]
  have eq: "in_kSmallData + esizes es - (?f + esize e) = esizes ys" "in_kSmallData + esizes es - esize e = ?at" "?f \<noteq> 0"
    using es by (simp_all add: in_kSmallData_def)
  have c: "small_remove block isize name = Some (zero ?b ?at isize)"
    unfolding small_remove_def loc [THEN conjunct1] using loc eq by (simp add: Let_def)
  have "entries_at (zero ?b ?at isize) isize in_kSmallData (xs @ ys)"
    using entries_at_shift [OF gap(1), of in_kSmallData "zero ?b ?at isize"] z(2) [of in_kSmallData "esizes (xs @ ys)"] le gap(2)
    by simp
  moreover have "bslice 0 in_kSmallData (zero ?b ?at isize) = bslice 0 in_kSmallData block"
    using z(2) [of 0 in_kSmallData] gap(3) by simp
  ultimately show ?thesis using c z(1,3) s(3) Some rest by (simp add: smalls_def)
qed

section \<open>The file name\<close>

definition find_name :: "nat \<Rightarrow> small_attribute list \<Rightarrow> u8 list option" where
  "find_name capacity es =
     (case List.find is_name_entry es of
        None \<Rightarrow> None
      | Some e \<Rightarrow> let n = strip_zeros (sa_data e) in if length n > capacity then None else Some n)"

lemma small_file_name_entries:
  assumes "entries_at block isize at es" and "length block = isize" "isize \<le> kMaxBlockSize"
    and "terminated block isize (at + esizes es)"
  shows "small_file_name_from block isize capacity at = find_name capacity es"
  using assms(1,4)
proof (induction es arbitrary: at)
  case Nil
  then show ?case
    by (auto simp: small_file_name_from.simps [of block isize capacity at] terminated_def find_name_def)
next
  case (Cons e es)
  have IH: "small_file_name_from block isize capacity (at + esize e) = find_name capacity es"
    using Cons.IH [of "at + esize e"] Cons.prems by (simp add: add.assoc)
  note f = entry_facts [OF Cons.prems(1) assms(2,3)]
  show ?case
    using f IH Cons.prems(1)
    by (auto simp: small_file_name_from.simps [of block isize capacity at] Let_def esize_def find_name_def)
qed

lemma small_file_name_smalls:
  "smalls block isize es \<Longrightarrow> small_file_name block isize capacity = find_name capacity es"
  by (simp add: smalls_def small_file_name_def small_file_name_entries)

lemma find_name_drop:
  "name \<noteq> [kFileNameName] \<Longrightarrow> find_name capacity (drop_entry name es @ [\<lparr>sa_type = ty, sa_name = name, sa_data = data\<rparr>]) =
   find_name capacity es" "find_name capacity (drop_entry name es) = find_name capacity es"
proof -
  have d: "List.find is_name_entry (drop_entry name es) = List.find is_name_entry es"
    by (induction es) (auto simp: drop_entry_def)
  then show "find_name capacity (drop_entry name es) = find_name capacity es" by (simp add: find_name_def)
  have "List.find is_name_entry (xs @ [e]) = List.find is_name_entry xs" if "\<not> is_name_entry e" for xs e
    using that by (induction xs) auto
  then show "find_name capacity (drop_entry name es @ [\<lparr>sa_type = ty, sa_name = name, sa_data = data\<rparr>]) = find_name capacity es"
    if "name \<noteq> [kFileNameName]" using that d by (simp add: find_name_def is_name_entry_def)
qed

text \<open>
  C15. Setting an attribute inside an inode either is refused, only when the inode has no room for it
  beside the other attributes, or gives a block in which the attribute reads back with its type and
  bytes, every other attribute and the inode's own name read as before, and the fields of the inode
  are untouched. The name reserved for the inode's own name is excluded.
\<close>

theorem small_set_map:
  assumes "smalls block isize es" and "distinct (attr_names es)"
    and "name \<noteq> []" "length name \<le> kMaxName" "name \<noteq> [kFileNameName]" "length data < 2 ^ 31"
  shows "case small_set block isize ty name data of
      None \<Rightarrow> isize < in_kSmallData + esizes (drop_entry name es) + 12 + length name + length data
    | Some w \<Rightarrow>
        small_find w isize name = Some \<lparr>sa_type = ty, sa_name = name, sa_data = data\<rparr> \<and>
        (\<forall>k. k \<noteq> name \<longrightarrow> small_find w isize k = small_find block isize k) \<and>
        small_file_name w isize kMaxName = small_file_name block isize kMaxName \<and>
        take in_kSmallData w = take in_kSmallData block \<and>
        (\<exists>new. smalls w isize new \<and> distinct (attr_names new))"
proof -
  let ?new = "\<lparr>sa_type = ty, sa_name = name, sa_data = data\<rparr>" and ?rest = "drop_entry name es"
  note set = small_set_entries [OF assms(1,2,3,4,6), of ty]
  have find: "find_entry k (?rest @ [?new]) = (if k = name then Some ?new else find_entry k es)" for k
    using drop_entry_find(1) [OF assms(2), of k name] assms(5)
    by (auto simp: find_entry_def find_append is_name_entry_def split: option.splits)
  have "distinct (attr_names (?rest @ [?new]))"
    using drop_entry_find(2,3) [OF assms(2), of name] by (simp add: attr_names_def is_name_entry_def)
  then show ?thesis
    using set small_find_smalls [OF assms(1)] small_file_name_smalls [OF assms(1)] find_name_drop(1) [OF assms(5)]
      small_find_smalls [of _ isize "?rest @ [?new]"] small_file_name_smalls [of _ isize "?rest @ [?new]"] find
    by (auto simp: esize_def bslice_def split: option.splits)
qed

text \<open>
  Removing an attribute succeeds exactly when the inode has it, and then the attribute is gone,
  every other attribute and the inode's own name read as before, and the fields of the inode are
  untouched.
\<close>

lemma small_remove_map:
  assumes "smalls block isize es" and "distinct (attr_names es)"
  shows "case small_remove block isize name of
      None \<Rightarrow> small_find block isize name = None
    | Some w \<Rightarrow>
        small_find block isize name \<noteq> None \<and> small_find w isize name = None \<and>
        (\<forall>k. k \<noteq> name \<longrightarrow> small_find w isize k = small_find block isize k) \<and>
        small_file_name w isize kMaxName = small_file_name block isize kMaxName \<and>
        take in_kSmallData w = take in_kSmallData block \<and>
        (\<exists>new. smalls w isize new \<and> distinct (attr_names new))"
  using small_remove_entries [OF assms, of name] small_find_smalls [OF assms(1)] small_file_name_smalls [OF assms(1)]
    find_name_drop(2) drop_entry_find(1) [OF assms(2), of _ name]
    drop_entry_find(2) [OF assms(2), of name]
    small_find_smalls [of _ isize "drop_entry name es"] small_file_name_smalls [of _ isize "drop_entry name es"]
  by (auto simp: bslice_def split: option.splits)

section \<open>A fresh inode\<close>

text \<open>The fields of a block, as the functions above the writer read them.\<close>

lemma inode_build_fields:
  fixes r parent :: run and mode uid gid :: u32 and time :: u64
  assumes "512 \<le> bs" "bs \<le> kMaxBlockSize" and "name \<noteq> []" "length name \<le> kMaxName"
  defines "b \<equiv> inode_build bs r parent mode uid gid time name"
  shows "length b = bs" "le32 b in_kMagic1 = kInodeMagic1" "le_run b in_kInodeNum = r" "le32 b in_kUid = uid"
    "le32 b in_kGid = gid" "le32 b in_kMode = mode" "le32 b in_kFlags = kInodeInUse" "le64 b in_kLastModified = time"
    "le_run b in_kParent = parent" "le_run b in_kAttributes = run_make 0 0 0" "le32 b in_kType = 0"
    "le32 b in_kInodeSize = of_nat bs" "bslice in_kData ds_kBytes b = replicate ds_kBytes 0"
    "smalls b bs [\<lparr>sa_type = kFileNameType, sa_name = [kFileNameName], sa_data = name\<rparr>]"
proof -
  define b7 where "b7 = put_le32 (put_le32 (put_le32 (put_run (put_run (put_le64 (put_le64 (put_le32 (put_le32 (put_le32
    (put_le32 (put_run (put_le32 (replicate bs 0) 0 kInodeMagic1) 4 r) 12 uid) 16 gid) 20 mode) 24 kInodeInUse) 28 time) 36 time)
    44 parent) 52 (run_make 0 0 0)) 60 0) 64 (of_nat bs)) 68 0"
  define b8 where "b8 = put_le64 (put_le64 b7 208 0) 216 time"
  have b: "b = put_entry b8 232 kFileNameType [kFileNameName] name"
    using assms(1,3,4) unfolding b_def inode_build_def Let_def write_small_name_def put_entry_def b8_def b7_def
    by (simp add: in_offsets kMaxName_def)
  note len = length_put_eq [where n = bs] and [simp del] = length_put length_put_run
  have len7: "length b7 = bs" unfolding b7_def using assms(1) by (simp add: len)
  have len8: "length b8 = bs" unfolding b8_def using assms(1) len7 by (simp add: len)
  have fit: "232 + 12 + length [kFileNameName] + length name \<le> length b8" "length [kFileNameName] < 2 ^ 16" "length name < 2 ^ 16"
    using len8 assms(1,4) by (simp_all add: kMaxName_def)
  note p = put_entry_facts [OF fit, where ty = kFileNameType, folded b]
  show "length b = bs" using p(1) len8 by simp
  have low: "bslice pos m b = bslice pos m b7" if "pos + m \<le> 208" for pos m
    using p(5) [of pos m] that len7 assms(1) by (simp add: b8_def put_le_other len)
  have f: "le32 b pos = le32 b7 pos" "le64 b pos = le64 b7 pos" "le_run b pos = le_run b7 pos" if "pos + 8 \<le> 208" for pos
    using low [of pos 4] low [of pos 8] that by (auto simp: le32_def le64_def intro!: le_run_cong)
  note facts = f len le_run_put_run le_put_same le_put_far le_put32_far le_put_run_far
  show "le32 b in_kMagic1 = kInodeMagic1" "le_run b in_kInodeNum = r" "le32 b in_kUid = uid" "le32 b in_kGid = gid"
    "le32 b in_kMode = mode" "le32 b in_kFlags = kInodeInUse" "le64 b in_kLastModified = time"
    unfolding in_offsets using assms(1) by (simp_all add: facts b7_def)
  show "le_run b in_kParent = parent" "le_run b in_kAttributes = run_make 0 0 0" "le32 b in_kType = 0"
    "le32 b in_kInodeSize = of_nat bs"
    unfolding in_offsets using assms(1) by (simp_all add: facts b7_def)
  have zero7: "bslice pos m b7 = replicate m 0" if "72 \<le> pos" "pos + m \<le> bs" for pos m
    unfolding b7_def using that assms(1) by (simp add: len put_le_other put_run_other) (simp add: bslice_def)
  have "bslice 208 8 b8 = replicate 8 0"
    unfolding b8_def using len7 assms(1) put_le64_zero [of 208 b7] by (simp add: len put_le_other)
  then have "bslice 208 8 b = replicate 8 0" using p(5) [of 208 8] by simp
  moreover have "bslice 72 136 b = replicate 136 0" using low [of 72 136] zero7 [of 72 136] assms(1) by simp
  ultimately show "bslice in_kData ds_kBytes b = replicate ds_kBytes 0"
    using bslice_split [of 72 136 8 b] by (simp add: in_offsets flip: replicate_add)
  let ?fin = "232 + 12 + length [kFileNameName] + length name"
  have "name_len b ?fin = 0" if "in_bounds bs ?fin"
  proof -
    have "bslice (?fin + 4) 2 b = bslice (?fin + 4) 2 b8" using p(6) [of "?fin + 4" 2] that len8 by (simp add: in_bounds_def)
    also have "\<dots> = replicate 2 0"
      using zero7 [of "?fin + 4" 2] that len7 assms(1) by (simp add: b8_def len put_le_other in_bounds_def)
    finally show ?thesis by (simp add: name_len_def le16_def)
  qed
  then have "terminated b bs ?fin" by (auto simp: terminated_def)
  then show "smalls b bs [\<lparr>sa_type = kFileNameType, sa_name = [kFileNameName], sa_data = name\<rparr>]"
    using p(1-4) fit(1) len8 assms(2) by (simp add: smalls_def in_kSmallData_def esize_def)
qed

definition sample_inode :: "u8 list" where
  "sample_inode = inode_build 512 (run_make 0 20 1) (run_make 0 20 1) 0x41ed 0 0 0 [120]"

definition sample_name :: small_attribute where
  "sample_name = \<lparr>sa_type = kFileNameType, sa_name = [kFileNameName], sa_data = [120]\<rparr>"

lemma sample_smalls: "smalls sample_inode 512 [sample_name]" "distinct (attr_names [sample_name])"
  using inode_build_fields(14) [of 512 "[120]"]
  by (simp_all add: sample_inode_def sample_name_def attr_names_def is_name_entry_def kMaxBlockSize_def kMaxName_def)

theorem small_set_map_witness:
  "case small_set sample_inode 512 7 [97] [1, 2, 3] of
     None \<Rightarrow> False
   | Some w \<Rightarrow> small_find w 512 [97] = Some \<lparr>sa_type = 7, sa_name = [97], sa_data = [1, 2, 3]\<rparr>"
  using small_set_map [OF sample_smalls, of "[97]" "[1, 2, 3]" 7]
  by (auto simp: kMaxName_def kFileNameName_def in_kSmallData_def drop_entry_def sample_name_def esize_def split: option.splits)

lemma small_remove_map_witness:
  "small_remove sample_inode 512 [97] = None \<and> small_find sample_inode 512 [97] = None"
proof -
  have "small_find sample_inode 512 [97] = None"
    using small_find_smalls [OF sample_smalls(1)] by (simp add: find_entry_def sample_name_def is_name_entry_def)
  then show ?thesis
    using small_remove_map [OF sample_smalls, of "[97]"] by (auto split: option.splits)
qed

end
