(* ===== verification/Bfs_Stream.thy ===== *)
theory Bfs_Stream
  imports Bfs_Journal Bfs_Inode
begin

text \<open>
  The reading half of a BFS volume, \<^verbatim>\<open>src/libs/freestanding/aegir-bfs/src/volume.cc\<close>: inodes, data streams
  through their direct, indirect and double indirect runs, directories and indices as B+trees of
  nodes, and attributes; and the writing of bytes into the runs of a stream.

  A reading operation takes the volume (whose block cache it may fill), the journal attached to it,
  and the device, and answers \<open>None\<close> where the source returns false. The scratch buffers of the
  volume hold nothing across calls and are values here.
\<close>

section \<open>Operations that read\<close>

type_synonym 'a rd = "volume \<times> device \<Rightarrow> (volume \<times> device) \<times> 'a option"

definition rd_return :: "'a \<Rightarrow> 'a rd" where
  "rd_return x s = (s, Some x)"

definition rd_fail :: "'a rd" where
  "rd_fail s = (s, None)"

text \<open>The second operation runs when the first did not fail.\<close>

definition and_then :: "'a rd \<Rightarrow> ('a \<Rightarrow> 'b rd) \<Rightarrow> 'b rd" where
  "and_then m f s = (case m s of (s', None) \<Rightarrow> (s', None) | (s', Some x) \<Rightarrow> f x s')"

definition rd_block :: "journal option \<Rightarrow> nat \<Rightarrow> u8 list rd" where
  "rd_block jo block s =
     (case read_block (fst s) jo (snd s) block of (v', d', res) \<Rightarrow> ((v', d'), res))"

definition rd_sectors :: "nat \<Rightarrow> nat \<Rightarrow> u8 list rd" where
  "rd_sectors sector n s = (case dev_read (snd s) sector n of (d', res) \<Rightarrow> ((fst s, d'), res))"

section \<open>Inodes\<close>

record inode =
  i_mode :: u32
  i_uid :: u32
  i_gid :: u32
  i_type :: u32
  i_size :: u64
  i_mtime :: u64
  i_run :: run
  i_parent :: run
  i_attributes :: run
  i_name :: "u8 list"
  i_data :: "u8 list"

definition inode_valid :: "nat \<Rightarrow> u8 list \<Rightarrow> bool" where
  "inode_valid block_size b \<longleftrightarrow>
     \<not> (le32 b in_kMagic1 \<noteq> kInodeMagic1 \<or> le32 b in_kFlags AND kInodeInUse = 0 \<or>
        le32 b in_kInodeSize \<noteq> of_nat block_size)"

definition inode_fields :: "u8 list \<Rightarrow> inode" where
  "inode_fields b =
     \<lparr>i_mode = le32 b in_kMode, i_uid = le32 b in_kUid, i_gid = le32 b in_kGid, i_type = le32 b in_kType,
      i_size = le64 b (in_kData + ds_kSize), i_mtime = le64 b in_kLastModified,
      i_run = le_run b in_kInodeNum, i_parent = le_run b in_kParent, i_attributes = le_run b in_kAttributes,
      i_name = (case small_file_name b (unat (le32 b in_kInodeSize)) kMaxName of None \<Rightarrow> [] | Some n \<Rightarrow> n),
      i_data = bslice in_kData ds_kBytes b\<rparr>"

definition read_inode :: "journal option \<Rightarrow> nat \<Rightarrow> inode rd" where
  "read_inode jo block s =
     (let v = fst s
      in if \<not> v_valid v \<or> block \<ge> v_num_blocks v then rd_fail s
         else and_then (rd_block jo block)
           (\<lambda>b. if inode_valid (vol_block_size v) b then rd_return (inode_fields b) else rd_fail) s)"

text \<open>
  The scan over \<open>n\<close> blocks from \<open>at\<close>: the inode found and the block after it, or the end of the
  volume. A block that cannot be read is skipped.
\<close>

fun next_inode_from :: "journal option \<Rightarrow> nat \<Rightarrow> nat \<Rightarrow> volume \<times> device \<Rightarrow> (volume \<times> device) \<times> nat \<times> inode option" where
  "next_inode_from jo at 0 s = (s, at, None)"
| "next_inode_from jo at (Suc n) s =
     (case read_inode jo at s of
        (s', Some i) \<Rightarrow>
          if to_block (fst s') (i_run i) = at then (s', at + 1, Some i) else next_inode_from jo (at + 1) n s'
      | (s', None) \<Rightarrow> next_inode_from jo (at + 1) n s')"

definition next_inode :: "journal option \<Rightarrow> nat \<Rightarrow> volume \<times> device \<Rightarrow> (volume \<times> device) \<times> nat \<times> inode option" where
  "next_inode jo block s =
     (if block \<ge> v_num_blocks (fst s) then (s, v_num_blocks (fst s), None)
      else next_inode_from jo block (v_num_blocks (fst s) - block) s)"

section \<open>Reading a stream\<close>

definition max_blocks :: "volume \<Rightarrow> nat" where
  "max_blocks v = (if v_max_sectors v \<ge> block_sectors v then v_max_sectors v div block_sectors v else 1)"

text \<open>The loop of \<^verbatim>\<open>read_part\<close> with \<open>left\<close> bytes to go at byte \<open>byte\<close> of the volume: what it copies out.\<close>

function read_bytes :: "journal option \<Rightarrow> nat \<Rightarrow> nat \<Rightarrow> u8 list rd" where
  "read_bytes jo byte left s =
     (if left = 0 then rd_return [] s
      else
        let v = fst s; bs = vol_block_size v; within = byte mod bs; chunk = min (bs - within) left
        in if within = 0 \<and> chunk = bs \<and> max_blocks v > 1 \<and> \<not> journal_active jo then
             let blocks = min (left div bs) (max_blocks v)
             in and_then (rd_sectors (byte div kSectorBytes) (blocks * block_sectors v))
                  (\<lambda>got. and_then (read_bytes jo (wrap64 (byte + blocks * bs)) (left - blocks * bs))
                    (\<lambda>rest. rd_return (got @ rest))) s
           else
             and_then (rd_block jo (byte div bs))
               (\<lambda>b. and_then (read_bytes jo (wrap64 (byte + chunk)) (left - chunk))
                 (\<lambda>rest. rd_return (bslice within chunk b @ rest))) s)"
  by pat_completeness auto
termination
proof (relation "measure (\<lambda>(jo, byte, left, s). left)", goal_cases)
  case (2 jo byte left s v bs within chunk blocks)
  have "0 < bs" using 2 by (simp add: vol_block_size_def)
  moreover have "bs \<le> left" using 2 by (simp add: min_def split: if_splits)
  ultimately have "0 < blocks" using 2 by (simp add: div_greater_zero_iff)
  then show ?case using 2 \<open>0 < bs\<close> by simp
next
  case (3 jo byte left s v bs within chunk)
  have "0 < bs" using 3 by (simp add: vol_block_size_def)
  then show ?case using 3 by simp
qed simp

declare read_bytes.simps [simp del]

definition read_part :: "journal option \<Rightarrow> run \<Rightarrow> nat \<Rightarrow> nat \<Rightarrow> u8 list rd" where
  "read_part jo r skip len s =
     (let v = fst s in read_bytes jo (wrap64 (to_block v r * vol_block_size v + skip)) len s)"

text \<open>The part of the request from \<open>offset\<close> on that the run at \<open>start_at\<close> of the stream covers: its two ends.\<close>

definition run_overlap :: "volume \<Rightarrow> run \<Rightarrow> nat \<Rightarrow> nat \<Rightarrow> nat \<Rightarrow> nat \<times> nat" where
  "run_overlap v r start_at offset len =
     (let req_end = wrap64 (offset + len); run_end = wrap64 (start_at + run_bytes v r)
      in (if offset > start_at then offset else start_at, if req_end < run_end then req_end else run_end))"

text \<open>One run: the buffer with its part filled.\<close>

definition read_handle :: "journal option \<Rightarrow> nat \<Rightarrow> nat \<Rightarrow> run \<Rightarrow> nat \<Rightarrow> u8 list \<Rightarrow> u8 list rd" where
  "read_handle jo offset len r start_at out s =
     (case run_overlap (fst s) r start_at offset len of (lo, hi) \<Rightarrow>
        if lo \<ge> hi then rd_return out s
        else and_then (read_part jo r (lo - start_at) (wrap32 (hi - lo)))
               (\<lambda>got. rd_return (bsplice (lo - offset) got out)) s)"

text \<open>The runs of a buffer from \<open>base\<close> on, up to the first zero run.\<close>

definition runs_in :: "u8 list \<Rightarrow> nat \<Rightarrow> nat \<Rightarrow> run list" where
  "runs_in buf base n = takeWhile (\<lambda>r. \<not> run_is_zero r) (map (\<lambda>i. le_run buf (base + i * 8)) [0..<n])"

text \<open>A loop over runs: the position in the stream and the buffer after them.\<close>

fun read_runs :: "journal option \<Rightarrow> nat \<Rightarrow> nat \<Rightarrow> run list \<Rightarrow> nat \<Rightarrow> u8 list \<Rightarrow> (nat \<times> u8 list) rd" where
  "read_runs jo offset len [] pos out s = rd_return (pos, out) s"
| "read_runs jo offset len (r # rs) pos out s =
     and_then (read_handle jo offset len r pos out)
       (\<lambda>out'. read_runs jo offset len rs (wrap64 (pos + run_bytes (fst s) r)) out') s"

definition runs_per_block :: "volume \<Rightarrow> nat" where
  "runs_per_block v = vol_block_size v div 8"

text \<open>The \<open>n\<close> blocks of an indirect array from block \<open>at\<close> on.\<close>

fun read_arrays :: "journal option \<Rightarrow> nat \<Rightarrow> nat \<Rightarrow> nat \<Rightarrow> nat \<Rightarrow> nat \<Rightarrow> u8 list \<Rightarrow> (nat \<times> u8 list) rd" where
  "read_arrays jo offset len at 0 pos out s = rd_return (pos, out) s"
| "read_arrays jo offset len at (Suc n) pos out s =
     and_then (rd_block jo (wrap64 at))
       (\<lambda>arr. and_then (read_runs jo offset len (runs_in arr 0 (runs_per_block (fst s))) pos out)
         (\<lambda>(pos', out'). read_arrays jo offset len (at + 1) n pos' out')) s"

text \<open>The arrays named by the runs of one block of a double indirect array.\<close>

fun read_array_runs :: "journal option \<Rightarrow> nat \<Rightarrow> nat \<Rightarrow> run list \<Rightarrow> nat \<Rightarrow> u8 list \<Rightarrow> (nat \<times> u8 list) rd" where
  "read_array_runs jo offset len [] pos out s = rd_return (pos, out) s"
| "read_array_runs jo offset len (a # as) pos out s =
     and_then (read_arrays jo offset len (to_block (fst s) a) (unat (run_len a)) pos out)
       (\<lambda>(pos', out'). read_array_runs jo offset len as pos' out') s"

fun read_double :: "journal option \<Rightarrow> nat \<Rightarrow> nat \<Rightarrow> nat \<Rightarrow> nat \<Rightarrow> nat \<Rightarrow> u8 list \<Rightarrow> (nat \<times> u8 list) rd" where
  "read_double jo offset len at 0 pos out s = rd_return (pos, out) s"
| "read_double jo offset len at (Suc n) pos out s =
     and_then (rd_block jo (wrap64 at))
       (\<lambda>arr. and_then (read_array_runs jo offset len (runs_in arr 0 (runs_per_block (fst s))) pos out)
         (\<lambda>(pos', out'). read_double jo offset len (at + 1) n pos' out')) s"

text \<open>A zero run has length zero, so its loop over blocks does nothing.\<close>

definition read_stream :: "journal option \<Rightarrow> inode \<Rightarrow> nat \<Rightarrow> nat \<Rightarrow> u8 list rd" where
  "read_stream jo i offset len s =
     (if len = 0 then rd_return [] s
      else
        let v = fst s; stream = i_data i;
            indirect = le_run stream ds_kIndirect; double = le_run stream ds_kDoubleIndirect
        in and_then (read_runs jo offset len (runs_in stream ds_kDirect ds_kDirectCount) 0 (replicate len 0))
             (\<lambda>(pos, out). and_then (read_arrays jo offset len (to_block v indirect) (unat (run_len indirect)) pos out)
               (\<lambda>(pos, out). and_then (read_double jo offset len (to_block v double) (unat (run_len double)) pos out)
                 (\<lambda>(pos, out). rd_return out))) s)"

section \<open>Directories\<close>

text \<open>The lengths of the keys of a node, and where its values start.\<close>

fun key_steps :: "u8 list \<Rightarrow> nat \<Rightarrow> u16 \<Rightarrow> nat \<Rightarrow> nat list" where
  "key_steps node at previous 0 = []"
| "key_steps node at previous (Suc n) =
     unat (le16 node at - previous) # key_steps node (at + 2) (le16 node at) n"

definition node_key_lengths :: "u8 list \<Rightarrow> nat \<Rightarrow> nat list \<times> nat" where
  "node_key_lengths node cnt =
     (let at = unat (key_align (of_nat (nd_kFixed + unat (le16 node nd_kAllKeyLength))))
      in (key_steps node at 0 cnt, at + cnt * 2))"

definition node_key :: "volume \<Rightarrow> u8 list \<Rightarrow> nat \<Rightarrow> nat \<Rightarrow> u8 list option" where
  "node_key v node cnt index =
     (if index \<ge> cnt \<or> cnt > 512 then None
      else
        let lengths = fst (node_key_lengths node cnt);
            at = nd_kFixed + sum_list (take index lengths);
            len = lengths ! index
        in if len > kMaxName \<or> at + len > vol_block_size v then None else Some (bslice at len node))"

text \<open>Node size, root, end of the tree and key type.\<close>

definition node_header :: "journal option \<Rightarrow> inode \<Rightarrow> (nat \<times> nat \<times> nat \<times> u32) rd" where
  "node_header jo dir =
     and_then (read_stream jo dir 0 th_kBytes)
       (\<lambda>header.
          let node_size = unat (le32 header th_kNodeSize)
          in if le32 header th_kMagic \<noteq> kTreeMagic then rd_fail
             else if node_size = 0 \<or> node_size > kMaxBlockSize then rd_fail
             else rd_return (node_size, unat (le64 header th_kRootNode), unat (le64 header th_kMaximumSize),
                             le32 header th_kDataType))"

text \<open>
  The first key the name is not greater than, and whether it is the name; the count when there is
  none. \<open>limit\<close> is the longest key the search accepts, \<open>at\<close> the place of key \<open>i\<close>.
\<close>

fun scan_keys :: "(u8 list \<Rightarrow> int) \<Rightarrow> nat option \<Rightarrow> u8 list \<Rightarrow> nat \<Rightarrow> nat \<Rightarrow> nat list \<Rightarrow> (nat \<times> bool) option" where
  "scan_keys order limit tree at i [] = Some (i, False)"
| "scan_keys order limit tree at i (len # lens) =
     (if (case limit of None \<Rightarrow> False | Some m \<Rightarrow> len > m) then None
      else
        let o3 = order (bslice at len tree)
        in if o3 \<le> 0 then Some (i, o3 = 0) else scan_keys order limit tree (at + len) (Suc i) lens)"

text \<open>The descent and the walk along the leaves, at most \<open>n\<close> nodes.\<close>

fun dir_find_loop :: "journal option \<Rightarrow> inode \<Rightarrow> u8 list \<Rightarrow> nat \<Rightarrow> nat \<Rightarrow> nat \<Rightarrow> nat \<Rightarrow> u64 rd" where
  "dir_find_loop jo dir name node_size maximum offset 0 s = rd_fail s"
| "dir_find_loop jo dir name node_size maximum offset (Suc n) s =
     (if wrap64 (offset + node_size) > maximum then rd_fail s
      else
        and_then (read_stream jo dir offset node_size)
          (\<lambda>tree.
             let overflow = le64 tree nd_kOverflowLink; cnt = unat (le16 tree nd_kKeyCount)
             in if cnt > 512 then rd_fail
                else
                  (case node_key_lengths tree cnt of (lengths, vals) \<Rightarrow>
                     (case scan_keys (\<lambda>key. key_compare name key) (Some kMaxName) tree nd_kFixed 0 lengths of
                        None \<Rightarrow> rd_fail
                      | Some (child, equal) \<Rightarrow>
                          if overflow = kNullLink then
                            if equal then rd_return (le64 tree (vals + child * 8))
                            else
                              let right = le64 tree nd_kRightLink
                              in if right = kNullLink \<or> right = kFreeLink then rd_fail
                                 else dir_find_loop jo dir name node_size maximum (unat right) n
                          else
                            dir_find_loop jo dir name node_size maximum
                              (unat (if child = cnt then overflow else le64 tree (vals + child * 8))) n))) s)"

definition dir_find :: "journal option \<Rightarrow> inode \<Rightarrow> u8 list \<Rightarrow> u64 rd" where
  "dir_find jo dir name =
     and_then (node_header jo dir)
       (\<lambda>(node_size, root, maximum, data_type). dir_find_loop jo dir name node_size maximum root 16)"

definition index_inode :: "journal option \<Rightarrow> u8 list \<Rightarrow> u64 rd" where
  "index_inode jo name s =
     (let v = fst s
      in if run_is_zero (v_indices v) then rd_fail s
         else and_then (read_inode jo (to_block v (v_indices v))) (\<lambda>dir. dir_find jo dir name) s)"

section \<open>Indices\<close>

fun index_descend :: "journal option \<Rightarrow> inode \<Rightarrow> u8 list \<Rightarrow> u32 \<Rightarrow> nat \<Rightarrow> nat \<Rightarrow> nat \<Rightarrow> nat \<Rightarrow> u64 rd" where
  "index_descend jo index key data_type node_size maximum offset 0 s = rd_fail s"
| "index_descend jo index key data_type node_size maximum offset (Suc n) s =
     (if wrap64 (offset + node_size) > maximum then rd_fail s
      else
        and_then (read_stream jo index offset node_size)
          (\<lambda>tree.
             let overflow = le64 tree nd_kOverflowLink; cnt = unat (le16 tree nd_kKeyCount)
             in if cnt > 512 then rd_fail
                else
                  (case node_key_lengths tree cnt of (lengths, vals) \<Rightarrow>
                     (case scan_keys (\<lambda>k. key_compare_typed data_type key k) None tree nd_kFixed 0 lengths of
                        None \<Rightarrow> rd_fail
                      | Some (child, equal) \<Rightarrow>
                          if overflow = kNullLink then
                            if equal then rd_return (le64 tree (vals + child * 8)) else rd_fail
                          else
                            index_descend jo index key data_type node_size maximum
                              (unat (if child = cnt then overflow else le64 tree (vals + child * 8))) n))) s)"

text \<open>The chain of duplicate arrays: the caller's position and the value.\<close>

fun duplicate_walk :: "journal option \<Rightarrow> inode \<Rightarrow> nat \<Rightarrow> nat \<Rightarrow> nat \<Rightarrow> nat \<Rightarrow> (nat \<times> u64) rd" where
  "duplicate_walk jo index node_size dup_at position 0 s = rd_fail s"
| "duplicate_walk jo index node_size dup_at position (Suc n) s =
     and_then (read_stream jo index dup_at node_size)
       (\<lambda>tree.
          let cnt = duplicate_count tree node_size
          in if position < cnt then
               (case duplicate_value tree node_size position of
                  None \<Rightarrow> rd_fail
                | Some x \<Rightarrow> rd_return (position + 1, x))
             else
               let right = le64 tree nd_kRightLink
               in if right = kNullLink then rd_fail
                  else duplicate_walk jo index node_size (unat right) (position - cnt) n) s"

text \<open>The position after and the inode's block.\<close>

definition index_walk :: "journal option \<Rightarrow> nat \<Rightarrow> u8 list \<Rightarrow> nat \<Rightarrow> (nat \<times> u64) rd" where
  "index_walk jo index_block key position =
     and_then (read_inode jo index_block)
       (\<lambda>index. and_then (node_header jo index)
         (\<lambda>(node_size, root, maximum, data_type).
            and_then (index_descend jo index key data_type node_size maximum root 16)
              (\<lambda>val.
                 if \<not> link_is_duplicate val then
                   if position \<noteq> 0 then rd_fail else rd_return (1, val)
                 else if link_type val \<noteq> kDuplicateNode then rd_fail
                 else duplicate_walk jo index node_size (unat (link_offset val)) position 4096)))"

section \<open>Listing a directory\<close>

text \<open>The leftmost leaf, or the node the depth bound ends at.\<close>

fun leftmost :: "journal option \<Rightarrow> inode \<Rightarrow> nat \<Rightarrow> nat \<Rightarrow> nat \<Rightarrow> nat \<Rightarrow> nat rd" where
  "leftmost jo dir node_size maximum offset 0 s = rd_return offset s"
| "leftmost jo dir node_size maximum offset (Suc n) s =
     (if wrap64 (offset + node_size) > maximum then rd_fail s
      else
        and_then (read_stream jo dir offset node_size)
          (\<lambda>tree.
             if le64 tree nd_kOverflowLink = kNullLink then rd_return offset
             else
               let cnt = unat (le16 tree nd_kKeyCount); vals = snd (node_key_lengths tree cnt)
               in leftmost jo dir node_size maximum
                    (unat (if cnt > 0 then le64 tree vals else le64 tree nd_kOverflowLink)) n) s)"

fun walk_leaves :: "journal option \<Rightarrow> inode \<Rightarrow> nat \<Rightarrow> nat \<Rightarrow> nat \<Rightarrow> nat \<Rightarrow> nat \<Rightarrow> (u8 list \<times> u64) rd" where
  "walk_leaves jo dir node_size maximum offset remaining 0 s = rd_fail s"
| "walk_leaves jo dir node_size maximum offset remaining (Suc n) s =
     (if wrap64 (offset + node_size) > maximum then rd_fail s
      else
        and_then (read_stream jo dir offset node_size)
          (\<lambda>tree.
             if le64 tree nd_kOverflowLink \<noteq> kNullLink then rd_fail
             else
               let cnt = unat (le16 tree nd_kKeyCount)
               in if remaining < cnt then
                    (case node_key (fst s) tree cnt remaining of
                       None \<Rightarrow> rd_fail
                     | Some name \<Rightarrow>
                         rd_return (name, le64 tree (snd (node_key_lengths tree cnt) + remaining * 8)))
                  else
                    let right = le64 tree nd_kRightLink
                    in if right = kNullLink \<or> right = kFreeLink then rd_fail
                       else walk_leaves jo dir node_size maximum (unat right) (remaining - cnt) n) s)"

definition dir_entry :: "journal option \<Rightarrow> inode \<Rightarrow> nat \<Rightarrow> (u8 list \<times> u64) rd" where
  "dir_entry jo dir index =
     and_then (node_header jo dir)
       (\<lambda>(node_size, root, maximum, data_type).
          and_then (leftmost jo dir node_size maximum root 16)
            (\<lambda>offset. walk_leaves jo dir node_size maximum offset index (maximum div node_size + 2)))"

section \<open>Attributes\<close>

definition attr_dir_inode :: "journal option \<Rightarrow> inode \<Rightarrow> inode rd" where
  "attr_dir_inode jo i s =
     (if run_is_zero (i_attributes i) then rd_fail s
      else read_inode jo (to_block (fst s) (i_attributes i)) s)"

text \<open>The inode's block and its inode size.\<close>

definition inode_raw :: "journal option \<Rightarrow> inode \<Rightarrow> (u8 list \<times> nat) rd" where
  "inode_raw jo i s =
     and_then (rd_block jo (to_block (fst s) (i_run i)))
       (\<lambda>b. let isize = unat (le32 b in_kInodeSize)
            in if isize \<le> kMaxBlockSize \<and> isize \<ge> in_kSmallData then rd_return (b, isize) else rd_fail) s"

definition attr_inode :: "journal option \<Rightarrow> inode \<Rightarrow> u8 list \<Rightarrow> u64 rd" where
  "attr_inode jo i name =
     and_then (attr_dir_inode jo i)
       (\<lambda>dir. and_then (dir_find jo dir name)
         (\<lambda>attr_block. and_then (read_inode jo (unat attr_block))
           (\<lambda>a. if mode_is_attr (i_mode a) then rd_return attr_block else rd_fail)))"

text \<open>Trying the small attributes of the inode; a block that cannot be read counts as having none.\<close>

definition small_try :: "journal option \<Rightarrow> inode \<Rightarrow> u8 list \<Rightarrow> (small_attribute option) rd" where
  "small_try jo i name s =
     (case inode_raw jo i s of
        (s', None) \<Rightarrow> (s', Some None)
      | (s', Some (b, isize)) \<Rightarrow> (s', Some (small_find b isize name)))"

definition attr_stat :: "journal option \<Rightarrow> inode \<Rightarrow> u8 list \<Rightarrow> (u32 \<times> nat) rd" where
  "attr_stat jo i name =
     and_then (small_try jo i name)
       (\<lambda>small. case small of
          Some e \<Rightarrow> rd_return (sa_type e, length (sa_data e))
        | None \<Rightarrow>
            and_then (attr_inode jo i name)
              (\<lambda>b. and_then (read_inode jo (unat b)) (\<lambda>a. rd_return (i_type a, unat (i_size a)))))"

definition attr_read :: "journal option \<Rightarrow> inode \<Rightarrow> u8 list \<Rightarrow> nat \<Rightarrow> nat \<Rightarrow> u8 list rd" where
  "attr_read jo i name offset len =
     and_then (small_try jo i name)
       (\<lambda>small. case small of
          Some e \<Rightarrow>
            if offset \<ge> length (sa_data e) then rd_return []
            else rd_return (bslice offset (min len (length (sa_data e) - offset)) (sa_data e))
        | None \<Rightarrow>
            and_then (attr_inode jo i name)
              (\<lambda>b. and_then (read_inode jo (unat b))
                (\<lambda>a. if offset > unat (i_size a) then rd_return []
                     else read_stream jo a offset (min len (unat (i_size a) - offset)))))"

text \<open>The small attributes counted from \<open>cursor\<close>: the one with the index, or how many there are.\<close>

function small_count :: "u8 list \<Rightarrow> nat \<Rightarrow> nat \<Rightarrow> nat \<Rightarrow> nat \<Rightarrow> small_attribute option \<times> nat" where
  "small_count b isize index cursor seen =
     (case small_next b isize cursor of
        (c, None) \<Rightarrow> (None, seen)
      | (c, Some e) \<Rightarrow> if seen = index then (Some e, seen) else small_count b isize index c (seen + 1))"
  by pat_completeness auto
termination
  by (relation "measure (\<lambda>(b, isize, index, cursor, seen). isize - cursor)")
    (auto dest: small_next_progress small_next_progress [OF sym])

declare small_count.simps [simp del]

text \<open>The difference of the index and the count wraps at 32 bits.\<close>

definition attr_entry :: "journal option \<Rightarrow> inode \<Rightarrow> nat \<Rightarrow> (u8 list \<times> u32 \<times> nat) rd" where
  "attr_entry jo i index s =
     (let (s', small) =
        (case inode_raw jo i s of
           (s', None) \<Rightarrow> (s', None, 0)
         | (s', Some (b, isize)) \<Rightarrow> (s', small_count b isize index in_kSmallData 0))
      in case small of
           (Some e, seen) \<Rightarrow> rd_return (sa_name e, sa_type e, length (sa_data e)) s'
         | (None, seen) \<Rightarrow>
             and_then (attr_dir_inode jo i)
               (\<lambda>dir. and_then (dir_entry jo dir (wrap32 (index + 2 ^ 32 - seen)))
                 (\<lambda>(name, b). and_then (read_inode jo (unat b))
                   (\<lambda>a. rd_return (name, i_type a, unat (i_size a))))) s')"

section \<open>Writing into a stream\<close>

text \<open>Writing may also fill the journal's transaction, so the journal is part of the state.\<close>

type_synonym fs = "volume \<times> journal option \<times> device"
type_synonym 'a wr = "fs \<Rightarrow> fs \<times> 'a option"

definition wr_return :: "'a \<Rightarrow> 'a wr" where
  "wr_return x s = (s, Some x)"

definition wr_fail :: "'a wr" where
  "wr_fail s = (s, None)"

definition wr_then :: "'a wr \<Rightarrow> ('a \<Rightarrow> 'b wr) \<Rightarrow> 'b wr" where
  "wr_then m f s = (case m s of (s', None) \<Rightarrow> (s', None) | (s', Some x) \<Rightarrow> f x s')"

text \<open>A reading operation inside one that writes.\<close>

definition reading :: "(journal option \<Rightarrow> 'a rd) \<Rightarrow> 'a wr" where
  "reading m s =
     (case s of (v, jo, d) \<Rightarrow> (case m jo (v, d) of ((v', d'), res) \<Rightarrow> ((v', jo, d'), res)))"

definition put_block :: "bool \<Rightarrow> nat \<Rightarrow> u8 list \<Rightarrow> unit wr" where
  "put_block direct block bytes s =
     (case s of (v, jo, d) \<Rightarrow>
        if direct then
          (case write_block_now v d block bytes of (v', d', ok) \<Rightarrow> ((v', jo, d'), if ok then Some () else None))
        else
          (case write_block v jo d block bytes of (v', jo', d', ok) \<Rightarrow> ((v', jo', d'), if ok then Some () else None)))"

text \<open>The loop of \<^verbatim>\<open>write_part\<close>, with the bytes still to write.\<close>

function write_bytes :: "bool \<Rightarrow> nat \<Rightarrow> u8 list \<Rightarrow> unit wr" where
  "write_bytes direct byte src s =
     (if src = [] then wr_return () s
      else
        let bs = vol_block_size (fst s); block = byte div bs; within = byte mod bs;
            chunk = min (bs - within) (length src)
        in wr_then
             (if within = 0 \<and> chunk = bs then put_block direct block (take chunk src)
              else wr_then (reading (\<lambda>jo. rd_block jo block))
                     (\<lambda>b. put_block direct block (bsplice within (take chunk src) b)))
             (\<lambda>_. write_bytes direct (wrap64 (byte + chunk)) (drop chunk src)) s)"
  by pat_completeness auto
termination
proof (relation "measure (\<lambda>(direct, byte, src, s). length src)", goal_cases)
  case (2 direct byte src s bs block within chunk)
  have "0 < bs" using 2 by (simp add: vol_block_size_def)
  then show ?case using 2 by simp
qed simp

declare write_bytes.simps [simp del]

definition write_part :: "bool \<Rightarrow> run \<Rightarrow> nat \<Rightarrow> u8 list \<Rightarrow> unit wr" where
  "write_part direct r skip src s =
     (let v = fst s in write_bytes direct (wrap64 (to_block v r * vol_block_size v + skip)) src s)"

text \<open>One run: the cursor and what is left after it.\<close>

definition write_handle :: "bool \<Rightarrow> nat \<Rightarrow> u8 list \<Rightarrow> run \<Rightarrow> nat \<Rightarrow> nat \<times> nat \<Rightarrow> (nat \<times> nat) wr" where
  "write_handle direct offset src r start_at progress s =
     (case progress of (cursor, left) \<Rightarrow>
        (case run_overlap (fst s) r start_at cursor left of (lo, hi) \<Rightarrow>
           if lo \<ge> hi then wr_return (cursor, left) s
           else
             let n = wrap32 (hi - lo)
             in wr_then (write_part direct r (lo - start_at) (bslice (lo - offset) n src))
                  (\<lambda>_. wr_return (hi, left - n)) s))"

text \<open>A loop over runs: the position and the progress after them.\<close>

fun write_runs :: "bool \<Rightarrow> nat \<Rightarrow> u8 list \<Rightarrow> run list \<Rightarrow> nat \<Rightarrow> nat \<times> nat \<Rightarrow> (nat \<times> nat \<times> nat) wr" where
  "write_runs direct offset src [] pos progress s = wr_return (pos, progress) s"
| "write_runs direct offset src (r # rs) pos progress s =
     wr_then (write_handle direct offset src r pos progress)
       (\<lambda>progress'. write_runs direct offset src rs (wrap64 (pos + run_bytes (fst s) r)) progress') s"

text \<open>
  A zero run ends the whole write, at any level. \<open>Inl left\<close> is such an end, \<open>Inr\<close> the position and
  progress to go on with.
\<close>

definition write_block_runs ::
  "bool \<Rightarrow> nat \<Rightarrow> u8 list \<Rightarrow> u8 list \<Rightarrow> nat \<Rightarrow> nat \<Rightarrow> nat \<Rightarrow> nat \<times> nat \<Rightarrow> (nat + nat \<times> nat \<times> nat) wr" where
  "write_block_runs direct offset src buf base n pos progress =
     (let rs = runs_in buf base n
      in wr_then (write_runs direct offset src rs pos progress)
           (\<lambda>(pos', cursor, left). wr_return (if length rs < n then Inl left else Inr (pos', cursor, left))))"

fun write_arrays ::
  "bool \<Rightarrow> nat \<Rightarrow> u8 list \<Rightarrow> nat \<Rightarrow> nat \<Rightarrow> nat \<Rightarrow> nat \<times> nat \<Rightarrow> (nat + nat \<times> nat \<times> nat) wr" where
  "write_arrays direct offset src at 0 pos progress s = wr_return (Inr (pos, progress)) s"
| "write_arrays direct offset src at (Suc n) pos progress s =
     wr_then (reading (\<lambda>jo. rd_block jo (wrap64 at)))
       (\<lambda>arr. wr_then (write_block_runs direct offset src arr 0 (runs_per_block (fst s)) pos progress)
         (\<lambda>res. case res of
            Inl left \<Rightarrow> wr_return (Inl left)
          | Inr (pos', progress') \<Rightarrow> write_arrays direct offset src (at + 1) n pos' progress')) s"

fun write_array_runs ::
  "bool \<Rightarrow> nat \<Rightarrow> u8 list \<Rightarrow> run list \<Rightarrow> nat \<Rightarrow> nat \<times> nat \<Rightarrow> (nat + nat \<times> nat \<times> nat) wr" where
  "write_array_runs direct offset src [] pos progress s = wr_return (Inr (pos, progress)) s"
| "write_array_runs direct offset src (a # as) pos progress s =
     wr_then (write_arrays direct offset src (to_block (fst s) a) (unat (run_len a)) pos progress)
       (\<lambda>res. case res of
          Inl left \<Rightarrow> wr_return (Inl left)
        | Inr (pos', progress') \<Rightarrow> write_array_runs direct offset src as pos' progress') s"

fun write_double ::
  "bool \<Rightarrow> nat \<Rightarrow> u8 list \<Rightarrow> nat \<Rightarrow> nat \<Rightarrow> nat \<Rightarrow> nat \<times> nat \<Rightarrow> (nat + nat \<times> nat \<times> nat) wr" where
  "write_double direct offset src at 0 pos progress s = wr_return (Inr (pos, progress)) s"
| "write_double direct offset src at (Suc n) pos progress s =
     wr_then (reading (\<lambda>jo. rd_block jo (wrap64 at)))
       (\<lambda>arr. let rs = runs_in arr 0 (runs_per_block (fst s))
         in wr_then (write_array_runs direct offset src rs pos progress)
         (\<lambda>res. case res of
            Inl left \<Rightarrow> wr_return (Inl left)
          | Inr (pos', cursor, left) \<Rightarrow>
              if length rs < runs_per_block (fst s) then wr_return (Inl left)
              else write_double direct offset src (at + 1) n pos' (cursor, left))) s"

definition write_stream_impl :: "bool \<Rightarrow> u8 list \<Rightarrow> nat \<Rightarrow> u8 list \<Rightarrow> unit wr" where
  "write_stream_impl direct stream offset src s =
     (if src = [] then wr_return () s
      else
        let v = fst s; indirect = le_run stream ds_kIndirect; double = le_run stream ds_kDoubleIndirect;
            finished = (\<lambda>left. if left = 0 then wr_return () else wr_fail)
        in wr_then (write_block_runs direct offset src stream ds_kDirect ds_kDirectCount 0 (offset, length src))
             (\<lambda>res. case res of
                Inl left \<Rightarrow> finished left
              | Inr (pos, progress) \<Rightarrow>
                  wr_then (write_arrays direct offset src (to_block v indirect) (unat (run_len indirect)) pos progress)
                    (\<lambda>res. case res of
                       Inl left \<Rightarrow> finished left
                     | Inr (pos, progress) \<Rightarrow>
                         wr_then (write_double direct offset src (to_block v double) (unat (run_len double)) pos progress)
                           (\<lambda>res. case res of Inl left \<Rightarrow> finished left | Inr (pos, cursor, left) \<Rightarrow> finished left))) s)"

definition write_stream_raw :: "u8 list \<Rightarrow> nat \<Rightarrow> u8 list \<Rightarrow> unit wr" where
  "write_stream_raw stream offset src = write_stream_impl False stream offset src"

definition write_stream_direct :: "u8 list \<Rightarrow> nat \<Rightarrow> u8 list \<Rightarrow> unit wr" where
  "write_stream_direct stream offset src = write_stream_impl True stream offset src"

end
