(* ===== verification/Bfs_Query.thy ===== *)
theory Bfs_Query
  imports Complex_Main Bfs_Stream
begin

text \<open>
  The query language of a volume, \<^verbatim>\<open>src/libs/freestanding/aegir-bfs/src/query.cc\<close>: a recursive descent
  parser that turns an expression into postfix terms, and the evaluation of the terms for an inode.
  A position in the text is the rest of the text from there on. An evaluation reads attributes from
  the volume, so it threads the state of volume and device.
\<close>

section \<open>Terms\<close>

datatype query_op = kQueryEqual | kQueryUnequal | kQueryGreater | kQueryLess | kQueryGreaterEqual
  | kQueryLessEqual | kQueryAnd | kQueryOr

datatype query_literal = LString | LInteger | LUnsigned | LReal | LBoolean

definition kMaxQueryValue :: nat where "kMaxQueryValue = 64"
definition kMaxQueryTerms :: nat where "kMaxQueryTerms = 16"

text \<open>
  The values a \<^verbatim>\<open>double\<close> takes as far as comparisons see them: the two zeros are one. Arithmetic rounds
  to the nearest number of 53 bits, ties to even; the integers here stay far below the largest double.
\<close>

datatype double = NaN | Infinite bool | Finite rat

fun bit_length :: "nat \<Rightarrow> nat" where
  "bit_length n = (if n = 0 then 0 else Suc (bit_length (n div 2)))"

declare bit_length.simps [simp del]

definition round_even :: "nat \<Rightarrow> nat" where
  "round_even n =
     (if bit_length n \<le> 53 then n
      else
        let s = bit_length n - 53; q = n div 2 ^ s; r = n mod 2 ^ s; half = 2 ^ (s - 1)
        in (if r > half \<or> (r = half \<and> odd q) then q + 1 else q) * 2 ^ s)"

definition double_of_int :: "int \<Rightarrow> double" where
  "double_of_int n = Finite (of_int (sgn n * int (round_even (nat \<bar>n\<bar>))))"

text \<open>A binary floating point number from its fields: sign, biased exponent and fraction.\<close>

definition fp_value :: "nat \<Rightarrow> nat \<Rightarrow> bool \<Rightarrow> nat \<Rightarrow> nat \<Rightarrow> double" where
  "fp_value ebits fbits negative e f =
     (let shift = 2 ^ (ebits - 1) - 2 + fbits; sign = (if negative then - 1 else 1)
      in if e = 2 ^ ebits - 1 then (if f = 0 then Infinite negative else NaN)
         else if e = 0 then Finite (sign * of_nat f / 2 ^ shift)
         else Finite (sign * of_nat ((2 ^ fbits + f) * 2 ^ (e - 1)) / 2 ^ shift))"

definition float_of_bits :: "u32 \<Rightarrow> double" where
  "float_of_bits b = (let n = unat b in fp_value 8 23 (n div 2 ^ 31 = 1) (n div 2 ^ 23 mod 2 ^ 8) (n mod 2 ^ 23))"

definition double_of_bits :: "u64 \<Rightarrow> double" where
  "double_of_bits b = (let n = unat b in fp_value 11 52 (n div 2 ^ 63 = 1) (n div 2 ^ 52 mod 2 ^ 11) (n mod 2 ^ 52))"

fun double_less :: "double \<Rightarrow> double \<Rightarrow> bool" where
  "double_less NaN y \<longleftrightarrow> False"
| "double_less x NaN \<longleftrightarrow> False"
| "double_less (Finite a) (Finite b) \<longleftrightarrow> a < b"
| "double_less (Finite a) (Infinite negative) \<longleftrightarrow> \<not> negative"
| "double_less (Infinite negative) (Finite b) \<longleftrightarrow> negative"
| "double_less (Infinite m) (Infinite n) \<longleftrightarrow> m \<and> \<not> n"

fun double_equal :: "double \<Rightarrow> double \<Rightarrow> bool" where
  "double_equal NaN y \<longleftrightarrow> False"
| "double_equal x NaN \<longleftrightarrow> False"
| "double_equal x y \<longleftrightarrow> x = y"

text \<open>\<open>count_\<close> is the length of the list of terms.\<close>

record query_equation =
  qe_op :: query_op
  qe_literal :: query_literal
  qe_attribute :: "u8 list"
  qe_value :: "u8 list"
  qe_integer :: int
  qe_unsigned :: u64
  qe_real :: double
  qe_boolean :: bool

datatype query_term = Equation query_equation | Operator query_op

section \<open>Tokens\<close>

abbreviation ch :: "char \<Rightarrow> u8" where
  "ch c \<equiv> of_char c"

definition query_space :: "u8 \<Rightarrow> bool" where
  "query_space c \<longleftrightarrow> c = 32 \<or> c = 9 \<or> c = 10 \<or> c = 13"

definition skip_space :: "u8 list \<Rightarrow> u8 list" where
  "skip_space rest = dropWhile query_space rest"

definition is_operator_start :: "u8 \<Rightarrow> bool" where
  "is_operator_start c \<longleftrightarrow>
     c = ch CHR ''='' \<or> c = ch CHR ''!'' \<or> c = ch CHR ''<'' \<or> c = ch CHR ''>'' \<or> c = ch CHR ''&'' \<or>
     c = ch CHR ''|'' \<or> c = ch CHR '')''"

definition is_quote :: "u8 \<Rightarrow> bool" where
  "is_quote c \<longleftrightarrow> c = 34 \<or> c = 39"

text \<open>The loop of \<^verbatim>\<open>read_quoted\<close> after the opening quote; 92 is the backslash.\<close>

fun read_quoted_from :: "u8 \<Rightarrow> nat \<Rightarrow> u8 list \<Rightarrow> u8 list \<Rightarrow> (u8 list \<times> u8 list) option" where
  "read_quoted_from quote capacity out [] = None"
| "read_quoted_from quote capacity out (c # cs) =
     (if c = quote then Some (out, cs)
      else if c = 92 \<and> cs \<noteq> [] then
        if length out \<ge> capacity then None else read_quoted_from quote capacity (out @ [hd cs]) (tl cs)
      else if length out \<ge> capacity then None
      else read_quoted_from quote capacity (out @ [c]) cs)"

fun read_quoted :: "nat \<Rightarrow> u8 list \<Rightarrow> (u8 list \<times> u8 list) option" where
  "read_quoted capacity [] = None"
| "read_quoted capacity (quote # rest) = read_quoted_from quote capacity [] rest"

definition trim_end :: "u8 list \<Rightarrow> u8 list" where
  "trim_end out = rev (dropWhile query_space (rev out))"

definition read_bare :: "nat \<Rightarrow> u8 list \<Rightarrow> (u8 list \<times> u8 list) option" where
  "read_bare capacity rest =
     (let out = takeWhile (\<lambda>c. \<not> is_operator_start c) rest
      in if length out > capacity then None else Some (trim_end out, drop (length out) rest))"

text \<open>The sign of a number and what follows it.\<close>

definition read_sign :: "u8 list \<Rightarrow> bool \<times> u8 list" where
  "read_sign s =
     (case s of
        [] \<Rightarrow> (False, [])
      | c # cs \<Rightarrow> if c = ch CHR ''+'' \<or> c = ch CHR ''-'' then (c = ch CHR ''-'', cs) else (False, s))"

definition query_digit :: "u8 \<Rightarrow> bool" where
  "query_digit c \<longleftrightarrow> ch CHR ''0'' \<le> c \<and> c \<le> ch CHR ''9''"

definition digit_value :: "u8 \<Rightarrow> nat" where
  "digit_value c = unat c - 48"

fun parse_digits :: "nat \<Rightarrow> u8 list \<Rightarrow> nat option" where
  "parse_digits value [] = Some value"
| "parse_digits value (c # cs) =
     (if \<not> query_digit c then None
      else if value > (2 ^ 63 - 1 - digit_value c) div 10 then None
      else parse_digits (value * 10 + digit_value c) cs)"

definition parse_integer :: "u8 list \<Rightarrow> int option" where
  "parse_integer s =
     (case read_sign s of (negative, cs) \<Rightarrow>
        if cs = [] then None
        else map_option (\<lambda>v. if negative then - int v else int v) (parse_digits 0 cs))"

fun real_digits :: "nat \<Rightarrow> bool \<Rightarrow> bool \<Rightarrow> u8 list \<Rightarrow> nat option" where
  "real_digits value digits dot [] = (if \<not> digits \<or> \<not> dot then None else Some value)"
| "real_digits value digits dot (c # cs) =
     (if query_digit c then real_digits (round_even (round_even (value * 10) + digit_value c)) True dot cs
      else if c = ch CHR ''.'' \<and> \<not> dot then real_digits value digits True cs
      else None)"

definition parse_real :: "u8 list \<Rightarrow> double option" where
  "parse_real s =
     (case read_sign s of (negative, cs) \<Rightarrow>
        map_option (\<lambda>v. Finite (if negative then - of_nat v else of_nat v)) (real_digits 0 False False cs))"

section \<open>The parser\<close>

definition push_term :: "query_term list \<Rightarrow> query_term \<Rightarrow> query_term list option" where
  "push_term terms t = (if length terms \<ge> kMaxQueryTerms then None else Some (terms @ [t]))"

definition read_token :: "nat \<Rightarrow> u8 list \<Rightarrow> (u8 list \<times> u8 list) option" where
  "read_token capacity rest = (if is_quote (hd rest) then read_quoted capacity rest else read_bare capacity rest)"

text \<open>An optional \<open>=\<close> after an operator.\<close>

definition eat :: "u8 \<Rightarrow> u8 list \<Rightarrow> bool \<times> u8 list" where
  "eat c rest = (case rest of [] \<Rightarrow> (False, []) | d # ds \<Rightarrow> if d = c then (True, ds) else (False, rest))"

definition read_operator :: "u8 list \<Rightarrow> (query_op \<times> u8 list) option" where
  "read_operator rest =
     (case rest of
        [] \<Rightarrow> None
      | c # cs \<Rightarrow>
          (case eat (ch CHR ''='') cs of (twice, after) \<Rightarrow>
             if c = ch CHR ''='' then Some (kQueryEqual, after)
             else if c = ch CHR ''!'' then (if twice then Some (kQueryUnequal, after) else None)
             else if c = ch CHR ''<'' then Some (if twice then kQueryLessEqual else kQueryLess, after)
             else if c = ch CHR ''>'' then Some (if twice then kQueryGreaterEqual else kQueryGreater, after)
             else None))"

definition fresh_equation :: query_equation where
  "fresh_equation =
     \<lparr>qe_op = kQueryEqual, qe_literal = LString, qe_attribute = [], qe_value = [], qe_integer = 0,
      qe_unsigned = 0, qe_real = Finite 0, qe_boolean = False\<rparr>"

text \<open>What a bare value is read as.\<close>

definition bare_literal :: "u8 list \<Rightarrow> query_equation \<Rightarrow> query_equation" where
  "bare_literal v e =
     (case parse_integer v of
        Some n \<Rightarrow> e\<lparr>qe_literal := LInteger, qe_integer := n\<rparr>
      | None \<Rightarrow>
          (case parse_real v of
             Some r \<Rightarrow> e\<lparr>qe_literal := LReal, qe_real := r\<rparr>
           | None \<Rightarrow>
               if v = map ch ''true'' then e\<lparr>qe_literal := LBoolean, qe_boolean := True\<rparr>
               else if v = map ch ''false'' then e\<lparr>qe_literal := LBoolean, qe_boolean := False\<rparr>
               else e\<lparr>qe_literal := LString\<rparr>))"

definition read_value :: "u8 list \<Rightarrow> query_equation \<Rightarrow> (query_equation \<times> u8 list) option" where
  "read_value rest e =
     (if is_quote (hd rest) then
        map_option (\<lambda>(v, r). (e\<lparr>qe_value := v, qe_literal := LString\<rparr>, r)) (read_quoted kMaxQueryValue rest)
      else
        (case read_bare kMaxQueryValue rest of
           None \<Rightarrow> None
         | Some (v, r) \<Rightarrow> if v = [] then None else Some (bare_literal v (e\<lparr>qe_value := v\<rparr>), r)))"

definition equation :: "u8 list \<Rightarrow> query_term list \<Rightarrow> (u8 list \<times> query_term list) option" where
  "equation rest terms =
     (let r0 = skip_space rest
      in if r0 = [] then None
         else
           (case read_token kMaxName r0 of
              None \<Rightarrow> None
            | Some (attribute, r1) \<Rightarrow>
                if attribute = [] then None
                else
                  (case read_operator (skip_space r1) of
                     None \<Rightarrow> None
                   | Some (op, r2) \<Rightarrow>
                       let r3 = skip_space r2
                       in if r3 = [] then None
                          else
                            (case read_value r3 (fresh_equation\<lparr>qe_attribute := attribute, qe_op := op\<rparr>) of
                               None \<Rightarrow> None
                             | Some (e, r4) \<Rightarrow> map_option (Pair r4) (push_term terms (Equation e))))))"

text \<open>Every token takes text away, so an equation leaves less than it was given.\<close>

lemma skip_space_length: "length (skip_space rest) \<le> length rest"
  by (simp add: skip_space_def length_dropWhile_le)

lemma read_quoted_length: "read_quoted_from q cap out rest = Some (v, r) \<Longrightarrow> length r < length rest"
proof (induction q cap out rest rule: read_quoted_from.induct)
  case (1 quote capacity out)
  then show ?case by simp
next
  case (2 quote capacity out c cs)
  then show ?case by (cases cs) (auto split: if_splits)
qed

lemma read_token_length:
  assumes "read_token cap rest = Some (v, r)"
  shows "length r \<le> length rest"
proof (cases "is_quote (hd rest)")
  case True
  then show ?thesis using assms by (cases rest) (auto simp: read_token_def dest: read_quoted_length)
next
  case False
  then show ?thesis using assms by (auto simp: read_token_def read_bare_def Let_def split: if_splits)
qed

lemma read_operator_length: "read_operator rest = Some (op, r) \<Longrightarrow> length r < length rest"
  by (auto simp: read_operator_def eat_def split: list.splits if_splits)

lemma read_value_length:
  assumes "read_value rest e = Some (e', r)"
  shows "length r \<le> length rest"
proof (cases "is_quote (hd rest)")
  case True
  then show ?thesis using assms by (cases rest) (auto simp: read_value_def dest: read_quoted_length)
next
  case False
  then show ?thesis
    using assms by (auto simp: read_value_def read_bare_def Let_def split: if_splits option.splits)
qed

lemma equation_result:
  assumes "equation rest terms = Some (r, terms')"
  shows "length r < length rest" "\<exists>e. terms' = terms @ [Equation e]" "length terms' \<le> kMaxQueryTerms"
proof -
  obtain attribute r1 op r2 e0 e where
    q: "read_token kMaxName (skip_space rest) = Some (attribute, r1)" "read_operator (skip_space r1) = Some (op, r2)"
      "read_value (skip_space r2) e0 = Some (e, r)" "push_term terms (Equation e) = Some terms'"
    using assms by (auto simp: equation_def Let_def split: if_splits option.splits)
  show "length r < length rest"
    using read_token_length [OF q(1)] read_operator_length [OF q(2)] read_value_length [OF q(3)]
      skip_space_length [of rest] skip_space_length [of r1] skip_space_length [of r2] by linarith
  show "\<exists>e. terms' = terms @ [Equation e]" "length terms' \<le> kMaxQueryTerms"
    using q(4) by (auto simp: push_term_def split: if_splits)
qed

text \<open>The text after \<open>&\<close> or \<open>|\<close>, doubled or not; none when something else follows.\<close>

definition connective :: "u8 \<Rightarrow> u8 list \<Rightarrow> u8 list option" where
  "connective c rest =
     (case skip_space rest of [] \<Rightarrow> None | d # ds \<Rightarrow> if d = c then Some (snd (eat c ds)) else None)"

lemma connective_length: "connective c rest = Some r \<Longrightarrow> length r < length rest"
  using skip_space_length [of rest] by (auto simp: connective_def eat_def split: list.splits if_splits)

function conjunction_loop :: "u8 list \<Rightarrow> query_term list \<Rightarrow> (u8 list \<times> query_term list) option" where
  "conjunction_loop rest terms =
     (case connective (ch CHR ''&'') rest of
        None \<Rightarrow> Some (skip_space rest, terms)
      | Some r \<Rightarrow>
          (case equation r terms of
             None \<Rightarrow> None
           | Some (r', terms') \<Rightarrow>
               (case push_term terms' (Operator kQueryAnd) of
                  None \<Rightarrow> None
                | Some terms'' \<Rightarrow> conjunction_loop r' terms'')))"
  by pat_completeness auto
termination
  by (relation "measure (\<lambda>(rest, terms). length rest)") (auto dest!: connective_length equation_result(1))

declare conjunction_loop.simps [simp del]

definition conjunction :: "u8 list \<Rightarrow> query_term list \<Rightarrow> (u8 list \<times> query_term list) option" where
  "conjunction rest terms =
     (case equation rest terms of None \<Rightarrow> None | Some (r, terms') \<Rightarrow> conjunction_loop r terms')"

lemma conjunction_loop_length: "conjunction_loop rest terms = Some (r, terms') \<Longrightarrow> length r \<le> length rest"
proof (induction rest terms rule: conjunction_loop.induct)
  case (1 rest terms)
  show ?case
  proof (cases "connective (ch CHR ''&'') rest")
    case None
    then show ?thesis using "1.prems" skip_space_length [of rest] by (subst (asm) conjunction_loop.simps) auto
  next
    case (Some r0)
    obtain r1 t1 t2 where q: "equation r0 terms = Some (r1, t1)" "push_term t1 (Operator kQueryAnd) = Some t2"
      "conjunction_loop r1 t2 = Some (r, terms')"
      using "1.prems" Some by (subst (asm) conjunction_loop.simps) (auto split: option.splits)
    then show ?thesis
      using "1.IH" [OF Some q(1) refl q(2)] connective_length [OF Some] equation_result(1) [OF q(1)] by simp
  qed
qed

lemma conjunction_length: "conjunction rest terms = Some (r, terms') \<Longrightarrow> length r < length rest"
  by (auto simp: conjunction_def split: option.splits dest!: conjunction_loop_length equation_result(1))

function disjunction_loop :: "u8 list \<Rightarrow> query_term list \<Rightarrow> (u8 list \<times> query_term list) option" where
  "disjunction_loop rest terms =
     (case connective (ch CHR ''|'') rest of
        None \<Rightarrow> Some (skip_space rest, terms)
      | Some r \<Rightarrow>
          (case conjunction r terms of
             None \<Rightarrow> None
           | Some (r', terms') \<Rightarrow>
               (case push_term terms' (Operator kQueryOr) of
                  None \<Rightarrow> None
                | Some terms'' \<Rightarrow> disjunction_loop r' terms'')))"
  by pat_completeness auto
termination
  by (relation "measure (\<lambda>(rest, terms). length rest)") (auto dest!: connective_length conjunction_length)

declare disjunction_loop.simps [simp del]

definition disjunction :: "u8 list \<Rightarrow> query_term list \<Rightarrow> (u8 list \<times> query_term list) option" where
  "disjunction rest terms =
     (case conjunction rest terms of None \<Rightarrow> None | Some (r, terms') \<Rightarrow> disjunction_loop r terms')"

text \<open>The terms of the parsed query, none when the parse failed, and the answer of \<^verbatim>\<open>Query::parse\<close>.\<close>

definition query_parse :: "u8 list \<Rightarrow> query_term list \<times> bool" where
  "query_parse s =
     (if s = [] then ([], False)
      else
        (case disjunction s [] of
           None \<Rightarrow> ([], False)
         | Some (rest, terms) \<Rightarrow> if skip_space rest \<noteq> [] then ([], False) else (terms, terms \<noteq> [])))"

definition single_equation :: "query_term list \<Rightarrow> query_equation option" where
  "single_equation terms = (case terms of [Equation e] \<Rightarrow> Some e | _ \<Rightarrow> None)"

section \<open>Evaluation\<close>

definition type_code :: "char \<Rightarrow> char \<Rightarrow> char \<Rightarrow> char \<Rightarrow> u32" where
  "type_code a b c d = push_bit 24 (of_char a) OR push_bit 16 (of_char b) OR push_bit 8 (of_char c) OR of_char d"

definition kTypeString :: u32 where "kTypeString = type_code CHR ''C'' CHR ''S'' CHR ''T'' CHR ''R''"
definition kTypeInt32 :: u32 where "kTypeInt32 = type_code CHR ''L'' CHR ''O'' CHR ''N'' CHR ''G''"
definition kTypeUInt32 :: u32 where "kTypeUInt32 = type_code CHR ''U'' CHR ''L'' CHR ''N'' CHR ''G''"
definition kTypeInt64 :: u32 where "kTypeInt64 = type_code CHR ''L'' CHR ''L'' CHR ''N'' CHR ''G''"
definition kTypeUInt64 :: u32 where "kTypeUInt64 = type_code CHR ''U'' CHR ''L'' CHR ''L'' CHR ''G''"
definition kTypeInt16 :: u32 where "kTypeInt16 = type_code CHR ''S'' CHR ''H'' CHR ''R'' CHR ''T''"
definition kTypeUInt16 :: u32 where "kTypeUInt16 = type_code CHR ''U'' CHR ''S'' CHR ''H'' CHR ''T''"
definition kTypeInt8 :: u32 where "kTypeInt8 = type_code CHR ''B'' CHR ''Y'' CHR ''T'' CHR ''E''"
definition kTypeUInt8 :: u32 where "kTypeUInt8 = type_code CHR ''U'' CHR ''B'' CHR ''Y'' CHR ''T''"
definition kTypeFloat :: u32 where "kTypeFloat = type_code CHR ''F'' CHR ''L'' CHR ''O'' CHR ''T''"
definition kTypeDouble :: u32 where "kTypeDouble = type_code CHR ''D'' CHR ''B'' CHR ''L'' CHR ''E''"
definition kTypeBool :: u32 where "kTypeBool = type_code CHR ''B'' CHR ''O'' CHR ''O'' CHR ''L''"
definition kTypeRaw :: u32 where "kTypeRaw = type_code CHR ''R'' CHR ''A'' CHR ''W'' CHR ''T''"
definition kTypeMime :: u32 where "kTypeMime = type_code CHR ''M'' CHR ''I'' CHR ''M'' CHR ''S''"

lemmas type_codes = kTypeString_def kTypeInt32_def kTypeUInt32_def kTypeInt64_def kTypeUInt64_def
  kTypeInt16_def kTypeUInt16_def kTypeInt8_def kTypeUInt8_def kTypeFloat_def kTypeDouble_def kTypeBool_def
  kTypeRaw_def kTypeMime_def type_code_def

datatype family = FNone | FString | FInteger | FUnsigned | FReal | FBoolean

definition family_of :: "u32 \<Rightarrow> family" where
  "family_of ty =
     (if ty \<in> {kTypeString, kTypeMime, kTypeRaw} then FString
      else if ty \<in> {kTypeInt32, kTypeInt64, kTypeInt16, kTypeInt8} then FInteger
      else if ty \<in> {kTypeUInt32, kTypeUInt64, kTypeUInt16, kTypeUInt8} then FUnsigned
      else if ty \<in> {kTypeFloat, kTypeDouble} then FReal
      else if ty = kTypeBool then FBoolean
      else FNone)"

text \<open>The signed and the unsigned value; the one the type does not set stays zero.\<close>

definition decode_integer :: "u8 list \<Rightarrow> u32 \<Rightarrow> (int \<times> u64) option" where
  "decode_integer data ty =
     (if ty = kTypeInt8 then (if length data \<noteq> 1 then None else Some (sint (data ! 0), 0))
      else if ty = kTypeUInt8 then (if length data \<noteq> 1 then None else Some (0, ucast (data ! 0)))
      else if ty = kTypeInt16 then (if length data \<noteq> 2 then None else Some (sint (le16 data 0), 0))
      else if ty = kTypeUInt16 then (if length data \<noteq> 2 then None else Some (0, ucast (le16 data 0)))
      else if ty = kTypeInt32 then (if length data \<noteq> 4 then None else Some (sint (le32 data 0), 0))
      else if ty = kTypeUInt32 then (if length data \<noteq> 4 then None else Some (0, ucast (le32 data 0)))
      else if ty = kTypeInt64 then (if length data \<noteq> 8 then None else Some (sint (le64 data 0), 0))
      else if ty = kTypeUInt64 then (if length data \<noteq> 8 then None else Some (0, le64 data 0))
      else None)"

definition decode_real :: "u8 list \<Rightarrow> u32 \<Rightarrow> double option" where
  "decode_real data ty =
     (if ty = kTypeFloat \<and> length data = 4 then Some (float_of_bits (le32 data 0))
      else if ty = kTypeDouble \<and> length data = 8 then Some (double_of_bits (le64 data 0))
      else None)"

fun compare_bytes :: "u8 list \<Rightarrow> u8 list \<Rightarrow> int" where
  "compare_bytes (x # xs) (y # ys) = (if x \<noteq> y then (if x < y then - 1 else 1) else compare_bytes xs ys)"
| "compare_bytes xs ys = (if length xs = length ys then 0 else if length xs < length ys then - 1 else 1)"

definition double_order :: "double \<Rightarrow> double \<Rightarrow> bool \<times> int" where
  "double_order x y = (double_equal x y, if double_less x y then - 1 else if double_less y x then 1 else 0)"

text \<open>Whether the attribute's value equals the literal and how it is ordered to it; none when they do not compare.\<close>

definition compare_literal :: "query_equation \<Rightarrow> u8 list \<Rightarrow> u32 \<Rightarrow> (bool \<times> int) option" where
  "compare_literal e data ty =
     (let family = family_of ty
      in case qe_literal e of
           LString \<Rightarrow>
             if family \<noteq> FString then None else Some (data = qe_value e, compare_bytes data (qe_value e))
         | LBoolean \<Rightarrow>
             if family \<noteq> FBoolean \<or> length data \<noteq> 1 then None
             else let equal = ((data ! 0 \<noteq> 0) = qe_boolean e) in Some (equal, if equal then 0 else 1)
         | LReal \<Rightarrow>
             if family = FReal then map_option (\<lambda>v. double_order v (qe_real e)) (decode_real data ty)
             else if family = FInteger \<or> family = FUnsigned then
               map_option
                 (\<lambda>(i, u). double_order (double_of_int (if family = FInteger then i else uint u)) (qe_real e))
                 (decode_integer data ty)
             else None
         | _ \<Rightarrow>
             let signed_literal = (if qe_literal e = LInteger then qe_integer e else sint (qe_unsigned e));
                 unsigned_literal = (if qe_literal e = LUnsigned then qe_unsigned e else word_of_int (qe_integer e))
             in if family = FReal then
                  map_option
                    (\<lambda>v. double_order v
                       (double_of_int (if qe_literal e = LInteger then qe_integer e else uint (qe_unsigned e))))
                    (decode_real data ty)
                else if family = FInteger then
                  map_option (\<lambda>(i, u). (i = signed_literal, order3 i signed_literal)) (decode_integer data ty)
                else if family = FUnsigned then
                  map_option (\<lambda>(i, u). (u = unsigned_literal, order3 u unsigned_literal)) (decode_integer data ty)
                else None)"

fun op_holds :: "query_op \<Rightarrow> bool \<Rightarrow> int \<Rightarrow> bool" where
  "op_holds kQueryEqual equal order \<longleftrightarrow> equal"
| "op_holds kQueryUnequal equal order \<longleftrightarrow> \<not> equal"
| "op_holds kQueryGreater equal order \<longleftrightarrow> order > 0"
| "op_holds kQueryLess equal order \<longleftrightarrow> order < 0"
| "op_holds kQueryGreaterEqual equal order \<longleftrightarrow> order \<ge> 0"
| "op_holds kQueryLessEqual equal order \<longleftrightarrow> order \<le> 0"
| "op_holds kQueryAnd equal order \<longleftrightarrow> False"
| "op_holds kQueryOr equal order \<longleftrightarrow> False"

text \<open>The bytes and the type of the attribute an equation names: a standard one, or one of the inode's own.\<close>

definition attribute_value :: "journal option \<Rightarrow> inode \<Rightarrow> u8 list \<Rightarrow> (u8 list \<times> u32) rd" where
  "attribute_value jo i attribute =
     (if attribute = map ch ''name'' then rd_return (take kMaxQueryValue (i_name i), kTypeString)
      else if attribute = map ch ''size'' then rd_return (put_le64 (replicate 8 0) 0 (i_size i), kTypeInt64)
      else if attribute = map ch ''last_modified'' then
        rd_return (put_le64 (replicate 8 0) 0 (signed_drop_bit 16 (i_mtime i)), kTypeInt64)
      else
        and_then (attr_stat jo i attribute)
          (\<lambda>(ty, attribute_size). and_then (attr_read jo i attribute 0 (min attribute_size kMaxQueryValue))
            (\<lambda>data. rd_return (data, ty))))"

definition match_equation :: "journal option \<Rightarrow> inode \<Rightarrow> query_equation \<Rightarrow> volume \<times> device \<Rightarrow> (volume \<times> device) \<times> bool" where
  "match_equation jo i e s =
     (case attribute_value jo i (qe_attribute e) s of
        (s', None) \<Rightarrow> (s', False)
      | (s', Some (data, ty)) \<Rightarrow>
          (s', case compare_literal e data ty of None \<Rightarrow> False | Some (equal, order) \<Rightarrow> op_holds (qe_op e) equal order))"

text \<open>The loop over the terms, with the stack's top first.\<close>

fun run_terms :: "journal option \<Rightarrow> inode \<Rightarrow> query_term list \<Rightarrow> bool list \<Rightarrow> volume \<times> device \<Rightarrow> (volume \<times> device) \<times> bool" where
  "run_terms jo i [] stack s = (s, length stack = 1 \<and> hd stack)"
| "run_terms jo i (Equation e # terms) stack s =
     (if length stack \<ge> kMaxQueryTerms then (s, False)
      else case match_equation jo i e s of (s', b) \<Rightarrow> run_terms jo i terms (b # stack) s')"
| "run_terms jo i (Operator op # terms) stack s =
     (case stack of
        right # left # others \<Rightarrow>
          run_terms jo i terms ((if op = kQueryAnd then left \<and> right else left \<or> right) # others) s
      | _ \<Rightarrow> (s, False))"

definition query_matches :: "journal option \<Rightarrow> inode \<Rightarrow> query_term list \<Rightarrow> volume \<times> device \<Rightarrow> (volume \<times> device) \<times> bool" where
  "query_matches jo i terms s = (if terms = [] then (s, False) else run_terms jo i terms [] s)"

section \<open>Queries as expressions\<close>

text \<open>The expression a query stands for, its postfix terms and its value.\<close>

datatype expr = Eqn query_equation | Conj expr expr | Disj expr expr

fun postfix :: "expr \<Rightarrow> query_term list" where
  "postfix (Eqn e) = [Equation e]"
| "postfix (Conj a b) = postfix a @ postfix b @ [Operator kQueryAnd]"
| "postfix (Disj a b) = postfix a @ postfix b @ [Operator kQueryOr]"

fun eval :: "journal option \<Rightarrow> inode \<Rightarrow> expr \<Rightarrow> volume \<times> device \<Rightarrow> (volume \<times> device) \<times> bool" where
  "eval jo i (Eqn e) s = match_equation jo i e s"
| "eval jo i (Conj a b) s = (case eval jo i a s of (s1, x) \<Rightarrow> case eval jo i b s1 of (s2, y) \<Rightarrow> (s2, x \<and> y))"
| "eval jo i (Disj a b) s = (case eval jo i a s of (s1, x) \<Rightarrow> case eval jo i b s1 of (s2, y) \<Rightarrow> (s2, x \<or> y))"

text \<open>\<open>&\<close> binds tighter than \<open>|\<close> and both associate to the left.\<close>

fun conj_shape :: "expr \<Rightarrow> bool" where
  "conj_shape (Eqn e) \<longleftrightarrow> True"
| "conj_shape (Conj a (Eqn e)) \<longleftrightarrow> conj_shape a"
| "conj_shape e \<longleftrightarrow> False"

fun disj_shape :: "expr \<Rightarrow> bool" where
  "disj_shape (Disj a b) \<longleftrightarrow> disj_shape a \<and> conj_shape b"
| "disj_shape e \<longleftrightarrow> conj_shape e"

lemma postfix_not_Nil [simp]: "postfix e \<noteq> []" "0 < length (postfix e)"
  by (induction e) auto

lemma run_postfix:
  "length stack + length (postfix e) \<le> kMaxQueryTerms \<Longrightarrow>
   run_terms jo i (postfix e @ terms) stack s =
     (case eval jo i e s of (s', b) \<Rightarrow> run_terms jo i terms (b # stack) s')"
proof (induction e arbitrary: stack terms s)
  case (Eqn e)
  then show ?case by simp
next
  case (Conj a b)
  then show ?case by (simp add: case_prod_beta)
next
  case (Disj a b)
  then show ?case by (simp add: case_prod_beta)
qed

lemma matches_postfix:
  assumes "length (postfix e) \<le> kMaxQueryTerms"
  shows "query_matches jo i (postfix e) s = eval jo i e s"
  using run_postfix [of "[]" e jo i "[]" s] assms by (simp add: query_matches_def case_prod_beta)

lemma push_term_Some: "push_term terms t = Some terms' \<longleftrightarrow> length terms < kMaxQueryTerms \<and> terms' = terms @ [t]"
  by (auto simp: push_term_def not_le)

lemma conjunction_loop_shape:
  assumes "conjunction_loop rest terms = Some (r, terms')" and "terms = ts @ postfix e" and "conj_shape e"
    and "length terms \<le> kMaxQueryTerms"
  shows "\<exists>e'. terms' = ts @ postfix e' \<and> conj_shape e' \<and> length terms' \<le> kMaxQueryTerms"
  using assms
proof (induction rest terms arbitrary: e rule: conjunction_loop.induct)
  case (1 rest terms)
  show ?case
  proof (cases "connective (ch CHR ''&'') rest")
    case None
    then have "terms' = terms" using "1.prems"(1) by (subst (asm) conjunction_loop.simps) auto
    then show ?thesis using "1.prems" by blast
  next
    case (Some r0)
    obtain r1 t1 t2 where q: "equation r0 terms = Some (r1, t1)" "push_term t1 (Operator kQueryAnd) = Some t2"
      "conjunction_loop r1 t2 = Some (r, terms')"
      using "1.prems"(1) Some by (subst (asm) conjunction_loop.simps) (auto split: option.splits)
    obtain eq where "t1 = terms @ [Equation eq]" using equation_result(2) [OF q(1)] by blast
    then have t2: "t2 = ts @ postfix (Conj e (Eqn eq))" "length t2 \<le> kMaxQueryTerms"
      using q(2) "1.prems"(2) by (auto simp: push_term_Some)
    show ?thesis
      by (rule "1.IH" [OF Some q(1) refl q(2,3) t2(1)]) (use "1.prems"(3) t2(2) in auto)
  qed
qed

lemma conjunction_shape:
  assumes "conjunction rest terms = Some (r, terms')"
  shows "\<exists>e. terms' = terms @ postfix e \<and> conj_shape e \<and> length terms' \<le> kMaxQueryTerms"
proof -
  obtain r0 t0 where q: "equation rest terms = Some (r0, t0)" "conjunction_loop r0 t0 = Some (r, terms')"
    using assms by (auto simp: conjunction_def split: option.splits)
  obtain eq where "t0 = terms @ postfix (Eqn eq)" using equation_result(2) [OF q(1)] by auto
  from conjunction_loop_shape [OF q(2) this] show ?thesis using equation_result(3) [OF q(1)] by simp
qed

lemma disjunction_loop_shape:
  assumes "disjunction_loop rest terms = Some (r, terms')" and "terms = postfix e" and "disj_shape e"
    and "length terms \<le> kMaxQueryTerms"
  shows "\<exists>e'. terms' = postfix e' \<and> disj_shape e' \<and> length terms' \<le> kMaxQueryTerms"
  using assms
proof (induction rest terms arbitrary: e rule: disjunction_loop.induct)
  case (1 rest terms)
  show ?case
  proof (cases "connective (ch CHR ''|'') rest")
    case None
    then have "terms' = terms" using "1.prems"(1) by (subst (asm) disjunction_loop.simps) auto
    then show ?thesis using "1.prems" by blast
  next
    case (Some r0)
    obtain r1 t1 t2 where q: "conjunction r0 terms = Some (r1, t1)" "push_term t1 (Operator kQueryOr) = Some t2"
      "disjunction_loop r1 t2 = Some (r, terms')"
      using "1.prems"(1) Some by (subst (asm) disjunction_loop.simps) (auto split: option.splits)
    obtain e1 where "t1 = terms @ postfix e1" "conj_shape e1" using conjunction_shape [OF q(1)] by blast
    then have t2: "t2 = postfix (Disj e e1)" "length t2 \<le> kMaxQueryTerms" "disj_shape (Disj e e1)"
      using q(2) "1.prems"(2,3) by (auto simp: push_term_Some)
    show ?thesis by (rule "1.IH" [OF Some q(1) refl q(2,3) t2(1,3,2)])
  qed
qed

lemma conj_disj_shape: "conj_shape e \<Longrightarrow> disj_shape e"
  by (cases e) auto


section \<open>Printing a query\<close>

text \<open>An expression of string equations written out with every attribute and value quoted.\<close>

definition quoted :: "u8 list \<Rightarrow> u8 list" where
  "quoted v = 34 # concat (map (\<lambda>c. if c = 34 \<or> c = 92 then [92, c] else [c]) v) @ [34]"

fun op_text :: "query_op \<Rightarrow> u8 list" where
  "op_text kQueryEqual = map ch ''=''"
| "op_text kQueryUnequal = map ch ''!=''"
| "op_text kQueryGreater = map ch ''>''"
| "op_text kQueryLess = map ch ''<''"
| "op_text kQueryGreaterEqual = map ch ''>=''"
| "op_text kQueryLessEqual = map ch ''<=''"
| "op_text kQueryAnd = map ch ''&''"
| "op_text kQueryOr = map ch ''|''"

fun print_expr :: "expr \<Rightarrow> u8 list" where
  "print_expr (Eqn e) = quoted (qe_attribute e) @ op_text (qe_op e) @ quoted (qe_value e)"
| "print_expr (Conj a b) = print_expr a @ op_text kQueryAnd @ print_expr b"
| "print_expr (Disj a b) = print_expr a @ op_text kQueryOr @ print_expr b"

definition string_equation :: "query_equation \<Rightarrow> bool" where
  "string_equation e \<longleftrightarrow>
     (\<exists>op attribute v. e = fresh_equation\<lparr>qe_attribute := attribute, qe_op := op, qe_value := v\<rparr> \<and>
        op \<noteq> kQueryAnd \<and> op \<noteq> kQueryOr \<and> attribute \<noteq> [] \<and> length attribute \<le> kMaxName \<and> length v \<le> kMaxQueryValue)"

fun equations :: "expr \<Rightarrow> query_equation list" where
  "equations (Eqn e) = [e]"
| "equations (Conj a b) = equations a @ equations b"
| "equations (Disj a b) = equations a @ equations b"

lemma read_quoted_from_quoted:
  "length out + length v \<le> cap \<Longrightarrow>
   read_quoted_from 34 cap out (concat (map (\<lambda>c. if c = 34 \<or> c = 92 then [92, c] else [c]) v) @ 34 # rest) =
     Some (out @ v, rest)"
proof (induction v arbitrary: out)
  case Nil
  then show ?case by simp
next
  case (Cons c v)
  then show ?case using Cons.IH [of "out @ [c]"] by auto
qed

lemma read_quoted_quoted: "length v \<le> cap \<Longrightarrow> read_quoted cap (quoted v @ rest) = Some (v, rest)"
  using read_quoted_from_quoted [of "[]" v cap rest] by (simp add: quoted_def)

lemma quoted_front: "is_quote (hd (quoted v @ rest))" "quoted v @ rest \<noteq> []" "skip_space (quoted v @ rest) = quoted v @ rest"
  by (simp_all add: quoted_def is_quote_def skip_space_def query_space_def)

lemma equation_print:
  assumes "string_equation e" and "length terms < kMaxQueryTerms"
  shows "equation (print_expr (Eqn e) @ rest) terms = Some (rest, terms @ [Equation e])"
proof -
  obtain op a v where e: "e = fresh_equation\<lparr>qe_attribute := a, qe_op := op, qe_value := v\<rparr>"
    and ok: "op \<noteq> kQueryAnd" "op \<noteq> kQueryOr" "a \<noteq> []" "length a \<le> kMaxName" "length v \<le> kMaxQueryValue"
    using assms(1) by (auto simp: string_equation_def)
  have op: "read_operator (skip_space (op_text op @ quoted v @ rest)) = Some (op, quoted v @ rest)"
    using ok(1,2) by (cases op) (simp_all add: skip_space_def query_space_def read_operator_def eat_def quoted_def)
  have "read_token kMaxName (quoted a @ op_text op @ quoted v @ rest) = Some (a, op_text op @ quoted v @ rest)"
    using read_quoted_quoted [OF ok(4)] quoted_front(1) by (simp add: read_token_def)
  moreover have "read_value (quoted v @ rest) e0 = Some (e0\<lparr>qe_value := v, qe_literal := LString\<rparr>, rest)" for e0
    using read_quoted_quoted [OF ok(5)] quoted_front(1) by (simp add: read_value_def)
  ultimately show ?thesis
    using op ok(3) assms(2) quoted_front(2,3)
    by (simp add: equation_def Let_def e fresh_equation_def push_term_def)
qed

lemma print_front: "skip_space (op_text c @ print_expr e @ rest) = op_text c @ print_expr e @ rest"
  "snd (eat d (print_expr e @ rest)) = print_expr e @ rest" if "d \<noteq> 34" for d
proof -
  have "\<exists>xs. print_expr e = 34 # xs" by (induction e) (auto simp: quoted_def)
  then show "snd (eat d (print_expr e @ rest)) = print_expr e @ rest" using that by (auto simp: eat_def)
  show "skip_space (op_text c @ print_expr e @ rest) = op_text c @ print_expr e @ rest"
    by (cases c) (simp_all add: skip_space_def query_space_def)
qed

lemma connective_print:
  "connective (ch CHR ''&'') (op_text kQueryAnd @ print_expr e @ rest) = Some (print_expr e @ rest)"
  "connective (ch CHR ''|'') (op_text kQueryOr @ print_expr e @ rest) = Some (print_expr e @ rest)"
  using print_front(1) [of 0 kQueryAnd e rest] print_front(1) [of 0 kQueryOr e rest]
    print_front(2) [of "ch CHR ''&''" e rest] print_front(2) [of "ch CHR ''|''" e rest]
  by (simp_all add: connective_def)

lemma conjunction_print:
  assumes "conj_shape e" and "\<forall>q\<in>set (equations e). string_equation q" and "length terms + length (postfix e) \<le> kMaxQueryTerms"
  shows "conjunction (print_expr e @ rest) terms = conjunction_loop rest (terms @ postfix e)"
  using assms
proof (induction e arbitrary: rest rule: conj_shape.induct)
  case (1 e)
  then show ?case using equation_print [of e terms rest] by (simp add: conjunction_def)
next
  case (2 a e)
  have "conjunction (print_expr (Conj a (Eqn e)) @ rest) terms =
      conjunction_loop (op_text kQueryAnd @ print_expr (Eqn e) @ rest) (terms @ postfix a)"
    using 2 by simp
  also have "\<dots> = conjunction_loop rest (terms @ postfix (Conj a (Eqn e)))"
    using equation_print [of e "terms @ postfix a" rest] connective_print(1) [of "Eqn e" rest] 2(3,4)
    by (subst conjunction_loop.simps) (simp add: push_term_def)
  finally show ?case .
qed simp_all

lemma disjunction_print:
  assumes "disj_shape e" and "\<forall>q\<in>set (equations e). string_equation q" and "length (postfix e) \<le> kMaxQueryTerms"
    and "rest = [] \<or> (\<exists>b rest'. rest = op_text kQueryOr @ print_expr b @ rest')"
  shows "disjunction (print_expr e @ rest) [] = disjunction_loop rest (postfix e)"
proof -
  have stop: "conjunction_loop rest terms = Some (rest, terms)"
    if "rest = [] \<or> (\<exists>b rest'. rest = op_text kQueryOr @ print_expr b @ rest')" for rest terms
    using that by (subst conjunction_loop.simps) (auto simp: connective_def skip_space_def query_space_def)
  have base: "disjunction (print_expr e @ rest) [] = disjunction_loop rest (postfix e)"
    if "conj_shape e" "\<forall>q\<in>set (equations e). string_equation q" "length (postfix e) \<le> kMaxQueryTerms"
      "rest = [] \<or> (\<exists>b rest'. rest = op_text kQueryOr @ print_expr b @ rest')" for e rest
    using conjunction_print [OF that(1,2), of "[]" rest] that(3) stop [OF that(4)] by (simp add: disjunction_def)
  show ?thesis
    using assms
  proof (induction e arbitrary: rest)
    case (Eqn e)
    then show ?case by (intro base) auto
  next
    case (Conj a b)
    then show ?case by (intro base) auto
  next
    case (Disj a b)
    have "disjunction (print_expr (Disj a b) @ rest) [] = disjunction_loop (op_text kQueryOr @ print_expr b @ rest) (postfix a)"
      using Disj.IH(1) [of "op_text kQueryOr @ print_expr b @ rest"] Disj.prems by auto
    also have "\<dots> = disjunction_loop rest (postfix (Disj a b))"
      using conjunction_print [of b "postfix a" rest] connective_print(2) [of b rest] Disj.prems stop [OF Disj.prems(4)]
      by (subst disjunction_loop.simps) (simp add: push_term_def)
    finally show ?case .
  qed
qed

text \<open>
  An expression over quoted string equations, written out with the code's own syntax, parses back
  to exactly its terms, provided they fit the sixteen a query may have.
\<close>

lemma query_print_parse:
  assumes "disj_shape e" and "\<forall>q\<in>set (equations e). string_equation q" and "length (postfix e) \<le> kMaxQueryTerms"
  shows "query_parse (print_expr e) = (postfix e, True)"
proof -
  have "disjunction (print_expr e) [] = Some ([], postfix e)"
    using disjunction_print [OF assms, of "[]"] by (simp add: disjunction_loop.simps connective_def skip_space_def)
  moreover have "print_expr e \<noteq> []" by (induction e) (auto simp: quoted_def)
  ultimately show ?thesis by (simp add: query_parse_def skip_space_def)
qed

definition sample_equation :: "string \<Rightarrow> query_op \<Rightarrow> string \<Rightarrow> query_equation" where
  "sample_equation a op v = fresh_equation\<lparr>qe_attribute := map ch a, qe_op := op, qe_value := map ch v\<rparr>"

definition sample_query :: expr where
  "sample_query =
     Disj (Conj (Eqn (sample_equation ''BEOS:TYPE'' kQueryEqual ''text/plain'')) (Eqn (sample_equation ''name'' kQueryLess ''m'')))
       (Eqn (sample_equation ''name'' kQueryUnequal ''a&b''))"

lemma sample_query_ok:
  "disj_shape sample_query" "\<forall>q\<in>set (equations sample_query). string_equation q" "length (postfix sample_query) \<le> kMaxQueryTerms"
proof -
  have "string_equation (sample_equation a op v)"
    if "op \<noteq> kQueryAnd" "op \<noteq> kQueryOr" "a \<noteq> []" "length a \<le> kMaxName" "length v \<le> kMaxQueryValue" for a op v
    unfolding string_equation_def sample_equation_def using that
    by (intro exI [of _ op] exI [of _ "map ch a"] exI [of _ "map ch v"]) simp
  then show "\<forall>q\<in>set (equations sample_query). string_equation q"
    by (simp add: sample_query_def kMaxName_def kMaxQueryValue_def)
  show "disj_shape sample_query" "length (postfix sample_query) \<le> kMaxQueryTerms"
    by (simp_all add: sample_query_def kMaxQueryTerms_def)
qed

lemma query_print_parse_witness: "query_parse (print_expr sample_query) = (postfix sample_query, True)"
  by (rule query_print_parse [OF sample_query_ok])


section \<open>Numbers\<close>

text \<open>The number a string of digits spells.\<close>

definition digits_value :: "u8 list \<Rightarrow> nat" where
  "digits_value cs = foldl (\<lambda>v c. v * 10 + digit_value c) 0 cs"

lemma foldl_digits_mono: "v \<le> foldl (\<lambda>v c. v * 10 + digit_value c) v cs"
proof (induction cs arbitrary: v)
  case Nil
  then show ?case by simp
next
  case (Cons c cs)
  have "v \<le> v * 10 + digit_value c" by simp
  also have "\<dots> \<le> foldl (\<lambda>v c. v * 10 + digit_value c) (v * 10 + digit_value c) cs" by (rule Cons)
  finally show ?case by simp
qed

lemma parse_digits_value:
  "v \<le> 2 ^ 63 - 1 \<Longrightarrow>
   parse_digits v cs =
     (if list_all query_digit cs \<and> foldl (\<lambda>v c. v * 10 + digit_value c) v cs \<le> 2 ^ 63 - 1
      then Some (foldl (\<lambda>v c. v * 10 + digit_value c) v cs) else None)"
proof (induction cs arbitrary: v)
  case Nil
  then show ?case by simp
next
  case (Cons c cs)
  show ?case
  proof (cases "query_digit c")
    case True
    have d: "digit_value c \<le> 9" using True by (auto simp: query_digit_def digit_value_def word_le_nat_alt)
    have "v > (2 ^ 63 - 1 - digit_value c) div 10 \<longleftrightarrow> v * 10 + digit_value c > 2 ^ 63 - 1"
      using d by (simp add: div_less_iff_less_mult) linarith
    then show ?thesis
      using True Cons.IH [of "v * 10 + digit_value c"] foldl_digits_mono [of "v * 10 + digit_value c" cs] by auto
  next
    case False
    then show ?thesis by simp
  qed
qed

text \<open>
  An integer literal is an optional sign and at least one digit, nothing else, and reads as the
  number the digits spell; exactly those whose magnitude is at most the largest 64-bit signed number
  are accepted, so no step of the loop overflows.
\<close>

lemma parse_integer_value:
  "parse_integer s =
     (case read_sign s of (negative, cs) \<Rightarrow>
        if cs \<noteq> [] \<and> list_all query_digit cs \<and> digits_value cs \<le> 2 ^ 63 - 1
        then Some (if negative then - int (digits_value cs) else int (digits_value cs)) else None)"
  using parse_digits_value [of 0] by (auto simp: parse_integer_def digits_value_def split: prod.splits)

lemma bit_length_le: "n < 2 ^ k \<Longrightarrow> bit_length n \<le> k"
proof (induction k arbitrary: n)
  case 0
  then show ?case by (simp add: bit_length.simps)
next
  case (Suc k)
  then have "bit_length (n div 2) \<le> k" by (intro Suc.IH) auto
  then show ?case by (subst bit_length.simps) simp
qed

lemma round_even_small: "n < 2 ^ 53 \<Longrightarrow> round_even n = n"
  using bit_length_le [of n 53] by (simp add: round_even_def)

text \<open>As long as the number stays below \<open>2 ^ 53\<close> nothing is rounded.\<close>

lemma real_digits_exact:
  assumes "list_all query_digit cs" and "foldl (\<lambda>v c. v * 10 + digit_value c) v cs < 2 ^ 53"
  shows "real_digits v digits dot (cs @ rest) =
    real_digits (foldl (\<lambda>v c. v * 10 + digit_value c) v cs) (digits \<or> cs \<noteq> []) dot rest"
  using assms
proof (induction cs arbitrary: v digits)
  case Nil
  then show ?case by simp
next
  case (Cons c cs)
  have "v * 10 + digit_value c < 2 ^ 53"
    using foldl_digits_mono [of "v * 10 + digit_value c" cs] Cons.prems(2) by simp
  then have "round_even (round_even (v * 10) + digit_value c) = v * 10 + digit_value c"
    by (simp add: round_even_small)
  then show ?case using Cons by simp
qed

text \<open>
  A literal with a decimal point reads as the number all its digits spell, those after the point
  included, at whatever place the point stands: \<open>3.14\<close> reads as 314. The digits after the point are
  never scaled down.
\<close>

lemma parse_real_digits:
  assumes "list_all query_digit a" and "list_all query_digit b" and "a @ b \<noteq> []" and "digits_value (a @ b) < 2 ^ 53"
  shows "parse_real (a @ [ch CHR ''.''] @ b) = Some (Finite (of_nat (digits_value (a @ b))))"
proof -
  let ?f = "foldl (\<lambda>v c. v * 10 + digit_value c)"
  have sign: "read_sign (a @ [ch CHR ''.''] @ b) = (False, a @ [ch CHR ''.''] @ b)"
    using assms(1) by (cases a) (auto simp: read_sign_def query_digit_def word_le_nat_alt)
  have dot: "\<not> query_digit (ch CHR ''.'')" by (simp add: query_digit_def word_le_nat_alt)
  have v: "?f 0 (a @ b) < 2 ^ 53" "?f 0 a < 2 ^ 53"
    using assms(4) foldl_digits_mono [of "?f 0 a" b] by (simp_all add: digits_value_def)
  have "real_digits 0 False False (a @ [ch CHR ''.''] @ b) = real_digits (?f 0 a) (a \<noteq> []) True (b @ [])"
    using real_digits_exact [OF assms(1), of 0 False False "[ch CHR ''.''] @ b"] v(2) dot by simp
  also have "\<dots> = real_digits (?f 0 (a @ b)) True True []"
    using real_digits_exact [OF assms(2), of "?f 0 a" "a \<noteq> []" True "[]"] v(1) assms(3) by auto
  finally show ?thesis using sign by (simp add: parse_real_def digits_value_def)
qed

lemma parse_real_digits_witness: "parse_real (map ch ''3.14'') = Some (Finite 314)"
  using parse_real_digits [of "map ch ''3''" "map ch ''14''"]
  by (simp add: query_digit_def digits_value_def digit_value_def word_le_nat_alt)

end
