(* ===== verification/Bfs_Read.thy ===== *)
theory Bfs_Read
  imports Bfs_Stream
begin

text \<open>
  What the reading half of a volume returns. On a device that answers every request, and with a cache
  that agrees with the disk, a block read gives the block as the open transaction sees it; a stream
  read gives the window of the bytes its runs name, in order, whatever mixture of batched and single
  block reads it makes.
\<close>

section \<open>Reads that succeed and change nothing\<close>

text \<open>A block as a reader sees it: the transaction's image, or the disk's.\<close>

definition view :: "journal option \<Rightarrow> volume \<Rightarrow> device \<Rightarrow> nat \<Rightarrow> u8 list" where
  "view jo v d b = (case Option.bind jo (\<lambda>j. peek j b) of Some bytes \<Rightarrow> bytes | None \<Rightarrow> block_content v d b)"

definition cache_ok :: "volume \<Rightarrow> device \<Rightarrow> bool" where
  "cache_ok v d \<longleftrightarrow> (\<forall>line b x. v_cache v line = Some (b, x) \<longrightarrow> b < v_num_blocks v \<longrightarrow> x = block_content v d b)"

text \<open>The journal holds whole blocks, and none while no transaction is open.\<close>

definition journal_ok :: "volume \<Rightarrow> journal option \<Rightarrow> bool" where
  "journal_ok v jo \<longleftrightarrow> (case jo of None \<Rightarrow> True | Some j \<Rightarrow>
     (j_active j \<or> j_entries j = []) \<and> (\<forall>e\<in>set (j_entries j). length (snd e) = vol_block_size v))"

definition settled :: "journal option \<Rightarrow> volume \<times> device \<Rightarrow> bool" where
  "settled jo s \<longleftrightarrow> (case s of (v, d) \<Rightarrow>
     vol_geom v \<and> v_num_blocks v * vol_block_size v < 2 ^ 64 \<and> cache_ok v d \<and> journal_ok v jo \<and> (\<forall>k. dev_outcome d k = Done) \<and>
     (\<forall>k. length (dev_sectors d k) = kSectorBytes))"

text \<open>The same volume and disk, up to the cache and the number of requests made.\<close>

definition same_disk :: "volume \<times> device \<Rightarrow> volume \<times> device \<Rightarrow> bool" where
  "same_disk s s' \<longleftrightarrow> (\<exists>c k. s' = ((fst s)\<lparr>v_cache := c\<rparr>, (snd s)\<lparr>dev_clock := k\<rparr>))"

lemma same_disk_refl [simp]: "same_disk s s"
  unfolding same_disk_def by (rule exI [of _ "v_cache (fst s)"], rule exI [of _ "dev_clock (snd s)"]) simp

lemma same_disk_trans: "same_disk s s' \<Longrightarrow> same_disk s' s'' \<Longrightarrow> same_disk s s''"
  by (auto simp: same_disk_def)

lemma same_disk_geom: "same_disk s s' \<Longrightarrow> same_geom (fst s') (fst s)"
  by (auto simp: same_disk_def same_geom_def)

lemma same_disk_view:
  assumes "same_disk s s'"
  shows "view jo (fst s') (snd s') = view jo (fst s) (snd s)" "v_num_blocks (fst s') = v_num_blocks (fst s)"
    "vol_block_size (fst s') = vol_block_size (fst s)" "to_block (fst s') = to_block (fst s)"
    "run_bytes (fst s') = run_bytes (fst s)" "runs_per_block (fst s') = runs_per_block (fst s)"
    "v_valid (fst s') = v_valid (fst s)"
proof -
  note g = same_disk_geom [OF assms]
  note e = same_geom_eq [OF g]
  have "block_content (fst s') (snd s') = block_content (fst s) (snd s)"
    using assms e(5) by (auto simp: same_disk_def)
  then show "view jo (fst s') (snd s') = view jo (fst s) (snd s)" unfolding view_def by (simp only:)
  show "v_num_blocks (fst s') = v_num_blocks (fst s)" "v_valid (fst s') = v_valid (fst s)"
    using assms by (auto simp: same_disk_def)
  show "vol_block_size (fst s') = vol_block_size (fst s)" "to_block (fst s') = to_block (fst s)"
    using e by auto
  then show "run_bytes (fst s') = run_bytes (fst s)" "runs_per_block (fst s') = runs_per_block (fst s)"
    by (simp_all add: run_bytes_def runs_per_block_def fun_eq_iff)
qed

text \<open>\<open>reads jo s m x\<close>: run from \<open>s\<close>, the operation gives \<open>x\<close> and leaves disk and volume as they were.\<close>

definition reads :: "journal option \<Rightarrow> volume \<times> device \<Rightarrow> 'a rd \<Rightarrow> 'a \<Rightarrow> bool" where
  "reads jo s m x \<longleftrightarrow> (\<exists>s'. m s = (s', Some x) \<and> same_disk s s' \<and> settled jo s')"

lemma reads_return: "settled jo s \<Longrightarrow> reads jo s (rd_return x) x"
  by (auto simp: reads_def rd_return_def)

lemma reads_then:
  assumes "reads jo s m x" and "\<And>s'. same_disk s s' \<Longrightarrow> settled jo s' \<Longrightarrow> reads jo s' (f x) y"
  shows "reads jo s (and_then m f) y"
proof -
  obtain s1 where 1: "m s = (s1, Some x)" "same_disk s s1" "settled jo s1" using assms(1) by (auto simp: reads_def)
  obtain s2 where 2: "f x s1 = (s2, Some y)" "same_disk s1 s2" "settled jo s2"
    using assms(2) [OF 1(2,3)] by (auto simp: reads_def)
  show ?thesis
    unfolding reads_def and_then_def using 1(1) 2(1,3) same_disk_trans [OF 1(2) 2(2)] by simp
qed

lemma reads_cong: "m s = m' s \<Longrightarrow> reads jo s m x = reads jo s m' x"
  by (simp add: reads_def)

lemma cache_fill:
  assumes "cache_ok v d" and "block < v_num_blocks v"
  shows "cache_ok (v\<lparr>v_cache := (v_cache v)(line \<mapsto> (block, block_content v d block))\<rparr>) (d\<lparr>dev_clock := k\<rparr>)"
proof -
  have "block_content (v\<lparr>v_cache := c\<rparr>) = block_content v" for c
    by (rule same_geom_eq(5)) (simp add: same_geom_def)
  then show ?thesis using assms by (auto simp: cache_ok_def)
qed

lemma settled_after:
  assumes "settled jo (v, d)" and "cache_ok (v\<lparr>v_cache := c\<rparr>) (d\<lparr>dev_clock := k\<rparr>)"
  shows "settled jo (v\<lparr>v_cache := c\<rparr>, d\<lparr>dev_clock := k\<rparr>)"
proof -
  have "same_geom (v\<lparr>v_cache := c\<rparr>) v" by (simp add: same_geom_def)
  from same_geom_eq [OF this] show ?thesis
    using assms by (simp add: settled_def journal_ok_def split: option.splits)
qed

lemma reads_block:
  assumes "settled jo (v, d)" and "block < v_num_blocks v"
  shows "reads jo (v, d) (rd_block jo block) (view jo v d block)"
proof (cases "Option.bind jo (\<lambda>j. peek j block)")
  case (Some bytes)
  then have "rd_block jo block (v, d) = ((v, d), Some (view jo v d block))"
    by (simp add: rd_block_def read_block_def view_def)
  then show ?thesis using assms(1) by (auto simp: reads_def)
next
  case None
  let ?line = "block mod kCacheLines" and ?c = "block_content v d block"
  have st: "vol_geom v" "cache_ok v d" "\<forall>k. dev_outcome d k = Done" using assms(1) by (auto simp: settled_def)
  note now = read_block_now_content [OF st(1) assms(2) st(3)]
  have v: "view jo v d block = ?c" using None by (simp add: view_def)
  show ?thesis
  proof (cases "\<exists>x. v_cache v ?line = Some (block, x)")
    case True
    then have "rd_block jo block (v, d) = ((v, d), Some ?c)"
      using None st(2) assms(2) by (auto simp: rd_block_def read_block_def cache_ok_def Let_def)
    then show ?thesis using assms(1) v by (auto simp: reads_def)
  next
    case False
    let ?v = "v\<lparr>v_cache := (v_cache v)(?line \<mapsto> (block, ?c))\<rparr>" and ?d = "d\<lparr>dev_clock := Suc (dev_clock d)\<rparr>"
    have "rd_block jo block (v, d) = ((?v, ?d), Some ?c)"
      using None False now by (auto simp: rd_block_def read_block_def Let_def split: option.splits)
    moreover have "settled jo (?v, ?d)" by (rule settled_after [OF assms(1) cache_fill [OF st(2) assms(2)]])
    moreover have "same_disk (v, d) (?v, ?d)" unfolding same_disk_def by auto
    ultimately show ?thesis using v by (auto simp: reads_def)
  qed
qed

section \<open>The volume as a string of bytes\<close>

definition vbyte :: "journal option \<Rightarrow> volume \<times> device \<Rightarrow> nat \<Rightarrow> u8" where
  "vbyte jo s byte = view jo (fst s) (snd s) (byte div vol_block_size (fst s)) ! (byte mod vol_block_size (fst s))"

definition vslice :: "journal option \<Rightarrow> volume \<times> device \<Rightarrow> nat \<Rightarrow> nat \<Rightarrow> u8 list" where
  "vslice jo s byte n = map (vbyte jo s) [byte..<byte + n]"

lemma vslice_same: "same_disk s s' \<Longrightarrow> vslice jo s' = vslice jo s"
  using same_disk_view(1,3) [of s s'] by (simp add: vslice_def vbyte_def fun_eq_iff)

lemma length_vslice [simp]: "length (vslice jo s byte n) = n"
  by (simp add: vslice_def)

lemma vslice_append: "vslice jo s byte (m + n) = vslice jo s byte m @ vslice jo s (byte + m) n"
  using upt_add_eq_append [of byte "byte + m" n] by (simp add: vslice_def add.assoc)

lemma vslice_bslice: "skip + n \<le> m \<Longrightarrow> bslice skip n (vslice jo s byte m) = vslice jo s (byte + skip) n"
  by (simp add: vslice_def bslice_def take_map drop_map add.assoc)

lemma length_concat_same: "(\<And>x. x \<in> set xs \<Longrightarrow> length (f x) = k) \<Longrightarrow> length (concat (map f xs)) = length xs * k"
  by (induction xs) auto

lemma length_view:
  assumes "settled jo (v, d)"
  shows "length (view jo v d b) = vol_block_size v"
proof -
  have "length (block_content v d b) = block_sectors v * kSectorBytes"
    unfolding block_content_def get_sectors_def
    using assms length_concat_same [of "[b * block_sectors v..<b * block_sectors v + block_sectors v]" "dev_sectors d" kSectorBytes]
    by (simp add: settled_def)
  then have "length (block_content v d b) = vol_block_size v"
    using vol_block_size_sectors [of v] assms by (simp add: settled_def)
  moreover have "length bytes = vol_block_size v" if b: "Option.bind jo (\<lambda>j. peek j b) = Some bytes" for bytes
  proof -
    obtain j where "jo = Some j" "map_of (j_entries j) b = Some bytes"
      using b by (cases jo) (auto simp: peek_def)
    then show ?thesis using assms by (fastforce simp: settled_def journal_ok_def dest: map_of_SomeD)
  qed
  ultimately show ?thesis by (auto simp: view_def split: option.splits)
qed

lemma view_slice:
  assumes "settled jo (v, d)" and "within + n \<le> vol_block_size v"
  shows "bslice within n (view jo v d b) = vslice jo (v, d) (b * vol_block_size v + within) n"
proof (rule nth_equalityI)
  show "length (bslice within n (view jo v d b)) = length (vslice jo (v, d) (b * vol_block_size v + within) n)"
    using assms length_view [OF assms(1)] by simp
  fix i assume "i < length (bslice within n (view jo v d b))"
  then have i: "i < n" using assms length_view [OF assms(1)] by simp
  have "(b * vol_block_size v + (within + i)) div vol_block_size v = b"
    "(b * vol_block_size v + (within + i)) mod vol_block_size v = within + i"
    using i assms(2) by auto
  then show "bslice within n (view jo v d b) ! i = vslice jo (v, d) (b * vol_block_size v + within) n ! i"
    using i assms length_view [OF assms(1), of b]
    by (simp add: nth_bslice vslice_def vbyte_def add.assoc)
qed

lemma view_whole:
  assumes "settled jo (v, d)"
  shows "view jo v d b = vslice jo (v, d) (b * vol_block_size v) (vol_block_size v)"
  using view_slice [OF assms, of 0 "vol_block_size v" b] length_view [OF assms, of b] by (simp add: bslice_def)

text \<open>A batch of blocks read in one request is those blocks.\<close>

lemma sectors_slice:
  assumes "settled jo (v, d)" and "\<not> journal_active jo"
  shows "get_sectors (dev_sectors d) (b * block_sectors v) (n * block_sectors v) =
    vslice jo (v, d) (b * vol_block_size v) (n * vol_block_size v)"
proof (induction n)
  case 0
  then show ?case by (simp add: get_sectors_def vslice_def)
next
  case (Suc n)
  have "Option.bind jo (\<lambda>j. peek j (b + n)) = None"
    using assms by (cases jo) (auto simp: settled_def journal_ok_def journal_active_def peek_def)
  then have v: "view jo v d (b + n) = block_content v d (b + n)" by (simp add: view_def)
  have "get_sectors (dev_sectors d) (b * block_sectors v) (Suc n * block_sectors v) =
      get_sectors (dev_sectors d) (b * block_sectors v) (n * block_sectors v) @ block_content v d (b + n)"
  proof -
    let ?k = "block_sectors v"
    have "[b * ?k..<b * ?k + Suc n * ?k] = [b * ?k..<b * ?k + n * ?k] @ [(b + n) * ?k..<(b + n) * ?k + ?k]"
      using upt_add_eq_append [of "b * ?k" "b * ?k + n * ?k" ?k] by (simp add: algebra_simps)
    then show ?thesis unfolding block_content_def get_sectors_def by simp
  qed
  then show ?case
    using Suc v view_whole [OF assms(1), of "b + n"]
      vslice_append [of jo "(v, d)" "b * vol_block_size v" "n * vol_block_size v" "vol_block_size v"]
    by (simp add: algebra_simps)
qed

lemma reads_sectors:
  assumes "settled jo (v, d)"
  shows "reads jo (v, d) (rd_sectors sector n) (get_sectors (dev_sectors d) sector n)"
proof -
  let ?d = "d\<lparr>dev_clock := Suc (dev_clock d)\<rparr>"
  have "rd_sectors sector n (v, d) = ((v, ?d), Some (get_sectors (dev_sectors d) sector n))"
    using assms by (simp add: rd_sectors_def dev_read_def settled_def)
  moreover have "same_disk (v, d) (v, ?d)"
    unfolding same_disk_def by (rule exI [of _ "v_cache v"], rule exI [of _ "Suc (dev_clock d)"]) simp
  moreover have "settled jo (v, ?d)"
    using settled_after [OF assms, of "v_cache v" "Suc (dev_clock d)"] assms by (simp add: settled_def cache_ok_def)
  ultimately show ?thesis by (auto simp: reads_def)
qed

text \<open>The two ways the loop of \<^verbatim>\<open>read_part\<close> goes on, and what each contributes.\<close>

lemma read_bytes_batch:
  fixes v :: volume
  defines "bs \<equiv> vol_block_size v"
  assumes "(left = 0) = False"
    and "(byte mod bs = 0 \<and> min (bs - byte mod bs) left = bs \<and> max_blocks v > 1 \<and> \<not> journal_active jo) = True"
  shows "read_bytes jo byte left (v, d) =
    (let n = min (left div bs) (max_blocks v)
     in and_then (rd_sectors (byte div kSectorBytes) (n * block_sectors v))
      (\<lambda>got. and_then (read_bytes jo (wrap64 (byte + n * bs)) (left - n * bs)) (\<lambda>rest. rd_return (got @ rest))) (v, d))"
  by (subst read_bytes.simps) (simp only: Let_def fst_conv assms(2,3) [unfolded bs_def] bs_def if_True if_False)

lemma read_bytes_single:
  fixes v :: volume
  defines "bs \<equiv> vol_block_size v"
  assumes "(left = 0) = False"
    and "(byte mod bs = 0 \<and> min (bs - byte mod bs) left = bs \<and> max_blocks v > 1 \<and> \<not> journal_active jo) = False"
  shows "read_bytes jo byte left (v, d) =
    (let chunk = min (bs - byte mod bs) left
     in and_then (rd_block jo (byte div bs))
      (\<lambda>b. and_then (read_bytes jo (wrap64 (byte + chunk)) (left - chunk))
        (\<lambda>rest. rd_return (bslice (byte mod bs) chunk b @ rest))) (v, d))"
  by (subst read_bytes.simps) (simp only: Let_def fst_conv assms(2,3) [unfolded bs_def] bs_def if_True if_False)

lemma batch_slice:
  assumes "settled jo (v, d)" and "\<not> journal_active jo" and "byte mod vol_block_size v = 0"
  shows "reads jo (v, d) (rd_sectors (byte div kSectorBytes) (n * block_sectors v))
    (vslice jo (v, d) byte (n * vol_block_size v))"
proof -
  let ?bs = "vol_block_size v" and ?b = "byte div vol_block_size v"
  have byte: "byte = ?b * ?bs" using assms(3) by (simp add: mod_eq_0_iff_dvd)
  have "?bs = block_sectors v * kSectorBytes" using vol_block_size_sectors assms(1) by (simp add: settled_def)
  then have "byte div kSectorBytes = ?b * block_sectors v"
    by (subst byte) (simp add: kSectorBytes_def flip: mult.assoc)
  then show ?thesis
    using reads_sectors [OF assms(1), of "byte div kSectorBytes" "n * block_sectors v"]
      sectors_slice [OF assms(1,2), of ?b n] byte by simp
qed

lemma reads_bytes:
  assumes "settled jo s" and "byte + left \<le> v_num_blocks (fst s) * vol_block_size (fst s)"
  shows "reads jo s (read_bytes jo byte left) (vslice jo s byte left)"
  using assms
proof (induction left arbitrary: byte s rule: less_induct)
  case (less left)
  obtain v d where s: "s = (v, d)" by fastforce
  let ?bs = "vol_block_size v" and ?within = "byte mod vol_block_size v" and ?b = "byte div vol_block_size v"
  let ?chunk = "min (?bs - ?within) left" and ?n = "min (left div ?bs) (max_blocks v)"
  have st: "settled jo (v, d)" "v_num_blocks v * ?bs < 2 ^ 64" using less.prems(1) s by (auto simp: settled_def)
  have bs: "0 < ?bs" by (simp add: vol_block_size_def)
  have rest: "reads jo s' (read_bytes jo (wrap64 (byte + n)) (left - n)) (vslice jo s (byte + n) (left - n))"
    if "same_disk s s'" "settled jo s'" "0 < n" "n \<le> left" for s' n
  proof -
    have "wrap64 (byte + n) = byte + n" using less.prems(2) that(4) st(2) s by (simp add: wrap64_def)
    moreover have "reads jo s' (read_bytes jo (byte + n) (left - n)) (vslice jo s' (byte + n) (left - n))"
      using less.IH [of "left - n" s' "byte + n"] that less.prems(2) same_disk_view(2,3) [OF that(1)] s by simp
    ultimately show ?thesis using vslice_same [OF that(1)] by simp
  qed
  show ?case
  proof (cases "left = 0")
    case True
    have "read_bytes jo byte left s = rd_return [] s" using True by (subst read_bytes.simps) simp
    then show ?thesis using reads_return [OF less.prems(1), of "[]"] True by (simp add: reads_def vslice_def)
  next
    case left: False
    show ?thesis
    proof (cases "?within = 0 \<and> ?chunk = ?bs \<and> max_blocks v > 1 \<and> \<not> journal_active jo")
      case True
      have "?bs \<le> left" using True by linarith
      then have n: "0 < ?n * ?bs" "?n * ?bs \<le> left"
        using True bs by (auto simp: div_greater_zero_iff intro: order_trans [OF mult_le_mono1 div_times_less_eq_dividend])
      note got = batch_slice [OF st(1), of byte ?n, folded s]
      let ?m = "and_then (rd_sectors (byte div kSectorBytes) (?n * block_sectors v))
        (\<lambda>got. and_then (read_bytes jo (wrap64 (byte + ?n * ?bs)) (left - ?n * ?bs)) (\<lambda>rest. rd_return (got @ rest)))"
      have "reads jo s ?m (vslice jo s byte (?n * ?bs) @ vslice jo s (byte + ?n * ?bs) (left - ?n * ?bs))"
        using True n by (intro reads_then [OF got] reads_then [OF rest] reads_return) auto
      moreover have "read_bytes jo byte left s = ?m s"
        unfolding s by (rule read_bytes_batch [unfolded Let_def]) (use left True in blast)+
      ultimately show ?thesis
        using vslice_append [of jo s byte "?n * ?bs" "left - ?n * ?bs"] n(2) by (simp add: reads_def)
    next
      case False
      have c: "0 < ?chunk" "?chunk \<le> left" "?within + ?chunk \<le> ?bs"
        using left mod_less_divisor [OF bs, of byte] by linarith+
      have "byte < v_num_blocks v * ?bs" using less.prems(2) left s by simp
      then have b: "?b < v_num_blocks v" by (simp add: less_mult_imp_div_less)
      note got = reads_block [OF st(1) b, folded s]
      let ?m = "and_then (rd_block jo ?b)
        (\<lambda>b. and_then (read_bytes jo (wrap64 (byte + ?chunk)) (left - ?chunk)) (\<lambda>rest. rd_return (bslice ?within ?chunk b @ rest)))"
      have "reads jo s ?m (bslice ?within ?chunk (view jo v d ?b) @ vslice jo s (byte + ?chunk) (left - ?chunk))"
        using c by (intro reads_then [OF got] reads_then [OF rest] reads_return) auto
      moreover have "read_bytes jo byte left s = ?m s"
        unfolding s by (rule read_bytes_single [unfolded Let_def]) (use left False in blast)+
      moreover have "bslice ?within ?chunk (view jo v d ?b) = vslice jo s byte ?chunk"
        using view_slice [OF st(1) c(3), of ?b] s by simp
      ultimately show ?thesis
        using vslice_append [of jo s byte ?chunk "left - ?chunk"] c(2) by (simp add: reads_def)
    qed
  qed
qed

section \<open>Windows of a stream\<close>

text \<open>\<open>len\<close> bytes of \<open>c\<close> from \<open>offset\<close> on, with zeros past its end.\<close>

definition window :: "nat \<Rightarrow> nat \<Rightarrow> u8 list \<Rightarrow> u8 list" where
  "window offset len c = map (\<lambda>i. if offset + i < length c then c ! (offset + i) else 0) [0..<len]"

lemma length_window [simp]: "length (window offset len c) = len"
  by (simp add: window_def)

lemma window_nth: "i < len \<Longrightarrow> window offset len c ! i = (if offset + i < length c then c ! (offset + i) else 0)"
  by (simp add: window_def)

lemma window_Nil: "window offset len [] = replicate len 0"
  by (simp add: window_def map_replicate_const)

lemma window_outside:
  assumes "max offset (length c) \<ge> min (offset + len) (length c + length x)"
  shows "window offset len (c @ x) = window offset len c"
  using assms by (intro nth_equalityI) (auto simp: window_nth nth_append)

lemma window_inside:
  fixes offset len :: nat and c x :: "u8 list"
  defines "lo \<equiv> max offset (length c)" and "hi \<equiv> min (offset + len) (length c + length x)"
  assumes "lo < hi"
  shows "bsplice (lo - offset) (bslice (lo - length c) (hi - lo) x) (window offset len c) = window offset len (c @ x)"
    (is "bsplice ?at ?p ?w = _")
proof -
  have p: "length ?p = hi - lo" "?at + (hi - lo) \<le> len" "lo - length c + (hi - lo) \<le> length x"
    using assms(3) by (auto simp: lo_def hi_def)
  show ?thesis
  proof (rule nth_equalityI)
    show "length (bsplice ?at ?p ?w) = length (window offset len (c @ x))" using p by simp
    fix i assume "i < length (bsplice ?at ?p ?w)"
    then have i: "i < len" using p by simp
    show "bsplice ?at ?p ?w ! i = window offset len (c @ x) ! i"
    proof (cases "?at \<le> i \<and> i < ?at + (hi - lo)")
      case True
      have "lo - length c + (i - ?at) = offset + i - length c" "length c \<le> offset + i" "offset + i < length c + length x"
        using True assms(3) unfolding lo_def hi_def by linarith+
      moreover have "?p ! (i - ?at) = x ! (lo - length c + (i - ?at))"
        by (rule nth_bslice [OF p(3)]) (use True in linarith)
      ultimately show ?thesis
        using True p i by (simp add: nth_bsplice window_nth nth_append)
    next
      case False
      have "offset + i < length c \<or> length c + length x \<le> offset + i"
        using False i assms(3) unfolding lo_def hi_def by linarith
      then show ?thesis using False p i by (auto simp: nth_bsplice window_nth nth_append)
    qed
  qed
qed

section \<open>Reading a stream\<close>

definition run_content :: "journal option \<Rightarrow> volume \<times> device \<Rightarrow> run \<Rightarrow> u8 list" where
  "run_content jo s r = vslice jo s (to_block (fst s) r * vol_block_size (fst s)) (run_bytes (fst s) r)"

definition run_ok :: "volume \<Rightarrow> run \<Rightarrow> bool" where
  "run_ok v r \<longleftrightarrow> to_block v r + unat (run_len r) \<le> v_num_blocks v"

lemma run_content_same: "same_disk s s' \<Longrightarrow> run_content jo s' = run_content jo s"
  using vslice_same [of s s' jo] same_disk_view(3,4,5) [of s s'] by (simp add: run_content_def fun_eq_iff)

lemma run_ok_same: "same_disk s s' \<Longrightarrow> run_ok (fst s') = run_ok (fst s)"
  using same_disk_view(2,4) [of s s'] by (simp add: run_ok_def fun_eq_iff)

lemma length_run_content [simp]: "length (run_content jo s r) = run_bytes (fst s) r"
  by (simp add: run_content_def)

lemma reads_part:
  assumes "settled jo s" and "run_ok (fst s) r" and "skip + n \<le> run_bytes (fst s) r"
  shows "reads jo s (read_part jo r skip n) (bslice skip n (run_content jo s r))"
proof -
  let ?v = "fst s" and ?b = "to_block (fst s) r * vol_block_size (fst s)"
  have N: "v_num_blocks ?v * vol_block_size ?v < 2 ^ 64" using assms(1) by (auto simp: settled_def split: prod.splits)
  have "?b + run_bytes ?v r = (to_block ?v r + unat (run_len r)) * vol_block_size ?v"
    by (simp add: run_bytes_def algebra_simps)
  also have "\<dots> \<le> v_num_blocks ?v * vol_block_size ?v" using assms(2) by (intro mult_le_mono1) (simp add: run_ok_def)
  finally have le: "?b + skip + n \<le> v_num_blocks ?v * vol_block_size ?v" using assms(3) by simp
  then have "wrap64 (?b + skip) = ?b + skip" using N by (simp add: wrap64_def)
  then show ?thesis
    using reads_bytes [OF assms(1) le] vslice_bslice [OF assms(3), of jo s ?b]
    by (simp add: reads_def read_part_def run_content_def Let_def)
qed

lemma reads_handle:
  assumes "settled jo s" and "run_ok (fst s) r" and "length c + run_bytes (fst s) r < 2 ^ 64"
    and "offset + len < 2 ^ 64" and "len < 2 ^ 32"
  shows "reads jo s (read_handle jo offset len r (length c) (window offset len c))
    (window offset len (c @ run_content jo s r))"
proof -
  let ?x = "run_content jo s r"
  define lo hi where "lo = max offset (length c)" and "hi = min (offset + len) (length c + length ?x)"
  have ov: "run_overlap (fst s) r (length c) offset len = (lo, hi)"
    using assms(3,4) by (auto simp: run_overlap_def Let_def wrap64_def lo_def hi_def)
  show ?thesis
  proof (cases "lo \<ge> hi")
    case True
    then show ?thesis
      using window_outside [where offset = offset and len = len and c = c and x = ?x] reads_return [OF assms(1), of "window offset len c"] ov
      by (simp add: reads_def read_handle_def lo_def hi_def)
  next
    case False
    have "hi - lo < 2 ^ 32" "lo - length c + (hi - lo) \<le> run_bytes (fst s) r"
      using False assms(5) by (auto simp: lo_def hi_def)
    then have part: "reads jo s (read_part jo r (lo - length c) (wrap32 (hi - lo))) (bslice (lo - length c) (hi - lo) ?x)"
      using reads_part [OF assms(1,2), of "lo - length c" "hi - lo"] by (simp add: wrap32_def)
    have "reads jo s (and_then (read_part jo r (lo - length c) (wrap32 (hi - lo)))
        (\<lambda>got. rd_return (bsplice (lo - offset) got (window offset len c))))
        (bsplice (lo - offset) (bslice (lo - length c) (hi - lo) ?x) (window offset len c))"
      by (intro reads_then [OF part] reads_return)
    moreover have "bsplice (lo - offset) (bslice (lo - length c) (hi - lo) ?x) (window offset len c) = window offset len (c @ ?x)"
      unfolding lo_def hi_def by (rule window_inside) (use False in \<open>simp only: lo_def hi_def not_le\<close>)
    ultimately show ?thesis using False ov by (simp add: reads_def read_handle_def)
  qed
qed

definition contents :: "journal option \<Rightarrow> volume \<times> device \<Rightarrow> run list \<Rightarrow> u8 list" where
  "contents jo s rs = concat (map (run_content jo s) rs)"

lemma contents_same: "same_disk s s' \<Longrightarrow> contents jo s' = contents jo s"
  using run_content_same [of s s' jo] unfolding contents_def by (simp only:)

lemma contents_append: "contents jo s (xs @ ys) = contents jo s xs @ contents jo s ys"
  by (simp add: contents_def)

text \<open>
  The common shape of the loops: from the position and the window of the stream so far, \<open>c\<close>, to those
  of the stream with the runs \<open>rs\<close> after it.
\<close>

definition extends ::
  "journal option \<Rightarrow> volume \<times> device \<Rightarrow> nat \<Rightarrow> nat \<Rightarrow> (nat \<Rightarrow> u8 list \<Rightarrow> (nat \<times> u8 list) rd) \<Rightarrow> run list \<Rightarrow> bool" where
  "extends jo s offset len m rs \<longleftrightarrow> (\<forall>c s'. same_disk s s' \<longrightarrow> settled jo s' \<longrightarrow>
     length c + length (contents jo s rs) < 2 ^ 64 \<longrightarrow>
     reads jo s' (m (length c) (window offset len c))
       (length (c @ contents jo s rs), window offset len (c @ contents jo s rs)))"

lemma extendsD:
  "extends jo s offset len m rs \<Longrightarrow> same_disk s s' \<Longrightarrow> settled jo s' \<Longrightarrow>
   length c + length (contents jo s rs) < 2 ^ 64 \<Longrightarrow>
   reads jo s' (m (length c) (window offset len c))
     (length (c @ contents jo s rs), window offset len (c @ contents jo s rs))"
  unfolding extends_def by blast

lemma extends_cong:
  assumes "extends jo s offset len m rs" and "\<And>s' pos out. same_disk s s' \<Longrightarrow> m' pos out s' = m pos out s'"
  shows "extends jo s offset len m' rs"
  using assms unfolding extends_def reads_def by simp

lemma extends_Nil: "extends jo s offset len (\<lambda>pos out. rd_return (pos, out)) []"
  by (simp add: extends_def contents_def reads_return)

lemma extends_append:
  assumes "extends jo s offset len m xs" and "extends jo s offset len m' ys"
  shows "extends jo s offset len (\<lambda>pos out. and_then (m pos out) (\<lambda>(pos', out'). m' pos' out')) (xs @ ys)"
  unfolding extends_def
proof (intro allI impI)
  fix c :: "u8 list" and s' assume s: "same_disk s s'" "settled jo s'" "length c + length (contents jo s (xs @ ys)) < 2 ^ 64"
  let ?c = "c @ contents jo s xs"
  have first: "reads jo s' (m (length c) (window offset len c)) (length ?c, window offset len ?c)"
    by (rule extendsD [OF assms(1) s(1,2)]) (use s(3) in \<open>simp add: contents_append\<close>)
  have step: "reads jo s'' (m' (length ?c) (window offset len ?c))
      (length (?c @ contents jo s ys), window offset len (?c @ contents jo s ys))"
    if "same_disk s' s''" "settled jo s''" for s''
    by (rule extendsD [OF assms(2) same_disk_trans [OF s(1) that(1)] that(2)])
      (use s(3) in \<open>simp add: contents_append add.assoc\<close>)
  show "reads jo s' (and_then (m (length c) (window offset len c)) (\<lambda>(pos', out'). m' pos' out'))
      (length (c @ contents jo s (xs @ ys)), window offset len (c @ contents jo s (xs @ ys)))"
    unfolding contents_append append_assoc [symmetric]
    by (rule reads_then [OF first]) (simp only: prod.case step)
qed

lemma extends_runs:
  assumes "offset + len < 2 ^ 64" and "len < 2 ^ 32" and "\<forall>r\<in>set rs. run_ok (fst s) r"
  shows "extends jo s offset len (read_runs jo offset len rs) rs"
  using assms(3)
proof (induction rs)
  case Nil
  show ?case
    unfolding extends_def by (auto simp: contents_def reads_def rd_return_def)
next
  case (Cons r rs)
  show ?case
    unfolding extends_def
  proof (intro allI impI)
    fix c :: "u8 list" and s' assume s: "same_disk s s'" "settled jo s'" "length c + length (contents jo s (r # rs)) < 2 ^ 64"
    let ?c = "c @ run_content jo s r"
    have eq: "run_content jo s' r = run_content jo s r" "run_bytes (fst s') r = run_bytes (fst s) r" "run_ok (fst s') r"
      using run_content_same [OF s(1)] same_disk_view(5) [OF s(1)] run_ok_same [OF s(1)] Cons.prems by auto
    have len: "length c + run_bytes (fst s) r < 2 ^ 64" using s(3) by (simp add: contents_def)
    have first: "reads jo s' (read_handle jo offset len r (length c) (window offset len c)) (window offset len ?c)"
      using reads_handle [OF s(2) eq(3) _ assms(1,2), of c] eq len by simp
    have wrap: "wrap64 (length c + run_bytes (fst s') r) = length ?c" using len eq by (simp add: wrap64_def)
    have step: "reads jo s'' (read_runs jo offset len rs (length ?c) (window offset len ?c))
        (length (?c @ contents jo s rs), window offset len (?c @ contents jo s rs))"
      if "same_disk s' s''" "settled jo s''" for s''
      by (rule extendsD [OF _ same_disk_trans [OF s(1) that(1)] that(2)])
        (use Cons s(3) in \<open>auto simp: contents_def add.assoc\<close>)
    have "reads jo s' (and_then (read_handle jo offset len r (length c) (window offset len c))
        (\<lambda>out'. read_runs jo offset len rs (length ?c) out'))
        (length (?c @ contents jo s rs), window offset len (?c @ contents jo s rs))"
      by (rule reads_then [OF first]) (rule step)
    then show "reads jo s' (read_runs jo offset len (r # rs) (length c) (window offset len c))
        (length (c @ contents jo s (r # rs)), window offset len (c @ contents jo s (r # rs)))"
      by (simp add: reads_def wrap contents_def)
  qed
qed

section \<open>The runs of a stream\<close>

text \<open>The runs named by the blocks of an array, by the arrays of a list of runs, and by a whole stream.\<close>

definition block_runs :: "journal option \<Rightarrow> volume \<times> device \<Rightarrow> nat \<Rightarrow> run list" where
  "block_runs jo s b = runs_in (view jo (fst s) (snd s) b) 0 (runs_per_block (fst s))"

definition array_runs :: "journal option \<Rightarrow> volume \<times> device \<Rightarrow> nat \<Rightarrow> nat \<Rightarrow> run list" where
  "array_runs jo s at n = concat (map (block_runs jo s) [at..<at + n])"

definition arrays_runs :: "journal option \<Rightarrow> volume \<times> device \<Rightarrow> run list \<Rightarrow> run list" where
  "arrays_runs jo s as = concat (map (\<lambda>a. array_runs jo s (to_block (fst s) a) (unat (run_len a))) as)"

definition double_runs :: "journal option \<Rightarrow> volume \<times> device \<Rightarrow> nat \<Rightarrow> nat \<Rightarrow> run list" where
  "double_runs jo s at n = concat (map (\<lambda>b. arrays_runs jo s (block_runs jo s b)) [at..<at + n])"

definition stream_runs :: "journal option \<Rightarrow> volume \<times> device \<Rightarrow> u8 list \<Rightarrow> run list" where
  "stream_runs jo s stream =
     (let v = fst s; indirect = le_run stream ds_kIndirect; double = le_run stream ds_kDoubleIndirect
      in runs_in stream ds_kDirect ds_kDirectCount @ array_runs jo s (to_block v indirect) (unat (run_len indirect)) @
         double_runs jo s (to_block v double) (unat (run_len double)))"

text \<open>Every block the stream leads to lies in the volume, and its length is a 64-bit number.\<close>

definition stream_ok :: "journal option \<Rightarrow> volume \<times> device \<Rightarrow> u8 list \<Rightarrow> bool" where
  "stream_ok jo s stream \<longleftrightarrow>
     (let v = fst s; indirect = le_run stream ds_kIndirect; double = le_run stream ds_kDoubleIndirect
      in run_ok v indirect \<and> run_ok v double \<and>
         (\<forall>b\<in>{to_block v double..<to_block v double + unat (run_len double)}. \<forall>a\<in>set (block_runs jo s b). run_ok v a) \<and>
         (\<forall>r\<in>set (stream_runs jo s stream). run_ok v r) \<and>
         length (contents jo s (stream_runs jo s stream)) < 2 ^ 64)"

lemma block_runs_same: "same_disk s s' \<Longrightarrow> block_runs jo s' = block_runs jo s"
  using same_disk_view(1,6) [of s s'] by (simp add: block_runs_def fun_eq_iff)

lemma array_runs_Suc: "array_runs jo s at (Suc n) = block_runs jo s at @ array_runs jo s (at + 1) n"
  and double_runs_Suc: "double_runs jo s at (Suc n) = arrays_runs jo s (block_runs jo s at) @ double_runs jo s (at + 1) n"
  by (simp_all add: array_runs_def double_runs_def upt_conv_Cons del: upt_Suc)

text \<open>Reading a block of an array and going on with the runs in it.\<close>

lemma extends_block:
  assumes "b < v_num_blocks (fst s)" and "settled jo s"
    and "extends jo s offset len (m (view jo (fst s) (snd s) b)) rs"
  shows "extends jo s offset len (\<lambda>pos out. and_then (rd_block jo (wrap64 b)) (\<lambda>arr. m arr pos out)) rs"
  unfolding extends_def
proof (intro allI impI)
  fix c :: "u8 list" and s' assume s: "same_disk s s'" "settled jo s'" "length c + length (contents jo s rs) < 2 ^ 64"
  obtain v' d' where s': "s' = (v', d')" by fastforce
  have b: "b < v_num_blocks v'" "vol_geom v'" using assms(1) same_disk_view(2) [OF s(1)] s(2) s' by (auto simp: settled_def)
  then have "b < 2 ^ 64" by (intro block_fields(5))
  then have w: "wrap64 b = b" by (simp add: wrap64_def)
  have "view jo v' d' b = view jo (fst s) (snd s) b" using same_disk_view(1) [OF s(1)] s' by simp
  then have got: "reads jo s' (rd_block jo b) (view jo (fst s) (snd s) b)"
    using reads_block [of jo v' d' b] s(2) s' b(1) by simp
  show "reads jo s' (and_then (rd_block jo (wrap64 b)) (\<lambda>arr. m arr (length c) (window offset len c)))
      (length (c @ contents jo s rs), window offset len (c @ contents jo s rs))"
    unfolding w by (rule reads_then [OF got], rule extendsD [OF assms(3) same_disk_trans [OF s(1)]]) (use s(3) in auto)
qed

lemma extends_arrays:
  assumes "settled jo s" and "offset + len < 2 ^ 64" and "len < 2 ^ 32" and "at + n \<le> v_num_blocks (fst s)"
    and "\<forall>r\<in>set (array_runs jo s at n). run_ok (fst s) r"
  shows "extends jo s offset len (read_arrays jo offset len at n) (array_runs jo s at n)"
  using assms(4,5)
proof (induction n arbitrary: at)
  case 0
  show ?case unfolding extends_def by (auto simp: array_runs_def contents_def reads_def rd_return_def)
next
  case (Suc n)
  have b: "at < v_num_blocks (fst s)" using Suc.prems(1) by simp
  let ?m = "\<lambda>arr pos out. and_then (read_runs jo offset len (runs_in arr 0 (runs_per_block (fst s))) pos out)
      (\<lambda>(pos', out'). read_arrays jo offset len (at + 1) n pos' out')"
  have "extends jo s offset len (?m (view jo (fst s) (snd s) at)) (array_runs jo s at (Suc n))"
    unfolding array_runs_Suc
    by (rule extends_append, unfold block_runs_def, rule extends_runs [OF assms(2,3)])
      (use Suc in \<open>auto simp: array_runs_Suc block_runs_def\<close>)
  from extends_block [OF b assms(1), of offset len ?m, OF this]
  show ?case by (rule extends_cong) (simp add: same_disk_view(6))
qed

lemma extends_array_runs:
  assumes "settled jo s" and "offset + len < 2 ^ 64" and "len < 2 ^ 32" and "\<forall>a\<in>set as. run_ok (fst s) a"
    and "\<forall>r\<in>set (arrays_runs jo s as). run_ok (fst s) r"
  shows "extends jo s offset len (read_array_runs jo offset len as) (arrays_runs jo s as)"
  using assms(4,5)
proof (induction as)
  case Nil
  show ?case unfolding extends_def by (auto simp: arrays_runs_def contents_def reads_def rd_return_def)
next
  case (Cons a as)
  let ?n = "unat (run_len a)" and ?at = "to_block (fst s) a"
  have "extends jo s offset len (\<lambda>pos out. and_then (read_arrays jo offset len ?at ?n pos out)
      (\<lambda>(pos', out'). read_array_runs jo offset len as pos' out')) (array_runs jo s ?at ?n @ arrays_runs jo s as)"
    by (rule extends_append, rule extends_arrays [OF assms(1-3)])
      (use Cons in \<open>auto simp: arrays_runs_def run_ok_def\<close>)
  then have "extends jo s offset len (read_array_runs jo offset len (a # as)) (array_runs jo s ?at ?n @ arrays_runs jo s as)"
    by (rule extends_cong) (simp add: same_disk_view(4))
  moreover have "arrays_runs jo s (a # as) = array_runs jo s ?at ?n @ arrays_runs jo s as"
    by (simp add: arrays_runs_def)
  ultimately show ?case by (simp only:)
qed

lemma extends_double:
  assumes "settled jo s" and "offset + len < 2 ^ 64" and "len < 2 ^ 32" and "at + n \<le> v_num_blocks (fst s)"
    and "\<forall>b\<in>{at..<at + n}. \<forall>a\<in>set (block_runs jo s b). run_ok (fst s) a"
    and "\<forall>r\<in>set (double_runs jo s at n). run_ok (fst s) r"
  shows "extends jo s offset len (read_double jo offset len at n) (double_runs jo s at n)"
  using assms(4-6)
proof (induction n arbitrary: at)
  case 0
  show ?case unfolding extends_def by (auto simp: double_runs_def contents_def reads_def rd_return_def)
next
  case (Suc n)
  have b: "at < v_num_blocks (fst s)" using Suc.prems(1) by simp
  let ?m = "\<lambda>arr pos out. and_then (read_array_runs jo offset len (runs_in arr 0 (runs_per_block (fst s))) pos out)
      (\<lambda>(pos', out'). read_double jo offset len (at + 1) n pos' out')"
  have ih: "extends jo s offset len (read_double jo offset len (at + 1) n) (double_runs jo s (at + 1) n)"
    by (rule Suc.IH) (use Suc.prems in \<open>auto simp: double_runs_Suc\<close>)
  have "extends jo s offset len (?m (view jo (fst s) (snd s) at)) (double_runs jo s at (Suc n))"
    unfolding double_runs_Suc
    by (rule extends_append [OF _ ih], unfold block_runs_def, rule extends_array_runs [OF assms(1-3)])
      (use Suc.prems in \<open>auto simp: double_runs_Suc block_runs_def\<close>)
  from extends_block [OF b assms(1), of offset len ?m, OF this]
  show ?case by (rule extends_cong) (simp add: same_disk_view(6))
qed

text \<open>Reading a stream gives the window of the bytes its runs name.\<close>

lemma reads_stream:
  assumes "settled jo s" and "stream_ok jo s (i_data i)" and "offset + len < 2 ^ 64" and "len < 2 ^ 32"
  shows "reads jo s (read_stream jo i offset len) (window offset len (contents jo s (stream_runs jo s (i_data i))))"
proof (cases "len = 0")
  case True
  then show ?thesis using reads_return [OF assms(1)] by (simp add: reads_def read_stream_def window_def)
next
  case False
  let ?v = "fst s" and ?st = "i_data i"
  let ?ind = "le_run ?st ds_kIndirect" and ?dbl = "le_run ?st ds_kDoubleIndirect"
  let ?rs = "runs_in ?st ds_kDirect ds_kDirectCount"
  let ?as = "array_runs jo s (to_block ?v ?ind) (unat (run_len ?ind))"
  let ?ds = "double_runs jo s (to_block ?v ?dbl) (unat (run_len ?dbl))"
  have runs: "stream_runs jo s ?st = ?rs @ ?as @ ?ds" by (simp add: stream_runs_def Let_def)
  have ok: "run_ok ?v ?ind" "run_ok ?v ?dbl"
    "\<forall>b\<in>{to_block ?v ?dbl..<to_block ?v ?dbl + unat (run_len ?dbl)}. \<forall>a\<in>set (block_runs jo s b). run_ok ?v a"
    "\<forall>r\<in>set (?rs @ ?as @ ?ds). run_ok ?v r" "length (contents jo s (?rs @ ?as @ ?ds)) < 2 ^ 64"
    using assms(2) unfolding stream_ok_def Let_def runs by blast+
  let ?m = "\<lambda>pos out. and_then (read_runs jo offset len ?rs pos out)
    (\<lambda>(pos, out). and_then (read_arrays jo offset len (to_block ?v ?ind) (unat (run_len ?ind)) pos out)
      (\<lambda>(pos, out). read_double jo offset len (to_block ?v ?dbl) (unat (run_len ?dbl)) pos out))"
  have "extends jo s offset len ?m (?rs @ ?as @ ?ds)"
    by (intro extends_append extends_runs extends_arrays extends_double assms(1,3,4)) (use ok in \<open>auto simp: run_ok_def\<close>)
  from extendsD [OF this same_disk_refl assms(1), of "[]"]
  have m: "reads jo s (?m 0 (replicate len 0)) (length (contents jo s (?rs @ ?as @ ?ds)), window offset len (contents jo s (?rs @ ?as @ ?ds)))"
    using ok(5) by (simp add: window_Nil)
  have "read_stream jo i offset len s = and_then (?m 0 (replicate len 0)) (\<lambda>(pos, out). rd_return out) s"
    using False by (simp add: read_stream_def Let_def and_then_def case_prod_beta split: prod.splits option.splits)
  moreover have "reads jo s (and_then (?m 0 (replicate len 0)) (\<lambda>(pos, out). rd_return out))
      (window offset len (contents jo s (?rs @ ?as @ ?ds)))"
    by (rule reads_then [OF m]) (simp only: prod.case reads_return)
  ultimately show ?thesis unfolding runs by (simp add: reads_def)
qed

text \<open>
  C13. Reading \<open>len\<close> bytes of a stream at \<open>offset\<close> succeeds, changes nothing on the disk, and returns the
  bytes the stream's runs name in order, direct, indirect and double indirect, as the open transaction
  sees their blocks, with zeros past their end. Whether the blocks come from the cache, one at a time or
  in batches makes no difference.
\<close>

theorem read_stream_window:
  assumes "settled jo s" and "stream_ok jo s (i_data i)" and "offset + len < 2 ^ 64" and "len < 2 ^ 32"
  shows "\<exists>s'. read_stream jo i offset len s =
      (s', Some (window offset len (contents jo s (stream_runs jo s (i_data i))))) \<and>
    same_disk s s' \<and> settled jo s'"
  using reads_stream [OF assms] by (simp add: reads_def)

section \<open>Looking a name up in a directory\<close>

lemma key_steps_rep:
  assumes "node_rep sz l r ov es node" and "i + n = length es"
  shows "key_steps node (lens_pos (key_bytes es) + i * 2) (of_nat (key_bytes (take i es))) n =
    map (\<lambda>e. length (fst e)) (drop i es)"
  using assms(2)
proof (induction n arbitrary: i)
  case 0
  then show ?case by simp
next
  case (Suc n)
  have i: "i < length es" using Suc.prems by simp
  have d: "drop i es = es ! i # drop (Suc i) es" using i by (simp add: Cons_nth_drop_Suc)
  have slot: "le16 node (lens_pos (key_bytes es) + i * 2) = of_nat (key_bytes (take (Suc i) es))"
    using assms(1) i by (simp add: node_rep_def)
  have small: "length (fst (es ! i)) < 2 ^ 16"
    using node_rep_bounds(3) [OF assms(1)] key_bytes_take(2) [of "Suc i" es] key_bytes_take_Suc [OF i] by simp
  have "unat (of_nat (key_bytes (take (Suc i) es)) - of_nat (key_bytes (take i es)) :: u16) = length (fst (es ! i))"
    using key_bytes_take_Suc [OF i] unat_small [OF small] by simp
  moreover have "key_steps node (lens_pos (key_bytes es) + i * 2 + 2) (of_nat (key_bytes (take (Suc i) es))) n =
      map (\<lambda>e. length (fst e)) (drop (Suc i) es)"
    using Suc.IH [of "Suc i"] Suc.prems by (simp add: add.assoc add.commute)
  ultimately show ?case by (simp add: d slot)
qed

lemma node_key_lengths_rep:
  assumes "node_rep sz l r ov es node"
  shows "node_key_lengths node (length es) = (map (\<lambda>e. length (fst e)) es, lens_pos (key_bytes es) + length es * 2)"
  using key_steps_rep [OF assms, of 0 "length es"] node_rep_lengths_at [OF assms]
  by (simp add: node_key_lengths_def Let_def key_lengths_at_def)

lemma string_order: "key_compare_typed kTreeStringType = key_compare"
  by (simp add: key_compare_typed_def kTreeStringType_def tree_types fun_eq_iff)

text \<open>The scan of a node stops at the name when the node has it, and says so.\<close>

lemma scan_keys_rep:
  assumes "node_rep sz l r ov es node" and "\<forall>e\<in>set es. length (fst e) \<le> kMaxName" and "i + n = length es"
    and "ascending key_compare (drop i es)"
  shows "\<exists>k. scan_keys (\<lambda>key. key_compare name key) (Some kMaxName) node (nd_kFixed + key_bytes (take i es)) i
      (map (\<lambda>e. length (fst e)) (drop i es)) = Some (k, name \<in> fst ` set (drop i es)) \<and>
    (name \<in> fst ` set (drop i es) \<longrightarrow> k < length es \<and> fst (es ! k) = name)"
  using assms(3,4)
proof (induction n arbitrary: i)
  case 0
  then show ?case by simp
next
  case (Suc n)
  have i: "i < length es" using Suc.prems by simp
  have d: "drop i es = es ! i # drop (Suc i) es" using i by (simp add: Cons_nth_drop_Suc)
  have key: "bslice (nd_kFixed + key_bytes (take i es)) (length (fst (es ! i))) node = fst (es ! i)"
    by (rule node_rep_key(2) [OF assms(1) i])
  have fits: "length (fst (es ! i)) \<le> kMaxName" using assms(2) i by simp
  have asc: "ascending key_compare (drop (Suc i) es)" "\<forall>e\<in>set (drop (Suc i) es). key_compare (fst (es ! i)) (fst e) < 0"
    using Suc.prems(2) unfolding d by (auto simp: ascending_def)
  consider "key_compare name (fst (es ! i)) > 0" | "name = fst (es ! i)" | "key_compare name (fst (es ! i)) < 0"
    using key_compare_eq by (metis linorder_neqE)
  then show ?case
  proof cases
    case 1
    then have "name \<noteq> fst (es ! i)" using key_compare_eq by (metis less_irrefl)
    then show ?thesis
      using 1 Suc.IH [of "Suc i"] Suc.prems(1) asc(1) key fits key_bytes_take_Suc [OF i]
      unfolding d by (auto simp: Let_def add.assoc)
  next
    case 2
    then show ?thesis using key fits i key_compare_eq [of name name] unfolding d by (auto simp: Let_def)
  next
    case 3
    have "name \<notin> fst ` set (drop i es)"
    proof
      assume "name \<in> fst ` set (drop i es)"
      then have "key_compare (fst (es ! i)) name < 0 \<or> name = fst (es ! i)" using asc(2) unfolding d by auto
      then show False using 3 key_compare_swap [of name "fst (es ! i)"] key_compare_eq [of name name] by auto
    qed
    then show ?thesis using 3 key fits unfolding d by (auto simp: Let_def)
  qed
qed

text \<open>
  A leaf node at \<open>off\<close> of the directory's bytes \<open>c\<close>, and a chain of leaves joined by their right links:
  the form of directory \<^verbatim>\<open>scripts/mkfs_bfs.py\<close> writes.
\<close>

definition leaf_at :: "u8 list \<Rightarrow> nat \<Rightarrow> nat \<Rightarrow> nat \<Rightarrow> u64 \<Rightarrow> (u8 list \<times> u64) list \<Rightarrow> bool" where
  "leaf_at c sz maximum off r es \<longleftrightarrow> off + sz \<le> maximum \<and> maximum < 2 ^ 64 \<and>
     (\<exists>l. node_rep sz l r kNullLink es (window off sz c)) \<and> ascending key_compare es \<and>
     (\<forall>e\<in>set es. length (fst e) \<le> kMaxName) \<and> length es \<le> 512"

fun leaves :: "u8 list \<Rightarrow> nat \<Rightarrow> nat \<Rightarrow> nat \<Rightarrow> (u8 list \<times> u64) list list \<Rightarrow> bool" where
  "leaves c sz maximum off [] \<longleftrightarrow> False"
| "leaves c sz maximum off [es] \<longleftrightarrow> leaf_at c sz maximum off kNullLink es"
| "leaves c sz maximum off (es # es' # ess) \<longleftrightarrow>
     (\<exists>r. leaf_at c sz maximum off r es \<and> r \<noteq> kNullLink \<and> r \<noteq> kFreeLink \<and>
        leaves c sz maximum (unat r) (es' # ess))"

text \<open>The operation answers \<open>x\<close>, a failure included, and leaves disk and volume as they were.\<close>

definition answers :: "journal option \<Rightarrow> volume \<times> device \<Rightarrow> 'a rd \<Rightarrow> 'a option \<Rightarrow> bool" where
  "answers jo s m x \<longleftrightarrow> (\<exists>s'. m s = (s', x) \<and> same_disk s s' \<and> settled jo s')"

lemma answers_simps: "settled jo s \<Longrightarrow> answers jo s (rd_return x) (Some x)" "settled jo s \<Longrightarrow> answers jo s rd_fail None"
  by (auto simp: answers_def rd_return_def rd_fail_def)

lemma answers_then:
  assumes "reads jo s m x" and "\<And>s'. same_disk s s' \<Longrightarrow> settled jo s' \<Longrightarrow> answers jo s' (f x) y"
  shows "answers jo s (and_then m f) y"
proof -
  obtain s1 where 1: "m s = (s1, Some x)" "same_disk s s1" "settled jo s1" using assms(1) by (auto simp: reads_def)
  obtain s2 where 2: "f x s1 = (s2, y)" "same_disk s1 s2" "settled jo s2"
    using assms(2) [OF 1(2,3)] by (auto simp: answers_def)
  show ?thesis
    unfolding answers_def and_then_def using 1(1) 2(1,3) same_disk_trans [OF 1(2) 2(2)] by simp
qed

text \<open>What the search makes of one leaf.\<close>

definition leaf_step :: "journal option \<Rightarrow> inode \<Rightarrow> u8 list \<Rightarrow> nat \<Rightarrow> nat \<Rightarrow> nat \<Rightarrow> u8 list \<Rightarrow> u64 rd" where
  "leaf_step jo dir name node_size maximum n tree =
     (let overflow = le64 tree nd_kOverflowLink; cnt = unat (le16 tree nd_kKeyCount)
      in if cnt > 512 then rd_fail
         else
           (case node_key_lengths tree cnt of (lengths, vals) \<Rightarrow>
              (case scan_keys (\<lambda>key. key_compare name key) (Some kMaxName) tree nd_kFixed 0 lengths of
                 None \<Rightarrow> rd_fail
               | Some (child, equal) \<Rightarrow>
                   if overflow = kNullLink then
                     if equal then rd_return (le64 tree (vals + child * 8))
                     else
                       let right = le64 tree nd_kRightLink
                       in if right = kNullLink \<or> right = kFreeLink then rd_fail
                          else dir_find_loop jo dir name node_size maximum (unat right) n
                   else
                     dir_find_loop jo dir name node_size maximum
                       (unat (if child = cnt then overflow else le64 tree (vals + child * 8))) n)))"

lemma dir_find_loop_step:
  "dir_find_loop jo dir name node_size maximum offset (Suc n) s =
     (if wrap64 (offset + node_size) > maximum then rd_fail s
      else and_then (read_stream jo dir offset node_size) (leaf_step jo dir name node_size maximum n) s)"
  unfolding leaf_step_def [abs_def] by (rule dir_find_loop.simps(2))

lemma leaf_step_leaf:
  assumes "leaf_at c sz maximum off r es"
  shows "leaf_step jo dir name sz maximum n (window off sz c) =
    (case map_of es name of
       Some x \<Rightarrow> rd_return x
     | None \<Rightarrow> if r = kNullLink \<or> r = kFreeLink then rd_fail else dir_find_loop jo dir name sz maximum (unat r) n)"
proof -
  let ?t = "window off sz c"
  obtain l where rep: "node_rep sz l r kNullLink es ?t" using assms by (auto simp: leaf_at_def)
  have a: "ascending key_compare es" "\<forall>e\<in>set es. length (fst e) \<le> kMaxName" "length es \<le> 512"
    using assms by (auto simp: leaf_at_def)
  have f: "le64 ?t nd_kOverflowLink = kNullLink" "unat (le16 ?t nd_kKeyCount) = length es" "le64 ?t nd_kRightLink = r"
    using rep unat_small [OF node_rep_bounds(4) [OF rep]] by (auto simp: node_rep_def)
  obtain k where k: "scan_keys (\<lambda>key. key_compare name key) (Some kMaxName) ?t nd_kFixed 0 (map (\<lambda>e. length (fst e)) es) =
      Some (k, name \<in> fst ` set es)" "name \<in> fst ` set es \<Longrightarrow> k < length es \<and> fst (es ! k) = name"
    using scan_keys_rep [OF rep a(2), of 0 "length es" name] a(1) by auto
  have step: "leaf_step jo dir name sz maximum n ?t =
    (if name \<in> fst ` set es then rd_return (le64 ?t (lens_pos (key_bytes es) + length es * 2 + k * 8))
     else if r = kNullLink \<or> r = kFreeLink then rd_fail else dir_find_loop jo dir name sz maximum (unat r) n)"
    unfolding leaf_step_def Let_def f node_key_lengths_rep [OF rep] using k(1) a(3) by simp
  show ?thesis
  proof (cases "name \<in> fst ` set es")
    case True
    note kk = k(2) [OF True]
    have "distinct (map fst es)" using kc.ascending_distinct [of kTreeStringType es] a(1) by (simp add: string_order)
    then have "map_of es name = Some (snd (es ! k))" using kk by (metis map_of_is_SomeI nth_mem prod.collapse)
    moreover have "le64 ?t (lens_pos (key_bytes es) + length es * 2 + k * 8) = snd (es ! k)"
      using rep kk by (simp add: node_rep_def)
    ultimately show ?thesis using step True by simp
  next
    case False
    then show ?thesis using step by (simp add: map_of_eq_None_iff [THEN iffD2])
  qed
qed

text \<open>A stream is the same stream for every state of the same disk.\<close>

lemma stream_runs_same:
  assumes "same_disk s s'"
  shows "stream_runs jo s' = stream_runs jo s"
  unfolding stream_runs_def [abs_def] Let_def array_runs_def double_runs_def arrays_runs_def
    block_runs_same [OF assms] same_disk_view(4) [OF assms] by (rule refl)

lemma stream_ok_same:
  assumes "same_disk s s'"
  shows "stream_ok jo s' = stream_ok jo s"
  unfolding stream_ok_def [abs_def] Let_def block_runs_same [OF assms] same_disk_view(4) [OF assms] run_ok_same [OF assms]
    stream_runs_same [OF assms] contents_same [OF assms] by (rule refl)

lemma leaves_Cons:
  assumes "leaves c sz maximum off (es # rest)"
  obtains r where "leaf_at c sz maximum off r es" and "rest = [] \<Longrightarrow> r = kNullLink"
    and "rest \<noteq> [] \<Longrightarrow> r \<noteq> kNullLink \<and> r \<noteq> kFreeLink \<and> leaves c sz maximum (unat r) rest"
  using assms by (cases rest) auto

lemma dir_find_loop_leaves:
  assumes "settled jo s" and "stream_ok jo s (i_data dir)" and "sz < 2 ^ 32"
    and "leaves (contents jo s (stream_runs jo s (i_data dir))) sz maximum off ess"
  shows "answers jo s (dir_find_loop jo dir name sz maximum off n) (map_of (concat (take n ess)) name)"
  using assms
proof (induction n arbitrary: off ess s)
  case 0
  then show ?case by (auto simp: answers_def rd_fail_def)
next
  case (Suc n)
  let ?c = "contents jo s (stream_runs jo s (i_data dir))"
  obtain es rest where ess: "ess = es # rest" using Suc.prems(4) by (cases ess) auto
  obtain r where leaf: "leaf_at ?c sz maximum off r es" and last: "rest = [] \<Longrightarrow> r = kNullLink"
    and more: "rest \<noteq> [] \<Longrightarrow> r \<noteq> kNullLink \<and> r \<noteq> kFreeLink \<and> leaves ?c sz maximum (unat r) rest"
    using leaves_Cons [OF Suc.prems(4) [unfolded ess]] by blast
  have off: "off + sz \<le> maximum" "off + sz < 2 ^ 64" using leaf by (auto simp: leaf_at_def)
  have step: "answers jo s' (leaf_step jo dir name sz maximum n (window off sz ?c)) (map_of (concat (take (Suc n) ess)) name)"
    if s': "same_disk s s'" "settled jo s'" for s'
  proof (cases "map_of es name")
    case (Some x)
    then show ?thesis using leaf_step_leaf [OF leaf] answers_simps(1) [OF s'(2)] ess by (simp add: map_add_Some_iff)
  next
    case None
    show ?thesis
    proof (cases "rest = []")
      case True
      then show ?thesis
        using leaf_step_leaf [OF leaf] answers_simps(2) [OF s'(2)] None last ess by simp
    next
      case False
      have "answers jo s' (dir_find_loop jo dir name sz maximum (unat r) n) (map_of (concat (take n rest)) name)"
        using Suc.IH [OF s'(2)] Suc.prems(2,3) more [OF False]
        by (simp add: stream_ok_same [OF s'(1)] stream_runs_same [OF s'(1)] contents_same [OF s'(1)])
      then show ?thesis using leaf_step_leaf [OF leaf] None more [OF False] ess by (simp add: map_add_def)
    qed
  qed
  have "answers jo s (and_then (read_stream jo dir off sz) (leaf_step jo dir name sz maximum n)) (map_of (concat (take (Suc n) ess)) name)"
    by (rule answers_then [OF reads_stream [OF Suc.prems(1,2) off(2) Suc.prems(3)]]) (rule step)
  then show ?case using off by (simp add: answers_def dir_find_loop_step wrap64_def del: dir_find_loop.simps)
qed

text \<open>The header a lookup starts from.\<close>

lemma reads_node_header:
  assumes "settled jo s" and "stream_ok jo s (i_data dir)"
    and "tree_header_parse (window 0 th_kBytes (contents jo s (stream_runs jo s (i_data dir)))) = Some h"
  shows "reads jo s (node_header jo dir) (unat (th_node_size h), unat (th_root h), unat (th_maximum h), th_data_type h)"
    "unat (th_node_size h) < 2 ^ 32"
proof -
  let ?w = "window 0 th_kBytes (contents jo s (stream_runs jo s (i_data dir)))"
  have f: "le32 ?w th_kMagic = kTreeMagic" "le32 ?w th_kNodeSize = th_node_size h" "le64 ?w th_kRootNode = th_root h"
    "le64 ?w th_kMaximumSize = th_maximum h" "le32 ?w th_kDataType = th_data_type h" "th_node_size h \<noteq> 0"
    "unat (th_node_size h) \<le> kMaxBlockSize"
    using assms(3) by (auto simp: tree_header_parse_def Let_def split: if_splits)
  then show "unat (th_node_size h) < 2 ^ 32" by (simp add: kMaxBlockSize_def)
  have w: "reads jo s (read_stream jo dir 0 th_kBytes) ?w"
    by (rule reads_stream [OF assms(1,2)]) (simp_all add: th_kBytes_def)
  show "reads jo s (node_header jo dir) (unat (th_node_size h), unat (th_root h), unat (th_maximum h), th_data_type h)"
    unfolding node_header_def
    by (rule reads_then [OF w]) (use f in \<open>simp add: Let_def reads_return unat_eq_zero\<close>)
qed

text \<open>
  C14. Looking a name up in a directory whose entries lie in a chain of leaves gives the number the first
  sixteen leaves hold for it, and fails exactly when none of them has the name: the bound on the depth
  of the descent also bounds the walk along the chain, so an entry of a later leaf is not found.
\<close>

theorem dir_find_leaves:
  assumes "settled jo s" and "stream_ok jo s (i_data dir)"
    and "tree_header_parse (window 0 th_kBytes (contents jo s (stream_runs jo s (i_data dir)))) = Some h"
    and "leaves (contents jo s (stream_runs jo s (i_data dir))) (unat (th_node_size h)) (unat (th_maximum h))
      (unat (th_root h)) ess"
  shows "\<exists>s'. dir_find jo dir name s = (s', map_of (concat (take 16 ess)) name) \<and> same_disk s s' \<and> settled jo s'"
proof -
  let ?c = "contents jo s (stream_runs jo s (i_data dir))"
  note h = reads_node_header [OF assms(1-3)]
  have "answers jo s' (dir_find_loop jo dir name (unat (th_node_size h)) (unat (th_maximum h)) (unat (th_root h)) 16)
      (map_of (concat (take 16 ess)) name)" if s': "same_disk s s'" "settled jo s'" for s'
    by (rule dir_find_loop_leaves [OF s'(2)])
      (use assms(2,4) h(2) in \<open>simp_all add: stream_ok_same [OF s'(1)] stream_runs_same [OF s'(1)] contents_same [OF s'(1)]\<close>)
  then have "answers jo s (dir_find jo dir name) (map_of (concat (take 16 ess)) name)"
    unfolding dir_find_def by (intro answers_then [OF h(1)]) simp
  then show ?thesis by (simp add: answers_def)
qed

section \<open>A directory of two entries\<close>

text \<open>The tree header in block 21 of the sample volume and its one leaf in block 22.\<close>

definition sample_header :: tree_header where
  "sample_header = \<lparr>th_node_size = 512, th_max_levels = 1, th_data_type = kTreeStringType, th_root = 512,
     th_free_node = kNullLink, th_maximum = 1024\<rparr>"

definition sample_leaf :: "u8 list" where
  "sample_leaf = put_entries (bsplice nd_kFixed [97, 99] (node_frame 512 (replicate 512 255) 2 2)) 32 36 0 0 sample_entries"

definition sample_disk :: device where
  "sample_disk =
     \<lparr>dev_sectors = (\<lambda>k. if k = 21 then tree_header_build (replicate 512 0) sample_header
                         else if k = 22 then sample_leaf else replicate 512 0),
      dev_outcome = (\<lambda>_. Done), dev_clock = 0\<rparr>"

definition sample_dir :: inode where
  "sample_dir =
     \<lparr>i_mode = 16895, i_uid = 0, i_gid = 0, i_type = 0, i_size = 1024, i_mtime = 0, i_run = run_make 0 20 1,
      i_parent = run_make 0 20 1, i_attributes = run_make 0 0 0, i_name = [],
      i_data = put_run (replicate 144 0) 0 (run_make 0 21 2)\<rparr>"

lemma sample_leaf_rep: "node_rep 512 kNullLink kNullLink kNullLink sample_entries sample_leaf"
proof -
  have e8: "replicate 8 (255 :: u8) = [255, 255, 255, 255, 255, 255, 255, 255]" by (simp add: numeral_eq_Suc)
  have r: "le64 (replicate 512 255) pos = kNullLink" if "pos + 8 \<le> 512" for pos
    using that by (simp add: le64_def bslice_def e8 kNullLink_def)
  have z: "le64 (replicate 512 255) nd_kLeftLink = kNullLink" "le64 (replicate 512 255) nd_kRightLink = kNullLink"
    "le64 (replicate 512 255) nd_kOverflowLink = kNullLink"
    by (simp_all add: r nd_offsets)
  have e: "lens_pos (Suc (Suc 0)) = 32" by (simp add: lens_pos_def align8_def nd_kFixed_def)
  show ?thesis
    using built_rep [of 512 sample_entries "replicate 512 255", OF _ _ z] e
    by (simp add: sample_leaf_def sample_entries_def kMaxBlockSize_def)
qed

lemma sample_disk_settled: "settled None (sample_volume, sample_disk)"
proof -
  have "length (tree_header_build (replicate 512 0) sample_header) = 512"
    unfolding tree_header_build_def th_offsets by (simp add: length_put_eq [where n = 512] del: length_put length_put_run)
  moreover have "length sample_leaf = 512" using sample_leaf_rep by (simp add: node_rep_def)
  ultimately show ?thesis
    using sample_geom(1) by (simp add: settled_def cache_ok_def journal_ok_def sample_disk_def kSectorBytes_def)
      (simp add: sample_volume_def vol_block_size_def)
qed

lemma sample_dir_data:
  "le_run (i_data sample_dir) 0 = run_make 0 21 2"
  "8 \<le> at \<Longrightarrow> at + 8 \<le> 144 \<Longrightarrow> le_run (i_data sample_dir) at = run_make 0 0 0"
proof -
  have z: "le_run (replicate 144 0) at = run_make 0 0 0" if "at + 8 \<le> 144" for at
    using that by (simp add: le_run_def le32_def le16_def bslice_def le_nat_zeros run_make_def)
  show "le_run (i_data sample_dir) 0 = run_make 0 21 2" by (simp add: sample_dir_def le_run_put_run)
  show "le_run (i_data sample_dir) at = run_make 0 0 0" if "8 \<le> at" "at + 8 \<le> 144"
    using that z [of at] by (simp add: sample_dir_def le_put_run_far)
qed

lemma sample_dir_runs: "stream_runs None (sample_volume, sample_disk) (i_data sample_dir) = [run_make 0 21 2]"
proof -
  have "runs_in (i_data sample_dir) ds_kDirect ds_kDirectCount = [run_make 0 21 2]"
    unfolding runs_in_def ds_kDirect_def ds_kDirectCount_def
    by (simp add: sample_dir_data upt_conv_Cons run_is_zero_def run_make_def)
  then show ?thesis
    by (simp add: stream_runs_def Let_def sample_dir_data ds_kIndirect_def ds_kDoubleIndirect_def array_runs_def double_runs_def)
      (simp add: run_make_def)
qed

lemma sample_dir_contents:
  "contents None (sample_volume, sample_disk) [run_make 0 21 2] =
     tree_header_build (replicate 512 0) sample_header @ sample_leaf"
proof -
  let ?s = "(sample_volume, sample_disk)"
  have v: "vol_block_size sample_volume = 512" "block_sectors sample_volume = 1" "to_block sample_volume (run_make 0 21 2) = 21"
    "run_bytes sample_volume (run_make 0 21 2) = 1024"
    by (simp_all add: sample_volume_def vol_block_size_def block_sectors_def kSectorBytes_def to_block_def run_make_def
        wrap64_def run_bytes_def)
  have b: "vslice None ?s (b * 512) 512 = dev_sectors sample_disk b" for b
    using view_whole [OF sample_disk_settled, of b] v by (simp add: view_def block_content_def get_sectors_def)
  have "contents None ?s [run_make 0 21 2] = vslice None ?s (21 * 512) (512 + 512)"
    by (simp add: contents_def run_content_def v)
  also have "\<dots> = dev_sectors sample_disk 21 @ dev_sectors sample_disk 22"
    unfolding vslice_append using b [of 21] b [of 22] by simp
  finally show ?thesis by (simp add: sample_disk_def)
qed

lemma sample_dir_ok: "stream_ok None (sample_volume, sample_disk) (i_data sample_dir)"
proof -
  let ?s = "(sample_volume, sample_disk)"
  have ok: "run_ok sample_volume (run_make 0 0 0)" "run_ok sample_volume (run_make 0 21 2)"
    by (simp_all add: run_ok_def sample_volume_def to_block_def run_make_def wrap64_def)
  have len: "length (contents None ?s [run_make 0 21 2]) < 2 ^ 64"
    by (simp add: contents_def run_bytes_def run_make_def sample_volume_def vol_block_size_def)
  show ?thesis
    unfolding stream_ok_def Let_def sample_dir_runs
    using ok len by (simp add: sample_dir_data ds_kIndirect_def ds_kDoubleIndirect_def) (simp add: run_make_def)
qed

lemma sample_window: "window 512 512 (tree_header_build (replicate 512 0) sample_header @ sample_leaf) = sample_leaf"
proof -
  have "length (tree_header_build (replicate 512 0) sample_header) = 512"
    unfolding tree_header_build_def th_offsets by (simp add: length_put_eq [where n = 512] del: length_put length_put_run)
  moreover have "length sample_leaf = 512" using sample_leaf_rep by (simp add: node_rep_def)
  ultimately show ?thesis by (intro nth_equalityI) (simp_all add: window_nth nth_append)
qed

theorem read_stream_window_witness:
  "\<exists>s'. read_stream None sample_dir 512 512 (sample_volume, sample_disk) = (s', Some sample_leaf)"
  using read_stream_window [OF sample_disk_settled sample_dir_ok, of 512 512]
  by (auto simp: sample_dir_runs sample_dir_contents sample_window)

lemma sample_dir_header:
  "tree_header_parse (window 0 th_kBytes (tree_header_build (replicate 512 0) sample_header @ sample_leaf)) = Some sample_header"
proof -
  let ?b = "tree_header_build (replicate 512 0) sample_header"
  have len: "length ?b = 512"
    unfolding tree_header_build_def th_offsets by (simp add: length_put_eq [where n = 512] del: length_put length_put_run)
  then have w: "window 0 th_kBytes (?b @ sample_leaf) = take th_kBytes ?b"
    by (intro nth_equalityI) (simp_all add: window_nth nth_append th_kBytes_def)
  have sub: "bslice pos n (take th_kBytes ?b) = bslice pos n ?b" if "pos + n \<le> 40" for pos n
    using that by (simp add: bslice_def th_kBytes_def drop_take min_def)
  have p: "tree_header_parse (take th_kBytes ?b) = tree_header_parse ?b"
    unfolding tree_header_parse_def le32_def le64_def th_offsets by (simp add: sub [unfolded th_kBytes_def])
  show ?thesis
    unfolding w p by (rule tree_header_parse_build) (simp_all add: sample_header_def th_kBytes_def kMaxBlockSize_def)
qed

theorem dir_find_leaves_witness:
  "\<exists>s'. dir_find None sample_dir [99] (sample_volume, sample_disk) = (s', Some 7)"
proof -
  let ?c = "contents None (sample_volume, sample_disk) (stream_runs None (sample_volume, sample_disk) (i_data sample_dir))"
  have c: "?c = tree_header_build (replicate 512 0) sample_header @ sample_leaf"
    by (simp add: sample_dir_runs sample_dir_contents)
  have "leaf_at ?c 512 1024 512 kNullLink sample_entries"
    using sample_leaf_rep sample_entries_ok(1)
    by (auto simp: leaf_at_def c sample_window string_order sample_entries_def kMaxName_def)
  then have l: "leaves ?c (unat (th_node_size sample_header)) (unat (th_maximum sample_header))
      (unat (th_root sample_header)) [sample_entries]"
    by (simp add: sample_header_def)
  show ?thesis
    using dir_find_leaves [OF sample_disk_settled sample_dir_ok sample_dir_header [folded c] l, of "[99]"]
    by (auto simp: sample_entries_def)
qed

end
