(* ===== verification/Bfs_Allocator.thy ===== *)
theory Bfs_Allocator
  imports Bfs_Read
begin

text \<open>
  The block allocator, \<^verbatim>\<open>src/libs/freestanding/aegir-bfs/src/allocator.cc\<close>: first fit over the bitmap
  blocks of the allocation groups, and the run held back for a discard. The bitmap buffer is the
  member \<^verbatim>\<open>bitmap_\<close> with its 8192 bytes; an access outside it, which the language leaves undefined, is an
  outcome of its own. The requests handed to the discard callback are recorded in order.
\<close>

section \<open>The model\<close>

record allocator =
  al_bound :: bool
  al_block_size :: nat
  al_blocks_per_ag :: nat
  al_ag_shift :: nat
  al_bitmap :: "u8 list"
  al_pending :: "run option"
  al_sent :: "(nat \<times> nat) list"

datatype alloc_result = Given run | NoRun | OutOfBuffer

definition kMaxRun :: nat where "kMaxRun = 65535"

definition allocator_open :: "volume \<Rightarrow> allocator \<Rightarrow> allocator \<times> bool" where
  "allocator_open v a =
     (if \<not> v_valid v \<or> \<not> v_write v then (a, False)
      else
        (a\<lparr>al_bound := True, al_block_size := vol_block_size v, al_blocks_per_ag := v_blocks_per_ag v,
           al_ag_shift := v_ag_shift v\<rparr>, True))"

definition bits_per_block :: "allocator \<Rightarrow> nat" where
  "bits_per_block a = al_block_size a * 8"

definition group_bits :: "volume \<Rightarrow> allocator \<Rightarrow> nat \<Rightarrow> nat" where
  "group_bits v a grp =
     (let first = wrap64 (push_bit (al_ag_shift a) grp); span = 2 ^ al_ag_shift a; tot = v_num_blocks v
      in if first \<ge> tot then 0 else if span < tot - first then span else tot - first)"

definition bitmap_block :: "allocator \<Rightarrow> nat \<Rightarrow> nat \<Rightarrow> nat" where
  "bitmap_block a grp index = wrap64 (1 + grp * al_blocks_per_ag a + index)"

definition bit_place :: "nat \<Rightarrow> nat" where
  "bit_place b = b div 32 * 4 + b mod 32 div 8"

definition bit_set :: "u8 list \<Rightarrow> nat \<Rightarrow> bool option" where
  "bit_set bitmap b = (if bit_place b < length bitmap then Some (bit (bitmap ! bit_place b) (b mod 8)) else None)"

definition change_bit :: "(nat \<Rightarrow> u8 \<Rightarrow> u8) \<Rightarrow> u8 list \<Rightarrow> nat \<Rightarrow> u8 list option" where
  "change_bit f bitmap b =
     (if bit_place b < length bitmap then Some (bitmap[bit_place b := f (b mod 8) (bitmap ! bit_place b)]) else None)"

definition set_bit_at :: "u8 list \<Rightarrow> nat \<Rightarrow> u8 list option" where
  "set_bit_at = change_bit (\<lambda>k x. x OR push_bit k 1)"

definition clear_bit :: "u8 list \<Rightarrow> nat \<Rightarrow> u8 list option" where
  "clear_bit = change_bit (\<lambda>k x. x AND NOT (push_bit k 1))"

text \<open>The length of the free run at \<open>local\<close>, from \<open>len\<close> on.\<close>

function extend :: "u8 list \<Rightarrow> nat \<Rightarrow> nat \<Rightarrow> nat \<Rightarrow> nat \<Rightarrow> nat \<Rightarrow> nat \<Rightarrow> nat option" where
  "extend bitmap maximum bits per_block index loc len =
     (if len < maximum \<and> wrap32 (loc + len) < bits \<and> wrap32 (loc + len) div per_block = index then
        (case bit_set bitmap (wrap32 (loc + len)) of
           None \<Rightarrow> None
         | Some used \<Rightarrow> if used then Some len else extend bitmap maximum bits per_block index loc (len + 1))
      else Some len)"
  by pat_completeness auto
termination
  by (relation "measure (\<lambda>(bitmap, maximum, bits, per_block, index, loc, len). maximum - len)") auto

declare extend.simps [simp del]

text \<open>
  The loop over the bits of one bitmap block, from \<open>b\<close> with \<open>n\<close> to go: an access outside the buffer, no
  run, or the place and the length of one.
\<close>

fun scan_bits :: "u8 list \<Rightarrow> nat \<Rightarrow> nat \<Rightarrow> nat \<Rightarrow> nat \<Rightarrow> nat \<Rightarrow> nat \<Rightarrow> nat \<Rightarrow> (nat \<times> nat) option option" where
  "scan_bits bitmap maximum minimum bits per_block index b 0 = Some None"
| "scan_bits bitmap maximum minimum bits per_block index b (Suc n) =
     (let loc = wrap32 (wrap32 (index * per_block) + b)
      in if loc \<ge> bits then Some None
         else
           (case bit_set bitmap b of
              None \<Rightarrow> None
            | Some True \<Rightarrow> scan_bits bitmap maximum minimum bits per_block index (b + 1) n
            | Some False \<Rightarrow>
                (case extend bitmap maximum bits per_block index loc 1 of
                   None \<Rightarrow> None
                 | Some len \<Rightarrow>
                     if len < minimum then scan_bits bitmap maximum minimum bits per_block index (b + 1) n
                     else Some (Some (loc, len)))))"

fun set_bits :: "u8 list \<Rightarrow> nat \<Rightarrow> nat \<Rightarrow> u8 list option" where
  "set_bits bitmap loc 0 = Some bitmap"
| "set_bits bitmap loc (Suc n) = Option.bind (set_bit_at bitmap loc) (\<lambda>b. set_bits b (wrap32 (loc + 1)) n)"

text \<open>One bitmap block; no result when the search goes on.\<close>

definition try_block :: "nat \<Rightarrow> nat \<Rightarrow> nat \<Rightarrow> nat \<Rightarrow> allocator \<times> fs \<Rightarrow> (allocator \<times> fs) \<times> alloc_result option" where
  "try_block maximum minimum grp index st =
     (case st of (a, v, jo, d) \<Rightarrow>
        let at = bitmap_block a grp index; bits = group_bits v a grp; per_block = bits_per_block a
        in if at \<ge> v_num_blocks v then (st, Some NoRun)
           else
             (case read_block v jo d at of
                (v1, d1, None) \<Rightarrow> ((a, v1, jo, d1), Some NoRun)
              | (v1, d1, Some bytes) \<Rightarrow>
                  let bitmap = bsplice 0 bytes (al_bitmap a); a1 = a\<lparr>al_bitmap := bitmap\<rparr>
                  in (case scan_bits bitmap maximum minimum bits per_block index 0 per_block of
                        None \<Rightarrow> ((a1, v1, jo, d1), Some OutOfBuffer)
                      | Some None \<Rightarrow> ((a1, v1, jo, d1), None)
                      | Some (Some (loc, len)) \<Rightarrow>
                          (case set_bits bitmap loc len of
                             None \<Rightarrow> ((a1, v1, jo, d1), Some OutOfBuffer)
                           | Some marked \<Rightarrow>
                               let a2 = a1\<lparr>al_bitmap := marked\<rparr>
                               in (case write_block v1 jo d1 at (take (vol_block_size v) marked) of (v2, jo2, d2, ok) \<Rightarrow>
                                     if \<not> ok then ((a2, v2, jo2, d2), Some NoRun)
                                     else
                                       let v3 = set_used_blocks (wrap64 (v_used_blocks v2 + len)) v2;
                                           d3 = fst (flush_superblock v3 jo2 d2)
                                       in ((a2, v3, jo2, d3), Some (Given (run_make (of_nat grp) (of_nat loc) (of_nat len)))))))))"

fun try_blocks :: "nat \<Rightarrow> nat \<Rightarrow> (nat \<times> nat) list \<Rightarrow> allocator \<times> fs \<Rightarrow> (allocator \<times> fs) \<times> alloc_result" where
  "try_blocks maximum minimum [] st = (st, NoRun)"
| "try_blocks maximum minimum ((grp, index) # rest) st =
     (case try_block maximum minimum grp index st of
        (st', None) \<Rightarrow> try_blocks maximum minimum rest st'
      | (st', Some res) \<Rightarrow> (st', res))"

text \<open>The bitmap blocks in the order of the two loops; the first empty group ends them.\<close>

definition bitmap_order :: "volume \<Rightarrow> allocator \<Rightarrow> (nat \<times> nat) list" where
  "bitmap_order v a =
     concat (map (\<lambda>g. map (Pair g) [0..<al_blocks_per_ag a])
       (takeWhile (\<lambda>g. group_bits v a g \<noteq> 0) [0..<v_num_ags v]))"

definition allocate :: "nat \<Rightarrow> nat \<Rightarrow> allocator \<times> fs \<Rightarrow> (allocator \<times> fs) \<times> alloc_result" where
  "allocate most least st =
     (case st of (a, v, jo, d) \<Rightarrow>
        if \<not> al_bound a \<or> most = 0 \<or> least = 0 then (st, NoRun)
        else
          let maximum = min most kMaxRun
          in try_blocks maximum (min least maximum) (bitmap_order v a) st)"

definition flush_discards :: "allocator \<times> fs \<Rightarrow> allocator \<times> fs" where
  "flush_discards st =
     (case st of (a, v, jo, d) \<Rightarrow>
        (case al_pending a of
           None \<Rightarrow> st
         | Some r \<Rightarrow>
             (case discard_range v r of
                None \<Rightarrow> (a\<lparr>al_pending := None\<rparr>, v, jo, d)
              | Some request \<Rightarrow> (a\<lparr>al_pending := None, al_sent := al_sent a @ [request]\<rparr>, v, jo, d))))"

definition drop_discards :: "allocator \<times> fs \<Rightarrow> allocator \<times> fs" where
  "drop_discards st = (case st of (a, s) \<Rightarrow> (a\<lparr>al_pending := None\<rparr>, s))"

text \<open>The two runs joined, when they touch in one group and the length still fits.\<close>

definition join_runs :: "run \<Rightarrow> run \<Rightarrow> run option" where
  "join_runs p r =
     (if run_ag p = run_ag r \<and> unat (run_len p) + unat (run_len r) \<le> kMaxRun then
        if unat (run_start r) = unat (run_start p) + unat (run_len p) then Some (p\<lparr>run_len := run_len p + run_len r\<rparr>)
        else if unat (run_start p) = unat (run_start r) + unat (run_len r) then
          Some (p\<lparr>run_start := run_start r, run_len := run_len p + run_len r\<rparr>)
        else None
      else None)"

definition queue_discard :: "run \<Rightarrow> allocator \<times> fs \<Rightarrow> allocator \<times> fs" where
  "queue_discard r st =
     (case st of (a, v, jo, d) \<Rightarrow>
        if \<not> al_bound a \<or> \<not> v_discard v \<or> run_len r = 0 then st
        else
          (case Option.bind (al_pending a) (\<lambda>p. join_runs p r) of
             Some joined \<Rightarrow> (a\<lparr>al_pending := Some joined\<rparr>, v, jo, d)
           | None \<Rightarrow> (case flush_discards st of (a', s) \<Rightarrow> (a'\<lparr>al_pending := Some r\<rparr>, s))))"

text \<open>The loop of \<^verbatim>\<open>free\<close> from block \<open>loc\<close> of the group on, \<open>n\<close> blocks to go.\<close>

fun free_blocks_from :: "nat \<Rightarrow> nat \<Rightarrow> nat \<Rightarrow> allocator \<times> fs \<Rightarrow> (allocator \<times> fs) \<times> bool" where
  "free_blocks_from grp loc 0 st = (st, True)"
| "free_blocks_from grp loc (Suc n) st =
     (case st of (a, v, jo, d) \<Rightarrow>
        let per_block = bits_per_block a; at = bitmap_block a grp (loc div per_block)
        in if at \<ge> v_num_blocks v then (st, False)
           else
             (case read_block v jo d at of
                (v1, d1, None) \<Rightarrow> ((a, v1, jo, d1), False)
              | (v1, d1, Some bytes) \<Rightarrow>
                  let bitmap = bsplice 0 bytes (al_bitmap a)
                  in (case clear_bit bitmap (loc mod per_block) of
                        None \<Rightarrow> ((a\<lparr>al_bitmap := bitmap\<rparr>, v1, jo, d1), False)
                      | Some cleared \<Rightarrow>
                          let a1 = a\<lparr>al_bitmap := cleared\<rparr>
                          in (case write_block v1 jo d1 at (take (vol_block_size v) cleared) of (v2, jo2, d2, ok) \<Rightarrow>
                                if \<not> ok then ((a1, v2, jo2, d2), False)
                                else free_blocks_from grp (loc + 1) n (a1, v2, jo2, d2)))))"

definition free_run :: "run \<Rightarrow> allocator \<times> fs \<Rightarrow> (allocator \<times> fs) \<times> bool" where
  "free_run r st =
     (if \<not> al_bound (fst st) \<or> run_len r = 0 then (st, False)
      else
        (case free_blocks_from (unat (run_ag r)) (unat (run_start r)) (unat (run_len r)) st of
           (st', False) \<Rightarrow> (st', False)
         | ((a, v, jo, d), True) \<Rightarrow>
             let used = v_used_blocks v; len = unat (run_len r);
                 v' = set_used_blocks (if used \<ge> len then used - len else 0) v;
                 d' = fst (flush_superblock v' jo d)
             in (queue_discard r (a, v', jo, d'), True)))"

section \<open>Bitmaps as sets of blocks\<close>

definition used :: "u8 list \<Rightarrow> nat \<Rightarrow> bool" where
  "used bitmap b \<longleftrightarrow> bit (bitmap ! (b div 8)) (b mod 8)"

definition all_free :: "u8 list \<Rightarrow> nat \<Rightarrow> nat \<Rightarrow> bool" where
  "all_free bitmap loc len \<longleftrightarrow> (\<forall>b. loc \<le> b \<longrightarrow> b < loc + len \<longrightarrow> \<not> used bitmap b)"

lemma bit_place_div: "bit_place b = b div 8"
proof -
  have "b = b mod 32 + (b div 32 * 4) * 8" by simp
  then have "b div 8 = (b mod 32 + (b div 32 * 4) * 8) div 8" by (rule arg_cong)
  also have "\<dots> = b div 32 * 4 + b mod 32 div 8" by (rule div_mult_self1) simp
  finally show ?thesis by (simp add: bit_place_def)
qed

lemma bit_set_used: "b < 8 * length bitmap \<Longrightarrow> bit_set bitmap b = Some (used bitmap b)"
  by (simp add: bit_set_def used_def bit_place_div less_mult_imp_div_less mult.commute)

lemma change_bit_used:
  assumes "b < 8 * length bitmap"
    and "\<And>k x j. k < 8 \<Longrightarrow> j < 8 \<Longrightarrow> bit (f k x) j = (if j = k then new else bit x j)"
  shows "\<exists>m. change_bit f bitmap b = Some m \<and> length m = length bitmap \<and>
    (\<forall>c<8 * length bitmap. used m c = (if c = b then new else used bitmap c))"
proof -
  let ?m = "bitmap[b div 8 := f (b mod 8) (bitmap ! (b div 8))]"
  have b: "b div 8 < length bitmap" using assms(1) by (simp add: less_mult_imp_div_less mult.commute)
  have eq: "c = b" if "c div 8 = b div 8" "c mod 8 = b mod 8" for c
    using that by (metis div_mult_mod_eq)
  have "used ?m c = (if c = b then new else used bitmap c)" if "c < 8 * length bitmap" for c
  proof (cases "c div 8 = b div 8")
    case True
    then show ?thesis using b assms(2) [of "b mod 8" "c mod 8" "bitmap ! (b div 8)"] eq [OF True] by (auto simp: used_def)
  next
    case False
    then show ?thesis by (auto simp: used_def)
  qed
  moreover have "change_bit f bitmap b = Some ?m" using b by (simp add: change_bit_def bit_place_div)
  ultimately show ?thesis by simp
qed

lemma set_bit_used:
  assumes "b < 8 * length bitmap"
  shows "\<exists>m. set_bit_at bitmap b = Some m \<and> length m = length bitmap \<and>
    (\<forall>c<8 * length bitmap. used m c = (if c = b then True else used bitmap c))"
proof -
  have f: "bit (x OR push_bit k 1) j = (if j = k then True else bit x j)" if "k < 8" "j < 8" for k j and x :: u8
    using that by (auto simp: bit_or_iff bit_exp_iff possible_bit_def)
  show ?thesis unfolding set_bit_at_def by (rule change_bit_used [OF assms f])
qed

lemma clear_bit_used:
  assumes "b < 8 * length bitmap"
  shows "\<exists>m. clear_bit bitmap b = Some m \<and> length m = length bitmap \<and>
    (\<forall>c<8 * length bitmap. used m c = (if c = b then False else used bitmap c))"
proof -
  have f: "bit (x AND NOT (push_bit k 1)) j = (if j = k then False else bit x j)" if "k < 8" "j < 8" for k j and x :: u8
    using that by (auto simp: bit_and_iff bit_not_iff bit_exp_iff possible_bit_def)
  show ?thesis unfolding clear_bit_def by (rule change_bit_used [OF assms f])
qed

lemma set_bits_used:
  "loc + n \<le> 8 * length bitmap \<Longrightarrow> 8 * length bitmap < 2 ^ 32 \<Longrightarrow>
   \<exists>bitmap'. set_bits bitmap loc n = Some bitmap' \<and> length bitmap' = length bitmap \<and>
     (\<forall>c<8 * length bitmap. used bitmap' c = ((loc \<le> c \<and> c < loc + n) \<or> used bitmap c))"
proof (induction n arbitrary: loc bitmap)
  case 0
  then show ?case by auto
next
  case (Suc n)
  have "loc < 8 * length bitmap" using Suc.prems(1) by simp
  then obtain m where m: "set_bit_at bitmap loc = Some m" "length m = length bitmap"
    "\<And>c. c < 8 * length bitmap \<Longrightarrow> used m c = (if c = loc then True else used bitmap c)"
    using set_bit_used by blast
  have w: "wrap32 (loc + 1) = loc + 1" using Suc.prems by (simp add: wrap32_def)
  obtain m' where m': "set_bits m (loc + 1) n = Some m'" "length m' = length bitmap"
    "\<And>c. c < 8 * length bitmap \<Longrightarrow> used m' c = ((loc + 1 \<le> c \<and> c < loc + 1 + n) \<or> used m c)"
    using Suc.IH [of "loc + 1" m] Suc.prems m(2) by auto
  have "used m' c = ((loc \<le> c \<and> c < loc + Suc n) \<or> used bitmap c)" if "c < 8 * length bitmap" for c
    using m'(3) [OF that] m(3) [OF that] by auto
  then show ?case using m(1) m'(1,2) w by simp
qed

text \<open>The search in one bitmap block that holds the whole group.\<close>

lemma extend_free:
  assumes "bits \<le> 8 * length bitmap" and "8 * length bitmap < 2 ^ 32" and "bits \<le> per_block" and "loc + len \<le> bits"
    and "all_free bitmap loc len" and "len \<le> maximum"
  shows "\<exists>len'. extend bitmap maximum bits per_block 0 loc len = Some len' \<and> len \<le> len' \<and> len' \<le> maximum \<and>
    loc + len' \<le> bits \<and> all_free bitmap loc len' \<and>
    (\<forall>n\<le>maximum. loc + n \<le> bits \<longrightarrow> all_free bitmap loc n \<longrightarrow> n \<le> len')"
  using assms(4-6)
proof (induction "maximum - len" arbitrary: len rule: less_induct)
  case less
  have w: "wrap32 (loc + len) = loc + len" using less.prems(1) assms(1,2) by (simp add: wrap32_def)
  show ?case
  proof (cases "len < maximum \<and> loc + len < bits")
    case False
    then have "extend bitmap maximum bits per_block 0 loc len = Some len" by (subst extend.simps) (auto simp: w)
    then show ?thesis using less.prems False by (intro exI [of _ len]) auto
  next
    case True
    have b: "bit_set bitmap (loc + len) = Some (used bitmap (loc + len))" using True assms(1) by (intro bit_set_used) simp
    have idx: "(loc + len) div per_block = 0" using True assms(3) by simp
    show ?thesis
    proof (cases "used bitmap (loc + len)")
      case u: True
      then have e: "extend bitmap maximum bits per_block 0 loc len = Some len"
        using True idx b by (subst extend.simps) (simp add: w)
      have "n \<le> len" if n: "all_free bitmap loc n" for n
      proof (rule ccontr)
        assume "\<not> n \<le> len"
        then show False using n u unfolding all_free_def by simp
      qed
      then show ?thesis using less.prems e by (intro exI [of _ len]) simp
    next
      case free: False
      have e: "extend bitmap maximum bits per_block 0 loc len = extend bitmap maximum bits per_block 0 loc (len + 1)"
        using True idx b free by (subst extend.simps) (simp add: w)
      have all: "all_free bitmap loc (len + 1)"
        using less.prems(2) free by (auto simp: all_free_def less_Suc_eq)
      have "maximum - (len + 1) < maximum - len" using True by linarith
      from less.hyps [OF this _ all] True show ?thesis unfolding e by (auto dest: Suc_leD)
    qed
  qed
qed

definition scan_spec :: "u8 list \<Rightarrow> nat \<Rightarrow> nat \<Rightarrow> nat \<Rightarrow> nat \<Rightarrow> (nat \<times> nat) option option \<Rightarrow> bool" where
  "scan_spec bitmap maximum minimum bits b res \<longleftrightarrow>
     (case res of
        None \<Rightarrow> False
      | Some None \<Rightarrow> \<forall>loc\<ge>b. loc + minimum \<le> bits \<longrightarrow> \<not> all_free bitmap loc minimum
      | Some (Some (loc, len)) \<Rightarrow> minimum \<le> len \<and> len \<le> maximum \<and> loc + len \<le> bits \<and> all_free bitmap loc len)"

lemma scan_spec_later:
  assumes "scan_spec bitmap maximum minimum bits (b + 1) res" and "b + minimum \<le> bits \<Longrightarrow> \<not> all_free bitmap b minimum"
  shows "scan_spec bitmap maximum minimum bits b res"
proof (cases "res = Some None")
  case True
  have "\<not> all_free bitmap loc minimum" if "b \<le> loc" "loc + minimum \<le> bits" for loc
    using that assms True by (cases "loc = b") (auto simp: scan_spec_def)
  then show ?thesis using True by (simp add: scan_spec_def)
next
  case False
  then show ?thesis using assms(1) by (auto simp: scan_spec_def split: option.splits)
qed

lemma scan_bits_spec:
  assumes "bits \<le> per_block" and "per_block \<le> 8 * length bitmap" and "8 * length bitmap < 2 ^ 32"
    and "1 \<le> minimum" and "minimum \<le> maximum" and "b + n = per_block"
  shows "scan_spec bitmap maximum minimum bits b (scan_bits bitmap maximum minimum bits per_block 0 b n)"
  using assms(6)
proof (induction n arbitrary: b)
  case 0
  then show ?case using assms(1,4) by (auto simp: scan_spec_def)
next
  case (Suc n)
  let ?go = "scan_bits bitmap maximum minimum bits per_block 0 (b + 1) n"
  have w: "wrap32 (wrap32 0 + b) = b" using Suc.prems assms(2,3) by (simp add: wrap32_def)
  have IH: "scan_spec bitmap maximum minimum bits (b + 1) ?go" by (rule Suc.IH) (use Suc.prems in simp)
  have bit: "bit_set bitmap b = Some (used bitmap b)" using Suc.prems assms(2) by (intro bit_set_used) simp
  consider "b \<ge> bits" | "b < bits" "used bitmap b" | "b < bits" "\<not> used bitmap b" by linarith
  then show ?case
  proof cases
    case 1
    then show ?thesis using assms(4) by (simp add: w Let_def scan_spec_def)
  next
    case 2
    have "\<not> all_free bitmap b minimum" using 2(2) assms(4) by (auto simp: all_free_def intro!: exI [of _ b])
    then have "scan_spec bitmap maximum minimum bits b ?go" by (intro scan_spec_later [OF IH])
    then show ?thesis using 2 bit by (simp add: w Let_def)
  next
    case 3
    have one: "all_free bitmap b 1" using 3(2) by (auto simp: all_free_def le_Suc_eq less_Suc_eq)
    obtain len where len: "extend bitmap maximum bits per_block 0 b 1 = Some len" "len \<le> maximum" "b + len \<le> bits"
      "all_free bitmap b len" "\<forall>n\<le>maximum. b + n \<le> bits \<longrightarrow> all_free bitmap b n \<longrightarrow> n \<le> len"
      using extend_free [of bits bitmap per_block b 1 maximum] one assms 3(1) by auto
    have "scan_spec bitmap maximum minimum bits b (if len < minimum then ?go else Some (Some (b, len)))"
      using scan_spec_later [OF IH] len assms(5) by (auto simp: scan_spec_def not_less [symmetric])
    then show ?thesis using 3 bit len(1) by (simp add: w Let_def)
  qed
qed

section \<open>A bitmap block and the transaction\<close>

lemma map_of_replace_entry:
  "map_of (replace_entry block bytes es) = (if block \<in> fst ` set es then (map_of es)(block \<mapsto> bytes) else map_of es)"
  by (induction es) (auto simp: fun_eq_iff)

lemma set_replace_entry: "e \<in> set (replace_entry block bytes es) \<Longrightarrow> e \<in> set es \<or> e = (block, bytes)"
  by (induction es) (auto split: if_splits)

lemma view_geom:
  assumes "same_geom v v'"
  shows "view jo v = view jo v'"
  unfolding view_def [abs_def] same_geom_eq(5) [OF assms] by (rule refl)

lemma same_clear: "same_geom (clear_cache v) v"
  by (simp add: same_geom_def clear_cache_def)

lemma journal_log_done:
  assumes "journal_log j block bytes = (j', True)"
  shows "map_of (j_entries j') = (map_of (j_entries j))(block \<mapsto> bytes)" "j_active j'"
    "e \<in> set (j_entries j') \<Longrightarrow> e \<in> set (j_entries j) \<or> e = (block, bytes)"
proof -
  have a: "j_active j" using assms by (auto simp: journal_log_def split: if_splits)
  have *: "map_of (j_entries j') = (map_of (j_entries j))(block \<mapsto> bytes) \<and> j_active j' \<and>
      (e \<in> set (j_entries j') \<longrightarrow> e \<in> set (j_entries j) \<or> e = (block, bytes))"
  proof (cases "block \<in> fst ` set (j_entries j)")
    case True
    then have j': "j' = j\<lparr>j_entries := replace_entry block bytes (j_entries j)\<rparr>" using assms a by (simp add: journal_log_def)
    show ?thesis using True a set_replace_entry [of e block bytes "j_entries j"] unfolding j' by (simp add: map_of_replace_entry)
  next
    case False
    then have j': "j' = j\<lparr>j_entries := j_entries j @ [(block, bytes)]\<rparr>"
      using assms a by (auto simp: journal_log_def split: if_splits)
    have "map_of (j_entries j) block = None" using False by (simp add: map_of_eq_None_iff)
    then show ?thesis unfolding j' using a by (auto simp: map_add_def fun_eq_iff split: option.splits)
  qed
  show "map_of (j_entries j') = (map_of (j_entries j))(block \<mapsto> bytes)" "j_active j'"
    "e \<in> set (j_entries j') \<Longrightarrow> e \<in> set (j_entries j) \<or> e = (block, bytes)"
    using * by blast+
qed

definition journal_full :: "journal \<Rightarrow> nat \<Rightarrow> bool" where
  "journal_full j block \<longleftrightarrow> length (j_entries j) \<ge> kMaxJournalBlocks \<and> peek j block = None"

text \<open>A block logged in the open transaction: refused only by a full journal, else what readers see from then on.\<close>

lemma write_block_logged:
  assumes "settled (Some j) (v, d)" and "j_active j" and "length bytes = vol_block_size v"
  shows "\<exists>j' ok. write_block v (Some j) d block bytes = (clear_cache v, Some j', d, ok) \<and>
    (\<not> ok \<longrightarrow> journal_full j block) \<and>
    (ok \<longrightarrow> j_active j' \<and> peek j' block \<noteq> None \<and> settled (Some j') (clear_cache v, d) \<and>
       view (Some j') (clear_cache v) d = (view (Some j) v d)(block := bytes))"
proof -
  obtain j' ok where l: "journal_log j block bytes = (j', ok)" by fastforce
  have w: "write_block v (Some j) d block bytes = (clear_cache v, Some j', d, ok)"
    using l assms(2) by (simp add: write_block_def Let_def)
  have full: "journal_full j block" if "\<not> ok"
    using l that assms(2) by (auto simp: journal_log_def journal_full_def peek_def map_of_eq_None_iff split: if_splits)
  have good: "j_active j' \<and> peek j' block \<noteq> None \<and> settled (Some j') (clear_cache v, d) \<and>
      view (Some j') (clear_cache v) d = (view (Some j) v d)(block := bytes)" if "ok"
  proof -
    note e = journal_log_done [OF l [unfolded eqTrueI [OF that]]]
    have "view (Some j') (clear_cache v) d = (view (Some j) v d)(block := bytes)"
      unfolding view_geom [OF same_clear] by (auto simp: view_def peek_def e(1) fun_eq_iff)
    moreover have "settled (Some j') (clear_cache v, d)"
    proof -
      have "journal_ok v (Some j')" using assms e(2,3) by (fastforce simp: settled_def journal_ok_def)
      then show ?thesis using assms(1)
        by (simp add: settled_def journal_ok_def cache_ok_def) (simp add: clear_cache_def)
    qed
    ultimately show ?thesis using e(1,2) by (simp add: peek_def)
  qed
  show ?thesis using w full good by blast
qed

definition alloc_ready :: "allocator \<Rightarrow> volume \<Rightarrow> journal \<Rightarrow> device \<Rightarrow> bool" where
  "alloc_ready a v j d \<longleftrightarrow>
     al_bound a \<and> al_block_size a = vol_block_size v \<and> al_blocks_per_ag a = 1 \<and> al_ag_shift a = v_ag_shift v \<and>
     length (al_bitmap a) = kMaxBlockSize \<and> vol_block_size v \<le> kMaxBlockSize \<and>
     2 ^ v_ag_shift v \<le> 8 * vol_block_size v \<and> v_num_ags v < v_num_blocks v \<and> v_num_ags v < 2 ^ 32 \<and>
     settled (Some j) (v, d) \<and> j_active j"

definition in_use :: "journal option \<Rightarrow> volume \<Rightarrow> device \<Rightarrow> nat \<Rightarrow> nat \<Rightarrow> bool" where
  "in_use jo v d g b \<longleftrightarrow> used (view jo v d (1 + g)) b"

text \<open>The bitmap of group \<open>g\<close> becomes \<open>new\<close> in the transaction and nothing else changes, save the count of used blocks.\<close>

definition changed :: "volume \<Rightarrow> journal \<Rightarrow> device \<Rightarrow> nat \<Rightarrow> (nat \<Rightarrow> bool) \<Rightarrow> nat \<Rightarrow> allocator \<times> fs \<Rightarrow> bool" where
  "changed v j d g new cnt st \<longleftrightarrow>
     (case st of (a', v', jo', d') \<Rightarrow>
        (\<forall>h c. c < 8 * vol_block_size v \<longrightarrow> in_use jo' v' d' h c = (if h = g then new c else in_use (Some j) v d h c)) \<and>
        v_used_blocks v' = cnt \<and> dev_sectors d' = dev_sectors d \<and> vol_block_size v' = vol_block_size v \<and>
        v_num_ags v' = v_num_ags v \<and> (\<exists>j'. jo' = Some j' \<and> peek j' (1 + g) \<noteq> None \<and> alloc_ready a' v' j' d'))"

definition granted :: "volume \<Rightarrow> journal \<Rightarrow> device \<Rightarrow> nat \<Rightarrow> nat \<Rightarrow> nat \<Rightarrow> allocator \<times> fs \<Rightarrow> bool" where
  "granted v j d g loc len st \<longleftrightarrow>
     changed v j d g (\<lambda>c. (loc \<le> c \<and> c < loc + len) \<or> in_use (Some j) v d g c) (wrap64 (v_used_blocks v + len)) st"

lemma used_bsplice:
  assumes "length bytes \<le> length buf" and "c < 8 * length bytes"
  shows "used (bsplice 0 bytes buf) c = used bytes c"
proof -
  have "c div 8 < length bytes" using assms(2) by (simp add: less_mult_imp_div_less mult.commute)
  then show ?thesis using assms(1) by (simp add: used_def nth_bsplice)
qed

lemma used_take: "c < 8 * n \<Longrightarrow> used (take n m) c = used m c"
  by (simp add: used_def less_mult_imp_div_less mult.commute)

lemma all_free_cong:
  "(\<And>c. loc \<le> c \<Longrightarrow> c < loc + len \<Longrightarrow> used m c = used m' c) \<Longrightarrow> all_free m loc len = all_free m' loc len"
  by (auto simp: all_free_def)

lemma group_bits_le: "alloc_ready a v j d \<Longrightarrow> group_bits v a g \<le> 8 * vol_block_size v"
  by (auto simp: group_bits_def alloc_ready_def Let_def)

lemma ready_same:
  assumes "alloc_ready a v j d" and "same_disk (v, d) (v1, d1)" and "settled (Some j) (v1, d1)" and "length m = kMaxBlockSize"
  shows "alloc_ready (a\<lparr>al_bitmap := m\<rparr>) v1 j d1"
proof -
  have "v_num_ags v1 = v_num_ags v" "v_ag_shift v1 = v_ag_shift v" using assms(2) by (auto simp: same_disk_def)
  then show ?thesis
    using assms same_disk_view(2,3) [OF assms(2)] by (simp add: alloc_ready_def)
qed

text \<open>Reading the bitmap block of a group into the buffer.\<close>

lemma read_bitmap:
  assumes "alloc_ready a v j d" and "g < v_num_ags v"
  shows "\<exists>v1 d1. read_block v (Some j) d (1 + g) = (v1, d1, Some (view (Some j) v d (1 + g))) \<and>
    same_disk (v, d) (v1, d1) \<and> settled (Some j) (v1, d1)"
    "bitmap_block a g 0 = 1 + g" "1 + g < v_num_blocks v"
    "length (bsplice 0 (view (Some j) v d (1 + g)) (al_bitmap a)) = kMaxBlockSize"
    "c < 8 * vol_block_size v \<Longrightarrow>
      used (bsplice 0 (view (Some j) v d (1 + g)) (al_bitmap a)) c = used (view (Some j) v d (1 + g)) c"
proof -
  have st: "settled (Some j) (v, d)" and n: "1 + g < v_num_blocks v" and small: "g < 2 ^ 32"
    using assms by (auto simp: alloc_ready_def)
  have len: "length (view (Some j) v d (1 + g)) = vol_block_size v" by (rule length_view [OF st])
  show "1 + g < v_num_blocks v" by (rule n)
  show "bitmap_block a g 0 = 1 + g" using assms(1) small by (simp add: bitmap_block_def alloc_ready_def wrap64_def)
  show "length (bsplice 0 (view (Some j) v d (1 + g)) (al_bitmap a)) = kMaxBlockSize"
    using len assms(1) by (simp add: alloc_ready_def)
  show "used (bsplice 0 (view (Some j) v d (1 + g)) (al_bitmap a)) c = used (view (Some j) v d (1 + g)) c"
    if "c < 8 * vol_block_size v"
    using len assms(1) that by (intro used_bsplice) (auto simp: alloc_ready_def)
  show "\<exists>v1 d1. read_block v (Some j) d (1 + g) = (v1, d1, Some (view (Some j) v d (1 + g))) \<and>
      same_disk (v, d) (v1, d1) \<and> settled (Some j) (v1, d1)"
    using reads_block [OF st n] by (auto simp: reads_def rd_block_def case_prod_beta prod_eq_iff split: prod.splits)
qed

text \<open>A changed bitmap written back to the transaction, and the count after it.\<close>

lemma write_bitmap:
  assumes "alloc_ready a v j d" and "same_disk (v, d) (v1, d1)" and "settled (Some j) (v1, d1)"
    and "length m = kMaxBlockSize" and "\<And>c. c < 8 * vol_block_size v \<Longrightarrow> used m c = new c"
  shows "\<exists>v2 j2 ok. write_block v1 (Some j) d1 (1 + g) (take (vol_block_size v) m) = (v2, Some j2, d1, ok) \<and>
    v_used_blocks v2 = v_used_blocks v \<and> (\<not> ok \<longrightarrow> journal_full j (1 + g)) \<and>
    (ok \<longrightarrow> journal_active (Some j2) \<and> changed v j d g new (v_used_blocks v) (a\<lparr>al_bitmap := m\<rparr>, v2, Some j2, d1))"
proof -
  let ?bytes = "take (vol_block_size v) m" and ?a = "a\<lparr>al_bitmap := m\<rparr>" and ?v = "clear_cache v1"
  note r1 = ready_same [OF assms(1-4)]
  have sz: "length ?bytes = vol_block_size v1" "vol_block_size v1 = vol_block_size v"
    using assms(1,4) same_disk_view(3) [OF assms(2)] by (auto simp: alloc_ready_def)
  have v1: "v_used_blocks v1 = v_used_blocks v" "dev_sectors d1 = dev_sectors d" "v_num_ags v1 = v_num_ags v"
    using assms(2) by (auto simp: same_disk_def)
  obtain j2 ok where w: "write_block v1 (Some j) d1 (1 + g) ?bytes = (?v, Some j2, d1, ok)"
    and full: "\<not> ok \<Longrightarrow> journal_full j (1 + g)"
    and good: "ok \<Longrightarrow> j_active j2 \<and> peek j2 (1 + g) \<noteq> None \<and> settled (Some j2) (?v, d1) \<and>
       view (Some j2) ?v d1 = (view (Some j) v1 d1)(1 + g := ?bytes)"
    using write_block_logged [OF assms(3) _ sz(1), of "1 + g"] r1 by (auto simp: alloc_ready_def)
  have fields: "v_num_ags ?v = v_num_ags v1" "v_ag_shift ?v = v_ag_shift v1" "v_num_blocks ?v = v_num_blocks v1"
    "vol_block_size ?v = vol_block_size v1" "v_used_blocks ?v = v_used_blocks v1"
    by (simp_all add: clear_cache_def vol_block_size_def)
  have "changed v j d g new (v_used_blocks v) (?a, ?v, Some j2, d1)" if ok
  proof -
    note k = good [OF that]
    have view: "view (Some j2) ?v d1 = (view (Some j) v d)(1 + g := ?bytes)"
      using k same_disk_view(1) [OF assms(2), of "Some j"] by simp
    have "in_use (Some j2) ?v d1 h c = (if h = g then new c else in_use (Some j) v d h c)"
      if "c < 8 * vol_block_size v" for h c
      using assms(5) [OF that] used_take [OF that, of m] unfolding in_use_def view by auto
    moreover have "alloc_ready ?a ?v j2 d1" using r1 k fields by (simp add: alloc_ready_def)
    ultimately show ?thesis using k v1 sz(2) fields by (auto simp: changed_def)
  qed
  then show ?thesis using w full good fields(5) v1(1) by (auto simp: journal_active_def)
qed

lemma changed_count:
  assumes "changed v j d g new cnt (a', v', Some j', d')"
  shows "changed v j d g new n (a', set_used_blocks n v', Some j', d')"
proof -
  let ?v = "set_used_blocks n v'"
  have geom: "same_geom ?v v'" by (simp add: same_geom_def set_used_blocks_def)
  have fields: "v_num_ags ?v = v_num_ags v'" "v_ag_shift ?v = v_ag_shift v'" "v_num_blocks ?v = v_num_blocks v'"
    "v_used_blocks ?v = n" "v_cache ?v = v_cache v'"
    by (simp_all add: set_used_blocks_def)
  note eq = same_geom_eq [OF geom]
  have "settled (Some j') (?v, d') = settled (Some j') (v', d')"
    using eq(1,3,5) fields by (simp add: settled_def journal_ok_def cache_ok_def)
  then have "alloc_ready a' ?v j' d' = alloc_ready a' v' j' d'" using eq(1) fields by (simp add: alloc_ready_def)
  then show ?thesis
    using assms eq(1) fields view_geom [OF geom] by (auto simp: changed_def in_use_def)
qed

lemma try_block_cases:
  assumes "alloc_ready a v j d" and "g < v_num_ags v" and "1 \<le> minimum" and "minimum \<le> maximum" and "maximum \<le> kMaxRun"
  obtains
    (none) a1 v1 d1 where "try_block maximum minimum g 0 (a, v, Some j, d) = ((a1, v1, Some j, d1), None)"
      "same_disk (v, d) (v1, d1)" "alloc_ready a1 v1 j d1" "al_ag_shift a1 = al_ag_shift a"
      "\<And>loc. loc + minimum \<le> group_bits v a g \<Longrightarrow> \<not> all_free (view (Some j) v d (1 + g)) loc minimum"
  | (full) st where "try_block maximum minimum g 0 (a, v, Some j, d) = (st, Some NoRun)" "journal_full j (1 + g)"
  | (given) st loc len where
      "try_block maximum minimum g 0 (a, v, Some j, d) = (st, Some (Given (run_make (of_nat g) (of_nat loc) (of_nat len))))"
      "granted v j d g loc len st" "minimum \<le> len" "len \<le> maximum" "loc + len \<le> group_bits v a g"
      "all_free (view (Some j) v d (1 + g)) loc len"
proof -
  let ?bits = "group_bits v a g" and ?w = "view (Some j) v d (1 + g)"
  define m where "m = bsplice 0 ?w (al_bitmap a)"
  note r = read_bitmap [OF assms(1,2), folded m_def]
  obtain v1 d1 where rd: "read_block v (Some j) d (1 + g) = (v1, d1, Some ?w)" "same_disk (v, d) (v1, d1)"
    "settled (Some j) (v1, d1)" using r(1) by blast
  have per: "bits_per_block a = 8 * vol_block_size v" "?bits \<le> 8 * vol_block_size v" "8 * vol_block_size v \<le> 8 * length m"
    using assms(1) group_bits_le [OF assms(1), of g] r(4) by (auto simp: bits_per_block_def alloc_ready_def)
  have free: "all_free m loc len = all_free ?w loc len" if "loc + len \<le> ?bits" for loc len
    by (rule all_free_cong) (use that per(2) r(5) in auto)
  let ?scan = "scan_bits m maximum minimum ?bits (bits_per_block a) 0 0 (bits_per_block a)"
  have spec: "scan_spec m maximum minimum ?bits 0 ?scan"
    by (rule scan_bits_spec) (use per r(4) assms in \<open>auto simp: kMaxBlockSize_def\<close>)
  note step = try_block_def [of maximum minimum g 0 "(a, v, Some j, d)", unfolded prod.case Let_def r(2) rd(1) option.case]
  have at: "(v_num_blocks v \<le> 1 + g) = False" using r(3) by simp
  show ?thesis
  proof (cases ?scan)
    case None
    then show ?thesis using spec by (simp add: scan_spec_def)
  next
    case (Some found)
    show ?thesis
    proof (cases found)
      case None
      have "try_block maximum minimum g 0 (a, v, Some j, d) = ((a\<lparr>al_bitmap := m\<rparr>, v1, Some j, d1), None)"
        unfolding step at if_False m_def [symmetric] Some None option.case by (rule refl)
      then show ?thesis
        by (rule none [OF _ rd(2) ready_same [OF assms(1) rd(2,3) r(4)]])
          (use spec Some None free in \<open>auto simp: scan_spec_def\<close>)
    next
      case (Some p)
      obtain loc len where p: "p = (loc, len)" by fastforce
      have s: "minimum \<le> len" "len \<le> maximum" "loc + len \<le> ?bits" "all_free m loc len"
        using spec \<open>?scan = Some found\<close> Some p by (auto simp: scan_spec_def)
      have "loc + len \<le> 8 * length m" "8 * length m < 2 ^ 32" using s(3) per r(4) by (simp_all add: kMaxBlockSize_def)
      then obtain m' where m': "set_bits m loc len = Some m'" "length m' = kMaxBlockSize"
        "\<forall>c<8 * length m. used m' c = ((loc \<le> c \<and> c < loc + len) \<or> used m c)"
        using set_bits_used [of loc len m] r(4) by auto
      have "used m' c = ((loc \<le> c \<and> c < loc + len) \<or> in_use (Some j) v d g c)" if "c < 8 * vol_block_size v" for c
        using m'(3) r(5) [OF that] per(3) that by (auto simp: in_use_def)
      from write_bitmap [OF assms(1) rd(2,3) m'(2) this]
      obtain v2 j2 ok where w: "write_block v1 (Some j) d1 (1 + g) (take (vol_block_size v) m') = (v2, Some j2, d1, ok)"
        "v_used_blocks v2 = v_used_blocks v" "\<not> ok \<Longrightarrow> journal_full j (1 + g)"
        "ok \<Longrightarrow> journal_active (Some j2) \<and> changed v j d g (\<lambda>c. (loc \<le> c \<and> c < loc + len) \<or> in_use (Some j) v d g c)
          (v_used_blocks v) (a\<lparr>al_bitmap := m'\<rparr>, v2, Some j2, d1)"
        by blast
      note run = step [unfolded at if_False m_def [symmetric] \<open>?scan = Some found\<close> Some p option.case prod.case m'(1) w(1)]
      show ?thesis
      proof (cases ok)
        case True
        then have "granted v j d g loc len
            (a\<lparr>al_bitmap := m'\<rparr>, set_used_blocks (wrap64 (v_used_blocks v2 + len)) v2, Some j2, d1)"
          using changed_count [OF conjunct2 [OF w(4)]] w(2) by (simp add: granted_def)
        then show ?thesis
          using w(4) run s free [OF s(3)] True by (intro given [of _ loc len]) (auto simp: flush_superblock_def)
      next
        case False
        then show ?thesis using w(3) run by (intro full) auto
      qed
    qed
  qed
qed

section \<open>First fit over the groups\<close>

text \<open>What a search over the groups \<open>gs\<close> comes to.\<close>

definition alloc_outcome ::
  "allocator \<Rightarrow> volume \<Rightarrow> journal \<Rightarrow> device \<Rightarrow> nat \<Rightarrow> nat \<Rightarrow> nat list \<Rightarrow> (allocator \<times> fs) \<times> alloc_result \<Rightarrow> bool" where
  "alloc_outcome a v j d maximum minimum gs out \<longleftrightarrow>
     (case out of (st, res) \<Rightarrow>
        (case res of
           Given r \<Rightarrow> \<exists>g loc len. g \<in> set gs \<and> r = run_make (of_nat g) (of_nat loc) (of_nat len) \<and>
             minimum \<le> len \<and> len \<le> maximum \<and> loc + len \<le> group_bits v a g \<and>
             all_free (view (Some j) v d (1 + g)) loc len \<and> granted v j d g loc len st
         | NoRun \<Rightarrow> (\<exists>g\<in>set gs. journal_full j (1 + g)) \<or>
             (\<forall>g\<in>set gs. \<forall>loc. loc + minimum \<le> group_bits v a g \<longrightarrow>
                \<not> all_free (view (Some j) v d (1 + g)) loc minimum)
         | OutOfBuffer \<Rightarrow> False))"

lemma granted_same:
  assumes "same_disk (v, d) (v1, d1)"
  shows "granted v1 j d1 g loc len st = granted v j d g loc len st"
proof -
  have "in_use (Some j) v1 d1 = in_use (Some j) v d" "vol_block_size v1 = vol_block_size v"
    using same_disk_view(1,3) [OF assms] by (simp_all add: in_use_def fun_eq_iff)
  moreover have "v_used_blocks v1 = v_used_blocks v" "dev_sectors d1 = dev_sectors d" "v_num_ags v1 = v_num_ags v"
    using assms by (auto simp: same_disk_def)
  ultimately show ?thesis unfolding granted_def changed_def by simp
qed

lemma try_blocks_outcome:
  assumes "alloc_ready a v j d" and "\<forall>g\<in>set gs. g < v_num_ags v" and "1 \<le> minimum" and "minimum \<le> maximum" and "maximum \<le> kMaxRun"
  shows "alloc_outcome a v j d maximum minimum gs (try_blocks maximum minimum (map (\<lambda>g. (g, 0)) gs) (a, v, Some j, d))"
  using assms(1,2)
proof (induction gs arbitrary: a v d)
  case Nil
  then show ?case by (simp add: alloc_outcome_def)
next
  case (Cons g gs)
  have g: "g < v_num_ags v" using Cons.prems(2) by simp
  show ?case
  proof (cases rule: try_block_cases [OF Cons.prems(1) g assms(3-5), case_names none full given])
    case (none a1 v1 d1)
    have eq: "v_num_ags v1 = v_num_ags v" "group_bits v1 a1 = group_bits v a" "view (Some j) v1 d1 = view (Some j) v d"
      using none(2,4) same_disk_view(1,2) [OF none(2)] by (auto simp: group_bits_def fun_eq_iff same_disk_def)
    have "alloc_outcome a1 v1 j d1 maximum minimum gs (try_blocks maximum minimum (map (\<lambda>g. (g, 0)) gs) (a1, v1, Some j, d1))"
      by (rule Cons.IH [OF none(3)]) (use Cons.prems(2) eq(1) in simp)
    then have "alloc_outcome a v j d maximum minimum gs (try_blocks maximum minimum (map (\<lambda>g. (g, 0)) gs) (a1, v1, Some j, d1))"
      unfolding alloc_outcome_def eq granted_same [OF none(2)] .
    then show ?thesis
      using none(1,5) by (auto simp: alloc_outcome_def split: prod.splits alloc_result.splits)
  next
    case (full st)
    then show ?thesis by (simp add: alloc_outcome_def)
  next
    case (given st loc len)
    then show ?thesis by (auto simp: alloc_outcome_def)
  qed
qed

lemma group_bits_later:
  assumes "alloc_ready a v j d" and "v_ag_shift v \<le> 30" and "group_bits v a g = 0" and "g \<le> h" and "h < v_num_ags v"
  shows "group_bits v a h = 0"
proof -
  have small: "x * 2 ^ v_ag_shift v < 2 ^ 64" if "x < 2 ^ 32" for x :: nat
  proof -
    have "x * 2 ^ v_ag_shift v < 2 ^ 32 * 2 ^ 32"
      using that assms(2) by (intro mult_strict_mono' power_strict_increasing) auto
    then show ?thesis by simp
  qed
  have h: "g < 2 ^ 32" "h < 2 ^ 32" "al_ag_shift a = v_ag_shift v" using assms(1,4,5) by (auto simp: alloc_ready_def)
  then have w: "wrap64 (push_bit (al_ag_shift a) x) = x * 2 ^ v_ag_shift v" if "x \<in> {g, h}" for x
    using that small by (auto simp: wrap64_def push_bit_eq_mult)
  have "v_num_blocks v \<le> g * 2 ^ v_ag_shift v"
    using assms(3) w [of g] by (auto simp: group_bits_def Let_def split: if_splits)
  also have "\<dots> \<le> h * 2 ^ v_ag_shift v" using assms(4) by (rule mult_le_mono1)
  finally show ?thesis using w [of h] by (simp add: group_bits_def)
qed

lemma bitmap_order_one:
  "al_blocks_per_ag a = 1 \<Longrightarrow>
   bitmap_order v a = map (\<lambda>g. (g, 0)) (takeWhile (\<lambda>g. group_bits v a g \<noteq> 0) [0..<v_num_ags v])"
  by (simp add: bitmap_order_def concat_map_singleton)

lemma allocate_outcome:
  assumes "alloc_ready a v j d" and "v_ag_shift v \<le> 30" and "1 \<le> least" and "1 \<le> most"
  shows "alloc_outcome a v j d (min most kMaxRun) (min least (min most kMaxRun)) [0..<v_num_ags v]
    (allocate most least (a, v, Some j, d))"
proof -
  let ?max = "min most kMaxRun"
  let ?min = "min least ?max" and ?gs = "takeWhile (\<lambda>g. group_bits v a g \<noteq> 0) [0..<v_num_ags v]"
  have b: "al_bound a" "al_blocks_per_ag a = 1" using assms(1) by (auto simp: alloc_ready_def)
  have m: "1 \<le> ?min" "?min \<le> ?max" "?max \<le> kMaxRun" using assms(3,4) by (auto simp: kMaxRun_def)
  have gs: "\<forall>g\<in>set ?gs. g < v_num_ags v" by (auto dest: set_takeWhileD)
  have run: "allocate most least (a, v, Some j, d) = try_blocks ?max ?min (map (\<lambda>g. (g, 0)) ?gs) (a, v, Some j, d)"
    using b assms(3,4) by (simp add: allocate_def Let_def bitmap_order_one)
  have rest: "group_bits v a h = 0" if h: "h < v_num_ags v" "h \<notin> set ?gs" for h
  proof -
    have "\<exists>g\<le>h. group_bits v a g = 0"
    proof (rule ccontr)
      assume "\<not> (\<exists>g\<le>h. group_bits v a g = 0)"
      then have "takeWhile (\<lambda>g. group_bits v a g \<noteq> 0) ([0..<Suc h] @ [Suc h..<v_num_ags v]) =
          [0..<Suc h] @ takeWhile (\<lambda>g. group_bits v a g \<noteq> 0) [Suc h..<v_num_ags v]"
        by (intro takeWhile_append2) auto
      moreover have "[0..<v_num_ags v] = [0..<Suc h] @ [Suc h..<v_num_ags v]"
        using h(1) upt_add_eq_append [of 0 "Suc h" "v_num_ags v - Suc h"] by simp
      ultimately show False using h(2) by (metis UnCI atLeastLessThan_iff lessI set_append set_upt zero_le)
    qed
    then show ?thesis using group_bits_later [OF assms(1,2) _ _ h(1)] by blast
  qed
  have "alloc_outcome a v j d ?max ?min ?gs (allocate most least (a, v, Some j, d))"
    unfolding run by (rule try_blocks_outcome [OF assms(1) gs m])
  moreover have "\<not> loc + ?min \<le> group_bits v a h" if "h < v_num_ags v" "h \<notin> set ?gs" for h loc
    using rest [OF that] m(1) by simp
  ultimately show ?thesis
    using gs unfolding alloc_outcome_def
    by (auto simp: case_prod_beta split: alloc_result.splits)
qed


section \<open>Freeing a run\<close>

lemma alloc_readyD:
  "alloc_ready a v j d \<Longrightarrow> al_bound a \<and> bits_per_block a = 8 * vol_block_size v \<and> journal_active (Some j)"
  by (simp add: alloc_ready_def bits_per_block_def journal_active_def)

lemma changed_trans:
  assumes "changed v j d g new n (a1, v1, Some j1, d1)" and "changed v1 j1 d1 g new' n' st"
  shows "changed v j d g new' n' st"
  using assms by (auto simp: changed_def split: prod.splits)

lemma free_step:
  assumes "alloc_ready a v j d" and "g < v_num_ags v" and "loc < 8 * vol_block_size v"
  shows "\<exists>a1 v1 j1 d1 ok. free_blocks_from g loc (Suc n) (a, v, Some j, d) =
      (if ok then free_blocks_from g (loc + 1) n (a1, v1, Some j1, d1) else ((a1, v1, Some j1, d1), False)) \<and>
    (\<not> ok \<longrightarrow> journal_full j (1 + g)) \<and>
    (ok \<longrightarrow> changed v j d g (\<lambda>c. c \<noteq> loc \<and> in_use (Some j) v d g c) (v_used_blocks v) (a1, v1, Some j1, d1))"
proof -
  let ?w = "view (Some j) v d (1 + g)"
  define m where "m = bsplice 0 ?w (al_bitmap a)"
  note r = read_bitmap [OF assms(1,2), folded m_def]
  obtain v1 d1 where rd: "read_block v (Some j) d (1 + g) = (v1, d1, Some ?w)" "same_disk (v, d) (v1, d1)"
    "settled (Some j) (v1, d1)" using r(1) by blast
  have per: "bits_per_block a = 8 * vol_block_size v" "8 * vol_block_size v \<le> 8 * length m"
    using assms(1) r(4) by (auto simp: bits_per_block_def alloc_ready_def)
  have "loc < 8 * length m" using assms(3) per(2) by linarith
  then obtain m' where m': "clear_bit m loc = Some m'" "length m' = kMaxBlockSize"
    "\<forall>c<8 * length m. used m' c = (if c = loc then False else used m c)"
    using clear_bit_used [of loc m] r(4) by auto
  have "used m' c = (c \<noteq> loc \<and> in_use (Some j) v d g c)" if "c < 8 * vol_block_size v" for c
    using m'(3) r(5) [OF that] per(2) that by (auto simp: in_use_def)
  from write_bitmap [OF assms(1) rd(2,3) m'(2) this]
  obtain v2 j2 ok where w: "write_block v1 (Some j) d1 (1 + g) (take (vol_block_size v) m') = (v2, Some j2, d1, ok)"
    "\<not> ok \<Longrightarrow> journal_full j (1 + g)"
    "ok \<Longrightarrow> changed v j d g (\<lambda>c. c \<noteq> loc \<and> in_use (Some j) v d g c) (v_used_blocks v) (a\<lparr>al_bitmap := m'\<rparr>, v2, Some j2, d1)"
    by blast
  have "free_blocks_from g loc (Suc n) (a, v, Some j, d) =
      (if ok then free_blocks_from g (loc + 1) n (a\<lparr>al_bitmap := m'\<rparr>, v2, Some j2, d1)
       else ((a\<lparr>al_bitmap := m'\<rparr>, v2, Some j2, d1), False))"
    using assms(3) r(2,3) rd(1) m'(1) w(1) by (simp add: per(1) Let_def m_def)
  then show ?thesis using w(2,3) by blast
qed

declare free_blocks_from.simps(2) [simp del]

lemma free_blocks_changed:
  assumes "alloc_ready a v j d" and "g < v_num_ags v" and "loc + n \<le> 8 * vol_block_size v"
  shows "\<exists>st ok. free_blocks_from g loc n (a, v, Some j, d) = (st, ok) \<and> (\<not> ok \<longrightarrow> journal_full j (1 + g)) \<and>
    (ok \<longrightarrow> n = 0 \<and> st = (a, v, Some j, d) \<or>
      changed v j d g (\<lambda>c. \<not> (loc \<le> c \<and> c < loc + n) \<and> in_use (Some j) v d g c) (v_used_blocks v) st)"
  using assms
proof (induction n arbitrary: loc a v j d)
  case 0
  then show ?case by (intro exI [of _ "(a, v, Some j, d)"] exI [of _ True]) simp
next
  case (Suc n)
  have "loc < 8 * vol_block_size v" using Suc.prems(3) by simp
  from free_step [OF Suc.prems(1,2) this, of n]
  obtain a1 v1 j1 d1 ok1 where s: "free_blocks_from g loc (Suc n) (a, v, Some j, d) =
      (if ok1 then free_blocks_from g (loc + 1) n (a1, v1, Some j1, d1) else ((a1, v1, Some j1, d1), False))"
    "\<not> ok1 \<Longrightarrow> journal_full j (1 + g)"
    "ok1 \<Longrightarrow> changed v j d g (\<lambda>c. c \<noteq> loc \<and> in_use (Some j) v d g c) (v_used_blocks v) (a1, v1, Some j1, d1)"
    by blast
  show ?case
  proof (cases ok1)
    case False
    then show ?thesis using s by (intro exI [of _ "(a1, v1, Some j1, d1)"] exI [of _ False]) simp
  next
    case True
    note c = s(3) [OF True]
    have r1: "alloc_ready a1 v1 j1 d1" "\<not> journal_full j1 (1 + g)" "vol_block_size v1 = vol_block_size v"
      "v_num_ags v1 = v_num_ags v" "v_used_blocks v1 = v_used_blocks v"
      "\<And>c. c < 8 * vol_block_size v \<Longrightarrow> in_use (Some j1) v1 d1 g c = (c \<noteq> loc \<and> in_use (Some j) v d g c)"
      using c by (auto simp: changed_def journal_full_def)
    obtain st ok where f: "free_blocks_from g (loc + 1) n (a1, v1, Some j1, d1) = (st, ok)" "ok"
      "n = 0 \<and> st = (a1, v1, Some j1, d1) \<or>
        changed v1 j1 d1 g (\<lambda>c. \<not> (loc + 1 \<le> c \<and> c < loc + 1 + n) \<and> in_use (Some j1) v1 d1 g c) (v_used_blocks v1) st"
      using Suc.IH [OF r1(1), of "loc + 1"] Suc.prems(2,3) r1(2-4) by auto
    have eq: "(\<not> (loc + 1 \<le> c \<and> c < loc + 1 + n) \<and> c \<noteq> loc \<and> u) = (\<not> (loc \<le> c \<and> c < loc + Suc n) \<and> u)" for c u
      by auto
    have "changed v j d g (\<lambda>c. \<not> (loc \<le> c \<and> c < loc + Suc n) \<and> in_use (Some j) v d g c) (v_used_blocks v) st"
      using f(3)
    proof
      assume "n = 0 \<and> st = (a1, v1, Some j1, d1)"
      then show ?thesis using c by (auto simp: changed_def less_Suc_eq)
    next
      assume "changed v1 j1 d1 g (\<lambda>c. \<not> (loc + 1 \<le> c \<and> c < loc + 1 + n) \<and> in_use (Some j1) v1 d1 g c) (v_used_blocks v1) st"
      from changed_trans [OF c this] show ?thesis
        using r1(5,6) eq by (auto simp: changed_def split: prod.splits)
    qed
    then show ?thesis using s(1) f(1,2) True by (intro exI [of _ st] exI [of _ True]) simp
  qed
qed

text \<open>A run in one group of a volume, within the group's bitmap block.\<close>

definition run_in_group :: "volume \<Rightarrow> run \<Rightarrow> bool" where
  "run_in_group v r \<longleftrightarrow> unat (run_ag r) < v_num_ags v \<and> run_len r \<noteq> 0 \<and>
     unat (run_start r) + unat (run_len r) \<le> 8 * vol_block_size v"

lemma queue_discard_keeps: "\<exists>a'. queue_discard r (a, v, jo, d) = (a', v, jo, d) \<and>
    al_bound a' = al_bound a \<and> al_block_size a' = al_block_size a \<and> al_blocks_per_ag a' = al_blocks_per_ag a \<and>
    al_ag_shift a' = al_ag_shift a \<and> al_bitmap a' = al_bitmap a"
  by (auto simp: queue_discard_def flush_discards_def split: option.splits)

lemma free_run_changed:
  assumes "alloc_ready a v j d" and "run_in_group v r"
  shows "\<exists>st ok. free_run r (a, v, Some j, d) = (st, ok) \<and> (\<not> ok \<longrightarrow> journal_full j (1 + unat (run_ag r))) \<and>
    (ok \<longrightarrow> changed v j d (unat (run_ag r))
      (\<lambda>c. \<not> (unat (run_start r) \<le> c \<and> c < unat (run_start r) + unat (run_len r)) \<and> in_use (Some j) v d (unat (run_ag r)) c)
      (v_used_blocks v - unat (run_len r)) st)"
proof -
  let ?g = "unat (run_ag r)" and ?len = "unat (run_len r)" and ?n = "v_used_blocks v - unat (run_len r)"
  have pos: "run_len r \<noteq> 0" "?len \<noteq> 0" "al_bound a" using assms by (auto simp: run_in_group_def alloc_ready_def unat_eq_zero)
  obtain st ok where f: "free_blocks_from ?g (unat (run_start r)) ?len (a, v, Some j, d) = (st, ok)"
    "\<not> ok \<Longrightarrow> journal_full j (1 + ?g)" and
    c: "ok \<Longrightarrow> changed v j d ?g
      (\<lambda>c. \<not> (unat (run_start r) \<le> c \<and> c < unat (run_start r) + ?len) \<and> in_use (Some j) v d ?g c) (v_used_blocks v) st"
    using free_blocks_changed [OF assms(1), of ?g "unat (run_start r)" ?len] assms(2) pos(2) by (auto simp: run_in_group_def)
  show ?thesis
  proof (cases ok)
    case False
    then show ?thesis using f pos by (intro exI [of _ st] exI [of _ False]) (simp add: free_run_def)
  next
    case True
    obtain a' v' j' d' where st: "st = (a', v', Some j', d')" "v_used_blocks v' = v_used_blocks v" "j_active j'"
      using c [OF True] by (auto simp: changed_def alloc_ready_def split: prod.splits)
    obtain a'' where q: "queue_discard r (a', set_used_blocks ?n v', Some j', d') = (a'', set_used_blocks ?n v', Some j', d')"
      "al_bound a'' = al_bound a'" "al_block_size a'' = al_block_size a'" "al_blocks_per_ag a'' = al_blocks_per_ag a'"
      "al_ag_shift a'' = al_ag_shift a'" "al_bitmap a'' = al_bitmap a'"
      using queue_discard_keeps [of r a' "set_used_blocks ?n v'" "Some j'" d'] by blast
    have n: "(if ?len \<le> v_used_blocks v then ?n else 0) = ?n" by simp
    have run: "free_run r (a, v, Some j, d) = ((a'', set_used_blocks ?n v', Some j', d'), True)"
      using f(1) True st pos q(1) n by (simp add: free_run_def flush_superblock_def journal_active_def Let_def)
    have "changed v j d ?g (\<lambda>c. \<not> (unat (run_start r) \<le> c \<and> c < unat (run_start r) + ?len) \<and> in_use (Some j) v d ?g c) ?n
        (a', set_used_blocks ?n v', Some j', d')"
      by (rule changed_count [OF c [OF True, unfolded st(1)]])
    then show ?thesis using run q by (auto simp: changed_def alloc_ready_def)
  qed
qed


section \<open>Discards held back\<close>

lemma read_write_cache:
  "read_block v jo d b = (v', d', res) \<Longrightarrow> \<exists>c. v' = v\<lparr>v_cache := c\<rparr>"
  "write_block v jo d b x = (v', jo', d', ok) \<Longrightarrow> \<exists>c. v' = v\<lparr>v_cache := c\<rparr>"
proof -
  have self: "\<exists>c. v = v\<lparr>v_cache := c\<rparr>" by (intro exI [of _ "v_cache v"]) simp
  show "read_block v jo d b = (v', d', res) \<Longrightarrow> \<exists>c. v' = v\<lparr>v_cache := c\<rparr>"
    using self by (auto simp: read_block_def Let_def split: option.splits prod.splits if_splits)
  show "write_block v jo d b x = (v', jo', d', ok) \<Longrightarrow> \<exists>c. v' = v\<lparr>v_cache := c\<rparr>"
    by (auto simp: write_block_def write_block_now_def clear_cache_def Let_def split: option.splits prod.splits if_splits)
qed

text \<open>Clearing bits touches neither the run held back nor the requests made.\<close>

lemma free_blocks_keeps:
  "free_blocks_from g loc n (a, v, jo, d) = ((a', v', jo', d'), ok) \<Longrightarrow>
   al_pending a' = al_pending a \<and> al_sent a' = al_sent a \<and> al_bound a' = al_bound a \<and> (\<exists>c. v' = v\<lparr>v_cache := c\<rparr>)"
proof (induction n arbitrary: loc a v jo d)
  case 0
  then show ?case by (auto intro!: exI [of _ "v_cache v"])
next
  case (Suc n)
  have self: "\<exists>c. v = v\<lparr>v_cache := c\<rparr>" by (intro exI [of _ "v_cache v"]) simp
  let ?at = "bitmap_block a g (loc div bits_per_block a)"
  obtain v1 d1 got where rd: "read_block v jo d ?at = (v1, d1, got)" by (cases "read_block v jo d ?at") auto
  obtain c1 where v1: "v1 = v\<lparr>v_cache := c1\<rparr>" using read_write_cache(1) [OF rd] by blast
  note s = Suc.prems [unfolded free_blocks_from.simps(2) prod.case Let_def rd]
  consider "v_num_blocks v \<le> ?at" | "got = None" "\<not> v_num_blocks v \<le> ?at"
    | bytes where "got = Some bytes" "\<not> v_num_blocks v \<le> ?at" by fastforce
  then show ?case
  proof cases
    case 1
    then show ?thesis using s self by auto
  next
    case 2
    then show ?thesis using s v1 by auto
  next
    case (3 bytes)
    let ?m = "bsplice 0 bytes (al_bitmap a)"
    show ?thesis
    proof (cases "clear_bit ?m (loc mod bits_per_block a)")
      case None
      then show ?thesis using s 3 v1 by auto
    next
      case (Some m')
      obtain v2 jo2 d2 ok2 where w: "write_block v1 jo d1 ?at (take (vol_block_size v) m') = (v2, jo2, d2, ok2)"
        by (metis prod_cases4)
      obtain c2 where v2: "v2 = v1\<lparr>v_cache := c2\<rparr>" using read_write_cache(2) [OF w] by blast
      show ?thesis
      proof (cases ok2)
        case True
        then have "free_blocks_from g (loc + 1) n (a\<lparr>al_bitmap := m'\<rparr>, v2, jo2, d2) = ((a', v', jo', d'), ok)"
          using s 3 Some w by simp
        from Suc.IH [OF this] show ?thesis using v1 v2 by auto
      next
        case False
        then show ?thesis using s 3 Some w v1 v2 by auto
      qed
    qed
  qed
qed

text \<open>
  C19. A run is not discarded while the transaction that frees it is open only as long as each run it
  frees touches the one held back: freeing two runs that do not touch hands the first one to the device
  at once, before any commit, and dropping the held back discards on an abort does not bring it back.
\<close>

theorem early_discard:
  assumes "alloc_ready a v j d" and "v_discard v" and "al_pending a = Some p" and "run_len p \<noteq> 0"
    and "join_runs p r = None" and "run_in_group v r" and "\<not> journal_full j (1 + unat (run_ag r))"
  shows "\<exists>st. free_run r (a, v, Some j, d) = (st, True) \<and>
    al_sent (fst (drop_discards st)) = al_sent a @ [(wrap64 (to_block v p * block_sectors v), unat (run_len p) * block_sectors v)]"
proof -
  let ?g = "unat (run_ag r)" and ?len = "unat (run_len r)"
  have pos: "run_len r \<noteq> 0" "al_bound a" using assms(1,6) by (auto simp: run_in_group_def alloc_ready_def)
  obtain st ok where f: "free_blocks_from ?g (unat (run_start r)) ?len (a, v, Some j, d) = (st, ok)" "ok"
    using free_blocks_changed [OF assms(1), of ?g "unat (run_start r)" ?len] assms(6,7) by (auto simp: run_in_group_def)
  obtain a' v' jo' d' where st: "st = (a', v', jo', d')" by (cases st) auto
  obtain c where k: "al_pending a' = Some p" "al_sent a' = al_sent a" "al_bound a'" "v' = v\<lparr>v_cache := c\<rparr>"
    using free_blocks_keeps [OF f(1) [unfolded st]] assms(3) pos(2) by auto
  let ?n = "v_used_blocks v - ?len"
  let ?v = "set_used_blocks ?n v'"
  have n: "(if ?len \<le> v_used_blocks v then ?n else 0) = ?n" by simp
  have "same_geom ?v v" by (simp add: same_geom_def set_used_blocks_def k(4))
  from same_geom_eq [OF this] have d: "discard_range ?v p = Some (wrap64 (to_block v p * block_sectors v), unat (run_len p) * block_sectors v)"
    using assms(2,4) by (simp add: discard_range_def set_used_blocks_def k(4))
  have dv: "v_discard ?v" using assms(2) by (simp add: set_used_blocks_def k(4))
  have q: "al_sent (fst (queue_discard r (a', ?v, jo', x))) =
      al_sent a @ [(wrap64 (to_block v p * block_sectors v), unat (run_len p) * block_sectors v)]" for x
    using d dv k(1-3) pos(1) assms(5) by (simp add: queue_discard_def flush_discards_def)
  have "free_run r (a, v, Some j, d) = (queue_discard r (a', ?v, jo', fst (flush_superblock ?v jo' d')), True)"
    using f st pos k(4) n by (simp add: free_run_def Let_def)
  then show ?thesis using q by (simp add: drop_discards_def case_prod_beta)
qed

section \<open>An allocator for the sample volume\<close>

definition sample_trim :: volume where
  "sample_trim = sample_volume\<lparr>v_discard := True\<rparr>"

definition sample_allocator :: allocator where
  "sample_allocator =
     \<lparr>al_bound = True, al_block_size = 512, al_blocks_per_ag = 1, al_ag_shift = 5, al_bitmap = replicate 8192 0,
      al_pending = Some (run_make 0 30 2), al_sent = []\<rparr>"

lemma sample_alloc_ready: "alloc_ready sample_allocator sample_trim sample_journal sample_disk"
proof -
  have "same_geom sample_trim sample_volume" by (simp add: same_geom_def sample_trim_def)
  note eq = same_geom_eq [OF this]
  have f: "v_num_blocks sample_trim = 64" "v_num_ags sample_trim = 2" "v_ag_shift sample_trim = 5"
    "v_cache sample_trim = (\<lambda>_. None)" "vol_block_size sample_trim = 512"
    by (simp_all add: sample_trim_def sample_volume_def vol_block_size_def)
  have "settled (Some sample_journal) (sample_trim, sample_disk)"
    using sample_disk_settled eq(3) f by (auto simp: settled_def cache_ok_def journal_ok_def sample_journal_def)
  then show ?thesis
    using f by (simp add: alloc_ready_def sample_allocator_def kMaxBlockSize_def sample_journal_def)
qed

lemma sample_not_full: "\<not> journal_full sample_journal b"
  by (simp add: journal_full_def sample_journal_def kMaxJournalBlocks_def)

lemma sample_group_free: "all_free (view (Some sample_journal) sample_trim sample_disk 1) 0 2" "2 \<le> group_bits sample_trim sample_allocator 0"
proof -
  have "view (Some sample_journal) sample_trim sample_disk 1 = replicate 512 0"
    by (simp add: view_def peek_def sample_journal_def block_content_def get_sectors_def block_sectors_def vol_block_size_def
        sample_trim_def sample_volume_def kSectorBytes_def sample_disk_def)
  then show "all_free (view (Some sample_journal) sample_trim sample_disk 1) 0 2"
    by (simp add: all_free_def used_def)
  show "2 \<le> group_bits sample_trim sample_allocator 0"
    by (simp add: group_bits_def sample_trim_def sample_volume_def sample_allocator_def wrap64_def)
qed

lemma sample_allocates: "\<exists>a1 v1 jo1 d1 r. allocate 4 2 (sample_allocator, sample_trim, Some sample_journal, sample_disk) = ((a1, v1, jo1, d1), Given r)"
proof -
  obtain a1 v1 jo1 d1 res where r: "allocate 4 2 (sample_allocator, sample_trim, Some sample_journal, sample_disk) = ((a1, v1, jo1, d1), res)"
    by (metis prod_cases5 prod.collapse)
  have s: "v_ag_shift sample_trim \<le> 30" "0 < v_num_ags sample_trim" by (simp_all add: sample_trim_def sample_volume_def)
  have "alloc_outcome sample_allocator sample_trim sample_journal sample_disk 4 2 [0..<v_num_ags sample_trim] ((a1, v1, jo1, d1), res)"
    using allocate_outcome [OF sample_alloc_ready s(1), of 2 4] r by (simp add: kMaxRun_def min_def)
  then have "\<exists>r. res = Given r"
    using s(2) sample_not_full sample_group_free by (cases res) (auto simp: alloc_outcome_def)
  then show ?thesis using r by blast
qed



theorem early_discard_witness:
  "\<exists>st. free_run (run_make 1 3 1) (sample_allocator, sample_trim, Some sample_journal, sample_disk) = (st, True) \<and>
     al_sent (fst (drop_discards st)) = [(30, 2)]"
proof -
  have "run_in_group sample_trim (run_make 1 3 1)" "v_discard sample_trim" "al_pending sample_allocator = Some (run_make 0 30 2)"
    "join_runs (run_make 0 30 2) (run_make 1 3 1) = None"
    by (simp_all add: run_in_group_def sample_trim_def sample_volume_def vol_block_size_def run_make_def sample_allocator_def join_runs_def)
  moreover have "wrap64 (to_block sample_trim (run_make 0 30 2) * block_sectors sample_trim) = 30" "block_sectors sample_trim = 1"
    by (simp_all add: to_block_def block_sectors_def sample_trim_def sample_volume_def run_make_def wrap64_def vol_block_size_def kSectorBytes_def)
  ultimately show ?thesis
    using early_discard [OF sample_alloc_ready, of "run_make 0 30 2" "run_make 1 3 1"] sample_not_full
    by (auto simp: run_make_def sample_allocator_def)
qed

end
