(* ===== verification/Pipe_Service.thy ===== *)
theory Pipe_Service
  imports Aegir_Prelude
begin

text \<open>
  The pipe service, \<^verbatim>\<open>src/apps/freestanding/aegir-fs-pipe/src/main.cc\<close>: named byte pipes kept as chains of
  chunks carved from one memory grant. A chunk is its 4096 bytes, a chunk number counts from one and
  zero is none, as in the code. A link lies in the last four bytes of a chunk of a pipe, and in the
  first four of a free one. The loops that walk a chain carry fuel; running out of it is no result,
  which a well-formed memory never shows (\<^verbatim>\<open>Pipe_Proofs\<close>).
\<close>

section \<open>State\<close>

definition kPipeNameMax :: nat where "kPipeNameMax = 32"
definition kChunkBytes :: nat where "kChunkBytes = 4096"
definition kChunkData :: nat where "kChunkData = 4092"
definition ns_kPathMax :: nat where "ns_kPathMax = 944"
definition kReadMax :: nat where "kReadMax = 936"
definition kWriteMax :: nat where "kWriteMax = 936"
definition kOpenTruncate :: u64 where "kOpenTruncate = 2"
definition kOpenRead :: u64 where "kOpenRead = 4"

datatype handle_kind = kHandleRead | kHandleWrite

record pipe =
  p_used :: bool
  p_writer_open :: bool
  p_reader_open :: bool
  p_reader_ever :: bool
  p_open_count :: nat
  p_size :: nat
  p_first :: nat
  p_last :: nat
  p_last_used :: nat
  p_name :: "u8 list"

record handle =
  h_serial :: nat
  h_badge :: u64
  h_pipe :: nat
  h_kind :: handle_kind

record pipes =
  s_pipes :: "pipe list"
  s_handles :: "handle list"
  s_chunks :: "u8 list list"
  s_free :: nat
  s_serial :: nat

definition fresh_pipe :: pipe where
  "fresh_pipe =
     \<lparr>p_used = False, p_writer_open = False, p_reader_open = False, p_reader_ever = False, p_open_count = 0,
      p_size = 0, p_first = 0, p_last = 0, p_last_used = 0, p_name = []\<rparr>"

definition fresh_handle :: handle where
  "fresh_handle = \<lparr>h_serial = 0, h_badge = 0, h_pipe = 0, h_kind = kHandleRead\<rparr>"

section \<open>Chunks\<close>

type_synonym chunks = "u8 list list"

text \<open>The link of a free chunk, and the link of a chunk in a chain.\<close>

definition free_next :: "chunks \<Rightarrow> nat \<Rightarrow> nat" where
  "free_next m c = le_nat (bslice 0 4 (m ! (c - 1)))"

definition set_free_next :: "nat \<Rightarrow> nat \<Rightarrow> chunks \<Rightarrow> chunks" where
  "set_free_next c nx m = m[c - 1 := bsplice 0 (nat_le 4 nx) (m ! (c - 1))]"

definition chunk_next :: "chunks \<Rightarrow> nat \<Rightarrow> nat" where
  "chunk_next m c = le_nat (bslice kChunkData 4 (m ! (c - 1)))"

definition chunk_set_next :: "nat \<Rightarrow> nat \<Rightarrow> chunks \<Rightarrow> chunks" where
  "chunk_set_next c nx m = m[c - 1 := bsplice kChunkData (nat_le 4 nx) (m ! (c - 1))]"

text \<open>The memory and the head of the free list.\<close>

type_synonym heap = "chunks \<times> nat"

definition chunk_alloc :: "heap \<Rightarrow> heap \<times> nat" where
  "chunk_alloc h = (case h of (m, free) \<Rightarrow> if free = 0 then (h, 0) else ((m, free_next m free), free))"

definition chunk_free :: "nat \<Rightarrow> heap \<Rightarrow> heap" where
  "chunk_free c h = (case h of (m, free) \<Rightarrow> (set_free_next c free m, c))"

text \<open>The initial free list, built from the last chunk down.\<close>

fun link_chunks :: "nat \<Rightarrow> heap \<Rightarrow> heap" where
  "link_chunks 0 h = h"
| "link_chunks (Suc i) h = link_chunks i (chunk_free (Suc i) h)"

definition kPipeSize :: nat where "kPipeSize = 64"
definition kHandleSize :: nat where "kHandleSize = 24"

definition memory_init :: "nat \<Rightarrow> pipes" where
  "memory_init bytes =
     (let meta_bytes = bytes div 4;
          pipe_capacity = meta_bytes div 2 div kPipeSize;
          handle_capacity = (meta_bytes - pipe_capacity * kPipeSize) div kHandleSize;
          chunk_count = (bytes - meta_bytes) div kChunkBytes;
          (m, free) = link_chunks chunk_count (replicate chunk_count (replicate kChunkBytes 0), 0)
      in \<lparr>s_pipes = replicate pipe_capacity fresh_pipe, s_handles = replicate handle_capacity fresh_handle,
          s_chunks = m, s_free = free, s_serial = 0\<rparr>)"

text \<open>The loop that gives the chunks of a chain back.\<close>

fun free_chain :: "nat \<Rightarrow> nat \<Rightarrow> heap \<Rightarrow> heap option" where
  "free_chain fuel c h =
     (if c = 0 then Some h
      else case fuel of 0 \<Rightarrow> None | Suc n \<Rightarrow> let nx = chunk_next (fst h) c in free_chain n nx (chunk_free c h))"

declare free_chain.simps [simp del]

definition state_heap :: "pipes \<Rightarrow> heap" where
  "state_heap st = (s_chunks st, s_free st)"

definition with_heap :: "pipes \<Rightarrow> heap \<Rightarrow> pipes" where
  "with_heap st h = st\<lparr>s_chunks := fst h, s_free := snd h\<rparr>"

definition chain_fuel :: "pipes \<Rightarrow> nat" where
  "chain_fuel st = length (s_chunks st)"

section \<open>Pipes\<close>

definition pipe_find :: "pipes \<Rightarrow> u8 list \<Rightarrow> nat option" where
  "pipe_find st name =
     (if length name = 0 \<or> length name > kPipeNameMax then None
      else find (\<lambda>i. p_used (s_pipes st ! i) \<and> p_name (s_pipes st ! i) = name) [0..<length (s_pipes st)])"

definition pipe_make :: "pipes \<Rightarrow> u8 list \<Rightarrow> pipes \<times> nat option" where
  "pipe_make st name =
     (if length name = 0 \<or> length name > kPipeNameMax then (st, None)
      else
        (case pipe_find st name of
           Some i \<Rightarrow> (st, Some i)
         | None \<Rightarrow>
             (case find (\<lambda>i. \<not> p_used (s_pipes st ! i)) [0..<length (s_pipes st)] of
                None \<Rightarrow> (st, None)
              | Some i \<Rightarrow> (st\<lparr>s_pipes := (s_pipes st)[i := fresh_pipe\<lparr>p_used := True, p_name := name\<rparr>]\<rparr>, Some i))))"

text \<open>Giving up what a pipe holds: the loop both a release and a truncating open run.\<close>

definition drop_chunks :: "nat \<Rightarrow> pipes \<Rightarrow> pipes option" where
  "drop_chunks i st =
     map_option
       (\<lambda>h. (with_heap st h)\<lparr>s_pipes := (s_pipes st)[i := (s_pipes st ! i)\<lparr>p_first := 0, p_last := 0, p_last_used := 0, p_size := 0\<rparr>]\<rparr>)
       (free_chain (chain_fuel st) (p_first (s_pipes st ! i)) (state_heap st))"

definition pipe_release :: "nat \<Rightarrow> pipes \<Rightarrow> pipes option" where
  "pipe_release i st =
     map_option
       (\<lambda>st'. st'\<lparr>s_pipes := (s_pipes st')[i := (s_pipes st' ! i)\<lparr>p_used := False, p_name := []\<rparr>]\<rparr>)
       (drop_chunks i st)"

text \<open>
  The loop of \<^verbatim>\<open>pipe_append\<close> with the bytes still to take; it answers how many it took. Every turn that
  does not end the loop takes a byte at least, so a turn for every byte is enough.
\<close>

definition put_bytes :: "nat \<Rightarrow> nat \<Rightarrow> u8 list \<Rightarrow> chunks \<Rightarrow> chunks" where
  "put_bytes c at bytes m = m[c - 1 := bsplice at bytes (m ! (c - 1))]"

text \<open>The tail made ready for a byte: the first chunk, or the next one after a full one.\<close>

definition grow_tail :: "pipe \<Rightarrow> heap \<Rightarrow> (pipe \<times> heap) option" where
  "grow_tail p h =
     (if p_last p = 0 then
        (case chunk_alloc h of ((m, free), c) \<Rightarrow>
           if c = 0 then None
           else Some (p\<lparr>p_first := c, p_last := c, p_last_used := 0\<rparr>, (chunk_set_next c 0 m, free)))
      else if p_last_used p = kChunkData then
        (case chunk_alloc h of ((m, free), c) \<Rightarrow>
           if c = 0 then None
           else Some (p\<lparr>p_last := c, p_last_used := 0\<rparr>, (chunk_set_next (p_last p) c (chunk_set_next c 0 m), free)))
      else Some (p, h))"

fun append_loop :: "nat \<Rightarrow> pipe \<Rightarrow> heap \<Rightarrow> u8 list \<Rightarrow> pipe \<times> heap \<times> nat" where
  "append_loop 0 p h data = (p, h, 0)"
| "append_loop (Suc n) p h data =
     (if data = [] then (p, h, 0)
      else
        (case grow_tail p h of
           None \<Rightarrow> (p, h, 0)
         | Some (p1, (m, free)) \<Rightarrow>
             let room = kChunkData - p_last_used p1; take_n = min (length data) room;
                 m1 = put_bytes (p_last p1) (p_last_used p1) (take take_n data) m;
                 p2 = p1\<lparr>p_last_used := p_last_used p1 + take_n, p_size := p_size p1 + take_n\<rparr>
             in (case append_loop n p2 (m1, free) (drop take_n data) of (p3, h3, taken) \<Rightarrow> (p3, h3, take_n + taken))))"

definition pipe_append :: "nat \<Rightarrow> u8 list \<Rightarrow> pipes \<Rightarrow> pipes \<times> nat" where
  "pipe_append i data st =
     (case append_loop (length data) (s_pipes st ! i) (state_heap st) data of (p, h, taken) \<Rightarrow>
        ((with_heap st h)\<lparr>s_pipes := (s_pipes st)[i := p]\<rparr>, taken))"

definition chunk_size :: "pipe \<Rightarrow> nat \<Rightarrow> nat" where
  "chunk_size p c = (if c = p_last p then p_last_used p else kChunkData)"

text \<open>The chunk that holds the offset and its place in the pipe; chunk zero past the end.\<close>

fun read_seek :: "nat \<Rightarrow> chunks \<Rightarrow> pipe \<Rightarrow> nat \<Rightarrow> nat \<Rightarrow> nat \<Rightarrow> (nat \<times> nat) option" where
  "read_seek fuel m p offset c position =
     (if c = 0 \<or> offset < position + chunk_size p c then Some (c, position)
      else case fuel of 0 \<Rightarrow> None | Suc n \<Rightarrow> read_seek n m p offset (chunk_next m c) (position + chunk_size p c))"

declare read_seek.simps [simp del]

fun read_copy :: "nat \<Rightarrow> chunks \<Rightarrow> pipe \<Rightarrow> nat \<Rightarrow> nat \<Rightarrow> nat \<Rightarrow> nat \<Rightarrow> u8 list \<Rightarrow> u8 list option" where
  "read_copy fuel m p offset cnt c position out =
     (if length out \<ge> cnt \<or> c = 0 then Some out
      else
        case fuel of
          0 \<Rightarrow> None
        | Suc n \<Rightarrow>
            let within = offset + length out - position
            in if within \<ge> chunk_size p c then read_copy n m p offset cnt (chunk_next m c) (position + chunk_size p c) out
               else
                 let take_n = min (cnt - length out) (chunk_size p c - within)
                 in read_copy n m p offset cnt c position (out @ bslice within take_n (m ! (c - 1))))"

declare read_copy.simps [simp del]

definition pipe_read_at :: "nat \<Rightarrow> nat \<Rightarrow> nat \<Rightarrow> pipes \<Rightarrow> u8 list option" where
  "pipe_read_at i offset cnt st =
     (let p = s_pipes st ! i; m = s_chunks st
      in if offset \<ge> p_size p then Some []
         else
           Option.bind (read_seek (chain_fuel st) m p offset (p_first p) 0)
             (\<lambda>(c, position). read_copy (2 * chain_fuel st) m p offset cnt c position []))"

section \<open>Handles\<close>

definition handle_lookup :: "pipes \<Rightarrow> nat \<Rightarrow> u64 \<Rightarrow> nat option" where
  "handle_lookup st serial badge =
     (if serial = 0 then None
      else
        (case find (\<lambda>i. h_serial (s_handles st ! i) = serial) [0..<length (s_handles st)] of
           None \<Rightarrow> None
         | Some i \<Rightarrow> if h_badge (s_handles st ! i) = badge then Some i else None))"

definition handle_alloc :: "pipes \<Rightarrow> u64 \<Rightarrow> pipes \<times> nat option" where
  "handle_alloc st badge =
     (case find (\<lambda>i. h_serial (s_handles st ! i) = 0) [0..<length (s_handles st)] of
        None \<Rightarrow> (st, None)
      | Some i \<Rightarrow>
          let serial = (s_serial st + 1) mod 2 ^ 64
          in (st\<lparr>s_serial := serial, s_handles := (s_handles st)[i := (s_handles st ! i)\<lparr>h_serial := serial, h_badge := badge\<rparr>]\<rparr>, Some i))"

section \<open>The methods\<close>

text \<open>
  A reply is its words, and for a read the bytes packed after them. What the code leaves in the last
  word past those bytes is not part of the model.
\<close>

type_synonym reply = "u64 list \<times> u8 list"

definition unpack_string :: "u64 list \<Rightarrow> nat \<Rightarrow> u8 list option" where
  "unpack_string ws maximum =
     (if ws = [] then None
      else
        let n = unat (ws ! 0)
        in if n > maximum \<or> length ws < 1 + (n + 7) div 8 then None else Some (take n (bytes_of_words (tl ws))))"

definition path_words :: "u8 list \<Rightarrow> nat" where
  "path_words path = 1 + (length path + 7) div 8"

text \<open>What both reads answer.\<close>

definition read_reply :: "nat \<Rightarrow> nat \<Rightarrow> nat \<Rightarrow> pipes \<Rightarrow> reply option" where
  "read_reply i offset wanted st =
     map_option
       (\<lambda>bytes. ([of_nat (length bytes),
                  if (offset + length bytes) mod 2 ^ 64 \<ge> p_size (s_pipes st ! i) \<and> \<not> p_writer_open (s_pipes st ! i) then 1 else 0],
                 bytes))
       (pipe_read_at i offset (min wanted kReadMax) st)"

definition answer_read :: "u64 list \<Rightarrow> pipes \<Rightarrow> reply option" where
  "answer_read ws st =
     (case unpack_string ws ns_kPathMax of
        None \<Rightarrow> Some ([], [])
      | Some path \<Rightarrow>
          if length ws < path_words path + 2 then Some ([], [])
          else
            (case pipe_find st path of
               None \<Rightarrow> Some ([], [])
             | Some i \<Rightarrow> read_reply i (unat (ws ! path_words path)) (unat (ws ! (path_words path + 1))) st))"

definition answer_read_handle :: "u64 list \<Rightarrow> u64 \<Rightarrow> pipes \<Rightarrow> reply option" where
  "answer_read_handle ws badge st =
     (if length ws < 3 then Some ([], [])
      else
        (case handle_lookup st (unat (ws ! 0)) badge of
           None \<Rightarrow> Some ([], [])
         | Some k \<Rightarrow>
             let h = s_handles st ! k
             in if h_kind h \<noteq> kHandleRead \<or> h_pipe h = 0 then Some ([], [])
                else read_reply (h_pipe h - 1) (unat (ws ! 1)) (unat (ws ! 2)) st))"

definition answer_write :: "u64 list \<Rightarrow> u64 \<Rightarrow> pipes \<Rightarrow> pipes \<times> reply" where
  "answer_write ws badge st =
     (if length ws < 3 then (st, [0], [])
      else
        (case handle_lookup st (unat (ws ! 0)) badge of
           None \<Rightarrow> (st, [0], [])
         | Some k \<Rightarrow>
             let h = s_handles st ! k; bytes = unat (ws ! 2)
             in if h_kind h \<noteq> kHandleWrite \<or> h_pipe h = 0 \<or> bytes > kWriteMax \<or> length ws < 3 + (bytes + 7) div 8 then (st, [0], [])
                else
                  (case pipe_append (h_pipe h - 1) (take bytes (bytes_of_words (drop 3 ws))) st of (st', written) \<Rightarrow>
                     (st', [of_nat written], []))))"

definition open_handle :: "nat \<Rightarrow> bool \<Rightarrow> u64 \<Rightarrow> pipes \<Rightarrow> pipes \<times> reply" where
  "open_handle i reading badge st =
     (case handle_alloc st badge of
        (st1, None) \<Rightarrow> (st1, [0], [])
      | (st1, Some k) \<Rightarrow>
          let p = s_pipes st1 ! i; p1 = p\<lparr>p_open_count := p_open_count p + 1\<rparr>;
              p2 = (if reading then p1\<lparr>p_reader_open := True, p_reader_ever := True\<rparr> else p1\<lparr>p_writer_open := True\<rparr>);
              h = (s_handles st1 ! k)\<lparr>h_pipe := i + 1, h_kind := if reading then kHandleRead else kHandleWrite\<rparr>
          in (st1\<lparr>s_handles := (s_handles st1)[k := h], s_pipes := (s_pipes st1)[i := p2]\<rparr>, [of_nat (h_serial h)], []))"

definition answer_open :: "u64 list \<Rightarrow> u64 \<Rightarrow> pipes \<Rightarrow> (pipes \<times> reply) option" where
  "answer_open ws badge st =
     (case unpack_string ws ns_kPathMax of
        None \<Rightarrow> Some (st, [0], [])
      | Some path \<Rightarrow>
          if length ws < path_words path + 1 then Some (st, [0], [])
          else
            let flags = ws ! path_words path; reading = (flags AND kOpenRead \<noteq> 0)
            in (case pipe_make st path of
                  (st1, None) \<Rightarrow> Some (st1, [0], [])
                | (st1, Some i) \<Rightarrow>
                    map_option (open_handle i reading badge)
                      (if \<not> reading \<and> flags AND kOpenTruncate \<noteq> 0 then drop_chunks i st1 else Some st1)))"

definition answer_close :: "u64 list \<Rightarrow> u64 \<Rightarrow> pipes \<Rightarrow> (pipes \<times> reply) option" where
  "answer_close ws badge st =
     (if length ws < 1 then Some (st, [0], [])
      else
        (case handle_lookup st (unat (ws ! 0)) badge of
           None \<Rightarrow> Some (st, [0], [])
         | Some k \<Rightarrow>
             let h = s_handles st ! k
             in if h_pipe h = 0 then Some (st, [0], [])
                else
                  let i = h_pipe h - 1; p = s_pipes st ! i;
                      p1 = (if h_kind h = kHandleRead then p\<lparr>p_reader_open := False\<rparr> else p\<lparr>p_writer_open := False\<rparr>);
                      p2 = (if p_open_count p1 \<noteq> 0 then p1\<lparr>p_open_count := p_open_count p1 - 1\<rparr> else p1);
                      st1 = st\<lparr>s_pipes := (s_pipes st)[i := p2], s_handles := (s_handles st)[k := h\<lparr>h_serial := 0, h_pipe := 0\<rparr>]\<rparr>
                  in map_option (\<lambda>st2. (st2, [1], []))
                       (if p_reader_ever p2 \<and> p_open_count p2 = 0 then pipe_release i st1 else Some st1)))"

definition answer_stat :: "u64 list \<Rightarrow> reply" where
  "answer_stat ws =
     (case unpack_string ws ns_kPathMax of
        None \<Rightarrow> ([], [])
      | Some path \<Rightarrow> ([if path = [] then 2 else 1, 0, 0, 0], []))"

text \<open>One turn of the receive loop: the method's number, its words and the caller's badge.\<close>

definition pipe_step :: "u32 \<Rightarrow> u64 list \<Rightarrow> u64 \<Rightarrow> pipes \<Rightarrow> (pipes \<times> reply) option" where
  "pipe_step meth ws badge st =
     (if meth = 1 then map_option (Pair st) (answer_read ws st)
      else if meth = 23 then map_option (Pair st) (answer_read_handle ws badge st)
      else if meth = 4 then Some (answer_write ws badge st)
      else if meth = 3 then answer_open ws badge st
      else if meth = 5 then answer_close ws badge st
      else if meth = 9 then Some (st, answer_stat ws)
      else if meth = 2 then Some (st, [], [])
      else if meth \<in> {6, 7, 8, 10, 11} then Some (st, [0], [])
      else Some (st, [], []))"

end
