(* ===== verification/Pipe_Heap.thy ===== *)
theory Pipe_Heap
  imports Pipe_Service "HOL-Library.Multiset"
begin

text \<open>
  The memory of the pipe service as linked lists. Every chunk is on the free list or in the chain of
  exactly one pipe; allocating, freeing, linking and filling a chunk keep that, and what a pipe holds
  is read off its chain. The chunks of a chain are named by a ghost list, as in pointer proofs.
\<close>

section \<open>The links of the chunks\<close>

definition chunks_ok :: "chunks \<Rightarrow> bool" where
  "chunks_ok m \<longleftrightarrow> (\<forall>b\<in>set m. length b = kChunkBytes) \<and> length m < 2 ^ 32"

definition valid :: "chunks \<Rightarrow> nat \<Rightarrow> bool" where
  "valid m c \<longleftrightarrow> 0 < c \<and> c \<le> length m"

lemmas chunk_consts = kChunkBytes_def kChunkData_def

lemma valid_nth: "chunks_ok m \<Longrightarrow> valid m c \<Longrightarrow> length (m ! (c - 1)) = 4096"
  by (auto simp: chunks_ok_def valid_def chunk_consts)

lemma valid_less: "chunks_ok m \<Longrightarrow> valid m c \<Longrightarrow> c < 2 ^ 32"
  by (auto simp: chunks_ok_def valid_def)

lemma le_nat_link: "n < 2 ^ 32 \<Longrightarrow> le_nat (nat_le 4 n) = n"
  by (simp add: le_nat_nat_le)

text \<open>An update of one chunk, and what the others see of it.\<close>

lemma pred_eq_iff: "valid m c \<Longrightarrow> valid m x \<Longrightarrow> x - 1 = c - 1 \<longleftrightarrow> x = c"
  by (auto simp: valid_def)

lemma chunks_ok_update: "chunks_ok m \<Longrightarrow> length b = kChunkBytes \<Longrightarrow> chunks_ok (m[k := b])"
  unfolding chunks_ok_def by (metis insert_iff length_list_update set_update_subset_insert subset_iff)

lemma valid_update [simp]: "valid (m[k := b]) c \<longleftrightarrow> valid m c"
  by (simp add: valid_def)

lemma nth_update_chunk [simplified]:
  "valid m c \<Longrightarrow> valid m x \<Longrightarrow> m[c - 1 := b] ! (x - 1) = (if x = c then b else m ! (x - 1))"
  using pred_eq_iff [of m c x] by (auto simp: nth_list_update valid_def)

lemmas chunk_writers = set_free_next_def chunk_set_next_def put_bytes_def

lemma set_free_next_simps:
  assumes "chunks_ok m" and "valid m c" and "n < 2 ^ 32"
  shows "chunks_ok (set_free_next c n m)" and "length (set_free_next c n m) = length m"
    and "\<And>x. valid m x \<Longrightarrow> free_next (set_free_next c n m) x = (if x = c then n else free_next m x)"
    and "\<And>x. valid m x \<Longrightarrow> x \<noteq> c \<Longrightarrow> set_free_next c n m ! (x - 1) = m ! (x - 1)"
    and "\<And>x. valid m x \<Longrightarrow> chunk_next (set_free_next c n m) x = chunk_next m x"
  using assms valid_nth [OF assms(1,2)]
  by (auto simp: chunk_writers free_next_def chunk_next_def nth_update_chunk upd_simps le_nat_link chunk_consts
      intro!: chunks_ok_update)

lemma chunk_set_next_simps:
  assumes "chunks_ok m" and "valid m c" and "n < 2 ^ 32"
  shows "chunks_ok (chunk_set_next c n m)" and "length (chunk_set_next c n m) = length m"
    and "\<And>x. valid m x \<Longrightarrow> chunk_next (chunk_set_next c n m) x = (if x = c then n else chunk_next m x)"
    and "\<And>x. valid m x \<Longrightarrow> free_next (chunk_set_next c n m) x = free_next m x"
    and "\<And>x at k. valid m x \<Longrightarrow> at + k \<le> kChunkData \<Longrightarrow>
           bslice at k (chunk_set_next c n m ! (x - 1)) = bslice at k (m ! (x - 1))"
  using assms valid_nth [OF assms(1,2)]
  by (auto simp: chunk_writers free_next_def chunk_next_def nth_update_chunk upd_simps le_nat_link chunk_consts
      intro!: chunks_ok_update)

lemma take_bsplice_end:
  "at + length xs \<le> length buf \<Longrightarrow> take (at + length xs) (bsplice at xs buf) = take at buf @ xs"
  by (simp add: bsplice_def)

lemma put_bytes_simps:
  assumes "chunks_ok m" and "valid m c" and "at + length bs \<le> kChunkData"
  shows "chunks_ok (put_bytes c at bs m)" and "length (put_bytes c at bs m) = length m"
    and "\<And>x. valid m x \<Longrightarrow> chunk_next (put_bytes c at bs m) x = chunk_next m x"
    and "\<And>x. valid m x \<Longrightarrow> x \<noteq> c \<Longrightarrow> put_bytes c at bs m ! (x - 1) = m ! (x - 1)"
    and "\<And>x. valid m x \<Longrightarrow> x \<noteq> c \<Longrightarrow> free_next (put_bytes c at bs m) x = free_next m x"
    and "take (at + length bs) (put_bytes c at bs m ! (c - 1)) = take at (m ! (c - 1)) @ bs"
  using assms valid_nth [OF assms(1,2)]
  by (auto simp: chunk_writers free_next_def chunk_next_def nth_update_chunk upd_simps chunk_consts take_bsplice_end
      intro!: chunks_ok_update)

section \<open>Who owns a chunk\<close>

text \<open>
  The chunks of one pipe, the free ones and the rest are all the chunks, each once. The rest is what
  an operation on that pipe leaves alone.
\<close>

definition own :: "chunks \<Rightarrow> nat \<Rightarrow> nat list \<Rightarrow> nat list \<Rightarrow> nat list \<Rightarrow> bool" where
  "own m free cs fs rest \<longleftrightarrow>
     chunks_ok m \<and> chain (free_next m) free fs \<and> mset (cs @ fs @ rest) = mset [1..<Suc (length m)]"

definition same_on :: "nat list \<Rightarrow> chunks \<Rightarrow> chunks \<Rightarrow> bool" where
  "same_on rest m m' \<longleftrightarrow> length m' = length m \<and> (\<forall>x\<in>set rest. m' ! (x - 1) = m ! (x - 1))"

lemma own_distinct: "own m free cs fs rest \<Longrightarrow> distinct (cs @ fs @ rest)"
  unfolding own_def by (metis distinct_upt mset_eq_imp_distinct_iff)

lemma own_valid:
  assumes "own m free cs fs rest"
  shows "x \<in> set (cs @ fs @ rest) \<longleftrightarrow> valid m x"
proof -
  have "set (cs @ fs @ rest) = set [1..<Suc (length m)]"
    using assms unfolding own_def by (metis mset_eq_setD)
  also have "\<dots> = {x. valid m x}"
    by (auto simp: valid_def)
  finally show ?thesis by blast
qed

lemma own_length: "own m free cs fs rest \<Longrightarrow> length cs + length fs + length rest = length m"
  unfolding own_def by (metis (no_types) add.assoc diff_Suc_1 length_append length_upt mset_eq_length One_nat_def)

lemma own_ok: "own m free cs fs rest \<Longrightarrow> chunks_ok m"
  by (simp add: own_def)

lemma same_on_refl [simp]: "same_on rest m m"
  by (simp add: same_on_def)

lemma same_on_trans: "same_on rest m m1 \<Longrightarrow> same_on rest m1 m2 \<Longrightarrow> same_on rest m m2"
  by (simp add: same_on_def)

section \<open>The bytes of a pipe\<close>

definition pipe_data :: "chunks \<Rightarrow> pipe \<Rightarrow> nat list \<Rightarrow> u8 list" where
  "pipe_data m p cs = concat (map (\<lambda>c. take (chunk_size p c) (m ! (c - 1))) cs)"

definition pipe_ok :: "chunks \<Rightarrow> pipe \<Rightarrow> nat list \<Rightarrow> bool" where
  "pipe_ok m p cs \<longleftrightarrow>
     chain (chunk_next m) (p_first p) cs \<and> p_last p = (if cs = [] then 0 else last cs) \<and>
     p_last_used p \<le> kChunkData \<and> (cs = [] \<longleftrightarrow> p_last_used p = 0) \<and> p_size p = length (pipe_data m p cs)"

lemma pipe_data_simps [simp]:
  "pipe_data m p [] = []"
  "pipe_data m p (c # cs) = take (chunk_size p c) (m ! (c - 1)) @ pipe_data m p cs"
  "pipe_data m p (cs @ ds) = pipe_data m p cs @ pipe_data m p ds"
  by (simp_all add: pipe_data_def)

lemma pipe_data_cong:
  "(\<And>c. c \<in> set cs \<Longrightarrow> chunk_size p c = chunk_size q c \<and> take (chunk_size p c) (m ! (c - 1)) = take (chunk_size p c) (m' ! (c - 1)))
   \<Longrightarrow> pipe_data m p cs = pipe_data m' q cs"
  unfolding pipe_data_def by (intro arg_cong [where f = concat] map_cong refl) (metis (no_types))

lemma chunk_size_le: "p_last_used p \<le> kChunkData \<Longrightarrow> chunk_size p c \<le> kChunkData"
  by (simp add: chunk_size_def)

text \<open>A pipe whose chunks an operation left alone is the pipe it was.\<close>

lemma pipe_frame:
  assumes "same_on rest m m'" and "set cs \<subseteq> set rest"
  shows "pipe_data m' p cs = pipe_data m p cs" and "pipe_ok m' p cs \<longleftrightarrow> pipe_ok m p cs"
proof -
  have same: "m' ! (x - 1) = m ! (x - 1)" if "x \<in> set cs" for x
    using that assms by (auto simp: same_on_def)
  show data: "pipe_data m' p cs = pipe_data m p cs"
    using same by (intro pipe_data_cong) simp
  have "chain (chunk_next m') (p_first p) cs \<longleftrightarrow> chain (chunk_next m) (p_first p) cs"
    using same by (intro chain_cong) (simp add: chunk_next_def)
  then show "pipe_ok m' p cs \<longleftrightarrow> pipe_ok m p cs"
    by (simp add: pipe_ok_def data)
qed

section \<open>Taking and giving back a chunk\<close>

lemma own_alloc:
  assumes "own m free cs fs rest" and "free \<noteq> 0"
  shows "\<exists>fs'. fs = free # fs' \<and> valid m free \<and> free \<notin> set cs \<and> own m (free_next m free) (cs @ [free]) fs' rest"
proof -
  obtain fs' where fs: "fs = free # fs'"
    using assms by (cases fs) (auto simp: own_def)
  then have "own m (free_next m free) (cs @ [free]) fs' rest"
    using assms by (auto simp: own_def)
  moreover have "valid m free" and "free \<notin> set cs"
    using own_valid [OF assms(1), of free] own_distinct [OF assms(1)] fs by auto
  ultimately show ?thesis using fs by blast
qed

text \<open>A write to a chunk that is not free changes neither the free list nor who owns what.\<close>

lemma own_write:
  assumes "own m free cs fs rest" and "c \<in> set cs" and "chunks_ok m'" and "length m' = length m"
    and "\<And>x. valid m x \<Longrightarrow> x \<noteq> c \<Longrightarrow> m' ! (x - 1) = m ! (x - 1)"
  shows "own m' free cs fs rest" and "same_on rest m m'"
proof -
  have "free_next m' x = free_next m x" if "x \<in> set fs" for x
    using that assms own_valid [OF assms(1), of x] own_distinct [OF assms(1)]
    by (fastforce simp: free_next_def)
  then have "chain (free_next m') free fs \<longleftrightarrow> chain (free_next m) free fs"
    by (rule chain_cong)
  then show "own m' free cs fs rest"
    using assms by (simp add: own_def)
  show "same_on rest m m'"
    using assms own_valid [OF assms(1)] own_distinct [OF assms(1)] by (auto simp: same_on_def)
qed

section \<open>The loops over one pipe\<close>

text \<open>The fields an append or a truncation leaves alone.\<close>

definition same_ends :: "pipe \<Rightarrow> pipe \<Rightarrow> bool" where
  "same_ends p q \<longleftrightarrow>
     p_used q = p_used p \<and> p_writer_open q = p_writer_open p \<and> p_reader_open q = p_reader_open p \<and>
     p_reader_ever q = p_reader_ever p \<and> p_open_count q = p_open_count p \<and> p_name q = p_name p"

lemma same_ends_refl [simp]: "same_ends p p"
  by (simp add: same_ends_def)

lemma same_ends_trans: "same_ends p q \<Longrightarrow> same_ends q r \<Longrightarrow> same_ends p r"
  by (simp add: same_ends_def)

text \<open>A pipe made ready for a byte: a last chunk with room, the bytes it had.\<close>

definition ready :: "chunks \<Rightarrow> pipe \<Rightarrow> nat list \<Rightarrow> bool" where
  "ready m p cs \<longleftrightarrow>
     chain (chunk_next m) (p_first p) cs \<and> cs \<noteq> [] \<and> p_last p = last cs \<and> p_last_used p < kChunkData \<and>
     p_size p = length (pipe_data m p cs)"

lemma grow_first:
  assumes o: "own m free [] fs rest" and k: "pipe_ok m p []" and f: "free \<noteq> 0"
  shows "\<exists>m1 fs1. grow_tail p (m, free) = Some (p\<lparr>p_first := free, p_last := free, p_last_used := 0\<rparr>, (m1, free_next m free)) \<and>
           own m1 (free_next m free) [free] fs1 rest \<and> same_on rest m m1 \<and>
           ready m1 (p\<lparr>p_first := free, p_last := free, p_last_used := 0\<rparr>) [free]"
proof -
  obtain fs1 where v: "valid m free" and o1: "own m (free_next m free) [free] fs1 rest"
    using own_alloc [OF o f] by auto
  let ?m = "chunk_set_next free 0 m"
  note s = chunk_set_next_simps [OF own_ok [OF o] v, of 0, simplified]
  have oth: "?m ! (x - 1) = m ! (x - 1)" if "valid m x" "x \<noteq> free" for x
    using that v nth_update_chunk by (simp add: chunk_set_next_def)
  have "own ?m (free_next m free) [free] fs1 rest" "same_on rest m ?m"
    using own_write [OF o1, of free ?m] s oth by auto
  moreover have "grow_tail p (m, free) = Some (p\<lparr>p_first := free, p_last := free, p_last_used := 0\<rparr>, (?m, free_next m free))"
    using k f by (simp add: grow_tail_def chunk_alloc_def pipe_ok_def)
  moreover have "ready ?m (p\<lparr>p_first := free, p_last := free, p_last_used := 0\<rparr>) [free]"
    using k f s v by (simp add: ready_def pipe_ok_def chunk_size_def chunk_consts)
  ultimately show ?thesis by blast
qed

lemma grow_next:
  assumes o: "own m free cs fs rest" and k: "pipe_ok m p cs" and c: "cs \<noteq> []" and u: "p_last_used p = kChunkData" and f: "free \<noteq> 0"
  shows "\<exists>m1 fs1. grow_tail p (m, free) = Some (p\<lparr>p_last := free, p_last_used := 0\<rparr>, (m1, free_next m free)) \<and>
           own m1 (free_next m free) (cs @ [free]) fs1 rest \<and> same_on rest m m1 \<and>
           ready m1 (p\<lparr>p_last := free, p_last_used := 0\<rparr>) (cs @ [free]) \<and>
           pipe_data m1 (p\<lparr>p_last := free, p_last_used := 0\<rparr>) (cs @ [free]) = pipe_data m p cs"
proof -
  obtain fs1 where v: "valid m free" and n: "free \<notin> set cs" and o1: "own m (free_next m free) (cs @ [free]) fs1 rest"
    using own_alloc [OF o f] by auto
  have l: "p_last p = last cs" and lv: "valid m (last cs)" and lc: "last cs \<in> set cs" and ch: "chain (chunk_next m) (p_first p) cs"
    using k c own_valid [OF o, of "last cs"] by (auto simp: pipe_ok_def)
  let ?a = "chunk_set_next free 0 m" let ?m = "chunk_set_next (last cs) free ?a" let ?p = "p\<lparr>p_last := free, p_last_used := 0\<rparr>"
  note s0 = chunk_set_next_simps [OF own_ok [OF o] v, of 0, simplified]
  have v0: "valid ?a x \<longleftrightarrow> valid m x" for x using s0 by (simp add: valid_def)
  note s = chunk_set_next_simps [OF s0(1), of "last cs" free, unfolded v0, OF lv valid_less [OF own_ok [OF o] v]]
  have o0: "own ?a (free_next m free) (cs @ [free]) fs1 rest" "same_on rest m ?a"
    using own_write [OF o1, of free ?a] s0 v nth_update_chunk by (auto simp: chunk_set_next_def)
  have o2: "own ?m (free_next m free) (cs @ [free]) fs1 rest" "same_on rest ?a ?m"
    using own_write [OF o0(1), of "last cs" ?m] s v0 lc lv nth_update_chunk [of ?a "last cs"] by (auto simp: chunk_set_next_def [of "last cs"])
  have next_eq: "chunk_next ?m x = (if x = last cs then free else if x = free then 0 else chunk_next m x)" if "valid m x" for x
    using that s s0 by simp
  have "chain (chunk_next ?m) (p_first p) (cs @ [free])"
  proof (rule chain_snoc [OF ch c])
    show "chunk_next ?m (last cs) = free" and "chunk_next ?m free = 0"
      using next_eq lv v lc n by auto
    show "chunk_next ?m x = chunk_next m x" if "x \<in> set cs" "x \<noteq> last cs" for x
      using that next_eq [of x] own_valid [OF o, of x] n by auto
  qed (use own_distinct [OF o] n f in auto)
  moreover
  have bytes: "take kChunkData (?m ! (x - 1)) = take kChunkData (m ! (x - 1))" if "valid m x" for x
    using s(5) [of x 0 kChunkData] s0(5) [of x 0 kChunkData] that by (simp add: bslice_def)
  have "pipe_data ?m ?p cs = pipe_data m p cs"
    using n u l own_valid [OF o] bytes by (intro pipe_data_cong) (auto simp: chunk_size_def)
  then have "pipe_data ?m ?p (cs @ [free]) = pipe_data m p cs" by (simp add: chunk_size_def)
  moreover have "grow_tail p (m, free) = Some (?p, (?m, free_next m free))"
    using f l u lv by (auto simp: grow_tail_def chunk_alloc_def valid_def)
  ultimately show ?thesis
    using o0(2) o2 k same_on_trans by (intro exI [of _ ?m] exI [of _ fs1]) (auto simp: ready_def pipe_ok_def chunk_consts)
qed

lemma grow_tail_refused: "grow_tail p (m, free) = None \<Longrightarrow> free = 0"
  by (auto simp: grow_tail_def chunk_alloc_def split: if_splits)

lemma grow_tail_ready:
  assumes "own m free cs fs rest" and "pipe_ok m p cs" and "grow_tail p (m, free) = Some (p1, (m1, free1))"
  shows "\<exists>cs1 fs1. own m1 free1 cs1 fs1 rest \<and> same_on rest m m1 \<and> ready m1 p1 cs1 \<and>
           pipe_data m1 p1 cs1 = pipe_data m p cs \<and> same_ends p p1"
proof (cases "cs = []")
  case True
  then have "free \<noteq> 0"
    using assms by (auto simp: grow_tail_def chunk_alloc_def pipe_ok_def split: if_splits)
  then obtain m' fs1 where "grow_tail p (m, free) = Some (p\<lparr>p_first := free, p_last := free, p_last_used := 0\<rparr>, (m', free_next m free))"
      "own m' (free_next m free) [free] fs1 rest" "same_on rest m m'"
      "ready m' (p\<lparr>p_first := free, p_last := free, p_last_used := 0\<rparr>) [free]"
    using grow_first [of m free fs rest p] assms True by blast
  then show ?thesis
    using assms(3) True by (intro exI [of _ "[free]"] exI [of _ fs1]) (auto simp: chunk_size_def same_ends_def)
next
  case ne: False
  show ?thesis
  proof (cases "p_last_used p = kChunkData")
    case True
    have "valid m (last cs)"
      using own_valid [OF assms(1), of "last cs"] ne by simp
    then have "free \<noteq> 0"
      using assms ne True by (auto simp: grow_tail_def chunk_alloc_def pipe_ok_def valid_def split: if_splits)
    then obtain m' fs1 where "grow_tail p (m, free) = Some (p\<lparr>p_last := free, p_last_used := 0\<rparr>, (m', free_next m free))"
        "own m' (free_next m free) (cs @ [free]) fs1 rest" "same_on rest m m'"
        "ready m' (p\<lparr>p_last := free, p_last_used := 0\<rparr>) (cs @ [free])"
        "pipe_data m' (p\<lparr>p_last := free, p_last_used := 0\<rparr>) (cs @ [free]) = pipe_data m p cs"
      using grow_next [OF assms(1,2) ne True] by blast
    then show ?thesis
      using assms(3) by (intro exI [of _ "cs @ [free]"] exI [of _ fs1]) (auto simp: same_ends_def)
  next
    case False
    have "p_last p \<noteq> 0"
      using own_valid [OF assms(1), of "last cs"] ne assms(2) by (auto simp: pipe_ok_def valid_def)
    then have "p1 = p" "m1 = m" "free1 = free"
      using assms(3) False by (auto simp: grow_tail_def)
    then show ?thesis
      using assms(1,2) ne False by (intro exI [of _ cs] exI [of _ fs]) (auto simp: ready_def pipe_ok_def)
  qed
qed

text \<open>Bytes put behind the last one.\<close>

lemma fill_tail:
  assumes o: "own m free cs fs rest" and r: "ready m p cs" and n: "bs \<noteq> []" "p_last_used p + length bs \<le> kChunkData"
  defines "m' \<equiv> put_bytes (p_last p) (p_last_used p) bs m"
    and "p' \<equiv> p\<lparr>p_last_used := p_last_used p + length bs, p_size := p_size p + length bs\<rparr>"
  shows "own m' free cs fs rest" and "same_on rest m m'" and "pipe_ok m' p' cs"
    and "pipe_data m' p' cs = pipe_data m p cs @ bs"
proof -
  obtain ds c where cs: "cs = ds @ [c]" and l: "p_last p = c"
    using r by (cases cs rule: rev_cases) (auto simp: ready_def)
  have v: "valid m c" and d: "c \<notin> set ds"
    using own_valid [OF o, of c] own_distinct [OF o] cs by auto
  note s = put_bytes_simps [OF own_ok [OF o] v n(2)]
  show "own m' free cs fs rest" "same_on rest m m'"
    using own_write [OF o, of c m'] s cs unfolding m'_def l by auto
  have "m' ! (x - 1) = m ! (x - 1) \<and> x \<noteq> c" if "x \<in> set ds" for x
    using that d s(4) [of x] own_valid [OF o, of x] cs l by (auto simp: m'_def)
  then have "pipe_data m' p' ds = pipe_data m p ds"
    using l by (intro pipe_data_cong) (auto simp: chunk_size_def p'_def)
  moreover have "take (p_last_used p + length bs) (m' ! (c - 1)) = take (p_last_used p) (m ! (c - 1)) @ bs"
    using s(6) l by (simp add: m'_def)
  ultimately show data: "pipe_data m' p' cs = pipe_data m p cs @ bs"
    using l by (simp add: cs chunk_size_def p'_def)
  have "chain (chunk_next m') (p_first p) cs \<longleftrightarrow> chain (chunk_next m) (p_first p) cs"
    using s(3) own_valid [OF o] unfolding m'_def l by (intro chain_cong) auto
  then show "pipe_ok m' p' cs"
    using r n data by (auto simp: pipe_ok_def ready_def p'_def)
qed

lemma append_loop_appends:
  assumes "own m free cs fs rest" and "pipe_ok m p cs" and "length data \<le> n"
    and "append_loop n p (m, free) data = (p', (m', free'), k)"
  shows "\<exists>cs' fs'. own m' free' cs' fs' rest \<and> same_on rest m m' \<and> pipe_ok m' p' cs' \<and> same_ends p p' \<and>
           pipe_data m' p' cs' = pipe_data m p cs @ take k data \<and> k \<le> length data \<and> (k < length data \<longrightarrow> free' = 0)"
  using assms
proof (induction n arbitrary: m free cs fs p data k)
  case 0
  then show ?case by auto
next
  case (Suc n)
  show ?case
  proof (cases "data = [] \<or> grow_tail p (m, free) = None")
    case True
    then show ?thesis
      using Suc.prems grow_tail_refused [of p m free] by (intro exI [of _ cs] exI [of _ fs]) (auto split: if_splits)
  next
    case False
    then obtain p1 m1 free1 where g: "grow_tail p (m, free) = Some (p1, (m1, free1))" by auto
    obtain cs1 fs1 where c1: "own m1 free1 cs1 fs1 rest" "same_on rest m m1" "ready m1 p1 cs1"
        "pipe_data m1 p1 cs1 = pipe_data m p cs" "same_ends p p1"
      using grow_tail_ready [OF Suc.prems(1,2) g] by blast
    define t where "t = min (length data) (kChunkData - p_last_used p1)"
    have t: "0 < t" "t \<le> length data" "p_last_used p1 + t \<le> kChunkData"
      using False c1(3) by (auto simp: t_def ready_def)
    let ?m = "put_bytes (p_last p1) (p_last_used p1) (take t data) m1"
    let ?p = "p1\<lparr>p_last_used := p_last_used p1 + t, p_size := p_size p1 + t\<rparr>"
    have lt: "length (take t data) = t" and nt: "take t data \<noteq> []"
      using t by auto
    note f = fill_tail [OF c1(1,3) nt, unfolded lt, OF t(3)]
    obtain k' where loop: "append_loop n ?p (?m, free1) (drop t data) = (p', (m', free'), k')" and k: "k = t + k'"
      using Suc.prems(4) False g by (auto simp: Let_def t_def split: prod.splits)
    have dl: "length (drop t data) \<le> n"
      using t Suc.prems(3) by simp
    obtain cs' fs' where ih: "own m' free' cs' fs' rest" "same_on rest ?m m'" "pipe_ok m' p' cs'" "same_ends ?p p'"
        "pipe_data m' p' cs' = pipe_data ?m ?p cs1 @ take k' (drop t data)" "k' \<le> length (drop t data)"
        "k' < length (drop t data) \<longrightarrow> free' = 0"
      using Suc.IH [OF f(1,3) _ loop] dl by blast
    have "same_on rest m m'"
      using c1(2) f(2) ih(2) same_on_trans by blast
    moreover have "same_ends p p'"
      using c1(5) ih(4) by (auto simp: same_ends_def)
    ultimately show ?thesis
      using ih f(4) c1(4) t k by (intro exI [of _ cs'] exI [of _ fs']) (auto simp: take_add)
  qed
qed

section \<open>Reading\<close>

lemma chunk_bytes_length:
  assumes "chunks_ok m" and "valid m c" and "p_last_used p \<le> kChunkData"
  shows "length (take (chunk_size p c) (m ! (c - 1))) = chunk_size p c"
  using valid_nth [OF assms(1,2)] chunk_size_le [OF assms(3), of c] by (simp add: chunk_consts)

lemma read_seek_finds:
  assumes "chunks_ok m" and "p_last_used p \<le> kChunkData" and "chain (chunk_next m) c cs" and "\<forall>x\<in>set cs. valid m x"
    and "length cs \<le> fuel" and "position \<le> offset"
  shows "\<exists>us vs c'. read_seek fuel m p offset c position = Some (c', position + length (pipe_data m p us)) \<and>
           cs = us @ vs \<and> chain (chunk_next m) c' vs \<and> position + length (pipe_data m p us) \<le> offset"
  using assms
proof (induction cs arbitrary: c position fuel)
  case Nil
  then show ?case by (auto simp: read_seek.simps)
next
  case (Cons x cs)
  have len: "length (take (chunk_size p x) (m ! (x - 1))) = chunk_size p x"
    using Cons.prems by (intro chunk_bytes_length) auto
  show ?case
  proof (cases "offset < position + chunk_size p x")
    case True
    then show ?thesis
      using Cons.prems by (intro exI [of _ "[]"] exI [of _ "x # cs"] exI [of _ c]) (auto simp: read_seek.simps)
  next
    case False
    then obtain n where fuel: "fuel = Suc n" using Cons.prems by (cases fuel) auto
    obtain us vs c' where "read_seek n m p offset (chunk_next m x) (position + chunk_size p x) =
          Some (c', position + chunk_size p x + length (pipe_data m p us))"
        "cs = us @ vs" "chain (chunk_next m) c' vs" "position + chunk_size p x + length (pipe_data m p us) \<le> offset"
      using Cons.IH [of "chunk_next m x" n "position + chunk_size p x"] Cons.prems False fuel by auto
    then show ?thesis
      using Cons.prems False fuel len
      by - (rule exI [of _ "x # us"], rule exI [of _ vs], rule exI [of _ c'], auto simp: read_seek.simps [of "Suc n"])
  qed
qed

text \<open>One chunk takes two turns of the copy at most: the bytes of it, and the step to the next.\<close>

lemma read_copy_window:
  assumes "chunks_ok m" and "p_last_used p \<le> kChunkData" and "chain (chunk_next m) c cs" and "\<forall>x\<in>set cs. valid m x"
    and "2 * length cs \<le> fuel" and "position \<le> offset + length out" and "length out \<le> cnt"
  shows "read_copy fuel m p offset cnt c position out =
           Some (out @ take (cnt - length out) (drop (offset + length out - position) (pipe_data m p cs)))"
  using assms
proof (induction cs arbitrary: c position fuel out)
  case Nil
  then show ?case by (auto simp: read_copy.simps)
next
  case (Cons x cs)
  define s where "s = chunk_size p x"
  define b where "b = take s (m ! (x - 1))"
  have len: "length b = s"
    using Cons.prems unfolding b_def s_def by (intro chunk_bytes_length) auto
  obtain n where fuel: "fuel = Suc (Suc n)" "2 * length cs \<le> n"
    using Cons.prems by (cases fuel rule: nat.exhaust; cases "fuel - 1") auto
  have skip: "read_copy (Suc k) m p offset cnt c position o' =
      Some (o' @ take (cnt - length o') (drop (offset + length o' - position) (b @ pipe_data m p cs)))"
    if "2 * length cs \<le> k" "position + s \<le> offset + length o'" "length o' \<le> cnt" for k o'
    using that Cons.prems Cons.IH [of "chunk_next m x" k "position + s" o'] len
    by (auto simp: read_copy.simps [of "Suc k"] s_def Let_def)
  show ?case
  proof (cases "length out = cnt \<or> position + s \<le> offset + length out")
    case True
    then show ?thesis
      using skip [of "Suc n" out] fuel Cons.prems by (auto simp: b_def s_def read_copy.simps [of _ _ _ _ _ _ _ out])
  next
    case False
    define w where "w = offset + length out - position"
    define t where "t = min (cnt - length out) (s - w)"
    have w: "w < s" using False Cons.prems by (auto simp: w_def)
    have t: "bslice w t (m ! (x - 1)) = take t (drop w b)"
      by (simp add: bslice_def b_def t_def drop_take min.assoc)
    have tl: "length (take t (drop w b)) = t"
      using w len by (simp add: t_def)
    have turn: "read_copy fuel m p offset cnt c position out = read_copy (Suc n) m p offset cnt c position (out @ take t (drop w b))"
      using False Cons.prems fuel w t tl by (auto simp: read_copy.simps [of "Suc (Suc n)"] Let_def w_def [symmetric] s_def [symmetric] t_def [symmetric])
    show ?thesis
    proof (cases "t = cnt - length out")
      case True
      then have "take t (drop w (b @ pipe_data m p cs)) = take t (drop w b)"
        using w len by (simp add: t_def)
      then show ?thesis
        using turn True t tl Cons.prems by (auto simp: read_copy.simps [of "Suc n"] b_def s_def w_def)
    next
      case False
      then have ts: "t = s - w" "s - w < cnt - length out" by (auto simp: t_def)
      then have all: "take t (drop w b) = drop w b" using len by simp
      have at: "offset + length (out @ drop w b) - position = s" "length (out @ drop w b) \<le> cnt"
        using w len ts Cons.prems(6) by (auto simp: w_def)
      then have "read_copy fuel m p offset cnt c position out =
          Some (out @ drop w b @ take (cnt - length out - (s - w)) (pipe_data m p cs))"
        using turn skip [of n "out @ drop w b"] fuel len w by (auto simp: all)
      moreover have "take (cnt - length out) (drop w (b @ pipe_data m p cs)) =
          drop w b @ take (cnt - length out - (s - w)) (pipe_data m p cs)"
        using ts w len by simp
      ultimately show ?thesis by (simp add: w_def b_def s_def)
    qed
  qed
qed

lemma pipe_read_window:
  assumes "own m free cs fs rest" and "pipe_ok m p cs"
    and "s_chunks st = m" and "s_pipes st ! i = p"
  shows "pipe_read_at i offset cnt st = Some (take cnt (drop offset (pipe_data m p cs)))"
proof (cases "offset \<ge> p_size p")
  case True
  then show ?thesis
    using assms by (simp add: pipe_read_at_def pipe_ok_def)
next
  case False
  have ok: "chunks_ok m" "p_last_used p \<le> kChunkData" and ch: "chain (chunk_next m) (p_first p) cs"
    using assms by (auto simp: own_def pipe_ok_def)
  have v: "\<forall>x\<in>set cs. valid m x"
    using own_valid [OF assms(1)] by auto
  have len: "length cs \<le> length m"
    using own_length [OF assms(1)] by simp
  obtain us vs c where seek: "read_seek (length m) m p offset (p_first p) 0 = Some (c, length (pipe_data m p us))"
      and cs: "cs = us @ vs" and cv: "chain (chunk_next m) c vs" "length (pipe_data m p us) \<le> offset"
    using read_seek_finds [OF ok ch v len, of 0 offset] by auto
  have "read_copy (2 * length m) m p offset cnt c (length (pipe_data m p us)) [] =
          Some (take cnt (drop (offset - length (pipe_data m p us)) (pipe_data m p vs)))"
    using read_copy_window [OF ok cv(1), of "2 * length m" "length (pipe_data m p us)" offset "[]" cnt] v cs len cv(2) by auto
  then show ?thesis
    using False seek assms(3,4) cs cv(2) by (simp add: pipe_read_at_def chain_fuel_def)
qed

section \<open>Giving a chain back\<close>

lemma own_free:
  assumes "own m free (c # cs) fs rest"
  shows "own (set_free_next c free m) c cs (c # fs) rest" and "same_on rest m (set_free_next c free m)"
    and "\<And>x. valid m x \<Longrightarrow> chunk_next (set_free_next c free m) x = chunk_next m x"
proof -
  have v: "valid m c" and d: "c \<notin> set fs" "c \<notin> set rest"
    using own_valid [OF assms, of c] own_distinct [OF assms] by auto
  have "free = 0 \<or> valid m free"
    using own_valid [OF assms, of free] assms by (cases fs) (auto simp: own_def)
  then have "free < 2 ^ 32"
    using valid_less [OF own_ok [OF assms]] by auto
  note s = set_free_next_simps [OF own_ok [OF assms] v this]
  have "chain (free_next (set_free_next c free m)) free fs \<longleftrightarrow> chain (free_next m) free fs"
    by (rule chain_cong) (use s(3) d own_valid [OF assms] in fastforce)
  then show "own (set_free_next c free m) c cs (c # fs) rest"
    using assms s(1,2) s(3) [OF v] v by (auto simp: own_def valid_def)
  show "same_on rest m (set_free_next c free m)"
    using s(2,4) d own_valid [OF assms] by (auto simp: same_on_def)
  show "\<And>x. valid m x \<Longrightarrow> chunk_next (set_free_next c free m) x = chunk_next m x"
    by (rule s(5))
qed

lemma free_chain_frees:
  assumes "own m free cs fs rest" and "chain (chunk_next m) c cs" and "length cs \<le> fuel"
  shows "\<exists>m' free' fs'. free_chain fuel c (m, free) = Some (m', free') \<and> own m' free' [] fs' rest \<and> same_on rest m m'"
  using assms
proof (induction cs arbitrary: m free c fs fuel)
  case Nil
  then show ?case by (auto simp: free_chain.simps)
next
  case (Cons x cs)
  obtain n where fuel: "fuel = Suc n" "length cs \<le> n"
    using Cons.prems by (cases fuel) auto
  let ?m = "set_free_next x free m"
  note f = own_free [OF Cons.prems(1)]
  have "chain (chunk_next ?m) (chunk_next m x) cs \<longleftrightarrow> chain (chunk_next m) (chunk_next m x) cs"
    using f(3) own_valid [OF Cons.prems(1)] by (intro chain_cong) auto
  then obtain m' free' fs' where ih: "free_chain n (chunk_next m x) (?m, x) = Some (m', free')"
      "own m' free' [] fs' rest" "same_on rest ?m m'"
    using Cons.IH [OF f(1) _ fuel(2), of "chunk_next m x"] Cons.prems(2) by auto
  then show ?case
    using Cons.prems(2) fuel same_on_trans [OF f(2) ih(3)] by (auto simp: free_chain.simps [of "Suc n"] chunk_free_def)
qed

end
