(* ===== verification/Pipe_Proofs.thy ===== *)
theory Pipe_Proofs
  imports Pipe_Heap
begin

text \<open>
  The pipe service as a state machine: an invariant of its tables and its memory that every request
  keeps, from which follow that every request is answered, what a write adds and a read returns,
  which handles may use a pipe, and when a pipe's chunks go back to the free list.
\<close>

section \<open>The invariant\<close>

text \<open>Every chunk is free or in the chain of one pipe, and a slot that is not used has none.\<close>

definition memory_inv :: "chunks \<Rightarrow> nat \<Rightarrow> pipe list \<Rightarrow> nat list list \<Rightarrow> nat list \<Rightarrow> bool" where
  "memory_inv m free ps css fs \<longleftrightarrow>
     length css = length ps \<and> chunks_ok m \<and> chain (free_next m) free fs \<and>
     mset (concat css @ fs) = mset [1..<Suc (length m)] \<and>
     (\<forall>i<length ps. pipe_ok m (ps ! i) (css ! i) \<and> (\<not> p_used (ps ! i) \<longrightarrow> css ! i = []))"

text \<open>A name is one pipe's.\<close>

definition names_inv :: "pipe list \<Rightarrow> bool" where
  "names_inv ps \<longleftrightarrow>
     (\<forall>i<length ps. p_used (ps ! i) \<longrightarrow> 0 < length (p_name (ps ! i)) \<and> length (p_name (ps ! i)) \<le> kPipeNameMax) \<and>
     (\<forall>i<length ps. \<forall>j<length ps. p_used (ps ! i) \<and> p_used (ps ! j) \<and> p_name (ps ! i) = p_name (ps ! j) \<longrightarrow> i = j)"

definition on_pipe :: "nat \<Rightarrow> handle \<Rightarrow> bool" where
  "on_pipe i h \<longleftrightarrow> h_serial h \<noteq> 0 \<and> h_pipe h = i + 1"

text \<open>
  A handle in use is on a pipe in use, and its serial is its own. A pipe counts its handles, says that
  it has a writer only when a write handle is open, and is kept without a handle only while no reader
  has ever opened it.
\<close>

definition slot_ok :: "pipe list \<Rightarrow> nat \<Rightarrow> handle \<Rightarrow> bool" where
  "slot_ok ps serial h \<longleftrightarrow> (h_serial h \<noteq> 0 \<longrightarrow> h_serial h \<le> serial \<and> (\<exists>i<length ps. on_pipe i h \<and> p_used (ps ! i)))"

definition serials_distinct :: "handle list \<Rightarrow> bool" where
  "serials_distinct hs \<longleftrightarrow>
     (\<forall>k<length hs. \<forall>l<length hs. h_serial (hs ! k) \<noteq> 0 \<and> h_serial (hs ! k) = h_serial (hs ! l) \<longrightarrow> k = l)"

definition ends_ok :: "handle list \<Rightarrow> nat \<Rightarrow> pipe \<Rightarrow> bool" where
  "ends_ok hs i p \<longleftrightarrow>
     p_open_count p = length (filter (on_pipe i) hs) \<and>
     (p_writer_open p \<longrightarrow> (\<exists>h\<in>set hs. on_pipe i h \<and> h_kind h = kHandleWrite)) \<and>
     (p_used p \<and> p_reader_ever p \<longrightarrow> p_open_count p \<noteq> 0)"

definition handles_inv :: "pipe list \<Rightarrow> handle list \<Rightarrow> nat \<Rightarrow> bool" where
  "handles_inv ps hs serial \<longleftrightarrow>
     (\<forall>h\<in>set hs. slot_ok ps serial h) \<and> serials_distinct hs \<and> (\<forall>i<length ps. ends_ok hs i (ps ! i))"

definition pipe_inv :: "pipes \<Rightarrow> bool" where
  "pipe_inv st \<longleftrightarrow>
     (\<exists>css fs. memory_inv (s_chunks st) (s_free st) (s_pipes st) css fs) \<and> names_inv (s_pipes st) \<and>
     handles_inv (s_pipes st) (s_handles st) (s_serial st)"

section \<open>The memory, one pipe at a time\<close>

definition others :: "nat list list \<Rightarrow> nat \<Rightarrow> nat list" where
  "others css i = concat (css[i := []])"

lemma mset_concat_update:
  "i < length css \<Longrightarrow> mset (concat (css[i := xs])) = mset xs + mset (others css i)"
  by (simp add: others_def upd_conv_take_nth_drop)

lemma mset_concat_split: "i < length css \<Longrightarrow> mset (concat css) = mset (css ! i) + mset (others css i)"
  using mset_concat_update [of i css "css ! i"] by simp

lemma in_others: "i < length css \<Longrightarrow> j < length css \<Longrightarrow> j \<noteq> i \<Longrightarrow> set (css ! j) \<subseteq> set (others css i)"
  by (auto simp: others_def in_set_conv_nth) (metis length_list_update nth_list_update_neq nth_mem)

lemma memory_own:
  "memory_inv m free ps css fs \<Longrightarrow> i < length ps \<Longrightarrow> own m free (css ! i) fs (others css i)"
  using mset_concat_split [of i css] by (simp add: memory_inv_def own_def union_ac)

lemma memory_update:
  assumes inv: "memory_inv m free ps css fs" and i: "i < length ps" and o: "own m' free' cs' fs' (others css i)"
    and same: "same_on (others css i) m m'" and p: "pipe_ok m' p' cs'" and u: "\<not> p_used p' \<longrightarrow> cs' = []"
  shows "memory_inv m' free' (ps[i := p']) (css[i := cs']) fs'"
proof -
  have len: "length css = length ps" using inv by (simp add: memory_inv_def)
  have "pipe_ok m' (ps ! j) (css ! j)" if "j < length ps" "j \<noteq> i" for j
    using that inv i pipe_frame(2) [OF same in_others [of i css j]] len by (auto simp: memory_inv_def)
  moreover have "mset (concat (css[i := cs']) @ fs') = mset [1..<Suc (length m')]"
    using o i len by (simp add: own_def mset_concat_update union_ac)
  ultimately show ?thesis
    using inv o p u i len unfolding memory_inv_def own_def by (auto simp: nth_list_update simp del: upt_Suc)
qed

text \<open>The chunks of a pipe can be computed from the links, so the bytes it holds can.\<close>

primrec chain_of :: "nat \<Rightarrow> (nat \<Rightarrow> nat) \<Rightarrow> nat \<Rightarrow> nat list" where
  "chain_of 0 nx c = []"
| "chain_of (Suc n) nx c = (if c = 0 then [] else c # chain_of n nx (nx c))"

definition contents :: "pipes \<Rightarrow> nat \<Rightarrow> u8 list" where
  "contents st i =
     pipe_data (s_chunks st) (s_pipes st ! i)
       (chain_of (length (s_chunks st)) (chunk_next (s_chunks st)) (p_first (s_pipes st ! i)))"

lemma chain_of_chain: "chain nx c xs \<Longrightarrow> length xs \<le> n \<Longrightarrow> chain_of n nx c = xs"
proof (induction xs arbitrary: c n)
  case Nil
  then show ?case by (cases n) auto
next
  case (Cons x xs)
  then show ?case by (cases n) auto
qed

lemma contents_chunks:
  assumes "memory_inv (s_chunks st) (s_free st) (s_pipes st) css fs" and "i < length (s_pipes st)"
  shows "contents st i = pipe_data (s_chunks st) (s_pipes st ! i) (css ! i)"
proof -
  have "length (css ! i) \<le> length (s_chunks st)"
    using own_length [OF memory_own [OF assms]] by simp
  moreover have "chain (chunk_next (s_chunks st)) (p_first (s_pipes st ! i)) (css ! i)"
    using assms by (simp add: memory_inv_def pipe_ok_def)
  ultimately show ?thesis
    by (simp add: contents_def chain_of_chain)
qed

lemma memory_data_frame:
  assumes "memory_inv m free ps css fs" and "i < length ps" and "j < length ps" and "j \<noteq> i" and "same_on (others css i) m m'"
  shows "pipe_data m' (ps ! j) (css ! j) = pipe_data m (ps ! j) (css ! j)"
  using assms pipe_frame(1) [OF assms(5) in_others [of i css j]] by (simp add: memory_inv_def)

text \<open>What an operation on one pipe owes: the invariant again, the bytes as said, the other pipes alone.\<close>

lemma one_pipe:
  assumes inv: "memory_inv (s_chunks st) (s_free st) (s_pipes st) css fs" and i: "i < length (s_pipes st)"
    and o: "own m' free' cs' fs' (others css i)" and same: "same_on (others css i) (s_chunks st) m'"
    and p: "pipe_ok m' p' cs'" and u: "\<not> p_used p' \<longrightarrow> cs' = []"
    and st': "s_chunks st' = m'" "s_free st' = free'" "s_pipes st' = (s_pipes st)[i := p']"
  shows "\<exists>css fs. memory_inv (s_chunks st') (s_free st') (s_pipes st') css fs"
    and "contents st' i = pipe_data m' p' cs'" and "\<And>j. j < length (s_pipes st) \<Longrightarrow> j \<noteq> i \<Longrightarrow> contents st' j = contents st j"
proof -
  have inv': "memory_inv (s_chunks st') (s_free st') (s_pipes st') (css[i := cs']) fs'"
    unfolding st' by (rule memory_update [OF inv i o same p u])
  then show "\<exists>css fs. memory_inv (s_chunks st') (s_free st') (s_pipes st') css fs" by blast
  have len: "length css = length (s_pipes st)" using inv by (simp add: memory_inv_def)
  show "contents st' i = pipe_data m' p' cs'"
    using contents_chunks [OF inv', of i] i st' len by simp
  show "contents st' j = contents st j" if "j < length (s_pipes st)" "j \<noteq> i" for j
    using contents_chunks [OF inv', of j] contents_chunks [OF inv that(1)] memory_data_frame [OF inv i that same] that st' by simp
qed

section \<open>Appending, truncating and releasing\<close>

text \<open>The names and the handles see only the fields an append leaves alone.\<close>

lemma names_inv_same:
  assumes "names_inv ps" and "same_ends (ps ! i) p'"
  shows "names_inv (ps[i := p'])"
proof -
  have "p_used (ps[i := p'] ! j) = p_used (ps ! j) \<and> p_name (ps[i := p'] ! j) = p_name (ps ! j)" if "j < length ps" for j
    using assms(2) that by (cases "j = i") (auto simp: same_ends_def)
  then show ?thesis using assms(1) by (simp add: names_inv_def)
qed

lemma ends_ok_same: "same_ends p q \<Longrightarrow> ends_ok hs i q \<longleftrightarrow> ends_ok hs i p"
  by (simp add: same_ends_def ends_ok_def)

lemma slot_ok_update:
  "slot_ok ps serial h \<Longrightarrow> (p_used (ps ! i) \<and> on_pipe i h \<longrightarrow> p_used p') \<Longrightarrow> slot_ok (ps[i := p']) serial h"
  unfolding slot_ok_def by (metis length_list_update nth_list_update_eq nth_list_update_neq)

lemma handles_inv_same:
  assumes "handles_inv ps hs serial" and "same_ends (ps ! i) p'"
  shows "handles_inv (ps[i := p']) hs serial"
proof -
  have "slot_ok (ps[i := p']) serial h" if "h \<in> set hs" for h
    using assms that by (intro slot_ok_update) (auto simp: handles_inv_def same_ends_def)
  moreover have "ends_ok hs j (ps[i := p'] ! j)" if "j < length ps" for j
    using assms that ends_ok_same [of "ps ! i" p' hs i] by (cases "j = i") (auto simp: handles_inv_def)
  ultimately show ?thesis using assms(1) by (simp add: handles_inv_def)
qed

text \<open>The one operation a write performs.\<close>

lemma pipe_append_ok:
  assumes inv: "pipe_inv st" and i: "i < length (s_pipes st)" and u: "p_used (s_pipes st ! i)"
    and app: "pipe_append i data st = (st', k)"
  shows "pipe_inv st'" and "contents st' i = contents st i @ take k data"
    and "\<And>j. j < length (s_pipes st) \<Longrightarrow> j \<noteq> i \<Longrightarrow> contents st' j = contents st j"
    and "k \<le> length data" and "k < length data \<Longrightarrow> s_free st' = 0"
    and "s_handles st' = s_handles st" and "s_serial st' = s_serial st"
    and "\<exists>p'. s_pipes st' = (s_pipes st)[i := p'] \<and> same_ends (s_pipes st ! i) p'"
proof -
  obtain css fs where mem: "memory_inv (s_chunks st) (s_free st) (s_pipes st) css fs"
    using inv by (auto simp: pipe_inv_def)
  have ok: "pipe_ok (s_chunks st) (s_pipes st ! i) (css ! i)"
    using mem i by (simp add: memory_inv_def)
  obtain p' m' free' where loop: "append_loop (length data) (s_pipes st ! i) (s_chunks st, s_free st) data = (p', (m', free'), k)"
      and st': "st' = (with_heap st (m', free'))\<lparr>s_pipes := (s_pipes st)[i := p']\<rparr>"
    using app by (auto simp: pipe_append_def state_heap_def split: prod.splits)
  obtain cs' fs' where a: "own m' free' cs' fs' (others css i)" "same_on (others css i) (s_chunks st) m'" "pipe_ok m' p' cs'"
      "same_ends (s_pipes st ! i) p'" "pipe_data m' p' cs' = pipe_data (s_chunks st) (s_pipes st ! i) (css ! i) @ take k data"
      "k \<le> length data" "k < length data \<longrightarrow> free' = 0"
    using append_loop_appends [OF memory_own [OF mem i] ok order_refl loop] by blast
  have f: "s_chunks st' = m'" "s_free st' = free'" "s_pipes st' = (s_pipes st)[i := p']" "s_handles st' = s_handles st" "s_serial st' = s_serial st"
    by (simp_all add: st' with_heap_def)
  note one = one_pipe [OF mem i a(1-3) _ f(1-3)]
  show "pipe_inv st'"
    using one(1) inv a(4) u names_inv_same handles_inv_same by (auto simp: pipe_inv_def f same_ends_def)
  show "contents st' i = contents st i @ take k data"
    using one(2) a(4,5) u contents_chunks [OF mem i] by (auto simp: same_ends_def)
  show "contents st' j = contents st j" if "j < length (s_pipes st)" "j \<noteq> i" for j
    using one(3) [OF _ that] a(4) u by (auto simp: same_ends_def)
  show "k \<le> length data" and "k < length data \<Longrightarrow> s_free st' = 0"
    using a(6,7) f by auto
  show "s_handles st' = s_handles st" "s_serial st' = s_serial st"
    by (fact f)+
  show "\<exists>p'. s_pipes st' = (s_pipes st)[i := p'] \<and> same_ends (s_pipes st ! i) p'"
    using f(3) a(4) by blast
qed

definition emptied :: "pipe \<Rightarrow> pipe" where
  "emptied p = p\<lparr>p_first := 0, p_last := 0, p_last_used := 0, p_size := 0\<rparr>"

lemma emptied_simps [simp]: "pipe_ok m (emptied p) []" "same_ends p (emptied p)"
  by (simp_all add: emptied_def pipe_ok_def same_ends_def)

lemma pipe_ok_empty: "pipe_ok m p [] \<longleftrightarrow> p_first p = 0 \<and> p_last p = 0 \<and> p_last_used p = 0 \<and> p_size p = 0"
  by (auto simp: pipe_ok_def)

text \<open>
  Dropping what a pipe holds: any pipe with no chunk may then stand in its place, which is what a
  truncation and a release go on to do.
\<close>

lemma drop_chunks_ok:
  assumes mem: "memory_inv (s_chunks st) (s_free st) (s_pipes st) css fs" and i: "i < length (s_pipes st)"
  shows "\<exists>m' free' st'. drop_chunks i st = Some st' \<and>
           st' = (with_heap st (m', free'))\<lparr>s_pipes := (s_pipes st)[i := emptied (s_pipes st ! i)]\<rparr> \<and>
           (\<exists>fs'. own m' free' [] fs' (others css i)) \<and> same_on (others css i) (s_chunks st) m'"
proof -
  have "chain (chunk_next (s_chunks st)) (p_first (s_pipes st ! i)) (css ! i)"
    using mem i by (simp add: memory_inv_def pipe_ok_def)
  moreover have "length (css ! i) \<le> chain_fuel st"
    using own_length [OF memory_own [OF mem i]] by (simp add: chain_fuel_def)
  ultimately show ?thesis
    using free_chain_frees [OF memory_own [OF mem i]]
    by (fastforce simp: drop_chunks_def state_heap_def emptied_def)
qed

lemma truncate_ok:
  assumes inv: "pipe_inv st" and i: "i < length (s_pipes st)"
  shows "\<exists>st'. drop_chunks i st = Some st' \<and> pipe_inv st' \<and> contents st' i = [] \<and>
           (\<forall>j<length (s_pipes st). j \<noteq> i \<longrightarrow> contents st' j = contents st j) \<and>
           s_pipes st' = (s_pipes st)[i := emptied (s_pipes st ! i)] \<and> s_handles st' = s_handles st \<and> s_serial st' = s_serial st"
proof -
  obtain css fs where mem: "memory_inv (s_chunks st) (s_free st) (s_pipes st) css fs"
    using inv by (auto simp: pipe_inv_def)
  obtain m' free' fs' st' where d: "drop_chunks i st = Some st'"
      "st' = (with_heap st (m', free'))\<lparr>s_pipes := (s_pipes st)[i := emptied (s_pipes st ! i)]\<rparr>"
      "own m' free' [] fs' (others css i)" "same_on (others css i) (s_chunks st) m'"
    using drop_chunks_ok [OF mem i] by blast
  have f: "s_chunks st' = m'" "s_free st' = free'" "s_pipes st' = (s_pipes st)[i := emptied (s_pipes st ! i)]"
      "s_handles st' = s_handles st" "s_serial st' = s_serial st"
    by (simp_all add: d(2) with_heap_def)
  note one = one_pipe [OF mem i d(3,4) emptied_simps(1) _ f(1-3), simplified]
  have "pipe_inv st'"
    using one(1) inv names_inv_same [of _ i "emptied (s_pipes st ! i)"] handles_inv_same [of _ _ _ i "emptied (s_pipes st ! i)"]
    by (simp add: pipe_inv_def f)
  then show ?thesis
    using d(1) one(2,3) f by (intro exI [of _ st']) auto
qed

section \<open>Opening and closing\<close>

lemma length_filter_update:
  assumes "k < length xs"
  shows "length (filter P (xs[k := x])) + (if P (xs ! k) then 1 else 0) = length (filter P xs) + (if P x then 1 else 0)"
proof -
  have "filter P xs = filter P (take k xs @ xs ! k # drop (Suc k) xs)"
    using assms by (simp add: id_take_nth_drop [symmetric])
  then show ?thesis
    using assms by (simp add: upd_conv_take_nth_drop)
qed

lemma in_set_update: "h \<in> set xs \<Longrightarrow> h \<noteq> xs ! k \<Longrightarrow> h \<in> set (xs[k := x])"
  by (metis in_set_conv_nth length_list_update nth_list_update_neq)

lemma find_index:
  "List.find P [0..<n] = Some i \<longleftrightarrow> i < n \<and> P i \<and> (\<forall>j<i. \<not> P j)"
  by (auto simp: find_Some_iff)

lemma find_index_None: "List.find P [0..<n] = None \<longleftrightarrow> (\<forall>i<n. \<not> P i)"
  by (auto simp: find_None_iff)

lemma serials_distinct_update:
  assumes "serials_distinct hs" and "\<And>l. l < length hs \<Longrightarrow> h_serial h \<noteq> 0 \<Longrightarrow> h_serial (hs ! l) \<noteq> h_serial h"
  shows "serials_distinct (hs[k := h])"
  unfolding serials_distinct_def length_list_update
proof (intro allI impI, elim conjE)
  fix a b
  assume "a < length hs" "b < length hs" "h_serial (hs[k := h] ! a) \<noteq> 0" "h_serial (hs[k := h] ! a) = h_serial (hs[k := h] ! b)"
  then show "a = b"
    using assms(1) assms(2) [of a] assms(2) [of b] by (cases "a = k"; cases "b = k") (auto simp: serials_distinct_def)
qed

text \<open>A free slot taken by a handle on pipe \<open>i\<close> with a serial no handle has.\<close>

lemma open_handles:
  assumes inv: "handles_inv ps hs serial" and k: "k < length hs" "h_serial (hs ! k) = 0"
    and h: "h_serial h = Suc serial" "h_pipe h = Suc i" and i: "i < length ps" "p_used (ps ! i)"
    and p: "p_used p'" "p_open_count p' = Suc (p_open_count (ps ! i))"
      "p_writer_open p' \<longrightarrow> p_writer_open (ps ! i) \<or> h_kind h = kHandleWrite"
  shows "handles_inv (ps[i := p']) (hs[k := h]) (Suc serial)"
proof -
  have slot: "slot_ok ps serial x" if "x \<in> set hs" for x
    using inv that by (simp add: handles_inv_def)
  have "slot_ok (ps[i := p']) (Suc serial) x" if "x \<in> set (hs[k := h])" for x
  proof (cases "x = h")
    case True
    then show ?thesis using h i p by (auto simp: slot_ok_def on_pipe_def)
  next
    case False
    then have "x \<in> set hs" using that set_update_subset_insert [of hs k h] by auto
    then have "slot_ok ps (Suc serial) x"
      using slot [of x] by (auto simp: slot_ok_def)
    then show ?thesis using p(1) by (intro slot_ok_update) auto
  qed
  moreover have "h_serial (hs ! l) \<noteq> h_serial h" if "l < length hs" for l
    using slot [of "hs ! l"] that h(1) by (cases "h_serial (hs ! l) = 0") (auto simp: slot_ok_def)
  then have "serials_distinct (hs[k := h])"
    using inv h(1) by (intro serials_distinct_update) (auto simp: handles_inv_def)
  moreover have "ends_ok (hs[k := h]) j (ps[i := p'] ! j)" if "j < length ps" for j
  proof (cases "j = i")
    case True
    have "on_pipe i h" "\<not> on_pipe i (hs ! k)" "ends_ok hs i (ps ! i)"
      using inv h k i by (auto simp: on_pipe_def handles_inv_def)
    moreover from this have "x \<in> set (hs[k := h])" if "x \<in> set hs" "on_pipe i x" for x
      using that by (metis in_set_update)
    ultimately show ?thesis
      using True i p k length_filter_update [of k hs "on_pipe i" h] set_update_memI [OF k(1), of h]
      by (auto simp: ends_ok_def)
  next
    case False
    have n: "\<not> on_pipe j h" "\<not> on_pipe j (hs ! k)" "ends_ok hs j (ps ! j)"
      using False inv h k that by (auto simp: on_pipe_def handles_inv_def)
    moreover from this have "x \<in> set (hs[k := h])" if "x \<in> set hs" "on_pipe j x" for x
      using that by (metis in_set_update)
    ultimately show ?thesis
      using False k length_filter_update [of k hs "on_pipe j" h] by (auto simp: ends_ok_def)
  qed
  ultimately show ?thesis by (simp add: handles_inv_def)
qed

text \<open>A handle on pipe \<open>i\<close> given up.\<close>

lemma close_handles:
  assumes inv: "handles_inv ps hs serial" and k: "k < length hs" "on_pipe i (hs ! k)" and i: "i < length ps"
    and p: "p_open_count p' = p_open_count (ps ! i) - 1"
      "p_writer_open p' \<longrightarrow> p_writer_open (ps ! i) \<and> h_kind (hs ! k) \<noteq> kHandleWrite"
      "p_used p' \<and> p_reader_ever p' \<longrightarrow> p_open_count p' \<noteq> 0" "p_used p' \<or> p_open_count p' = 0"
    and h: "h_serial h = 0"
  shows "handles_inv (ps[i := p']) (hs[k := h]) serial"
proof -
  have cnt: "length (filter (on_pipe j) (hs[k := h])) + (if on_pipe j (hs ! k) then 1 else 0) = length (filter (on_pipe j) hs)" for j
    using length_filter_update [OF k(1), of "on_pipe j" h] h by (simp add: on_pipe_def)
  have e: "ends_ok hs j (ps ! j)" if "j < length ps" for j
    using inv that by (simp add: handles_inv_def)
  have ends: "ends_ok (hs[k := h]) j (ps[i := p'] ! j)" if "j < length ps" for j
  proof (cases "j = i")
    case True
    have "\<exists>x\<in>set (hs[k := h]). on_pipe i x \<and> h_kind x = kHandleWrite" if "p_writer_open p'"
      using that p(2) e [OF i] in_set_update [of _ hs k h] unfolding ends_ok_def by metis
    then show ?thesis
      using True i e [OF i] cnt [of i] k(2) p by (auto simp: ends_ok_def)
  next
    case False
    then have n: "\<not> on_pipe j (hs ! k)" using k by (auto simp: on_pipe_def)
    then have "\<exists>x\<in>set (hs[k := h]). on_pipe j x \<and> h_kind x = kHandleWrite" if "p_writer_open (ps ! j)"
      using that e [OF \<open>j < length ps\<close>] in_set_update [of _ hs k h] unfolding ends_ok_def by metis
    then show ?thesis
      using False e [OF that] cnt [of j] n by (auto simp: ends_ok_def)
  qed
  have "slot_ok (ps[i := p']) serial x" if "x \<in> set (hs[k := h])" for x
  proof (cases "on_pipe i x")
    case True
    then have "length (filter (on_pipe i) (hs[k := h])) \<noteq> 0"
      using that by (auto simp: filter_empty_conv)
    then have "p_used p'"
      using ends [OF i] i p(4) by (auto simp: ends_ok_def)
    moreover have "x \<in> set hs"
      using that True h set_update_subset_insert [of hs k h] by (auto simp: on_pipe_def)
    ultimately show ?thesis
      using inv by (intro slot_ok_update) (auto simp: handles_inv_def)
  next
    case False
    then have "x = h \<or> x \<in> set hs"
      using that set_update_subset_insert [of hs k h] by auto
    then show ?thesis
      using inv h False by (auto simp: handles_inv_def slot_ok_def [of _ _ h] intro!: slot_ok_update)
  qed
  moreover have "serials_distinct (hs[k := h])"
    using inv h by (intro serials_distinct_update) (auto simp: handles_inv_def)
  ultimately show ?thesis
    using ends by (simp add: handles_inv_def)
qed

lemma names_inv_update:
  assumes "names_inv ps" and "p_used p' \<Longrightarrow> 0 < length (p_name p') \<and> length (p_name p') \<le> kPipeNameMax"
    and "\<And>j. j < length ps \<Longrightarrow> j \<noteq> i \<Longrightarrow> p_used p' \<Longrightarrow> p_used (ps ! j) \<Longrightarrow> p_name (ps ! j) \<noteq> p_name p'"
  shows "names_inv (ps[i := p'])"
  unfolding names_inv_def length_list_update
proof (intro conjI allI impI; (elim conjE)?)
  fix a
  assume "a < length ps" "p_used (ps[i := p'] ! a)"
  then show "0 < length (p_name (ps[i := p'] ! a))" "length (p_name (ps[i := p'] ! a)) \<le> kPipeNameMax"
    using assms(1,2) by (cases "a = i"; auto simp: names_inv_def)+
next
  fix a b
  assume "a < length ps" "b < length ps" "p_used (ps[i := p'] ! a)" "p_used (ps[i := p'] ! b)"
    "p_name (ps[i := p'] ! a) = p_name (ps[i := p'] ! b)"
  then show "a = b"
    using assms(1) assms(3) [of a] assms(3) [of b] by (cases "a = i"; cases "b = i") (auto simp: names_inv_def)
qed

text \<open>What a state keeps of another besides one pipe.\<close>

definition same_tables :: "pipes \<Rightarrow> pipes \<Rightarrow> bool" where
  "same_tables st st' \<longleftrightarrow> s_handles st' = s_handles st \<and> s_serial st' = s_serial st \<and> length (s_pipes st') = length (s_pipes st)"

lemma unused_no_handle:
  assumes "handles_inv ps hs serial" and "h \<in> set hs" and "i < length ps" and "\<not> p_used (ps ! i)"
  shows "\<not> on_pipe i h"
  using assms by (auto simp: handles_inv_def slot_ok_def on_pipe_def)

lemma fresh_slot:
  assumes inv: "pipe_inv st" and i: "i < length (s_pipes st)" "\<not> p_used (s_pipes st ! i)"
    and n: "0 < length name" "length name \<le> kPipeNameMax" "\<forall>j<length (s_pipes st). p_used (s_pipes st ! j) \<longrightarrow> p_name (s_pipes st ! j) \<noteq> name"
    and st': "st' = st\<lparr>s_pipes := (s_pipes st)[i := fresh_pipe\<lparr>p_used := True, p_name := name\<rparr>]\<rparr>"
  shows "pipe_inv st'" and "\<And>j. j < length (s_pipes st) \<Longrightarrow> contents st' j = contents st j"
proof -
  let ?p = "fresh_pipe\<lparr>p_used := True, p_name := name\<rparr>"
  obtain css fs where mem: "memory_inv (s_chunks st) (s_free st) (s_pipes st) css fs"
    using inv by (auto simp: pipe_inv_def)
  have e: "css ! i = []" "pipe_ok (s_chunks st) ?p []"
    using mem i by (auto simp: memory_inv_def pipe_ok_empty fresh_pipe_def)
  have "own (s_chunks st) (s_free st) [] fs (others css i)"
    using memory_own [OF mem i(1)] e by simp
  note one = one_pipe [OF mem i(1) this same_on_refl e(2), of st', simplified, unfolded st', simplified]
  have hs: "handles_inv (s_pipes st) (s_handles st) (s_serial st)" using inv by (simp add: pipe_inv_def)
  then have "filter (on_pipe i) (s_handles st) = []"
    using unused_no_handle [OF hs _ i] by (auto simp: filter_empty_conv)
  then have "ends_ok (s_handles st) i ?p"
    by (simp add: ends_ok_def fresh_pipe_def)
  then have "handles_inv (s_pipes st') (s_handles st') (s_serial st')"
    using hs i unused_no_handle [OF hs _ i]
    by (auto simp: st' handles_inv_def nth_list_update intro!: slot_ok_update)
  moreover have "names_inv (s_pipes st')"
    unfolding st' using inv n by (simp, intro names_inv_update) (auto simp: pipe_inv_def fresh_pipe_def)
  ultimately show "pipe_inv st'"
    using one(1) by (simp add: pipe_inv_def st')
  show "contents st' j = contents st j" if "j < length (s_pipes st)" for j
  proof (cases "j = i")
    case True
    then show ?thesis using one(2) contents_chunks [OF mem i(1)] e by (simp add: st')
  next
    case False
    then show ?thesis using one(3) [OF that] by (simp add: st')
  qed
qed

lemma pipe_find_Some:
  "pipe_find st name = Some i \<Longrightarrow> i < length (s_pipes st) \<and> p_used (s_pipes st ! i) \<and> p_name (s_pipes st ! i) = name"
  by (auto simp: pipe_find_def find_index split: if_splits)

lemma pipe_find_None:
  "pipe_find st name = None \<Longrightarrow> 0 < length name \<Longrightarrow> length name \<le> kPipeNameMax \<Longrightarrow>
   \<forall>j<length (s_pipes st). p_used (s_pipes st ! j) \<longrightarrow> p_name (s_pipes st ! j) \<noteq> name"
  by (auto simp: pipe_find_def find_index_None)

lemma pipe_make_ok:
  assumes inv: "pipe_inv st" and mk: "pipe_make st name = (st', r)"
  shows "pipe_inv st'" and "same_tables st st'" and "\<And>j. j < length (s_pipes st) \<Longrightarrow> contents st' j = contents st j"
    and "\<And>i. r = Some i \<Longrightarrow> i < length (s_pipes st) \<and> p_used (s_pipes st' ! i) \<and> p_name (s_pipes st' ! i) = name"
proof -
  have "(pipe_inv st' \<and> (\<forall>j<length (s_pipes st). contents st' j = contents st j)) \<and> same_tables st st' \<and>
      (\<forall>i. r = Some i \<longrightarrow> i < length (s_pipes st) \<and> p_used (s_pipes st' ! i) \<and> p_name (s_pipes st' ! i) = name)"
  proof (cases "r = None \<or> pipe_find st name \<noteq> None")
    case True
    then have "st' = st"
      using mk by (auto simp: pipe_make_def split: if_splits option.splits)
    moreover have "pipe_find st name = Some i" if "r = Some i" for i
      using True mk that by (auto simp: pipe_make_def split: if_splits option.splits)
    ultimately show ?thesis
      using inv pipe_find_Some [of st name] by (auto simp: same_tables_def)
  next
    case False
    then obtain i where i: "i < length (s_pipes st)" "\<not> p_used (s_pipes st ! i)" and r: "r = Some i"
        and n: "0 < length name" "length name \<le> kPipeNameMax"
        and st': "st' = st\<lparr>s_pipes := (s_pipes st)[i := fresh_pipe\<lparr>p_used := True, p_name := name\<rparr>]\<rparr>"
      using mk by (auto simp: pipe_make_def find_index split: if_splits option.splits)
    note f = fresh_slot [OF inv i n pipe_find_None [OF _ n] st']
    show ?thesis
      using False f r i by (auto simp: st' same_tables_def)
  qed
  then show "pipe_inv st'" and "same_tables st st'" and "\<And>j. j < length (s_pipes st) \<Longrightarrow> contents st' j = contents st j"
    and "\<And>i. r = Some i \<Longrightarrow> i < length (s_pipes st) \<and> p_used (s_pipes st' ! i) \<and> p_name (s_pipes st' ! i) = name"
    by auto
qed

text \<open>The contents read only the chunks and where a pipe's chain starts and ends.\<close>

lemma contents_cong:
  "s_chunks st' = s_chunks st \<Longrightarrow> p_first (s_pipes st' ! i) = p_first (s_pipes st ! i) \<Longrightarrow>
   p_last (s_pipes st' ! i) = p_last (s_pipes st ! i) \<Longrightarrow> p_last_used (s_pipes st' ! i) = p_last_used (s_pipes st ! i) \<Longrightarrow>
   contents st' i = contents st i"
  unfolding contents_def by (simp, intro pipe_data_cong) (simp add: chunk_size_def)

text \<open>An update of one pipe that leaves its chain alone.\<close>

lemma memory_same_chain:
  assumes mem: "memory_inv m free ps css fs" and i: "i < length ps"
    and p: "p_first p' = p_first (ps ! i)" "p_last p' = p_last (ps ! i)" "p_last_used p' = p_last_used (ps ! i)"
      "p_size p' = p_size (ps ! i)" "p_used p' = p_used (ps ! i)"
  shows "memory_inv m free (ps[i := p']) css fs"
proof -
  have "pipe_data m p' (css ! i) = pipe_data m (ps ! i) (css ! i)"
    using p by (intro pipe_data_cong) (simp add: chunk_size_def)
  then have "pipe_ok m p' (css ! i)"
    using mem i p by (simp add: memory_inv_def pipe_ok_def)
  then show ?thesis
    using memory_update [OF mem i memory_own [OF mem i] same_on_refl, of p'] mem i p by (simp add: memory_inv_def)
qed

lemma handle_lookup_own:
  assumes "serials_distinct (s_handles st)" and "k < length (s_handles st)" and "h_serial (s_handles st ! k) = serial"
    and "serial \<noteq> 0" and "h_badge (s_handles st ! k) = badge"
  shows "handle_lookup st serial badge = Some k"
proof -
  have "\<forall>j<k. h_serial (s_handles st ! j) \<noteq> serial"
  proof (intro allI impI notI)
    fix j assume "j < k" "h_serial (s_handles st ! j) = serial"
    then have "j = k" using assms(1-4) unfolding serials_distinct_def by (metis order.strict_trans)
    then show False using \<open>j < k\<close> by simp
  qed
  then have "List.find (\<lambda>i. h_serial (s_handles st ! i) = serial) [0..<length (s_handles st)] = Some k"
    using assms by (simp add: find_index)
  then show ?thesis using assms by (simp add: handle_lookup_def)
qed

lemma open_handle_refused: "handle_alloc st badge = (st1, None) \<Longrightarrow> st1 = st \<and> open_handle i reading badge st = (st, [0], [])"
  by (auto simp: handle_alloc_def open_handle_def Let_def split: option.splits)

text \<open>The handle an open gives is the caller's, of the kind asked for, and no other has its serial.\<close>

lemma open_handle_given:
  assumes inv: "pipe_inv st" and i: "i < length (s_pipes st)" "p_used (s_pipes st ! i)"
    and lim: "s_serial st < 2 ^ 64 - 1" and al: "handle_alloc st badge = (st1, Some k)"
    and op: "open_handle i reading badge st = (st', r)"
  shows "pipe_inv st'" and "\<And>j. j < length (s_pipes st) \<Longrightarrow> contents st' j = contents st j"
    and "s_serial st' = Suc (s_serial st)" and "length (s_pipes st') = length (s_pipes st)"
    and "r = ([of_nat (s_serial st')], [])" and "handle_lookup st' (s_serial st') badge = Some k"
    and "h_pipe (s_handles st' ! k) = Suc i" and "h_kind (s_handles st' ! k) = (if reading then kHandleRead else kHandleWrite)"
    and "p_writer_open (s_pipes st' ! i) \<longleftrightarrow> p_writer_open (s_pipes st ! i) \<or> \<not> reading"
proof -
  have k: "k < length (s_handles st)" "h_serial (s_handles st ! k) = 0" and m: "(s_serial st + 1) mod 2 ^ 64 = Suc (s_serial st)"
    using al lim by (auto simp: handle_alloc_def find_index Let_def split: option.splits)
  define p where "p = s_pipes st ! i"
  define p' where "p' = (if reading then p\<lparr>p_open_count := p_open_count p + 1, p_reader_open := True, p_reader_ever := True\<rparr>
                         else p\<lparr>p_open_count := p_open_count p + 1, p_writer_open := True\<rparr>)"
  define h where "h = (s_handles st ! k)\<lparr>h_serial := Suc (s_serial st), h_badge := badge, h_pipe := Suc i,
                         h_kind := if reading then kHandleRead else kHandleWrite\<rparr>"
  have st': "st' = st\<lparr>s_serial := Suc (s_serial st), s_handles := (s_handles st)[k := h], s_pipes := (s_pipes st)[i := p']\<rparr>"
      and r: "r = ([of_nat (Suc (s_serial st))], [])"
    using op al k m lim
    by (auto simp: open_handle_def handle_alloc_def Let_def h_def p'_def p_def split: option.splits if_splits)
  have same: "p_first p' = p_first p" "p_last p' = p_last p" "p_last_used p' = p_last_used p" "p_size p' = p_size p"
      "p_used p' = p_used p" "p_name p' = p_name p"
    by (auto simp: p'_def)
  have "handles_inv (s_pipes st') (s_handles st') (s_serial st')"
    unfolding st' using inv k i by (simp, intro open_handles) (auto simp: pipe_inv_def h_def p'_def p_def)
  moreover have "names_inv (s_pipes st')"
    unfolding st' using inv same i(1) by (simp, intro names_inv_update) (auto simp: pipe_inv_def names_inv_def p_def)
  moreover
  obtain css fs where mem: "memory_inv (s_chunks st) (s_free st) (s_pipes st) css fs"
    using inv by (auto simp: pipe_inv_def)
  have "memory_inv (s_chunks st') (s_free st') (s_pipes st') css fs"
    unfolding st' using memory_same_chain [OF mem i(1), of p'] same by (simp add: p_def)
  ultimately show "pipe_inv st'" unfolding pipe_inv_def by blast
  then have d: "serials_distinct (s_handles st')" by (simp add: pipe_inv_def handles_inv_def)
  have hk: "s_handles st' ! k = h" "k < length (s_handles st')" using k by (auto simp: st')
  then show "handle_lookup st' (s_serial st') badge = Some k"
    using d by (intro handle_lookup_own) (simp_all add: st' h_def)
  show "contents st' j = contents st j" if "j < length (s_pipes st)" for j
    using same that i by (cases "j = i"; intro contents_cong) (auto simp: st' p_def)
  show "s_serial st' = Suc (s_serial st)" "length (s_pipes st') = length (s_pipes st)" "r = ([of_nat (s_serial st')], [])"
    using r by (auto simp: st')
  show "h_pipe (s_handles st' ! k) = Suc i" "h_kind (s_handles st' ! k) = (if reading then kHandleRead else kHandleWrite)"
    using hk by (auto simp: h_def)
  show "p_writer_open (s_pipes st' ! i) \<longleftrightarrow> p_writer_open (s_pipes st ! i) \<or> \<not> reading"
    using i by (auto simp: st' p'_def p_def)
qed

lemma open_handle_ok:
  assumes "pipe_inv st" and "i < length (s_pipes st)" and "p_used (s_pipes st ! i)" and "s_serial st < 2 ^ 64 - 1"
    and "open_handle i reading badge st = (st', r)"
  shows "pipe_inv st'" and "s_serial st' \<le> Suc (s_serial st)" and "length (s_pipes st') = length (s_pipes st)"
    and "\<And>j. j < length (s_pipes st) \<Longrightarrow> contents st' j = contents st j"
proof -
  obtain st1 ko where al: "handle_alloc st badge = (st1, ko)" by force
  have "pipe_inv st' \<and> s_serial st' \<le> Suc (s_serial st) \<and> length (s_pipes st') = length (s_pipes st) \<and>
      (\<forall>j<length (s_pipes st). contents st' j = contents st j)"
  proof (cases ko)
    case None
    then show ?thesis using al assms open_handle_refused [of st badge st1 i reading] by auto
  next
    case (Some k)
    note g = open_handle_given [OF assms(1-4) al [unfolded Some] assms(5)]
    show ?thesis using g(1-4) by simp
  qed
  then show "pipe_inv st'" and "s_serial st' \<le> Suc (s_serial st)" and "length (s_pipes st') = length (s_pipes st)"
    and "\<And>j. j < length (s_pipes st) \<Longrightarrow> contents st' j = contents st j" by auto
qed

lemma answer_open_ok:
  assumes inv: "pipe_inv st" and lim: "s_serial st < 2 ^ 64 - 1"
  shows "\<exists>st' r. answer_open ws badge st = Some (st', r) \<and> pipe_inv st' \<and> s_serial st' \<le> Suc (s_serial st)"
proof (cases "unpack_string ws ns_kPathMax")
  case None
  then show ?thesis using inv by (simp add: answer_open_def)
next
  case (Some path)
  obtain st1 ro where mk: "pipe_make st path = (st1, ro)" by force
  note m = pipe_make_ok [OF inv mk]
  show ?thesis
  proof (cases "length ws < path_words path + 1 \<or> ro = None")
    case True
    then show ?thesis
      using Some inv m(1,2) mk by (auto simp: answer_open_def Let_def same_tables_def)
  next
    case False
    then obtain i where ro: "ro = Some i" by auto
    define reading where "reading \<longleftrightarrow> ws ! path_words path AND kOpenRead \<noteq> 0"
    define cut where "cut \<longleftrightarrow> \<not> reading \<and> ws ! path_words path AND kOpenTruncate \<noteq> 0"
    have i: "i < length (s_pipes st1)" "p_used (s_pipes st1 ! i)" and sr: "s_serial st1 = s_serial st"
      using m(2) m(4) [OF ro] by (auto simp: same_tables_def)
    obtain st2 where st2: "(if cut then drop_chunks i st1 else Some st1) = Some st2" "pipe_inv st2" "s_serial st2 = s_serial st"
        "i < length (s_pipes st2)" "p_used (s_pipes st2 ! i)"
      using truncate_ok [OF m(1) i(1)] m(1) i sr by (cases cut) (auto simp: emptied_def)
    obtain st' r where op: "open_handle i reading badge st2 = (st', r)" by (rule prod.exhaust)
    have "answer_open ws badge st = Some (st', r)"
      using Some False mk ro op st2(1) by (simp add: answer_open_def Let_def reading_def cut_def)
    then show ?thesis
      using open_handle_ok [OF st2(2,4,5) _ op] lim st2(3) by auto
  qed
qed

text \<open>
  A close: the handle goes, and with the last one of a pipe a reader has opened the pipe goes too,
  its chunks back on the free list.
\<close>

definition closed_end :: "handle \<Rightarrow> pipe \<Rightarrow> pipe" where
  "closed_end h p =
     (let p1 = (if h_kind h = kHandleRead then p\<lparr>p_reader_open := False\<rparr> else p\<lparr>p_writer_open := False\<rparr>)
      in if p_open_count p1 \<noteq> 0 then p1\<lparr>p_open_count := p_open_count p1 - 1\<rparr> else p1)"

lemma closed_end_simps [simp]:
  "p_first (closed_end h p) = p_first p" "p_last (closed_end h p) = p_last p" "p_last_used (closed_end h p) = p_last_used p"
  "p_size (closed_end h p) = p_size p" "p_used (closed_end h p) = p_used p" "p_name (closed_end h p) = p_name p"
  "p_reader_ever (closed_end h p) = p_reader_ever p" "p_open_count (closed_end h p) = p_open_count p - 1"
  "p_writer_open (closed_end h p) \<longleftrightarrow> p_writer_open p \<and> h_kind h = kHandleRead"
  by (auto simp: closed_end_def Let_def)

lemma handle_lookup_Some:
  "handle_lookup st serial badge = Some k \<Longrightarrow>
   k < length (s_handles st) \<and> h_serial (s_handles st ! k) = serial \<and> serial \<noteq> 0 \<and> h_badge (s_handles st ! k) = badge"
  by (auto simp: handle_lookup_def find_index split: if_splits option.splits)

lemma handle_pipe:
  assumes "pipe_inv st" and "handle_lookup st serial badge = Some k"
  shows "\<exists>i<length (s_pipes st). h_pipe (s_handles st ! k) = Suc i \<and> on_pipe i (s_handles st ! k) \<and> p_used (s_pipes st ! i)"
proof -
  have "slot_ok (s_pipes st) (s_serial st) (s_handles st ! k)"
    using assms handle_lookup_Some [OF assms(2)] by (simp add: pipe_inv_def handles_inv_def)
  then show ?thesis
    using handle_lookup_Some [OF assms(2)] by (auto simp: slot_ok_def on_pipe_def)
qed

lemma close_kept:
  assumes inv: "pipe_inv st" and k: "k < length (s_handles st)" "on_pipe i (s_handles st ! k)" and i: "i < length (s_pipes st)"
    and keep: "\<not> (p_reader_ever (s_pipes st ! i) \<and> p_open_count (s_pipes st ! i) = 1)" and h: "h_serial h = 0"
    and st': "st' = st\<lparr>s_pipes := (s_pipes st)[i := closed_end (s_handles st ! k) (s_pipes st ! i)], s_handles := (s_handles st)[k := h]\<rparr>"
  shows "pipe_inv st'" and "\<And>j. j < length (s_pipes st) \<Longrightarrow> contents st' j = contents st j"
proof -
  have hs: "handles_inv (s_pipes st) (s_handles st) (s_serial st)" using inv by (simp add: pipe_inv_def)
  have "p_used (s_pipes st ! i)" "p_open_count (s_pipes st ! i) \<noteq> 0"
    using unused_no_handle [OF hs, of "s_handles st ! k" i] k i hs
    by (auto simp: handles_inv_def ends_ok_def filter_empty_conv)
  then have "handles_inv (s_pipes st') (s_handles st') (s_serial st')"
    unfolding st' using hs k i h keep by (simp, intro close_handles) (auto simp: handles_inv_def ends_ok_def)
  moreover have "names_inv (s_pipes st')"
    unfolding st' using inv i by (simp, intro names_inv_update) (auto simp: pipe_inv_def names_inv_def)
  moreover obtain css fs where mem: "memory_inv (s_chunks st) (s_free st) (s_pipes st) css fs"
    using inv by (auto simp: pipe_inv_def)
  have "memory_inv (s_chunks st') (s_free st') (s_pipes st') css fs"
    unfolding st' using memory_same_chain [OF mem i] by simp
  ultimately show "pipe_inv st'" unfolding pipe_inv_def by blast
  show "contents st' j = contents st j" if "j < length (s_pipes st)" for j
    using that i by (cases "j = i"; intro contents_cong) (auto simp: st')
qed

lemma close_last:
  assumes inv: "pipe_inv st" and k: "k < length (s_handles st)" "on_pipe i (s_handles st ! k)" and i: "i < length (s_pipes st)"
    and last: "p_open_count (s_pipes st ! i) = 1" and h: "h_serial h = 0"
    and st1: "st1 = st\<lparr>s_pipes := (s_pipes st)[i := closed_end (s_handles st ! k) (s_pipes st ! i)], s_handles := (s_handles st)[k := h]\<rparr>"
  shows "\<exists>st'. pipe_release i st1 = Some st' \<and> pipe_inv st' \<and> s_serial st' = s_serial st \<and> \<not> p_used (s_pipes st' ! i) \<and>
           (\<forall>j<length (s_pipes st). contents st' j = (if j = i then [] else contents st j))"
proof -
  obtain css fs where mem: "memory_inv (s_chunks st) (s_free st) (s_pipes st) css fs"
    using inv by (auto simp: pipe_inv_def)
  have mem1: "memory_inv (s_chunks st1) (s_free st1) (s_pipes st1) css fs" and i1: "i < length (s_pipes st1)"
    unfolding st1 using memory_same_chain [OF mem i] i by simp_all
  obtain m' free' fs' st2 where d: "drop_chunks i st1 = Some st2"
      "st2 = (with_heap st1 (m', free'))\<lparr>s_pipes := (s_pipes st1)[i := emptied (s_pipes st1 ! i)]\<rparr>"
      "own m' free' [] fs' (others css i)" "same_on (others css i) (s_chunks st1) m'"
    using drop_chunks_ok [OF mem1 i1] by blast
  define p' where "p' = (emptied (closed_end (s_handles st ! k) (s_pipes st ! i)))\<lparr>p_used := False, p_name := []\<rparr>"
  define st' where "st' = (with_heap st1 (m', free'))\<lparr>s_pipes := (s_pipes st)[i := p']\<rparr>"
  have "pipe_release i st1 = Some st'"
    using d(1,2) i by (simp add: pipe_release_def st'_def st1 with_heap_def p'_def)
  moreover have f: "s_chunks st' = m'" "s_free st' = free'" "s_pipes st' = (s_pipes st)[i := p']"
    "s_handles st' = (s_handles st)[k := h]" "s_serial st' = s_serial st" "s_chunks st1 = s_chunks st"
    by (simp_all add: st'_def st1 with_heap_def)
  have "pipe_ok m' p' []" by (simp add: p'_def emptied_def pipe_ok_empty)
  note one = one_pipe [OF mem i d(3) d(4) [unfolded f] this _ f(1-3), simplified]
  have "handles_inv (s_pipes st') (s_handles st') (s_serial st')"
    unfolding f using inv k i h last
    by (intro close_handles) (auto simp: pipe_inv_def p'_def emptied_def)
  moreover have "names_inv (s_pipes st')"
    unfolding f using inv by (intro names_inv_update) (auto simp: pipe_inv_def p'_def)
  ultimately show ?thesis
    using one f i by (intro exI [of _ st']) (auto simp: pipe_inv_def p'_def)
qed

lemma answer_close_ok:
  assumes inv: "pipe_inv st"
  shows "\<exists>st' r. answer_close ws badge st = Some (st', r) \<and> pipe_inv st' \<and> s_serial st' = s_serial st"
proof (cases "ws = [] \<or> handle_lookup st (unat (ws ! 0)) badge = None")
  case True
  then show ?thesis using inv by (auto simp: answer_close_def)
next
  case False
  then obtain k where look: "handle_lookup st (unat (ws ! 0)) badge = Some k" by auto
  obtain i where i: "i < length (s_pipes st)" "h_pipe (s_handles st ! k) = Suc i" "on_pipe i (s_handles st ! k)"
    using handle_pipe [OF inv look] by blast
  have k: "k < length (s_handles st)" using handle_lookup_Some [OF look] by simp
  let ?h = "(s_handles st ! k)\<lparr>h_serial := 0, h_pipe := 0\<rparr>"
  let ?p = "closed_end (s_handles st ! k) (s_pipes st ! i)"
  let ?st = "st\<lparr>s_pipes := (s_pipes st)[i := ?p], s_handles := (s_handles st)[k := ?h]\<rparr>"
  have hs: "handles_inv (s_pipes st) (s_handles st) (s_serial st)" using inv by (simp add: pipe_inv_def)
  have n: "p_open_count (s_pipes st ! i) \<noteq> 0"
    using hs i k by (auto simp: handles_inv_def ends_ok_def filter_empty_conv)
  have ans: "answer_close ws badge st = map_option (\<lambda>st2. (st2, [1], []))
      (if p_reader_ever ?p \<and> p_open_count ?p = 0 then pipe_release i ?st else Some ?st)"
    using False look i(2) by (simp add: answer_close_def Let_def closed_end_def)
  show ?thesis
  proof (cases "p_reader_ever (s_pipes st ! i) \<and> p_open_count (s_pipes st ! i) = 1")
    case True
    then show ?thesis
      using close_last [OF inv k i(3,1), of ?h ?st] ans by auto
  next
    case False
    then show ?thesis
      using close_kept [OF inv k i(3,1) False, of ?h ?st] ans n by auto
  qed
qed

section \<open>The start and the steps\<close>

lemma own_perm: "own m free cs fs rest \<Longrightarrow> mset cs' = mset cs \<Longrightarrow> own m free cs' fs rest"
  by (simp add: own_def)

lemma link_chunks_own:
  assumes "own m free [1..<Suc n] fs []"
  shows "\<exists>m' free' fs'. link_chunks n (m, free) = (m', free') \<and> own m' free' [] fs' [] \<and> length m' = length m"
  using assms
proof (induction n arbitrary: m free fs)
  case 0
  then show ?case by auto
next
  case (Suc n)
  have "own m free (Suc n # [1..<Suc n]) fs []"
    by (rule own_perm [OF Suc.prems]) simp
  note f = own_free [OF this]
  show ?case
    using Suc.IH [OF f(1)] f(2) by (simp add: chunk_free_def same_on_def)
qed

lemma memory_init_heap:
  assumes "n < 2 ^ 32"
  shows "\<exists>m free fs. link_chunks n (replicate n (replicate kChunkBytes 0), 0) = (m, free) \<and> own m free [] fs []"
proof -
  have "own (replicate n (replicate kChunkBytes 0)) 0 [1..<Suc n] [] []"
    using assms by (simp add: own_def chunks_ok_def)
  then show ?thesis using link_chunks_own by blast
qed

lemma memory_init_inv:
  assumes "bytes < 2 ^ 32"
  shows "pipe_inv (memory_init bytes)" and "s_serial (memory_init bytes) = 0"
proof -
  define n where "n = (bytes - bytes div 4) div kChunkBytes"
  define a where "a = bytes div 4 div 2 div kPipeSize"
  define b where "b = (bytes div 4 - a * kPipeSize) div kHandleSize"
  have "n \<le> bytes" unfolding n_def by (meson diff_le_self div_le_dividend order_trans)
  then obtain m free fs where l: "link_chunks n (replicate n (replicate kChunkBytes 0), 0) = (m, free)" and o: "own m free [] fs []"
    using memory_init_heap [of n] assms by auto
  have st: "memory_init bytes = \<lparr>s_pipes = replicate a fresh_pipe, s_handles = replicate b fresh_handle,
      s_chunks = m, s_free = free, s_serial = 0\<rparr>"
    using l by (simp add: memory_init_def Let_def n_def a_def b_def)
  have "memory_inv m free (replicate a fresh_pipe) (replicate a []) fs"
    using o by (simp add: memory_inv_def own_def pipe_ok_empty fresh_pipe_def)
  moreover have "names_inv (replicate a fresh_pipe)"
    by (simp add: names_inv_def fresh_pipe_def)
  moreover have "handles_inv (replicate a fresh_pipe) (replicate b fresh_handle) 0"
    by (simp add: handles_inv_def slot_ok_def serials_distinct_def ends_ok_def fresh_pipe_def fresh_handle_def on_pipe_def)
  ultimately show "pipe_inv (memory_init bytes)"
    by (auto simp: pipe_inv_def st)
  show "s_serial (memory_init bytes) = 0"
    by (simp add: st)
qed

lemma read_reply_window:
  assumes "pipe_inv st" and "i < length (s_pipes st)"
  shows "p_size (s_pipes st ! i) = length (contents st i)"
    and "pipe_read_at i offset cnt st = Some (take cnt (drop offset (contents st i)))"
proof -
  obtain css fs where mem: "memory_inv (s_chunks st) (s_free st) (s_pipes st) css fs"
    using assms by (auto simp: pipe_inv_def)
  have "pipe_ok (s_chunks st) (s_pipes st ! i) (css ! i)"
    using mem assms(2) by (simp add: memory_inv_def)
  then show "p_size (s_pipes st ! i) = length (contents st i)"
      "pipe_read_at i offset cnt st = Some (take cnt (drop offset (contents st i)))"
    using contents_chunks [OF mem assms(2)] pipe_read_window [OF memory_own [OF mem assms(2)], of "s_pipes st ! i" st i]
    by (simp_all add: pipe_ok_def)
qed

lemma answer_write_ok:
  assumes inv: "pipe_inv st" and ans: "answer_write ws badge st = (st', r)"
  shows "pipe_inv st'" and "s_serial st' = s_serial st"
proof -
  have "pipe_inv st' \<and> s_serial st' = s_serial st"
  proof (cases "st' = st")
    case False
    then obtain k where look: "handle_lookup st (unat (ws ! 0)) badge = Some k"
        and app: "\<exists>n. pipe_append (h_pipe (s_handles st ! k) - 1) (take (unat (ws ! 2)) (bytes_of_words (drop 3 ws))) st = (st', n)"
      using ans by (auto simp: answer_write_def Let_def split: if_splits option.splits prod.splits)
    obtain i where "i < length (s_pipes st)" "h_pipe (s_handles st ! k) = Suc i" "p_used (s_pipes st ! i)"
      using handle_pipe [OF inv look] by blast
    then show ?thesis using pipe_append_ok(1,7) [OF inv] app by auto
  qed (use inv in simp)
  then show "pipe_inv st'" "s_serial st' = s_serial st" by auto
qed

lemma answer_read_some:
  assumes inv: "pipe_inv st"
  shows "answer_read ws st \<noteq> None" and "answer_read_handle ws badge st \<noteq> None"
proof -
  have rr: "read_reply i off wanted st \<noteq> None" if "i < length (s_pipes st)" for i off wanted
    using read_reply_window(2) [OF inv that] by (simp add: read_reply_def)
  show "answer_read ws st \<noteq> None"
    using rr pipe_find_Some [of st] by (auto simp: answer_read_def split: option.splits)
  show "answer_read_handle ws badge st \<noteq> None"
    using rr handle_pipe [OF inv, of "unat (ws ! 0)" badge]
    by (fastforce simp: answer_read_handle_def Let_def split: option.splits)
qed

text \<open>Every request is answered, and the state after it is well-formed.\<close>

lemma pipe_step_ok:
  assumes inv: "pipe_inv st" and lim: "s_serial st < 2 ^ 64 - 1"
  shows "\<exists>st' r. pipe_step meth ws badge st = Some (st', r) \<and> pipe_inv st' \<and> s_serial st' \<le> Suc (s_serial st)"
proof -
  obtain r1 r2 where reads: "answer_read ws st = Some r1" "answer_read_handle ws badge st = Some r2"
    using answer_read_some [OF inv] by blast
  obtain st4 r4 where w: "answer_write ws badge st = (st4, r4)" by (rule prod.exhaust)
  show ?thesis
    using inv reads answer_open_ok [OF inv lim, of ws badge] answer_close_ok [OF inv, of ws badge] w answer_write_ok [OF inv w]
    by (auto simp: pipe_step_def)
qed

text \<open>The states after a number of requests.\<close>

inductive pipe_reach :: "nat \<Rightarrow> nat \<Rightarrow> pipes \<Rightarrow> bool" for bytes where
  start: "pipe_reach bytes 0 (memory_init bytes)"
| step: "pipe_reach bytes n st \<Longrightarrow> pipe_step meth ws badge st = Some (st', r) \<Longrightarrow> pipe_reach bytes (Suc n) st'"

lemma pipe_reach_inv:
  assumes "pipe_reach bytes n st" and "bytes < 2 ^ 32" and "n < 2 ^ 64"
  shows "pipe_inv st \<and> s_serial st \<le> n"
  using assms
proof (induction rule: pipe_reach.induct)
  case start
  then show ?case using memory_init_inv by simp
next
  case (step n st meth ws badge st' r)
  then have "pipe_inv st" "s_serial st < 2 ^ 64 - 1" and le: "s_serial st \<le> n" by auto
  from pipe_step_ok [OF this(1,2), of meth ws badge] step.hyps(2)
  have "pipe_inv st'" "s_serial st' \<le> Suc (s_serial st)" by auto
  then show ?case using le by simp
qed

end
