(* ===== verification/Pipe_Contract.thy ===== *)
theory Pipe_Contract
  imports Pipe_Proofs
begin

text \<open>
  What the pipe service promises its clients. The interface of one pipe, a byte sequence that grows at
  its end and is read at any offset, is a locale; the service's own append and read meet its laws, and
  what a writer and a reader of a pipe may rely on follows from them.
\<close>

section \<open>A byte sequence read at offsets\<close>

locale byte_pipe =
  fixes ok :: "'s \<Rightarrow> bool"
    and bytes :: "'s \<Rightarrow> u8 list"
    and put :: "u8 list \<Rightarrow> 's \<Rightarrow> 's \<times> nat"
    and get :: "nat \<Rightarrow> nat \<Rightarrow> 's \<Rightarrow> u8 list option"
  assumes put_ok: "ok s \<Longrightarrow> ok (fst (put data s))"
    and put_bytes_law: "ok s \<Longrightarrow> bytes (fst (put data s)) = bytes s @ take (snd (put data s)) data"
    and get_law: "ok s \<Longrightarrow> get offset cnt s = Some (take cnt (drop offset (bytes s)))"
begin

text \<open>A run of writes, as a writer that carries on makes them.\<close>

primrec puts :: "u8 list list \<Rightarrow> 's \<Rightarrow> 's" where
  "puts [] s = s"
| "puts (d # ds) s = puts ds (fst (put d s))"

lemma puts_ok: "ok s \<Longrightarrow> ok (puts ds s)"
  by (induction ds arbitrary: s) (auto intro: put_ok)

lemma puts_extend: "ok s \<Longrightarrow> \<exists>more_bytes. bytes (puts ds s) = bytes s @ more_bytes"
proof (induction ds arbitrary: s)
  case Nil
  then show ?case by simp
next
  case (Cons d ds)
  then show ?case using Cons.IH [OF put_ok [OF Cons.prems, of d]] put_bytes_law [OF Cons.prems, of d] by auto
qed

text \<open>What a reader has read once it reads again, whatever was written since.\<close>

lemma get_stable:
  assumes "ok s" and "get offset cnt s = Some bs" and "length bs = cnt"
  shows "get offset cnt (puts ds s) = Some bs"
proof -
  obtain rest where "bytes (puts ds s) = bytes s @ rest"
    using puts_extend [OF assms(1)] by blast
  moreover have bs: "bs = take cnt (drop offset (bytes s))" "length bs = cnt"
    using assms get_law [OF assms(1)] by auto
  then have "cnt \<le> length (bytes s) - offset" by auto
  ultimately show ?thesis
    using bs(1) get_law [OF puts_ok [OF assms(1)]] by simp
qed

text \<open>The bytes a write took are read back at the old end.\<close>

lemma get_put:
  assumes "ok s"
  shows "get (length (bytes s)) (snd (put data s)) (fst (put data s)) = Some (take (snd (put data s)) data)"
  using get_law [OF put_ok [OF assms]] put_bytes_law [OF assms, of data] by simp

text \<open>Two adjoining reads are one.\<close>

lemma get_get:
  assumes "ok s" and "get offset a s = Some x" and "length x = a" and "get (offset + a) b s = Some y"
  shows "get offset (a + b) s = Some (x @ y)"
  using assms get_law [OF assms(1)] by (auto simp: take_add add.commute)

end

text \<open>The service's pipes meet the contract, each slot on its own.\<close>

interpretation service_pipe: byte_pipe "\<lambda>st. pipe_inv st \<and> i < length (s_pipes st) \<and> p_used (s_pipes st ! i)"
    "\<lambda>st. contents st i" "pipe_append i" "pipe_read_at i" for i
proof unfold_locales
  fix st :: pipes and data
  assume a: "pipe_inv st \<and> i < length (s_pipes st) \<and> p_used (s_pipes st ! i)"
  obtain st' k where app: "pipe_append i data st = (st', k)" by (rule prod.exhaust)
  note p = pipe_append_ok [OF _ _ _ app]
  show "pipe_inv (fst (pipe_append i data st)) \<and> i < length (s_pipes (fst (pipe_append i data st))) \<and>
      p_used (s_pipes (fst (pipe_append i data st)) ! i)"
    using a p(1,8) by (auto simp: app same_ends_def)
  show "contents (fst (pipe_append i data st)) i = contents st i @ take (snd (pipe_append i data st)) data"
    using a p(2) by (simp add: app)
next
  fix st :: pipes and offset cnt
  assume "pipe_inv st \<and> i < length (s_pipes st) \<and> p_used (s_pipes st ! i)"
  then show "pipe_read_at i offset cnt st = Some (take cnt (drop offset (contents st i)))"
    by (simp add: read_reply_window(2))
qed

section \<open>Requests on a handle\<close>

text \<open>The answer to a write on a write handle.\<close>

lemma answer_write_appends:
  assumes inv: "pipe_inv st" and look: "handle_lookup st (unat (ws ! 0)) badge = Some k"
    and h: "h_kind (s_handles st ! k) = kHandleWrite" "h_pipe (s_handles st ! k) = Suc i"
    and n: "unat (ws ! 2) \<le> kWriteMax" "3 + (unat (ws ! 2) + 7) div 8 \<le> length ws"
    and data: "data = take (unat (ws ! 2)) (bytes_of_words (drop 3 ws))"
  shows "\<exists>st' n. answer_write ws badge st = (st', [of_nat n], []) \<and> contents st' i = contents st i @ take n data \<and>
           (\<forall>j<length (s_pipes st). j \<noteq> i \<longrightarrow> contents st' j = contents st j) \<and> n \<le> length data \<and> (n < length data \<longrightarrow> s_free st' = 0)"
proof -
  obtain st' n where app: "pipe_append i data st = (st', n)" by (rule prod.exhaust)
  have i: "i < length (s_pipes st)" "p_used (s_pipes st ! i)"
    using handle_pipe [OF inv look] h by auto
  have "answer_write ws badge st = (st', [of_nat n], [])"
    using look h n app by (simp add: answer_write_def Let_def data [symmetric])
  then show ?thesis
    using pipe_append_ok(2-5) [OF inv i app] by (intro exI [of _ st'] exI [of _ n]) auto
qed

lemma read_reply_eq:
  assumes "pipe_inv st" and "i < length (s_pipes st)"
  shows "read_reply i offset wanted st =
     (let bs = take (min wanted kReadMax) (drop offset (contents st i))
      in Some ([of_nat (length bs),
                if (offset + length bs) mod 2 ^ 64 \<ge> length (contents st i) \<and> \<not> p_writer_open (s_pipes st ! i) then 1 else 0], bs))"
  using read_reply_window [OF assms] by (simp add: read_reply_def Let_def)

lemma answer_read_handle_eq:
  assumes inv: "pipe_inv st" and look: "handle_lookup st (unat (ws ! 0)) badge = Some k" and "3 \<le> length ws"
    and h: "h_kind (s_handles st ! k) = kHandleRead" "h_pipe (s_handles st ! k) = Suc i"
  shows "answer_read_handle ws badge st = read_reply i (unat (ws ! 1)) (unat (ws ! 2)) st"
  using assms by (simp add: answer_read_handle_def)

text \<open>A pipe's bytes fit the grant, so a sum of an offset within it and a count cannot wrap.\<close>

lemma contents_bound:
  assumes inv: "pipe_inv st" and i: "i < length (s_pipes st)"
  shows "length (contents st i) \<le> length (s_chunks st) * kChunkData" and "length (contents st i) < 2 ^ 44"
proof -
  obtain css fs where mem: "memory_inv (s_chunks st) (s_free st) (s_pipes st) css fs"
    using inv by (auto simp: pipe_inv_def)
  have u: "p_last_used (s_pipes st ! i) \<le> kChunkData" using mem i by (simp add: memory_inv_def pipe_ok_def)
  have "length (pipe_data m p cs) \<le> length cs * kChunkData" if "p_last_used p \<le> kChunkData" for m p cs
    using that by (induction cs) (auto simp: chunk_size_def)
  then have "length (contents st i) \<le> length (css ! i) * kChunkData"
    using contents_chunks [OF mem i] u by simp
  also have "\<dots> \<le> length (s_chunks st) * kChunkData"
    using own_length [OF memory_own [OF mem i]] by (intro mult_le_mono1) simp
  finally show le: "length (contents st i) \<le> length (s_chunks st) * kChunkData" .
  have "length (s_chunks st) < 2 ^ 32" using mem by (simp add: memory_inv_def chunks_ok_def)
  then have "length (s_chunks st) * kChunkData < 2 ^ 44"
    by (simp add: chunk_consts)
  with le show "length (contents st i) < 2 ^ 44" by linarith
qed

lemma closed_writer_count:
  assumes "k < length hs" and "l < length hs" and "k \<noteq> l" and "P (hs ! k)" and "P (hs ! l)"
  shows "2 \<le> length (filter P hs)"
proof -
  have "{k, l} \<subseteq> {i. i < length hs \<and> P (hs ! i)}" using assms by auto
  then have "card {k, l} \<le> card {i. i < length hs \<and> P (hs ! i)}" by (intro card_mono) auto
  then show ?thesis using assms(3) by (simp add: length_filter_conv_card)
qed

section \<open>Properties\<close>

text \<open>
  C24. After any number of requests below 2^64, whatever they are, the tables and the memory of the
  service are well-formed: every chunk is on the free list or in the chain of exactly one pipe, a
  pipe's size is the number of bytes in its chain, a name is one pipe's, an open handle is on a pipe
  in use, and a pipe counts its handles.
\<close>
theorem pipe_service_invariant:
  assumes "pipe_reach bytes n st" and "bytes < 2 ^ 32" and "n < 2 ^ 64"
  shows "pipe_inv st"
  using pipe_reach_inv [OF assms] by simp

text \<open>
  C25. Every request to a service that has answered fewer than 2^64 - 1 requests is answered: the walks
  over the chains of chunks, which the code bounds by nothing, all end.
\<close>
theorem pipe_always_answers:
  assumes "pipe_reach bytes n st" and "bytes < 2 ^ 32" and "n < 2 ^ 64 - 1"
  shows "\<exists>st' r. pipe_step meth ws badge st = Some (st', r)"
proof -
  have "pipe_inv st" "s_serial st < 2 ^ 64 - 1"
    using pipe_reach_inv [OF assms(1,2)] assms(3) by auto
  then show ?thesis using pipe_step_ok by blast
qed

text \<open>
  C26. A write request on a write handle appends a prefix of its bytes to that pipe and to no other;
  the prefix is short of the whole only when no chunk is left on the free list.
\<close>
theorem pipe_write_appends:
  assumes "pipe_reach bytes m st" and "bytes < 2 ^ 32" and "m < 2 ^ 64"
    and "handle_lookup st (unat (ws ! 0)) badge = Some k" and "h_kind (s_handles st ! k) = kHandleWrite"
    and "h_pipe (s_handles st ! k) = Suc i"
    and "unat (ws ! 2) \<le> kWriteMax" and "3 + (unat (ws ! 2) + 7) div 8 \<le> length ws"
    and "data = take (unat (ws ! 2)) (bytes_of_words (drop 3 ws))"
  shows "\<exists>st' n. answer_write ws badge st = (st', [of_nat n], []) \<and> contents st' i = contents st i @ take n data \<and>
           (\<forall>j<length (s_pipes st). j \<noteq> i \<longrightarrow> contents st' j = contents st j) \<and> n \<le> length data \<and> (n < length data \<longrightarrow> s_free st' = 0)"
  using pipe_reach_inv [OF assms(1-3)] answer_write_appends [OF _ assms(4-9)] by blast



text \<open>
  C29. The end of a pipe is announced too early when it has two writers: closing either of them makes
  every read at the end answer end-of-file, while the other handle is still open for writing.
\<close>
theorem pipe_eof_with_writer:
  assumes "pipe_reach bytes m st" and "bytes < 2 ^ 32" and "m < 2 ^ 64" and "ws \<noteq> []"
    and "handle_lookup st (unat (ws ! 0)) badge = Some k" and "h_kind (s_handles st ! k) = kHandleWrite"
    and "h_pipe (s_handles st ! k) = Suc i"
    and "l < length (s_handles st)" and "l \<noteq> k" and "on_pipe i (s_handles st ! l)" and "h_kind (s_handles st ! l) = kHandleWrite"
  shows "\<exists>st'. answer_close ws badge st = Some (st', [1], []) \<and> s_handles st' ! l = s_handles st ! l \<and>
           read_reply i (length (contents st i)) wanted st' = Some ([0, 1], [])"
proof -
  have inv: "pipe_inv st" using pipe_reach_inv [OF assms(1-3)] by simp
  have i: "i < length (s_pipes st)" "on_pipe i (s_handles st ! k)" and k: "k < length (s_handles st)"
    using handle_pipe [OF inv assms(5)] handle_lookup_Some [OF assms(5)] assms(7) by auto
  let ?h = "(s_handles st ! k)\<lparr>h_serial := 0, h_pipe := 0\<rparr>"
  let ?st = "st\<lparr>s_pipes := (s_pipes st)[i := closed_end (s_handles st ! k) (s_pipes st ! i)], s_handles := (s_handles st)[k := ?h]\<rparr>"
  have "p_open_count (s_pipes st ! i) = length (filter (on_pipe i) (s_handles st))"
    using inv i by (simp add: pipe_inv_def handles_inv_def ends_ok_def)
  then have two: "2 \<le> p_open_count (s_pipes st ! i)"
    using closed_writer_count [OF k assms(8), of "on_pipe i"] assms(9,10) i by auto
  then have "answer_close ws badge st = Some (?st, [1], [])"
    using assms(4,5,7) by (simp add: answer_close_def Let_def closed_end_def)
  moreover have "\<not> (p_reader_ever (s_pipes st ! i) \<and> p_open_count (s_pipes st ! i) = 1)" using two by simp
  note kept = close_kept [OF inv k i(2,1) this, of ?h ?st]
  have "read_reply i (length (contents st i)) wanted ?st = Some ([0, 1], [])"
    using read_reply_eq [of ?st i "length (contents st i)" wanted] kept i contents_bound(2) [OF inv i(1)] assms(6)
    by (simp add: Let_def)
  ultimately show ?thesis
    using assms(9) by auto
qed

section \<open>The properties at work\<close>

text \<open>
  A grant of 5464 bytes: ten pipes, thirty handles and one chunk. Two callers open the pipe \<^verbatim>\<open>a\<close> for
  writing and a third for reading.
\<close>

definition sample_pipe :: pipe where
  "sample_pipe = fresh_pipe\<lparr>p_used := True, p_writer_open := True, p_open_count := 1, p_name := [97]\<rparr>"

definition sample_handles :: "handle list" where
  "sample_handles =
     [\<lparr>h_serial = 1, h_badge = 7, h_pipe = 1, h_kind = kHandleWrite\<rparr>, \<lparr>h_serial = 2, h_badge = 8, h_pipe = 1, h_kind = kHandleWrite\<rparr>,
      \<lparr>h_serial = 3, h_badge = 9, h_pipe = 1, h_kind = kHandleRead\<rparr>]"

definition sample_state :: "pipe \<Rightarrow> nat \<Rightarrow> pipes" where
  "sample_state p n =
     \<lparr>s_pipes = p # replicate 9 fresh_pipe, s_handles = take n sample_handles @ replicate (30 - n) fresh_handle,
      s_chunks = s_chunks (memory_init 5464), s_free = s_free (memory_init 5464), s_serial = n\<rparr>"

definition sample_pipe3 :: pipe where
  "sample_pipe3 = sample_pipe\<lparr>p_open_count := 3, p_reader_open := True, p_reader_ever := True\<rparr>"

lemma sample_memory: "memory_init 5464 = sample_state fresh_pipe 0"
  by (rule pipes.equality)
    (simp_all add: sample_state_def memory_init_def kPipeSize_def kHandleSize_def chunk_consts Let_def case_prod_beta replicate_Suc [symmetric] del: replicate_Suc)

lemma numeral_lists:
  "replicate (numeral w) x = x # replicate (pred_numeral w) x" "(x # xs)[numeral w := y] = x # xs[pred_numeral w := y]"
  "take (numeral w) (x # xs) = x # take (pred_numeral w) xs" "(x # xs)[1 := y] = x # xs[0 := y]" "(x # xs)[Suc 0 := y] = x # xs[0 := y]"
  by (simp_all add: numeral_eq_Suc)

lemma nat_le_numeral: "nat_le (numeral w) v = of_nat v # nat_le (pred_numeral w) (v div 256)"
  by (simp only: numeral_eq_Suc nat_le.simps)

lemmas sample_defs = sample_state_def sample_pipe_def sample_pipe3_def sample_handles_def fresh_pipe_def fresh_handle_def
  pipe_step_def answer_open_def unpack_string_def path_words_def ns_kPathMax_def kPipeNameMax_def kOpenRead_def kOpenTruncate_def
  pipe_make_def pipe_find_def open_handle_def handle_alloc_def

lemma sample_reach1: "pipe_reach 5464 1 (sample_state sample_pipe 1)"
proof -
  have "pipe_step 3 [1, 97, 0] 7 (memory_init 5464) = Some (sample_state sample_pipe 1, [1], [])"
    by (subst sample_memory) (simp add: sample_defs numeral_lists nat_le_numeral upt_conv_Cons)
  from pipe_reach.step [OF pipe_reach.start this] show ?thesis by simp
qed

lemma sample_reach2: "pipe_reach 5464 2 (sample_state (sample_pipe\<lparr>p_open_count := 2\<rparr>) 2)"
proof -
  have "pipe_step 3 [1, 97, 0] 8 (sample_state sample_pipe 1) = Some (sample_state (sample_pipe\<lparr>p_open_count := 2\<rparr>) 2, [2], [])"
    by (simp add: sample_defs numeral_lists nat_le_numeral upt_conv_Cons)
  from pipe_reach.step [OF sample_reach1 this] show ?thesis by (simp add: numeral_2_eq_2)
qed

lemma sample_reach3: "pipe_reach 5464 3 (sample_state sample_pipe3 3)"
proof -
  have "pipe_step 3 [1, 97, 4] 9 (sample_state (sample_pipe\<lparr>p_open_count := 2\<rparr>) 2) = Some (sample_state sample_pipe3 3, [3], [])"
    by (simp add: sample_defs numeral_lists nat_le_numeral upt_conv_Cons)
  from pipe_reach.step [OF sample_reach2 this] show ?thesis by (simp add: numeral_3_eq_3)
qed

abbreviation sample :: pipes where
  "sample \<equiv> sample_state sample_pipe3 3"

lemma sample_lookup:
  "handle_lookup sample 1 7 = Some 0" "handle_lookup sample 3 9 = Some 2"
  "s_handles sample ! 0 = sample_handles ! 0" "s_handles sample ! 1 = sample_handles ! 1" "s_handles sample ! 2 = sample_handles ! 2"
  by (simp_all add: handle_lookup_def sample_state_def sample_handles_def fresh_handle_def numeral_lists upt_conv_Cons)

lemma sample_contents: "contents sample 0 = []"
proof -
  have "chain_of n nx 0 = []" for n nx by (cases n) auto
  then show ?thesis by (simp add: contents_def sample_defs)
qed

lemma sample_read: "answer_read_handle [3, 0, 10] 9 sample = Some ([0, 0], [])"
  using sample_lookup by (simp add: answer_read_handle_def read_reply_def pipe_read_at_def sample_defs)

theorem pipe_service_invariant_witness: "pipe_inv sample"
  using pipe_service_invariant [OF sample_reach3] by simp

theorem pipe_always_answers_witness: "\<exists>st' r. pipe_step 5 [1] 7 sample = Some (st', r)"
  using pipe_always_answers [OF sample_reach3] by simp

theorem pipe_write_appends_witness:
  "\<exists>st' n. answer_write [1, 0, 2, 26984] 7 sample = (st', [of_nat n], []) \<and> contents st' 0 = take n [104, 105] \<and> n \<le> 2"
proof -
  have d: "[104, 105] = take (unat ([1, 0, 2, 26984] ! 2 :: u64)) (bytes_of_words (drop 3 [1, 0, 2, 26984]))"
    by (simp add: nat_le_numeral)
  have p: "handle_lookup sample (unat ([1, 0, 2, 26984] ! 0 :: u64)) 7 = Some 0" "h_kind (s_handles sample ! 0) = kHandleWrite"
    "h_pipe (s_handles sample ! 0) = Suc 0" "unat ([1, 0, 2, 26984] ! 2 :: u64) \<le> kWriteMax"
    "3 + (unat ([1, 0, 2, 26984] ! 2 :: u64) + 7) div 8 \<le> length [1, 0, 2, 26984 :: u64]"
    using sample_lookup by (simp_all add: sample_handles_def kWriteMax_def)
  obtain st' n where "answer_write [1, 0, 2, 26984] 7 sample = (st', [of_nat n], [])"
      "contents st' 0 = contents sample 0 @ take n [104, 105]" "n \<le> length [104, 105 :: u8]"
    using pipe_write_appends [OF sample_reach3 _ _ p d] by auto
  then show ?thesis
    using sample_contents by (intro exI [of _ st'] exI [of _ n]) simp
qed



theorem pipe_eof_with_writer_witness:
  "\<exists>st'. answer_close [1] 7 sample = Some (st', [1], []) \<and> s_handles st' ! 1 = sample_handles ! 1 \<and>
     read_reply 0 0 100 st' = Some ([0, 1], [])"
  using pipe_eof_with_writer [OF sample_reach3, of "[1]" 7 0 0 1 100] sample_lookup sample_contents
  by (simp add: sample_handles_def sample_state_def on_pipe_def)

end
