(* ===== verification/Untyped_Alloc.thy ===== *)
theory Untyped_Alloc
  imports Slot_Pool
begin

text \<open>
  The untyped allocator of \<^verbatim>\<open>src/libs/freestanding/aegir-mem/src/allocator.cc\<close>, with a slot pool adopted and with
  neither a node source nor an untyped source: every slot operation is then the pool's, a full node table is
  a refusal, the CSpace has one level and does not grow, and the list of freed slots that
  \<^verbatim>\<open>retype_source_live\<close> looks into stays empty. (A service that maps a window, as the memory service does, has a
  node source too; it is asked only when no more than 32 nodes are free, so this is its allocator while more
  are.) Pieces of memory are nodes in a table; a node number counts from one and zero is the null pointer.
  Every list is the list of node links the code keeps. The accounts the callers pass in and the trace hook
  are left out.

  The kernel is not part of the repository: what it answers to a call, given the calls made before,
  is a parameter, and the calls are recorded.
\<close>

unbundle bit_operations_syntax

section \<open>State\<close>

record piece =
  n_cap :: u64
  n_physical :: u64
  n_bits :: nat
  n_device :: bool
  n_free :: bool
  n_live :: bool
  n_parent :: nat
  n_sibling :: nat
  n_next :: nat
  n_prev :: nat

text \<open>
  The calls: an untyped retype of one piece, a retype of objects (type, size, first slot, how many), a revoke
  and a delete. The codes of the object types are the kernel's.
\<close>

datatype kcall = Retype u64 nat u64 | Retype_Objects u64 nat nat u64 nat | Revoke u64 | Delete u64

record kernel_consts =
  k_cap_table :: nat
  k_page :: nat

type_synonym kernel = "kcall list \<Rightarrow> kcall \<Rightarrow> bool"

record ualloc =
  u_node :: "nat \<Rightarrow> piece"
  u_free_nodes :: nat
  u_node_used :: nat
  u_node_free :: nat
  u_heads :: "nat \<Rightarrow> nat"
  u_dev_heads :: "nat \<Rightarrow> nat"
  u_pool :: slot_pool
  u_owner :: u32
  u_allocated :: nat
  u_calls :: "kcall list"

definition kWordBits :: nat where "kWordBits = 64"

definition fresh_piece :: piece where
  "fresh_piece =
     \<lparr>n_cap = 0, n_physical = 0, n_bits = 0, n_device = False, n_free = False, n_live = False, n_parent = 0,
      n_sibling = 0, n_next = 0, n_prev = 0\<rparr>"

definition put_node :: "nat \<Rightarrow> piece \<Rightarrow> ualloc \<Rightarrow> ualloc" where
  "put_node i n a = a\<lparr>u_node := (u_node a)(i := n)\<rparr>"

definition upd_node :: "nat \<Rightarrow> (piece \<Rightarrow> piece) \<Rightarrow> ualloc \<Rightarrow> ualloc" where
  "upd_node i f a = put_node i (f (u_node a i)) a"

definition kernel_call :: "kernel \<Rightarrow> kcall \<Rightarrow> ualloc \<Rightarrow> ualloc \<times> bool" where
  "kernel_call K c a = (a\<lparr>u_calls := u_calls a @ [c]\<rparr>, K (u_calls a) c)"

text \<open>The lists of a class.\<close>

definition head_of :: "bool \<Rightarrow> nat \<Rightarrow> ualloc \<Rightarrow> nat" where
  "head_of device bits a = (if device then u_dev_heads a bits else u_heads a bits)"

definition set_head :: "bool \<Rightarrow> nat \<Rightarrow> nat \<Rightarrow> ualloc \<Rightarrow> ualloc" where
  "set_head device bits i a =
     (if device then a\<lparr>u_dev_heads := (u_dev_heads a)(bits := i)\<rparr> else a\<lparr>u_heads := (u_heads a)(bits := i)\<rparr>)"

section \<open>The node table\<close>

text \<open>\<open>adopt_nodes count\<close> links the nodes of a region of \<open>count\<close> nodes; the last one is the first to be given out.\<close>

fun link_nodes :: "nat \<Rightarrow> nat \<Rightarrow> ualloc \<Rightarrow> ualloc" where
  "link_nodes i 0 a = a"
| "link_nodes i (Suc n) a = link_nodes (Suc i) n ((upd_node i (\<lambda>m. m\<lparr>n_next := u_free_nodes a\<rparr>) a)\<lparr>u_free_nodes := i\<rparr>)"

definition adopt_nodes :: "nat \<Rightarrow> ualloc \<Rightarrow> ualloc" where
  "adopt_nodes cnt a = (if cnt = 0 then a else link_nodes 1 cnt (a\<lparr>u_free_nodes := 0, u_node_free := cnt\<rparr>))"

definition alloc_node :: "ualloc \<Rightarrow> ualloc \<times> nat" where
  "alloc_node a =
     (let node = u_free_nodes a
      in if node = 0 then (a, 0)
         else (a\<lparr>u_free_nodes := n_next (u_node a node), u_node_free := u_node_free a - 1, u_node_used := u_node_used a + 1\<rparr>, node))"

definition free_node :: "nat \<Rightarrow> ualloc \<Rightarrow> ualloc" where
  "free_node node a =
     (upd_node node (\<lambda>m. m\<lparr>n_next := u_free_nodes a\<rparr>) a)
       \<lparr>u_free_nodes := node, u_node_free := u_node_free a + 1, u_node_used := u_node_used a - 1\<rparr>"

section \<open>The free lists\<close>

text \<open>
  The walk of \<^verbatim>\<open>insert\<close> over the links: the link a node goes into, as the node that holds it (zero for the
  head), and the node it now points to.
\<close>

fun find_link :: "nat \<Rightarrow> ualloc \<Rightarrow> u64 \<Rightarrow> nat \<Rightarrow> nat \<Rightarrow> (nat \<times> nat) option" where
  "find_link fuel a physical holder at =
     (if at = 0 \<or> n_physical (u_node a at) = 0 \<or> \<not> n_physical (u_node a at) < physical then Some (holder, at)
      else case fuel of 0 \<Rightarrow> None | Suc n \<Rightarrow> find_link n a physical at (n_next (u_node a at)))"

declare find_link.simps [simp del]

text \<open>Storing through the link.\<close>

definition set_link :: "bool \<Rightarrow> nat \<Rightarrow> nat \<Rightarrow> nat \<Rightarrow> ualloc \<Rightarrow> ualloc" where
  "set_link device bits holder i a =
     (if holder = 0 then set_head device bits i a else upd_node holder (\<lambda>m. m\<lparr>n_next := i\<rparr>) a)"

definition list_fuel :: "ualloc \<Rightarrow> nat" where
  "list_fuel a = u_node_used a + u_node_free a"

definition insert_piece :: "bool \<Rightarrow> nat \<Rightarrow> ualloc \<Rightarrow> ualloc option" where
  "insert_piece device node a =
     (let bits = n_bits (u_node a node); head = head_of device bits a
      in map_option
           (\<lambda>(holder, at).
              let a1 = upd_node node (\<lambda>m. m\<lparr>n_next := at, n_prev := 0\<rparr>) a;
                  a2 = (if at \<noteq> 0 then upd_node at (\<lambda>m. m\<lparr>n_prev := node\<rparr>) a1 else a1);
                  a3 = set_link device bits holder node a2
              in upd_node node (\<lambda>m. m\<lparr>n_free := True\<rparr>) a3)
           (if n_physical (u_node a node) \<noteq> 0 then find_link (list_fuel a) a (n_physical (u_node a node)) 0 head
            else Some (0, head)))"

definition unlink_piece :: "nat \<Rightarrow> ualloc \<Rightarrow> ualloc" where
  "unlink_piece node a =
     (let n = u_node a node;
          a1 = (if n_prev n \<noteq> 0 then upd_node (n_prev n) (\<lambda>m. m\<lparr>n_next := n_next n\<rparr>) a
                else set_head (n_device n) (n_bits n) (n_next n) a);
          a2 = (if n_next n \<noteq> 0 then upd_node (n_next n) (\<lambda>m. m\<lparr>n_prev := n_prev n\<rparr>) a1 else a1)
      in upd_node node (\<lambda>m. m\<lparr>n_next := 0, n_prev := 0, n_free := False\<rparr>) a2)"

definition add_untyped :: "u64 \<Rightarrow> nat \<Rightarrow> bool \<Rightarrow> u64 \<Rightarrow> ualloc \<Rightarrow> (ualloc \<times> bool) option" where
  "add_untyped cap bits device paddr a =
     (case alloc_node a of (a1, node) \<Rightarrow>
        if node = 0 then Some (a1, False)
        else
          map_option (\<lambda>a2. (a2, True))
            (insert_piece device node
               (upd_node node
                  (\<lambda>m. m\<lparr>n_cap := cap, n_physical := paddr, n_bits := bits, n_device := device, n_live := True, n_parent := 0,
                         n_sibling := 0, n_next := 0, n_prev := 0\<rparr>) a1)))"

definition adopt_untyped :: "u64 \<Rightarrow> nat \<Rightarrow> u64 \<Rightarrow> ualloc \<Rightarrow> (ualloc \<times> bool) option" where
  "adopt_untyped cap bits paddr a = add_untyped cap bits False paddr a"

definition take_piece :: "bool \<Rightarrow> nat \<Rightarrow> ualloc \<Rightarrow> ualloc \<times> nat" where
  "take_piece device bits a = (let node = head_of device bits a in if node = 0 then (a, 0) else (unlink_piece node a, node))"

section \<open>Slots, from the pool\<close>

definition ua_alloc_slot :: "ualloc \<Rightarrow> ualloc \<times> u64" where
  "ua_alloc_slot a = (case sp_alloc (u_pool a) (u_owner a) of (p, s) \<Rightarrow> (a\<lparr>u_pool := p\<rparr>, s))"

definition ua_free_slot :: "u64 \<Rightarrow> ualloc \<Rightarrow> ualloc" where
  "ua_free_slot s a = a\<lparr>u_pool := sp_free (u_pool a) s (u_owner a)\<rparr>"

section \<open>Splitting\<close>

text \<open>What \<^verbatim>\<open>refill_inner\<close> does with one larger piece it has unlinked.\<close>

datatype split_result = Again | Refused | Split

definition child :: "u64 \<Rightarrow> u64 \<Rightarrow> nat \<Rightarrow> bool \<Rightarrow> nat \<Rightarrow> nat \<Rightarrow> piece \<Rightarrow> piece" where
  "child cap physical bits device parent sibling m =
     m\<lparr>n_cap := cap, n_live := True, n_physical := physical, n_bits := bits, n_device := device, n_parent := parent,
       n_sibling := sibling, n_next := 0, n_prev := 0\<rparr>"

definition drop_node :: "nat \<Rightarrow> ualloc \<Rightarrow> ualloc" where
  "drop_node i a = (if i \<noteq> 0 then free_node i a else a)"

definition drop_slot :: "u64 \<Rightarrow> ualloc \<Rightarrow> ualloc" where
  "drop_slot s a = (if s \<noteq> 0 then ua_free_slot s a else a)"

text \<open>The two retypes and what each refusal leaves, with both nodes and both slots in hand.\<close>

definition split_retype :: "kernel \<Rightarrow> bool \<Rightarrow> nat \<Rightarrow> nat \<Rightarrow> nat \<Rightarrow> nat \<Rightarrow> u64 \<Rightarrow> u64 \<Rightarrow> ualloc \<Rightarrow> (ualloc \<times> split_result) option" where
  "split_retype K device bits parent left right left_slot right_slot a =
     (let p = u_node a parent
      in case kernel_call K (Retype (n_cap p) bits left_slot) a of (a1, ok1) \<Rightarrow>
           if \<not> ok1 then
             Some (free_node right (free_node left (ua_free_slot right_slot (ua_free_slot left_slot a1))), Again)
           else
             (case kernel_call K (Retype (n_cap p) bits right_slot) a1 of (a2, ok2) \<Rightarrow>
                if \<not> ok2 then
                  map_option (\<lambda>a3. (a3, Split))
                    (insert_piece device left
                       (free_node right (ua_free_slot right_slot
                          (upd_node left (child left_slot (n_physical p) bits (n_device p) 0 0) a2))))
                else
                  (let a3 = upd_node left (child left_slot (n_physical p) bits (n_device p) parent right) a2;
                       a4 = upd_node right
                              (child right_slot (if n_physical p \<noteq> 0 then n_physical p + 2 ^ bits else 0) bits (n_device p) parent left) a3
                   in map_option (\<lambda>a5. (a5, Split)) (Option.bind (insert_piece device right a4) (insert_piece device left)))))"

text \<open>The two slots, and giving everything back when there is no slot.\<close>

definition split_slots :: "kernel \<Rightarrow> bool \<Rightarrow> nat \<Rightarrow> nat \<Rightarrow> nat \<Rightarrow> nat \<Rightarrow> ualloc \<Rightarrow> (ualloc \<times> split_result) option" where
  "split_slots K device bits parent left right a =
     (case ua_alloc_slot a of (a1, left_slot) \<Rightarrow>
      case (if left_slot \<noteq> 0 then ua_alloc_slot a1 else (a1, 0)) of (a2, right_slot) \<Rightarrow>
        if left_slot = 0 \<or> right_slot = 0 then
          map_option (\<lambda>a3. (a3, Refused))
            (insert_piece device parent (free_node right (free_node left (drop_slot right_slot (drop_slot left_slot a2)))))
        else split_retype K device bits parent left right left_slot right_slot a2)"

definition split_piece :: "kernel \<Rightarrow> bool \<Rightarrow> nat \<Rightarrow> nat \<Rightarrow> ualloc \<Rightarrow> (ualloc \<times> split_result) option" where
  "split_piece K device bits parent a0 =
     (let a = unlink_piece parent a0
      in case alloc_node a of (a1, left) \<Rightarrow>
         case alloc_node a1 of (a2, right) \<Rightarrow>
           if left = 0 \<or> right = 0 then
             map_option (\<lambda>a3. (a3, Refused)) (insert_piece device parent (drop_node right (drop_node left a2)))
           else split_slots K device bits parent left right a2)"

fun refill_inner :: "kernel \<Rightarrow> nat \<Rightarrow> bool \<Rightarrow> nat \<Rightarrow> ualloc \<Rightarrow> (ualloc \<times> bool) option" where
  "refill_inner K 0 device bits a = None"
| "refill_inner K (Suc n) device bits a =
     (if head_of device bits a \<noteq> 0 then Some (a, True)
      else if bits + 1 \<ge> kWordBits then Some (a, False)
      else
        Option.bind (refill_inner K n device (bits + 1) a)
          (\<lambda>(a1, ok).
             if \<not> ok then Some (a1, False)
             else
               let parent = head_of device (bits + 1) a1
               in if parent = 0 then refill_inner K n device bits a1
                  else
                    Option.bind (split_piece K device bits parent a1)
                      (\<lambda>(a2, r). case r of Again \<Rightarrow> refill_inner K n device bits a2 | Refused \<Rightarrow> Some (a2, False) | Split \<Rightarrow> Some (a2, True))))"

section \<open>Carving and freeing\<close>

definition ensure_piece_whole :: "kernel \<Rightarrow> nat \<Rightarrow> ualloc \<Rightarrow> ualloc" where
  "ensure_piece_whole K node a =
     (if n_device (u_node a node) then a else fst (kernel_call K (Revoke (n_cap (u_node a node))) a))"

text \<open>\<^verbatim>\<open>carve_untyped\<close>: the capability, its address and the node it is to be freed by; zero when refused.\<close>

definition carve_untyped :: "kernel \<Rightarrow> nat \<Rightarrow> nat \<Rightarrow> ualloc \<Rightarrow> (ualloc \<times> u64 \<times> u64 \<times> nat) option" where
  "carve_untyped K fuel bits a =
     Option.bind (refill_inner K fuel False bits a)
       (\<lambda>(a1, ok).
          if \<not> ok then Some (a1, 0, 0, 0)
          else
            (case take_piece False bits a1 of (a2, node) \<Rightarrow>
               if node = 0 then Some (a2, 0, 0, 0)
               else
                 let a3 = ensure_piece_whole K node a2
                 in Some (a3\<lparr>u_allocated := u_allocated a3 + 2 ^ bits\<rparr>, n_cap (u_node a3 node), n_physical (u_node a3 node), node)))"

fun free_piece :: "kernel \<Rightarrow> nat \<Rightarrow> nat \<Rightarrow> ualloc \<Rightarrow> ualloc option" where
  "free_piece K 0 node a = None"
| "free_piece K (Suc n) node a0 =
     (let a = ensure_piece_whole K node a0; nd = u_node a node; sibling = n_sibling nd; parent = n_parent nd
      in if parent \<noteq> 0 \<and> sibling \<noteq> 0 \<and> n_free (u_node a sibling) then
           let a1 = unlink_piece sibling a;
               cap = n_cap (u_node a1 node); scap = n_cap (u_node a1 sibling);
               a2 = fst (kernel_call K (Revoke cap) a1); a3 = fst (kernel_call K (Revoke scap) a2);
               a4 = fst (kernel_call K (Delete cap) a3); a5 = fst (kernel_call K (Delete scap) a4);
               a6 = upd_node sibling (\<lambda>m. m\<lparr>n_live := False\<rparr>) (upd_node node (\<lambda>m. m\<lparr>n_live := False\<rparr>) a5);
               a7 = ua_free_slot scap (ua_free_slot cap a6);
               a8 = free_node node (free_node sibling a7)
           in free_piece K n parent a8
         else insert_piece (n_device nd) node a)"

definition free_object :: "kernel \<Rightarrow> nat \<Rightarrow> nat \<Rightarrow> nat \<Rightarrow> ualloc \<Rightarrow> (ualloc \<times> bool) option" where
  "free_object K fuel cookie bits a =
     (if cookie = 0 then Some (a, False)
      else if n_bits (u_node a cookie) \<noteq> bits \<or> n_free (u_node a cookie) then Some (a, False)
      else map_option (\<lambda>a1. (a1, True)) (free_piece K fuel cookie a))"

section \<open>Objects and runs of frames\<close>

datatype alloc_error = NotEnoughMemory | FailedLookup | InvalidArgument | KernelError

definition object_bits :: "kernel_consts \<Rightarrow> nat \<Rightarrow> nat \<Rightarrow> nat" where
  "object_bits kc typ bits = (if typ = k_cap_table kc then bits + 5 else bits)"

definition kPageBits :: nat where "kPageBits = 12"

definition kRetypeMaxObjects :: nat where "kRetypeMaxObjects = 256"

text \<open>A piece whose retype was refused goes back to its list whole.\<close>

definition give_back :: "kernel \<Rightarrow> nat \<Rightarrow> alloc_error \<Rightarrow> ualloc \<Rightarrow> (ualloc \<times> (alloc_error + u64 \<times> nat)) option" where
  "give_back K node e a =
     map_option (\<lambda>a1. (a1, Inl e)) (insert_piece (n_device (u_node a node)) node (ensure_piece_whole K node a))"

definition alloc_object :: "kernel \<Rightarrow> kernel_consts \<Rightarrow> nat \<Rightarrow> nat \<Rightarrow> nat \<Rightarrow> ualloc \<Rightarrow> (ualloc \<times> (alloc_error + u64 \<times> nat)) option" where
  "alloc_object K kc fuel typ bits a =
     (let wanted = object_bits kc typ bits
      in Option.bind (refill_inner K fuel False wanted a)
           (\<lambda>(a1, ok).
              if \<not> ok then Some (a1, Inl NotEnoughMemory)
              else
                (case take_piece False wanted a1 of (a2, node) \<Rightarrow>
                   if node = 0 then Some (a2, Inl NotEnoughMemory)
                   else
                     (case ua_alloc_slot a2 of (a3, slot) \<Rightarrow>
                        if slot = 0 then map_option (\<lambda>a4. (a4, Inl FailedLookup)) (insert_piece False node a3)
                        else
                          (case kernel_call K (Retype_Objects (n_cap (u_node a3 node)) typ bits slot 1) a3 of (a4, ok) \<Rightarrow>
                             if \<not> ok then give_back K node KernelError (ua_free_slot slot a4)
                             else Some (a4\<lparr>u_allocated := u_allocated a4 + 2 ^ wanted\<rparr>, Inr (slot, node)))))))"

text \<open>A run: its length as a power of two, its slots, and the retypes that fill them, a bounded number of frames at a time.\<close>

fun run_log :: "nat \<Rightarrow> nat" where
  "run_log n = (if n > 1 then Suc (run_log (n div 2)) else 0)"

declare run_log.simps [simp del]

definition power_of_two :: "nat \<Rightarrow> bool" where
  "power_of_two n \<longleftrightarrow> n \<noteq> 0 \<and> n AND (n - 1) = 0"

definition slot_failed_run :: "u64 \<Rightarrow> nat \<Rightarrow> ualloc \<Rightarrow> ualloc" where
  "slot_failed_run first cnt a = fold (\<lambda>i. ua_free_slot (first + of_nat i)) [0..<cnt] a"

function retype_run :: "kernel \<Rightarrow> kernel_consts \<Rightarrow> u64 \<Rightarrow> u64 \<Rightarrow> nat \<Rightarrow> nat \<Rightarrow> ualloc \<Rightarrow> ualloc \<times> nat" where
  "retype_run K kc cap first cnt got a =
     (if got < cnt then
        let chunk = min (cnt - got) kRetypeMaxObjects
        in case kernel_call K (Retype_Objects cap (k_page kc) kPageBits (first + of_nat got) chunk) a of (a1, ok) \<Rightarrow>
             if \<not> ok then (a1, got) else retype_run K kc cap first cnt (got + chunk) a1
      else (a, got))"
  by auto
termination by (relation "measure (\<lambda>(K, kc, cap, first, cnt, got, a). cnt - got)") (auto simp: kRetypeMaxObjects_def)

declare retype_run.simps [simp del]

definition alloc_pages_run :: "kernel \<Rightarrow> kernel_consts \<Rightarrow> nat \<Rightarrow> nat \<Rightarrow> ualloc \<Rightarrow> (ualloc \<times> (alloc_error + u64 \<times> nat)) option" where
  "alloc_pages_run K kc fuel cnt a =
     (if \<not> power_of_two cnt then Some (a, Inl InvalidArgument)
      else
        let wanted = object_bits kc (k_page kc) kPageBits + run_log cnt
        in Option.bind (refill_inner K fuel False wanted a)
             (\<lambda>(a1, ok).
                if \<not> ok then Some (a1, Inl NotEnoughMemory)
                else
                  (case take_piece False wanted a1 of (a2, node) \<Rightarrow>
                     if node = 0 then Some (a2, Inl NotEnoughMemory)
                     else
                       (case sp_alloc_run (u_pool a2) cnt (u_owner a2) of (p, first) \<Rightarrow>
                          let a3 = a2\<lparr>u_pool := p\<rparr>
                          in if first = 0 then map_option (\<lambda>a4. (a4, Inl NotEnoughMemory)) (insert_piece False node a3)
                             else
                               (case retype_run K kc (n_cap (u_node a3 node)) first cnt 0 a3 of (a4, got) \<Rightarrow>
                                  if got < cnt then
                                    give_back K node KernelError (slot_failed_run (first + of_nat got) (cnt - got) a4)
                                  else Some (a4\<lparr>u_allocated := u_allocated a4 + cnt * 2 ^ kPageBits\<rparr>, Inr (first, node)))))))"

definition carve_object_from :: "kernel \<Rightarrow> u64 \<Rightarrow> nat \<Rightarrow> nat \<Rightarrow> ualloc \<Rightarrow> ualloc \<times> (alloc_error + u64)" where
  "carve_object_from K cap typ bits a =
     (case ua_alloc_slot a of (a1, slot) \<Rightarrow>
        if slot = 0 then (a1, Inl NotEnoughMemory)
        else
          (case kernel_call K (Retype_Objects cap typ bits slot 1) a1 of (a2, ok) \<Rightarrow>
             if \<not> ok then (ua_free_slot slot a2, Inl KernelError) else (a2, Inr slot)))"

section \<open>What the allocator reports\<close>

definition largest_free_bits :: "ualloc \<Rightarrow> nat" where
  "largest_free_bits a =
     (case find (\<lambda>bits. u_heads a bits \<noteq> 0) (rev [0..<kWordBits]) of None \<Rightarrow> 0 | Some bits \<Rightarrow> bits)"

fun list_length :: "nat \<Rightarrow> ualloc \<Rightarrow> nat \<Rightarrow> nat option" where
  "list_length fuel a node =
     (if node = 0 then Some 0
      else case fuel of 0 \<Rightarrow> None | Suc n \<Rightarrow> map_option Suc (list_length n a (n_next (u_node a node))))"

declare list_length.simps [simp del]

definition untyped_free :: "ualloc \<Rightarrow> nat option" where
  "untyped_free a =
     foldl (\<lambda>t bits. Option.bind t (\<lambda>n. map_option ((+) n) (list_length (list_fuel a) a (u_heads a bits)))) (Some 0) [0..<kWordBits]"

text \<open>The check of a list: how many steps the walk took is bounded by the table.\<close>

fun list_problem :: "nat \<Rightarrow> ualloc \<Rightarrow> nat \<Rightarrow> nat \<Rightarrow> bool" where
  "list_problem left a bits node =
     (if node = 0 then False
      else if n_bits (u_node a node) \<noteq> bits \<or> \<not> n_free (u_node a node) then True
      else case left of 0 \<Rightarrow> True | Suc n \<Rightarrow> list_problem n a bits (n_next (u_node a node)))"

declare list_problem.simps [simp del]

definition check_free_lists :: "nat \<Rightarrow> ualloc \<Rightarrow> nat" where
  "check_free_lists capacity a =
     length (filter (\<lambda>bits. list_problem capacity a bits (u_heads a bits)) [0..<kWordBits]) +
     length (filter (\<lambda>bits. list_problem capacity a bits (u_dev_heads a bits)) [0..<kWordBits])"

section \<open>The start\<close>

definition ua_new :: "u64 \<Rightarrow> nat \<Rightarrow> u32 \<Rightarrow> nat \<Rightarrow> ualloc" where
  "ua_new first slots owner nodes =
     adopt_nodes nodes
       \<lparr>u_node = (\<lambda>_. fresh_piece), u_free_nodes = 0, u_node_used = 0, u_node_free = 0, u_heads = (\<lambda>_. 0), u_dev_heads = (\<lambda>_. 0),
        u_pool = sp_adopt first slots (replicate slots 0) False, u_owner = owner, u_allocated = 0, u_calls = []\<rparr>"

end
