(* ===== verification/Untyped_Proofs.thy ===== *)
theory Untyped_Proofs
  imports Untyped_Alloc "HOL-Library.Multiset"
begin

text \<open>
  The free lists of the untyped allocator as chains, and what each step of a carve does to them. The
  forward links are always right; the backward link of a piece that was inserted behind another is
  not; none of the steps here takes a piece from the middle of a list.
\<close>

section \<open>The lists\<close>

definition nxt :: "ualloc \<Rightarrow> nat \<Rightarrow> nat" where
  "nxt a i = n_next (u_node a i)"

definition all_free :: "(nat \<Rightarrow> nat list) \<Rightarrow> nat list" where
  "all_free fl = concat (map fl [0..<kWordBits])"

text \<open>
  The lists \<open>fl\<close> of pieces by size, the unused nodes \<open>ns\<close> and the nodes in use elsewhere \<open>bs\<close> (handed
  out, or split) are all the nodes, each once.
\<close>

definition lists_ok :: "ualloc \<Rightarrow> (nat \<Rightarrow> nat list) \<Rightarrow> nat list \<Rightarrow> nat list \<Rightarrow> bool" where
  "lists_ok a fl ns bs \<longleftrightarrow>
     (\<forall>b<kWordBits. chain (nxt a) (u_heads a b) (fl b) \<and> (fl b \<noteq> [] \<longrightarrow> n_prev (u_node a (hd (fl b))) = 0) \<and>
        (\<forall>i\<in>set (fl b). n_bits (u_node a i) = b \<and> \<not> n_device (u_node a i))) \<and>
     chain (nxt a) (u_free_nodes a) ns \<and> distinct (ns @ all_free fl @ bs) \<and> 0 \<notin> set bs \<and>
     length ns = u_node_free a \<and> length (all_free fl) + length bs = u_node_used a"

text \<open>The run of memory a piece is: its address and its size.\<close>

definition rng :: "ualloc \<Rightarrow> nat \<Rightarrow> nat \<times> nat" where
  "rng a i = (unat (n_physical (u_node a i)), n_bits (u_node a i))"

definition same_pieces :: "ualloc \<Rightarrow> ualloc \<Rightarrow> bool" where
  "same_pieces a a' \<longleftrightarrow>
     (\<forall>i. n_physical (u_node a' i) = n_physical (u_node a i) \<and> n_bits (u_node a' i) = n_bits (u_node a i) \<and>
          n_device (u_node a' i) = n_device (u_node a i) \<and> n_cap (u_node a' i) = n_cap (u_node a i))"

lemma same_pieces_refl [simp]: "same_pieces a a"
  by (simp add: same_pieces_def)

lemma same_pieces_trans: "same_pieces a b \<Longrightarrow> same_pieces b c \<Longrightarrow> same_pieces a c"
  by (simp add: same_pieces_def)

lemma mset_all_free:
  assumes "b < kWordBits"
  shows "mset (all_free (fl(b := xs))) + mset (fl b) = mset (all_free fl) + mset xs"
proof -
  have e: "[0..<kWordBits] = [0..<b] @ b # [Suc b..<kWordBits]"
    using assms by (metis le_add_diff_inverse less_imp_le_nat upt_add_eq_append upt_conv_Cons zero_le add_0)
  have "map (fl(b := xs)) [0..<b] = map fl [0..<b]" "map (fl(b := xs)) [Suc b..<kWordBits] = map fl [Suc b..<kWordBits]"
    by auto
  then show ?thesis
    by (simp add: all_free_def e union_ac)
qed

lemma all_free_none [simp]: "all_free (\<lambda>_. []) = []"
  by (simp add: all_free_def)

lemma in_all_free: "b < kWordBits \<Longrightarrow> i \<in> set (fl b) \<Longrightarrow> i \<in> set (all_free fl)"
  by (auto simp: all_free_def)

lemma all_free_ex: "i \<in> set (all_free fl) \<Longrightarrow> \<exists>b<kWordBits. i \<in> set (fl b)"
  by (auto simp: all_free_def)

lemma lists_distinct:
  assumes "lists_ok a fl ns bs"
  shows "distinct ns" "distinct bs" "set ns \<inter> set bs = {}"
    and "\<And>b i. b < kWordBits \<Longrightarrow> i \<in> set (fl b) \<Longrightarrow> i \<notin> set ns \<and> i \<notin> set bs"
    and "\<And>b c i. b < kWordBits \<Longrightarrow> c < kWordBits \<Longrightarrow> i \<in> set (fl b) \<Longrightarrow> i \<in> set (fl c) \<Longrightarrow> b = c"
    and "\<And>b. b < kWordBits \<Longrightarrow> distinct (fl b)"
proof -
  have d: "distinct (ns @ all_free fl @ bs)" using assms by (simp add: lists_ok_def)
  then show "distinct ns" "distinct bs" "set ns \<inter> set bs = {}" by auto
  show "i \<notin> set ns \<and> i \<notin> set bs" if "b < kWordBits" "i \<in> set (fl b)" for b i
    using d in_all_free [of b i fl] that by auto
  show "b = c" if "b < kWordBits" "c < kWordBits" "i \<in> set (fl b)" "i \<in> set (fl c)" for b c i
    using assms that unfolding lists_ok_def by metis
  show "distinct (fl b)" if "b < kWordBits" for b
    using d that by (auto simp: all_free_def distinct_concat_iff)
qed

text \<open>A change of nodes outside a chain leaves it a chain.\<close>

lemma chain_upd: "(\<And>i. i \<in> set xs \<Longrightarrow> nxt a' i = nxt a i) \<Longrightarrow> chain (nxt a) c xs \<Longrightarrow> chain (nxt a') c xs"
  using chain_cong [of xs "nxt a'" "nxt a"] by simp

lemma upd_node_fields [simp]:
  "u_heads (upd_node i f a) = u_heads a" "u_dev_heads (upd_node i f a) = u_dev_heads a" "u_free_nodes (upd_node i f a) = u_free_nodes a"
  "u_node_free (upd_node i f a) = u_node_free a" "u_node_used (upd_node i f a) = u_node_used a" "u_pool (upd_node i f a) = u_pool a"
  "u_owner (upd_node i f a) = u_owner a" "u_allocated (upd_node i f a) = u_allocated a" "u_calls (upd_node i f a) = u_calls a"
  "u_node (upd_node i f a) = (u_node a)(i := f (u_node a i))"
  by (simp_all add: upd_node_def put_node_def)

lemma set_head_fields [simp]:
  "u_node (set_head d b i a) = u_node a" "u_free_nodes (set_head d b i a) = u_free_nodes a" "u_node_free (set_head d b i a) = u_node_free a"
  "u_node_used (set_head d b i a) = u_node_used a" "u_pool (set_head d b i a) = u_pool a" "u_owner (set_head d b i a) = u_owner a"
  "u_allocated (set_head d b i a) = u_allocated a" "u_calls (set_head d b i a) = u_calls a"
  "u_heads (set_head False b i a) = (u_heads a)(b := i)" "u_dev_heads (set_head False b i a) = u_dev_heads a"
  by (simp_all add: set_head_def)

lemmas ua_simps = head_of_def kernel_call_def ua_alloc_slot_def ua_free_slot_def

section \<open>The node table\<close>

lemma alloc_node_ok:
  assumes "lists_ok a fl ns bs" and "alloc_node a = (a', node)"
  shows "(node = 0 \<and> a' = a \<and> ns = []) \<or>
         (\<exists>ns'. ns = node # ns' \<and> node \<noteq> 0 \<and> lists_ok a' fl ns' (node # bs) \<and> u_node a' = u_node a)"
proof (cases "u_free_nodes a = 0")
  case True
  then show ?thesis using assms by (auto simp: alloc_node_def lists_ok_def Let_def)
next
  case False
  then obtain ns' where ns: "ns = u_free_nodes a # ns'"
    using assms(1) by (cases ns) (auto simp: lists_ok_def)
  have node: "node = u_free_nodes a" and a': "a' = a\<lparr>u_free_nodes := nxt a node, u_node_free := u_node_free a - 1, u_node_used := u_node_used a + 1\<rparr>"
    using assms(2) False by (auto simp: alloc_node_def Let_def nxt_def)
  have "nxt a' = nxt a" by (simp add: a' nxt_def fun_eq_iff)
  then have "lists_ok a' fl ns' (node # bs)"
    using assms(1) ns node False unfolding lists_ok_def by (auto simp: a')
  then show ?thesis using ns node False a' by auto
qed

lemma free_node_ok:
  assumes ok: "lists_ok a fl ns (node # bs)"
  shows "lists_ok (free_node node a) fl (node # ns) bs" and "same_pieces a (free_node node a)"
proof -
  let ?a = "free_node node a"
  have n: "u_node ?a i = (if i = node then (u_node a node)\<lparr>n_next := u_free_nodes a\<rparr> else u_node a i)" for i
    by (simp add: free_node_def ua_simps)
  have o: "u_heads ?a = u_heads a" "u_free_nodes ?a = node" "u_node_free ?a = u_node_free a + 1" "u_node_used ?a = u_node_used a - 1"
    by (simp_all add: free_node_def ua_simps)
  have nb: "node \<noteq> 0" "node \<notin> set ns" using ok by (auto simp: lists_ok_def)
  have nf: "node \<notin> set (fl b)" if "b < kWordBits" for b
    using lists_distinct(4) [OF ok that] by auto
  have "chain (nxt ?a) (u_heads a b) (fl b)" if "b < kWordBits" for b
    using ok that nf [OF that] by (intro chain_upd [of "fl b" ?a a]) (auto simp: nxt_def n lists_ok_def)
  moreover have "chain (nxt ?a) (u_free_nodes a) ns"
    using ok nb by (intro chain_upd [of ns ?a a]) (auto simp: nxt_def n lists_ok_def)
  then have "chain (nxt ?a) node (node # ns)" using nb by (simp add: nxt_def n)
  moreover have "n_prev (u_node ?a i) = n_prev (u_node a i)" "n_bits (u_node ?a i) = n_bits (u_node a i)" "n_device (u_node ?a i) = n_device (u_node a i)" for i
    by (simp_all add: n)
  ultimately show "lists_ok ?a fl (node # ns) bs"
    using ok unfolding lists_ok_def o by auto
  show "same_pieces a ?a" by (simp add: same_pieces_def n)
qed

text \<open>Fields the lists do not look at.\<close>

lemma lists_ok_cong:
  assumes "lists_ok a fl ns bs" and "u_heads a' = u_heads a" and "u_free_nodes a' = u_free_nodes a"
    and "u_node_free a' = u_node_free a" and "u_node_used a' = u_node_used a"
    and "\<And>i. i \<notin> set bs \<Longrightarrow> u_node a' i = u_node a i"
  shows "lists_ok a' fl ns bs"
proof -
  have "chain (nxt a') (u_heads a b) (fl b)" if "b < kWordBits" for b
    using assms(1,6) that lists_distinct(4) [OF assms(1) that] by (intro chain_upd [of "fl b" a' a]) (auto simp: nxt_def lists_ok_def)
  moreover have "chain (nxt a') (u_free_nodes a) ns"
    using assms(1,6) lists_distinct(3) [OF assms(1)] by (intro chain_upd [of ns a' a]) (auto simp: nxt_def lists_ok_def)
  moreover have "u_node a' i = u_node a i" if "b < kWordBits" "i \<in> set (fl b)" for b i
    using assms(6) that lists_distinct(4) [OF assms(1) that] by auto
  ultimately show ?thesis
    using assms(1-5) unfolding lists_ok_def by auto
qed

section \<open>Taking the head of a list\<close>

lemma unlink_head:
  assumes ok: "lists_ok a fl ns bs" and b: "b < kWordBits" and h: "fl b = x # xs"
  shows "lists_ok (unlink_piece x a) (fl(b := xs)) ns (x # bs)" and "same_pieces a (unlink_piece x a)"
proof -
  let ?a = "unlink_piece x a"
  have x: "n_bits (u_node a x) = b" "\<not> n_device (u_node a x)" "n_prev (u_node a x) = 0" "x \<noteq> 0" "chain (nxt a) (nxt a x) xs"
    using ok b h unfolding lists_ok_def by (metis list.sel(1) list.set_intros(1) list.simps(3) chain.simps(2))+
  have d: "x \<notin> set xs" "distinct (fl b)" using lists_distinct(6) [OF ok b] h by auto
  have nz: "nxt a x \<noteq> 0 \<Longrightarrow> nxt a x \<in> set xs" using x(5) by (cases xs) auto
  have n: "u_node ?a i = (if i = x then (u_node a x)\<lparr>n_next := 0, n_prev := 0, n_free := False\<rparr>
      else if i = nxt a x \<and> i \<noteq> 0 then (u_node a i)\<lparr>n_prev := 0\<rparr> else u_node a i)" for i
    using x nz d by (auto simp: unlink_piece_def ua_simps Let_def nxt_def)
  have o: "u_heads ?a = (u_heads a)(b := nxt a x)" "u_free_nodes ?a = u_free_nodes a" "u_node_free ?a = u_node_free a" "u_node_used ?a = u_node_used a"
    using x by (simp_all add: unlink_piece_def ua_simps Let_def nxt_def)
  have nx: "nxt ?a i = nxt a i" if "i \<noteq> x" for i using that by (simp add: nxt_def n)
  have fx: "x \<notin> set (fl c)" if "c < kWordBits" "c \<noteq> b" for c
    using lists_distinct(5) [OF ok that(1) b] h that(2) by auto
  have "chain (nxt ?a) (nxt a x) xs" by (rule chain_upd [of xs ?a a]) (metis d(1) nx, rule x(5))
  moreover have "chain (nxt ?a) (u_heads a c) (fl c)" if "c < kWordBits" "c \<noteq> b" for c
    by (rule chain_upd [of "fl c" ?a a]) (metis fx [OF that] nx, use ok that in \<open>simp add: lists_ok_def\<close>)
  moreover have "x \<notin> set ns" using lists_distinct(4) [OF ok b, of x] h by simp
  then have "chain (nxt ?a) (u_free_nodes a) ns"
    by (intro chain_upd [of ns ?a a]) (metis nx, use ok in \<open>simp add: lists_ok_def\<close>)
  moreover have "n_prev (u_node ?a (hd xs)) = 0" if "xs \<noteq> []"
    using that x(5) d by (cases xs) (auto simp: n)
  moreover have "n_prev (u_node ?a (hd (fl c))) = 0" if "c < kWordBits" "fl c \<noteq> []" for c
    using that ok unfolding lists_ok_def by (auto simp: n)
  moreover have p: "n_bits (u_node ?a i) = n_bits (u_node a i)" "n_device (u_node ?a i) = n_device (u_node a i)" for i by (simp_all add: n)
  moreover have m: "mset (all_free (fl(b := xs))) + {#x#} = mset (all_free fl)"
    using mset_all_free [OF b, of fl xs] h by simp
  then have "distinct (ns @ all_free (fl(b := xs)) @ x # bs)"
    using ok mset_eq_imp_distinct_iff [of "ns @ all_free (fl(b := xs)) @ x # bs" "ns @ all_free fl @ bs"]
    by (simp add: lists_ok_def)
  moreover have "length (all_free (fl(b := xs))) + 1 = length (all_free fl)"
    using arg_cong [where f = size, OF m] by simp
  ultimately show "lists_ok ?a (fl(b := xs)) ns (x # bs)"
    using ok x(4) h unfolding lists_ok_def o by auto
  show "same_pieces a ?a" by (simp add: same_pieces_def n)
qed

section \<open>Inserting a piece\<close>

definition lower :: "ualloc \<Rightarrow> u64 \<Rightarrow> nat \<Rightarrow> bool" where
  "lower a p i \<longleftrightarrow> n_physical (u_node a i) \<noteq> 0 \<and> n_physical (u_node a i) < p"

lemma find_link_chain:
  assumes "chain (nxt a) at xs" and "length xs \<le> fuel"
  shows "find_link fuel a p holder at =
           Some (if takeWhile (lower a p) xs = [] then holder else last (takeWhile (lower a p) xs),
                 if dropWhile (lower a p) xs = [] then 0 else hd (dropWhile (lower a p) xs))"
  using assms
proof (induction xs arbitrary: at fuel holder)
  case Nil
  then show ?case by (auto simp: find_link.simps)
next
  case (Cons x xs)
  show ?case
  proof (cases "lower a p x")
    case False
    then show ?thesis using Cons.prems by (auto simp: find_link.simps lower_def)
  next
    case True
    then obtain n where "fuel = Suc n" "length xs \<le> n" using Cons.prems by (cases fuel) auto
    moreover from this have "find_link fuel a p holder at = find_link n a p x (nxt a x)"
      using True Cons.prems(1) by (simp add: find_link.simps [of "Suc n"] lower_def nxt_def)
    ultimately show ?thesis
      using True Cons.prems Cons.IH [of "nxt a x" n x] by simp
  qed
qed

text \<open>Where a piece goes in its list: behind the known addresses below its own, or to the head when it has none.\<close>

definition placed :: "ualloc \<Rightarrow> nat \<Rightarrow> nat list \<Rightarrow> nat list" where
  "placed a node xs =
     (if n_physical (u_node a node) = 0 then node # xs
      else takeWhile (lower a (n_physical (u_node a node))) xs @ node # dropWhile (lower a (n_physical (u_node a node))) xs)"

lemma mset_placed: "mset (placed a node xs) = add_mset node (mset xs)"
  unfolding placed_def by simp (metis mset_append takeWhile_dropWhile_id)

text \<open>The split of a list at the place of a piece.\<close>

lemma placed_split:
  "\<exists>us vs. xs = us @ vs \<and> placed a node xs = us @ node # vs \<and>
     (if n_physical (u_node a node) \<noteq> 0 then us = takeWhile (lower a (n_physical (u_node a node))) xs else us = [])"
proof (cases "n_physical (u_node a node) = 0")
  case True
  then show ?thesis by (intro exI [of _ "[]"] exI [of _ xs]) (simp add: placed_def)
next
  case False
  then show ?thesis
    by (intro exI [of _ "takeWhile (lower a (n_physical (u_node a node))) xs"] exI [of _ "dropWhile (lower a (n_physical (u_node a node))) xs"])
      (simp add: placed_def)
qed

lemma insert_fields:
  assumes ok: "lists_ok a fl ns (node # bs)" and b: "b = n_bits (u_node a node)" "b < kWordBits"
    and us: "fl b = us @ vs" "placed a node (fl b) = us @ node # vs"
      "if n_physical (u_node a node) \<noteq> 0 then us = takeWhile (lower a (n_physical (u_node a node))) (fl b) else us = []"
  defines "at \<equiv> if vs = [] then 0 else hd vs"
  shows "\<exists>a'. insert_piece False node a = Some a' \<and>
     u_node a' = (\<lambda>i. if i = node then (u_node a i)\<lparr>n_next := at, n_prev := 0, n_free := True\<rparr>
        else if us \<noteq> [] \<and> i = last us then (u_node a i)\<lparr>n_next := node\<rparr>
        else if vs \<noteq> [] \<and> i = hd vs then (u_node a i)\<lparr>n_prev := node\<rparr> else u_node a i) \<and>
     u_heads a' = (if us = [] then (u_heads a)(b := node) else u_heads a) \<and> u_free_nodes a' = u_free_nodes a \<and>
     u_node_free a' = u_node_free a \<and> u_node_used a' = u_node_used a \<and> u_dev_heads a' = u_dev_heads a \<and>
     u_pool a' = u_pool a \<and> u_owner a' = u_owner a \<and> u_allocated a' = u_allocated a \<and> u_calls a' = u_calls a"
proof -
  have ch: "chain (nxt a) (u_heads a b) (fl b)" using ok b by (simp add: lists_ok_def)
  have "mset (all_free (fl(b := []))) + mset (fl b) = mset (all_free fl)" using mset_all_free [OF b(2), of fl "[]"] by simp
  from arg_cong [where f = size, OF this] have "length (fl b) \<le> length (all_free fl)" by simp
  then have len: "length (fl b) \<le> list_fuel a" using ok by (simp add: lists_ok_def list_fuel_def)
  have nz: "\<forall>i\<in>set (fl b). i \<noteq> 0" using ch chain_nonzero by blast
  have h0: "vs \<noteq> [] \<Longrightarrow> hd vs \<noteq> 0" and l0: "us \<noteq> [] \<Longrightarrow> last us \<noteq> 0" using nz us(1) by auto
  have nn: "node \<notin> set (fl b)" and nb: "node \<noteq> 0" using lists_distinct(4) [OF ok b(2)] ok by (auto simp: lists_ok_def)
  have dis: "us \<noteq> [] \<Longrightarrow> vs \<noteq> [] \<Longrightarrow> last us \<noteq> hd vs"
    using lists_distinct(6) [OF ok b(2)] us(1) by (metis disjoint_iff distinct_append hd_in_set last_in_set)
  have link: "(if n_physical (u_node a node) \<noteq> 0 then find_link (list_fuel a) a (n_physical (u_node a node)) 0 (u_heads a b) else Some (0, u_heads a b)) =
      Some (if us = [] then 0 else last us, at)"
  proof (cases "n_physical (u_node a node) = 0")
    case True
    then show ?thesis using us ch by (cases vs) (auto simp: at_def)
  next
    case False
    then have "vs = dropWhile (lower a (n_physical (u_node a node))) (fl b)"
      using us(1,3) by (metis append_same_eq same_append_eq takeWhile_dropWhile_id)
    then show ?thesis using find_link_chain [OF ch len] False us(3) by (auto simp: at_def)
  qed
  define a1 where "a1 = upd_node node (\<lambda>m. m\<lparr>n_next := at, n_prev := 0\<rparr>) a"
  define a2 where "a2 = (if at \<noteq> 0 then upd_node at (\<lambda>m. m\<lparr>n_prev := node\<rparr>) a1 else a1)"
  define a3 where "a3 = upd_node node (\<lambda>m. m\<lparr>n_free := True\<rparr>) (set_link False b (if us = [] then 0 else last us) node a2)"
  have "insert_piece False node a = Some a3"
    by (simp only: insert_piece_def head_of_def Let_def if_False b(1) [symmetric] link option.map prod.case a1_def a2_def a3_def)
  moreover have "at \<noteq> node" "us \<noteq> [] \<Longrightarrow> last us \<noteq> node" "at = 0 \<longleftrightarrow> vs = []"
    using nn us(1) h0 nb by (auto simp: at_def)
  then have "u_node a3 = (\<lambda>i. if i = node then (u_node a i)\<lparr>n_next := at, n_prev := 0, n_free := True\<rparr>
        else if us \<noteq> [] \<and> i = last us then (u_node a i)\<lparr>n_next := node\<rparr>
        else if vs \<noteq> [] \<and> i = hd vs then (u_node a i)\<lparr>n_prev := node\<rparr> else u_node a i)"
    using l0 dis by (cases "us = []"; cases "vs = []") (simp_all add: a1_def a2_def a3_def set_link_def at_def fun_eq_iff)
  moreover have "u_heads a3 = (if us = [] then (u_heads a)(b := node) else u_heads a)"
    using l0 by (cases "us = []") (simp_all add: a1_def a2_def a3_def ua_simps set_link_def)
  moreover have "u_free_nodes a3 = u_free_nodes a" "u_node_free a3 = u_node_free a" "u_node_used a3 = u_node_used a"
      "u_dev_heads a3 = u_dev_heads a" "u_pool a3 = u_pool a" "u_owner a3 = u_owner a" "u_allocated a3 = u_allocated a" "u_calls a3 = u_calls a"
    by (simp_all add: a1_def a2_def a3_def set_link_def)
  ultimately show ?thesis by blast
qed

definition same_rest :: "ualloc \<Rightarrow> ualloc \<Rightarrow> bool" where
  "same_rest a a' \<longleftrightarrow>
     u_pool a' = u_pool a \<and> u_owner a' = u_owner a \<and> u_allocated a' = u_allocated a \<and> u_calls a' = u_calls a"

lemma insert_ok:
  assumes ok: "lists_ok a fl ns (node # bs)" and b: "b = n_bits (u_node a node)" "b < kWordBits" and dv: "\<not> n_device (u_node a node)"
  shows "\<exists>a'. insert_piece False node a = Some a' \<and> lists_ok a' (fl(b := placed a node (fl b))) ns bs \<and> same_pieces a a' \<and> same_rest a a'"
proof -
  obtain us vs where us: "fl b = us @ vs" "placed a node (fl b) = us @ node # vs"
      "if n_physical (u_node a node) \<noteq> 0 then us = takeWhile (lower a (n_physical (u_node a node))) (fl b) else us = []"
    using placed_split [of "fl b" a node] by blast
  obtain a' where ins: "insert_piece False node a = Some a'"
      and n: "u_node a' = (\<lambda>i. if i = node then (u_node a i)\<lparr>n_next := if vs = [] then 0 else hd vs, n_prev := 0, n_free := True\<rparr>
        else if us \<noteq> [] \<and> i = last us then (u_node a i)\<lparr>n_next := node\<rparr>
        else if vs \<noteq> [] \<and> i = hd vs then (u_node a i)\<lparr>n_prev := node\<rparr> else u_node a i)"
      and h: "u_heads a' = (if us = [] then (u_heads a)(b := node) else u_heads a)"
      and o: "u_free_nodes a' = u_free_nodes a" "u_node_free a' = u_node_free a" "u_node_used a' = u_node_used a"
      and rest: "same_rest a a'"
    using insert_fields [OF ok b us] unfolding same_rest_def by blast
  have d: "distinct (us @ vs)" using lists_distinct(6) [OF ok b(2)] us(1) by simp
  have nn: "node \<notin> set us" "node \<notin> set vs" "node \<noteq> 0" using lists_distinct(4) [OF ok b(2)] ok us(1) by (auto simp: lists_ok_def)
  have nx: "nxt a' i = (if i = node then (if vs = [] then 0 else hd vs) else if us \<noteq> [] \<and> i = last us then node else nxt a i)" for i
    by (simp add: nxt_def n)
  have p: "n_bits (u_node a' i) = n_bits (u_node a i)" "n_device (u_node a' i) = n_device (u_node a i)" for i by (simp_all add: n)
  have ch: "chain (nxt a) (u_heads a b) (us @ vs)" using ok b(2) unfolding us(1) [symmetric] lists_ok_def by blast
  have cb: "chain (nxt a') (u_heads a' b) (us @ node # vs) \<and> n_prev (u_node a' (hd (us @ node # vs))) = 0"
  proof (cases "us = []")
    case True
    then have "u_heads a b = (if vs = [] then 0 else hd vs)" using ch by (cases vs) auto
    moreover have "chain (nxt a') (u_heads a b) vs" using ch True nn nx by (intro chain_upd [of vs a' a]) auto
    ultimately show ?thesis using True nn by (simp add: h nx n)
  next
    case False
    have "chain (nxt a') (u_heads a b) (us @ node # vs)"
      by (rule chain_insert [OF ch False]) (use d nn nx last_in_set [OF False] in auto)
    moreover have "hd us \<noteq> node" using hd_in_set [OF False] nn(1) by metis
    moreover have "hd us \<noteq> hd vs" if "vs \<noteq> []" using that d hd_in_set [OF False] hd_in_set [OF that] by auto
    moreover have "n_prev (u_node a (hd (us @ vs))) = 0"
      using ok b(2) False unfolding us(1) [symmetric] lists_ok_def by (metis us(1) append_is_Nil_conv)
    ultimately show ?thesis using False by (auto simp: h n)
  qed
  have other: "i \<notin> set us \<and> i \<notin> set vs \<and> i \<noteq> node" if "c < kWordBits" "c \<noteq> b" "i \<in> set (fl c)" for c i
    using lists_distinct(5) [OF ok that(1) b(2) that(3)] lists_distinct(4) [OF ok that(1,3)] that(2) us(1) by auto
  have co: "chain (nxt a') (u_heads a' c) (fl c) \<and> (fl c \<noteq> [] \<longrightarrow> n_prev (u_node a' (hd (fl c))) = 0)" if "c < kWordBits" "c \<noteq> b" for c
  proof -
    have "chain (nxt a') (u_heads a c) (fl c)"
      by (rule chain_upd [of "fl c" a' a]) (use other [OF that] nx last_in_set in \<open>metis\<close>, use ok that in \<open>simp add: lists_ok_def\<close>)
    moreover have "fl c \<noteq> [] \<Longrightarrow> u_node a' (hd (fl c)) = u_node a (hd (fl c))"
      using other [OF that, of "hd (fl c)"] by (auto simp: n)
    ultimately show ?thesis using ok that by (auto simp: h lists_ok_def)
  qed
  have "i \<noteq> node \<and> i \<notin> set us" if "i \<in> set ns" for i
    using that ok lists_distinct(4) [OF ok b(2), of i] us(1) by (auto simp: lists_ok_def)
  then have cn: "chain (nxt a') (u_free_nodes a) ns"
    by (intro chain_upd [of ns a' a]) (metis nx last_in_set, use ok in \<open>simp add: lists_ok_def\<close>)
  have m: "mset (all_free (fl(b := us @ node # vs))) = add_mset node (mset (all_free fl))"
    using mset_all_free [OF b(2), of fl "us @ node # vs"] us(1) by simp
  then have dd: "distinct (ns @ all_free (fl(b := us @ node # vs)) @ bs)"
    using ok mset_eq_imp_distinct_iff [of "ns @ all_free (fl(b := us @ node # vs)) @ bs" "ns @ all_free fl @ node # bs"]
    by (simp add: lists_ok_def)
  have ll: "length (all_free (fl(b := us @ node # vs))) = Suc (length (all_free fl))"
    using arg_cong [where f = size, OF m] by simp
  have "lists_ok a' (fl(b := us @ node # vs)) ns bs"
    using cb co cn dd ll ok p us(1) b dv unfolding lists_ok_def o by auto
  then show ?thesis
    using ins rest us(2) by (intro exI [of _ a']) (auto simp: same_pieces_def n)
qed

section \<open>Splitting a piece\<close>

lemma lists_ok_perm: "lists_ok a fl ns bs \<Longrightarrow> mset bs' = mset bs \<Longrightarrow> lists_ok a fl ns bs'"
  unfolding lists_ok_def using mset_eq_imp_distinct_iff [of "ns @ all_free fl @ bs'" "ns @ all_free fl @ bs"] mset_eq_setD [of bs' bs] mset_eq_length [of bs' bs]
  by simp

text \<open>The free memory, as runs.\<close>

definition free_runs :: "ualloc \<Rightarrow> (nat \<Rightarrow> nat list) \<Rightarrow> (nat \<times> nat) multiset" where
  "free_runs a fl = image_mset (rng a) (mset (all_free fl))"

lemma rng_same: "same_pieces a a' \<Longrightarrow> rng a' = rng a"
  by (simp add: same_pieces_def rng_def fun_eq_iff)

lemma insert_runs:
  assumes "lists_ok a fl ns (node # bs)" and "b = n_bits (u_node a node)" and "b < kWordBits" and "\<not> n_device (u_node a node)"
  shows "\<exists>a' fl'. insert_piece False node a = Some a' \<and> lists_ok a' fl' ns bs \<and> same_pieces a a' \<and> same_rest a a' \<and>
           free_runs a' fl' = add_mset (rng a node) (free_runs a fl) \<and> fl' b \<noteq> []"
proof -
  obtain a' where a': "insert_piece False node a = Some a'" "lists_ok a' (fl(b := placed a node (fl b))) ns bs" "same_pieces a a'" "same_rest a a'"
    using insert_ok [OF assms] by blast
  have "mset (all_free (fl(b := placed a node (fl b)))) = add_mset node (mset (all_free fl))"
    using mset_all_free [OF assms(3), of fl "placed a node (fl b)"] by (simp add: mset_placed)
  moreover have "placed a node (fl b) \<noteq> []" by (simp add: placed_def)
  ultimately show ?thesis
    using a' rng_same [OF a'(3)] by (intro exI [of _ a'] exI [of _ "fl(b := placed a node (fl b))"]) (simp add: free_runs_def)
qed

lemma free_runs_cong:
  assumes "lists_ok a fl ns bs" and "\<And>i. i \<notin> set bs \<Longrightarrow> rng a' i = rng a i"
  shows "free_runs a' fl = free_runs a fl"
proof -
  have "rng a' i = rng a i" if "i \<in># mset (all_free fl)" for i
    using that assms by (auto simp: lists_ok_def)
  then show ?thesis unfolding free_runs_def by (intro image_mset_cong) auto
qed

text \<open>An update of busy nodes and of the fields the lists do not look at.\<close>

lemma busy_update:
  assumes "lists_ok a fl ns bs" and "u_heads a' = u_heads a" and "u_free_nodes a' = u_free_nodes a"
    and "u_node_free a' = u_node_free a" and "u_node_used a' = u_node_used a"
    and "\<And>i. i \<notin> set bs \<Longrightarrow> u_node a' i = u_node a i"
  shows "lists_ok a' fl ns bs" and "free_runs a' fl = free_runs a fl"
  using lists_ok_cong [OF assms] free_runs_cong [OF assms(1), of a'] assms(6) by (auto simp: rng_def)

lemma kernel_call_fields [simp]:
  "u_heads (fst (kernel_call K c a)) = u_heads a" "u_node (fst (kernel_call K c a)) = u_node a"
  "u_free_nodes (fst (kernel_call K c a)) = u_free_nodes a" "u_node_free (fst (kernel_call K c a)) = u_node_free a"
  "u_node_used (fst (kernel_call K c a)) = u_node_used a"
  by (simp_all add: kernel_call_def)

lemma slot_fields [simp]:
  "u_heads (ua_free_slot s a) = u_heads a" "u_node (ua_free_slot s a) = u_node a" "u_free_nodes (ua_free_slot s a) = u_free_nodes a"
  "u_node_free (ua_free_slot s a) = u_node_free a" "u_node_used (ua_free_slot s a) = u_node_used a"
  "u_heads (drop_slot s a) = u_heads a" "u_node (drop_slot s a) = u_node a" "u_free_nodes (drop_slot s a) = u_free_nodes a"
  "u_node_free (drop_slot s a) = u_node_free a" "u_node_used (drop_slot s a) = u_node_used a"
  "u_heads (fst (ua_alloc_slot a)) = u_heads a" "u_node (fst (ua_alloc_slot a)) = u_node a" "u_free_nodes (fst (ua_alloc_slot a)) = u_free_nodes a"
  "u_node_free (fst (ua_alloc_slot a)) = u_node_free a" "u_node_used (fst (ua_alloc_slot a)) = u_node_used a"
  by (simp_all add: ua_free_slot_def drop_slot_def ua_alloc_slot_def case_prod_beta)

lemma free_node_runs:
  assumes "lists_ok a fl ns (node # bs)"
  shows "lists_ok (free_node node a) fl (node # ns) bs" and "free_runs (free_node node a) fl = free_runs a fl"
    and "rng (free_node node a) = rng a"
  using free_node_ok [OF assms] rng_same [of a "free_node node a"] by (auto simp: free_runs_def)

text \<open>A run of \<open>2 ^ (b + 1)\<close> bytes, its two halves, and what splitting it may leave.\<close>

definition runs_ok :: "(nat \<times> nat) multiset \<Rightarrow> bool" where
  "runs_ok F \<longleftrightarrow> (\<forall>(p, b)\<in>#F. 0 < p \<and> p + 2 ^ b \<le> 2 ^ 64 \<and> b < kWordBits)"

definition split_effect :: "split_result \<Rightarrow> nat \<Rightarrow> nat \<Rightarrow> (nat \<times> nat) multiset \<Rightarrow> (nat \<times> nat) multiset \<Rightarrow> bool" where
  "split_effect r p b G F' \<longleftrightarrow>
     (case r of
        Again \<Rightarrow> F' = G
      | Refused \<Rightarrow> F' = add_mset (p, b + 1) G
      | Split \<Rightarrow> F' = add_mset (p, b) G \<or> F' = add_mset (p, b) (add_mset (p + 2 ^ b, b) G))"

lemma right_half:
  assumes "unat p + 2 ^ (b + 1) \<le> 2 ^ 64" and "b + 1 < kWordBits"
  shows "unat (p + 2 ^ b :: u64) = unat p + 2 ^ b"
proof -
  have "(2::nat) ^ b < 2 ^ 64" using assms(2) by (intro power_strict_increasing) (auto simp: kWordBits_def)
  then have "unat (2 ^ b :: u64) = 2 ^ b" using unat_of_nat_u64 [of "2 ^ b"] by simp
  moreover have "(2::nat) ^ (b + 1) = 2 ^ b + 2 ^ b" "0 < (2::nat) ^ b" by simp_all
  then have "unat p + 2 ^ b < 2 ^ 64" using assms(1) by linarith
  ultimately show ?thesis using unat_add_lem [THEN iffD1, of p "2 ^ b"] by simp
qed

lemma split_retype_ok:
  assumes ok: "lists_ok a fl ns (right # left # parent # bs)" and b: "b + 1 < kWordBits"
    and p: "n_physical (u_node a parent) \<noteq> 0" "unat (n_physical (u_node a parent)) + 2 ^ (b + 1) \<le> 2 ^ 64" "\<not> n_device (u_node a parent)"
  shows "\<exists>a' r fl' ns' bs'. split_retype K False b parent left right ls rs a = Some (a', r) \<and> lists_ok a' fl' ns' bs' \<and>
           split_effect r (unat (n_physical (u_node a parent))) b (free_runs a fl) (free_runs a' fl') \<and>
           r \<noteq> Refused \<and> (r = Split \<longrightarrow> fl' b \<noteq> [])"
proof -
  have dist: "left \<noteq> right" "parent \<noteq> left" "parent \<noteq> right" using ok by (auto simp: lists_ok_def)
  have b': "b < kWordBits" using b by simp
  define q where "q = n_physical (u_node a parent)"
  define cap where "cap = n_cap (u_node a parent)"
  obtain a1 ok1 where k1: "kernel_call K (Retype cap b ls) a = (a1, ok1)" by (rule prod.exhaust)
  obtain a2 ok2 where k2: "kernel_call K (Retype cap b rs) a1 = (a2, ok2)" by (rule prod.exhaust)
  have n12: "u_node a1 = u_node a" "u_node a2 = u_node a" "u_heads a2 = u_heads a" "u_free_nodes a2 = u_free_nodes a"
      "u_node_free a2 = u_node_free a" "u_node_used a2 = u_node_used a" "u_heads a1 = u_heads a" "u_free_nodes a1 = u_free_nodes a"
      "u_node_free a1 = u_node_free a" "u_node_used a1 = u_node_used a"
    using k1 k2 by (auto simp: kernel_call_def)
  show ?thesis
  proof (cases ok1)
    case False
    let ?a = "ua_free_slot rs (ua_free_slot ls a1)"
    have o1: "lists_ok ?a fl ns (left # right # parent # bs)" "free_runs ?a fl = free_runs a fl"
      using busy_update [OF ok, of ?a] n12 lists_ok_perm by auto
    note f1 = free_node_runs [OF o1(1)]
    note f2 = free_node_runs [OF f1(1)]
    have "split_retype K False b parent left right ls rs a = Some (free_node right (free_node left ?a), Again)"
      using False k1 by (simp add: split_retype_def Let_def cap_def)
    then show ?thesis
      using f1 f2 o1(2) by (intro exI conjI) (assumption | simp add: split_effect_def)+
  next
    case ok1: True
    show ?thesis
    proof (cases ok2)
      case False
      let ?a = "ua_free_slot rs (upd_node left (child ls q b False 0 0) a2)"
      have o1: "lists_ok ?a fl ns (right # left # parent # bs)" "free_runs ?a fl = free_runs a fl"
        using busy_update [OF ok, of ?a] n12 by auto
      note f1 = free_node_runs [OF o1(1)]
      have nl: "u_node (free_node right ?a) left = child ls q b False 0 0 (u_node a left)"
        using dist n12 by (simp add: free_node_def)
      obtain a' fl' where ins: "insert_piece False left (free_node right ?a) = Some a'" "lists_ok a' fl' (right # ns) (parent # bs)"
          "free_runs a' fl' = add_mset (rng (free_node right ?a) left) (free_runs (free_node right ?a) fl)" "fl' b \<noteq> []"
        using insert_runs [OF f1(1), of b] nl b' by (auto simp: child_def)
      have "split_retype K False b parent left right ls rs a = Some (a', Split)"
        using False ok1 k1 k2 ins(1) n12 p(3) by (simp add: split_retype_def Let_def cap_def q_def)
      moreover have "free_runs a' fl' = add_mset (unat q, b) (free_runs a fl)"
        using ins(3) f1(2) o1(2) nl by (simp add: rng_def child_def)
      ultimately show ?thesis
        using ins(2,4) by (intro exI conjI) (assumption | simp add: split_effect_def q_def)+
    next
      case True
      let ?l = "child ls q b False parent right (u_node a left)"
      let ?r = "child rs (q + 2 ^ b) b False parent left (u_node a right)"
      define a4 where "a4 = upd_node right (child rs (q + 2 ^ b) b False parent left) (upd_node left (child ls q b False parent right) a2)"
      have n4: "u_node a4 left = ?l" "u_node a4 right = ?r" using dist n12 by (auto simp: a4_def)
      have o4: "lists_ok a4 fl ns (right # left # parent # bs)" "free_runs a4 fl = free_runs a fl"
        using busy_update [OF ok, of a4] n12 by (auto simp: a4_def)
      obtain a5 fl5 where r5: "insert_piece False right a4 = Some a5" "lists_ok a5 fl5 ns (left # parent # bs)" "same_pieces a4 a5"
          "free_runs a5 fl5 = add_mset (rng a4 right) (free_runs a4 fl)"
        using insert_runs [OF o4(1), of b] n4 b' by (auto simp: child_def)
      have n5: "n_bits (u_node a5 left) = b" "\<not> n_device (u_node a5 left)" "rng a5 left = (unat q, b)"
        using r5(3) n4 by (auto simp: same_pieces_def child_def rng_def)
      obtain a6 fl6 where r6: "insert_piece False left a5 = Some a6" "lists_ok a6 fl6 ns (parent # bs)"
          "free_runs a6 fl6 = add_mset (rng a5 left) (free_runs a5 fl5)" "fl6 b \<noteq> []"
        using insert_runs [OF r5(2), of b] n5 b' by auto
      have "split_retype K False b parent left right ls rs a = Some (a6, Split)"
        using True ok1 k1 k2 r5(1) r6(1) n12 p(1,3) by (simp add: split_retype_def Let_def cap_def q_def a4_def)
      moreover have "rng a4 right = (unat q + 2 ^ b, b)"
        using n4 right_half [of q b] p(2) b by (simp add: rng_def child_def q_def)
      ultimately show ?thesis
        using r6(2-4) r5(4) o4(2) n5(3) by (intro exI conjI) (assumption | simp add: split_effect_def q_def)+
    qed
  qed
qed

lemma drop_node_runs:
  assumes "lists_ok a fl ns (if i = 0 then bs else i # bs)"
  shows "\<exists>ns'. lists_ok (drop_node i a) fl ns' bs" and "free_runs (drop_node i a) fl = free_runs a fl" and "rng (drop_node i a) = rng a"
  using assms free_node_runs [of a fl ns i bs] by (auto simp: drop_node_def)

lemma refuse_split:
  assumes "lists_ok a fl ns (parent # bs)" and "n_bits (u_node a parent) = b + 1" and "b + 1 < kWordBits" and "\<not> n_device (u_node a parent)"
  shows "\<exists>a' fl' ns' bs'. insert_piece False parent a = Some a' \<and> lists_ok a' fl' ns' bs' \<and>
           split_effect Refused (unat (n_physical (u_node a parent))) b (free_runs a fl) (free_runs a' fl')"
proof -
  obtain a' fl' where "insert_piece False parent a = Some a'" "lists_ok a' fl' ns bs" "free_runs a' fl' = add_mset (rng a parent) (free_runs a fl)"
    using insert_runs [OF assms(1), of "b + 1"] assms by auto
  then show ?thesis using assms(2) by (intro exI conjI) (assumption | simp add: split_effect_def rng_def)+
qed

lemma free_node_piece [simp]:
  "n_bits (u_node (free_node i a) j) = n_bits (u_node a j)" "n_device (u_node (free_node i a) j) = n_device (u_node a j)"
  "n_physical (u_node (free_node i a) j) = n_physical (u_node a j)"
  by (simp_all add: free_node_def)

lemma drop_node_piece [simp]:
  "n_bits (u_node (drop_node i a) j) = n_bits (u_node a j)" "n_device (u_node (drop_node i a) j) = n_device (u_node a j)"
  "n_physical (u_node (drop_node i a) j) = n_physical (u_node a j)"
  by (simp_all add: drop_node_def)

lemma alloc_slot_same:
  "ua_alloc_slot a = (a', s) \<Longrightarrow>
     u_heads a' = u_heads a \<and> u_node a' = u_node a \<and> u_free_nodes a' = u_free_nodes a \<and> u_node_free a' = u_node_free a \<and> u_node_used a' = u_node_used a"
  by (auto simp: ua_alloc_slot_def split: prod.splits)

lemma split_slots_ok:
  assumes ok: "lists_ok a fl ns (right # left # parent # bs)" and b: "b + 1 < kWordBits" and nb: "n_bits (u_node a parent) = b + 1"
    and p: "n_physical (u_node a parent) \<noteq> 0" "unat (n_physical (u_node a parent)) + 2 ^ (b + 1) \<le> 2 ^ 64" "\<not> n_device (u_node a parent)"
  shows "\<exists>a' r fl' ns' bs'. split_slots K False b parent left right a = Some (a', r) \<and> lists_ok a' fl' ns' bs' \<and>
           split_effect r (unat (n_physical (u_node a parent))) b (free_runs a fl) (free_runs a' fl') \<and> (r = Split \<longrightarrow> fl' b \<noteq> [])"
proof -
  obtain a3 ls where s1: "ua_alloc_slot a = (a3, ls)" by (rule prod.exhaust)
  obtain a4 rs where s2: "(if ls \<noteq> 0 then ua_alloc_slot a3 else (a3, 0)) = (a4, rs)" by (rule prod.exhaust)
  have f4: "u_heads a4 = u_heads a" "u_node a4 = u_node a" "u_free_nodes a4 = u_free_nodes a" "u_node_free a4 = u_node_free a" "u_node_used a4 = u_node_used a"
    using alloc_slot_same [OF s1] alloc_slot_same [of a3 a4 rs] s2 by (auto split: if_splits)
  have o4: "lists_ok a4 fl ns (right # left # parent # bs)" "free_runs a4 fl = free_runs a fl"
    using busy_update [OF ok, of a4] f4 by auto
  show ?thesis
  proof (cases "ls = 0 \<or> rs = 0")
    case True
    let ?s = "drop_slot rs (drop_slot ls a4)"
    have o5: "lists_ok ?s fl ns (left # right # parent # bs)" "free_runs ?s fl = free_runs a fl"
      using busy_update [OF o4(1), of ?s] o4(2) lists_ok_perm by auto
    note g1 = free_node_runs [OF o5(1)]
    note g2 = free_node_runs [OF g1(1)]
    obtain a' fl' ns' bs' where "insert_piece False parent (free_node right (free_node left ?s)) = Some a'" "lists_ok a' fl' ns' bs'"
        "split_effect Refused (unat (n_physical (u_node a parent))) b (free_runs a fl) (free_runs a' fl')"
      using refuse_split [OF g2(1)] p(3) nb b f4(2) g1(2) g2(2) o5(2) by auto
    then show ?thesis
      using True s1 s2 by (intro exI [of _ a'] exI [of _ Refused] exI [of _ fl'] exI [of _ ns'] exI [of _ bs']) (simp add: split_slots_def)
  next
    case slots: False
    obtain a' res fl' ns' bs' where "split_retype K False b parent left right ls rs a4 = Some (a', res)" "lists_ok a' fl' ns' bs'"
        "split_effect res (unat (n_physical (u_node a parent))) b (free_runs a fl) (free_runs a' fl')" "res = Split \<longrightarrow> fl' b \<noteq> []"
      using split_retype_ok [OF o4(1) b, of K ls rs] p f4(2) o4(2) by auto
    then show ?thesis
      using slots s1 s2 by (intro exI [of _ a'] exI [of _ res] exI [of _ fl'] exI [of _ ns'] exI [of _ bs']) (simp add: split_slots_def)
  qed
qed

text \<open>The two nodes of a split, or what one too few leaves.\<close>

lemma two_nodes:
  assumes ok: "lists_ok a fl ns bs" and l: "alloc_node a = (a1, left)" and r: "alloc_node a1 = (a2, right)"
  shows "u_node a2 = u_node a"
    and "left \<noteq> 0 \<Longrightarrow> right \<noteq> 0 \<Longrightarrow> \<exists>ns'. lists_ok a2 fl ns' (right # left # bs)"
    and "left = 0 \<or> right = 0 \<Longrightarrow> \<exists>ns'. lists_ok (drop_node right (drop_node left a2)) fl ns' bs \<and> free_runs (drop_node right (drop_node left a2)) fl = free_runs a fl"
proof -
  obtain ns1 where l1: "lists_ok a1 fl ns1 (if left = 0 then bs else left # bs)" "u_node a1 = u_node a"
    using alloc_node_ok [OF ok l] ok by (cases "left = 0") auto
  obtain ns2 where l2: "lists_ok a2 fl ns2 (if right = 0 then (if left = 0 then bs else left # bs) else right # (if left = 0 then bs else left # bs))"
      "u_node a2 = u_node a"
    using alloc_node_ok [OF l1(1) r] l1 by (cases "right = 0") auto
  then show "u_node a2 = u_node a" "left \<noteq> 0 \<Longrightarrow> right \<noteq> 0 \<Longrightarrow> \<exists>ns'. lists_ok a2 fl ns' (right # left # bs)" by auto
  have "rng a2 = rng a" using l2(2) by (simp add: rng_def fun_eq_iff)
  then have F2: "free_runs a2 fl = free_runs a fl" by (simp add: free_runs_def)
  show "\<exists>ns'. lists_ok (drop_node right (drop_node left a2)) fl ns' bs \<and> free_runs (drop_node right (drop_node left a2)) fl = free_runs a fl" if "left = 0 \<or> right = 0"
    using that l2(1) drop_node_runs [of a2 fl ns2 left bs] drop_node_runs [of a2 fl ns2 right bs] F2
    by (auto simp: drop_node_def split: if_splits)
qed

lemma split_piece_ok:
  assumes ok: "lists_ok a0 fl ns bs" and b: "b + 1 < kWordBits" and h: "fl (b + 1) = parent # xs" and rs: "runs_ok (free_runs a0 fl)"
  shows "\<exists>a' r fl' ns' bs' p G. split_piece K False b parent a0 = Some (a', r) \<and> lists_ok a' fl' ns' bs' \<and>
           free_runs a0 fl = add_mset (p, b + 1) G \<and> split_effect r p b G (free_runs a' fl') \<and> (r = Split \<longrightarrow> fl' b \<noteq> [])"
proof -
  let ?a = "unlink_piece parent a0" let ?fl = "fl(b + 1 := xs)"
  note u = unlink_head [OF ok b h]
  have pf: "n_bits (u_node ?a parent) = b + 1" "\<not> n_device (u_node ?a parent)"
    using u(2) ok b h by (auto simp: same_pieces_def lists_ok_def)
  define p where "p = unat (n_physical (u_node ?a parent))"
  have "mset (all_free fl) = add_mset parent (mset (all_free ?fl))" using mset_all_free [OF b, of fl xs] h by simp
  then have F: "free_runs a0 fl = add_mset (p, b + 1) (free_runs ?a ?fl)"
    using rng_same [OF u(2), symmetric] pf(1) by (simp add: free_runs_def p_def) (simp add: rng_def)
  have "0 < p \<and> p + 2 ^ (b + 1) \<le> 2 ^ 64" using rs unfolding F runs_ok_def by simp
  then have pk: "n_physical (u_node ?a parent) \<noteq> 0" "unat (n_physical (u_node ?a parent)) + 2 ^ (b + 1) \<le> 2 ^ 64"
    unfolding p_def by (metis less_irrefl unsigned_0, blast)
  obtain a1 left where l: "alloc_node ?a = (a1, left)" by (rule prod.exhaust)
  obtain a2 right where r: "alloc_node a1 = (a2, right)" by (rule prod.exhaust)
  note two = two_nodes [OF u(1) l r]
  show ?thesis
  proof (cases "left = 0 \<or> right = 0")
    case True
    let ?d = "drop_node right (drop_node left a2)"
    obtain ns3 where d: "lists_ok ?d ?fl ns3 (parent # bs)" "free_runs ?d ?fl = free_runs ?a ?fl"
      using two(3) [OF True] by blast
    obtain a' fl' ns' bs' where "insert_piece False parent ?d = Some a'" "lists_ok a' fl' ns' bs'"
        "split_effect Refused p b (free_runs ?a ?fl) (free_runs a' fl')"
      using refuse_split [OF d(1)] pf b two(1) d(2) by (auto simp: p_def)
    then show ?thesis
      using F True l r by (intro exI [of _ a'] exI [of _ Refused] exI [of _ fl'] exI [of _ ns'] exI [of _ bs'] exI [of _ p] exI [of _ "free_runs ?a ?fl"])
        (simp add: split_piece_def Let_def)
  next
    case False
    obtain ns2 where ok2: "lists_ok a2 ?fl ns2 (right # left # parent # bs)" using two(2) False by auto
    have "rng a2 = rng ?a" using two(1) by (simp add: rng_def fun_eq_iff)
    then have F2: "free_runs a2 ?fl = free_runs ?a ?fl" by (simp add: free_runs_def)
    obtain a' res fl' ns' bs' where "split_slots K False b parent left right a2 = Some (a', res)" "lists_ok a' fl' ns' bs'"
        "split_effect res p b (free_runs ?a ?fl) (free_runs a' fl')" "res = Split \<longrightarrow> fl' b \<noteq> []"
      using split_slots_ok [OF ok2 b, of K] pk pf two(1) F2 by (auto simp: p_def)
    then show ?thesis
      using F False l r by (intro exI [of _ a'] exI [of _ res] exI [of _ fl'] exI [of _ ns'] exI [of _ bs'] exI [of _ p] exI [of _ "free_runs ?a ?fl"])
        (simp add: split_piece_def Let_def)
  qed
qed

section \<open>How much memory there is\<close>

definition in_run :: "nat \<Rightarrow> nat \<times> nat \<Rightarrow> bool" where
  "in_run x r \<longleftrightarrow> fst r \<le> x \<and> x < fst r + 2 ^ snd r"

text \<open>How many of the runs hold an address, and how many bytes they are.\<close>

definition cover :: "nat \<Rightarrow> (nat \<times> nat) multiset \<Rightarrow> nat" where
  "cover x F = size (filter_mset (in_run x) F)"

definition bytes_in :: "(nat \<times> nat) multiset \<Rightarrow> nat" where
  "bytes_in F = sum_mset (image_mset (\<lambda>r. 2 ^ snd r) F)"

definition within_mem :: "(nat \<times> nat) multiset \<Rightarrow> (nat \<times> nat) multiset \<Rightarrow> bool" where
  "within_mem F' F \<longleftrightarrow> runs_ok F' \<and> (\<forall>x. cover x F' \<le> cover x F) \<and> bytes_in F' \<le> bytes_in F"

lemma cover_simps [simp]: "cover x {#} = 0" "cover x (add_mset r F) = (if in_run x r then 1 else 0) + cover x F" "cover x (F + G) = cover x F + cover x G"
  by (simp_all add: cover_def)

lemma bytes_in_simps [simp]: "bytes_in {#} = 0" "bytes_in (add_mset r F) = 2 ^ snd r + bytes_in F"
  by (simp_all add: bytes_in_def)

lemma within_mem_trans: "within_mem F'' F' \<Longrightarrow> within_mem F' F \<Longrightarrow> within_mem F'' F"
  unfolding within_mem_def by (metis order_trans)

lemma within_mem_refl: "runs_ok F \<Longrightarrow> within_mem F F"
  by (simp add: within_mem_def)

lemma halves_cover:
  "(if in_run x (p, b) then 1 else 0) + (if in_run x (p + 2 ^ b, b) then 1 else 0) = (if in_run x (p, b + 1) then 1 else (0::nat))"
  by (auto simp: in_run_def)

lemma split_effect_within:
  assumes "split_effect r p b G F'" and "runs_ok (add_mset (p, b + 1) G)"
  shows "within_mem F' (add_mset (p, b + 1) G)" and "r = Again \<Longrightarrow> bytes_in F' < bytes_in (add_mset (p, b + 1) G)"
proof -
  have ok: "0 < p" "p + 2 ^ (b + 1) \<le> 2 ^ 64" "b + 1 < kWordBits" "runs_ok G" using assms(2) by (auto simp: runs_ok_def)
  have halves: "runs_ok (add_mset (p, b) (add_mset (p + 2 ^ b, b) G))" using ok by (auto simp: runs_ok_def)
  then have half: "runs_ok (add_mset (p, b) G)" by (auto simp: runs_ok_def)
  have c2: "cover x (add_mset (p, b) (add_mset (p + 2 ^ b, b) G)) = cover x (add_mset (p, b + 1) G)" for x
    using halves_cover [of x p b] by simp
  have c1: "cover x (add_mset (p, b) G) \<le> cover x (add_mset (p, b + 1) G)" for x
    by (auto simp: in_run_def)
  have "within_mem (add_mset (p, b) G) (add_mset (p, b + 1) G)" "within_mem (add_mset (p, b) (add_mset (p + 2 ^ b, b) G)) (add_mset (p, b + 1) G)"
    using half halves c1 c2 by (simp_all add: within_mem_def del: cover_simps)
  moreover have "within_mem G (add_mset (p, b + 1) G)" "within_mem (add_mset (p, b + 1) G) (add_mset (p, b + 1) G)"
    using ok(4) assms(2) by (simp_all add: within_mem_def)
  ultimately show "within_mem F' (add_mset (p, b + 1) G)"
    using assms(1) by (cases r) (auto simp: split_effect_def)
  show "bytes_in F' < bytes_in (add_mset (p, b + 1) G)" if "r = Again"
    using assms(1) that by (simp add: split_effect_def)
qed

section \<open>Refilling and carving\<close>

lemma refill_ok:
  assumes "lists_ok a fl ns bs" and "runs_ok (free_runs a fl)" and "b < kWordBits" and "kWordBits - b + bytes_in (free_runs a fl) < n"
  shows "\<exists>a' res fl' ns' bs'. refill_inner K n False b a = Some (a', res) \<and> lists_ok a' fl' ns' bs' \<and>
           within_mem (free_runs a' fl') (free_runs a fl) \<and> (res \<longrightarrow> fl' b \<noteq> [])"
  using assms
proof (induction n arbitrary: b a fl ns bs)
  case 0
  then show ?case by simp
next
  case (Suc n)
  have hd0: "u_heads a b = 0 \<longleftrightarrow> fl b = []" if "lists_ok a fl ns bs" "b < kWordBits" for a fl ns bs b
    using that by (cases "fl b") (auto simp: lists_ok_def)
  show ?case
  proof (cases "fl b \<noteq> [] \<or> kWordBits \<le> b + 1")
    case True
    then show ?thesis
      using Suc.prems hd0 [OF Suc.prems(1,3)] within_mem_refl [OF Suc.prems(2)]
      by (intro exI [of _ a] exI [of _ "fl b \<noteq> []"] exI [of _ fl] exI [of _ ns] exI [of _ bs]) (auto simp: head_of_def)
  next
    case False
    then have b1: "b + 1 < kWordBits" by simp
    then have lt: "kWordBits - (b + 1) + bytes_in (free_runs a fl) < n" using Suc.prems(4) by linarith
    obtain a1 ok1 fl1 ns1 bs1 where up: "refill_inner K n False (b + 1) a = Some (a1, ok1)" "lists_ok a1 fl1 ns1 bs1"
        "within_mem (free_runs a1 fl1) (free_runs a fl)" "ok1 \<longrightarrow> fl1 (b + 1) \<noteq> []"
      using Suc.IH [OF Suc.prems(1,2) b1 lt] by blast
    show ?thesis
    proof (cases ok1)
      case no: False
      then show ?thesis
        using up False Suc.prems(1,3) hd0 by (intro exI [of _ a1] exI [of _ False] exI [of _ fl1] exI [of _ ns1] exI [of _ bs1]) (auto simp: head_of_def)
    next
      case True
      then obtain parent xs where h: "fl1 (b + 1) = parent # xs" using up(4) by (cases "fl1 (b + 1)") auto
      then have hp: "u_heads a1 (b + 1) = parent" "parent \<noteq> 0" using up(2) b1 by (auto simp: lists_ok_def)
      have r1: "runs_ok (free_runs a1 fl1)" using up(3) by (simp add: within_mem_def)
      obtain a2 r fl2 ns2 bs2 p G where sp: "split_piece K False b parent a1 = Some (a2, r)" "lists_ok a2 fl2 ns2 bs2"
          "free_runs a1 fl1 = add_mset (p, b + 1) G" "split_effect r p b G (free_runs a2 fl2)" "r = Split \<longrightarrow> fl2 b \<noteq> []"
        using split_piece_ok [OF up(2) b1 h r1, of K] by blast
      note w = split_effect_within [OF sp(4) r1 [unfolded sp(3)], folded sp(3)]
      have w2: "within_mem (free_runs a2 fl2) (free_runs a fl)" using w(1) up(3) within_mem_trans by blast
      have eq: "refill_inner K (Suc n) False b a = (case r of Again \<Rightarrow> refill_inner K n False b a2 | Refused \<Rightarrow> Some (a2, False) | Split \<Rightarrow> Some (a2, True))"
        using up(1) True False Suc.prems(1,3) hd0 hp sp(1) by (simp add: head_of_def Let_def)
      show ?thesis
      proof (cases r)
        case Again
        have "bytes_in (free_runs a2 fl2) < bytes_in (free_runs a fl)" using w(2) [OF Again] up(3) by (simp add: within_mem_def)
        then obtain a3 res fl3 ns3 bs3 where "refill_inner K n False b a2 = Some (a3, res)" "lists_ok a3 fl3 ns3 bs3"
            "within_mem (free_runs a3 fl3) (free_runs a2 fl2)" "res \<longrightarrow> fl3 b \<noteq> []"
          using Suc.IH [OF sp(2) _ Suc.prems(3)] Suc.prems(4) w2 by (auto simp: within_mem_def)
        then show ?thesis
          using eq Again w2 within_mem_trans by (metis split_result.simps(7))
      next
        case Refused
        then show ?thesis using eq sp(2) w2 by (metis split_result.simps(8))
      next
        case Split
        then show ?thesis using eq sp(2,5) w2 by (metis split_result.simps(9))
      qed
    qed
  qed
qed

text \<open>A piece of the size asked for, off its list: what every allocation starts with.\<close>

lemma refill_take_ok:
  assumes ok: "lists_ok a fl ns bs" and rs: "runs_ok (free_runs a fl)" and b: "b < kWordBits" and fuel: "kWordBits - b + bytes_in (free_runs a fl) < fuel"
  shows "\<exists>a1 res a2 node fl' ns' bs'. refill_inner K fuel False b a = Some (a1, res) \<and> (if res then take_piece False b a1 else (a1, 0)) = (a2, node) \<and>
           lists_ok a2 fl' ns' (if node = 0 then bs' else node # bs') \<and>
           (node \<noteq> 0 \<longrightarrow> n_bits (u_node a2 node) = b \<and> \<not> n_device (u_node a2 node)) \<and>
           within_mem (free_runs a2 fl' + (if node = 0 then {#} else {#rng a2 node#})) (free_runs a fl)"
proof -
  obtain a1 res fl1 ns1 bs1 where r: "refill_inner K fuel False b a = Some (a1, res)" "lists_ok a1 fl1 ns1 bs1"
      "within_mem (free_runs a1 fl1) (free_runs a fl)" "res \<longrightarrow> fl1 b \<noteq> []"
    using refill_ok [OF ok rs b fuel] by blast
  show ?thesis
  proof (cases res)
    case False
    then show ?thesis
      using r by (intro exI [of _ a1] exI [of _ False] exI [of _ a1] exI [of _ 0] exI [of _ fl1] exI [of _ ns1] exI [of _ bs1]) simp
  next
    case True
    then obtain x xs where h: "fl1 b = x # xs" using r(4) by (cases "fl1 b") auto
    have hx: "u_heads a1 b = x" "x \<noteq> 0" "n_bits (u_node a1 x) = b" "\<not> n_device (u_node a1 x)" using r(2) b h by (auto simp: lists_ok_def)
    note u = unlink_head [OF r(2) b h]
    let ?a = "unlink_piece x a1" let ?fl = "fl1(b := xs)"
    have "mset (all_free fl1) = add_mset x (mset (all_free ?fl))" using mset_all_free [OF b, of fl1 xs] h by simp
    then have "free_runs a1 fl1 = free_runs ?a ?fl + {#rng ?a x#}"
      using rng_same [OF u(2)] by (simp add: free_runs_def)
    moreover have "n_bits (u_node ?a x) = b" "\<not> n_device (u_node ?a x)" using u(2) hx by (auto simp: same_pieces_def)
    ultimately show ?thesis
      using r(1,3) u(1) hx True
      by (intro exI [of _ a1] exI [of _ True] exI [of _ ?a] exI [of _ x] exI [of _ ?fl] exI [of _ ns1] exI [of _ bs1]) (simp add: take_piece_def head_of_def Let_def)
  qed
qed

section \<open>The start\<close>

lemma link_nodes_ok:
  assumes "chain (nxt a) (u_free_nodes a) ns" and "\<forall>i\<in>set ns. i < k" and "0 < k"
  shows "chain (nxt (link_nodes k n a)) (u_free_nodes (link_nodes k n a)) (rev [k..<k + n] @ ns) \<and>
         u_heads (link_nodes k n a) = u_heads a \<and> u_node_free (link_nodes k n a) = u_node_free a \<and> u_node_used (link_nodes k n a) = u_node_used a"
  using assms
proof (induction n arbitrary: k a ns)
  case 0
  then show ?case by simp
next
  case (Suc n)
  let ?a = "(upd_node k (\<lambda>m. m\<lparr>n_next := u_free_nodes a\<rparr>) a)\<lparr>u_free_nodes := k\<rparr>"
  have "chain (nxt ?a) (u_free_nodes a) ns"
    by (rule chain_upd [of ns ?a a]) (use Suc.prems(2) in \<open>auto simp: nxt_def\<close>, rule Suc.prems(1))
  then have "chain (nxt ?a) (u_free_nodes ?a) (k # ns)" using Suc.prems(3) by (simp add: nxt_def)
  moreover have "\<forall>i\<in>set (k # ns). i < Suc k" using Suc.prems(2) by auto
  ultimately have "chain (nxt (link_nodes (Suc k) n ?a)) (u_free_nodes (link_nodes (Suc k) n ?a)) (rev [Suc k..<Suc k + n] @ k # ns) \<and>
      u_heads (link_nodes (Suc k) n ?a) = u_heads a \<and> u_node_free (link_nodes (Suc k) n ?a) = u_node_free a \<and> u_node_used (link_nodes (Suc k) n ?a) = u_node_used a"
    using Suc.IH [of ?a "k # ns" "Suc k"] by simp
  moreover have "[k..<k + Suc n] = k # [Suc k..<Suc k + n]" by (simp add: upt_conv_Cons del: upt_Suc)
  ultimately show ?case by (simp del: upt_Suc)
qed

lemma adopt_ok:
  assumes "0 < nodes" and "k < kWordBits"
  shows "\<exists>a fl ns bs. adopt_untyped cap k base (ua_new first slots owner nodes) = Some (a, True) \<and> lists_ok a fl ns bs \<and> free_runs a fl = {#(unat base, k)#}"
proof -
  let ?e = "\<lparr>u_node = (\<lambda>_. fresh_piece), u_free_nodes = 0, u_node_used = 0, u_node_free = nodes, u_heads = (\<lambda>_. 0), u_dev_heads = (\<lambda>_. 0),
        u_pool = sp_adopt first slots (replicate slots 0) False, u_owner = owner, u_allocated = 0, u_calls = []\<rparr> :: ualloc"
  have new: "ua_new first slots owner nodes = link_nodes 1 nodes ?e" using assms(1) by (simp add: ua_new_def adopt_nodes_def)
  have "lists_ok (ua_new first slots owner nodes) (\<lambda>_. []) (rev [1..<1 + nodes]) []"
    using link_nodes_ok [of ?e "[]" 1 nodes] unfolding new lists_ok_def by simp
  moreover obtain a1 node where al: "alloc_node (ua_new first slots owner nodes) = (a1, node)" by (rule prod.exhaust)
  ultimately obtain ns where ns: "node \<noteq> 0" "lists_ok a1 (\<lambda>_. []) ns [node]"
    using alloc_node_ok [of "ua_new first slots owner nodes" "\<lambda>_. []" "rev [1..<1 + nodes]" "[]"] assms(1) by fastforce
  let ?f = "\<lambda>m. m\<lparr>n_cap := cap, n_physical := base, n_bits := k, n_device := False, n_live := True, n_parent := 0, n_sibling := 0, n_next := 0, n_prev := 0\<rparr>"
  have o2: "lists_ok (upd_node node ?f a1) (\<lambda>_. []) ns [node]" using busy_update(1) [OF ns(2), of "upd_node node ?f a1"] by auto
  obtain a' fl' where "insert_piece False node (upd_node node ?f a1) = Some a'" "lists_ok a' fl' ns []"
      "free_runs a' fl' = add_mset (rng (upd_node node ?f a1) node) (free_runs (upd_node node ?f a1) (\<lambda>_. []))"
    using insert_runs [OF o2, of k] assms(2) by auto
  then show ?thesis
    using al ns(1) by (intro exI [of _ a'] exI [of _ fl'] exI [of _ ns] exI [of _ "[]"])
      (auto simp: adopt_untyped_def add_untyped_def rng_def free_runs_def all_free_def)
qed

end
