(* ===== verification/Untyped_Serve.thy ===== *)
theory Untyped_Serve
  imports Untyped_Proofs
begin

text \<open>
  The allocations of the untyped allocator (a piece, an object, a run of frames), each as a step that takes
  memory out of the free lists, and sequences of requests.
\<close>

section \<open>Memory taken out of memory\<close>

lemma runs_ok_plus [simp]: "runs_ok (F + G) \<longleftrightarrow> runs_ok F \<and> runs_ok G"
  by (auto simp: runs_ok_def)

lemma bytes_in_plus [simp]: "bytes_in (F + G) = bytes_in F + bytes_in G"
  by (simp add: bytes_in_def)

lemma within_mem_mono: "within_mem (F + G) F0 \<Longrightarrow> within_mem F F0"
  unfolding within_mem_def by (auto intro: add_leD1)

lemma within_mem_step:
  assumes "within_mem (F2 + G2) F1" and "within_mem (F1 + G1) F0"
  shows "within_mem (F2 + (G1 + G2)) F0"
proof -
  have "cover x F2 + (cover x G1 + cover x G2) \<le> cover x F0" for x
  proof -
    have "cover x F2 + cover x G2 \<le> cover x F1" "cover x F1 + cover x G1 \<le> cover x F0" using assms by (simp_all add: within_mem_def)
    then show ?thesis by linarith
  qed
  then show ?thesis using assms by (simp add: within_mem_def)
qed

section \<open>What leaves the lists as they are\<close>

definition same_lists :: "ualloc \<Rightarrow> ualloc \<Rightarrow> bool" where
  "same_lists a a' \<longleftrightarrow>
     u_heads a' = u_heads a \<and> u_node a' = u_node a \<and> u_free_nodes a' = u_free_nodes a \<and> u_node_free a' = u_node_free a \<and> u_node_used a' = u_node_used a"

lemma same_lists_keep:
  assumes "same_lists a a'" and "lists_ok a fl ns bs"
  shows "lists_ok a' fl ns bs" and "free_runs a' fl = free_runs a fl" and "rng a' = rng a"
  using busy_update [OF assms(2), of a'] assms(1) by (auto simp: same_lists_def rng_def)

lemma same_lists_simps [simp]:
  "same_lists a a" "same_lists a (b\<lparr>u_pool := p\<rparr>) = same_lists a b" "same_lists a (b\<lparr>u_allocated := k\<rparr>) = same_lists a b"
  "same_lists a (ua_free_slot s b) = same_lists a b" "same_lists a (fst (kernel_call K c b)) = same_lists a b"
  "same_lists a (ensure_piece_whole K node b) = same_lists a b"
  by (simp_all add: same_lists_def ensure_piece_whole_def)

lemma same_lists_fold [simp]: "same_lists a (fold (\<lambda>i. ua_free_slot (f i)) is b) = same_lists a b"
  by (induction "is" arbitrary: b) simp_all

lemma same_lists_failed_run [simp]: "same_lists a (slot_failed_run first n b) = same_lists a b"
  by (simp add: slot_failed_run_def)

lemma same_lists_alloc_slot: "ua_alloc_slot a = (a', s) \<Longrightarrow> same_lists a a'"
  using alloc_slot_same [of a a' s] by (simp add: same_lists_def)

lemma same_lists_kernel: "kernel_call K c a = (a', ok) \<Longrightarrow> same_lists a a'"
  by (auto simp: kernel_call_def same_lists_def)

lemma same_lists_trans: "same_lists a b \<Longrightarrow> same_lists b c \<Longrightarrow> same_lists a c"
  by (simp add: same_lists_def)

lemma retype_run_ok:
  "retype_run K kc cap first cnt got a = (a', got') \<Longrightarrow> got \<le> cnt \<Longrightarrow> same_lists a a' \<and> got' \<le> cnt"
proof (induction K kc cap first cnt got a arbitrary: a' got' rule: retype_run.induct)
  case (1 K kc cap first cnt got a)
  let ?c = "min (cnt - got) kRetypeMaxObjects"
  obtain a1 ok where k: "kernel_call K (Retype_Objects cap (k_page kc) kPageBits (first + of_nat got) ?c) a = (a1, ok)" by (rule prod.exhaust)
  show ?case
  proof (cases "got < cnt \<and> ok")
    case True
    then have "retype_run K kc cap first cnt (got + ?c) a1 = (a', got')"
      using 1(2) k by (simp add: retype_run.simps [of K kc cap first cnt got a] Let_def)
    then have "same_lists a1 a' \<and> got' \<le> cnt" using 1(1) [OF _ refl k [symmetric]] True by auto
    then show ?thesis using same_lists_kernel [OF k] same_lists_trans by blast
  next
    case False
    then show ?thesis
      using 1(2,3) k same_lists_kernel [OF k] by (auto simp: retype_run.simps [of K kc cap first cnt got a] Let_def split: if_splits)
  qed
qed

section \<open>The allocations\<close>

text \<open>Putting the piece back after a refusal.\<close>

lemma piece_back:
  assumes "lists_ok a fl ns (node # bs)" and "n_bits (u_node a node) = b" and "b < kWordBits" and "\<not> n_device (u_node a node)"
    and "within_mem (free_runs a fl + {#rng a node#}) F" and "same_lists a a1"
  shows "\<exists>a2 fl2. insert_piece False node a1 = Some a2 \<and> lists_ok a2 fl2 ns bs \<and> within_mem (free_runs a2 fl2) F"
proof -
  note k = same_lists_keep [OF assms(6,1)]
  have "n_bits (u_node a1 node) = b" "\<not> n_device (u_node a1 node)" using assms(2,4,6) by (simp_all add: same_lists_def)
  then obtain a2 fl2 where "insert_piece False node a1 = Some a2" "lists_ok a2 fl2 ns bs" "free_runs a2 fl2 = add_mset (rng a1 node) (free_runs a1 fl)"
    using insert_runs [OF k(1), of b] assms(3) by auto
  then show ?thesis using assms(5) k(2,3) by auto
qed

lemma carve_ok:
  assumes "lists_ok a fl ns bs" and "runs_ok (free_runs a fl)" and "b < kWordBits" and "kWordBits - b + bytes_in (free_runs a fl) < fuel"
  shows "\<exists>a' cap phys node fl' ns' bs'. carve_untyped K fuel b a = Some (a', cap, phys, node) \<and> lists_ok a' fl' ns' bs' \<and>
           within_mem (free_runs a' fl' + (if node = 0 then {#} else {#(unat phys, b)#})) (free_runs a fl)"
proof -
  obtain a1 res a2 node fl2 ns2 bs2 where r: "refill_inner K fuel False b a = Some (a1, res)" "(if res then take_piece False b a1 else (a1, 0)) = (a2, node)"
      "lists_ok a2 fl2 ns2 (if node = 0 then bs2 else node # bs2)" "node \<noteq> 0 \<longrightarrow> n_bits (u_node a2 node) = b \<and> \<not> n_device (u_node a2 node)"
      "within_mem (free_runs a2 fl2 + (if node = 0 then {#} else {#rng a2 node#})) (free_runs a fl)"
    using refill_take_ok [OF assms] by blast
  show ?thesis
  proof (cases "node = 0")
    case True
    then have "carve_untyped K fuel b a = Some (a2, 0, 0, 0)" using r(1,2) by (auto simp: carve_untyped_def split: if_splits)
    then show ?thesis using r(3,5) True by (intro exI [of _ a2] exI [of _ 0] exI [of _ fl2] exI [of _ ns2] exI [of _ bs2]) simp
  next
    case False
    let ?e = "ensure_piece_whole K node a2"
    let ?a = "?e\<lparr>u_allocated := u_allocated ?e + 2 ^ b\<rparr>"
    note k = same_lists_keep [of a2 ?a, OF _ r(3)]
    have "u_node ?e = u_node a2" by (simp add: ensure_piece_whole_def)
    then have "carve_untyped K fuel b a = Some (?a, n_cap (u_node a2 node), n_physical (u_node a2 node), node)"
      using r(1,2) False by (auto simp: carve_untyped_def Let_def split: if_splits)
    then show ?thesis using k r(3-5) False
      by (intro exI [of _ ?a] exI [of _ "n_cap (u_node a2 node)"] exI [of _ "n_physical (u_node a2 node)"] exI [of _ node] exI [of _ fl2] exI [of _ ns2] exI [of _ "node # bs2"])
        (auto simp: rng_def)
  qed
qed

text \<open>What an allocation that answers a slot or an error gave out.\<close>

definition made :: "ualloc \<Rightarrow> alloc_error + u64 \<times> nat \<Rightarrow> (nat \<times> nat) list" where
  "made a res = (case res of Inl e \<Rightarrow> [] | Inr (slot, node) \<Rightarrow> [rng a node])"

lemma object_ok:
  assumes "lists_ok a fl ns bs" and "runs_ok (free_runs a fl)" and b: "object_bits kc typ bits < kWordBits"
    and "kWordBits - object_bits kc typ bits + bytes_in (free_runs a fl) < fuel"
  shows "\<exists>a' res fl' ns' bs'. alloc_object K kc fuel typ bits a = Some (a', res) \<and> lists_ok a' fl' ns' bs' \<and>
           within_mem (free_runs a' fl' + mset (made a' res)) (free_runs a fl)"
proof -
  let ?b = "object_bits kc typ bits"
  obtain a1 r1 a2 node fl2 ns2 bs2 where r: "refill_inner K fuel False ?b a = Some (a1, r1)" "(if r1 then take_piece False ?b a1 else (a1, 0)) = (a2, node)"
      "lists_ok a2 fl2 ns2 (if node = 0 then bs2 else node # bs2)" "node \<noteq> 0 \<longrightarrow> n_bits (u_node a2 node) = ?b \<and> \<not> n_device (u_node a2 node)"
      "within_mem (free_runs a2 fl2 + (if node = 0 then {#} else {#rng a2 node#})) (free_runs a fl)"
    using refill_take_ok [OF assms] by blast
  obtain a3 slot where sl: "ua_alloc_slot a2 = (a3, slot)" by (rule prod.exhaust)
  obtain a4 kk where kc: "kernel_call K (Retype_Objects (n_cap (u_node a3 node)) typ bits slot 1) a3 = (a4, kk)" by (rule prod.exhaust)
  have s3: "same_lists a2 a3" and s4: "same_lists a2 a4" using same_lists_alloc_slot [OF sl] same_lists_kernel [OF kc] same_lists_trans by blast+
  consider "node = 0" | "node \<noteq> 0" "slot = 0 \<or> \<not> kk" | "node \<noteq> 0" "slot \<noteq> 0" "kk" by blast
  then show ?thesis
  proof cases
    case 1
    then have "alloc_object K kc fuel typ bits a = Some (a2, Inl NotEnoughMemory)" using r(1,2) by (auto simp: alloc_object_def Let_def split: if_splits)
    then show ?thesis using r(3,5) 1 by (intro exI [of _ a2] exI [of _ "Inl NotEnoughMemory"] exI [of _ fl2] exI [of _ ns2] exI [of _ bs2]) (simp add: made_def)
  next
    case 2
    let ?a = "if slot = 0 then a3 else ensure_piece_whole K node (ua_free_slot slot a4)"
    have "same_lists a2 ?a" using s3 s4 by simp
    then obtain a5 fl5 where i: "insert_piece False node ?a = Some a5" "lists_ok a5 fl5 ns2 bs2" "within_mem (free_runs a5 fl5) (free_runs a fl)"
      using piece_back [of a2 fl2 ns2 node bs2 ?b "free_runs a fl" ?a] r(3-5) b 2 by auto
    have "\<not> n_device (u_node a4 node)" using s4 r(4) 2(1) by (simp add: same_lists_def)
    then have "\<exists>e. alloc_object K kc fuel typ bits a = Some (a5, Inl e)"
      using r(1,2) sl kc 2 i(1) by (auto simp: alloc_object_def give_back_def Let_def split: if_splits)
    then show ?thesis using i(2,3) by (force simp: made_def)
  next
    case 3
    let ?a = "a4\<lparr>u_allocated := u_allocated a4 + 2 ^ ?b\<rparr>"
    note k = same_lists_keep [of a2 ?a, OF _ r(3)]
    have "alloc_object K kc fuel typ bits a = Some (?a, Inr (slot, node))"
      using r(1,2) sl kc 3 by (auto simp: alloc_object_def Let_def split: if_splits)
    then show ?thesis using k s4 r(3,5) 3
      by (intro exI [of _ ?a] exI [of _ "Inr (slot, node)"] exI [of _ fl2] exI [of _ ns2] exI [of _ "node # bs2"]) (simp add: made_def)
  qed
qed

definition run_bits :: "kernel_consts \<Rightarrow> nat \<Rightarrow> nat" where
  "run_bits kc cnt = object_bits kc (k_page kc) kPageBits + run_log cnt"

lemma pages_ok:
  assumes ok: "lists_ok a fl ns bs" and rs: "runs_ok (free_runs a fl)" and b: "run_bits kc cnt < kWordBits"
    and fuel: "kWordBits - run_bits kc cnt + bytes_in (free_runs a fl) < fuel"
  shows "\<exists>a' res fl' ns' bs'. alloc_pages_run K kc fuel cnt a = Some (a', res) \<and> lists_ok a' fl' ns' bs' \<and>
           within_mem (free_runs a' fl' + mset (made a' res)) (free_runs a fl)"
proof -
  let ?b = "run_bits kc cnt"
  obtain a1 r1 a2 node fl2 ns2 bs2 where r: "refill_inner K fuel False ?b a = Some (a1, r1)" "(if r1 then take_piece False ?b a1 else (a1, 0)) = (a2, node)"
      "lists_ok a2 fl2 ns2 (if node = 0 then bs2 else node # bs2)" "node \<noteq> 0 \<longrightarrow> n_bits (u_node a2 node) = ?b \<and> \<not> n_device (u_node a2 node)"
      "within_mem (free_runs a2 fl2 + (if node = 0 then {#} else {#rng a2 node#})) (free_runs a fl)"
    using refill_take_ok [OF assms] by blast
  obtain p first where sl: "sp_alloc_run (u_pool a2) cnt (u_owner a2) = (p, first)" by (rule prod.exhaust)
  define a3 where "a3 = a2\<lparr>u_pool := p\<rparr>"
  obtain a4 got where rt: "retype_run K kc (n_cap (u_node a3 node)) first cnt 0 a3 = (a4, got)" by (rule prod.exhaust)
  have s3: "same_lists a2 a3" by (simp add: a3_def)
  then have s4: "same_lists a2 a4" using retype_run_ok [OF rt] same_lists_trans by blast
  note eqs = alloc_pages_run_def Let_def run_bits_def [symmetric] a3_def [symmetric]
  consider "\<not> power_of_two cnt" | "power_of_two cnt" "node = 0" | "power_of_two cnt" "node \<noteq> 0" "first = 0 \<or> got < cnt"
    | "power_of_two cnt" "node \<noteq> 0" "first \<noteq> 0" "\<not> got < cnt" by blast
  then show ?thesis
  proof cases
    case 1
    then show ?thesis using ok within_mem_refl [OF rs]
      by (intro exI [of _ a] exI [of _ "Inl InvalidArgument"] exI [of _ fl] exI [of _ ns] exI [of _ bs]) (simp add: alloc_pages_run_def made_def)
  next
    case 2
    then have "alloc_pages_run K kc fuel cnt a = Some (a2, Inl NotEnoughMemory)" using r(1,2) by (auto simp: eqs split: if_splits)
    then show ?thesis using r(3,5) 2 by (intro exI [of _ a2] exI [of _ "Inl NotEnoughMemory"] exI [of _ fl2] exI [of _ ns2] exI [of _ bs2]) (simp add: made_def)
  next
    case 3
    let ?a = "if first = 0 then a3 else ensure_piece_whole K node (slot_failed_run (first + of_nat got) (cnt - got) a4)"
    have s5: "same_lists a2 ?a" "same_lists a2 (slot_failed_run (first + of_nat got) (cnt - got) a4)" using s3 s4 by simp_all
    then obtain a5 fl5 where i: "insert_piece False node ?a = Some a5" "lists_ok a5 fl5 ns2 bs2" "within_mem (free_runs a5 fl5) (free_runs a fl)"
      using piece_back [of a2 fl2 ns2 node bs2 ?b "free_runs a fl" ?a] r(3-5) b 3 by auto
    have "\<not> n_device (u_node (slot_failed_run (first + of_nat got) (cnt - got) a4) node)" using s5(2) r(4) 3 by (simp add: same_lists_def)
    then have "\<exists>e. alloc_pages_run K kc fuel cnt a = Some (a5, Inl e)"
      using r(1,2) sl rt 3 i(1) by (auto simp: eqs give_back_def split: if_splits)
    then show ?thesis using i(2,3) by (force simp: made_def)
  next
    case 4
    let ?a = "a4\<lparr>u_allocated := u_allocated a4 + cnt * 2 ^ kPageBits\<rparr>"
    note k = same_lists_keep [of a2 ?a, OF _ r(3)]
    have "alloc_pages_run K kc fuel cnt a = Some (?a, Inr (first, node))"
      using r(1,2) sl rt 4 by (auto simp: eqs split: if_splits)
    then show ?thesis using k s4 r(3,5) 4
      by (intro exI [of _ ?a] exI [of _ "Inr (first, node)"] exI [of _ fl2] exI [of _ ns2] exI [of _ "node # bs2"]) (simp add: made_def)
  qed
qed

section \<open>Sequences of requests\<close>

datatype request = Carve nat | Object nat nat | Frames nat | Free nat nat

datatype answer = Carved u64 u64 nat | Made "alloc_error + u64 \<times> nat" | Freed bool

definition serve1 :: "kernel \<Rightarrow> kernel_consts \<Rightarrow> nat \<Rightarrow> request \<Rightarrow> ualloc \<Rightarrow> (ualloc \<times> answer) option" where
  "serve1 K kc fuel r a =
     (case r of
        Carve bits \<Rightarrow> map_option (\<lambda>(a1, cap, phys, node). (a1, Carved cap phys node)) (carve_untyped K fuel bits a)
      | Object typ bits \<Rightarrow> map_option (\<lambda>(a1, res). (a1, Made res)) (alloc_object K kc fuel typ bits a)
      | Frames cnt \<Rightarrow> map_option (\<lambda>(a1, res). (a1, Made res)) (alloc_pages_run K kc fuel cnt a)
      | Free node bits \<Rightarrow> map_option (\<lambda>(a1, ok). (a1, Freed ok)) (free_object K fuel node bits a))"

fun serve :: "kernel \<Rightarrow> kernel_consts \<Rightarrow> nat \<Rightarrow> request list \<Rightarrow> ualloc \<Rightarrow> (ualloc \<times> answer list) option" where
  "serve K kc fuel [] a = Some (a, [])"
| "serve K kc fuel (r # rs) a =
     Option.bind (serve1 K kc fuel r a) (\<lambda>(a1, x). map_option (\<lambda>(a2, xs). (a2, x # xs)) (serve K kc fuel rs a1))"

text \<open>How many bits of memory a request is for, when it is for any, and the memory an answer gave out.\<close>

fun wants :: "kernel_consts \<Rightarrow> request \<Rightarrow> nat option" where
  "wants kc (Carve bits) = Some bits"
| "wants kc (Object typ bits) = Some (object_bits kc typ bits)"
| "wants kc (Frames cnt) = Some (run_bits kc cnt)"
| "wants kc (Free node bits) = None"

fun handed :: "ualloc \<Rightarrow> request \<Rightarrow> answer \<Rightarrow> (nat \<times> nat) list" where
  "handed a (Carve bits) (Carved cap phys node) = (if node = 0 then [] else [(unat phys, bits)])"
| "handed a r (Made res) = made a res"
| "handed a r x = []"

lemma serve1_ok:
  assumes ok: "lists_ok a fl ns bs" and rs: "runs_ok (free_runs a fl)" and w: "wants kc r = Some b" and b: "b < kWordBits"
    and fuel: "kWordBits + bytes_in (free_runs a fl) < fuel"
  shows "\<exists>a' x fl' ns' bs'. serve1 K kc fuel r a = Some (a', x) \<and> lists_ok a' fl' ns' bs' \<and>
           within_mem (free_runs a' fl' + mset (handed a' r x)) (free_runs a fl)"
proof -
  have f: "kWordBits - b + bytes_in (free_runs a fl) < fuel" using fuel by linarith
  show ?thesis
  proof (cases r)
    case (Carve bits)
    then have [simp]: "bits = b" using w by simp
    show ?thesis using carve_ok [OF ok rs b f, of K] Carve by (force simp: serve1_def)
  next
    case (Object ty bits)
    then show ?thesis using object_ok [OF ok rs, of kc ty bits fuel K] w b f by (force simp: serve1_def)
  next
    case (Frames cnt)
    then show ?thesis using pages_ok [OF ok rs, of kc cnt fuel K] w b f by (force simp: serve1_def)
  next
    case (Free node bits)
    then show ?thesis using w by simp
  qed
qed

fun serve_runs :: "kernel \<Rightarrow> kernel_consts \<Rightarrow> nat \<Rightarrow> request list \<Rightarrow> ualloc \<Rightarrow> (ualloc \<times> (nat \<times> nat) list) option" where
  "serve_runs K kc fuel [] a = Some (a, [])"
| "serve_runs K kc fuel (r # rs) a =
     Option.bind (serve1 K kc fuel r a)
       (\<lambda>(a1, x). map_option (\<lambda>(a2, hs). (a2, handed a1 r x @ hs)) (serve_runs K kc fuel rs a1))"

lemma serve_runs_ok:
  assumes "lists_ok a fl ns bs" and "runs_ok (free_runs a fl)" and "\<forall>r\<in>set rs. \<exists>b. wants kc r = Some b \<and> b < kWordBits"
    and "kWordBits + bytes_in (free_runs a fl) < fuel"
  shows "\<exists>a' hs fl' ns' bs'. serve_runs K kc fuel rs a = Some (a', hs) \<and> lists_ok a' fl' ns' bs' \<and> within_mem (free_runs a' fl' + mset hs) (free_runs a fl)"
  using assms
proof (induction rs arbitrary: a fl ns bs)
  case Nil
  then show ?case using within_mem_refl by fastforce
next
  case (Cons r rs)
  obtain b where b: "wants kc r = Some b" "b < kWordBits" using Cons.prems(3) by auto
  obtain a1 x fl1 ns1 bs1 where s: "serve1 K kc fuel r a = Some (a1, x)" "lists_ok a1 fl1 ns1 bs1"
      "within_mem (free_runs a1 fl1 + mset (handed a1 r x)) (free_runs a fl)"
    using serve1_ok [OF Cons.prems(1,2) b Cons.prems(4)] by blast
  have w: "runs_ok (free_runs a1 fl1)" "kWordBits + bytes_in (free_runs a1 fl1) < fuel"
    using within_mem_mono [OF s(3)] Cons.prems(4) by (auto simp: within_mem_def)
  obtain a2 hs fl2 ns2 bs2 where ih: "serve_runs K kc fuel rs a1 = Some (a2, hs)" "lists_ok a2 fl2 ns2 bs2"
      "within_mem (free_runs a2 fl2 + mset hs) (free_runs a1 fl1)"
    using Cons.IH [OF s(2) w(1) _ w(2)] Cons.prems(3) by auto
  then show ?case using s(1) within_mem_step [OF ih(3) s(3)] by (intro exI [of _ a2] exI [of _ "handed a1 r x @ hs"] exI [of _ fl2] exI [of _ ns2] exI [of _ bs2]) simp
qed

end
