(* ===== verification/Untyped_Contract.thy ===== *)
theory Untyped_Contract
  imports Untyped_Serve
begin

text \<open>
  What the untyped allocator promises, over whole runs of requests: memory that is only given out is
  never given out twice, whatever the kernel answers, and every request ends. Once pieces come back the
  promise fails: a piece put behind another one has no link back, so taking it out of the middle of its
  list drops the pieces before it.
\<close>

section \<open>Only giving out\<close>

text \<open>
  C30. An allocator that starts with one piece of memory, whatever the kernel answers to its calls and
  however few slots and nodes it has, answers every sequence of requests for pieces, objects and runs of
  frames, each in a number of steps bounded by the memory it has, and what it gave out lies inside its
  memory and has no byte in common.
\<close>

theorem allocations_disjoint:
  fixes K :: kernel
  assumes "0 < nodes" and "k < kWordBits" and "base \<noteq> 0" and "unat base + 2 ^ k \<le> 2 ^ 64"
    and "\<forall>r\<in>set rs. \<exists>b. wants kc r = Some b \<and> b < kWordBits" and "kWordBits + 2 ^ k < fuel"
  shows "\<exists>a a' hs. adopt_untyped cap k base (ua_new first slots owner nodes) = Some (a, True) \<and> serve_runs K kc fuel rs a = Some (a', hs) \<and>
           (\<forall>x. length (filter (in_run x) hs) \<le> (if in_run x (unat base, k) then 1 else 0))"
proof -
  obtain a fl ns bs where a: "adopt_untyped cap k base (ua_new first slots owner nodes) = Some (a, True)" "lists_ok a fl ns bs"
      "free_runs a fl = {#(unat base, k)#}"
    using adopt_ok [OF assms(1,2)] by blast
  have "0 < unat base" using assms(3) by (simp add: unat_gt_0)
  then have "runs_ok (free_runs a fl)" using a(3) assms(2,4) by (simp add: runs_ok_def)
  moreover have "kWordBits + bytes_in (free_runs a fl) < fuel" using a(3) assms(6) by simp
  ultimately obtain a' hs fl' where s: "serve_runs K kc fuel rs a = Some (a', hs)" "within_mem (free_runs a' fl' + mset hs) (free_runs a fl)"
    using serve_runs_ok [OF a(2) _ assms(5)] by blast
  have "cover x (mset hs) \<le> cover x (free_runs a fl)" for x
    using s(2) by (simp add: within_mem_def) (meson add_leD2)
  moreover have "cover x (mset hs) = length (filter (in_run x) hs)" for x
    by (simp add: cover_def flip: mset_filter)
  ultimately show ?thesis using a(1,3) s(1) by simp
qed

theorem allocations_disjoint_witness:
  "\<exists>a a' hs. adopt_untyped 50 16 0x10000 (ua_new 100 64 1 40) = Some (a, True) \<and>
     serve_runs (\<lambda>_ _. True) \<lparr>k_cap_table = 4, k_page = 9\<rparr> 70000 [Carve 12, Object 4 6, Frames 2, Object 1 9] a = Some (a', hs) \<and>
     (\<forall>x. length (filter (in_run x) hs) \<le> (if in_run x (unat (0x10000 :: u64), 16) then 1 else 0))"
  by (rule allocations_disjoint) (simp_all add: kWordBits_def run_bits_def object_bits_def kPageBits_def run_log.simps)

section \<open>Giving back\<close>

text \<open>
  A piece that goes behind another one in its list is left with no link back to it, and taking a piece with
  no link back out of a list makes the piece after it the head, whatever stood before.
\<close>

lemma insert_behind_no_prev:
  assumes "find_link (list_fuel a) a (n_physical (u_node a node)) 0 (head_of device (n_bits (u_node a node)) a) = Some (holder, at)"
    and "n_physical (u_node a node) \<noteq> 0" and "holder \<noteq> 0" and "holder \<noteq> node" and "at \<noteq> node" and "holder \<noteq> at"
  shows "\<exists>a'. insert_piece device node a = Some a' \<and> n_next (u_node a' holder) = node \<and> n_prev (u_node a' node) = 0"
  using assms by (auto simp: insert_piece_def Let_def set_link_def upd_node_def put_node_def)

lemma unlink_no_prev:
  assumes "n_prev (u_node a node) = 0"
  shows "head_of (n_device (u_node a node)) (n_bits (u_node a node)) (unlink_piece node a) = n_next (u_node a node)"
  using assms by (simp add: unlink_piece_def Let_def set_head_def head_of_def upd_node_def put_node_def)

subsection \<open>Running it\<close>

text \<open>
  The node table and the heads of a small allocator as lists, so that a run on it evaluates: seven nodes,
  and memory of six, five and four bits.
\<close>

definition nodes_of :: "piece list \<Rightarrow> nat \<Rightarrow> piece" where
  "nodes_of xs i = (if i < length xs then xs ! i else fresh_piece)"

definition heads_of :: "nat \<Rightarrow> nat \<Rightarrow> nat \<Rightarrow> nat \<Rightarrow> nat" where
  "heads_of x y z = (\<lambda>_. 0)(4 := x, 5 := y, 6 := z)"

lemma nodes_of_upd: "i < length xs \<Longrightarrow> (nodes_of xs)(i := v) = nodes_of (xs[i := v])"
  by (auto simp: nodes_of_def fun_eq_iff nth_list_update)

lemma nodes_of_apply:
  "nodes_of xs 0 = (if 0 < length xs then xs ! 0 else fresh_piece)"
  "nodes_of xs (Suc 0) = (if 1 < length xs then xs ! 1 else fresh_piece)"
  "nodes_of xs (numeral n) = (if numeral n < length xs then xs ! numeral n else fresh_piece)"
  by (auto simp: nodes_of_def)

lemma heads_of_upd:
  "(heads_of x y z)(4 := w) = heads_of w y z" "(heads_of x y z)(5 := w) = heads_of x w z" "(heads_of x y z)(6 := w) = heads_of x y w"
  by (auto simp: heads_of_def)

lemma heads_of_apply: "heads_of x y z 4 = x" "heads_of x y z 5 = y" "heads_of x y z 6 = z"
  by (auto simp: heads_of_def)

lemma small_start:
  "\<lparr>u_node = (\<lambda>_. fresh_piece), u_free_nodes = f, u_node_used = 0, u_node_free = 0, u_heads = (\<lambda>_. 0), u_dev_heads = (\<lambda>_. 0),
     u_pool = p, u_owner = ow, u_allocated = 0, u_calls = []\<rparr> =
   \<lparr>u_node = nodes_of (replicate 8 fresh_piece), u_free_nodes = f, u_node_used = 0, u_node_free = 0, u_heads = heads_of 0 0 0,
     u_dev_heads = heads_of 0 0 0, u_pool = p, u_owner = ow, u_allocated = 0, u_calls = []\<rparr>"
  by (auto simp: nodes_of_def heads_of_def)

lemma small_lists:
  "[0..<6] = [0, 1, 2, 3, 4, 5]" "replicate 8 x = [x, x, x, x, x, x, x, x]" "replicate 6 y = [y, y, y, y, y, y]"
  by (code_simp, simp_all add: numeral_eq_Suc)

lemmas fuel_steps = refill_inner.simps(2) [of _ "pred_numeral n" for n, folded numeral_eq_Suc]
  free_piece.simps(2) [of _ "pred_numeral n" for n, folded numeral_eq_Suc]
  link_nodes.simps(2) [of _ "pred_numeral n" for n, folded numeral_eq_Suc]

lemmas run_defs = adopt_untyped_def add_untyped_def ua_new_def adopt_nodes_def upd_node_def put_node_def alloc_node_def free_node_def
  insert_piece_def unlink_piece_def set_link_def set_head_def head_of_def list_fuel_def find_link.simps take_piece_def ua_alloc_slot_def
  ua_free_slot_def child_def drop_node_def drop_slot_def split_retype_def split_slots_def split_piece_def ensure_piece_whole_def
  carve_untyped_def free_object_def kernel_call_def sp_adopt_def sp_alloc_def sp_free_def sp_at_def kWordBits_def Let_def fresh_piece_def

lemmas run_simps = run_defs small_start small_lists nodes_of_upd nodes_of_apply heads_of_upd heads_of_apply fuel_steps

text \<open>Arguments are evaluated before what uses them.\<close>

lemma option_weak_congs:
  "x = y \<Longrightarrow> Option.bind x f = Option.bind y f" "x = y \<Longrightarrow> map_option g x = map_option g y" "v = w \<Longrightarrow> Let v h = Let w h"
  by simp_all


end
