(* ===== verification/Memory_Service.thy ===== *)
theory Memory_Service
  imports Untyped_Contract Resource_Limits Ipc_Badge
begin

text \<open>
  The memory service of \<^verbatim>\<open>src/apps/freestanding/aegir-memory/src/main.cc\<close>: chunks of one pool, given out to a
  badge, taken back by badge, and a user's limits read from the user database and the limits file. The pool
  is reached through its operations (the untyped allocator and the slot pool provide them, below); an
  operation that does not return is \<open>None\<close>. Debug output is left out.
\<close>

section \<open>The port and the user database\<close>

definition kMethodAlloc :: nat where "kMethodAlloc = 1"
definition kMethodRelease :: nat where "kMethodRelease = 2"
definition kChunkBits :: nat where "kChunkBits = 21"
definition kMaxChunks :: nat where "kMaxChunks = 2048"

definition db_kMagic :: nat where "db_kMagic = 0x42445541"
definition db_kVersion :: nat where "db_kVersion = 3"
definition kHeaderBytes :: nat where "kHeaderBytes = 16"
definition kNameBytes :: nat where "kNameBytes = 24"
definition kAccountBytes :: nat where "kAccountBytes = 24"
definition kSecretBytes :: nat where "kSecretBytes = 32"
definition kClassBytes :: nat where "kClassBytes = 16"
definition kHomeBytes :: nat where "kHomeBytes = 48"

definition db_row_bytes :: nat where
  "db_row_bytes = kNameBytes + kAccountBytes + kSecretBytes + kClassBytes + kHomeBytes"

text \<open>A field up to its NUL, as the view of it.\<close>

definition db_field :: "u8 list \<Rightarrow> string" where
  "db_field bs = map (\<lambda>b. char_of (unat b)) (takeWhile (\<lambda>b. b \<noteq> 0) bs)"

definition row_name :: "u8 list \<Rightarrow> nat \<Rightarrow> string" where
  "row_name db i = db_field (bslice (kHeaderBytes + i * db_row_bytes) kNameBytes db)"

definition row_klass :: "u8 list \<Rightarrow> nat \<Rightarrow> string" where
  "row_klass db i =
     db_field (bslice (kHeaderBytes + i * db_row_bytes + kNameBytes + kAccountBytes + kSecretBytes) kClassBytes db)"

definition header_word :: "u8 list \<Rightarrow> nat \<Rightarrow> nat" where
  "header_word db i = le_nat (bslice (4 * i) 4 db)"

section \<open>State\<close>

record chunk =
  ch_cap :: u64
  ch_cookie :: nat
  ch_owner :: u64
  ch_bits :: nat

definition free_chunk :: chunk where
  "free_chunk = \<lparr>ch_cap = 0, ch_cookie = 0, ch_owner = 0, ch_bits = 0\<rparr>"

record user_rule =
  ur_log :: "u64 option"
  ur_deny :: "u64 option"

text \<open>The operations of the pool, the arena over it and the kernel's revoke.\<close>

record 'p pool_ops =
  po_carve :: "nat \<Rightarrow> 'p \<Rightarrow> ('p \<times> u64 \<times> u64 \<times> nat) option"
  po_free :: "nat \<Rightarrow> nat \<Rightarrow> 'p \<Rightarrow> ('p \<times> bool) option"
  po_revoke :: "u64 \<Rightarrow> 'p \<Rightarrow> 'p"
  po_slot :: "'p \<Rightarrow> 'p \<times> u64"
  po_arena :: "nat \<Rightarrow> 'p \<Rightarrow> ('p \<times> bool) option"

text \<open>\<open>None\<close> for the rules and the committed bytes is the null pointer.\<close>

record 'p mem =
  ms_pool :: 'p
  ms_pool_bits :: nat
  ms_chunks :: "chunk list"
  ms_limits :: limits
  ms_rules :: "user_rule list option"
  ms_committed :: "u64 list option"
  ms_users :: nat

definition mem_new :: "'p \<Rightarrow> nat \<Rightarrow> 'p mem" where
  "mem_new p bits =
     \<lparr>ms_pool = p, ms_pool_bits = bits, ms_chunks = replicate kMaxChunks free_chunk,
      ms_limits = \<lparr>l_text = None, l_problem = no_problem, l_valid = False\<rparr>, ms_rules = None, ms_committed = None, ms_users = 0\<rparr>"

definition chunk_free_at :: "'p mem \<Rightarrow> nat" where
  "chunk_free_at s =
     (case find (\<lambda>i. ch_owner (ms_chunks s ! i) = 0 \<and> ch_cap (ms_chunks s ! i) = 0) [0..<kMaxChunks] of
        None \<Rightarrow> kMaxChunks | Some i \<Rightarrow> i)"

section \<open>Release\<close>

definition uncommit :: "u64 \<Rightarrow> nat \<Rightarrow> 'p mem \<Rightarrow> 'p mem" where
  "uncommit owner bits s =
     (case ms_committed s of
        None \<Rightarrow> s
      | Some cs \<Rightarrow>
          let user = unat (user_index owner); bytes = 2 ^ bits
          in if is_user_badge owner \<and> user < ms_users s
             then s\<lparr>ms_committed := Some (cs[user := (if cs ! user > bytes then cs ! user - bytes else 0)])\<rparr>
             else s)"

definition release_chunk :: "'p pool_ops \<Rightarrow> nat \<Rightarrow> 'p mem \<Rightarrow> 'p mem option" where
  "release_chunk P i s =
     (let c = ms_chunks s ! i
      in map_option
           (\<lambda>(p, ok). uncommit (ch_owner c) (ch_bits c) (s\<lparr>ms_pool := p, ms_chunks := (ms_chunks s)[i := free_chunk]\<rparr>))
           (po_free P (ch_cookie c) (ch_bits c) (po_revoke P (ch_cap c) (ms_pool s))))"

fun release_from :: "'p pool_ops \<Rightarrow> u64 \<Rightarrow> nat \<Rightarrow> nat \<Rightarrow> nat \<Rightarrow> 'p mem \<Rightarrow> ('p mem \<times> nat) option" where
  "release_from P owner i 0 released s = Some (s, released)"
| "release_from P owner i (Suc n) released s =
     (if ch_cap (ms_chunks s ! i) \<noteq> 0 \<and> ch_owner (ms_chunks s ! i) = owner
      then Option.bind (release_chunk P i s) (release_from P owner (Suc i) n (released + 1))
      else release_from P owner (Suc i) n released s)"

definition release_owner :: "'p pool_ops \<Rightarrow> u64 \<Rightarrow> 'p mem \<Rightarrow> ('p mem \<times> nat) option" where
  "release_owner P owner s = release_from P owner 0 kMaxChunks 0 s"

section \<open>The configuration\<close>

text \<open>
  What the retries of a file end in: it is empty, it has a size but does not read, or it reads. The retries
  leave nothing behind.
\<close>

datatype cfile = Empty_File | Broken_File nat | Whole_File "u8 list"

definition read_file :: "'p pool_ops \<Rightarrow> cfile \<Rightarrow> 'p \<Rightarrow> ('p \<times> u8 list option) option" where
  "read_file P f p =
     (case f of
        Empty_File \<Rightarrow> Some (p, None)
      | Broken_File n \<Rightarrow> map_option (\<lambda>(p1, ok). (p1, None)) (po_arena P n p)
      | Whole_File bs \<Rightarrow>
          if bs = [] then Some (p, None)
          else map_option (\<lambda>(p1, ok). (p1, if ok then Some bs else None)) (po_arena P (length bs) p))"

definition user_rules :: "limits \<Rightarrow> u8 list \<Rightarrow> nat \<Rightarrow> user_rule list" where
  "user_rules l db cnt =
     map (\<lambda>i. \<lparr>ur_log = resolve l (row_name db i) (row_klass db i) Memory Log,
               ur_deny = resolve l (row_name db i) (row_klass db i) Memory Deny\<rparr>) [0..<cnt]"

text \<open>The tables, once the files are in hand and the limits are parsed.\<close>

definition load_tables :: "'p pool_ops \<Rightarrow> u8 list \<Rightarrow> 'p mem \<Rightarrow> ('p mem \<times> bool) option" where
  "load_tables P db s =
     (if length db < kHeaderBytes then Some (s, False)
      else if header_word db 0 \<noteq> db_kMagic \<or> header_word db 1 \<noteq> db_kVersion then Some (s, False)
      else
        let cnt = header_word db 2
        in if kHeaderBytes + cnt * db_row_bytes > length db then Some (s, False)
           else if cnt = 0 then Some (s, True)
           else
             Option.bind (po_arena P (32 * cnt) (ms_pool s))
               (\<lambda>(p1, ok1). map_option
                  (\<lambda>(p2, ok2).
                     let s1 = s\<lparr>ms_pool := p2, ms_rules := (if ok1 then Some (replicate cnt \<lparr>ur_log = None, ur_deny = None\<rparr>) else None),
                                ms_committed := (if ok2 then Some (replicate cnt 0) else None)\<rparr>
                     in if \<not> ok1 \<or> \<not> ok2 then (s1, False)
                        else (s1\<lparr>ms_rules := Some (user_rules (ms_limits s) db cnt), ms_users := cnt\<rparr>, True))
                  (po_arena P (8 * cnt) p1)))"

text \<open>What the service finds: whether it was given the namespace, and the two files.\<close>

record config =
  cf_space :: bool
  cf_users :: cfile
  cf_limits :: cfile

definition load_config :: "'p pool_ops \<Rightarrow> config \<Rightarrow> 'p mem \<Rightarrow> ('p mem \<times> bool) option" where
  "load_config P cf s =
     (case po_slot P (ms_pool s) of (p1, users_slot) \<Rightarrow>
      case po_slot P p1 of (p2, limits_slot) \<Rightarrow>
        if users_slot = 0 \<or> limits_slot = 0 then Some (s\<lparr>ms_pool := p2\<rparr>, False)
        else
          Option.bind (read_file P (cf_users cf) p2)
            (\<lambda>(p3, users).
               case users of
                 None \<Rightarrow> Some (s\<lparr>ms_pool := p3\<rparr>, False)
               | Some db \<Rightarrow>
                   Option.bind (read_file P (cf_limits cf) p3)
                     (\<lambda>(p4, txt).
                        case txt of
                          None \<Rightarrow> Some (s\<lparr>ms_pool := p4\<rparr>, False)
                        | Some bs \<Rightarrow>
                            (case parse (ms_limits s) (Some (map (\<lambda>b. char_of (unat b)) bs)) of (l, ok) \<Rightarrow>
                               let s1 = s\<lparr>ms_pool := p4, ms_limits := l\<rparr>
                               in if \<not> ok then Some (s1, False) else load_tables P db s1))))"

section \<open>Answers\<close>

datatype reply = Nothing | Words "u64 list" | Chunk_Cap nat u64 u64

definition wanted_bits :: "u64 list \<Rightarrow> nat" where
  "wanted_bits ws = (if ws \<noteq> [] \<and> ws ! 0 \<noteq> 0 then unat (ws ! 0) else kChunkBits)"

definition user_limited :: "u64 \<Rightarrow> 'p mem \<Rightarrow> bool" where
  "user_limited badge s \<longleftrightarrow> is_user_badge badge \<and> unat (user_index badge) < ms_users s \<and> ms_rules s \<noteq> None"

text \<open>Dereferencing: the rule and the committed bytes of a user that is limited.\<close>

definition rule_of :: "nat \<Rightarrow> 'p mem \<Rightarrow> user_rule" where
  "rule_of u s = (case ms_rules s of None \<Rightarrow> \<lparr>ur_log = None, ur_deny = None\<rparr> | Some rs \<Rightarrow> rs ! u)"

definition committed :: "nat \<Rightarrow> 'p mem \<Rightarrow> u64" where
  "committed u s = (case ms_committed s of None \<Rightarrow> 0 | Some cs \<Rightarrow> cs ! u)"

definition answer_alloc :: "'p pool_ops \<Rightarrow> u64 list \<Rightarrow> u64 \<Rightarrow> 'p mem \<Rightarrow> ('p mem \<times> reply) option" where
  "answer_alloc P ws badge s =
     (let bits = wanted_bits ws; user = unat (user_index badge); bytes = (2 ^ bits :: u64)
      in if bits = 0 \<or> bits > ms_pool_bits s then Some (s, Nothing)
         else if user_limited badge s \<and> crosses (ur_deny (rule_of user s)) (committed user s) bytes then Some (s, Nothing)
         else if chunk_free_at s = kMaxChunks then Some (s, Nothing)
         else
           map_option
             (\<lambda>(p, cap, phys, cookie).
                if cap = 0 then (s\<lparr>ms_pool := p\<rparr>, Nothing)
                else
                  let s1 = s\<lparr>ms_pool := p,
                             ms_chunks := (ms_chunks s)[chunk_free_at s := \<lparr>ch_cap = cap, ch_cookie = cookie, ch_owner = badge, ch_bits = bits\<rparr>]\<rparr>
                  in (if user_limited badge s
                      then s1\<lparr>ms_committed := map_option (\<lambda>cs. cs[user := cs ! user + bytes]) (ms_committed s)\<rparr>
                      else s1,
                      Chunk_Cap bits phys cap))
             (po_carve P bits (ms_pool s)))"

definition answer_release :: "'p pool_ops \<Rightarrow> u64 list \<Rightarrow> u64 \<Rightarrow> 'p mem \<Rightarrow> ('p mem \<times> reply) option" where
  "answer_release P ws badge s =
     map_option (\<lambda>(s1, n). (s1, Words [of_nat n]))
       (release_owner P (if ws \<noteq> [] \<and> ws ! 0 \<noteq> 0 then ws ! 0 else badge) s)"

text \<open>One request: the method, its words and the caller's badge.\<close>

type_synonym mem_request = "nat \<times> u64 list \<times> u64"

definition mem_step :: "'p pool_ops \<Rightarrow> config \<Rightarrow> mem_request \<Rightarrow> 'p mem \<Rightarrow> ('p mem \<times> reply) option" where
  "mem_step P cf r s =
     (case r of (meth, ws, badge) \<Rightarrow>
        Option.bind
          (if ms_rules s = None \<and> meth = kMethodAlloc \<and> is_user_badge badge \<and> cf_space cf then map_option fst (load_config P cf s) else Some s)
          (\<lambda>s1. if meth = kMethodAlloc then answer_alloc P ws badge s1
                else if meth = kMethodRelease then answer_release P ws badge s1
                else Some (s1, Nothing)))"

fun mem_run :: "'p pool_ops \<Rightarrow> config \<Rightarrow> mem_request list \<Rightarrow> 'p mem \<Rightarrow> ('p mem \<times> reply list) option" where
  "mem_run P cf [] s = Some (s, [])"
| "mem_run P cf (r # rs) s =
     Option.bind (mem_step P cf r s) (\<lambda>(s1, x). map_option (\<lambda>(s2, xs). (s2, x # xs)) (mem_run P cf rs s1))"

section \<open>The pool of the service\<close>

text \<open>
  The operations on the untyped allocator: the arena takes frames from it, one for every page it starts, and
  is a parameter here, as the pages it maps them at are the kernel's.
\<close>

definition untyped_ops :: "kernel \<Rightarrow> nat \<Rightarrow> (nat \<Rightarrow> ualloc \<Rightarrow> (ualloc \<times> bool) option) \<Rightarrow> ualloc pool_ops" where
  "untyped_ops K fuel arena =
     \<lparr>po_carve = carve_untyped K fuel, po_free = free_object K fuel, po_revoke = (\<lambda>cap a. fst (kernel_call K (Revoke cap) a)),
      po_slot = ua_alloc_slot, po_arena = arena\<rparr>"

end
