(* ===== verification/Memory_Contract.thy ===== *)
theory Memory_Contract
  imports Memory_Service
begin

text \<open>
  What the memory service promises about a user's limit and about a release, for any pool: the pool's
  operations may answer what they like. A user whose limits were read before it held anything never holds
  more than its limit, and a release takes back exactly the chunks of one badge.
\<close>

section \<open>What a user holds\<close>

definition user_chunk :: "nat \<Rightarrow> chunk \<Rightarrow> bool" where
  "user_chunk u c \<longleftrightarrow> is_user_badge (ch_owner c) \<and> unat (user_index (ch_owner c)) = u"

definition chunk_bytes :: "nat \<Rightarrow> chunk \<Rightarrow> nat" where
  "chunk_bytes u c = (if user_chunk u c then 2 ^ ch_bits c else 0)"

definition held :: "nat \<Rightarrow> 'p mem \<Rightarrow> nat" where
  "held u s = sum_list (map (chunk_bytes u) (ms_chunks s))"

lemma not_user_zero [simp]: "\<not> is_user_badge 0"
  by (simp add: is_user_badge_def)

lemma free_chunk_bytes [simp]: "ch_owner c = 0 \<Longrightarrow> chunk_bytes u c = 0" "chunk_bytes u free_chunk = 0"
  by (simp_all add: chunk_bytes_def user_chunk_def free_chunk_def)

lemma sum_list_replace:
  fixes f :: "'a \<Rightarrow> nat"
  assumes "i < length xs"
  shows "sum_list (map f (xs[i := y])) + f (xs ! i) = sum_list (map f xs) + f y"
  using assms
proof (induction xs arbitrary: i)
  case (Cons x xs)
  then show ?case by (cases i) (auto simp: add.commute add.left_commute)
qed simp

lemma sum_list_member_le: "i < length xs \<Longrightarrow> f (xs ! i) \<le> sum_list (map f xs)" for f :: "'a \<Rightarrow> nat"
  using elem_le_sum_list [of i "map f xs"] by simp

section \<open>The accounts of a user with a limit\<close>

definition account_ok :: "nat \<Rightarrow> u64 \<Rightarrow> 'p mem \<Rightarrow> bool" where
  "account_ok u d s \<longleftrightarrow>
     length (ms_chunks s) = kMaxChunks \<and> ms_pool_bits s < 64 \<and> u < ms_users s \<and>
     (\<exists>rs. ms_rules s = Some rs \<and> ur_deny (rs ! u) = Some d) \<and>
     (\<exists>cs. ms_committed s = Some cs \<and> length cs = ms_users s \<and> unat (cs ! u) = held u s) \<and>
     held u s \<le> unat d \<and> (\<forall>c\<in>set (ms_chunks s). ch_bits c < 64)"

lemma unat_power_u64: "n < 64 \<Longrightarrow> unat (2 ^ n :: u64) = 2 ^ n"
  using unat_of_nat_u64 [of "2 ^ n"] power_strict_increasing [of n 64 "2 :: nat"] by simp

lemma chunk_free_at_spec:
  assumes "chunk_free_at s \<noteq> kMaxChunks"
  shows "chunk_free_at s < kMaxChunks \<and> ch_owner (ms_chunks s ! chunk_free_at s) = 0 \<and> ch_cap (ms_chunks s ! chunk_free_at s) = 0"
  using assms unfolding chunk_free_at_def
  by (auto simp: find_Some_iff split: option.splits)

text \<open>What an allocation does to the state: nothing outside the pool, or one more chunk.\<close>

definition granted :: "'p mem \<Rightarrow> 'p \<Rightarrow> chunk \<Rightarrow> 'p mem" where
  "granted s p c =
     (let s1 = s\<lparr>ms_pool := p, ms_chunks := (ms_chunks s)[chunk_free_at s := c]\<rparr>; user = unat (user_index (ch_owner c))
      in if user_limited (ch_owner c) s then s1\<lparr>ms_committed := map_option (\<lambda>cs. cs[user := cs ! user + 2 ^ ch_bits c]) (ms_committed s)\<rparr> else s1)"

lemma alloc_effect:
  assumes "answer_alloc P ws badge s = Some (s', r)"
  shows "(\<exists>p. s' = s\<lparr>ms_pool := p\<rparr>) \<or>
         (\<exists>p c. s' = granted s p c \<and> ch_owner c = badge \<and> ch_bits c = wanted_bits ws \<and> wanted_bits ws \<le> ms_pool_bits s \<and> chunk_free_at s \<noteq> kMaxChunks \<and>
            \<not> (user_limited badge s \<and> crosses (ur_deny (rule_of (unat (user_index badge)) s)) (committed (unat (user_index badge)) s) (2 ^ wanted_bits ws)))"
proof -
  let ?bits = "wanted_bits ws" let ?user = "unat (user_index badge)"
  let ?cross = "user_limited badge s \<and> crosses (ur_deny (rule_of ?user s)) (committed ?user s) (2 ^ ?bits)"
  have same: "s = s\<lparr>ms_pool := ms_pool s\<rparr>" by simp
  show ?thesis
  proof (cases "?bits = 0 \<or> ?bits > ms_pool_bits s \<or> ?cross \<or> chunk_free_at s = kMaxChunks")
    case True
    then have "s' = s" using assms by (auto simp: answer_alloc_def Let_def split: if_splits)
    then show ?thesis using same by metis
  next
    case False
    then obtain p cap phys cookie where carve: "po_carve P ?bits (ms_pool s) = Some (p, cap, phys, cookie)"
      using assms by (auto simp: answer_alloc_def Let_def simp del: split_paired_All)
    let ?c = "\<lparr>ch_cap = cap, ch_cookie = cookie, ch_owner = badge, ch_bits = ?bits\<rparr>"
    have "s' = (if cap = 0 then s\<lparr>ms_pool := p\<rparr> else granted s p ?c)"
      using assms False carve by (auto simp: answer_alloc_def Let_def granted_def)
    then show ?thesis
      using False by (cases "cap = 0") (simp_all add: not_less, blast, intro disjI2 exI [of _ p] exI [of _ ?c], simp)
  qed
qed

lemma alloc_account:
  assumes ok: "account_ok u d s" and run: "answer_alloc P ws badge s = Some (s', r)"
  shows "account_ok u d s'"
  using alloc_effect [OF run]
proof (elim disjE exE conjE)
  fix p assume "s' = s\<lparr>ms_pool := p\<rparr>"
  then show ?thesis using ok by (auto simp: account_ok_def held_def)
next
  fix p c
  let ?user = "unat (user_index badge)" let ?b = "2 ^ wanted_bits ws :: u64"
  assume g: "s' = granted s p c" "ch_owner c = badge" "ch_bits c = wanted_bits ws" "wanted_bits ws \<le> ms_pool_bits s" "chunk_free_at s \<noteq> kMaxChunks"
    "\<not> (user_limited badge s \<and> crosses (ur_deny (rule_of ?user s)) (committed ?user s) ?b)"
  obtain rs cs where s: "length (ms_chunks s) = kMaxChunks" "ms_pool_bits s < 64" "u < ms_users s" "ms_rules s = Some rs" "ur_deny (rs ! u) = Some d"
      "ms_committed s = Some cs" "length cs = ms_users s" "unat (cs ! u) = held u s" "held u s \<le> unat d" "\<forall>c\<in>set (ms_chunks s). ch_bits c < 64"
    using ok unfolding account_ok_def by blast
  note i = chunk_free_at_spec [OF g(5)]
  have bits: "wanted_bits ws < 64" using g(4) s(2) by simp
  have f: "ms_chunks s' = (ms_chunks s)[chunk_free_at s := c]" "ms_pool_bits s' = ms_pool_bits s" "ms_users s' = ms_users s" "ms_rules s' = ms_rules s"
      "ms_committed s' = Some (if user_limited badge s then cs[?user := cs ! ?user + ?b] else cs)"
    using g(1-3) s(6) by (simp_all add: granted_def Let_def)
  have H: "held u s' = held u s + chunk_bytes u c"
    using sum_list_replace [of "chunk_free_at s" "ms_chunks s" "chunk_bytes u" c] i s(1) f(1) by (simp add: held_def)
  have sets: "\<forall>c\<in>set (ms_chunks s'). ch_bits c < 64"
    using f(1) s(10) bits g(3) set_update_subset_insert [of "ms_chunks s" "chunk_free_at s" c] by auto
  have "unat ((if user_limited badge s then cs[?user := cs ! ?user + ?b] else cs) ! u) = held u s + chunk_bytes u c \<and> held u s + chunk_bytes u c \<le> unat d"
  proof (cases "user_chunk u c")
    case False
    then have "?user \<noteq> u \<or> \<not> user_limited badge s" using g(2) by (auto simp: user_chunk_def user_limited_def)
    then show ?thesis using False s(8,9) by (auto simp: chunk_bytes_def nth_list_update)
  next
    case True
    then have u: "?user = u" "user_limited badge s" using s(3,4) g(2) by (auto simp: user_chunk_def user_limited_def)
    have le: "unat (cs ! u) + unat ?b \<le> unat d" using g(6) u s(4-6) by (simp add: crosses_exact rule_of_def committed_def)
    have "unat (cs ! u + ?b) = unat (cs ! u) + unat ?b"
      using le unsigned_less [where 'a = nat, of d] by (intro unat_add_lem [THEN iffD1]) simp
    then show ?thesis using le u True s(3,7,8) unat_power_u64 [OF bits] g(3) by (simp add: chunk_bytes_def)
  qed
  then show ?thesis unfolding account_ok_def f(2-5) H using sets s(1-5,7) f(1) by (simp del: ball_simps)
qed

section \<open>Releases\<close>

lemma release_account:
  assumes ok: "account_ok u d s" and i: "i < kMaxChunks" and run: "release_chunk P i s = Some s'"
  shows "account_ok u d s'"
proof -
  let ?c = "ms_chunks s ! i"
  obtain rs cs where s: "length (ms_chunks s) = kMaxChunks" "ms_pool_bits s < 64" "u < ms_users s" "ms_rules s = Some rs" "ur_deny (rs ! u) = Some d"
      "ms_committed s = Some cs" "length cs = ms_users s" "unat (cs ! u) = held u s" "held u s \<le> unat d" "\<forall>c\<in>set (ms_chunks s). ch_bits c < 64"
    using ok unfolding account_ok_def by blast
  obtain p where s': "s' = uncommit (ch_owner ?c) (ch_bits ?c) (s\<lparr>ms_pool := p, ms_chunks := (ms_chunks s)[i := free_chunk]\<rparr>)"
    using run by (auto simp: release_chunk_def Let_def)
  let ?user = "unat (user_index (ch_owner ?c))" let ?b = "2 ^ ch_bits ?c :: u64"
  let ?cs = "if is_user_badge (ch_owner ?c) \<and> ?user < ms_users s then cs[?user := (if cs ! ?user > ?b then cs ! ?user - ?b else 0)] else cs"
  have f: "ms_chunks s' = (ms_chunks s)[i := free_chunk]" "ms_pool_bits s' = ms_pool_bits s" "ms_users s' = ms_users s" "ms_rules s' = ms_rules s" "ms_committed s' = Some ?cs"
    using s' s(6) by (simp_all add: uncommit_def Let_def)
  have H: "held u s' + chunk_bytes u ?c = held u s"
    using sum_list_replace [of i "ms_chunks s" "chunk_bytes u" free_chunk] i s(1) f(1) by (simp add: held_def)
  have bits: "ch_bits ?c < 64" using s(1,10) i by simp
  have sets: "\<forall>c\<in>set (ms_chunks s'). ch_bits c < 64"
    using f(1) s(10) set_update_subset_insert [of "ms_chunks s" i free_chunk] by (auto simp: free_chunk_def)
  have "unat (?cs ! u) = held u s'"
  proof (cases "user_chunk u ?c")
    case False
    then have "?user \<noteq> u \<or> \<not> is_user_badge (ch_owner ?c)" by (auto simp: user_chunk_def)
    then show ?thesis using False H s(8) by (auto simp: chunk_bytes_def nth_list_update)
  next
    case True
    then have u: "?user = u" "is_user_badge (ch_owner ?c)" by (auto simp: user_chunk_def)
    have "unat ?b + held u s' = unat (cs ! u)" using H True s(8) unat_power_u64 [OF bits] by (simp add: chunk_bytes_def)
    then have "unat (if cs ! u > ?b then cs ! u - ?b else 0) = held u s'"
      by (auto simp: word_less_nat_alt unat_sub word_le_nat_alt)
    then show ?thesis using u s(3,7) by (auto split: if_splits)
  qed
  then show ?thesis unfolding account_ok_def f(2-5) using sets s(1-5,7,9) f(1) H by (simp del: ball_simps)
qed

lemma release_from_account:
  "account_ok u d s \<Longrightarrow> i + n \<le> kMaxChunks \<Longrightarrow> release_from P owner i n k s = Some (s', k') \<Longrightarrow> account_ok u d s'"
proof (induction n arbitrary: i k s)
  case (Suc n)
  show ?case
  proof (cases "ch_cap (ms_chunks s ! i) \<noteq> 0 \<and> ch_owner (ms_chunks s ! i) = owner")
    case True
    then obtain s1 where r: "release_chunk P i s = Some s1" "release_from P owner (Suc i) n (k + 1) s1 = Some (s', k')"
      using Suc.prems(3) by (auto split: Option.bind_splits)
    have "account_ok u d s1" using release_account [OF Suc.prems(1) _ r(1)] Suc.prems(2) by simp
    then show ?thesis using Suc.IH [of s1 "Suc i" "k + 1"] r(2) Suc.prems(2) by simp
  next
    case False
    then have "release_from P owner (Suc i) n k s = Some (s', k')" using Suc.prems(3) by auto
    then show ?thesis using Suc.IH [of s "Suc i" k] Suc.prems(1,2) by simp
  qed
qed simp

lemma step_account:
  assumes "account_ok u d s" and "mem_step P cf r s = Some (s', x)"
  shows "account_ok u d s'"
proof -
  obtain meth ws badge where r: "r = (meth, ws, badge)" by (rule prod_cases3)
  obtain rl where "ms_rules s = Some rl" using assms(1) by (auto simp: account_ok_def)
  then have st: "mem_step P cf r s = (if meth = kMethodAlloc then answer_alloc P ws badge s else if meth = kMethodRelease then answer_release P ws badge s else Some (s, Nothing))"
    by (simp add: mem_step_def r)
  show ?thesis
    using assms st alloc_account [OF assms(1), of P ws badge s' x] release_from_account [OF assms(1), of 0 kMaxChunks P _ 0 s']
    by (auto simp: answer_release_def release_owner_def split: if_splits)
qed

lemma run_account: "account_ok u d s \<Longrightarrow> mem_run P cf rs s = Some (s', xs) \<Longrightarrow> account_ok u d s'"
proof (induction rs arbitrary: s xs)
  case (Cons r rs)
  then obtain s1 x xs' where "mem_step P cf r s = Some (s1, x)" "mem_run P cf rs s1 = Some (s', xs')"
    by (auto split: Option.bind_splits)
  then show ?case using Cons.IH step_account [OF Cons.prems(1)] by blast
qed simp

section \<open>Loading the limits\<close>

lemma read_file_ok: "read_file P f p = Some (p', Some bs) \<Longrightarrow> f = Whole_File bs"
  by (auto simp: read_file_def split: cfile.splits if_splits)

text \<open>A load that leaves rules behind: they are the rules of the files, nothing is committed yet, and no chunk changed.\<close>

lemma load_tables_ok:
  assumes "load_tables P db s = Some (s', True)" and "ms_rules s = None" and "ms_rules s' \<noteq> None"
  shows "ms_users s' = header_word db 2 \<and> ms_rules s' = Some (user_rules (ms_limits s) db (header_word db 2)) \<and>
         ms_committed s' = Some (replicate (header_word db 2) 0) \<and> ms_chunks s' = ms_chunks s \<and> ms_pool_bits s' = ms_pool_bits s \<and> ms_limits s' = ms_limits s"
  using assms by (auto simp: load_tables_def Let_def split: if_splits Option.bind_splits)

lemma load_config_ok:
  assumes "load_config P cf s = Some (s', True)" and "ms_rules s = None" and "ms_rules s' \<noteq> None"
  shows "\<exists>db bs l. cf_users cf = Whole_File db \<and> cf_limits cf = Whole_File bs \<and> parse (ms_limits s) (Some (map (\<lambda>b. char_of (unat b)) bs)) = (l, True) \<and>
           ms_users s' = header_word db 2 \<and> ms_rules s' = Some (user_rules l db (header_word db 2)) \<and>
           ms_committed s' = Some (replicate (header_word db 2) 0) \<and> ms_chunks s' = ms_chunks s \<and> ms_pool_bits s' = ms_pool_bits s"
proof -
  obtain p1 us where s1: "po_slot P (ms_pool s) = (p1, us)" by (rule prod.exhaust)
  obtain p2 ls where s2: "po_slot P p1 = (p2, ls)" by (rule prod.exhaust)
  obtain p3 users where r1: "read_file P (cf_users cf) p2 = Some (p3, users)"
    using assms(1) s1 s2 by (auto simp: load_config_def split: if_splits Option.bind_splits)
  obtain db where db: "users = Some db" using assms(1) s1 s2 r1 by (auto simp: load_config_def split: if_splits option.splits)
  obtain p4 body where r2: "read_file P (cf_limits cf) p3 = Some (p4, body)"
    using assms(1) s1 s2 r1 db by (auto simp: load_config_def split: if_splits Option.bind_splits)
  obtain bs where bs: "body = Some bs" using assms(1) s1 s2 r1 db r2 by (auto simp: load_config_def split: if_splits option.splits)
  obtain l ok where l: "parse (ms_limits s) (Some (map (\<lambda>b. char_of (unat b)) bs)) = (l, ok)" by (rule prod.exhaust)
  let ?s = "s\<lparr>ms_pool := p4, ms_limits := l\<rparr>"
  have t: "ok" "load_tables P db ?s = Some (s', True)"
    using assms(1) s1 s2 r1 db r2 bs l by (auto simp: load_config_def Let_def split: if_splits)
  show ?thesis
    using load_tables_ok [OF t(2)] assms(2,3) t(1) l read_file_ok [OF r1 [unfolded db]] read_file_ok [OF r2 [unfolded bs]] by simp
qed

lemma loaded_account:
  assumes "load_config P cf s = Some (s', True)" and "ms_rules s = None" and "ms_rules s' \<noteq> None" and "u < ms_users s'"
    and "ur_deny (rule_of u s') = Some d" and "length (ms_chunks s) = kMaxChunks" and "ms_pool_bits s < 64"
    and "\<forall>c\<in>set (ms_chunks s). \<not> user_chunk u c \<and> ch_bits c < 64"
  shows "account_ok u d s'"
proof -
  have "sum_list (map (chunk_bytes u) (ms_chunks s)) = sum_list (map (\<lambda>_. 0) (ms_chunks s))"
    by (rule arg_cong [of _ _ sum_list], rule map_cong) (use assms(8) in \<open>auto simp: chunk_bytes_def\<close>)
  then have "held u s' = 0" using load_config_ok [OF assms(1-3)] by (auto simp: held_def)
  then show ?thesis using load_config_ok [OF assms(1-3)] assms(4-8) by (auto simp: account_ok_def rule_of_def)
qed

section \<open>What a release leaves\<close>

definition of_owner :: "u64 \<Rightarrow> chunk \<Rightarrow> bool" where
  "of_owner owner c \<longleftrightarrow> ch_cap c \<noteq> 0 \<and> ch_owner c = owner"

lemma release_chunk_chunks: "release_chunk P i s = Some s' \<Longrightarrow> ms_chunks s' = (ms_chunks s)[i := free_chunk]"
  by (auto simp: release_chunk_def uncommit_def Let_def split: option.splits)

lemma release_from_chunks:
  assumes "ms_chunks s = xs @ ys" and "length xs = i" and "length ys = n" and "release_from P owner i n k s = Some (s', k')"
  shows "ms_chunks s' = xs @ map (\<lambda>c. if of_owner owner c then free_chunk else c) ys \<and> k' = k + length (filter (of_owner owner) ys)"
  using assms
proof (induction n arbitrary: i k s xs ys)
  case (Suc n)
  then obtain y ys' where ys: "ys = y # ys'" by (cases ys) auto
  have y: "ms_chunks s ! i = y" using Suc.prems(1,2) ys by (simp add: nth_append)
  show ?case
  proof (cases "of_owner owner y")
    case True
    then obtain s1 where r: "release_chunk P i s = Some s1" "release_from P owner (Suc i) n (k + 1) s1 = Some (s', k')"
      using Suc.prems(4) y by (auto simp: of_owner_def split: Option.bind_splits)
    have "ms_chunks s1 = (xs @ [free_chunk]) @ ys'"
      using release_chunk_chunks [OF r(1)] Suc.prems(1,2) ys by (simp add: list_update_append)
    then show ?thesis using Suc.IH [OF _ _ _ r(2), of "xs @ [free_chunk]" ys'] Suc.prems(2,3) ys True by simp
  next
    case False
    then have r: "release_from P owner (Suc i) n k s = Some (s', k')" using Suc.prems(4) y by (auto simp: of_owner_def)
    show ?thesis using Suc.IH [OF _ _ _ r, of "xs @ [y]" ys'] Suc.prems(1-3) ys False by simp
  qed
qed simp

section \<open>The slots a load takes\<close>

lemma sp_alloc_used:
  assumes "sp_inv p" and "sp_alloc p owner = (p', slot)" and "slot \<noteq> 0" and "owner \<noteq> 0"
  shows "sp_inv p' \<and> sp_used p' = sp_used p + 1"
proof -
  have h: "sp_inv p'" "slot_holder p slot = Some 0" "slot_holder p' = (slot_holder p)(slot \<mapsto> owner)"
    using sp.al_inv [OF assms(1,2)] sp.al_fresh [OF assms(1-3)] by simp_all
  let ?S = "\<lambda>p. {s. \<exists>x. slot_holder p s = Some x \<and> x \<noteq> 0}"
  have "?S p' = insert slot (?S p)" "slot \<notin> ?S p" using h(2,3) assms(4) by auto
  moreover have "finite (?S p)" by simp
  ultimately have "card (?S p') = card (?S p) + 1" by simp
  then show ?thesis using sp_used_free [OF assms(1)] sp_used_free [OF h(1)] h(1) by simp
qed

section \<open>Properties\<close>

text \<open>
  C32. A user that held nothing when its limits were read and has a deny limit never holds more: after any
  sequence of requests by any callers, the bytes of its chunks are what the service counted for it and do
  not exceed the limit.
\<close>

theorem user_within_limit:
  assumes "load_config P cf s = Some (s0, True)" and "ms_rules s = None" and "ms_rules s0 \<noteq> None" and "u < ms_users s0"
    and "ur_deny (rule_of u s0) = Some d" and "length (ms_chunks s) = kMaxChunks" and "ms_pool_bits s < 64"
    and "\<forall>c\<in>set (ms_chunks s). \<not> user_chunk u c \<and> ch_bits c < 64"
    and "mem_run P cf rs s0 = Some (s', xs)"
  shows "held u s' = unat (committed u s') \<and> held u s' \<le> unat d"
  using run_account [OF loaded_account [OF assms(1-8)] assms(9)] by (auto simp: account_ok_def committed_def)


text \<open>A database of one user, and a file that allows twenty bytes by default.\<close>

definition sample_db :: "u8 list" where
  "sample_db = nat_le 4 db_kMagic @ nat_le 4 db_kVersion @ nat_le 4 1 @ nat_le 4 0 @ map of_char ''anna'' @ replicate 20 0 @ replicate 120 0"

definition sample_rules_text :: string where
  "sample_rules_text = ''[default]'' @ [CHR 0x0A] @ ''memory_deny = 20'' @ [CHR 0x0A]"

definition sample_config :: config where
  "sample_config = \<lparr>cf_space = True, cf_users = Whole_File sample_db, cf_limits = Whole_File (map of_char sample_rules_text)\<rparr>"

definition sample_ops :: "ualloc pool_ops" where
  "sample_ops = untyped_ops (\<lambda>_ _. True) 10 (\<lambda>n a. Some (a, True))"


lemma char_bytes: "map (\<lambda>b. char_of (unat b)) (map of_char s :: u8 list) = s"
proof -
  have "unat (of_char c :: u8) = of_char c" for c
    unfolding of_nat_of_char [of c, symmetric, where 'a = u8] using nat_of_char_less_256 [of c] by (simp only: unat_of_nat_u8 mod_less)
  then show ?thesis by (induction s) auto
qed

lemma sample_parse:
  "\<exists>l. parse l0 (Some sample_rules_text) = (l, True) \<and> resolve l user klass Memory Deny = Some 20"
proof -
  have f: "file_rules sample_rules_text = ([(SDefault, Memory, Deny, 20)], None)" by code_simp
  have "sample_rules_text \<noteq> []" by (simp add: sample_rules_text_def)
  then show ?thesis using f by (simp add: parse_def resolve_def walk_file_rules resolve_visit_def rule_score_def precedence_defs)
qed


lemma sample_db_facts:
  "kHeaderBytes \<le> length sample_db" "header_word sample_db 0 = db_kMagic" "header_word sample_db 1 = db_kVersion" "header_word sample_db 2 = 1"
  "kHeaderBytes + 1 * db_row_bytes \<le> length sample_db" "sample_db \<noteq> []"
  by (simp_all add: sample_db_def header_word_def bslice_def kHeaderBytes_def db_row_bytes_def kNameBytes_def kAccountBytes_def kSecretBytes_def
      kClassBytes_def kHomeBytes_def db_kMagic_def db_kVersion_def le_nat_nat_le)

lemma sample_load:
  assumes "ua_alloc_slot p = (p1, us)" and "ua_alloc_slot p1 = (p2, ls)" and "us \<noteq> 0" and "ls \<noteq> 0"
  shows "\<exists>l. load_config sample_ops sample_config (mem_new p bits) =
           Some ((mem_new p2 bits)\<lparr>ms_limits := l, ms_rules := Some (user_rules l sample_db 1), ms_committed := Some [0], ms_users := 1\<rparr>, True) \<and>
           resolve l (row_name sample_db 0) (row_klass sample_db 0) Memory Deny = Some 20"
proof -
  obtain l where l: "parse (ms_limits (mem_new p bits)) (Some sample_rules_text) = (l, True)" "resolve l (row_name sample_db 0) (row_klass sample_db 0) Memory Deny = Some 20"
    using sample_parse by blast
  have o: "po_slot sample_ops = ua_alloc_slot" "po_arena sample_ops = (\<lambda>n a. Some (a, True))" by (simp_all add: sample_ops_def untyped_ops_def)
  have c: "cf_users sample_config = Whole_File sample_db" "cf_limits sample_config = Whole_File (map of_char sample_rules_text)" "sample_rules_text \<noteq> []"
    by (simp_all add: sample_config_def sample_rules_text_def)
  have t: "load_tables sample_ops sample_db ((mem_new p bits)\<lparr>ms_pool := p2, ms_limits := l\<rparr>) =
      Some ((mem_new p2 bits)\<lparr>ms_limits := l, ms_rules := Some (user_rules l sample_db 1), ms_committed := Some [0], ms_users := 1\<rparr>, True)"
    using sample_db_facts by (simp add: load_tables_def o Let_def mem_new_def)
  show ?thesis
    by (rule exI [of _ l]) (use assms l(2) t l(1) c sample_db_facts(6) in \<open>simp add: load_config_def o read_file_def char_bytes mem_new_def [of p] Let_def del: map_map list.map_comp\<close>)
qed


lemma first_chunk_free: "ms_chunks s = replicate kMaxChunks free_chunk \<Longrightarrow> chunk_free_at s = 0"
  using upt_conv_Cons [of 0 kMaxChunks] by (simp add: chunk_free_at_def kMaxChunks_def free_chunk_def del: upt_Suc)

text \<open>The pool of 64 bytes: two slots for the load, and a piece of sixteen bytes.\<close>

lemma sample_pool_run:
  "Option.bind (adopt_untyped 50 6 64 (ua_new 100 6 1 7))
     (\<lambda>(p, ok). case ua_alloc_slot p of (p1, us) \<Rightarrow> case ua_alloc_slot p1 of (p2, ls) \<Rightarrow>
        map_option (\<lambda>(q, cap, phys, node). (ok, us, ls, cap, phys)) (carve_untyped (\<lambda>_ _. True) 10 4 p2)) =
   Some (True, 100, 101, 104, 64)"
  by (simp add: run_simps del: refill_inner.simps free_piece.simps cong: option_weak_congs prod.case_cong_weak)

lemma sample_pool_steps:
  "\<exists>p p1 p2 q node. adopt_untyped 50 6 64 (ua_new 100 6 1 7) = Some (p, True) \<and> ua_alloc_slot p = (p1, 100) \<and> ua_alloc_slot p1 = (p2, 101) \<and>
     carve_untyped (\<lambda>_ _. True) 10 4 p2 = Some (q, 104, 64, node)"
  using sample_pool_run by (auto split: Option.bind_splits prod.splits)

definition sample_user :: u64 where "sample_user = make_user_badge 0 1"

lemma sample_user_facts: "is_user_badge sample_user" "user_index sample_user = 0"
  by (simp_all add: sample_user_def make_user_badge_def is_user_badge_def user_index_def kUserBadge_def kUserIndexMask_def)

lemma sample_run:
  assumes s0: "s0 = (mem_new p2 6)\<lparr>ms_limits := l, ms_rules := Some (user_rules l sample_db 1), ms_committed := Some [0], ms_users := 1\<rparr>"
    and l: "resolve l (row_name sample_db 0) (row_klass sample_db 0) Memory Deny = Some 20"
    and carve: "carve_untyped (\<lambda>_ _. True) 10 4 p2 = Some (q, 104, 64, node)"
  shows "\<exists>s'. mem_run sample_ops sample_config [(kMethodAlloc, [4], sample_user), (kMethodAlloc, [4], sample_user)] s0 = Some (s', [Chunk_Cap 4 64 104, Nothing])"
proof -
  let ?c = "\<lparr>ch_cap = 104, ch_cookie = node, ch_owner = sample_user, ch_bits = 4\<rparr>"
  let ?s1 = "s0\<lparr>ms_pool := q, ms_chunks := (ms_chunks s0)[0 := ?c], ms_committed := Some [16]\<rparr>"
  have f: "ms_pool s0 = p2" "ms_pool_bits s0 = 6" "ms_users s0 = 1" "ms_committed s0 = Some [0]" "ms_rules s0 \<noteq> None" "ur_deny (rule_of 0 s0) = Some 20"
      "ms_rules ?s1 \<noteq> None" "ur_deny (rule_of 0 ?s1) = Some 20" "chunk_free_at s0 = 0"
    using s0 l first_chunk_free [of s0] by (auto simp: mem_new_def rule_of_def user_rules_def)
  have w: "wanted_bits [4] = 4" by (simp add: wanted_bits_def)
  have lim: "user_limited sample_user s0" "user_limited sample_user ?s1" using f sample_user_facts by (simp_all add: user_limited_def)
  have a: "answer_alloc sample_ops [4] sample_user s0 = Some (?s1, Chunk_Cap 4 64 104)"
    using carve f lim by (simp add: answer_alloc_def Let_def w sample_user_facts committed_def crosses_def kMaxChunks_def sample_ops_def untyped_ops_def)
  have b: "answer_alloc sample_ops [4] sample_user ?s1 = Some (?s1, Nothing)"
    using f(2,8) lim(2) by (simp add: answer_alloc_def Let_def w sample_user_facts committed_def crosses_def)
  obtain rl where rl: "ms_rules s0 = Some rl" using f(5) by auto
  have "mem_step sample_ops sample_config (kMethodAlloc, [4], sample_user) s0 = Some (?s1, Chunk_Cap 4 64 104)"
      "mem_step sample_ops sample_config (kMethodAlloc, [4], sample_user) ?s1 = Some (?s1, Nothing)"
    using a b rl by (simp_all add: mem_step_def)
  then show ?thesis by simp
qed

theorem user_within_limit_witness:
  "\<exists>p s0 s'. adopt_untyped 50 6 64 (ua_new 100 6 1 7) = Some (p, True) \<and> load_config sample_ops sample_config (mem_new p 6) = Some (s0, True) \<and>
     mem_run sample_ops sample_config [(kMethodAlloc, [4], sample_user), (kMethodAlloc, [4], sample_user)] s0 = Some (s', [Chunk_Cap 4 64 104, Nothing]) \<and>
     held 0 s' = unat (committed 0 s') \<and> held 0 s' \<le> unat (20 :: u64)"
proof -
  obtain p p1 p2 q node where p: "adopt_untyped 50 6 64 (ua_new 100 6 1 7) = Some (p, True)" "ua_alloc_slot p = (p1, 100)" "ua_alloc_slot p1 = (p2, 101)"
      "carve_untyped (\<lambda>_ _. True) 10 4 p2 = Some (q, 104, 64, node)"
    using sample_pool_steps by blast
  obtain l where l: "load_config sample_ops sample_config (mem_new p 6) =
         Some ((mem_new p2 6)\<lparr>ms_limits := l, ms_rules := Some (user_rules l sample_db 1), ms_committed := Some [0], ms_users := 1\<rparr>, True)"
      "resolve l (row_name sample_db 0) (row_klass sample_db 0) Memory Deny = Some 20"
    using sample_load [OF p(2,3), of 6] by auto
  let ?s0 = "(mem_new p2 6)\<lparr>ms_limits := l, ms_rules := Some (user_rules l sample_db 1), ms_committed := Some [0], ms_users := 1\<rparr>"
  obtain s' where r: "mem_run sample_ops sample_config [(kMethodAlloc, [4], sample_user), (kMethodAlloc, [4], sample_user)] ?s0 = Some (s', [Chunk_Cap 4 64 104, Nothing])"
    using sample_run [OF refl l(2) p(4)] by blast
  have "held 0 s' = unat (committed 0 s') \<and> held 0 s' \<le> unat (20 :: u64)"
    by (rule user_within_limit [OF l(1) _ _ _ _ _ _ _ r])
      (use l(2) in \<open>auto simp: mem_new_def rule_of_def user_rules_def user_chunk_def free_chunk_def\<close>)
  then show ?thesis using p(1) l(1) r by blast
qed

text \<open>
  A release by badge takes back exactly the chunks that badge holds and answers how many they were; the
  chunks of every other owner stay as they are.
\<close>

lemma release_exact:
  assumes "length (ms_chunks s) = kMaxChunks" and "answer_release P ws badge s = Some (s', x)"
    and "owner = (if ws \<noteq> [] \<and> ws ! 0 \<noteq> 0 then ws ! 0 else badge)"
  shows "ms_chunks s' = map (\<lambda>c. if of_owner owner c then free_chunk else c) (ms_chunks s) \<and>
         x = Words [of_nat (length (filter (of_owner owner) (ms_chunks s)))]"
proof -
  obtain k where "release_from P owner 0 kMaxChunks 0 s = Some (s', k)" "x = Words [of_nat k]"
    using assms(2,3) by (auto simp: answer_release_def release_owner_def)
  then show ?thesis using release_from_chunks [of s "[]" "ms_chunks s" 0 kMaxChunks P owner 0 s' k] assms(1) by simp
qed

text \<open>A pool whose releases always return answers every release.\<close>

lemma release_from_returns:
  assumes "\<And>c b p. po_free P c b p \<noteq> None"
  shows "\<exists>r. release_from P owner i n k s = Some r"
proof (induction n arbitrary: i k s)
  case (Suc n)
  have "\<exists>s1. release_chunk P i s = Some s1" using assms by (auto simp: release_chunk_def Let_def)
  then show ?case using Suc.IH by auto
qed simp

definition held_chunk :: chunk where
  "held_chunk = \<lparr>ch_cap = 104, ch_cookie = 0, ch_owner = 7, ch_bits = 4\<rparr>"

lemma release_exact_witness:
  "\<exists>s' x. answer_release (sample_ops\<lparr>po_free := \<lambda>c b p. Some (p, True)\<rparr>) [] 7
       ((mem_new (ua_new 100 6 1 7) 6)\<lparr>ms_chunks := held_chunk # replicate (kMaxChunks - 1) free_chunk\<rparr>) = Some (s', x) \<and>
     ms_chunks s' = free_chunk # replicate (kMaxChunks - 1) free_chunk \<and> x = Words [1]"
proof -
  let ?P = "sample_ops\<lparr>po_free := \<lambda>c b p. Some (p, True)\<rparr>"
  let ?s = "(mem_new (ua_new 100 6 1 7) 6)\<lparr>ms_chunks := held_chunk # replicate (kMaxChunks - 1) free_chunk\<rparr>"
  have "\<exists>r. release_from ?P 7 0 kMaxChunks 0 ?s = Some r" by (rule release_from_returns) simp
  then obtain s' x where r: "answer_release ?P [] 7 ?s = Some (s', x)" by (auto simp: answer_release_def release_owner_def)
  have len: "length (ms_chunks ?s) = kMaxChunks" by (simp add: kMaxChunks_def)
  have "ms_chunks s' = map (\<lambda>c. if of_owner 7 c then free_chunk else c) (ms_chunks ?s) \<and> x = Words [of_nat (length (filter (of_owner 7) (ms_chunks ?s)))]"
    by (rule release_exact [OF len r]) simp
  moreover have "of_owner 7 held_chunk" "\<not> of_owner 7 free_chunk" by (simp_all add: of_owner_def held_chunk_def free_chunk_def)
  ultimately show ?thesis using r by (intro exI conjI) (assumption | simp)+
qed

text \<open>The parts of a load after its two slots take no slot back.\<close>

lemma read_file_used:
  assumes "\<forall>n a a' k. arena n a = Some (a', k) \<longrightarrow> sp_used (u_pool a) \<le> sp_used (u_pool a')"
    and "read_file (untyped_ops K fuel arena) f a = Some (a', r)"
  shows "sp_used (u_pool a) \<le> sp_used (u_pool a')"
  using assms by (auto simp: read_file_def untyped_ops_def split: cfile.splits if_splits)

lemma load_tables_used:
  assumes ar: "\<forall>n a a' k. arena n a = Some (a', k) \<longrightarrow> sp_used (u_pool a) \<le> sp_used (u_pool a')"
    and "load_tables (untyped_ops K fuel arena) db s = Some (s', r)"
  shows "sp_used (u_pool (ms_pool s)) \<le> sp_used (u_pool (ms_pool s'))"
proof -
  have "ms_pool s' = ms_pool s \<or> (\<exists>n1 n2 p1 k1 k2. arena n1 (ms_pool s) = Some (p1, k1) \<and> arena n2 p1 = Some (ms_pool s', k2))"
    using assms(2) by (auto simp: load_tables_def untyped_ops_def Let_def split: if_splits Option.bind_splits) blast+
  then show ?thesis using ar by (metis order_refl order_trans)
qed

text \<open>
  Every attempt to load the limits takes two slots of the pool and gives none back, whether it succeeds
  or not, and an attempt is made at every allocation of a user while there are no rules: a database without
  users, or a file that does not parse, spends the slots the chunks need.
\<close>

lemma load_spends_slots:
  assumes "load_config (untyped_ops K fuel arena) cf s = Some (s', ok)"
    and "sp_inv (u_pool (ms_pool s))" and "u_owner (ms_pool s) \<noteq> 0"
    and "ua_alloc_slot (ms_pool s) = (p1, us)" and "ua_alloc_slot p1 = (p2, ls)" and "us \<noteq> 0" and "ls \<noteq> 0"
    and "\<forall>n a a' k. arena n a = Some (a', k) \<longrightarrow> sp_used (u_pool a) \<le> sp_used (u_pool a')"
  shows "sp_used (u_pool (ms_pool s)) + 2 \<le> sp_used (u_pool (ms_pool s'))"
proof -
  let ?P = "untyped_ops K fuel arena"
  obtain q1 where q1: "sp_alloc (u_pool (ms_pool s)) (u_owner (ms_pool s)) = (q1, us)" "p1 = (ms_pool s)\<lparr>u_pool := q1\<rparr>"
    using assms(4) by (auto simp: ua_alloc_slot_def split: prod.splits)
  obtain q2 where q2: "sp_alloc q1 (u_owner (ms_pool s)) = (q2, ls)" "p2 = (ms_pool s)\<lparr>u_pool := q2\<rparr>"
    using assms(5) q1(2) by (auto simp: ua_alloc_slot_def split: prod.splits)
  have two: "sp_used (u_pool p2) = sp_used (u_pool (ms_pool s)) + 2"
    using sp_alloc_used [OF assms(2) q1(1) assms(6,3)] sp_alloc_used [OF _ q2(1) assms(7,3)] q2(2) by simp
  have sl: "po_slot ?P = ua_alloc_slot" by (simp add: untyped_ops_def)
  obtain p3 users where r1: "read_file ?P (cf_users cf) p2 = Some (p3, users)"
    using assms(1,4-7) sl by (auto simp: load_config_def split: Option.bind_splits)
  note m1 = read_file_used [OF assms(8) r1]
  show ?thesis
  proof (cases users)
    case None
    then show ?thesis using assms(1,4-7) sl r1 m1 two by (auto simp: load_config_def)
  next
    case (Some db)
    then obtain p4 body where r2: "read_file ?P (cf_limits cf) p3 = Some (p4, body)"
      using assms(1,4-7) sl r1 by (auto simp: load_config_def split: Option.bind_splits)
    note m2 = read_file_used [OF assms(8) r2]
    consider "ms_pool s' = p4" | l where "load_tables ?P db (s\<lparr>ms_pool := p4, ms_limits := l\<rparr>) = Some (s', ok)"
      using assms(1,4-7) sl r1 r2 Some by (auto simp: load_config_def Let_def case_prod_beta split: option.splits if_splits)
    then show ?thesis
    proof cases
      case 1
      then show ?thesis using m1 m2 two by simp
    next
      case 2
      then show ?thesis using load_tables_used [OF assms(8) 2] m1 m2 two by simp
    qed
  qed
qed


lemma load_spends_slots_witness:
  "\<exists>s'. load_config sample_ops \<lparr>cf_space = True, cf_users = Empty_File, cf_limits = Empty_File\<rparr> (mem_new (ua_new 100 6 1 7) 6) = Some (s', False) \<and>
     sp_used (u_pool (ua_new 100 6 1 7)) + 2 \<le> sp_used (u_pool (ms_pool s'))"
proof -
  let ?a = "ua_new 100 6 1 7" let ?s = "mem_new ?a 6" let ?cf = "\<lparr>cf_space = True, cf_users = Empty_File, cf_limits = Empty_File\<rparr>"
  have pl: "u_pool (link_nodes i n a) = u_pool a \<and> u_owner (link_nodes i n a) = u_owner a" for i n a
    by (induction i n a rule: link_nodes.induct) (simp_all add: upd_node_def put_node_def)
  have a: "u_pool ?a = sp_adopt 100 6 (replicate 6 0) False" "u_owner ?a = 1" using pl by (simp_all add: ua_new_def adopt_nodes_def)
  obtain p1 us where 1: "ua_alloc_slot ?a = (p1, us)" by (rule prod.exhaust)
  obtain p2 ls where 2: "ua_alloc_slot p1 = (p2, ls)" by (rule prod.exhaust)
  have nz: "us = 100" "ls = 101"
    using 1 2 a by (auto simp: ua_alloc_slot_def sp_alloc_def sp_adopt_def sp_at_def small_lists)
  have l: "load_config sample_ops ?cf ?s = Some (?s\<lparr>ms_pool := p2\<rparr>, False)"
    using 1 2 nz by (simp add: load_config_def sample_ops_def untyped_ops_def mem_new_def read_file_def)
  have "sp_used (u_pool (ms_pool ?s)) + 2 \<le> sp_used (u_pool (ms_pool (?s\<lparr>ms_pool := p2\<rparr>)))"
    by (rule load_spends_slots [OF l [unfolded sample_ops_def], of p1 us p2 ls])
      (use 1 2 nz a in \<open>auto simp: mem_new_def sp_inv_def sp_adopt_def\<close>)
  then show ?thesis using l by (simp add: mem_new_def)
qed

end
