(* ===== verification/Heap_Regions.thy ===== *)
theory Heap_Regions
  imports Aegir_Prelude
begin

text \<open>
  The free regions of a process heap, \<^verbatim>\<open>src/libs/hosted/aegir-heap/src/regions.h\<close>: an address-ordered list of
  released spans, kept in nodes the heap provides. The nodes are numbered from one and zero is the null
  pointer; the list and the pool of spare nodes are the links the code keeps. The node source is the heap's:
  how many nodes its \<open>n\<close>-th answer holds is a parameter, zero when it refuses.
\<close>

section \<open>The class\<close>

record rnode =
  r_next :: nat
  r_base :: u64
  r_bytes :: u64

record regions =
  rg_node :: "nat \<Rightarrow> rnode"
  rg_head :: nat
  rg_spare :: nat
  rg_total :: nat
  rg_asked :: nat

definition rg_new :: regions where
  "rg_new = \<lparr>rg_node = (\<lambda>_. \<lparr>r_next = 0, r_base = 0, r_bytes = 0\<rparr>), rg_head = 0, rg_spare = 0, rg_total = 0, rg_asked = 0\<rparr>"

definition rg_upd :: "nat \<Rightarrow> (rnode \<Rightarrow> rnode) \<Rightarrow> regions \<Rightarrow> regions" where
  "rg_upd i f r = r\<lparr>rg_node := (rg_node r)(i := f (rg_node r i))\<rparr>"

text \<open>A node to the pool, and a region of \<open>n\<close> fresh nodes.\<close>

definition rg_free_node :: "nat \<Rightarrow> regions \<Rightarrow> regions" where
  "rg_free_node i r = (rg_upd i (\<lambda>n. n\<lparr>r_next := rg_spare r\<rparr>) r)\<lparr>rg_spare := i\<rparr>"

fun rg_adopt :: "nat \<Rightarrow> regions \<Rightarrow> regions" where
  "rg_adopt 0 r = r"
| "rg_adopt (Suc n) r = rg_adopt n (rg_free_node (Suc (rg_total r)) (r\<lparr>rg_total := Suc (rg_total r)\<rparr>))"

definition rg_alloc_node :: "(nat \<Rightarrow> nat) \<Rightarrow> regions \<Rightarrow> regions \<times> nat" where
  "rg_alloc_node S r =
     (let r1 = (if rg_spare r = 0 then rg_adopt (S (rg_asked r)) (r\<lparr>rg_asked := Suc (rg_asked r)\<rparr>) else r); node = rg_spare r1
      in if node = 0 then (r1, 0) else (r1\<lparr>rg_spare := r_next (rg_node r1 node)\<rparr>, node))"

text \<open>Storing through the link that holds the current node: the head, or the link of the node before.\<close>

definition rg_set_link :: "nat \<Rightarrow> nat \<Rightarrow> regions \<Rightarrow> regions" where
  "rg_set_link before i r = (if before = 0 then r\<lparr>rg_head := i\<rparr> else rg_upd before (\<lambda>n. n\<lparr>r_next := i\<rparr>) r)"

text \<open>The first node from \<open>at\<close> on that a test accepts, with the node before it; \<open>None\<close> when the walk does not end.\<close>

fun rg_walk :: "nat \<Rightarrow> regions \<Rightarrow> (rnode \<Rightarrow> bool) \<Rightarrow> nat \<Rightarrow> nat \<Rightarrow> (nat \<times> nat) option" where
  "rg_walk fuel r stop before at =
     (if at = 0 \<or> stop (rg_node r at) then Some (before, at)
      else case fuel of 0 \<Rightarrow> None | Suc n \<Rightarrow> rg_walk n r stop at (r_next (rg_node r at)))"

declare rg_walk.simps [simp del]

definition rg_take :: "u64 \<Rightarrow> regions \<Rightarrow> (regions \<times> u64) option" where
  "rg_take bytes r =
     (if bytes = 0 then Some (r, 0)
      else
        map_option
          (\<lambda>(before, node).
             if node = 0 then (r, 0)
             else
               let n = rg_node r node
               in if r_bytes n = bytes then (rg_free_node node (rg_set_link before (r_next n) r), r_base n)
                  else (rg_upd node (\<lambda>n. n\<lparr>r_bytes := r_bytes n - bytes\<rparr>) r, r_base n + (r_bytes n - bytes)))
          (rg_walk (rg_total r) r (\<lambda>n. r_bytes n \<ge> bytes) 0 (rg_head r)))"

text \<open>\<^verbatim>\<open>give\<close> once the place is found, nothing overlaps and there is a node for it.\<close>

definition rg_join_after :: "nat \<Rightarrow> nat \<Rightarrow> u64 \<Rightarrow> u64 \<Rightarrow> regions \<Rightarrow> regions" where
  "rg_join_after node after base bytes r =
     (if after \<noteq> 0 \<and> base + bytes = r_base (rg_node r after)
      then rg_free_node after
             (rg_upd node (\<lambda>n. n\<lparr>r_bytes := r_bytes n + r_bytes (rg_node r after), r_next := r_next (rg_node r after)\<rparr>) r)
      else r)"

definition rg_join_before :: "nat \<Rightarrow> nat \<Rightarrow> u64 \<Rightarrow> regions \<Rightarrow> regions" where
  "rg_join_before before node base r =
     (if before \<noteq> 0 \<and> r_base (rg_node r before) + r_bytes (rg_node r before) = base
      then rg_free_node node
             (rg_upd before (\<lambda>n. n\<lparr>r_bytes := r_bytes n + r_bytes (rg_node r node), r_next := r_next (rg_node r node)\<rparr>) r)
      else rg_set_link before node r)"

definition rg_give :: "(nat \<Rightarrow> nat) \<Rightarrow> u64 \<Rightarrow> u64 \<Rightarrow> regions \<Rightarrow> (regions \<times> bool) option" where
  "rg_give S base bytes r =
     (if bytes = 0 \<or> unat base mod 8 \<noteq> 0 then Some (r, False)
      else
        map_option
          (\<lambda>(before, after).
             if after \<noteq> 0 \<and> base + bytes > r_base (rg_node r after) then (r, False)
             else if before \<noteq> 0 \<and> r_base (rg_node r before) + r_bytes (rg_node r before) > base then (r, False)
             else
               (case rg_alloc_node S r of (r1, node) \<Rightarrow>
                  if node = 0 then (r1, False)
                  else
                    let r2 = rg_upd node (\<lambda>n. n\<lparr>r_base := base, r_bytes := bytes, r_next := after\<rparr>) r1
                    in (rg_join_before before node base (rg_join_after node after base bytes r2), True)))
          (rg_walk (rg_total r) r (\<lambda>n. \<not> r_base n < base) 0 (rg_head r)))"

text \<open>What the list reports.\<close>

fun rg_ids :: "nat \<Rightarrow> regions \<Rightarrow> nat \<Rightarrow> nat list option" where
  "rg_ids fuel r at = (if at = 0 then Some [] else case fuel of 0 \<Rightarrow> None | Suc n \<Rightarrow> map_option ((#) at) (rg_ids n r (r_next (rg_node r at))))"

declare rg_ids.simps [simp del]

definition rg_count :: "regions \<Rightarrow> 32 word option" where
  "rg_count r = map_option (\<lambda>is. of_nat (length is)) (rg_ids (rg_total r) r (rg_head r))"

definition rg_bytes_free :: "regions \<Rightarrow> u64 option" where
  "rg_bytes_free r = map_option (\<lambda>is. sum_list (map (\<lambda>i. r_bytes (rg_node r i)) is)) (rg_ids (rg_total r) r (rg_head r))"

section \<open>The list as spans of addresses\<close>

text \<open>A span is its first address and its length, as numbers.\<close>

definition span_of :: "regions \<Rightarrow> nat \<Rightarrow> nat \<times> nat" where
  "span_of r i = (unat (r_base (rg_node r i)), unat (r_bytes (rg_node r i)))"

definition rg_spans :: "regions \<Rightarrow> (nat \<times> nat) list" where
  "rg_spans r = (case rg_ids (rg_total r) r (rg_head r) of None \<Rightarrow> [] | Some is \<Rightarrow> map (span_of r) is)"

definition addrs :: "nat \<times> nat \<Rightarrow> nat set" where
  "addrs s = {fst s ..< fst s + snd s}"

definition free_addrs :: "regions \<Rightarrow> nat set" where
  "free_addrs r = (\<Union>s\<in>set (rg_spans r). addrs s)"

text \<open>In address order, none empty, none touching the next, none up to the end of the address space.\<close>

fun spans_ok :: "(nat \<times> nat) list \<Rightarrow> bool" where
  "spans_ok [] \<longleftrightarrow> True"
| "spans_ok [s] \<longleftrightarrow> 0 < snd s \<and> fst s + snd s < 2 ^ 64"
| "spans_ok (s # t # ss) \<longleftrightarrow> 0 < snd s \<and> fst s + snd s < fst t \<and> spans_ok (t # ss)"

definition rg_links :: "regions \<Rightarrow> nat \<Rightarrow> nat" where
  "rg_links r i = r_next (rg_node r i)"

definition rg_ok :: "regions \<Rightarrow> nat list \<Rightarrow> nat list \<Rightarrow> bool" where
  "rg_ok r is fs \<longleftrightarrow>
     chain (rg_links r) (rg_head r) is \<and> chain (rg_links r) (rg_spare r) fs \<and> distinct (is @ fs) \<and>
     set (is @ fs) = {1..rg_total r} \<and> spans_ok (map (span_of r) is)"

definition rg_inv :: "regions \<Rightarrow> bool" where
  "rg_inv r \<longleftrightarrow> (\<exists>is fs. rg_ok r is fs)"

end
