(* ===== verification/Regions_Proofs.thy ===== *)
theory Regions_Proofs
  imports Heap_Regions
begin

text \<open>
  The free regions of a heap meet their specification: giving a span adds exactly its addresses to the free
  ones and taking removes exactly the addresses handed out, the lowest region that fits is the one taken
  from, and the list stays in order, disjoint and merged.
\<close>

section \<open>Chains with a link changed\<close>

primrec lseg :: "(nat \<Rightarrow> nat) \<Rightarrow> nat \<Rightarrow> nat list \<Rightarrow> nat \<Rightarrow> bool" where
  "lseg nx c [] d \<longleftrightarrow> c = d"
| "lseg nx c (x # xs) d \<longleftrightarrow> c = x \<and> x \<noteq> 0 \<and> lseg nx (nx x) xs d"

lemma chain_append: "chain nx c (us @ vs) \<longleftrightarrow> (\<exists>d. lseg nx c us d \<and> chain nx d vs)"
  by (induction us arbitrary: c) auto

lemma lseg_end: "us \<noteq> [] \<Longrightarrow> lseg nx c us d \<Longrightarrow> d = nx (last us)"
  by (induction us arbitrary: c) (auto split: if_splits)

lemma lseg_relink:
  "us \<noteq> [] \<Longrightarrow> distinct us \<Longrightarrow> lseg nx c us d \<Longrightarrow> (\<And>x. x \<in> set us \<Longrightarrow> x \<noteq> last us \<Longrightarrow> nx' x = nx x) \<Longrightarrow> nx' (last us) = e \<Longrightarrow> lseg nx' c us e"
proof (induction us arbitrary: c)
  case (Cons u us)
  show ?case
  proof (cases "us = []")
    case True
    then show ?thesis using Cons.prems by simp
  next
    case False
    then have "u \<noteq> last us" using Cons.prems(2) by auto
    then have "nx' u = nx u" using Cons.prems(4) False by simp
    then show ?thesis using Cons.IH [OF False, of "nx u"] Cons.prems False by auto
  qed
qed simp

text \<open>The list \<open>us\<close>, whose last link now leads to \<open>e\<close>, followed by the list at \<open>e\<close>.\<close>

lemma chain_relink:
  assumes "lseg nx c us d" and "distinct us" and "chain nx' e ws"
    and "\<And>x. x \<in> set us \<Longrightarrow> x \<noteq> last us \<Longrightarrow> nx' x = nx x" and "us \<noteq> [] \<Longrightarrow> nx' (last us) = e"
  shows "chain nx' (if us = [] then e else c) (us @ ws)"
proof (cases "us = []")
  case False
  then have "lseg nx' c us e" using lseg_relink [OF False assms(2,1), of nx' e] assms(4,5) by auto
  then show ?thesis using assms(3) False by (auto simp: chain_append)
qed (use assms(3) in simp)

lemma chain_hd_or: "chain nx c vs \<Longrightarrow> c = (if vs = [] then 0 else hd vs)"
  by (cases vs) auto

section \<open>Spans in order\<close>

definition span_end :: "nat \<times> nat \<Rightarrow> nat" where
  "span_end s = fst s + snd s"

lemma spans_ok_Cons:
  "spans_ok (s # ss) \<longleftrightarrow> 0 < snd s \<and> span_end s < 2 ^ 64 \<and> spans_ok ss \<and> (ss \<noteq> [] \<longrightarrow> span_end s < fst (hd ss))"
proof (induction ss arbitrary: s)
  case (Cons t ss)
  have "spans_ok (t # ss) \<Longrightarrow> fst t < 2 ^ 64" using Cons.IH [of t] by (auto simp: span_end_def)
  then show ?case by (auto simp: span_end_def)
qed (auto simp: span_end_def)

lemma spans_ok_append:
  "spans_ok (xs @ ys) \<longleftrightarrow> spans_ok xs \<and> spans_ok ys \<and> (xs \<noteq> [] \<longrightarrow> ys \<noteq> [] \<longrightarrow> span_end (last xs) < fst (hd ys))"
proof (induction xs)
  case (Cons x xs)
  then show ?case by (cases xs) (auto simp: spans_ok_Cons)
qed simp

lemma spans_ok_mid:
  "spans_ok (xs @ s # ys) \<longleftrightarrow>
     spans_ok xs \<and> spans_ok ys \<and> 0 < snd s \<and> span_end s < 2 ^ 64 \<and> (xs \<noteq> [] \<longrightarrow> span_end (last xs) < fst s) \<and> (ys \<noteq> [] \<longrightarrow> span_end s < fst (hd ys))"
  by (auto simp: spans_ok_append spans_ok_Cons)

lemma spans_ok_drop:
  assumes "spans_ok (xs @ s # ys)"
  shows "spans_ok (xs @ ys)"
proof -
  have "fst s \<le> span_end s" by (simp add: span_end_def)
  then show ?thesis using assms by (auto simp: spans_ok_mid spans_ok_append [of xs ys])
qed

lemma spans_ok_bounds: "spans_ok ss \<Longrightarrow> s \<in> set ss \<Longrightarrow> 0 < snd s \<and> span_end s < 2 ^ 64"
  by (induction ss) (auto simp: spans_ok_Cons)

lemma spans_ok_after: "spans_ok (s # ss) \<Longrightarrow> t \<in> set ss \<Longrightarrow> span_end s < fst t"
proof (induction ss arbitrary: s)
  case (Cons u ss)
  show ?case
  proof (cases "t = u")
    case False
    then have "span_end u < fst t" using Cons.IH [of u] Cons.prems by (simp add: spans_ok_Cons)
    moreover have "span_end s < fst u" using Cons.prems(1) by (simp add: spans_ok_Cons)
    ultimately show ?thesis by (simp add: span_end_def)
  qed (use Cons.prems in \<open>simp add: spans_ok_Cons\<close>)
qed simp

lemma spans_ok_between:
  assumes "spans_ok (xs @ ys)" and "s \<in> set xs" and "t \<in> set ys"
  shows "span_end s < fst t"
  using assms
proof (induction xs)
  case (Cons x xs)
  then show ?case using spans_ok_after [of x "xs @ ys" t] by (auto simp: spans_ok_Cons)
qed simp

section \<open>The walks\<close>

lemma rg_ids_chain: "chain (rg_links r) at is \<Longrightarrow> length is \<le> fuel \<Longrightarrow> rg_ids fuel r at = Some is"
proof (induction "is" arbitrary: at fuel)
  case Nil
  then show ?case by (simp add: rg_ids.simps)
next
  case (Cons i "is")
  obtain n where "fuel = Suc n" using Cons.prems(2) by (cases fuel) auto
  then show ?case using Cons by (auto simp: rg_ids.simps [of "Suc n"] rg_links_def)
qed

lemma rg_walk_chain:
  assumes "chain (rg_links r) at is" and "length is \<le> fuel" and "us = takeWhile (\<lambda>i. \<not> stop (rg_node r i)) is" and "vs = dropWhile (\<lambda>i. \<not> stop (rg_node r i)) is"
  shows "rg_walk fuel r stop before at = Some (if us = [] then before else last us, if vs = [] then 0 else hd vs)"
  using assms
proof (induction "is" arbitrary: at fuel before us vs)
  case Nil
  then show ?case by (simp add: rg_walk.simps)
next
  case (Cons i "is")
  obtain n where fuel: "fuel = Suc n" using Cons.prems(2) by (cases fuel) auto
  have i: "at = i" "i \<noteq> 0" "chain (rg_links r) (rg_links r i) is" using Cons.prems(1) by auto
  show ?case
  proof (cases "stop (rg_node r i)")
    case True
    then show ?thesis using i Cons.prems(3,4) by (simp add: rg_walk.simps)
  next
    case False
    then have "rg_walk fuel r stop before at = rg_walk n r stop i (rg_links r i)"
      using i fuel by (simp add: rg_walk.simps [of "Suc n"] rg_links_def)
    then show ?thesis using Cons.IH [OF i(3), of n _ _ i] Cons.prems(2-4) fuel False by (auto split: if_splits)
  qed
qed

lemma rg_ok_length: "rg_ok r is fs \<Longrightarrow> length is \<le> rg_total r"
proof -
  assume a: "rg_ok r is fs"
  then have "card (set is) = length is" "set is \<subseteq> {1..rg_total r}" by (auto simp: rg_ok_def distinct_card)
  then show ?thesis using card_mono [of "{1..rg_total r}" "set is"] by simp
qed

lemma rg_spans_ok: "rg_ok r is fs \<Longrightarrow> rg_spans r = map (span_of r) is"
  using rg_ids_chain [of r "rg_head r" "is" "rg_total r"] rg_ok_length [of r "is" fs] by (simp add: rg_spans_def rg_ok_def)

lemma rg_ok_head: "rg_ok r is fs \<Longrightarrow> rg_head r = (if is = [] then 0 else hd is)"
  using chain_hd_or [of "rg_links r" "rg_head r" "is"] by (simp add: rg_ok_def)

section \<open>Taking\<close>

text \<open>The place of a node in the list.\<close>

lemma split_at:
  assumes "us = takeWhile P is" and "vs = dropWhile P is"
  shows "is = us @ vs" and "\<forall>i\<in>set us. P i" and "vs \<noteq> [] \<Longrightarrow> \<not> P (hd vs)"
  using assms by (simp, metis set_takeWhileD, metis hd_dropWhile)

lemma rg_links_upd [simp]:
  "rg_links (rg_upd i f r) j = (if j = i then r_next (f (rg_node r i)) else rg_links r j)"
  "rg_links (r\<lparr>rg_head := h\<rparr>) = rg_links r" "rg_links (r\<lparr>rg_spare := k\<rparr>) = rg_links r"
  "rg_links (r\<lparr>rg_total := t\<rparr>) = rg_links r" "rg_links (r\<lparr>rg_asked := q\<rparr>) = rg_links r"
  by (auto simp: rg_links_def rg_upd_def fun_eq_iff)

lemma span_of_fields [simp]:
  "span_of (r\<lparr>rg_head := h\<rparr>) = span_of r" "span_of (r\<lparr>rg_spare := k\<rparr>) = span_of r"
  "span_of (r\<lparr>rg_total := t\<rparr>) = span_of r" "span_of (r\<lparr>rg_asked := q\<rparr>) = span_of r"
  by (simp_all add: span_of_def fun_eq_iff)

lemma rg_upd_fields [simp]:
  "rg_head (rg_upd i f r) = rg_head r" "rg_spare (rg_upd i f r) = rg_spare r" "rg_total (rg_upd i f r) = rg_total r"
  "rg_node (rg_upd i f r) j = (if j = i then f (rg_node r i) else rg_node r j)"
  by (simp_all add: rg_upd_def)

lemma take_whole:
  assumes ok: "rg_ok r (us @ v # vs) fs"
  shows "rg_ok (rg_free_node v (rg_set_link (if us = [] then 0 else last us) (rg_links r v) r)) (us @ vs) (v # fs)"
proof -
  let ?b = "if us = [] then 0 else last us"
  let ?r = "rg_free_node v (rg_set_link ?b (rg_links r v) r)"
  have o: "chain (rg_links r) (rg_head r) (us @ v # vs)" "chain (rg_links r) (rg_spare r) fs" "distinct ((us @ v # vs) @ fs)"
      "set ((us @ v # vs) @ fs) = {1..rg_total r}" "spans_ok (map (span_of r) (us @ v # vs))"
    using ok unfolding rg_ok_def by blast+
  obtain d where d: "lseg (rg_links r) (rg_head r) us d" "chain (rg_links r) d (v # vs)" using o(1) chain_append by blast
  have nz: "us \<noteq> [] \<Longrightarrow> last us \<noteq> 0" using chain_nonzero [OF o(1)] by (cases us rule: rev_cases) auto
  have nodes: "rg_node ?r i = (if i = v then (rg_node r v)\<lparr>r_next := rg_spare r\<rparr> else if us \<noteq> [] \<and> i = last us then (rg_node r i)\<lparr>r_next := rg_links r v\<rparr> else rg_node r i)" for i
    using nz o(3) by (auto simp: rg_free_node_def rg_set_link_def)
  have links: "rg_links ?r i = (if i = v then rg_spare r else if us \<noteq> [] \<and> i = last us then rg_links r v else rg_links r i)" for i
    using nodes by (simp add: rg_links_def)
  have f: "rg_head ?r = (if us = [] then rg_links r v else rg_head r)" "rg_spare ?r = v" "rg_total ?r = rg_total r"
    using nz by (auto simp: rg_free_node_def rg_set_link_def)
  have off: "x \<in> set vs \<or> x \<in> set fs \<Longrightarrow> rg_links ?r x = rg_links r x" for x
    using o(3) links by (cases us rule: rev_cases) auto
  have "chain (rg_links ?r) (rg_links r v) vs" using d(2) off chain_cong [of vs "rg_links ?r" "rg_links r"] by auto
  then have "chain (rg_links ?r) (rg_head ?r) (us @ vs)"
    unfolding f(1) by (intro chain_relink [OF d(1)]) (use o(3) links in \<open>auto simp: last_in_set\<close>)
  moreover have "chain (rg_links ?r) (rg_spare ?r) (v # fs)"
    using f(2) links o(2) off chain_nonzero [OF o(1), of v] chain_cong [of fs "rg_links ?r" "rg_links r"] by auto
  moreover have "span_of ?r = span_of r" using nodes by (auto simp: span_of_def fun_eq_iff)
  moreover have "spans_ok (map (span_of r) (us @ vs))"
    using o(5) spans_ok_drop by simp
  ultimately show ?thesis using o(3,4) f(3) unfolding rg_ok_def by auto
qed

lemma take_part:
  assumes ok: "rg_ok r (us @ v # vs) fs" and "bytes < r_bytes (rg_node r v)" and "0 < bytes"
  shows "rg_ok (rg_upd v (\<lambda>n. n\<lparr>r_bytes := r_bytes n - bytes\<rparr>) r) (us @ v # vs) fs"
proof -
  let ?r = "rg_upd v (\<lambda>n. n\<lparr>r_bytes := r_bytes n - bytes\<rparr>) r"
  have l: "rg_links ?r = rg_links r" by (auto simp: fun_eq_iff rg_links_def)
  have d: "v \<notin> set us" "v \<notin> set vs" using ok by (auto simp: rg_ok_def)
  then have m: "map (span_of ?r) us = map (span_of r) us" "map (span_of ?r) vs = map (span_of r) vs" by (auto simp: span_of_def)
  have "unat (r_bytes (rg_node r v) - bytes) = unat (r_bytes (rg_node r v)) - unat bytes" "unat bytes < unat (r_bytes (rg_node r v))" "0 < unat bytes"
    using assms(2,3) by (auto simp: unat_sub less_imp_le word_less_nat_alt unat_gt_0)
  then have v: "span_of ?r v = (fst (span_of r v), snd (span_of r v) - unat bytes)" "unat bytes < snd (span_of r v)" by (simp_all add: span_of_def)
  have "spans_ok (map (span_of r) us @ span_of r v # map (span_of r) vs)" using ok by (simp add: rg_ok_def)
  then have "spans_ok (map (span_of r) us @ (fst (span_of r v), snd (span_of r v) - unat bytes) # map (span_of r) vs)"
    unfolding spans_ok_mid using v(2) by (auto simp: span_end_def)
  then have "spans_ok (map (span_of ?r) (us @ v # vs))" by (simp only: map_append list.map m v)
  then show ?thesis using ok l by (simp add: rg_ok_def)
qed

lemma find_split: "find P xs = (if dropWhile (\<lambda>x. \<not> P x) xs = [] then None else Some (hd (dropWhile (\<lambda>x. \<not> P x) xs)))"
  by (induction xs) auto

lemma spans_ok_disjoint:
  assumes "spans_ok (xs @ s # ys)" and "t \<in> set (xs @ ys)"
  shows "addrs s \<inter> addrs t = {}"
proof (cases "t \<in> set xs")
  case True
  then have "span_end t < fst s" using spans_ok_between [OF assms(1), of t s] by simp
  then show ?thesis by (auto simp: addrs_def span_end_def)
next
  case False
  then have "span_end s < fst t" using assms spans_ok_after [of s ys t] by (auto simp: spans_ok_append)
  then show ?thesis by (auto simp: addrs_def span_end_def)
qed

definition span_cover :: "(nat \<times> nat) list \<Rightarrow> nat set" where
  "span_cover ss = (\<Union>s\<in>set ss. addrs s)"

lemma span_cover_simps [simp]: "span_cover [] = {}" "span_cover (s # ss) = addrs s \<union> span_cover ss" "span_cover (xs @ ys) = span_cover xs \<union> span_cover ys"
  by (auto simp: span_cover_def)

lemma free_addrs_ok: "rg_ok r is fs \<Longrightarrow> free_addrs r = span_cover (map (span_of r) is)"
  by (simp add: free_addrs_def span_cover_def rg_spans_ok)

lemma span_cover_disjoint: "(\<And>t. t \<in> set ss \<Longrightarrow> addrs s \<inter> addrs t = {}) \<Longrightarrow> addrs s \<inter> span_cover ss = {}"
  by (auto simp: span_cover_def)

lemma span_cover_minus:
  assumes "spans_ok (xs @ s # ys)"
  shows "addrs s \<inter> (span_cover xs \<union> span_cover ys) = {}"
  using span_cover_disjoint [of "xs @ ys" s] spans_ok_disjoint [OF assms] by simp

text \<open>Taking, from the lowest region that fits.\<close>

lemma take_at:
  assumes ok: "rg_ok r (us @ v # vs) fs" and b: "0 < bytes" "bytes \<le> r_bytes (rg_node r v)" and w: "\<And>n. n = rg_node r v \<Longrightarrow>
      res = (if r_bytes n = bytes then (rg_free_node v (rg_set_link (if us = [] then 0 else last us) (r_next n) r), r_base n)
             else (rg_upd v (\<lambda>n. n\<lparr>r_bytes := r_bytes n - bytes\<rparr>) r, r_base n + (r_bytes n - bytes)))"
  shows "rg_inv (fst res)" and "unat (snd res) + unat bytes = span_end (span_of r v)"
    and "free_addrs (fst res) = free_addrs r - addrs (unat (snd res), unat bytes)"
proof -
  let ?s = "span_of r v" let ?xs = "map (span_of r) us" let ?ys = "map (span_of r) vs"
  have sp: "spans_ok (?xs @ ?s # ?ys)" using ok by (simp add: rg_ok_def)
  have e: "span_end ?s < 2 ^ 64" using spans_ok_bounds [OF sp, of ?s] by simp
  have le: "unat bytes \<le> snd ?s" "?s = (unat (r_base (rg_node r v)), unat (r_bytes (rg_node r v)))" using b(2) by (simp_all add: span_of_def word_le_nat_alt)
  have dj: "addrs ?s \<inter> (span_cover ?xs \<union> span_cover ?ys) = {}" by (rule span_cover_minus [OF sp])
  have fa: "free_addrs r = addrs ?s \<union> (span_cover ?xs \<union> span_cover ?ys)" using free_addrs_ok [OF ok] by auto
  have "rg_inv (fst res) \<and> unat (snd res) + unat bytes = span_end ?s \<and> free_addrs (fst res) = free_addrs r - addrs (unat (snd res), unat bytes)"
  proof (cases "r_bytes (rg_node r v) = bytes")
    case True
    then have res: "res = (rg_free_node v (rg_set_link (if us = [] then 0 else last us) (rg_links r v) r), r_base (rg_node r v))" using w by (simp add: rg_links_def)
    have o: "rg_ok (fst res) (us @ vs) (v # fs)" using take_whole [OF ok] by (simp add: res)
    moreover have "span_of (fst res) = span_of r" by (auto simp: res rg_set_link_def span_of_def fun_eq_iff rg_free_node_def)
    ultimately have "free_addrs (fst res) = span_cover ?xs \<union> span_cover ?ys" using free_addrs_ok [OF o] by simp
    then show ?thesis using o fa dj True le unfolding rg_inv_def by (auto simp: res span_end_def)
  next
    case False
    then have res: "res = (rg_upd v (\<lambda>n. n\<lparr>r_bytes := r_bytes n - bytes\<rparr>) r, r_base (rg_node r v) + (r_bytes (rg_node r v) - bytes))" using w by simp
    have lt: "bytes < r_bytes (rg_node r v)" using b(2) False by simp
    have o: "rg_ok (fst res) (us @ v # vs) fs" using take_part [OF ok lt b(1)] by (simp add: res)
    have d: "v \<notin> set us" "v \<notin> set vs" using ok by (auto simp: rg_ok_def)
    then have m: "map (span_of (fst res)) us = ?xs" "map (span_of (fst res)) vs = ?ys" by (auto simp: res span_of_def)
    have u: "unat (r_bytes (rg_node r v) - bytes) = snd ?s - unat bytes" using b(2) le by (simp add: unat_sub)
    then have v: "span_of (fst res) v = (fst ?s, snd ?s - unat bytes)" by (simp add: res span_of_def)
    have p: "unat (snd res) = fst ?s + (snd ?s - unat bytes)" using e u le by (simp add: res span_end_def unat_word_ariths)
    have "addrs ?s = addrs (fst ?s, snd ?s - unat bytes) \<union> addrs (unat (snd res), unat bytes)"
        "addrs (fst ?s, snd ?s - unat bytes) \<inter> addrs (unat (snd res), unat bytes) = {}"
      using le p by (auto simp: addrs_def)
    moreover have "free_addrs (fst res) = addrs (fst ?s, snd ?s - unat bytes) \<union> (span_cover ?xs \<union> span_cover ?ys)" using free_addrs_ok [OF o] m v by auto
    ultimately have "free_addrs (fst res) = free_addrs r - addrs (unat (snd res), unat bytes)" using fa dj by blast
    then show ?thesis using o p le unfolding rg_inv_def by (auto simp: span_end_def)
  qed
  then show "rg_inv (fst res)" "unat (snd res) + unat bytes = span_end ?s" "free_addrs (fst res) = free_addrs r - addrs (unat (snd res), unat bytes)" by auto
qed

lemma take_spec:
  assumes inv: "rg_inv r" and b: "0 < bytes"
  shows "case find (\<lambda>s. unat bytes \<le> snd s) (rg_spans r) of
           None \<Rightarrow> rg_take bytes r = Some (r, 0)
         | Some s \<Rightarrow> (\<exists>r' p. rg_take bytes r = Some (r', p) \<and> rg_inv r' \<and> unat p + unat bytes = span_end s \<and>
                     free_addrs r' = free_addrs r - addrs (unat p, unat bytes))"
proof -
  obtain "is" fs where ok: "rg_ok r is fs" using inv rg_inv_def by blast
  define us where "us = takeWhile (\<lambda>i. \<not> r_bytes (rg_node r i) \<ge> bytes) is"
  define vs where "vs = dropWhile (\<lambda>i. \<not> r_bytes (rg_node r i) \<ge> bytes) is"
  have "chain (rg_links r) (rg_head r) is" using ok by (simp add: rg_ok_def)
  from rg_walk_chain [OF this rg_ok_length [OF ok], of us "\<lambda>n. r_bytes n \<ge> bytes" vs 0]
  have w: "rg_walk (rg_total r) r (\<lambda>n. r_bytes n \<ge> bytes) 0 (rg_head r) = Some (if us = [] then 0 else last us, if vs = [] then 0 else hd vs)"
    by (simp add: us_def vs_def)
  have f: "find (\<lambda>s. unat bytes \<le> snd s) (rg_spans r) = (if vs = [] then None else Some (span_of r (hd vs)))"
    unfolding rg_spans_ok [OF ok] find_split vs_def dropWhile_map by (simp add: comp_def span_of_def word_le_nat_alt hd_map)
  show ?thesis
  proof (cases vs)
    case Nil
    then show ?thesis using f w b by (simp add: rg_take_def)
  next
    case (Cons v vs')
    have "is = us @ v # vs'" using Cons us_def vs_def by (metis takeWhile_dropWhile_id)
    then have o: "rg_ok r (us @ v # vs') fs" using ok by simp
    have "v \<noteq> 0" using chain_nonzero [of "rg_links r" "rg_head r" "us @ v # vs'" v] o by (simp add: rg_ok_def)
    have "bytes \<le> r_bytes (rg_node r v)" using Cons hd_dropWhile [of "\<lambda>i. \<not> r_bytes (rg_node r i) \<ge> bytes" "is"] unfolding vs_def by fastforce
    note t = take_at [OF o b this]
    define res where "res = (if r_bytes (rg_node r v) = bytes
      then (rg_free_node v (rg_set_link (if us = [] then 0 else last us) (r_next (rg_node r v)) r), r_base (rg_node r v))
      else (rg_upd v (\<lambda>n. n\<lparr>r_bytes := r_bytes n - bytes\<rparr>) r, r_base (rg_node r v) + (r_bytes (rg_node r v) - bytes)))"
    have nz: "bytes \<noteq> 0" using b by auto
    have "rg_take bytes r = Some (fst res, snd res)" using w nz Cons \<open>v \<noteq> 0\<close> by (simp add: rg_take_def res_def Let_def)
    moreover have "rg_inv (fst res) \<and> unat (snd res) + unat bytes = span_end (span_of r v) \<and> free_addrs (fst res) = free_addrs r - addrs (unat (snd res), unat bytes)"
      using t [of res] by (simp add: res_def)
    ultimately show ?thesis unfolding f Cons by (cases res) auto
  qed
qed

section \<open>Giving\<close>

text \<open>The pool: a node off it, after the source was asked when it was empty.\<close>

lemma free_node_links [simp]:
  "rg_links (rg_free_node i r) j = (if j = i then rg_spare r else rg_links r j)" "rg_head (rg_free_node i r) = rg_head r"
  "rg_spare (rg_free_node i r) = i" "rg_total (rg_free_node i r) = rg_total r" "span_of (rg_free_node i r) = span_of r"
  by (auto simp: rg_free_node_def span_of_def fun_eq_iff)

lemma rg_adopt_ok:
  "rg_ok r is fs \<Longrightarrow> \<exists>fs'. rg_ok (rg_adopt n r) is fs' \<and> span_of (rg_adopt n r) = span_of r \<and> rg_head (rg_adopt n r) = rg_head r"
proof (induction n arbitrary: r fs)
  case (Suc n)
  let ?t = "Suc (rg_total r)" let ?r = "rg_free_node ?t (r\<lparr>rg_total := ?t\<rparr>)"
  have new: "?t \<notin> set (is @ fs)" using Suc.prems by (auto simp: rg_ok_def)
  have l: "x \<in> set (is @ fs) \<Longrightarrow> rg_links ?r x = rg_links r x" for x using new by (auto simp: rg_links_def rg_free_node_def)
  have sp: "span_of ?r = span_of r" by (simp add: span_of_def fun_eq_iff rg_free_node_def)
  have o: "chain (rg_links r) (rg_head r) is" "chain (rg_links r) (rg_spare r) fs" "distinct (is @ fs)" "set (is @ fs) = {1..rg_total r}"
      "spans_ok (map (span_of r) is)"
    using Suc.prems unfolding rg_ok_def by blast+
  have c: "chain (rg_links ?r) (rg_head r) is = chain (rg_links r) (rg_head r) is" by (rule chain_cong) (use l in simp)
  have "chain (rg_links ?r) (rg_spare r) fs = chain (rg_links r) (rg_spare r) fs" by (rule chain_cong) (use l in simp)
  then have f: "chain (rg_links ?r) (rg_spare ?r) (?t # fs)" using o(2) by simp
  have "set (is @ ?t # fs) = {1..rg_total ?r}" using o(4) by auto
  moreover have "distinct (is @ ?t # fs)" using o(3) new by simp
  ultimately have "rg_ok ?r is (?t # fs)" unfolding rg_ok_def sp using c f o by simp
  then show ?case using Suc.IH [of ?r "?t # fs"] sp by auto
qed auto

definition loose :: "regions \<Rightarrow> nat list \<Rightarrow> nat \<Rightarrow> nat \<Rightarrow> nat list \<Rightarrow> nat list \<Rightarrow> bool" where
  "loose r us d node vs fs \<longleftrightarrow>
     lseg (rg_links r) (rg_head r) us d \<and> chain (rg_links r) node (node # vs) \<and> chain (rg_links r) (rg_spare r) fs \<and>
     distinct (us @ node # vs @ fs) \<and> set (us @ node # vs @ fs) = {1..rg_total r}"

lemma lseg_moves: "lseg nx c us d \<Longrightarrow> (\<And>x. x \<in> set us \<Longrightarrow> nx' x = nx x) \<Longrightarrow> lseg nx' c us d"
  by (induction us arbitrary: c) auto

lemma chain_moves: "chain nx c us \<Longrightarrow> (\<And>x. x \<in> set us \<Longrightarrow> nx' x = nx x) \<Longrightarrow> chain nx' c us"
  using chain_cong [of us nx' nx] by blast

text \<open>A node for a span that goes between \<open>us\<close> and \<open>vs\<close>, linked to \<open>vs\<close> and not yet linked from \<open>us\<close>.\<close>

lemma alloc_loose:
  assumes ok: "rg_ok r (us @ vs) fs" and al: "rg_alloc_node S r = (r1, node)"
  shows "node = 0 \<Longrightarrow> rg_ok r1 (us @ vs) [] \<and> span_of r1 = span_of r"
    and "node \<noteq> 0 \<Longrightarrow> \<exists>fs' d. loose (rg_upd node (\<lambda>n. n\<lparr>r_base := base, r_bytes := bytes, r_next := (if vs = [] then 0 else hd vs)\<rparr>) r1) us d node vs fs' \<and>
           (\<forall>i. i \<noteq> node \<longrightarrow> span_of r1 i = span_of r i)"
proof -
  let ?r = "if rg_spare r = 0 then rg_adopt (S (rg_asked r)) (r\<lparr>rg_asked := Suc (rg_asked r)\<rparr>) else r"
  have "rg_ok (r\<lparr>rg_asked := Suc (rg_asked r)\<rparr>) (us @ vs) fs" "span_of (r\<lparr>rg_asked := Suc (rg_asked r)\<rparr>) = span_of r"
    using ok by (simp_all add: rg_ok_def)
  then have "\<exists>fs1. rg_ok ?r (us @ vs) fs1 \<and> span_of ?r = span_of r"
    using rg_adopt_ok [of "r\<lparr>rg_asked := Suc (rg_asked r)\<rparr>" "us @ vs" fs "S (rg_asked r)"] ok by (cases "rg_spare r = 0") auto
  then obtain fs1 where g: "rg_ok ?r (us @ vs) fs1" "span_of ?r = span_of r" by blast
  have n: "node = rg_spare ?r" "r1 = (if node = 0 then ?r else ?r\<lparr>rg_spare := r_next (rg_node ?r node)\<rparr>)"
    using al by (auto simp: rg_alloc_node_def Let_def split: if_splits)
  show "rg_ok r1 (us @ vs) [] \<and> span_of r1 = span_of r" if "node = 0"
    using that n g by (auto simp: rg_ok_def)
  show "\<exists>fs' d. loose (rg_upd node (\<lambda>n. n\<lparr>r_base := base, r_bytes := bytes, r_next := (if vs = [] then 0 else hd vs)\<rparr>) r1) us d node vs fs' \<and>
           (\<forall>i. i \<noteq> node \<longrightarrow> span_of r1 i = span_of r i)" if nz: "node \<noteq> 0"
  proof -
    obtain fs' where f: "fs1 = node # fs'" using g(1) n nz by (cases fs1) (auto simp: rg_ok_def)
    have r1: "rg_links r1 = rg_links ?r" "rg_head r1 = rg_head ?r" "rg_spare r1 = rg_links ?r node" "rg_total r1 = rg_total ?r" "span_of r1 = span_of ?r"
      using n nz by (simp_all add: rg_links_def fun_eq_iff span_of_def)
    let ?u = "rg_upd node (\<lambda>n. n\<lparr>r_base := base, r_bytes := bytes, r_next := (if vs = [] then 0 else hd vs)\<rparr>) r1"
    have off: "x \<noteq> node \<Longrightarrow> rg_links ?u x = rg_links ?r x" for x using r1 by simp
    have dst: "distinct (us @ node # vs @ fs')" "set (us @ node # vs @ fs') = {1..rg_total ?r}" using g(1) f by (auto simp: rg_ok_def)
    obtain d where d: "lseg (rg_links ?r) (rg_head ?r) us d" "chain (rg_links ?r) d vs" using g(1) chain_append by (auto simp: rg_ok_def)
    have "lseg (rg_links ?u) (rg_head ?u) us d" 
      unfolding rg_upd_fields r1(2) by (rule lseg_moves [OF d(1)]) (rule off, use dst(1) in auto)
    moreover have v: "chain (rg_links ?r) (if vs = [] then 0 else hd vs) vs" using d(2) chain_hd_or [OF d(2)] by simp
    have "chain (rg_links ?u) (if vs = [] then 0 else hd vs) vs"
      by (rule chain_moves [OF v]) (rule off, use dst(1) in auto)
    then have "chain (rg_links ?u) node (node # vs)" using nz by simp
    moreover have sp: "chain (rg_links ?r) (rg_spare r1) fs'" using g(1) f r1(3) by (simp add: rg_ok_def)
    have "chain (rg_links ?u) (rg_spare ?u) fs'"
      unfolding rg_upd_fields by (rule chain_moves [OF sp]) (rule off, use dst(1) in auto)
    ultimately show ?thesis using dst r1(4,5) g(2) unfolding loose_def by (intro exI [of _ fs'] exI [of _ d]) simp
  qed
qed

lemma join_after_loose:
  assumes l: "loose r us d node (v # vs) fs"
  defines "r' \<equiv> rg_free_node v (rg_upd node (\<lambda>n. n\<lparr>r_bytes := r_bytes n + r_bytes (rg_node r v), r_next := r_next (rg_node r v)\<rparr>) r)"
  shows "loose r' us d node vs (v # fs)" and "i \<noteq> node \<Longrightarrow> span_of r' i = span_of r i"
    and "r_base (rg_node r' node) = r_base (rg_node r node)" and "r_bytes (rg_node r' node) = r_bytes (rg_node r node) + r_bytes (rg_node r v)"
proof -
  have dst: "distinct (us @ node # v # vs @ fs)" "set (us @ node # v # vs @ fs) = {1..rg_total r}" using l by (auto simp: loose_def)
  have links: "rg_links r' x = (if x = v then rg_spare r else if x = node then rg_links r v else rg_links r x)" for x
    by (simp add: r'_def flip: rg_links_def)
  have f: "rg_head r' = rg_head r" "rg_spare r' = v" "rg_total r' = rg_total r" by (simp_all add: r'_def)
  have ch: "chain (rg_links r) node (node # v # vs)" "chain (rg_links r) (rg_spare r) fs" "lseg (rg_links r) (rg_head r) us d" using l by (auto simp: loose_def)
  have "lseg (rg_links r') (rg_head r') us d" 
    unfolding f(1) by (rule lseg_moves [OF ch(3)]) (use links dst(1) in auto)
  moreover have v: "chain (rg_links r) (rg_links r v) vs" using ch(1) by simp
  have "chain (rg_links r') (rg_links r v) vs" by (rule chain_moves [OF v]) (use links dst(1) in auto)
  then have "chain (rg_links r') node (node # vs)" using ch(1) links dst(1) by auto
  moreover have "chain (rg_links r') (rg_spare r) fs" by (rule chain_moves [OF ch(2)]) (use links dst(1) in auto)
  then have "chain (rg_links r') (rg_spare r') (v # fs)" using ch(1) f(2) links by simp
  ultimately show "loose r' us d node vs (v # fs)" using dst f(3) unfolding loose_def by auto
  show "i \<noteq> node \<Longrightarrow> span_of r' i = span_of r i" by (simp add: r'_def span_of_def)
  show "r_base (rg_node r' node) = r_base (rg_node r node)" "r_bytes (rg_node r' node) = r_bytes (rg_node r node) + r_bytes (rg_node r v)"
    using dst(1) by (auto simp: r'_def rg_free_node_def)
qed

text \<open>Linking the node, or merging it into the one before.\<close>

definition linked :: "regions \<Rightarrow> nat list \<Rightarrow> nat list \<Rightarrow> bool" where
  "linked r is fs \<longleftrightarrow>
     chain (rg_links r) (rg_head r) is \<and> chain (rg_links r) (rg_spare r) fs \<and> distinct (is @ fs) \<and> set (is @ fs) = {1..rg_total r}"

lemma set_link_linked:
  assumes l: "loose r us d node vs fs"
  defines "r' \<equiv> rg_set_link (if us = [] then 0 else last us) node r"
  shows "linked r' (us @ node # vs) fs" and "span_of r' = span_of r"
proof -
  have dst: "distinct (us @ node # vs @ fs)" "set (us @ node # vs @ fs) = {1..rg_total r}" and ch: "chain (rg_links r) node (node # vs)"
      "chain (rg_links r) (rg_spare r) fs" "lseg (rg_links r) (rg_head r) us d"
    using l by (auto simp: loose_def)
  have nz: "us \<noteq> [] \<Longrightarrow> last us \<noteq> 0" using dst(2) last_in_set [of us] by (metis UnCI atLeastAtMost_iff not_one_le_zero set_append)
  have links: "rg_links r' x = (if us \<noteq> [] \<and> x = last us then node else rg_links r x)" for x
    using nz by (auto simp: r'_def rg_set_link_def)
  have f: "rg_head r' = (if us = [] then node else rg_head r)" "rg_spare r' = rg_spare r" "rg_total r' = rg_total r"
    using nz by (auto simp: r'_def rg_set_link_def)
  have off: "x \<in> set (node # vs @ fs) \<Longrightarrow> rg_links r' x = rg_links r x" for x
    using dst(1) links by (cases us rule: rev_cases) auto
  have "chain (rg_links r') node (node # vs)" by (rule chain_moves [OF ch(1)]) (rule off, auto)
  then have "chain (rg_links r') (rg_head r') (us @ node # vs)"
    unfolding f(1) by (intro chain_relink [OF ch(3)]) (use dst links in auto)
  moreover have "chain (rg_links r') (rg_spare r') fs" unfolding f(2) by (rule chain_moves [OF ch(2)]) (rule off, auto)
  ultimately show "linked r' (us @ node # vs) fs" using dst f(3) by (simp add: linked_def)
  show "span_of r' = span_of r" by (auto simp: r'_def rg_set_link_def span_of_def fun_eq_iff)
qed

lemma join_before_linked:
  assumes l: "loose r (us @ [b]) d node vs fs"
  defines "r' \<equiv> rg_free_node node (rg_upd b (\<lambda>n. n\<lparr>r_bytes := r_bytes n + r_bytes (rg_node r node), r_next := r_next (rg_node r node)\<rparr>) r)"
  shows "linked r' (us @ b # vs) (node # fs)" and "i \<noteq> b \<Longrightarrow> span_of r' i = span_of r i"
    and "span_of r' b = (unat (r_base (rg_node r b)), unat (r_bytes (rg_node r b) + r_bytes (rg_node r node)))"
proof -
  have dst: "distinct (us @ b # node # vs @ fs)" "set (us @ b # node # vs @ fs) = {1..rg_total r}" and ch: "chain (rg_links r) node (node # vs)"
      "chain (rg_links r) (rg_spare r) fs" "lseg (rg_links r) (rg_head r) (us @ [b]) d"
    using l by (auto simp: loose_def)
  have links: "rg_links r' x = (if x = node then rg_spare r else if x = b then rg_links r node else rg_links r x)" for x
    by (simp add: r'_def flip: rg_links_def)
  have f: "rg_head r' = rg_head r" "rg_spare r' = node" "rg_total r' = rg_total r" by (simp_all add: r'_def)
  have v: "chain (rg_links r) (rg_links r node) vs" using ch(1) by simp
  have "chain (rg_links r') (rg_links r node) vs" by (rule chain_moves [OF v]) (use links dst(1) in auto)
  then have "chain (rg_links r') (if us @ [b] = [] then rg_links r node else rg_head r) ((us @ [b]) @ vs)"
    by (intro chain_relink [OF ch(3)]) (use dst(1) links in auto)
  moreover have "chain (rg_links r') (rg_spare r) fs" by (rule chain_moves [OF ch(2)]) (use links dst(1) in auto)
  then have "chain (rg_links r') (rg_spare r') (node # fs)" using ch(1) f(2) links by simp
  ultimately show "linked r' (us @ b # vs) (node # fs)" using dst f by (auto simp: linked_def)
  show "i \<noteq> b \<Longrightarrow> span_of r' i = span_of r i" by (simp add: r'_def span_of_def)
  show "span_of r' b = (unat (r_base (rg_node r b)), unat (r_bytes (rg_node r b) + r_bytes (rg_node r node)))"
    using dst(1) by (simp add: r'_def span_of_def rg_free_node_def)
qed

section \<open>Where a span goes\<close>

definition join_right :: "nat \<times> nat \<Rightarrow> (nat \<times> nat) list \<Rightarrow> (nat \<times> nat) list" where
  "join_right s ys = (if ys \<noteq> [] \<and> span_end s = fst (hd ys) then (fst s, snd s + snd (hd ys)) # tl ys else s # ys)"

definition join_left :: "(nat \<times> nat) list \<Rightarrow> (nat \<times> nat) list \<Rightarrow> (nat \<times> nat) list" where
  "join_left xs ys =
     (if xs \<noteq> [] \<and> span_end (last xs) = fst (hd ys) then butlast xs @ (fst (last xs), snd (last xs) + snd (hd ys)) # tl ys else xs @ ys)"

lemma addrs_add: "addrs (a, n + k) = addrs (a, n) \<union> addrs (a + n, k)"
  by (auto simp: addrs_def)

lemma join_right_ok:
  assumes "spans_ok ys" and "0 < snd s" and "span_end s < 2 ^ 64" and "ys \<noteq> [] \<Longrightarrow> span_end s \<le> fst (hd ys)"
  shows "spans_ok (join_right s ys)" and "span_cover (join_right s ys) = addrs s \<union> span_cover ys" and "fst (hd (join_right s ys)) = fst s"
    and "join_right s ys \<noteq> []"
proof -
  have "spans_ok (join_right s ys) \<and> span_cover (join_right s ys) = addrs s \<union> span_cover ys"
  proof (cases ys)
    case (Cons t ts)
    show ?thesis
    proof (cases "span_end s = fst t")
      case True
      then have "span_end (fst s, snd s + snd t) = span_end t" by (simp add: span_end_def)
      moreover have "addrs (fst s, snd s + snd t) = addrs s \<union> addrs t" using True addrs_add [of "fst s" "snd s" "snd t"] by (simp add: span_end_def)
      ultimately show ?thesis using assms True by (auto simp: join_right_def Cons spans_ok_Cons)
    qed (use assms in \<open>auto simp: join_right_def Cons spans_ok_Cons\<close>)
  qed (use assms in \<open>simp add: join_right_def spans_ok_Cons\<close>)
  then show "spans_ok (join_right s ys)" "span_cover (join_right s ys) = addrs s \<union> span_cover ys" by auto
qed (auto simp: join_right_def)

lemma join_left_ok:
  assumes "spans_ok xs" and "spans_ok ys" and "ys \<noteq> []" and "xs \<noteq> [] \<Longrightarrow> span_end (last xs) \<le> fst (hd ys)"
  shows "spans_ok (join_left xs ys)" and "span_cover (join_left xs ys) = span_cover xs \<union> span_cover ys"
proof -
  have "spans_ok (join_left xs ys) \<and> span_cover (join_left xs ys) = span_cover xs \<union> span_cover ys"
  proof (cases "xs \<noteq> [] \<and> span_end (last xs) = fst (hd ys)")
    case True
    obtain zs t where xs: "xs = zs @ [t]" using True by (cases xs rule: rev_cases) auto
    obtain u ts where ys: "ys = u # ts" using assms(3) by (cases ys) auto
    have e: "span_end t = fst u" using True by (simp add: xs ys)
    then have "span_end (fst t, snd t + snd u) = span_end u" by (simp add: span_end_def)
    moreover have "addrs (fst t, snd t + snd u) = addrs t \<union> addrs u" using e addrs_add [of "fst t" "snd t" "snd u"] by (simp add: span_end_def)
    ultimately show ?thesis using assms(1,2) e by (auto simp: join_left_def xs ys spans_ok_append spans_ok_Cons)
  qed (use assms in \<open>auto simp: join_left_def spans_ok_append\<close>)
  then show "spans_ok (join_left xs ys)" "span_cover (join_left xs ys) = span_cover xs \<union> span_cover ys" by auto
qed

lemma fits_iff:
  assumes ok: "spans_ok (xs @ ys)" and s: "0 < snd s" and lo: "\<forall>t\<in>set xs. fst t < fst s" and hi: "\<forall>t\<in>set ys. fst s \<le> fst t"
  shows "(xs \<noteq> [] \<longrightarrow> span_end (last xs) \<le> fst s) \<and> (ys \<noteq> [] \<longrightarrow> span_end s \<le> fst (hd ys)) \<longleftrightarrow> addrs s \<inter> span_cover (xs @ ys) = {}"
proof
  assume f: "(xs \<noteq> [] \<longrightarrow> span_end (last xs) \<le> fst s) \<and> (ys \<noteq> [] \<longrightarrow> span_end s \<le> fst (hd ys))"
  have "addrs s \<inter> addrs t = {}" if t: "t \<in> set xs" for t
  proof -
    obtain zs u where xs: "xs = zs @ [u]" using t by (cases xs rule: rev_cases) auto
    have "spans_ok (zs @ [u])" using ok unfolding xs spans_ok_append [of "zs @ [u]" ys] by blast
    then have "span_end t \<le> span_end u" using t spans_ok_between [of zs "[u]" t u] by (auto simp: xs span_end_def)
    then show ?thesis using f by (auto simp: xs addrs_def span_end_def)
  qed
  moreover have "addrs s \<inter> addrs t = {}" if t: "t \<in> set ys" for t
  proof -
    obtain u zs where ys: "ys = u # zs" using t by (cases ys) auto
    have "fst u \<le> fst t" using t ok spans_ok_after [of u zs t] by (auto simp: ys spans_ok_append span_end_def)
    then show ?thesis using f by (auto simp: ys addrs_def span_end_def)
  qed
  ultimately show "addrs s \<inter> span_cover (xs @ ys) = {}" by (intro span_cover_disjoint) (metis Un_iff set_append)
next
  assume d: "addrs s \<inter> span_cover (xs @ ys) = {}"
  then have dj: "t \<in> set (xs @ ys) \<Longrightarrow> addrs s \<inter> addrs t = {}" for t by (auto simp: span_cover_def)
  have "span_end (last xs) \<le> fst s" if n: "xs \<noteq> []"
  proof (rule ccontr)
    assume "\<not> span_end (last xs) \<le> fst s"
    then have "fst s \<in> addrs s \<inter> addrs (last xs)" using lo n s last_in_set [OF n] by (auto simp: addrs_def span_end_def less_imp_le)
    then show False using dj [of "last xs"] n by auto
  qed
  moreover have "span_end s \<le> fst (hd ys)" if n: "ys \<noteq> []"
  proof (rule ccontr)
    assume "\<not> span_end s \<le> fst (hd ys)"
    moreover have "0 < snd (hd ys)" using spans_ok_bounds [OF ok, of "hd ys"] n by simp
    ultimately have "fst (hd ys) \<in> addrs s \<inter> addrs (hd ys)" using hi n by (auto simp: addrs_def span_end_def)
    then show False using dj [of "hd ys"] n by auto
  qed
  ultimately show "(xs \<noteq> [] \<longrightarrow> span_end (last xs) \<le> fst s) \<and> (ys \<noteq> [] \<longrightarrow> span_end s \<le> fst (hd ys))" by blast
qed

section \<open>The whole of a release\<close>

lemma span_of_upd [simp]: "i \<notin> set xs \<Longrightarrow> map (span_of (rg_upd i f r)) xs = map (span_of r) xs"
  by (induction xs) (auto simp: span_of_def)

lemma unat_span: "unat a + unat b < 2 ^ 64 \<Longrightarrow> unat (a + b) = unat a + unat b" for a b :: u64
  by (simp add: unat_word_ariths)

lemma linked_ok: "linked r is fs \<Longrightarrow> spans_ok (map (span_of r) is) \<Longrightarrow> rg_ok r is fs"
  by (simp add: linked_def rg_ok_def)

text \<open>The node takes the region after it in, when the two touch.\<close>

lemma join_after_spans:
  assumes l: "loose r us d node vs fs" and a: "after = (if vs = [] then 0 else hd vs)" and s: "span_of r node = (unat base, unat bytes)"
    and b: "unat base + unat bytes < 2 ^ 64" and ok: "spans_ok (map (span_of r) vs)"
  defines "r' \<equiv> rg_join_after node after base bytes r"
  shows "\<exists>vs' fs'. loose r' us d node vs' fs' \<and> map (span_of r') (node # vs') = join_right (span_of r node) (map (span_of r) vs) \<and> map (span_of r') us = map (span_of r) us"
proof (cases "after \<noteq> 0 \<and> base + bytes = r_base (rg_node r after)")
  case True
  then obtain v ws where vs: "vs = v # ws" "after = v" using a by (cases vs) auto
  have dst: "node \<notin> set us" "node \<notin> set ws" using l by (auto simp: loose_def vs)
  note j = join_after_loose [of r us d node v ws fs, folded vs(1), OF l]
  have r': "r' = rg_free_node v (rg_upd node (\<lambda>n. n\<lparr>r_bytes := r_bytes n + r_bytes (rg_node r v), r_next := r_next (rg_node r v)\<rparr>) r)"
    using True by (simp add: r'_def rg_join_after_def vs(2))
  have e: "unat base + unat bytes = fst (span_of r v)" using True unat_span [OF b] by (simp add: vs span_of_def)
  have "span_end (span_of r v) < 2 ^ 64" using spans_ok_bounds [OF ok, of "span_of r v"] by (simp add: vs)
  then have "unat (bytes + r_bytes (rg_node r v)) = unat bytes + snd (span_of r v)"
    using e by (intro trans [OF unat_span]) (auto simp: span_of_def span_end_def)
  moreover have "r_bytes (rg_node r node) = bytes" "r_base (rg_node r node) = base" using s by (auto simp: span_of_def word_unat_eq_iff)
  ultimately have "span_of r' node = (unat base, unat bytes + snd (span_of r v))"
    using j(3,4) unfolding r' by (simp add: span_of_def)
  moreover have "map (span_of r') ws = map (span_of r) ws" "map (span_of r') us = map (span_of r) us"
    using dst by (simp_all add: r' del: map_eq_conv)
  ultimately show ?thesis using j(1) e unfolding r'
    by (intro exI [of _ ws] exI [of _ "v # fs"]) (simp add: join_right_def vs s span_end_def)
next
  case False
  have "span_end (span_of r node) \<noteq> fst (hd (map (span_of r) vs))" if "vs \<noteq> []"
  proof -
    have "after \<noteq> 0" using that a l chain_nonzero [of "rg_links r" node "node # vs" "hd vs"] by (simp add: loose_def)
    then have "base + bytes \<noteq> r_base (rg_node r (hd vs))" using False a that by simp
    then have "unat base + unat bytes \<noteq> unat (r_base (rg_node r (hd vs)))" unfolding unat_span [OF b, symmetric] by (simp add: word_unat_eq_iff)
    moreover have "fst (hd (map (span_of r) vs)) = unat (r_base (rg_node r (hd vs)))" using that by (simp add: hd_map span_of_def)
    ultimately show ?thesis by (simp add: s span_end_def)
  qed
  then show ?thesis using l False unfolding r'_def rg_join_after_def
    by (intro exI [of _ vs] exI [of _ fs]) (auto simp: join_right_def)
qed

text \<open>The node is taken in by the region before it, when the two touch, and linked otherwise.\<close>

lemma join_before_spans:
  assumes l: "loose r us d node vs fs" and p: "before = (if us = [] then 0 else last us)" and s: "fst (span_of r node) = unat base"
    and xs: "spans_ok (map (span_of r) us)" and ys: "spans_ok (map (span_of r) (node # vs))"
  defines "r' \<equiv> rg_join_before before node base r"
  shows "\<exists>is fs'. linked r' is fs' \<and> map (span_of r') is = join_left (map (span_of r) us) (map (span_of r) (node # vs))"
proof (cases "before \<noteq> 0 \<and> r_base (rg_node r before) + r_bytes (rg_node r before) = base")
  case True
  then obtain zs b where us: "us = zs @ [b]" "before = b" using p by (cases us rule: rev_cases) auto
  have dst: "b \<notin> set zs" "b \<notin> set vs" using l by (auto simp: loose_def us)
  note j = join_before_linked [of r zs b d node vs fs, folded us(1), OF l]
  have r': "r' = rg_free_node node (rg_upd b (\<lambda>n. n\<lparr>r_bytes := r_bytes n + r_bytes (rg_node r node), r_next := r_next (rg_node r node)\<rparr>) r)"
    using True by (simp add: r'_def rg_join_before_def us(2))
  have "span_end (span_of r b) < 2 ^ 64" "span_end (span_of r node) < 2 ^ 64"
    using spans_ok_bounds [OF xs, of "span_of r b"] spans_ok_bounds [OF ys, of "span_of r node"] by (simp_all add: us)
  moreover from this have e: "span_end (span_of r b) = unat base" using True unat_span [of "r_base (rg_node r b)" "r_bytes (rg_node r b)"] by (simp add: span_end_def span_of_def us(2))
  ultimately have "unat (r_bytes (rg_node r b) + r_bytes (rg_node r node)) = snd (span_of r b) + snd (span_of r node)"
    using s by (intro trans [OF unat_span]) (auto simp: span_of_def span_end_def)
  then have "span_of r' b = (fst (span_of r b), snd (span_of r b) + snd (span_of r node))" using j(3) unfolding r' by (simp add: span_of_def)
  moreover have "map (span_of r') zs = map (span_of r) zs" "map (span_of r') vs = map (span_of r) vs"
    using dst by (simp_all add: r' del: map_eq_conv)
  ultimately show ?thesis using j(1) e s unfolding r'
    by (intro exI [of _ "zs @ b # vs"] exI [of _ "node # fs"]) (simp add: join_left_def us)
next
  case False
  have n: "span_end (span_of r (last us)) \<noteq> unat base" if "us \<noteq> []"
  proof -
    have "last us \<in> {1..rg_total r}" using l last_in_set [OF that] unfolding loose_def by (metis UnCI set_append)
    then have "r_base (rg_node r (last us)) + r_bytes (rg_node r (last us)) \<noteq> base" using False p that by simp
    moreover have "span_end (span_of r (last us)) < 2 ^ 64" using spans_ok_bounds [OF xs] that by simp
    ultimately show ?thesis using unat_span [of "r_base (rg_node r (last us))" "r_bytes (rg_node r (last us))"] by (auto simp: span_of_def span_end_def word_unat_eq_iff)
  qed
  have r': "r' = rg_set_link before node r" unfolding r'_def rg_join_before_def using False by (simp only: if_False)
  show ?thesis using set_link_linked [OF l] n s unfolding r' p
    by (intro exI [of _ "us @ node # vs"] exI [of _ fs]) (auto simp: join_left_def last_map)
qed

text \<open>The place of the span, and that the two checks of the code are the check for an overlap.\<close>

lemma give_place:
  assumes ok: "rg_ok r (us @ vs) fs" and b: "0 < bytes" "unat base + unat bytes < 2 ^ 64" and lo: "\<forall>i\<in>set us. r_base (rg_node r i) < base"
    and hi: "vs \<noteq> [] \<Longrightarrow> \<not> r_base (rg_node r (hd vs)) < base" and p: "before = (if us = [] then 0 else last us)" "after = (if vs = [] then 0 else hd vs)"
  defines "xs \<equiv> map (span_of r) us" and "ys \<equiv> map (span_of r) vs" and "s \<equiv> (unat base, unat bytes)"
  shows "\<not> (after \<noteq> 0 \<and> base + bytes > r_base (rg_node r after)) \<longleftrightarrow> (ys \<noteq> [] \<longrightarrow> span_end s \<le> fst (hd ys))" (is "?A")
    and "\<not> (before \<noteq> 0 \<and> r_base (rg_node r before) + r_bytes (rg_node r before) > base) \<longleftrightarrow> (xs \<noteq> [] \<longrightarrow> span_end (last xs) \<le> fst s)" (is "?B")
    and "(xs \<noteq> [] \<longrightarrow> span_end (last xs) \<le> fst s) \<and> (ys \<noteq> [] \<longrightarrow> span_end s \<le> fst (hd ys)) \<longleftrightarrow> addrs s \<inter> free_addrs r = {}" (is "?C")
proof -
  have sp: "spans_ok (xs @ ys)" using ok by (simp add: rg_ok_def xs_def ys_def)
  have nz: "i \<in> set (us @ vs) \<Longrightarrow> i \<noteq> 0" for i using ok chain_nonzero [of "rg_links r" "rg_head r" "us @ vs" i] by (simp add: rg_ok_def)
  have h: "vs \<noteq> [] \<Longrightarrow> hd vs \<noteq> 0" "us \<noteq> [] \<Longrightarrow> last us \<noteq> 0" using nz by (metis UnCI hd_in_set set_append, metis UnCI last_in_set set_append)
  show ?A using h(1) unat_span [OF b(2)]
    by (auto simp: p ys_def s_def hd_map span_end_def span_of_def word_less_nat_alt not_less)
  have "us \<noteq> [] \<Longrightarrow> span_end (span_of r (last us)) < 2 ^ 64" using spans_ok_bounds [OF sp] by (simp add: xs_def)
  then show ?B using h(2) unat_span [of "r_base (rg_node r (last us))" "r_bytes (rg_node r (last us))"]
    by (auto simp: p xs_def s_def last_map span_end_def span_of_def word_less_nat_alt not_less)
  have "\<forall>t\<in>set xs. fst t < fst s" using lo by (auto simp: xs_def s_def span_of_def word_less_nat_alt)
  moreover have "fst s \<le> fst t" if t: "t \<in> set ys" for t
  proof -
    obtain v ws where vs: "vs = v # ws" using t by (cases vs) (auto simp: ys_def)
    have "fst s \<le> fst (span_of r v)" using hi by (simp add: vs s_def span_of_def word_less_nat_alt)
    moreover have "spans_ok ys" using sp by (simp add: spans_ok_append)
    ultimately show ?thesis using t spans_ok_after [of "span_of r v" "map (span_of r) ws" t] by (auto simp: ys_def vs span_end_def)
  qed
  moreover have "0 < snd s" using b(1) by (simp add: s_def unat_gt_0)
  moreover have "free_addrs r = span_cover (xs @ ys)" using free_addrs_ok [OF ok] by (simp add: xs_def ys_def)
  ultimately show ?C using fits_iff [OF sp, of s] by simp
qed

lemma give_made:
  assumes ok: "rg_ok r (us @ vs) fs" and al: "rg_alloc_node S r = (r1, node)" "node \<noteq> 0" and b: "0 < bytes" "unat base + unat bytes < 2 ^ 64"
    and p: "before = (if us = [] then 0 else last us)" "after = (if vs = [] then 0 else hd vs)"
    and fit: "vs \<noteq> [] \<Longrightarrow> unat base + unat bytes \<le> fst (span_of r (hd vs))" "us \<noteq> [] \<Longrightarrow> span_end (span_of r (last us)) \<le> unat base"
  defines "r2 \<equiv> rg_upd node (\<lambda>n. n\<lparr>r_base := base, r_bytes := bytes, r_next := after\<rparr>) r1"
  defines "r' \<equiv> rg_join_before before node base (rg_join_after node after base bytes r2)"
  shows "rg_inv r' \<and> free_addrs r' = free_addrs r \<union> addrs (unat base, unat bytes)"
proof -
  let ?s = "(unat base, unat bytes)" let ?xs = "map (span_of r) us" let ?ys = "map (span_of r) vs"
  have sp: "spans_ok ?xs" "spans_ok ?ys" using ok by (auto simp: rg_ok_def spans_ok_append)
  obtain fs' d where l: "loose r2 us d node vs fs'" "\<forall>i. i \<noteq> node \<longrightarrow> span_of r1 i = span_of r i"
    using alloc_loose(2) [OF ok al, of bytes base] unfolding r2_def p(2) by blast
  have "node \<notin> set us" "node \<notin> set vs" using l(1) by (auto simp: loose_def)
  then have m: "map (span_of r2) us = ?xs" "map (span_of r2) vs = ?ys" using l(2) by (auto simp: r2_def simp del: map_eq_conv intro!: map_cong)
  have s: "span_of r2 node = ?s" by (simp add: r2_def span_of_def)
  let ?r3 = "rg_join_after node after base bytes r2"
  obtain vs' fs'' where j: "loose ?r3 us d node vs' fs''" "map (span_of ?r3) (node # vs') = join_right ?s ?ys" "map (span_of ?r3) us = ?xs"
    using join_after_spans [OF l(1) p(2) s b(2)] sp(2) unfolding m s by auto
  have jr: "spans_ok (join_right ?s ?ys)" "span_cover (join_right ?s ?ys) = addrs ?s \<union> span_cover ?ys" "fst (hd (join_right ?s ?ys)) = unat base" "join_right ?s ?ys \<noteq> []"
    using join_right_ok [OF sp(2), of ?s] b fit(1) by (simp_all add: span_end_def hd_map unat_gt_0)
  have "fst (span_of ?r3 node) = unat base" using jr(3) j(2) by (metis list.sel(1) list.simps(9))
  moreover have "spans_ok (map (span_of ?r3) (node # vs'))" using j(2) jr(1) by simp
  moreover have "spans_ok (map (span_of ?r3) us)" unfolding j(3) by (rule sp(1))
  ultimately obtain "is" gs where f: "linked r' is gs" "map (span_of r') is = join_left ?xs (join_right ?s ?ys)"
    using join_before_spans [OF j(1) p(1), of base] unfolding j(2,3) r'_def by auto
  have jl: "spans_ok (join_left ?xs (join_right ?s ?ys))" "span_cover (join_left ?xs (join_right ?s ?ys)) = span_cover ?xs \<union> (addrs ?s \<union> span_cover ?ys)"
    using join_left_ok [OF sp(1) jr(1,4)] fit(2) jr(2,3) by (simp_all add: last_map)
  have "rg_ok r' is gs" using linked_ok [OF f(1)] f(2) jl(1) by simp
  then show ?thesis using free_addrs_ok [of r' "is" gs] free_addrs_ok [OF ok] f(2) jl(2) rg_inv_def by auto
qed

lemma give_spec:
  assumes inv: "rg_inv r" and al: "unat base mod 8 = 0" and b: "0 < bytes" "unat base + unat bytes < 2 ^ 64"
  shows "\<exists>r' ok. rg_give S base bytes r = Some (r', ok) \<and> rg_inv r' \<and>
           (ok \<longleftrightarrow> addrs (unat base, unat bytes) \<inter> free_addrs r = {} \<and> snd (rg_alloc_node S r) \<noteq> 0) \<and>
           free_addrs r' = (if ok then free_addrs r \<union> addrs (unat base, unat bytes) else free_addrs r)"
proof -
  obtain "is" fs where ok: "rg_ok r is fs" using inv rg_inv_def by blast
  define us where "us = takeWhile (\<lambda>i. \<not> \<not> r_base (rg_node r i) < base) is"
  define vs where "vs = dropWhile (\<lambda>i. \<not> \<not> r_base (rg_node r i) < base) is"
  define before where "before = (if us = [] then 0 else last us)"
  define after where "after = (if vs = [] then 0 else hd vs)"
  have "chain (rg_links r) (rg_head r) is" using ok by (simp add: rg_ok_def)
  note w = rg_walk_chain [OF this rg_ok_length [OF ok] us_def vs_def, of 0, folded before_def after_def]
  note place = split_at [OF us_def vs_def]
  have o: "rg_ok r (us @ vs) fs" using ok place(1) by simp
  note g = give_place [OF o b _ _ before_def after_def]
  have lo: "\<forall>i\<in>set us. r_base (rg_node r i) < base" "vs \<noteq> [] \<Longrightarrow> \<not> r_base (rg_node r (hd vs)) < base" using place(2,3) by auto
  obtain r1 node where a: "rg_alloc_node S r = (r1, node)" by (rule prod.exhaust)
  have nz: "bytes \<noteq> 0" using b(1) by auto
  show ?thesis
  proof (cases "addrs (unat base, unat bytes) \<inter> free_addrs r = {}")
    case False
    then have "rg_give S base bytes r = Some (r, False)"
      using w nz al g(1-3) [OF lo] by (auto simp: rg_give_def)
    then show ?thesis using inv False by auto
  next
    case True
    then have fit: "us \<noteq> [] \<Longrightarrow> span_end (span_of r (last us)) \<le> unat base" "vs \<noteq> [] \<Longrightarrow> unat base + unat bytes \<le> fst (span_of r (hd vs))"
      using g(3) [OF lo] by (auto simp: last_map hd_map span_end_def)
    define r' where "r' = rg_join_before before node base (rg_join_after node after base bytes (rg_upd node (\<lambda>n. n\<lparr>r_base := base, r_bytes := bytes, r_next := after\<rparr>) r1))"
    have v: "rg_give S base bytes r = Some (if node = 0 then (r1, False) else (r', True))"
      using w nz al g(1-3) [OF lo] True a by (auto simp: rg_give_def r'_def Let_def)
    show ?thesis
    proof (cases "node = 0")
      case True
      have "rg_ok r1 (us @ vs) []" "span_of r1 = span_of r" using alloc_loose(1) [OF o a True] by auto
      then have "rg_inv r1" "free_addrs r1 = free_addrs r" using free_addrs_ok [OF o] free_addrs_ok [of r1 "us @ vs" "[]"] rg_inv_def by auto
      then show ?thesis using v a True by auto
    next
      case False
      have "rg_inv r'" "free_addrs r' = free_addrs r \<union> addrs (unat base, unat bytes)"
        using give_made [OF o a False b before_def after_def] fit unfolding r'_def by blast+
      then show ?thesis using v a False True by auto
    qed
  qed
qed

end
