(* ===== verification/Heap_Contract.thy ===== *)
theory Heap_Contract
  imports Regions_Proofs
begin

text \<open>
  What the free regions promise the heap, over any history of releases and requests: a store of spans as an
  interface, the free regions as its implementation, and that memory handed out is never handed out again
  before it is given back.
\<close>

section \<open>A store of spans\<close>

text \<open>
  A release that is sound (aligned, not empty and inside the address space) adds its addresses or leaves the
  store as it was; a request takes the addresses it answers out of the free ones.
\<close>

locale span_store =
  fixes inv :: "'s \<Rightarrow> bool" and free :: "'s \<Rightarrow> nat set" and give :: "u64 \<Rightarrow> u64 \<Rightarrow> 's \<Rightarrow> ('s \<times> bool) option"
    and taking :: "u64 \<Rightarrow> 's \<Rightarrow> ('s \<times> u64) option" and sound :: "u64 \<Rightarrow> u64 \<Rightarrow> bool"
  assumes give_law: "inv s \<Longrightarrow> sound b n \<Longrightarrow> \<exists>s' ok. give b n s = Some (s', ok) \<and> inv s' \<and>
        free s' = (if ok then free s \<union> addrs (unat b, unat n) else free s) \<and> (ok \<longrightarrow> addrs (unat b, unat n) \<inter> free s = {})"
    and take_law: "inv s \<Longrightarrow> 0 < n \<Longrightarrow> \<exists>s' p. taking n s = Some (s', p) \<and> inv s' \<and> free s' \<subseteq> free s \<and>
        (p \<noteq> 0 \<longrightarrow> addrs (unat p, unat n) \<subseteq> free s \<and> free s' = free s - addrs (unat p, unat n))"
begin

text \<open>The addresses that are out stay apart from the free ones: requests add theirs, accepted releases take theirs back.\<close>

definition apart :: "'s \<Rightarrow> nat set \<Rightarrow> bool" where
  "apart s out \<longleftrightarrow> inv s \<and> out \<inter> free s = {}"

lemma given_apart:
  "apart s out \<Longrightarrow> sound b n \<Longrightarrow> give b n s = Some (s', ok) \<Longrightarrow> apart s' (if ok then out - addrs (unat b, unat n) else out)"
  using give_law [of s b n] by (auto simp: apart_def)

lemma taken_apart:
  "apart s out \<Longrightarrow> 0 < n \<Longrightarrow> taking n s = Some (s', p) \<Longrightarrow> apart s' (if p = 0 then out else out \<union> addrs (unat p, unat n))"
  using take_law [of s n] by (auto simp: apart_def split: if_splits)

lemma taken_fresh: "apart s out \<Longrightarrow> 0 < n \<Longrightarrow> taking n s = Some (s', p) \<Longrightarrow> p \<noteq> 0 \<Longrightarrow> addrs (unat p, unat n) \<inter> out = {}"
  using take_law [of s n] by (auto simp: apart_def)

end

section \<open>The free regions are one\<close>

definition sound_span :: "u64 \<Rightarrow> u64 \<Rightarrow> bool" where
  "sound_span base bytes \<longleftrightarrow> unat base mod 8 = 0 \<and> 0 < bytes \<and> unat base + unat bytes < 2 ^ 64"

lemma give_law_regions:
  assumes "rg_inv r" and "sound_span base bytes"
  shows "\<exists>r' ok. rg_give S base bytes r = Some (r', ok) \<and> rg_inv r' \<and>
           (ok \<longleftrightarrow> addrs (unat base, unat bytes) \<inter> free_addrs r = {} \<and> snd (rg_alloc_node S r) \<noteq> 0) \<and>
           free_addrs r' = (if ok then free_addrs r \<union> addrs (unat base, unat bytes) else free_addrs r)"
  using assms(2) by (intro give_spec [OF assms(1)]) (simp_all add: sound_span_def)

lemma find_free: "find P (rg_spans r) = Some s \<Longrightarrow> addrs s \<subseteq> free_addrs r"
  by (auto simp: free_addrs_def find_Some_iff intro: nth_mem)

lemma take_law_regions:
  assumes "rg_inv r" and "0 < n"
  shows "\<exists>r' p. rg_take n r = Some (r', p) \<and> rg_inv r' \<and> free_addrs r' \<subseteq> free_addrs r \<and>
        (p \<noteq> 0 \<longrightarrow> addrs (unat p, unat n) \<subseteq> free_addrs r \<and> free_addrs r' = free_addrs r - addrs (unat p, unat n))"
proof (cases "find (\<lambda>s. unat n \<le> snd s) (rg_spans r)")
  case None
  then show ?thesis using take_spec [OF assms] assms(1) by auto
next
  case (Some s)
  then obtain r' p where t: "rg_take n r = Some (r', p)" "rg_inv r'" "unat p + unat n = span_end s" "free_addrs r' = free_addrs r - addrs (unat p, unat n)"
    using take_spec [OF assms] by auto
  have "unat n \<le> snd s" using Some by (auto simp: find_Some_iff)
  then have "addrs (unat p, unat n) \<subseteq> addrs s" using t(3) by (auto simp: addrs_def span_end_def)
  then show ?thesis using t find_free [OF Some] by blast
qed

interpretation heap: span_store rg_inv free_addrs "rg_give S" rg_take sound_span for S
proof unfold_locales
  fix r b n assume "rg_inv r" "sound_span b n"
  then show "\<exists>s' ok. rg_give S b n r = Some (s', ok) \<and> rg_inv s' \<and>
      free_addrs s' = (if ok then free_addrs r \<union> addrs (unat b, unat n) else free_addrs r) \<and> (ok \<longrightarrow> addrs (unat b, unat n) \<inter> free_addrs r = {})"
    using give_law_regions [of r b n S] by metis
qed (rule take_law_regions)

lemma rg_new_inv: "rg_inv rg_new"
  unfolding rg_inv_def rg_ok_def by (intro exI [of _ "[]"]) (simp add: rg_new_def)

text \<open>A history: the state it reaches, and the addresses that were handed out and not given back since.\<close>

inductive heap_history :: "(nat \<Rightarrow> nat) \<Rightarrow> regions \<Rightarrow> nat set \<Rightarrow> bool" for S where
  start: "heap_history S rg_new {}"
| given: "heap_history S r out \<Longrightarrow> sound_span base bytes \<Longrightarrow> rg_give S base bytes r = Some (r', ok) \<Longrightarrow>
    heap_history S r' (if ok then out - addrs (unat base, unat bytes) else out)"
| taken: "heap_history S r out \<Longrightarrow> 0 < bytes \<Longrightarrow> rg_take bytes r = Some (r', p) \<Longrightarrow>
    heap_history S r' (if p = 0 then out else out \<union> addrs (unat p, unat bytes))"

lemma history_apart: "heap_history S r out \<Longrightarrow> heap.apart r out"
proof (induction rule: heap_history.induct)
  case start
  then show ?case by (simp add: heap.apart_def rg_new_inv)
qed (rule heap.given_apart heap.taken_apart; assumption)+

text \<open>The report of the free bytes counts the free addresses.\<close>

lemma card_span_cover: "spans_ok ss \<Longrightarrow> card (span_cover ss) = sum_list (map snd ss) \<and> finite (span_cover ss)"
proof (induction ss)
  case (Cons s ss)
  have "addrs s \<inter> span_cover ss = {}" using span_cover_minus [of "[]" s ss] Cons.prems by simp
  then show ?case using Cons by (simp add: card_Un_disjoint addrs_def spans_ok_Cons)
qed simp

lemma bytes_free_exact:
  assumes "rg_inv r"
  shows "rg_bytes_free r = Some (of_nat (card (free_addrs r)))"
proof -
  obtain "is" fs where ok: "rg_ok r is fs" using assms rg_inv_def by blast
  have "rg_ids (rg_total r) r (rg_head r) = Some is" using rg_ids_chain [OF _ rg_ok_length [OF ok]] ok by (simp add: rg_ok_def)
  moreover have "of_nat (sum_list (map (snd \<circ> span_of r) is)) = sum_list (map (\<lambda>i. r_bytes (rg_node r i)) is)" for "is"
    by (induction "is") (simp_all add: span_of_def)
  moreover have "card (free_addrs r) = sum_list (map (snd \<circ> span_of r) is)"
    using card_span_cover [of "map (span_of r) is"] free_addrs_ok [OF ok] ok by (simp add: rg_ok_def)
  ultimately show ?thesis by (simp add: rg_bytes_free_def)
qed

text \<open>
  First fit. A request for a positive number of bytes is always answered: with null and an unchanged list
  when no free region is large enough, and otherwise with the top of the lowest region that is, whose addresses
  and no others leave the free ones, the list staying in address order, disjoint and merged.
\<close>

lemma take_first_fit:
  assumes "rg_inv r" and "0 < bytes"
  shows "case find (\<lambda>s. unat bytes \<le> snd s) (rg_spans r) of
           None \<Rightarrow> rg_take bytes r = Some (r, 0)
         | Some s \<Rightarrow> (\<exists>r' p. rg_take bytes r = Some (r', p) \<and> rg_inv r' \<and> unat p + unat bytes = fst s + snd s \<and>
                     free_addrs r' = free_addrs r - addrs (unat p, unat bytes))"
  using take_spec [OF assms] unfolding span_end_def .

text \<open>
  A release is exact. Giving back a sound span is always answered; it is accepted exactly when it overlaps no
  free region and there is a node for it, it then adds its addresses and no others to the free ones, a refusal
  leaves the free addresses alone, and the list stays in address order, disjoint and merged either way.
\<close>

lemma give_exact:
  assumes "rg_inv r" and "sound_span base bytes"
  shows "\<exists>r' ok. rg_give S base bytes r = Some (r', ok) \<and> rg_inv r' \<and>
           (ok \<longleftrightarrow> addrs (unat base, unat bytes) \<inter> free_addrs r = {} \<and> snd (rg_alloc_node S r) \<noteq> 0) \<and>
           free_addrs r' = (if ok then free_addrs r \<union> addrs (unat base, unat bytes) else free_addrs r)"
  by (rule give_law_regions [OF assms])

text \<open>
  C33. Over any history of sound releases and requests that starts with no free region, the memory a request is
  answered with is disjoint from all memory that was handed out and not given back since.
\<close>

theorem heap_never_hands_out_twice:
  assumes "heap_history S r out" and "0 < n" and "rg_take n r = Some (r', p)" and "p \<noteq> 0"
  shows "addrs (unat p, unat n) \<inter> out = {}"
  by (rule heap.taken_fresh [OF history_apart [OF assms(1)] assms(2-4)])

section \<open>The properties at concrete inputs\<close>

text \<open>A source of two nodes at a time; a page released, then half of it requested.\<close>

definition ex_nodes :: "nat \<Rightarrow> nat" where
  "ex_nodes n = Suc (Suc 0)"

definition ex_regions :: regions where
  "ex_regions = (case rg_give ex_nodes 0x4000 0x1000 rg_new of Some (r, _) \<Rightarrow> r | None \<Rightarrow> rg_new)"

lemmas ex_simps = ex_nodes_def rg_new_def rg_give_def rg_take_def rg_walk.simps rg_alloc_node_def rg_free_node_def rg_upd_def rg_set_link_def
  rg_join_after_def rg_join_before_def

lemma ex_given: "rg_give ex_nodes 0x4000 0x1000 rg_new = Some (ex_regions, True)"
  by (simp add: ex_simps ex_regions_def Let_def)

lemma ex_history: "heap_history ex_nodes ex_regions {}"
  using heap_history.given [OF heap_history.start [of ex_nodes], of "0x4000" "0x1000" ex_regions True] ex_given by (simp add: sound_span_def)

lemma ex_inv: "rg_inv ex_regions"
  using history_apart [OF ex_history] by (simp add: heap.apart_def)

lemma ex_spans: "rg_spans ex_regions = [(0x4000, 0x1000)]"
  by (simp add: ex_simps ex_regions_def Let_def rg_spans_def rg_ids.simps span_of_def)

lemma ex_free: "free_addrs ex_regions = {0x4000..<0x5000}"
  by (simp add: free_addrs_def ex_spans addrs_def)

lemma take_first_fit_witness:
  "\<exists>r' p. rg_take 0x800 ex_regions = Some (r', p) \<and> rg_inv r' \<and> unat p = 0x4800 \<and> free_addrs r' = {0x4000..<0x4800}"
proof -
  have "\<exists>r' p. rg_take 0x800 ex_regions = Some (r', p) \<and> rg_inv r' \<and> unat p + 0x800 = 0x5000 \<and> free_addrs r' = free_addrs ex_regions - addrs (unat p, 0x800)"
    using take_first_fit [OF ex_inv, of "0x800"] by (simp add: ex_spans)
  then obtain r' p where "rg_take 0x800 ex_regions = Some (r', p)" "rg_inv r'" "unat p = 0x4800" "free_addrs r' = {0x4000..<0x5000} - {0x4800..<0x5000}"
    by (auto simp: ex_free addrs_def)
  moreover have "{0x4000..<0x5000} - {0x4800..<0x5000} = {0x4000..<0x4800 :: nat}" by auto
  ultimately show ?thesis by metis
qed

lemma give_exact_witness:
  "\<exists>r' ok. rg_give ex_nodes 0x5000 0x1000 ex_regions = Some (r', ok) \<and> rg_inv r' \<and> ok \<and> free_addrs r' = {0x4000..<0x5000} \<union> {0x5000..<0x6000}"
proof -
  have s: "sound_span 0x5000 0x1000" by (simp add: sound_span_def)
  have n: "snd (rg_alloc_node ex_nodes ex_regions) \<noteq> 0" by (simp add: ex_simps ex_regions_def Let_def)
  have d: "addrs (unat (0x5000 :: u64), unat (0x1000 :: u64)) \<inter> free_addrs ex_regions = {}" by (auto simp: ex_free addrs_def)
  show ?thesis using give_exact [OF ex_inv s, of ex_nodes] n d by (auto simp: ex_free addrs_def)
qed

theorem heap_never_hands_out_twice_witness:
  "\<exists>r1 r2. rg_take 0x800 ex_regions = Some (r1, 0x4800) \<and> heap_history ex_nodes r1 {0x4800..<0x5000} \<and>
     rg_take 0x400 r1 = Some (r2, 0x4400) \<and> {0x4400..<0x4800} \<inter> {0x4800..<0x5000} = ({} :: nat set)"
proof -
  obtain r1 where r1: "rg_take 0x800 ex_regions = Some (r1, 0x4800)" "rg_take 0x400 r1 = Some (the (map_option fst (rg_take 0x400 r1)), 0x4400)"
    by (simp add: ex_simps ex_regions_def Let_def)
  have h: "heap_history ex_nodes r1 {0x4800..<0x5000}"
    using heap_history.taken [OF ex_history _ r1(1)] by (simp add: addrs_def)
  then show ?thesis using r1 heap_never_hands_out_twice [OF h _ r1(2)] by (auto simp: addrs_def)
qed

text \<open>
  A span that runs past the end of the address space is not sound: its end wraps, so the checks for an overlap
  pass and a span over a region that is already free is accepted.
\<close>

lemma give_wrapped_accepted: "\<exists>r'. rg_give ex_nodes 0x1000 0xFFFFFFFFFFFFF800 ex_regions = Some (r', True)"
  by (simp add: ex_simps ex_regions_def Let_def)

end
