(* ===== verification/Script_Library.thy ===== *)
theory Script_Library
  imports Aegir_Prelude
begin

text \<open>
  The shell's script library, \<^verbatim>\<open>src/libs/hosted/aegir-script\<close>: the lines of a command file, the stack of running
  files with the jumps over their blocks (\<^verbatim>\<open>interpreter.cc\<close>), the conditions of an \<^verbatim>\<open>If\<close> (\<^verbatim>\<open>condition.cc\<close>),
  variables, quotes and aliases (\<^verbatim>\<open>substitute.cc\<close>); and the part of \<^verbatim>\<open>src/apps/hosted/aegir-shell\<close> that drives it:
  the control words of a line and what the loop does after one. The environment and the file system are
  parameters.
\<close>

section \<open>Words and lines\<close>

definition is_blank :: "char \<Rightarrow> bool" where
  "is_blank c \<longleftrightarrow> c = CHR '' '' \<or> c = CHR 0x09"

definition first_word :: "string \<Rightarrow> string" where
  "first_word line = takeWhile (\<lambda>c. \<not> is_blank c) (dropWhile is_blank line)"

definition after_first_word :: "string \<Rightarrow> string" where
  "after_first_word line =
     rev (dropWhile is_blank (rev (dropWhile is_blank (dropWhile (\<lambda>c. \<not> is_blank c) (dropWhile is_blank line)))))"

definition control_word :: "string \<Rightarrow> string" where
  "control_word line =
     (let word = first_word line
      in if eq_folded word ''lab'' \<or> eq_folded word ''label'' then ''lab''
         else if eq_folded word ''skip'' then ''skip''
         else if eq_folded word ''if'' then ''if''
         else if eq_folded word ''else'' then ''else''
         else if eq_folded word ''endif'' then ''endif''
         else [])"

text \<open>What the end of a line adds to the lines: nothing for a blank line or a comment.\<close>

definition flush_line :: "string \<Rightarrow> string list" where
  "flush_line current =
     (let line = (if current \<noteq> [] \<and> last current = CHR 0x0D then butlast current else current); body = dropWhile is_blank line
      in if body \<noteq> [] \<and> hd body \<noteq> CHR '';'' then [line] else [])"

fun script_lines_from :: "string \<Rightarrow> string \<Rightarrow> string list" where
  "script_lines_from current [] = (if current = [] then [] else flush_line current)"
| "script_lines_from current (c # cs) =
     (if c = CHR 0x0A then flush_line current @ script_lines_from [] cs else script_lines_from (current @ [c]) cs)"

definition script_lines :: "string \<Rightarrow> string list" where
  "script_lines content = script_lines_from [] content"

section \<open>Arguments, variables and quotes\<close>

record sargs =
  sa_name :: string
  sa_positional :: "string list"
  sa_named :: "(string \<times> string) list"

definition no_args :: sargs where
  "no_args = \<lparr>sa_name = [], sa_positional = [], sa_named = []\<rparr>"

definition is_decimal :: "char \<Rightarrow> bool" where
  "is_decimal c \<longleftrightarrow> of_char c \<ge> (48 :: nat) \<and> of_char c \<le> (57 :: nat)"

definition decimal :: "char \<Rightarrow> nat" where
  "decimal c = of_char c - 48"

definition is_name_char :: "char \<Rightarrow> bool" where
  "is_name_char c \<longleftrightarrow>
     of_char c \<ge> (97 :: nat) \<and> of_char c \<le> (122 :: nat) \<or> of_char c \<ge> (65 :: nat) \<and> of_char c \<le> (90 :: nat) \<or> is_decimal c \<or> c = CHR ''_''"

definition all_digits :: "string \<Rightarrow> bool" where
  "all_digits s \<longleftrightarrow> s \<noteq> [] \<and> list_all is_decimal s"

text \<open>The value of a name: an argument by its number, a parameter of the file, or a variable. Numbers are of 64 bits.\<close>

definition arg_index :: "string \<Rightarrow> nat" where
  "arg_index name = foldl (\<lambda>i c. (i * 10 + decimal c) mod 2 ^ 64) 0 name"

definition expand :: "sargs \<Rightarrow> (string \<Rightarrow> string option) \<Rightarrow> string \<Rightarrow> string" where
  "expand args variables name =
     (if all_digits name
      then if arg_index name = 0 then sa_name args
           else if arg_index name \<le> length (sa_positional args) then sa_positional args ! (arg_index name - 1)
           else []
      else case map_of (sa_named args) name of
             Some value \<Rightarrow> value
           | None \<Rightarrow> (case variables name of Some value \<Rightarrow> value | None \<Rightarrow> []))"

record subst =
  su_words :: "string list"
  su_current :: string
  su_quoted :: bool
  su_started :: bool

definition push_word :: "subst \<Rightarrow> subst" where
  "push_word s = s\<lparr>su_words := su_words s @ [su_current s], su_current := [], su_started := False\<rparr>"

definition end_word :: "subst \<Rightarrow> subst" where
  "end_word s = (if su_started s then push_word s else s)"

definition append_char :: "char \<Rightarrow> subst \<Rightarrow> subst" where
  "append_char c s = s\<lparr>su_current := su_current s @ [c], su_started := True\<rparr>"

definition append_unquoted :: "string \<Rightarrow> subst \<Rightarrow> subst" where
  "append_unquoted v s = foldl (\<lambda>s c. if is_blank c then end_word s else append_char c s) s v"

definition append_value :: "string \<Rightarrow> subst \<Rightarrow> subst" where
  "append_value v s = (if su_quoted s then s\<lparr>su_current := su_current s @ v, su_started := True\<rparr> else append_unquoted v s)"

text \<open>The text of a name in braces and what follows it.\<close>

definition braced :: "string \<Rightarrow> (string \<times> string) option" where
  "braced rest =
     (if CHR ''}'' \<in> set rest then Some (takeWhile (\<lambda>c. c \<noteq> CHR ''}'') rest, tl (dropWhile (\<lambda>c. c \<noteq> CHR ''}'') rest)) else None)"

lemma braced_shorter: "braced rest = Some (name, after) \<Longrightarrow> length after < length rest"
proof -
  assume b: "braced rest = Some (name, after)"
  then have "dropWhile (\<lambda>c. c \<noteq> CHR ''}'') rest \<noteq> []" by (auto simp: braced_def dropWhile_eq_Nil_conv split: if_splits)
  moreover have "length (dropWhile (\<lambda>c. c \<noteq> CHR ''}'') rest) \<le> length rest" by (rule length_dropWhile_le)
  ultimately show ?thesis using b by (cases "dropWhile (\<lambda>c. c \<noteq> CHR ''}'') rest") (auto simp: braced_def split: if_splits)
qed

function subst_from :: "sargs \<Rightarrow> (string \<Rightarrow> string option) \<Rightarrow> string \<Rightarrow> subst \<Rightarrow> string + string list" where
  "subst_from args vars [] s = (if su_quoted s then Inl ''unmatched quote'' else Inr (su_words (end_word s)))"
| "subst_from args vars (c # cs) s =
     (if c = CHR 0x22 then subst_from args vars cs (s\<lparr>su_quoted := \<not> su_quoted s, su_started := True\<rparr>)
      else if c \<noteq> CHR ''$'' \<and> c \<noteq> CHR ''{''
      then subst_from args vars cs (if \<not> su_quoted s \<and> is_blank c then end_word s else append_char c s)
      else if c = CHR ''{'' \<or> cs \<noteq> [] \<and> hd cs = CHR ''{''
      then (case braced (if c = CHR ''{'' then cs else tl cs) of
              None \<Rightarrow> Inl ''unmatched brace''
            | Some (name, after) \<Rightarrow> subst_from args vars after (append_value (expand args vars name) s))
      else let name = takeWhile is_name_char cs
           in if name = [] then subst_from args vars cs (append_char c s)
              else subst_from args vars (dropWhile is_name_char cs) (append_value (expand args vars name) s))"
  by pat_completeness auto
termination
  by (relation "measure (\<lambda>(_, _, line, _). length line)")
    (auto simp: less_Suc_eq_le length_dropWhile_le dest!: braced_shorter split: if_splits)

declare subst_from.simps [simp del]

definition substitute_words :: "string \<Rightarrow> sargs \<Rightarrow> (string \<Rightarrow> string option) \<Rightarrow> string + string list" where
  "substitute_words line args vars = subst_from args vars line \<lparr>su_words = [], su_current = [], su_quoted = False, su_started = False\<rparr>"

section \<open>The parameters of a file\<close>

definition is_key_line :: "string \<Rightarrow> bool" where
  "is_key_line line \<longleftrightarrow>
     (let rest = dropWhile is_blank line
      in length rest \<ge> 4 \<and> rest ! 0 = CHR ''.'' \<and> eq_folded (take 3 (drop 1 rest)) ''KEY'' \<and> (length rest = 4 \<or> is_blank (rest ! 4)))"

definition trim_blanks :: "string \<Rightarrow> string" where
  "trim_blanks s = rev (dropWhile is_blank (rev (dropWhile is_blank s)))"

definition key_symbol :: "string \<Rightarrow> string + (string \<times> bool)" where
  "key_symbol piece =
     (let name = takeWhile (\<lambda>c. c \<noteq> CHR ''/'') piece; rest = dropWhile (\<lambda>c. c \<noteq> CHR ''/'') piece
      in if name = [] then Inl ''a .KEY parameter needs a name''
         else if rest = [] then Inr (name, False)
         else if eq_folded (tl rest) ''A'' then Inr (name, True)
         else Inl (''unsupported .KEY flag /'' @ tl rest))"

function key_pieces :: "string \<Rightarrow> string + (string \<times> bool) list" where
  "key_pieces rest =
     (let piece = trim_blanks (takeWhile (\<lambda>c. c \<noteq> CHR '','') rest); after = dropWhile (\<lambda>c. c \<noteq> CHR '','') rest;
          others = (if after = [] then Inr [] else key_pieces (tl after))
      in if piece = [] then others
         else case key_symbol piece of Inl e \<Rightarrow> Inl e | Inr k \<Rightarrow> map_sum id ((#) k) others)"
  by pat_completeness auto
termination
proof (relation "measure length")
  fix rest piece after :: string
  assume "piece = trim_blanks (takeWhile (\<lambda>c. c \<noteq> CHR '','') rest)" and a: "after = dropWhile (\<lambda>c. c \<noteq> CHR '','') rest" "after \<noteq> []"
  have "length after \<le> length rest" unfolding a(1) by (rule length_dropWhile_le)
  then show "(tl after, rest) \<in> measure length" using a(2) by (cases after) auto
qed simp

declare key_pieces.simps [simp del]

definition parse_key_list :: "string \<Rightarrow> string + (string \<times> bool) list" where
  "parse_key_list line = (if \<not> is_key_line line then Inl ''not a .KEY line'' else key_pieces (drop 4 (dropWhile is_blank line)))"

text \<open>Each declared name takes the next of the arguments, or the empty text when it may.\<close>

fun bind_from :: "(string \<times> bool) list \<Rightarrow> string list \<Rightarrow> string + (string \<times> string) list" where
  "bind_from [] supplied = Inr []"
| "bind_from (k # ks) (v # vs) = map_sum id ((#) (fst k, v)) (bind_from ks vs)"
| "bind_from (k # ks) [] =
     (if snd k then Inl (''not enough arguments: '' @ fst k @ '' is required'') else map_sum id ((#) (fst k, [])) (bind_from ks []))"

definition bind_keys :: "(string \<times> bool) list \<Rightarrow> string \<Rightarrow> string list \<Rightarrow> string + sargs" where
  "bind_keys keys script_name supplied =
     map_sum id (\<lambda>named. \<lparr>sa_name = script_name, sa_positional = supplied, sa_named = named\<rparr>) (bind_from keys supplied)"

section \<open>Aliases\<close>

text \<open>The first word of a line as it stands, and the rest after it.\<close>

definition split_word :: "string \<Rightarrow> string \<times> string" where
  "split_word line =
     (let start = dropWhile is_blank line
      in if start = [] then ([], [])
         else (takeWhile (\<lambda>c. \<not> is_blank c) start, dropWhile is_blank (dropWhile (\<lambda>c. \<not> is_blank c) start)))"

definition alias_value :: "(string \<times> string) list \<Rightarrow> string \<Rightarrow> string option" where
  "alias_value aliases word = map_option snd (find (\<lambda>a. eq_folded (fst a) word) aliases)"

lemma alias_value_in: "alias_value aliases word = Some v \<Longrightarrow> \<exists>a\<in>set aliases. eq_folded (fst a) word \<and> snd a = v"
  unfolding alias_value_def by (induction aliases) (auto split: if_splits)

definition alias_line :: "string \<Rightarrow> string \<Rightarrow> string" where
  "alias_line value rest = (if rest = [] then value else value @ '' '' @ rest)"

function expand_from :: "(string \<times> string) list \<Rightarrow> string list \<Rightarrow> string \<Rightarrow> string" where
  "expand_from aliases seen line =
     (case split_word line of (word, rest) \<Rightarrow>
        if word = [] \<or> list_ex (\<lambda>already. eq_folded already word) seen then line
        else case alias_value aliases word of
               None \<Rightarrow> line
             | Some value \<Rightarrow> expand_from aliases (seen @ [word]) (alias_line value rest))"
  by pat_completeness auto
termination
proof (relation "measure (\<lambda>(aliases, seen, line). length (filter (\<lambda>a. \<not> list_ex (\<lambda>s. eq_folded s (fst a)) seen) aliases))")
  fix aliases :: "(string \<times> string) list" and seen :: "string list" and line word rest "value"
  assume new: "\<not> (word = [] \<or> list_ex (\<lambda>already. eq_folded already word) seen)" and "alias_value aliases word = Some value"
  then obtain a where a: "a \<in> set aliases" "eq_folded (fst a) word" using alias_value_in by blast
  let ?old = "\<lambda>a. \<not> list_ex (\<lambda>s. eq_folded s (fst a)) seen" let ?new = "\<lambda>a. \<not> list_ex (\<lambda>s. eq_folded s (fst a)) (seen @ [word])"
  have "?old a" using new a(2) eq_folded_trans by (auto simp: list_ex_iff)
  moreover have "\<not> ?new a" using a(2) eq_folded_sym by auto
  moreover have "filter ?new aliases = filter ?new (filter ?old aliases)" by (auto intro: filter_cong)
  ultimately have "length (filter ?new (filter ?old aliases)) < length (filter ?old aliases)"
    using a(1) by (intro length_filter_less [of a]) auto
  then show "((aliases, seen @ [word], alias_line value rest), (aliases, seen, line)) \<in>
      measure (\<lambda>(aliases, seen, line). length (filter (\<lambda>a. \<not> list_ex (\<lambda>s. eq_folded s (fst a)) seen) aliases))"
    using \<open>filter ?new aliases = filter ?new (filter ?old aliases)\<close> by simp
qed simp

declare expand_from.simps [simp del]

definition expand_aliases :: "string \<Rightarrow> (string \<times> string) list \<Rightarrow> string" where
  "expand_aliases line aliases = expand_from aliases [] line"

section \<open>Conditions\<close>

datatype compare_op = OpEq | OpNe | OpGt | OpGe | OpLt | OpLe

datatype cond_kind = CondExists | CondWarn | CondError | CondFail | CondCompare

record condition =
  co_negate :: bool
  co_kind :: cond_kind
  co_path :: string
  co_op :: compare_op
  co_lhs :: string
  co_rhs :: string

text \<open>
  A number of 64 bits with a sign; a step that leaves the range is undefined in C++, which is the last case here.
\<close>

datatype number = NotNumber | Number int | Overflow

fun int_digits :: "int \<Rightarrow> string \<Rightarrow> number" where
  "int_digits v [] = Number v"
| "int_digits v (c # cs) =
     (if \<not> is_decimal c then NotNumber
      else if v * 10 + int (decimal c) > 2 ^ 63 - 1 then Overflow
      else int_digits (v * 10 + int (decimal c)) cs)"

definition parse_int :: "string \<Rightarrow> number" where
  "parse_int s =
     (let signed = s \<noteq> [] \<and> (hd s = CHR ''-'' \<or> hd s = CHR ''+''); digits = (if signed then tl s else s)
      in if digits = [] then NotNumber
         else case int_digits 0 digits of Number v \<Rightarrow> Number (if hd s = CHR ''-'' then - v else v) | n \<Rightarrow> n)"

definition op_from_word :: "string \<Rightarrow> compare_op option" where
  "op_from_word word =
     (if eq_folded word ''EQ'' then Some OpEq
      else if eq_folded word ''NE'' then Some OpNe
      else if eq_folded word ''GT'' then Some OpGt
      else if eq_folded word ''GE'' then Some OpGe
      else if eq_folded word ''LT'' then Some OpLt
      else if eq_folded word ''LE'' then Some OpLe
      else None)"

text \<open>\<^verbatim>\<open>std::string::compare\<close>: bytes without sign in order, then the lengths.\<close>

fun text_order :: "string \<Rightarrow> string \<Rightarrow> int" where
  "text_order [] [] = 0"
| "text_order [] (d # ds) = - 1"
| "text_order (c # cs) [] = 1"
| "text_order (c # cs) (d # ds) = (if c = d then text_order cs ds else if (of_char c :: nat) < of_char d then - 1 else 1)"

fun by_op :: "compare_op \<Rightarrow> int \<Rightarrow> int \<Rightarrow> bool" where
  "by_op OpEq a b \<longleftrightarrow> a = b"
| "by_op OpNe a b \<longleftrightarrow> a \<noteq> b"
| "by_op OpGt a b \<longleftrightarrow> a > b"
| "by_op OpGe a b \<longleftrightarrow> a \<ge> b"
| "by_op OpLt a b \<longleftrightarrow> a < b"
| "by_op OpLe a b \<longleftrightarrow> a \<le> b"

definition compare_strings :: "compare_op \<Rightarrow> string \<Rightarrow> string \<Rightarrow> bool option" where
  "compare_strings op a b =
     (let as_text = Some (by_op op (text_order (map ascii_lower a) (map ascii_lower b)) 0)
      in case parse_int a of
           NotNumber \<Rightarrow> as_text
         | Overflow \<Rightarrow> None
         | Number l \<Rightarrow> (case parse_int b of NotNumber \<Rightarrow> as_text | Overflow \<Rightarrow> None | Number r \<Rightarrow> Some (by_op op l r)))"

definition no_condition :: condition where
  "no_condition = \<lparr>co_negate = False, co_kind = CondExists, co_path = [], co_op = OpEq, co_lhs = [], co_rhs = []\<rparr>"

fun parse_condition_from :: "condition \<Rightarrow> string list \<Rightarrow> string + condition" where
  "parse_condition_from c [] = Inl ''a condition, please''"
| "parse_condition_from c (w # ws) =
     (if eq_folded w ''NOT'' then parse_condition_from (c\<lparr>co_negate := \<not> co_negate c\<rparr>) ws
      else if eq_folded w ''EXISTS''
      then if length ws \<noteq> 1 then Inl ''EXISTS takes one path'' else Inr (c\<lparr>co_kind := CondExists, co_path := hd ws\<rparr>)
      else if eq_folded w ''WARN'' \<or> eq_folded w ''ERROR'' \<or> eq_folded w ''FAIL''
      then if ws \<noteq> [] then Inl (w @ '' takes nothing else'')
           else Inr (c\<lparr>co_kind := (if eq_folded w ''WARN'' then CondWarn else if eq_folded w ''ERROR'' then CondError else CondFail)\<rparr>)
      else if length ws = 2
      then (case op_from_word (ws ! 0) of
              Some op \<Rightarrow> Inr (c\<lparr>co_kind := CondCompare, co_lhs := w, co_op := op, co_rhs := ws ! 1\<rparr>)
            | None \<Rightarrow> Inl ''unknown condition'')
      else Inl ''unknown condition'')"

definition parse_condition :: "string list \<Rightarrow> string + condition" where
  "parse_condition words = parse_condition_from no_condition words"

end
