(* ===== verification/Script_Frames.thy ===== *)
theory Script_Frames
  imports Script_Library
begin

text \<open>
  The stack of running command files, \<^verbatim>\<open>Frames\<close> of \<^verbatim>\<open>src/libs/hosted/aegir-script/src/interpreter.cc\<close>, and the control
  words as \<^verbatim>\<open>src/apps/hosted/aegir-shell/src/main.cc\<close> runs them. The innermost file is the head of the list. Where
  the shell asks the session (whether a path exists, the value of a variable) the answers are a parameter.
\<close>

section \<open>The stack\<close>

record sframe =
  fr_path :: string
  fr_lines :: "string list"
  fr_args :: sargs
  fr_next :: nat

record frames =
  fs_stack :: "sframe list"
  fs_level :: u64

definition frames_new :: frames where
  "frames_new = \<lparr>fs_stack = [], fs_level = 10\<rparr>"

definition frames_push :: "string \<Rightarrow> string list \<Rightarrow> sargs \<Rightarrow> frames \<Rightarrow> frames \<times> bool" where
  "frames_push path lines args fs =
     (if path \<noteq> [] \<and> list_ex (\<lambda>f. fr_path f = path) (fs_stack fs) then (fs, False)
      else (fs\<lparr>fs_stack := \<lparr>fr_path = path, fr_lines = lines, fr_args = args, fr_next = 0\<rparr> # fs_stack fs\<rparr>, True))"

fun next_line :: "sframe list \<Rightarrow> sframe list \<times> string option" where
  "next_line [] = ([], None)"
| "next_line (f # st) =
     (if fr_next f \<ge> length (fr_lines f) then next_line st else (f\<lparr>fr_next := Suc (fr_next f)\<rparr> # st, Some (fr_lines f ! fr_next f)))"

definition frames_next :: "frames \<Rightarrow> frames \<times> string option" where
  "frames_next fs = (case next_line (fs_stack fs) of (st, line) \<Rightarrow> (fs\<lparr>fs_stack := st\<rparr>, line))"

definition current_arguments :: "frames \<Rightarrow> sargs option" where
  "current_arguments fs = (case fs_stack fs of [] \<Rightarrow> None | f # _ \<Rightarrow> Some (fr_args f))"

definition set_cursor :: "(sframe \<Rightarrow> nat option) \<Rightarrow> frames \<Rightarrow> frames \<times> bool" where
  "set_cursor where_to fs =
     (case fs_stack fs of
        [] \<Rightarrow> (fs, False)
      | f # st \<Rightarrow> (case where_to f of None \<Rightarrow> (fs, False) | Some i \<Rightarrow> (fs\<lparr>fs_stack := f\<lparr>fr_next := i\<rparr> # st\<rparr>, True)))"

fun label_scan :: "string \<Rightarrow> string list \<Rightarrow> nat \<Rightarrow> nat option" where
  "label_scan name [] i = None"
| "label_scan name (line # lines) i =
     (if control_word line = ''lab'' \<and> eq_folded (after_first_word line) name then Some (Suc i) else label_scan name lines (Suc i))"

definition jump_to_label :: "string \<Rightarrow> frames \<Rightarrow> frames \<times> bool" where
  "jump_to_label name = set_cursor (\<lambda>f. label_scan name (fr_lines f) 0)"

text \<open>The two scans over a block differ in whether an \<^verbatim>\<open>Else\<close> of the same depth ends them.\<close>

fun skip_scan :: "bool \<Rightarrow> string list \<Rightarrow> nat \<Rightarrow> nat \<Rightarrow> nat option" where
  "skip_scan at_else [] i depth = None"
| "skip_scan at_else (line # lines) i depth =
     (if control_word line = ''if'' then skip_scan at_else lines (Suc i) (Suc depth)
      else if control_word line = ''endif'' then if depth = 0 then Some (Suc i) else skip_scan at_else lines (Suc i) (depth - 1)
      else if at_else \<and> control_word line = ''else'' \<and> depth = 0 then Some (Suc i)
      else skip_scan at_else lines (Suc i) depth)"

definition skip_to_else_or_endif :: "frames \<Rightarrow> frames \<times> bool" where
  "skip_to_else_or_endif = set_cursor (\<lambda>f. skip_scan True (drop (fr_next f) (fr_lines f)) (fr_next f) 0)"

definition skip_to_endif :: "frames \<Rightarrow> frames \<times> bool" where
  "skip_to_endif = set_cursor (\<lambda>f. skip_scan False (drop (fr_next f) (fr_lines f)) (fr_next f) 0)"

definition frames_abort :: "frames \<Rightarrow> frames \<times> bool" where
  "frames_abort fs = (if fs_stack fs = [] then (fs, False) else (fs\<lparr>fs_stack := tl (fs_stack fs)\<rparr>, True))"

definition set_fail_level :: "u64 \<Rightarrow> frames \<Rightarrow> frames" where
  "set_fail_level level fs = fs\<lparr>fs_level := level\<rparr>"

definition fails :: "u64 \<Rightarrow> u64 \<Rightarrow> bool" where
  "fails status level \<longleftrightarrow> level \<noteq> 0 \<and> status \<ge> level"

section \<open>The control words\<close>

record shell =
  sh_frames :: frames
  sh_status :: u64
  sh_last :: u64

text \<open>What the session answers while a line runs.\<close>

record world =
  wo_vars :: "string \<Rightarrow> string option"
  wo_exists :: "string \<Rightarrow> bool"

definition condition_holds :: "world \<Rightarrow> condition \<Rightarrow> shell \<Rightarrow> bool option" where
  "condition_holds w c sh =
     map_option (\<lambda>v. if co_negate c then \<not> v else v)
       (case co_kind c of
          CondExists \<Rightarrow> Some (wo_exists w (co_path c))
        | CondWarn \<Rightarrow> Some (sh_last sh \<ge> 5)
        | CondError \<Rightarrow> Some (sh_last sh \<ge> 10)
        | CondFail \<Rightarrow> Some (sh_last sh \<ge> 20)
        | CondCompare \<Rightarrow> compare_strings (co_op c) (co_lhs c) (co_rhs c))"

definition command_lab :: "string \<Rightarrow> shell \<Rightarrow> shell" where
  "command_lab rest sh = (if rest = [] then sh\<lparr>sh_status := 10\<rparr> else sh)"

definition command_skip :: "string \<Rightarrow> shell \<Rightarrow> shell" where
  "command_skip rest sh =
     (let name = fst (split_word rest)
      in if name = [] then sh\<lparr>sh_status := 10\<rparr>
         else case jump_to_label name (sh_frames sh) of (fs, ok) \<Rightarrow> if ok then sh\<lparr>sh_frames := fs\<rparr> else sh\<lparr>sh_status := 10\<rparr>)"

definition if_condition :: "world \<Rightarrow> string \<Rightarrow> sargs option \<Rightarrow> string + condition" where
  "if_condition w rest args =
     (case substitute_words rest (case args of Some a \<Rightarrow> a | None \<Rightarrow> no_args) (wo_vars w) of
        Inl e \<Rightarrow> Inl e
      | Inr words \<Rightarrow> parse_condition words)"

definition command_if :: "world \<Rightarrow> string \<Rightarrow> shell \<Rightarrow> shell option" where
  "command_if w rest sh =
     (case if_condition w rest (current_arguments (sh_frames sh)) of
        Inl _ \<Rightarrow> Some (sh\<lparr>sh_status := 10, sh_frames := fst (skip_to_endif (sh_frames sh))\<rparr>)
      | Inr c \<Rightarrow>
          (case condition_holds w c sh of
             None \<Rightarrow> None
           | Some True \<Rightarrow> Some sh
           | Some False \<Rightarrow>
               (case skip_to_else_or_endif (sh_frames sh) of (fs, ok) \<Rightarrow>
                  Some (if ok then sh\<lparr>sh_frames := fs\<rparr> else sh\<lparr>sh_status := 20\<rparr>))))"

definition command_else :: "shell \<Rightarrow> shell" where
  "command_else sh = (case skip_to_endif (sh_frames sh) of (fs, ok) \<Rightarrow> if ok then sh\<lparr>sh_frames := fs\<rparr> else sh\<lparr>sh_status := 20\<rparr>)"

text \<open>
  \<^verbatim>\<open>run_line\<close> on a line whose first word is a control word; \<open>None\<close> when a comparison in it is undefined.
\<close>

definition run_control :: "world \<Rightarrow> string \<Rightarrow> shell \<Rightarrow> shell option" where
  "run_control w line sh =
     (let control = control_word line; rest = snd (split_word line); sh0 = sh\<lparr>sh_status := 0\<rparr>
      in if control = ''lab'' then Some (command_lab rest sh0)
         else if control = ''skip'' then Some (command_skip rest sh0)
         else if control = ''if'' then command_if w rest sh0
         else if control = ''else'' then Some (command_else sh0)
         else Some sh0)"

text \<open>
  What the loop does when a line finished: the status is the last one, and a failing one ends the file. The
  flag that reports a failed boot script is left out.
\<close>

definition after_line :: "shell \<Rightarrow> shell" where
  "after_line sh =
     (let sh1 = sh\<lparr>sh_last := sh_status sh\<rparr>; fs = sh_frames sh
      in if fs_stack fs \<noteq> [] \<and> fails (sh_status sh) (fs_level fs) then sh1\<lparr>sh_frames := fst (frames_abort fs)\<rparr> else sh1)"

section \<open>A file as a nested program\<close>

text \<open>
  The reference: command files with their blocks as a tree, the lines such a program is written as, and what
  running the tree means. The worlds and the statuses of the commands are given by the number of the step.
\<close>

datatype program =
    Stop
  | Do string program
  | IfThen string program string program
  | IfElse string program string program string program

primrec render :: "program \<Rightarrow> string list" where
  "render Stop = []"
| "render (Do l k) = l # render k"
| "render (IfThen i b e k) = i # render b @ e # render k"
| "render (IfElse i b l b2 e k) = i # render b @ l # render b2 @ e # render k"

primrec well_nested :: "program \<Rightarrow> bool" where
  "well_nested Stop \<longleftrightarrow> True"
| "well_nested (Do l k) \<longleftrightarrow> control_word l = [] \<and> well_nested k"
| "well_nested (IfThen i b e k) \<longleftrightarrow> control_word i = ''if'' \<and> control_word e = ''endif'' \<and> well_nested b \<and> well_nested k"
| "well_nested (IfElse i b l b2 e k) \<longleftrightarrow>
     control_word i = ''if'' \<and> control_word l = ''else'' \<and> control_word e = ''endif'' \<and> well_nested b \<and> well_nested b2 \<and> well_nested k"

text \<open>
  The lines that are run as commands, the step and the status at the end, and whether the file was ended by a
  failing status. After the \<^verbatim>\<open>If\<close> of a block, and after the \<^verbatim>\<open>Else\<close> or \<^verbatim>\<open>EndIf\<close> that ends a body, the status is 0.
\<close>

type_synonym run_outcome = "string list \<times> nat \<times> u64 \<times> bool"

definition bind_run :: "run_outcome option \<Rightarrow> (nat \<Rightarrow> u64 \<Rightarrow> run_outcome option) \<Rightarrow> run_outcome option" where
  "bind_run r k =
     (case r of
        None \<Rightarrow> None
      | Some (t, n, rc, stopped) \<Rightarrow> if stopped then Some (t, n, rc, True) else map_option (\<lambda>(t', x). (t @ t', x)) (k n rc))"

definition status_run :: "u64 \<Rightarrow> u64 \<Rightarrow> string list \<Rightarrow> nat \<Rightarrow> run_outcome option" where
  "status_run level status t n = Some (t, n, status, fails status level)"

definition test_of :: "(nat \<Rightarrow> world) \<Rightarrow> sargs \<Rightarrow> string \<Rightarrow> nat \<Rightarrow> u64 \<Rightarrow> bool option option" where
  "test_of w args i n rc =
     (case if_condition (w n) (snd (split_word i)) (Some args) of
        Inl _ \<Rightarrow> Some None
      | Inr c \<Rightarrow> map_option Some (condition_holds (w n) c \<lparr>sh_frames = frames_new, sh_status = 0, sh_last = rc\<rparr>))"

primrec meaning :: "(nat \<Rightarrow> world) \<Rightarrow> (nat \<Rightarrow> u64) \<Rightarrow> sargs \<Rightarrow> u64 \<Rightarrow> program \<Rightarrow> nat \<Rightarrow> u64 \<Rightarrow> run_outcome option" where
  "meaning w st args level Stop n rc = Some ([], n, rc, False)"
| "meaning w st args level (Do l k) n rc = bind_run (status_run level (st n) [l] (Suc n)) (meaning w st args level k)"
| "meaning w st args level (IfThen i b e k) n rc =
     (case test_of w args i n rc of
        None \<Rightarrow> None
      | Some None \<Rightarrow> bind_run (status_run level 10 [] (Suc n)) (meaning w st args level k)
      | Some (Some True) \<Rightarrow> bind_run (meaning w st args level b (Suc n) 0) (\<lambda>n _. meaning w st args level k (Suc n) 0)
      | Some (Some False) \<Rightarrow> meaning w st args level k (Suc n) 0)"
| "meaning w st args level (IfElse i b l b2 e k) n rc =
     (case test_of w args i n rc of
        None \<Rightarrow> None
      | Some None \<Rightarrow> bind_run (status_run level 10 [] (Suc n)) (meaning w st args level k)
      | Some (Some True) \<Rightarrow> bind_run (meaning w st args level b (Suc n) 0) (\<lambda>n _. meaning w st args level k (Suc n) 0)
      | Some (Some False) \<Rightarrow> bind_run (meaning w st args level b2 (Suc n) 0) (\<lambda>n _. meaning w st args level k (Suc n) 0))"

text \<open>
  The loop over the lines of the files: a line with a control word is run as above, any other line is a command
  that is recorded and ends with the status of its step. The fuel bounds the number of lines run.
\<close>

fun drive :: "nat \<Rightarrow> (nat \<Rightarrow> world) \<Rightarrow> (nat \<Rightarrow> u64) \<Rightarrow> nat \<Rightarrow> shell \<Rightarrow> string list option" where
  "drive fuel w st n sh =
     (case frames_next (sh_frames sh) of
        (fs, None) \<Rightarrow> Some []
      | (fs, Some line) \<Rightarrow>
          (case fuel of
             0 \<Rightarrow> None
           | Suc m \<Rightarrow>
               if control_word line = []
               then map_option ((#) line) (drive m w st (Suc n) (after_line (sh\<lparr>sh_frames := fs, sh_status := st n\<rparr>)))
               else case run_control (w n) line (sh\<lparr>sh_frames := fs\<rparr>) of
                      None \<Rightarrow> None
                    | Some sh' \<Rightarrow> drive m w st (Suc n) (after_line sh')))"

declare drive.simps [simp del]

end
