(* ===== verification/Script_Proofs.thy ===== *)
theory Script_Proofs
  imports Script_Frames
begin

text \<open>
  The script library does what a nested program, a template and an alias table mean: jumps over lines follow
  the blocks, quoted templates come out as the values of their pieces, and the alias walk ends at a line whose
  first word it may not replace.
\<close>

section \<open>Blocks\<close>

lemma scan_block: "well_nested b \<Longrightarrow> skip_scan e (render b @ rest) i d = skip_scan e rest (i + length (render b)) d"
  by (induction b arbitrary: rest i d) (auto simp: add.assoc)

definition standing :: "string \<Rightarrow> string list \<Rightarrow> sargs \<Rightarrow> u64 \<Rightarrow> nat \<Rightarrow> u64 \<Rightarrow> shell" where
  "standing path lines args level pos rc =
     \<lparr>sh_frames = \<lparr>fs_stack = [\<lparr>fr_path = path, fr_lines = lines, fr_args = args, fr_next = pos\<rparr>], fs_level = level\<rparr>, sh_status = 0, sh_last = rc\<rparr>"

text \<open>The status a line left is cleared before the next one runs.\<close>

lemma drive_status: "drive fuel w st n (sh\<lparr>sh_status := x\<rparr>) = drive fuel w st n sh"
proof -
  have "run_control v line (sh\<lparr>sh_status := x, sh_frames := fs\<rparr>) = run_control v line (sh\<lparr>sh_frames := fs\<rparr>)" for v line fs
    by (simp add: run_control_def Let_def)
  then show ?thesis by (subst (1 2) drive.simps) (simp split: option.splits nat.splits prod.splits)
qed

lemma drive_empty: "fs_stack (sh_frames sh) = [] \<Longrightarrow> drive fuel w st n sh = Some []"
  by (simp add: drive.simps frames_next_def)

lemma fails_zero [simp]: "\<not> fails 0 level"
  by (simp add: fails_def)

text \<open>What follows a line that ended with a status at a place.\<close>

definition onward :: "string \<Rightarrow> string list \<Rightarrow> sargs \<Rightarrow> u64 \<Rightarrow> nat \<Rightarrow> (nat \<Rightarrow> world) \<Rightarrow> (nat \<Rightarrow> u64) \<Rightarrow> nat \<Rightarrow> nat \<Rightarrow> u64 \<Rightarrow> string list option" where
  "onward path lines args level fuel w st n pos rc =
     (if fails rc level then Some [] else drive fuel w st n (standing path lines args level pos rc))"

lemma after_line_onward:
  assumes "sh_frames sh = \<lparr>fs_stack = [\<lparr>fr_path = path, fr_lines = lines, fr_args = args, fr_next = pos\<rparr>], fs_level = level\<rparr>"
  shows "drive fuel w st n (after_line sh) = onward path lines args level fuel w st n pos (sh_status sh)"
proof (cases "fails (sh_status sh) level")
  case True
  then have "fs_stack (sh_frames (after_line sh)) = []" using assms by (simp add: after_line_def Let_def frames_abort_def)
  then show ?thesis using True by (simp add: drive_empty onward_def)
next
  case False
  then have "(after_line sh)\<lparr>sh_status := 0\<rparr> = standing path lines args level pos (sh_status sh)"
    using assms by (cases sh) (simp add: after_line_def Let_def standing_def)
  then show ?thesis using False drive_status [where sh = "after_line sh" and x = 0] by (simp add: onward_def)
qed

section \<open>One line\<close>

lemma drive_plain:
  assumes "pos < length lines" and "control_word (lines ! pos) = []"
  shows "drive (Suc m) w st n (standing path lines args level pos rc) =
    map_option ((#) (lines ! pos)) (onward path lines args level m w st (Suc n) (Suc pos) (st n))"
  using assms after_line_onward [of _ path lines args "Suc pos" level]
  by (subst drive.simps) (simp add: standing_def frames_next_def)

lemma drive_endif:
  assumes "pos < length lines" and "control_word (lines ! pos) = ''endif''"
  shows "drive (Suc m) w st n (standing path lines args level pos rc) = drive m w st (Suc n) (standing path lines args level (Suc pos) 0)"
  using assms after_line_onward [of _ path lines args "Suc pos" level]
  by (subst drive.simps) (simp add: standing_def frames_next_def run_control_def Let_def onward_def)

lemma drive_else:
  assumes "pos < length lines" and "control_word (lines ! pos) = ''else''" and "skip_scan False (drop (Suc pos) lines) (Suc pos) 0 = Some j"
  shows "drive (Suc m) w st n (standing path lines args level pos rc) = drive m w st (Suc n) (standing path lines args level j 0)"
  using assms after_line_onward [of _ path lines args j level]
  by (subst drive.simps) (simp add: standing_def frames_next_def run_control_def Let_def onward_def command_else_def skip_to_endif_def set_cursor_def)

lemma drive_if:
  assumes "pos < length lines" and "control_word (lines ! pos) = ''if''"
    and "skip_scan False (drop (Suc pos) lines) (Suc pos) 0 = Some j" and "skip_scan True (drop (Suc pos) lines) (Suc pos) 0 = Some k"
  shows "drive (Suc m) w st n (standing path lines args level pos rc) =
    (case test_of w args (lines ! pos) n rc of
       None \<Rightarrow> None
     | Some None \<Rightarrow> onward path lines args level m w st (Suc n) j 10
     | Some (Some True) \<Rightarrow> drive m w st (Suc n) (standing path lines args level (Suc pos) 0)
     | Some (Some False) \<Rightarrow> drive m w st (Suc n) (standing path lines args level k 0))"
proof -
  let ?fr = "\<lambda>p. \<lparr>fs_stack = [\<lparr>fr_path = path, fr_lines = lines, fr_args = args, fr_next = p\<rparr>], fs_level = level\<rparr>"
  let ?sh = "\<lparr>sh_frames = ?fr (Suc pos), sh_status = 0, sh_last = rc\<rparr>"
  have c: "condition_holds (w n) c ?sh = condition_holds (w n) c \<lparr>sh_frames = frames_new, sh_status = 0, sh_last = rc\<rparr>" for c
    by (simp add: condition_holds_def split: cond_kind.splits)
  have step: "drive (Suc m) w st n (standing path lines args level pos rc) =
      (case command_if (w n) (snd (split_word (lines ! pos))) ?sh of None \<Rightarrow> None | Some sh' \<Rightarrow> drive m w st (Suc n) (after_line sh'))"
    using assms(1,2) by (subst drive.simps) (simp add: standing_def frames_next_def run_control_def Let_def)
  have skips: "skip_to_endif (?fr (Suc pos)) = (?fr j, True)" "skip_to_else_or_endif (?fr (Suc pos)) = (?fr k, True)"
    using assms(3,4) by (simp_all add: skip_to_endif_def skip_to_else_or_endif_def set_cursor_def)
  have onw: "drive m w st (Suc n) (after_line \<lparr>sh_frames = ?fr p, sh_status = s, sh_last = rc\<rparr>) = onward path lines args level m w st (Suc n) p s" for p s
    using after_line_onward [of "\<lparr>sh_frames = ?fr p, sh_status = s, sh_last = rc\<rparr>" path lines args p level] by simp
  show ?thesis
  proof (cases "if_condition (w n) (snd (split_word (lines ! pos))) (Some args)")
    case (Inl e)
    then show ?thesis using step onw [of j 10] by (simp add: command_if_def current_arguments_def skips test_of_def)
  next
    case (Inr cond)
    then show ?thesis using step c [of cond] onw [of "Suc pos" 0] onw [of k 0]
      by (auto simp: command_if_def current_arguments_def skips test_of_def onward_def split: option.splits bool.splits)
  qed
qed

section \<open>The whole program\<close>

definition run_then :: "run_outcome option \<Rightarrow> (nat \<Rightarrow> u64 \<Rightarrow> string list option) \<Rightarrow> string list option" where
  "run_then r k = (case r of None \<Rightarrow> None | Some (t, n, rc, stopped) \<Rightarrow> if stopped then Some t else map_option ((@) t) (k n rc))"

lemma run_then_simps [simp]:
  "run_then None k = None" "run_then (Some (t, n, rc, stopped)) k = (if stopped then Some t else map_option ((@) t) (k n rc))"
  by (simp_all add: run_then_def)

lemma run_then_bind: "run_then (bind_run r f) k = run_then r (\<lambda>n rc. run_then (f n rc) k)"
proof (cases r)
  case (Some x)
  obtain t n rc b where x: "x = (t, n, rc, b)" by (rule prod_cases4)
  have "map_option ((@) (t @ u)) z = map_option ((@) t) (map_option ((@) u) z)" for u z by (cases z) auto
  then show ?thesis by (cases b; cases "f n rc") (auto simp: Some x bind_run_def run_then_def)
qed (simp add: bind_run_def)

text \<open>
  From the place of a program inside a file, with fuel for every line that is left, the loop does what the
  program means and goes on behind it.
\<close>

definition carries :: "string \<Rightarrow> string list \<Rightarrow> sargs \<Rightarrow> u64 \<Rightarrow> (nat \<Rightarrow> world) \<Rightarrow> (nat \<Rightarrow> u64) \<Rightarrow> run_outcome option \<Rightarrow> nat \<Rightarrow> string list option \<Rightarrow> bool" where
  "carries path lines args level w st r pos' result \<longleftrightarrow>
     (\<exists>f. length lines - pos' \<le> f \<and> result = run_then r (\<lambda>n rc. drive f w st n (standing path lines args level pos' rc)))"

lemma carries_bind:
  assumes "carries path lines args level w st r p1 result"
    and "\<And>f t n rc. r = Some (t, n, rc, False) \<Longrightarrow> length lines - p1 \<le> f \<Longrightarrow>
           carries path lines args level w st (k n rc) p2 (drive f w st n (standing path lines args level p1 rc))"
  shows "carries path lines args level w st (bind_run r k) p2 result"
proof -
  obtain f where f: "length lines - p1 \<le> f" "result = run_then r (\<lambda>n rc. drive f w st n (standing path lines args level p1 rc))"
    using assms(1) carries_def by blast
  show ?thesis
  proof (cases "\<exists>t n rc. r = Some (t, n, rc, False)")
    case True
    then obtain t n rc where r: "r = Some (t, n, rc, False)" by blast
    then obtain g where "length lines - p2 \<le> g" "drive f w st n (standing path lines args level p1 rc) = run_then (k n rc) (\<lambda>n rc. drive g w st n (standing path lines args level p2 rc))"
      using assms(2) [OF r f(1)] carries_def by blast
    then show ?thesis unfolding carries_def by (intro exI [of _ g]) (simp add: run_then_bind f(2) r)
  next
    case False
    then have "result = run_then (bind_run r k) (\<lambda>n rc. drive g w st n (standing path lines args level p2 rc))" for g
      using f(2) by (auto simp: run_then_def bind_run_def split: option.splits)
    then show ?thesis unfolding carries_def by (intro exI [of _ "length lines - p2"]) simp
  qed
qed

lemma carries_here: "length lines - pos \<le> f \<Longrightarrow> carries path lines args level w st (Some ([], n, rc, False)) pos (drive f w st n (standing path lines args level pos rc))"
  unfolding carries_def by (intro exI [of _ f]) (cases "drive f w st n (standing path lines args level pos rc)", auto)

lemma carries_status:
  assumes "length lines - pos \<le> f"
  shows "carries path lines args level w st (status_run level rc t n) pos (map_option ((@) t) (onward path lines args level f w st n pos rc))"
  unfolding carries_def status_run_def onward_def using assms by (intro exI [of _ f]) simp

lemma carries_none: "carries path lines args level w st None pos None"
  unfolding carries_def by (intro exI [of _ "length lines"]) simp

lemma carries_cong: "carries path lines args level w st r pos x \<Longrightarrow> x = y \<Longrightarrow> carries path lines args level w st r pos y"
  by simp

lemma cons_append: "(@) [l] = (#) l" "map_option ((@) []) x = x"
  by (simp_all add: fun_eq_iff) (cases x; simp)

text \<open>A body, and the line that ends it; and the line that begins a block.\<close>

lemma carries_body:
  assumes b: "carries path lines args level w st r p result" and p: "p < length lines" "p < j"
    and closing: "\<And>g n rc. drive (Suc g) w st n (standing path lines args level p rc) = drive g w st (Suc n) (standing path lines args level j 0)"
    and k: "\<And>f n rc. length lines - j \<le> f \<Longrightarrow> carries path lines args level w st (K n rc) p' (drive f w st n (standing path lines args level j rc))"
  shows "carries path lines args level w st (bind_run r (\<lambda>n _. K (Suc n) 0)) p' result"
  using b
proof (rule carries_bind)
  fix f n rc assume f: "length lines - p \<le> f"
  then obtain g where g: "f = Suc g" using p(1) by (cases f) auto
  have "length lines - j \<le> g" using f g p by simp
  then show "carries path lines args level w st (K (Suc n) 0) p' (drive f w st n (standing path lines args level p rc))"
    using k closing [of g n rc] g by simp
qed

lemma carries_if:
  assumes at: "pos < length lines" "control_word (lines ! pos) = ''if''"
    and scans: "skip_scan False (drop (Suc pos) lines) (Suc pos) 0 = Some j" "skip_scan True (drop (Suc pos) lines) (Suc pos) 0 = Some e"
    and yes: "carries path lines args level w st R1 p (drive m w st (Suc n) (standing path lines args level (Suc pos) 0))"
    and no: "carries path lines args level w st R2 p (drive m w st (Suc n) (standing path lines args level e 0))"
    and k: "\<And>f n rc. length lines - j \<le> f \<Longrightarrow> carries path lines args level w st (K n rc) p (drive f w st n (standing path lines args level j rc))"
    and m: "length lines - j \<le> m"
  shows "carries path lines args level w st
    (case test_of w args (lines ! pos) n rc of None \<Rightarrow> None | Some None \<Rightarrow> bind_run (status_run level 10 [] (Suc n)) K | Some (Some True) \<Rightarrow> R1 | Some (Some False) \<Rightarrow> R2)
    p (drive (Suc m) w st n (standing path lines args level pos rc))"
proof -
  note step = drive_if [OF at scans, of m w st n path args level rc]
  have bad: "carries path lines args level w st (bind_run (status_run level 10 [] (Suc n)) K) p (onward path lines args level m w st (Suc n) j 10)"
    using carries_status [OF m, of path args level w st 10 "[]" "Suc n"] k
    by (intro carries_bind [of path lines args level w st _ j]) (simp_all add: cons_append(2))
  show ?thesis
  proof (cases "test_of w args (lines ! pos) n rc")
    case None
    then show ?thesis using step carries_none by simp
  next
    case (Some t)
    then show ?thesis using step bad yes no by (cases t) (auto split: bool.splits)
  qed
qed

lemma nth_at: "lines = pre @ l # rest \<Longrightarrow> lines ! length pre = l \<and> length pre < length lines \<and> drop (Suc (length pre)) lines = rest"
  by simp

definition runs :: "string \<Rightarrow> string list \<Rightarrow> sargs \<Rightarrow> u64 \<Rightarrow> (nat \<Rightarrow> world) \<Rightarrow> (nat \<Rightarrow> u64) \<Rightarrow> program \<Rightarrow> bool" where
  "runs path lines args level w st s \<longleftrightarrow>
     (\<forall>pre post fuel n rc. lines = pre @ render s @ post \<longrightarrow> length lines - length pre \<le> fuel \<longrightarrow>
        carries path lines args level w st (meaning w st args level s n rc) (length pre + length (render s)) (drive fuel w st n (standing path lines args level (length pre) rc)))"

lemma runsD:
  "runs path lines args level w st s \<Longrightarrow> lines = pre @ render s @ post \<Longrightarrow> length lines - length pre \<le> fuel \<Longrightarrow>
   carries path lines args level w st (meaning w st args level s n rc) (length pre + length (render s)) (drive fuel w st n (standing path lines args level (length pre) rc))"
  unfolding runs_def by blast

lemma runs_Do:
  assumes c: "control_word l = []" and k: "runs path lines args level w st k"
  shows "runs path lines args level w st (Do l k)"
  unfolding runs_def
proof (intro allI impI)
  fix pre post fuel n rc
  assume lines: "lines = pre @ render (Do l k) @ post" and fuel: "length lines - length pre \<le> fuel"
  have at: "lines = pre @ l # (render k @ post)" using lines by simp
  obtain m where m: "fuel = Suc m" using fuel at by (cases fuel) auto
  have len: "length lines - Suc (length pre) \<le> m" using fuel m by simp
  have "drive fuel w st n (standing path lines args level (length pre) rc) =
      map_option ((@) [l]) (onward path lines args level m w st (Suc n) (Suc (length pre)) (st n))"
    using drive_plain [of "length pre" lines m] nth_at [OF at] c m by (simp add: cons_append(1))
  then have "carries path lines args level w st (status_run level (st n) [l] (Suc n)) (Suc (length pre)) (drive fuel w st n (standing path lines args level (length pre) rc))"
    using carries_status [OF len] by simp
  then show "carries path lines args level w st (meaning w st args level (Do l k) n rc) (length pre + length (render (Do l k))) (drive fuel w st n (standing path lines args level (length pre) rc))"
    unfolding meaning.simps
  proof (rule carries_bind)
    fix f n rc assume "length lines - Suc (length pre) \<le> f"
    then show "carries path lines args level w st (meaning w st args level k n rc) (length pre + length (render (Do l k))) (drive f w st n (standing path lines args level (Suc (length pre)) rc))"
      using runsD [OF k, of "pre @ [l]" post f n rc] at by simp
  qed
qed

lemma runs_IfThen:
  assumes wf: "well_nested b" "control_word i = ''if''" "control_word e = ''endif''" and IH: "runs path lines args level w st b" "runs path lines args level w st k"
  shows "runs path lines args level w st (IfThen i b e k)"
  unfolding runs_def
proof (intro allI impI)
  fix pre post fuel n rc
  assume lines: "lines = pre @ render (IfThen i b e k) @ post" and fuel: "length lines - length pre \<le> fuel"
  have at: "lines = pre @ i # (render b @ e # render k @ post)" using lines by simp
  obtain m where m: "fuel = Suc m" using fuel at by (cases fuel) auto
  let ?e = "Suc (length pre) + length (render b)" let ?j = "Suc ?e" let ?p = "length pre + length (render (IfThen i b e k))"
  have scan: "skip_scan x (drop (Suc (length pre)) lines) (Suc (length pre)) 0 = Some ?j" for x
    using nth_at [OF at] wf by (simp add: scan_block)
  have k: "carries path lines args level w st (meaning w st args level k n rc) ?p (drive f w st n (standing path lines args level ?j rc))"
    if "length lines - ?j \<le> f" for f n rc
    using runsD [OF IH(2), of "pre @ i # render b @ [e]" post f n rc] that at by (simp add: add.assoc)
  have b: "carries path lines args level w st (meaning w st args level b (Suc n) 0) ?e (drive m w st (Suc n) (standing path lines args level (Suc (length pre)) 0))"
    using runsD [OF IH(1), of "pre @ [i]" "e # render k @ post" m "Suc n" 0] fuel m at by simp
  have e: "lines ! ?e = e" "?e < length lines"
    using nth_at [of lines "pre @ i # render b" e "render k @ post"] at by simp_all
  have yes: "carries path lines args level w st (bind_run (meaning w st args level b (Suc n) 0) (\<lambda>n _. meaning w st args level k (Suc n) 0))
      ?p (drive m w st (Suc n) (standing path lines args level (Suc (length pre)) 0))"
    by (rule carries_body [where K = "meaning w st args level k", OF b e(2) _ _ k]) (use drive_endif [OF e(2)] e(1) wf(3) in auto)
  have len: "length lines - ?j \<le> m" using fuel m by simp
  show "carries path lines args level w st (meaning w st args level (IfThen i b e k) n rc) ?p (drive fuel w st n (standing path lines args level (length pre) rc))"
    using carries_if [where K = "meaning w st args level k", OF _ _ scan scan yes k k len, of rc] nth_at [OF at] wf(2) m len by simp
qed

lemma runs_IfElse:
  assumes wf: "well_nested b" "well_nested b2" "control_word i = ''if''" "control_word l = ''else''" "control_word e = ''endif''"
    and IH: "runs path lines args level w st b" "runs path lines args level w st b2" "runs path lines args level w st k"
  shows "runs path lines args level w st (IfElse i b l b2 e k)"
  unfolding runs_def
proof (intro allI impI)
  fix pre post fuel n rc
  assume lines: "lines = pre @ render (IfElse i b l b2 e k) @ post" and fuel: "length lines - length pre \<le> fuel"
  have at: "lines = pre @ i # (render b @ l # render b2 @ e # render k @ post)" using lines by simp
  obtain m where m: "fuel = Suc m" using fuel at by (cases fuel) auto
  let ?l = "Suc (length pre) + length (render b)" let ?e = "Suc ?l + length (render b2)" let ?j = "Suc ?e" let ?p = "length pre + length (render (IfElse i b l b2 e k))"
  have scan: "skip_scan False (drop (Suc (length pre)) lines) (Suc (length pre)) 0 = Some ?j" "skip_scan True (drop (Suc (length pre)) lines) (Suc (length pre)) 0 = Some (Suc ?l)"
    using nth_at [OF at] wf by (simp_all add: scan_block)
  have k: "carries path lines args level w st (meaning w st args level k n rc) ?p (drive f w st n (standing path lines args level ?j rc))"
    if "length lines - ?j \<le> f" for f n rc
    using runsD [OF IH(3), of "pre @ i # render b @ l # render b2 @ [e]" post f n rc] that at by (simp add: add.assoc)
  have b: "carries path lines args level w st (meaning w st args level b (Suc n) 0) ?l (drive m w st (Suc n) (standing path lines args level (Suc (length pre)) 0))"
    using runsD [OF IH(1), of "pre @ [i]" "l # render b2 @ e # render k @ post" m "Suc n" 0] fuel m at by simp
  have b2: "carries path lines args level w st (meaning w st args level b2 (Suc n) 0) ?e (drive m w st (Suc n) (standing path lines args level (Suc ?l) 0))"
    using runsD [OF IH(2), of "pre @ i # render b @ [l]" "e # render k @ post" m "Suc n" 0] fuel m at by (simp add: add.assoc)
  have l: "lines ! ?l = l" "?l < length lines" "drop (Suc ?l) lines = render b2 @ e # render k @ post"
    using nth_at [of lines "pre @ i # render b" l "render b2 @ e # render k @ post"] at by simp_all
  have e: "lines ! ?e = e" "?e < length lines"
    using nth_at [of lines "pre @ i # render b @ l # render b2" e "render k @ post"] at by (simp_all add: add.assoc)
  have sl: "skip_scan False (drop (Suc ?l) lines) (Suc ?l) 0 = Some ?j" unfolding l(3) using wf by (simp add: scan_block)
  have yes: "carries path lines args level w st (bind_run (meaning w st args level b (Suc n) 0) (\<lambda>n _. meaning w st args level k (Suc n) 0))
      ?p (drive m w st (Suc n) (standing path lines args level (Suc (length pre)) 0))"
    by (rule carries_body [where K = "meaning w st args level k", OF b l(2) _ _ k]) (use drive_else [OF l(2) _ sl] l(1) wf(4) in auto)
  have no: "carries path lines args level w st (bind_run (meaning w st args level b2 (Suc n) 0) (\<lambda>n _. meaning w st args level k (Suc n) 0))
      ?p (drive m w st (Suc n) (standing path lines args level (Suc ?l) 0))"
    by (rule carries_body [where K = "meaning w st args level k", OF b2 e(2) _ _ k]) (use drive_endif [OF e(2)] e(1) wf(5) in auto)
  have len: "length lines - ?j \<le> m" using fuel m by simp
  show "carries path lines args level w st (meaning w st args level (IfElse i b l b2 e k) n rc) ?p (drive fuel w st n (standing path lines args level (length pre) rc))"
    using carries_if [where K = "meaning w st args level k", OF _ _ scan yes no k len, of rc] nth_at [OF at] wf(3) m by simp
qed

lemma drive_program: "well_nested s \<Longrightarrow> runs path lines args level w st s"
proof (induction s)
  case Stop
  then show ?case unfolding runs_def using carries_here by simp
next
  case (Do l k)
  then show ?case by (simp add: runs_Do)
next
  case (IfThen i b e k)
  then show ?case by (simp add: runs_IfThen)
next
  case (IfElse i b l b2 e k)
  then show ?case by (simp add: runs_IfElse)
qed

end
