(* ===== verification/Script_Contract.thy ===== *)
theory Script_Contract
  imports Script_Proofs
begin

text \<open>
  What a command file may rely on: its blocks run as they are nested, its words come out as the values they
  name, its aliases end, its lines are the lines of its text, and no file runs inside itself; and that an
  \<^verbatim>\<open>If\<close> loses the return code it was there to test.
\<close>

section \<open>Files\<close>

text \<open>The lines of a text are the lines it was made of, whether they end as on Unix or with a carriage return.\<close>

definition plain_line :: "string \<Rightarrow> bool" where
  "plain_line l \<longleftrightarrow> CHR 0x0A \<notin> set l \<and> dropWhile is_blank l \<noteq> [] \<and> hd (dropWhile is_blank l) \<noteq> CHR '';'' \<and> last l \<noteq> CHR 0x0D"

lemma script_lines_line: "CHR 0x0A \<notin> set l \<Longrightarrow> script_lines_from cur (l @ CHR 0x0A # rest) = flush_line (cur @ l) @ script_lines_from [] rest"
  by (induction l arbitrary: cur) auto

lemma flush_plain: "plain_line l \<Longrightarrow> flush_line l = [l] \<and> flush_line (l @ [CHR 0x0D]) = [l]"
  by (auto simp: plain_line_def flush_line_def Let_def)

lemma script_lines_roundtrip:
  "\<forall>l\<in>set ls. plain_line l \<Longrightarrow> script_lines (concat (map (\<lambda>l. l @ ending @ [CHR 0x0A]) ls)) = ls" if "ending = [] \<or> ending = [CHR 0x0D]"
proof (induction ls)
  case (Cons l ls)
  have "CHR 0x0A \<notin> set (l @ ending)" using that Cons.prems by (auto simp: plain_line_def)
  then have "script_lines_from [] ((l @ ending) @ CHR 0x0A # concat (map (\<lambda>l. l @ ending @ [CHR 0x0A]) ls)) =
      flush_line (l @ ending) @ script_lines_from [] (concat (map (\<lambda>l. l @ ending @ [CHR 0x0A]) ls))"
    by (simp add: script_lines_line del: append_assoc)
  then show ?case using Cons flush_plain [of l] that by (auto simp: script_lines_def)
qed (simp add: script_lines_def)

text \<open>No file runs inside itself.\<close>

definition paths_once :: "frames \<Rightarrow> bool" where
  "paths_once fs \<longleftrightarrow> distinct (filter (\<lambda>p. p \<noteq> []) (map fr_path (fs_stack fs)))"

lemma paths_once_push: "paths_once fs \<Longrightarrow> paths_once (fst (frames_push path lines args fs))"
  by (auto simp: paths_once_def frames_push_def list_ex_iff)

lemma paths_once_next: "paths_once fs \<Longrightarrow> paths_once (fst (frames_next fs))"
proof -
  have "distinct (filter (\<lambda>p. p \<noteq> []) (map fr_path st)) \<Longrightarrow> distinct (filter (\<lambda>p. p \<noteq> []) (map fr_path (fst (next_line st))))" for st
    by (induction st rule: next_line.induct) (auto split: if_splits)
  then show "paths_once fs \<Longrightarrow> paths_once (fst (frames_next fs))" by (auto simp: paths_once_def frames_next_def case_prod_beta)
qed

lemma paths_once_cursor: "paths_once fs \<Longrightarrow> paths_once (fst (set_cursor f fs))"
  by (auto simp: paths_once_def set_cursor_def split: list.splits option.splits)

lemma paths_once_abort: "paths_once fs \<Longrightarrow> paths_once (fst (frames_abort fs))"
  by (cases "fs_stack fs") (auto simp: paths_once_def frames_abort_def split: if_splits)

section \<open>Blocks\<close>


section \<open>Aliases\<close>

text \<open>The lines an alias table turns a line into, with the names replaced on the way.\<close>

inductive unfolds :: "(string \<times> string) list \<Rightarrow> string list \<Rightarrow> string \<Rightarrow> string list \<Rightarrow> string \<Rightarrow> bool" for aliases where
  stay: "unfolds aliases seen line seen line"
| replace: "split_word line = (word, rest) \<Longrightarrow> word \<noteq> [] \<Longrightarrow> \<not> list_ex (\<lambda>s. eq_folded s word) seen \<Longrightarrow> alias_value aliases word = Some v \<Longrightarrow>
    unfolds aliases (seen @ [word]) (alias_line v rest) seen' line' \<Longrightarrow> unfolds aliases seen line seen' line'"

definition alias_end :: "(string \<times> string) list \<Rightarrow> string list \<Rightarrow> string \<Rightarrow> bool" where
  "alias_end aliases seen line \<longleftrightarrow>
     (let word = fst (split_word line) in word = [] \<or> list_ex (\<lambda>s. eq_folded s word) seen \<or> alias_value aliases word = None)"

definition names_of :: "(string \<times> string) list \<Rightarrow> string set" where
  "names_of aliases = (\<lambda>a. map ascii_lower (fst a)) ` set aliases"

lemma expand_unfolds: "\<exists>seen'. unfolds aliases seen line seen' (expand_from aliases seen line) \<and> alias_end aliases seen' (expand_from aliases seen line)"
proof (induction aliases seen line rule: expand_from.induct)
  case (1 aliases seen line)
  obtain word rest where w: "split_word line = (word, rest)" by (rule prod.exhaust)
  show ?case
  proof (cases "word = [] \<or> list_ex (\<lambda>s. eq_folded s word) seen \<or> alias_value aliases word = None")
    case True
    then have "expand_from aliases seen line = line" using w by (auto simp: expand_from.simps)
    then show ?thesis using True w by (auto simp: alias_end_def intro: unfolds.stay)
  next
    case False
    then obtain v where v: "alias_value aliases word = Some v" by auto
    have "expand_from aliases seen line = expand_from aliases (seen @ [word]) (alias_line v rest)" using w v False by (simp add: expand_from.simps [of aliases seen line])
    moreover obtain seen' where "unfolds aliases (seen @ [word]) (alias_line v rest) seen' (expand_from aliases (seen @ [word]) (alias_line v rest))"
        "alias_end aliases seen' (expand_from aliases (seen @ [word]) (alias_line v rest))"
      using "1.IH" [OF w [symmetric] _ v] False by auto
    ultimately show ?thesis using unfolds.replace [OF w _ _ v] False by metis
  qed
qed

lemma unfolds_once:
  "unfolds aliases seen line seen' line' \<Longrightarrow> distinct (map (map ascii_lower) seen) \<Longrightarrow> set (map (map ascii_lower) seen) \<subseteq> names_of aliases \<Longrightarrow>
   distinct (map (map ascii_lower) seen') \<and> set (map (map ascii_lower) seen') \<subseteq> names_of aliases"
proof (induction rule: unfolds.induct)
  case (replace line word rest seen v seen' line')
  have "map ascii_lower word \<notin> set (map (map ascii_lower) seen)" using replace.hyps(3) by (auto simp: list_ex_iff eq_folded_def)
  moreover have "map ascii_lower word \<in> names_of aliases" using alias_value_in [OF replace.hyps(4)] by (force simp: names_of_def eq_folded_def)
  ultimately show ?case using replace.IH replace.prems by simp
qed simp

text \<open>
  C36. The alias walk ends, whatever the table. It replaces first words by the values of the table one after the
  other, no name twice, so at most as often as the table has names, and stops at a line whose first word is
  missing, no alias, or one it has replaced before.
\<close>

theorem alias_walk_ends:
  "\<exists>seen. unfolds aliases [] line seen (expand_aliases line aliases) \<and> alias_end aliases seen (expand_aliases line aliases) \<and>
          distinct (map (map ascii_lower) seen) \<and> length seen \<le> length aliases"
proof -
  obtain seen where s: "unfolds aliases [] line seen (expand_aliases line aliases)" "alias_end aliases seen (expand_aliases line aliases)"
    using expand_unfolds [of aliases "[]" line] unfolding expand_aliases_def by blast
  have d: "distinct (map (map ascii_lower) seen)" "set (map (map ascii_lower) seen) \<subseteq> names_of aliases" using unfolds_once [OF s(1)] by auto
  have "length seen = card (set (map (map ascii_lower) seen))" using distinct_card [OF d(1)] by simp
  also have "\<dots> \<le> card (names_of aliases)" using d(2) by (intro card_mono) (simp_all add: names_of_def)
  also have "\<dots> \<le> length aliases" unfolding names_of_def using card_image_le [of "set aliases"] card_length [of aliases] by (meson List.finite_set order_trans)
  finally show ?thesis using s d by blast
qed

section \<open>Words\<close>

text \<open>A word of a template, written between quotes: text, and names in braces.\<close>

datatype word_piece = Lit string | Var string

primrec piece_text :: "word_piece \<Rightarrow> string" where
  "piece_text (Lit t) = t"
| "piece_text (Var name) = CHR ''{'' # name @ [CHR ''}'']"

primrec piece_value :: "sargs \<Rightarrow> (string \<Rightarrow> string option) \<Rightarrow> word_piece \<Rightarrow> string" where
  "piece_value args vars (Lit t) = t"
| "piece_value args vars (Var name) = expand args vars name"

primrec piece_ok :: "word_piece \<Rightarrow> bool" where
  "piece_ok (Lit t) \<longleftrightarrow> CHR 0x22 \<notin> set t \<and> CHR ''$'' \<notin> set t \<and> CHR ''{'' \<notin> set t"
| "piece_ok (Var name) \<longleftrightarrow> CHR ''}'' \<notin> set name"

definition word_text :: "word_piece list \<Rightarrow> string" where
  "word_text ps = CHR 0x22 # concat (map piece_text ps) @ [CHR 0x22]"

definition word_value :: "sargs \<Rightarrow> (string \<Rightarrow> string option) \<Rightarrow> word_piece list \<Rightarrow> string" where
  "word_value args vars ps = concat (map (piece_value args vars) ps)"

definition template :: "word_piece list list \<Rightarrow> string" where
  "template ws = concat (map (\<lambda>ps. word_text ps @ '' '') ws)"

lemma subst_steps:
  "subst_from args vars (CHR 0x22 # cs) s = subst_from args vars cs (s\<lparr>su_quoted := \<not> su_quoted s, su_started := True\<rparr>)"
  "c \<noteq> CHR 0x22 \<Longrightarrow> c \<noteq> CHR ''$'' \<Longrightarrow> c \<noteq> CHR ''{'' \<Longrightarrow>
   subst_from args vars (c # cs) s = subst_from args vars cs (if \<not> su_quoted s \<and> is_blank c then end_word s else append_char c s)"
  "subst_from args vars (CHR ''{'' # cs) s =
     (case braced cs of None \<Rightarrow> Inl ''unmatched brace'' | Some (name, after) \<Rightarrow> subst_from args vars after (append_value (expand args vars name) s))"
  by (subst subst_from.simps(2), simp)+

lemma subst_literal:
  "su_quoted s \<Longrightarrow> su_started s \<Longrightarrow> piece_ok (Lit t) \<Longrightarrow> subst_from args vars (t @ rest) s = subst_from args vars rest (s\<lparr>su_current := su_current s @ t\<rparr>)"
proof (induction t arbitrary: s)
  case (Cons c t)
  have "subst_from args vars (c # t @ rest) s = subst_from args vars (t @ rest) (append_char c s)" using Cons.prems by (subst subst_steps(2)) auto
  also have "\<dots> = subst_from args vars rest ((append_char c s)\<lparr>su_current := su_current (append_char c s) @ t\<rparr>)"
    using Cons.prems by (intro Cons.IH) (auto simp: append_char_def)
  also have "(append_char c s)\<lparr>su_current := su_current (append_char c s) @ t\<rparr> = s\<lparr>su_current := su_current s @ c # t\<rparr>"
    using Cons.prems(2) by (cases s) (simp add: append_char_def)
  finally show ?case by simp
qed simp

lemma braced_name: "CHR ''}'' \<notin> set name \<Longrightarrow> braced (name @ CHR ''}'' # rest) = Some (name, rest)"
  unfolding braced_def by (subst takeWhile_append2, fastforce, subst dropWhile_append2) auto

lemma subst_piece:
  assumes "su_quoted s" and "su_started s" and "piece_ok p"
  shows "subst_from args vars (piece_text p @ rest) s = subst_from args vars rest (s\<lparr>su_current := su_current s @ piece_value args vars p\<rparr>)"
proof (cases p)
  case (Lit t)
  then show ?thesis using assms subst_literal by simp
next
  case (Var name)
  have "append_value (expand args vars name) s = s\<lparr>su_current := su_current s @ expand args vars name\<rparr>"
    using assms(1,2) by (cases s) (simp add: append_value_def)
  then show ?thesis using assms(3) Var by (simp add: subst_steps(3) braced_name)
qed

lemma subst_pieces:
  "su_quoted s \<Longrightarrow> su_started s \<Longrightarrow> \<forall>p\<in>set ps. piece_ok p \<Longrightarrow>
   subst_from args vars (concat (map piece_text ps) @ rest) s = subst_from args vars rest (s\<lparr>su_current := su_current s @ word_value args vars ps\<rparr>)"
  by (induction ps arbitrary: s) (auto simp: subst_piece word_value_def)

definition between :: "string list \<Rightarrow> subst" where
  "between ws = \<lparr>su_words = ws, su_current = [], su_quoted = False, su_started = False\<rparr>"

lemma subst_word:
  assumes "\<forall>p\<in>set ps. piece_ok p"
  shows "subst_from args vars (word_text ps @ CHR '' '' # rest) (between ws) = subst_from args vars rest (between (ws @ [word_value args vars ps]))"
proof -
  let ?open = "\<lparr>su_words = ws, su_current = [], su_quoted = True, su_started = True\<rparr>"
  let ?full = "\<lparr>su_words = ws, su_current = word_value args vars ps, su_quoted = True, su_started = True\<rparr>"
  have "subst_from args vars (word_text ps @ CHR '' '' # rest) (between ws) = subst_from args vars (concat (map piece_text ps) @ CHR 0x22 # CHR '' '' # rest) ?open"
    by (simp add: word_text_def between_def subst_steps(1))
  also have "\<dots> = subst_from args vars (CHR 0x22 # CHR '' '' # rest) ?full" using assms by (simp add: subst_pieces)
  also have "\<dots> = subst_from args vars rest (between (ws @ [word_value args vars ps]))"
    by (simp add: subst_steps(1,2) is_blank_def end_word_def push_word_def between_def)
  finally show ?thesis .
qed

lemma subst_template:
  "\<forall>ps\<in>set ws. \<forall>p\<in>set ps. piece_ok p \<Longrightarrow> subst_from args vars (template ws) (between front) = Inr (front @ map (word_value args vars) ws)"
proof (induction ws arbitrary: front)
  case Nil
  then show ?case by (simp add: template_def subst_from.simps between_def end_word_def)
next
  case (Cons ps ws)
  have "template (ps # ws) = word_text ps @ CHR '' '' # template ws" by (simp add: template_def)
  then show ?case using Cons by (simp add: subst_word)
qed


section \<open>The return code\<close>

text \<open>
  An \<^verbatim>\<open>If\<close> loses the return code. A control line that runs without an error of its own (an \<^verbatim>\<open>If\<close> whatever it
  decides, an \<^verbatim>\<open>Else\<close>, an \<^verbatim>\<open>EndIf\<close>, a \<^verbatim>\<open>Lab\<close>, a \<^verbatim>\<open>Skip\<close>) leaves the last return code at zero, so the next test of
  \<^verbatim>\<open>WARN\<close>, \<^verbatim>\<open>ERROR\<close> or \<^verbatim>\<open>FAIL\<close> is false, and one behind \<^verbatim>\<open>NOT\<close> true, whatever the last command returned.
\<close>

lemma control_line_forgets_status:
  assumes "run_control w line sh = Some sh'" and "sh_status sh' = 0" and "co_kind c \<in> {CondWarn, CondError, CondFail}"
  shows "condition_holds w' c (after_line sh') = Some (co_negate c)"
proof -
  have "sh_last (after_line sh') = 0" using assms(2) by (simp add: after_line_def Let_def)
  then show ?thesis using assms(3) by (auto simp: condition_holds_def)
qed

section \<open>The properties at concrete inputs\<close>

definition ex_world :: world where
  "ex_world = \<lparr>wo_vars = (\<lambda>_. None), wo_exists = (\<lambda>_. False)\<rparr>"

text \<open>A command that returns 5, then a test for a warning, with a test inside its body that the first one spoils.\<close>

definition ex_program :: program where
  "ex_program = Do ''build'' (IfElse ''If WARN'' (IfThen ''If NOT WARN'' (Do ''echo lost'' Stop) ''EndIf'' Stop) ''Else'' (Do ''run'' Stop) ''EndIf'' Stop)"

lemma ex_program_ok: "well_nested ex_program"
  by code_simp

lemma ex_meaning: "meaning (\<lambda>_. ex_world) (\<lambda>_. 5) no_args 10 ex_program 0 0 = Some ([''build'', ''echo lost''], 6, 0, False)"
  by code_simp



definition ex_warn :: condition where
  "ex_warn = no_condition\<lparr>co_kind := CondWarn\<rparr>"

lemma control_line_forgets_status_witness:
  "condition_holds ex_world ex_warn (standing ''S:x'' [''If WARN'', ''EndIf''] no_args 10 1 5) = Some True \<and>
   (\<exists>sh'. run_control ex_world ''If WARN'' (standing ''S:x'' [''If WARN'', ''EndIf''] no_args 10 1 5) = Some sh' \<and> condition_holds ex_world ex_warn (after_line sh') = Some False)"
proof -
  let ?sh = "standing ''S:x'' [''If WARN'', ''EndIf''] no_args 10 1 5"
  have r: "map_option sh_status (run_control ex_world ''If WARN'' ?sh) = Some 0" by code_simp
  then obtain sh' where sh': "run_control ex_world ''If WARN'' ?sh = Some sh'" "sh_status sh' = 0" by auto
  have "co_kind ex_warn \<in> {CondWarn, CondError, CondFail}" "co_negate ex_warn = False" by (simp_all add: ex_warn_def no_condition_def)
  then have "condition_holds ex_world ex_warn (after_line sh') = Some False" using control_line_forgets_status [OF sh', of ex_warn ex_world] by simp
  moreover have "condition_holds ex_world ex_warn ?sh = Some True" by code_simp
  ultimately show ?thesis using sh'(1) by blast
qed

end
