(* ===== verification/Shell_Lines.thy ===== *)
theory Shell_Lines
  imports Script_Contract
begin

text \<open>
  The shell around the script library, \<^verbatim>\<open>src/apps/hosted/aegir-shell/src/main.cc\<close>: redirections and pipelines of a
  line of words, the alias table, paths, and the commands that change the stack of command files. What the
  session's file system holds under a path is a parameter; printing is left out.
\<close>

section \<open>Words of a line\<close>

fun join_words :: "string list \<Rightarrow> string" where
  "join_words [] = []"
| "join_words [w] = w"
| "join_words (w # ws) = w @ CHR '' '' # join_words ws"

text \<open>A decimal of 64 bits without sign; the digits wrap.\<close>

fun number_from :: "u64 \<Rightarrow> string \<Rightarrow> u64 option" where
  "number_from v [] = Some v"
| "number_from v (c # cs) = (if \<not> is_decimal c then None else number_from (v * 10 + of_nat (decimal c)) cs)"

definition parse_number :: "string \<Rightarrow> u64 option" where
  "parse_number s = (if s = [] then None else number_from 0 s)"

record redirect =
  rd_words :: "string list"
  rd_in :: string
  rd_out :: string
  rd_append :: bool

function redirect_from :: "string list \<Rightarrow> redirect \<Rightarrow> redirect" where
  "redirect_from [] r = r"
| "redirect_from (token # raw) r =
     (if token \<noteq> [] \<and> (hd token = CHR ''>'' \<or> hd token = CHR ''<'')
      then let two = length token > 1 \<and> token ! 1 = CHR ''>''; tail = drop (if two then 2 else 1) token;
               borrow = tail = [] \<and> raw \<noteq> []; target = (if borrow then hd raw else tail);
               r1 = (if hd token = CHR ''<'' then r\<lparr>rd_in := target\<rparr> else r\<lparr>rd_out := target, rd_append := two\<rparr>)
           in redirect_from (if borrow then tl raw else raw) r1
      else redirect_from raw (r\<lparr>rd_words := rd_words r @ [token]\<rparr>))"
  by pat_completeness auto
termination
  by (relation "measure (\<lambda>(raw, _). length raw)") (auto simp: less_Suc_eq)

declare redirect_from.simps [simp del]

definition split_redirect :: "string list \<Rightarrow> redirect" where
  "split_redirect raw = redirect_from raw \<lparr>rd_words = [], rd_in = [], rd_out = [], rd_append = False\<rparr>"

definition pipeline_step :: "string list list \<Rightarrow> string \<Rightarrow> string list list" where
  "pipeline_step stages word = (if word = ''|'' then stages @ [[]] else butlast stages @ [last stages @ [word]])"

definition split_pipeline :: "string list \<Rightarrow> string list list" where
  "split_pipeline words = foldl pipeline_step [[]] words"

section \<open>The alias table\<close>

fun set_alias :: "string \<Rightarrow> string \<Rightarrow> (string \<times> string) list \<Rightarrow> (string \<times> string) list" where
  "set_alias name v [] = [(name, v)]"
| "set_alias name v (a # as) = (if fst a = name then (name, v) # as else a # set_alias name v as)"

fun drop_alias :: "string \<Rightarrow> (string \<times> string) list \<Rightarrow> (string \<times> string) list" where
  "drop_alias name [] = []"
| "drop_alias name (a # as) = (if fst a = name then as else a # drop_alias name as)"

definition command_alias :: "string \<Rightarrow> (string \<times> string) list \<Rightarrow> (string \<times> string) list" where
  "command_alias rest aliases = (case split_word rest of (name, v) \<Rightarrow> if name = [] \<or> v = [] then aliases else set_alias name v aliases)"

definition command_unalias :: "string list \<Rightarrow> (string \<times> string) list \<Rightarrow> (string \<times> string) list" where
  "command_unalias args aliases = (if args = [] then aliases else drop_alias (hd args) aliases)"

section \<open>Paths\<close>

definition parent_of :: "string \<Rightarrow> string" where
  "parent_of path =
     (if path = [] \<or> last path = CHR '':'' then path
      else let before = rev (tl (dropWhile (\<lambda>c. c \<noteq> CHR ''/'') (rev path)))
           in if CHR ''/'' \<notin> set path \<or> before = []
              then if CHR '':'' \<in> set path then takeWhile (\<lambda>c. c \<noteq> CHR '':'') path @ '':'' else path
              else before)"

definition append_component :: "string \<Rightarrow> string \<Rightarrow> string" where
  "append_component base component = (if base = [] \<or> last base = CHR '':'' then base @ component else base @ ''/'' @ component)"

function resolve_from :: "string \<Rightarrow> string \<Rightarrow> string" where
  "resolve_from base arg =
     (let component = takeWhile (\<lambda>c. c \<noteq> CHR ''/'') arg; after = dropWhile (\<lambda>c. c \<noteq> CHR ''/'') arg;
          base1 = (if component = ''..'' \<or> component = [] then parent_of base
                   else if component \<noteq> ''.'' then append_component base component else base)
      in if after = [] then base1 else resolve_from base1 (tl after))"
  by pat_completeness auto
termination
proof (relation "measure (\<lambda>(_, arg). length arg)")
  fix base arg base1 component after :: string
  assume "after = dropWhile (\<lambda>c. c \<noteq> CHR ''/'') arg" "after \<noteq> []"
  moreover have "length (dropWhile (\<lambda>c. c \<noteq> CHR ''/'') arg) \<le> length arg" by (rule length_dropWhile_le)
  ultimately have "length after \<le> length arg" "0 < length after" "0 < length arg" by auto
  then show "((base1, tl after), (base, arg)) \<in> measure (\<lambda>(_, arg). length arg)" by (simp del: length_greater_0_conv)
qed simp

declare resolve_from.simps [simp del]

definition resolve_path :: "string \<Rightarrow> string \<Rightarrow> string" where
  "resolve_path current arg = (if CHR '':'' \<in> set arg then arg else resolve_from current arg)"

section \<open>Commands on the stack of files\<close>

datatype script_start = Started | NotFound | Cycle | Invalid

definition start_script :: "(string \<Rightarrow> string option) \<Rightarrow> string \<Rightarrow> string list \<Rightarrow> frames \<Rightarrow> frames \<times> script_start" where
  "start_script files path supplied fs =
     (case files path of
        None \<Rightarrow> (fs, NotFound)
      | Some content \<Rightarrow>
          let lines = script_lines content; plain = \<lparr>sa_name = path, sa_positional = supplied, sa_named = []\<rparr>;
              bound = (if lines \<noteq> [] \<and> is_key_line (hd lines)
                       then (case parse_key_list (hd lines) of
                               Inl _ \<Rightarrow> None
                             | Inr keys \<Rightarrow> (case bind_keys keys path supplied of Inl _ \<Rightarrow> None | Inr args \<Rightarrow> Some (tl lines, args)))
                       else Some (lines, plain))
          in case bound of
               None \<Rightarrow> (fs, Invalid)
             | Some (body, args) \<Rightarrow> (case frames_push path body args fs of (fs', ok) \<Rightarrow> (fs', if ok then Started else Cycle)))"

definition command_eval :: "string list \<Rightarrow> shell \<Rightarrow> shell" where
  "command_eval args sh =
     (if args = [] then sh\<lparr>sh_status := 5\<rparr>
      else sh\<lparr>sh_frames := fst (frames_push [] (script_lines (join_words args)) no_args (sh_frames sh))\<rparr>)"

definition command_execute :: "(string \<Rightarrow> string option) \<Rightarrow> string \<Rightarrow> string list \<Rightarrow> shell \<Rightarrow> shell" where
  "command_execute files current args sh =
     (if args = [] then sh\<lparr>sh_status := 10\<rparr>
      else case start_script files (resolve_path current (hd args)) (tl args) (sh_frames sh) of (fs, started) \<Rightarrow>
             if started = Started then sh\<lparr>sh_frames := fs\<rparr> else sh\<lparr>sh_status := 10\<rparr>)"

definition command_quit :: "string list \<Rightarrow> shell \<Rightarrow> shell" where
  "command_quit args sh =
     (case (if args = [] then Some 0 else parse_number (hd args)) of
        None \<Rightarrow> sh\<lparr>sh_status := 5\<rparr>
      | Some code \<Rightarrow>
          (case frames_abort (sh_frames sh) of (fs, ok) \<Rightarrow> if ok then sh\<lparr>sh_frames := fs, sh_status := code\<rparr> else sh\<lparr>sh_status := 5\<rparr>))"

definition command_failat :: "string list \<Rightarrow> shell \<Rightarrow> shell" where
  "command_failat args sh =
     (if args = [] then sh
      else case parse_number (hd args) of
             None \<Rightarrow> sh\<lparr>sh_status := 5\<rparr>
           | Some level \<Rightarrow> sh\<lparr>sh_frames := set_fail_level level (sh_frames sh)\<rparr>)"

section \<open>What they do\<close>

text \<open>A pipeline is split at its bars, and only there.\<close>

fun bar_separated :: "string list list \<Rightarrow> string list" where
  "bar_separated [] = []"
| "bar_separated [ws] = ws"
| "bar_separated (ws # stages) = ws @ ''|'' # bar_separated stages"

lemma pipeline_words: "''|'' \<notin> set ws \<Longrightarrow> foldl pipeline_step (xs @ [x]) ws = xs @ [x @ ws]"
  by (induction ws arbitrary: x) (auto simp: pipeline_step_def)

lemma split_pipeline_stages:
  assumes "stages \<noteq> []" and "\<forall>ws\<in>set stages. ''|'' \<notin> set ws"
  shows "split_pipeline (bar_separated stages) = stages"
proof -
  have "foldl pipeline_step (xs @ [[]]) (bar_separated stages) = xs @ stages" for xs
    using assms
  proof (induction stages arbitrary: xs rule: bar_separated.induct)
    case (3 ws v stages)
    have "foldl pipeline_step (xs @ [ws]) [''|''] = (xs @ [ws]) @ [[]]" by (simp add: pipeline_step_def)
    then show ?case using 3 (1) [of "xs @ [ws]"] 3 (3) pipeline_words [of ws xs "[]"] by simp
  qed (auto simp: pipeline_words)
  from this [of "[]"] show ?thesis by (simp add: split_pipeline_def)
qed

text \<open>The bars include the ones between quotes, and the ones that are the value of a variable.\<close>

lemma quoted_bar_splits:
  "map_sum id split_pipeline (substitute_words (template [[Lit ''echo''], [Lit ''|''], [Lit ''x'']]) args vars) = Inr [[''echo''], [''x'']]"
proof -
  have "substitute_words (template [[Lit ''echo''], [Lit ''|''], [Lit ''x'']]) args vars = Inr [''echo'', ''|'', ''x'']"
    using subst_template [of "[[Lit ''echo''], [Lit ''|''], [Lit ''x'']]" args vars "[]"] by (simp add: substitute_words_def between_def word_value_def)
  then show ?thesis by (simp add: split_pipeline_def pipeline_step_def)
qed

text \<open>An alias that is defined is the one that is found, unless its name is already taken in another case.\<close>

lemma alias_defined:
  assumes "\<forall>a\<in>set aliases. eq_folded (fst a) name \<longrightarrow> fst a = name"
  shows "alias_value (set_alias name v aliases) name = Some v"
  using assms by (induction aliases) (auto simp: alias_value_def)

lemma alias_other_case: "alias_value (set_alias ''ls'' ''List'' (set_alias ''LS'' ''Dir'' [])) ''ls'' = Some ''Dir''"
  by code_simp

text \<open>A command file that names itself is refused, and the stack stays as it was.\<close>

lemma start_script_cycle:
  assumes "path \<noteq> []" and "f \<in> set (fs_stack fs)" and "fr_path f = path"
  shows "fst (start_script files path supplied fs) = fs \<and> snd (start_script files path supplied fs) \<noteq> Started"
  using assms by (auto simp: start_script_def frames_push_def list_ex_iff Let_def split: option.splits sum.splits)

lemma start_script_once: "paths_once fs \<Longrightarrow> paths_once (fst (start_script files path supplied fs))"
  using paths_once_push [of fs path] by (auto simp: start_script_def Let_def case_prod_beta split: option.splits sum.splits if_splits)

section \<open>The parent convention\<close>

text \<open>
  A path that is one slash goes up twice: it has two empty components, before the slash and behind it, and
  each of them is the parent.
\<close>

lemma slash_is_two_up: "resolve_path current ''/'' = parent_of (parent_of current)"
  by (simp add: resolve_path_def resolve_from.simps [of _ "''/''"] resolve_from.simps [of _ "[]"] Let_def)

lemma slash_from_subdirectory: "resolve_path ''Sys:S/Env'' ''/'' = ''Sys:''"
  by code_simp

end
