(* ===== verification/Command_Args.thy ===== *)
theory Command_Args
  imports Aegir_Prelude
begin

text \<open>
  The command line templates of the commands, \<^verbatim>\<open>src/libs/freestanding/aegir-args/src/args.cc\<close>: a template such as
  \<^verbatim>\<open>FROM/M,TO/A,ALL/S\<close> is a list of items, a line is a list of tokens, and the library says which item every token
  fills. Texts end at their first zero byte in the code and are lists here.
\<close>

section \<open>Templates\<close>

record titem =
  ti_name :: string
  ti_required :: bool
  ti_switch :: bool
  ti_keyword :: bool
  ti_multiple :: bool
  ti_number :: bool

definition arg_space :: "char \<Rightarrow> bool" where
  "arg_space c \<longleftrightarrow> c = CHR '' '' \<or> c = CHR 0x09"

definition trim_right :: "string \<Rightarrow> string" where
  "trim_right s = rev (dropWhile arg_space (rev s))"

text \<open>An item from the text between two commas: the name up to a slash, then the flags up to a blank.\<close>

definition read_item :: "string \<Rightarrow> titem" where
  "read_item seg =
     (let s = dropWhile arg_space seg; rest = dropWhile (\<lambda>c. c \<noteq> CHR ''/'') s;
          flags = map ascii_lower (takeWhile (\<lambda>c. \<not> arg_space c) (tl rest))
      in \<lparr>ti_name = trim_right (takeWhile (\<lambda>c. c \<noteq> CHR ''/'') s), ti_required = CHR ''a'' \<in> set flags, ti_switch = CHR ''s'' \<in> set flags,
          ti_keyword = CHR ''k'' \<in> set flags, ti_multiple = CHR ''m'' \<in> set flags, ti_number = CHR ''n'' \<in> set flags\<rparr>)"

fun item_at :: "string \<Rightarrow> nat \<Rightarrow> titem option" where
  "item_at tmpl 0 = (let item = read_item (takeWhile (\<lambda>c. c \<noteq> CHR '','') tmpl) in if ti_name item = [] then None else Some item)"
| "item_at tmpl (Suc i) = (let rest = dropWhile (\<lambda>c. c \<noteq> CHR '','') tmpl in if rest = [] then None else item_at (tl rest) i)"

text \<open>The items a loop over the template sees: up to the first that is not there or has no name.\<close>

definition items :: "string \<Rightarrow> titem list" where
  "items tmpl = map the (takeWhile (\<lambda>x. x \<noteq> None) (map (item_at tmpl) [0..<Suc (length tmpl)]))"

definition item_by_name :: "string \<Rightarrow> string \<Rightarrow> titem option" where
  "item_by_name tmpl name = find (\<lambda>item. eq_folded (ti_name item) name) (items tmpl)"

definition positionals :: "string \<Rightarrow> titem list" where
  "positionals tmpl = filter (\<lambda>item. \<not> ti_switch item \<and> \<not> ti_keyword item) (items tmpl)"

definition positional_item_at :: "string \<Rightarrow> nat \<Rightarrow> titem option" where
  "positional_item_at tmpl i = (if i < length (positionals tmpl) then Some (positionals tmpl ! i) else None)"

definition positional_count :: "string \<Rightarrow> nat" where
  "positional_count tmpl = length (positionals tmpl)"

section \<open>Lines\<close>

fun positional_tokens_after :: "string \<Rightarrow> string list \<Rightarrow> nat" where
  "positional_tokens_after tmpl [] = 0"
| "positional_tokens_after tmpl (token # ts) =
     (if CHR ''='' \<in> set token then positional_tokens_after tmpl ts
      else case item_by_name tmpl token of
             None \<Rightarrow> Suc (positional_tokens_after tmpl ts)
           | Some item \<Rightarrow>
               if ti_switch item then positional_tokens_after tmpl ts
               else if ti_keyword item then (case ts of [] \<Rightarrow> 0 | _ # ts' \<Rightarrow> positional_tokens_after tmpl ts')
               else Suc (positional_tokens_after tmpl ts))"

text \<open>What the line supplies, in order: the item that is filled, if the template has one, and the value.\<close>

type_synonym filling = "titem option \<times> string"

definition next_place :: "string \<Rightarrow> titem \<Rightarrow> nat \<Rightarrow> string list \<Rightarrow> nat" where
  "next_place tmpl place positional ts =
     (if \<not> ti_multiple place \<or> positional_tokens_after tmpl ts \<le> positional_count tmpl - positional - 1 then Suc positional else positional)"

definition bare :: "string \<Rightarrow> string \<Rightarrow> bool" where
  "bare tmpl token \<longleftrightarrow> (case item_by_name tmpl token of None \<Rightarrow> True | Some item \<Rightarrow> \<not> ti_switch item \<and> \<not> ti_keyword item)"

fun supplied_from :: "string \<Rightarrow> nat \<Rightarrow> string list \<Rightarrow> filling list" where
  "supplied_from tmpl positional [] = []"
| "supplied_from tmpl positional (token # ts) =
     (if CHR ''='' \<in> set token
      then (case item_by_name tmpl (takeWhile (\<lambda>c. c \<noteq> CHR ''='') token) of
              Some item \<Rightarrow> (Some item, tl (dropWhile (\<lambda>c. c \<noteq> CHR ''='') token))
            | None \<Rightarrow> (None, token)) # supplied_from tmpl positional ts
      else if \<not> bare tmpl token
      then let item = the (item_by_name tmpl token)
           in if ti_switch item then (Some item, []) # supplied_from tmpl positional ts
              else (case ts of [] \<Rightarrow> [(Some item, [])] | v # ts' \<Rightarrow> (Some item, v) # supplied_from tmpl positional ts')
      else case positional_item_at tmpl positional of
             Some place \<Rightarrow> (Some place, token) # supplied_from tmpl (next_place tmpl place positional ts) ts
           | None \<Rightarrow> (None, token) # supplied_from tmpl positional ts)"

definition supplied :: "string \<Rightarrow> string list \<Rightarrow> filling list" where
  "supplied tmpl argv = supplied_from tmpl 0 argv"

section \<open>Results\<close>

datatype arg_problem = Fine | UnknownArgument string | NotANumber string | MissingArgument string

definition is_number :: "string \<Rightarrow> bool" where
  "is_number s \<longleftrightarrow>
     (let digits = (if s \<noteq> [] \<and> (hd s = CHR ''-'' \<or> hd s = CHR ''+'') then tl s else s)
      in digits \<noteq> [] \<and> list_all (\<lambda>c. of_char c \<ge> (48 :: nat) \<and> of_char c \<le> (57 :: nat)) digits)"

fun first_problem :: "filling list \<Rightarrow> arg_problem" where
  "first_problem [] = Fine"
| "first_problem (s # ss) =
     (case fst s of
        None \<Rightarrow> UnknownArgument (snd s)
      | Some item \<Rightarrow> if ti_number item \<and> \<not> is_number (snd s) then NotANumber (ti_name item) else first_problem ss)"

definition given :: "string \<Rightarrow> filling list \<Rightarrow> string list" where
  "given name ss = map snd (filter (\<lambda>s. case fst s of None \<Rightarrow> False | Some item \<Rightarrow> eq_folded (ti_name item) name) ss)"

definition read_args :: "string \<Rightarrow> string list \<Rightarrow> arg_problem" where
  "read_args tmpl argv =
     (let ss = supplied tmpl argv
      in if first_problem ss \<noteq> Fine then first_problem ss
         else case find (\<lambda>item. ti_required item \<and> given (ti_name item) ss = []) (items tmpl) of
                Some item \<Rightarrow> MissingArgument (ti_name item)
              | None \<Rightarrow> Fine)"

definition args_count :: "string \<Rightarrow> string list \<Rightarrow> string \<Rightarrow> nat" where
  "args_count tmpl argv name = length (given name (supplied tmpl argv))"

definition args_at :: "string \<Rightarrow> string list \<Rightarrow> string \<Rightarrow> nat \<Rightarrow> string option" where
  "args_at tmpl argv name i = (let vs = given name (supplied tmpl argv) in if i < length vs then Some (vs ! i) else None)"

definition args_value :: "string \<Rightarrow> string list \<Rightarrow> string \<Rightarrow> string option" where
  "args_value tmpl argv name = (case given name (supplied tmpl argv) of [] \<Rightarrow> None | v # _ \<Rightarrow> Some v)"

definition args_present :: "string \<Rightarrow> string list \<Rightarrow> string \<Rightarrow> bool" where
  "args_present tmpl argv name \<longleftrightarrow> given name (supplied tmpl argv) \<noteq> []"

section \<open>The loops over a template see all of it\<close>

lemma item_at_end: "length tmpl < i \<Longrightarrow> item_at tmpl i = None"
proof (induction tmpl i rule: item_at.induct)
  case (2 tmpl i)
  have "length (dropWhile (\<lambda>c. c \<noteq> CHR '','') tmpl) \<le> length tmpl" by (rule length_dropWhile_le)
  then have "length (tl (dropWhile (\<lambda>c. c \<noteq> CHR '','') tmpl)) < i" if "dropWhile (\<lambda>c. c \<noteq> CHR '','') tmpl \<noteq> []"
    using 2(2) that by (cases "dropWhile (\<lambda>c. c \<noteq> CHR '','') tmpl") auto
  then show ?case using 2(1) by (simp add: Let_def)
qed simp

section \<open>Which item a bare token fills\<close>

definition plain_token :: "string \<Rightarrow> string \<Rightarrow> bool" where
  "plain_token tmpl token \<longleftrightarrow> CHR ''='' \<notin> set token \<and> bare tmpl token"

lemma tokens_after_plain: "\<forall>t\<in>set ts. plain_token tmpl t \<Longrightarrow> positional_tokens_after tmpl ts = length ts"
  by (induction ts) (auto simp: plain_token_def bare_def split: option.splits)

lemma supplied_plain:
  "plain_token tmpl t \<Longrightarrow> supplied_from tmpl p (t # ts) =
     (if p < positional_count tmpl
      then (Some (positionals tmpl ! p), t) # supplied_from tmpl (next_place tmpl (positionals tmpl ! p) p ts) ts
      else (None, t) # supplied_from tmpl p ts)"
  by (simp add: plain_token_def positional_item_at_def positional_count_def)

declare supplied_from.simps(2) [simp del]

definition fill :: "titem list \<Rightarrow> string list \<Rightarrow> filling list" where
  "fill its ts = map (\<lambda>(item, t). (Some item, t)) (zip its ts)"

lemma fill_Cons [simp]: "fill (i # its) (t # ts) = (Some i, t) # fill its ts"
  by (simp add: fill_def)

lemma fill_single:
  assumes "\<forall>i. p \<le> i \<longrightarrow> i < positional_count tmpl \<longrightarrow> \<not> ti_multiple (positionals tmpl ! i)" and "\<forall>t\<in>set ts. plain_token tmpl t"
    and "p + length ts \<le> positional_count tmpl"
  shows "supplied_from tmpl p ts = fill (drop p (positionals tmpl)) ts"
  using assms
proof (induction ts arbitrary: p)
  case (Cons t ts)
  have p: "p < positional_count tmpl" using Cons.prems(3) by simp
  then have d: "drop p (positionals tmpl) = positionals tmpl ! p # drop (Suc p) (positionals tmpl)" by (simp add: positional_count_def Cons_nth_drop_Suc)
  have "next_place tmpl (positionals tmpl ! p) p ts = Suc p" using Cons.prems(1) p by (simp add: next_place_def)
  then show ?case using Cons.IH [of "Suc p"] Cons.prems p by (simp add: supplied_plain d)
qed (simp add: fill_def)

lemma fill_multiple:
  assumes m: "m < positional_count tmpl" and multi: "\<forall>i < positional_count tmpl. ti_multiple (positionals tmpl ! i) \<longleftrightarrow> i = m"
    and plain: "\<forall>t\<in>set ts. plain_token tmpl t" and enough: "positional_count tmpl - m \<le> length ts"
  shows "supplied_from tmpl m ts = fill (replicate (length ts - (positional_count tmpl - m) + 1) (positionals tmpl ! m) @ drop (Suc m) (positionals tmpl)) ts"
  using plain enough
proof (induction ts)
  case (Cons t ts)
  have after: "positional_tokens_after tmpl ts = length ts" using Cons.prems(1) by (simp add: tokens_after_plain)
  show ?case
  proof (cases "length ts \<le> positional_count tmpl - m - 1")
    case True
    then have len: "length ts = positional_count tmpl - m - 1" using Cons.prems(2) by simp
    have "supplied_from tmpl (Suc m) ts = fill (drop (Suc m) (positionals tmpl)) ts"
      by (rule fill_single) (use multi Cons.prems(1) len m in auto)
    then show ?thesis using True m after Cons.prems(1) len by (simp add: supplied_plain next_place_def)
  next
    case False
    then have "supplied_from tmpl m (t # ts) = (Some (positionals tmpl ! m), t) # supplied_from tmpl m ts"
      using m multi after Cons.prems(1) by (simp add: supplied_plain next_place_def)
    moreover have "length (t # ts) - (positional_count tmpl - m) = Suc (length ts - (positional_count tmpl - m))" using False m by simp
    ultimately show ?thesis using Cons False by simp
  qed
qed (use m in simp)

lemma fill_front:
  assumes "m < positional_count tmpl" and "\<forall>i < positional_count tmpl. ti_multiple (positionals tmpl ! i) \<longleftrightarrow> i = m" and "p \<le> m"
    and "\<forall>t\<in>set ts. plain_token tmpl t" and "positional_count tmpl - p \<le> length ts"
  shows "supplied_from tmpl p ts = fill (take (m - p) (drop p (positionals tmpl)) @
    replicate (length ts - (positional_count tmpl - p) + 1) (positionals tmpl ! m) @ drop (Suc m) (positionals tmpl)) ts"
  using assms(3-5)
proof (induction ts arbitrary: p)
  case Nil
  then show ?case using assms(1) by simp
next
  case (Cons t ts)
  show ?case
  proof (cases "p = m")
    case True
    then show ?thesis using fill_multiple [OF assms(1,2) Cons.prems(2)] Cons.prems(3) by simp
  next
    case False
    then have p: "p < m" "p < positional_count tmpl" using Cons.prems(1) assms(1) by auto
    have "next_place tmpl (positionals tmpl ! p) p ts = Suc p" using assms(2) p by (simp add: next_place_def)
    then have "supplied_from tmpl p (t # ts) = (Some (positionals tmpl ! p), t) # supplied_from tmpl (Suc p) ts" using Cons.prems(2) p by (simp add: supplied_plain)
    moreover have "take (m - p) (drop p (positionals tmpl)) = positionals tmpl ! p # take (m - Suc p) (drop (Suc p) (positionals tmpl))"
      using p by (metis Cons_nth_drop_Suc Suc_diff_Suc positional_count_def take_Suc_Cons)
    moreover have "length (t # ts) - (positional_count tmpl - p) = length ts - (positional_count tmpl - Suc p)" using p by simp
    ultimately show ?thesis using Cons.IH [of "Suc p"] Cons.prems p by simp
  qed
qed



section \<open>What a line is accepted as\<close>

lemma first_problem_fine:
  "first_problem ss = Fine \<longleftrightarrow> (\<forall>s\<in>set ss. \<exists>item. fst s = Some item \<and> (ti_number item \<longrightarrow> is_number (snd s)))"
  by (induction ss) (auto split: option.splits)

text \<open>
  A line is accepted exactly when every token fills an item, every value of a number item is a number and
  every required item has a value.
\<close>

lemma read_args_fine:
  "read_args tmpl argv = Fine \<longleftrightarrow>
     (\<forall>s\<in>set (supplied tmpl argv). \<exists>item. fst s = Some item \<and> (ti_number item \<longrightarrow> is_number (snd s))) \<and>
     (\<forall>item\<in>set (items tmpl). ti_required item \<longrightarrow> args_present tmpl argv (ti_name item))"
proof -
  have "(case find P xs of Some item \<Rightarrow> MissingArgument (ti_name item) | None \<Rightarrow> Fine) = Fine \<longleftrightarrow> (\<forall>x\<in>set xs. \<not> P x)" for P and xs :: "titem list"
    by (induction xs) (auto split: option.splits)
  from this [of "\<lambda>item. ti_required item \<and> given (ti_name item) (supplied tmpl argv) = []" "items tmpl"]
  show ?thesis unfolding first_problem_fine [symmetric] by (auto simp: read_args_def Let_def args_present_def)
qed

lemma args_at_value: "args_value tmpl argv name = args_at tmpl argv name 0" "args_present tmpl argv name \<longleftrightarrow> 0 < args_count tmpl argv name"
  by (auto simp: args_value_def args_at_def args_present_def args_count_def Let_def split: list.splits)

text \<open>
  A value given by name does not take its item out of the order: the next bare token fills the same item again.
  Blanks do not separate items, and an item without a name hides those behind it.
\<close>

lemma named_item_filled_again: "read_args ''FROM/A,TO/A'' [''FROM=a'', ''b''] = MissingArgument ''TO''"
  by code_simp

lemma blank_does_not_separate: "map ti_name (items ''FROM/A TO/A'') = [''FROM'']"
  by code_simp

lemma empty_item_hides: "map ti_name (items ''FROM/A,,TO/A'') = [''FROM'']"
  by code_simp

end
