(* ===== verification/Virtio_Queue.thy ===== *)
theory Virtio_Queue
  imports Aegir_Prelude
begin

text \<open>
  The virtqueue, \<^verbatim>\<open>src/libs/freestanding/aegir-virtio/src/queue.cc\<close>: the pages a driver shares with a device, as bytes
  by offset; publishing a chain of buffers, as the sequence of stores the device may look between; and
  harvesting what the device has used. The device is not part of the program: it is the steps a device may take
  on the shared pages.
\<close>

section \<open>The shared pages\<close>

type_synonym page = "nat \<Rightarrow> u8"

definition store :: "nat \<Rightarrow> u8 list \<Rightarrow> page \<Rightarrow> page" where
  "store at bs p = (\<lambda>a. if at \<le> a \<and> a < at + length bs then bs ! (a - at) else p a)"

definition load16 :: "nat \<Rightarrow> page \<Rightarrow> u16" where
  "load16 at p = of_nat (le_nat (map p [at..<at + 2]))"

definition load32 :: "nat \<Rightarrow> page \<Rightarrow> u32" where
  "load32 at p = of_nat (le_nat (map p [at..<at + 4]))"

definition bytes16 :: "u16 \<Rightarrow> u8 list" where
  "bytes16 v = nat_le 2 (unat v)"

definition bytes32 :: "u32 \<Rightarrow> u8 list" where
  "bytes32 v = nat_le 4 (unat v)"

section \<open>The queue\<close>

definition kQueueSize :: nat where "kQueueSize = 128"
definition kQueueBytes :: nat where "kQueueBytes = 8192"
definition kPageBytes :: nat where "kPageBytes = 4096"
definition kDescNext :: u16 where "kDescNext = 1"
definition kDescWrite :: u16 where "kDescWrite = 2"

record chain_buf =
  cb_physical :: u64
  cb_bytes :: u32
  cb_writes :: bool

record vqueue =
  vq_page :: page
  vq_physical :: u64
  vq_index :: u32
  vq_size :: nat
  vq_next_avail :: u16
  vq_last_used :: u16

definition avail_offset :: "nat \<Rightarrow> nat" where
  "avail_offset num = num * 16"

definition used_offset :: "nat \<Rightarrow> nat" where
  "used_offset num = (num * 16 + 4 + 2 * num + 2 + kPageBytes - 1) div kPageBytes * kPageBytes"

text \<open>The size a queue keeps: the smaller of what is asked for and what the device offers.\<close>

definition queue_size :: "u32 \<Rightarrow> u32 \<Rightarrow> u32" where
  "queue_size num_max num = (if num_max < num then num_max else num)"

text \<open>
  Setting a queue up: the registers written and read, in order, with the answers of the device as a parameter.
\<close>

datatype reg_op = RegWrite u32 u32 | RegRead u32

record queue_answers =
  qa_pfn_before :: u32
  qa_num_max :: u32
  qa_num_back :: u32
  qa_desc_back :: u32
  qa_ready_back :: u32
  qa_pfn_back :: u32

record queue_report =
  qr_num_back :: u32
  qr_ready_back :: u32
  qr_desc_back :: u32
  qr_num_max :: u32
  qr_legacy :: bool
  qr_pfn_back :: u32
  qr_pfn_before :: u32

definition set_up :: "queue_answers \<Rightarrow> u32 \<Rightarrow> u32 \<Rightarrow> vqueue \<Rightarrow> vqueue \<times> reg_op list \<times> queue_report" where
  "set_up a index num q =
     (let kept = queue_size (qa_num_max a) num; n = unat kept; desc = vq_physical q; avail = vq_physical q + of_nat (avail_offset n);
          used = vq_physical q + of_nat (used_offset n); legacy = qa_ready_back a = 0
      in (q\<lparr>vq_index := index, vq_size := n\<rparr>,
          [RegWrite 0x028 (of_nat kPageBytes), RegWrite 0x030 index, RegRead 0x040, RegRead 0x034, RegWrite 0x03c 4096,
           RegWrite 0x040 (ucast (vq_physical q div of_nat kPageBytes)), RegWrite 0x038 kept, RegRead 0x038,
           RegWrite 0x080 (ucast desc), RegWrite 0x084 (ucast (drop_bit 32 desc)), RegWrite 0x090 (ucast avail), RegWrite 0x094 (ucast (drop_bit 32 avail)),
           RegWrite 0x0a0 (ucast used), RegWrite 0x0a4 (ucast (drop_bit 32 used)), RegWrite 0x044 1, RegRead 0x080, RegRead 0x044]
          @ (if legacy then [RegRead 0x040] else []),
          \<lparr>qr_num_back = qa_num_back a, qr_ready_back = qa_ready_back a, qr_desc_back = qa_desc_back a, qr_num_max = qa_num_max a, qr_legacy = legacy,
           qr_pfn_back = (if legacy then qa_pfn_back a else 0), qr_pfn_before = qa_pfn_before a\<rparr>))"

text \<open>The stores of \<^verbatim>\<open>publish\<close>, in order: the descriptors of the chain, then the available ring, its index last.\<close>

definition desc_stores :: "nat \<Rightarrow> chain_buf \<Rightarrow> bool \<Rightarrow> (nat \<times> u8 list) list" where
  "desc_stores d buf more_follow =
     (let flags = (if more_follow then kDescNext else 0) OR (if cb_writes buf then kDescWrite else 0);
          nxt = (if more_follow then of_nat (d + 1) else 0 :: u16)
      in [(d * 16, bytes32 (ucast (cb_physical buf))), (d * 16 + 4, bytes32 (ucast (drop_bit 32 (cb_physical buf)))),
          (d * 16 + 8, bytes32 (cb_bytes buf)), (d * 16 + 12, bytes32 (ucast flags OR push_bit 16 (ucast nxt)))])"

fun chain_stores :: "nat \<Rightarrow> chain_buf list \<Rightarrow> (nat \<times> u8 list) list" where
  "chain_stores d [] = []"
| "chain_stores d (buf # bufs) = desc_stores d buf (bufs \<noteq> []) @ chain_stores (Suc d) bufs"

definition ring_stores :: "nat \<Rightarrow> u16 \<Rightarrow> u16 \<Rightarrow> (nat \<times> u8 list) list" where
  "ring_stores num next_avail head =
     [(avail_offset num, bytes16 0), (avail_offset num + 2 * (2 + unat next_avail mod num), bytes16 head),
      (avail_offset num + 2, bytes16 (next_avail + 1))]"

definition publish_stores :: "vqueue \<Rightarrow> u16 \<Rightarrow> chain_buf list \<Rightarrow> (nat \<times> u8 list) list" where
  "publish_stores q head bufs = chain_stores (unat head) bufs @ ring_stores (vq_size q) (vq_next_avail q) head"

definition stored :: "(nat \<times> u8 list) list \<Rightarrow> page \<Rightarrow> page" where
  "stored ss p = fold (\<lambda>(at, bs). store at bs) ss p"

definition publish :: "u16 \<Rightarrow> chain_buf list \<Rightarrow> vqueue \<Rightarrow> vqueue" where
  "publish head bufs q = q\<lparr>vq_page := stored (publish_stores q head bufs) (vq_page q), vq_next_avail := vq_next_avail q + 1\<rparr>"

text \<open>Consuming a used entry, with the two registers the report carries.\<close>

record used_result =
  ur_completed :: bool
  ur_head :: u32
  ur_bytes :: u32
  ur_flags :: u32
  ur_idx :: u32
  ur_status :: u32
  ur_interrupt :: u32

definition harvest :: "u32 \<Rightarrow> u32 \<Rightarrow> vqueue \<Rightarrow> vqueue \<times> used_result" where
  "harvest status interrupt q =
     (let used = used_offset (vq_size q); p = vq_page q; elem = used + 4 + unat (vq_last_used q) mod vq_size q * 8;
          result = \<lparr>ur_completed = False, ur_head = 0, ur_bytes = 0, ur_flags = ucast (load16 used p), ur_idx = ucast (load16 (used + 2) p),
                    ur_status = status, ur_interrupt = interrupt\<rparr>
      in if load16 (used + 2) p = vq_last_used q then (q, result)
         else (q\<lparr>vq_last_used := vq_last_used q + 1\<rparr>, result\<lparr>ur_head := load32 elem p, ur_bytes := load32 (elem + 4) p, ur_completed := True\<rparr>))"

section \<open>The driver and the device\<close>

text \<open>
  What is shared, and for the record: the chains published, how many of them the device has taken, the entries
  it has used, and how many of those the driver has harvested. A driver publishes only while a slot is free,
  since a descriptor of its own goes with every chain that is out.
\<close>

record vsys =
  vs_q :: vqueue
  vs_pub :: "u16 list"
  vs_taken :: nat
  vs_used :: "(u32 \<times> u32) list"
  vs_seen :: nat

definition device_use :: "nat \<Rightarrow> nat \<Rightarrow> u32 \<times> u32 \<Rightarrow> page \<Rightarrow> page" where
  "device_use num n e p =
     store (used_offset num + 2) (bytes16 (of_nat (Suc n)))
       (store (used_offset num + 4 + n mod num * 8 + 4) (bytes32 (snd e)) (store (used_offset num + 4 + n mod num * 8) (bytes32 (fst e)) p))"

inductive vq_reach :: "nat \<Rightarrow> vsys \<Rightarrow> bool" for num where
  start: "vq_size q = num \<Longrightarrow> vq_next_avail q = 0 \<Longrightarrow> vq_last_used q = 0 \<Longrightarrow> load16 (avail_offset num + 2) (vq_page q) = 0 \<Longrightarrow> load16 (used_offset num + 2) (vq_page q) = 0 \<Longrightarrow>
    vq_reach num \<lparr>vs_q = q, vs_pub = [], vs_taken = 0, vs_used = [], vs_seen = 0\<rparr>"
| publishes: "vq_reach num s \<Longrightarrow> length (vs_pub s) < vs_seen s + num \<Longrightarrow> unat head + length bufs \<le> num \<Longrightarrow>
    vq_reach num (s\<lparr>vs_q := publish head bufs (vs_q s), vs_pub := vs_pub s @ [head]\<rparr>)"
| takes: "vq_reach num s \<Longrightarrow> vs_taken s < length (vs_pub s) \<Longrightarrow> vq_reach num (s\<lparr>vs_taken := Suc (vs_taken s)\<rparr>)"
| uses: "vq_reach num s \<Longrightarrow> length (vs_used s) < vs_taken s \<Longrightarrow>
    vq_reach num (s\<lparr>vs_q := (vs_q s)\<lparr>vq_page := device_use num (length (vs_used s)) e (vq_page (vs_q s))\<rparr>, vs_used := vs_used s @ [e]\<rparr>)"
| harvests: "vq_reach num s \<Longrightarrow> harvest status interrupt (vs_q s) = (q', r) \<Longrightarrow>
    vq_reach num (s\<lparr>vs_q := q', vs_seen := (if ur_completed r then Suc (vs_seen s) else vs_seen s)\<rparr>)"

section \<open>Loads after stores\<close>

lemma map_store_same: "length bs = n \<Longrightarrow> map (store at bs p) [at..<at + n] = bs"
  by (rule nth_equalityI) (auto simp: store_def)

lemma map_store_other: "at + n \<le> b \<or> b + length bs \<le> at \<Longrightarrow> map (store b bs p) [at..<at + n] = map p [at..<at + n]"
  by (auto simp: store_def)

lemma load16_same [simp]: "load16 at (store at (bytes16 v) p) = v"
proof -
  have "le_nat (nat_le 2 (unat v)) = unat v" using unsigned_less [where 'a = nat, of v] by (simp add: le_nat_nat_le)
  then show ?thesis unfolding load16_def bytes16_def by (subst map_store_same) simp_all
qed

lemma load32_same [simp]: "load32 at (store at (bytes32 v) p) = v"
proof -
  have "le_nat (nat_le 4 (unat v)) = unat v" using unsigned_less [where 'a = nat, of v] by (simp add: le_nat_nat_le)
  then show ?thesis unfolding load32_def bytes32_def by (subst map_store_same) simp_all
qed

lemma load16_other: "at + 2 \<le> b \<or> b + length bs \<le> at \<Longrightarrow> load16 at (store b bs p) = load16 at p"
  unfolding load16_def by (subst map_store_other) simp_all

lemma load32_other: "at + 4 \<le> b \<or> b + length bs \<le> at \<Longrightarrow> load32 at (store b bs p) = load32 at p"
  unfolding load32_def by (subst map_store_other) simp_all

lemma length_bytes [simp]: "length (bytes16 v) = 2" "length (bytes32 w) = 4"
  by (simp_all add: bytes16_def bytes32_def)

lemma stored_simps [simp]: "stored [] p = p" "stored (s # ss) p = stored ss (store (fst s) (snd s) p)" "stored (xs @ ys) p = stored ys (stored xs p)"
  by (simp_all add: stored_def case_prod_beta)

lemma stored_apart:
  "\<forall>s\<in>set ss. fst s + length (snd s) \<le> at \<Longrightarrow> load16 at (stored ss p) = load16 at p \<and> load32 at (stored ss p) = load32 at p"
  by (induction ss arbitrary: p) (auto simp: load16_other load32_other)

lemma chain_stores_below: "d + length bufs \<le> num \<Longrightarrow> \<forall>s\<in>set (chain_stores d bufs). fst s + length (snd s) \<le> avail_offset num"
proof (induction bufs arbitrary: d)
  case (Cons buf bufs)
  have "\<forall>s\<in>set (desc_stores d buf (bufs \<noteq> [])). fst s + length (snd s) \<le> avail_offset num" using Cons.prems by (auto simp: desc_stores_def Let_def avail_offset_def)
  then show ?case using Cons.IH [of "Suc d"] Cons.prems by auto
qed simp

text \<open>Two counts less than a turn apart are at different places of a ring.\<close>

lemma ring_apart: "a < b \<Longrightarrow> b < a + n \<Longrightarrow> a mod n \<noteq> b mod n" for a b n :: nat
proof
  assume "a < b" "b < a + n" "a mod n = b mod n"
  then have "n dvd b - a" by (metis less_imp_le mod_eq_dvd_iff_nat)
  then show False using \<open>a < b\<close> \<open>b < a + n\<close> by (auto dest: dvd_imp_le)
qed

lemma ring_place: "n dvd 65536 \<Longrightarrow> unat (of_nat k :: u16) mod n = k mod n"
  by (simp add: unat_of_nat take_bit_eq_mod mod_mod_cancel)

lemma counts_equal: "a \<le> b \<Longrightarrow> b < a + 65536 \<Longrightarrow> (of_nat a :: u16) = of_nat b \<longleftrightarrow> a = b"
proof -
  assume a: "a \<le> b" "b < a + 65536"
  have "a mod 65536 = b mod 65536 \<longleftrightarrow> a = b" using ring_apart [of a b 65536] a by (cases "a = b") auto
  then show ?thesis by (simp add: word_unat_eq_iff unat_of_nat take_bit_eq_mod)
qed

section \<open>The layout\<close>

lemma used_offset_fixed: "0 < num \<Longrightarrow> num \<le> kQueueSize \<Longrightarrow> used_offset num = 4096"
  by (simp add: used_offset_def kQueueSize_def kPageBytes_def)

end
