(* ===== verification/Virtio_Contract.thy ===== *)
theory Virtio_Contract
  imports Virtio_Queue
begin

text \<open>
  What a driver may rely on, whatever the device does and however the two interleave: the rings lie apart, a
  chain becomes visible all at once, and the used entries are harvested in order, each exactly once.
\<close>

section \<open>Publishing\<close>

lemma ring_after_publish:
  fixes p :: page and num k :: nat and nxt head :: u16 and e :: "u32 \<times> u32"
  assumes n: "0 < num" "num \<le> kQueueSize" and j: "j < num"
  defines "p' \<equiv> stored (ring_stores num nxt head) p"
  shows "load16 (avail_offset num + 2) p' = nxt + 1"
    and "load16 (avail_offset num + 2 * (2 + j)) p' = (if j = unat nxt mod num then head else load16 (avail_offset num + 2 * (2 + j)) p)"
    and "4096 \<le> at \<Longrightarrow> load16 at p' = load16 at p \<and> load32 at p' = load32 at p"
proof -
  show "load16 (avail_offset num + 2) p' = nxt + 1" by (simp add: p'_def ring_stores_def)
  show "load16 (avail_offset num + 2 * (2 + j)) p' = (if j = unat nxt mod num then head else load16 (avail_offset num + 2 * (2 + j)) p)"
  proof (cases "j = unat nxt mod num")
    case False
    then have "j + 1 \<le> unat nxt mod num \<or> unat nxt mod num + 1 \<le> j" by auto
    then show ?thesis using False by (auto simp: p'_def ring_stores_def load16_other)
  qed (simp add: p'_def ring_stores_def load16_other)
  have "unat nxt mod num < 128" using mod_less_divisor [OF n(1), of "unat nxt"] n(2) by (simp add: kQueueSize_def)
  then show "4096 \<le> at \<Longrightarrow> load16 at p' = load16 at p \<and> load32 at p' = load32 at p"
    using n by (auto simp: p'_def ring_stores_def avail_offset_def kQueueSize_def load16_other load32_other)
qed

lemma publish_page:
  assumes n: "0 < num" "num \<le> kQueueSize" "vq_size q = num" and h: "unat head + length bufs \<le> num" and j: "j < num"
  defines "p' \<equiv> vq_page (publish head bufs q)" and "p \<equiv> vq_page q"
  shows "load16 (avail_offset num + 2) p' = vq_next_avail q + 1"
    and "load16 (avail_offset num + 2 * (2 + j)) p' = (if j = unat (vq_next_avail q) mod num then head else load16 (avail_offset num + 2 * (2 + j)) p)"
    and "4096 \<le> at \<Longrightarrow> load16 at p' = load16 at p \<and> load32 at p' = load32 at p"
proof -
  let ?c = "stored (chain_stores (unat head) bufs) p"
  have p': "p' = stored (ring_stores num (vq_next_avail q) head) ?c" using n(3) by (simp add: p'_def p_def publish_def publish_stores_def)
  have "\<forall>s\<in>set (chain_stores (unat head) bufs). fst s + length (snd s) \<le> avail_offset num" by (rule chain_stores_below [OF h])
  then have low: "\<forall>s\<in>set (chain_stores (unat head) bufs). fst s + length (snd s) \<le> a" if "avail_offset num \<le> a" for a
    using that by (meson order_trans)
  have c: "load16 a ?c = load16 a p \<and> load32 a ?c = load32 a p" if "avail_offset num \<le> a" for a
    by (rule stored_apart [OF low [OF that]])
  show "load16 (avail_offset num + 2) p' = vq_next_avail q + 1" unfolding p' by (rule ring_after_publish(1) [OF n(1,2) j])
  show "load16 (avail_offset num + 2 * (2 + j)) p' = (if j = unat (vq_next_avail q) mod num then head else load16 (avail_offset num + 2 * (2 + j)) p)"
    unfolding p' ring_after_publish(2) [OF n(1,2) j] using c by simp
  assume a: "4096 \<le> at"
  then have "avail_offset num \<le> at" using n(2) by (simp add: avail_offset_def kQueueSize_def)
  then show "load16 at p' = load16 at p \<and> load32 at p' = load32 at p" unfolding p' using ring_after_publish(3) [OF n(1,2) j a] c by simp
qed

lemma device_page:
  fixes p :: page and num k :: nat and nxt head :: u16 and e :: "u32 \<times> u32"
  assumes n: "0 < num" "num \<le> kQueueSize" and j: "j < num"
  defines "p' \<equiv> device_use num k e p"
  shows "load16 (4096 + 2) p' = of_nat (Suc k)"
    and "(load32 (4096 + 4 + j * 8) p', load32 (4096 + 4 + j * 8 + 4) p') =
         (if j = k mod num then e else (load32 (4096 + 4 + j * 8) p, load32 (4096 + 4 + j * 8 + 4) p))"
    and "at + 2 \<le> 4096 \<Longrightarrow> load16 at p' = load16 at p"
proof -
  have u: "used_offset num = 4096" by (rule used_offset_fixed [OF n])
  show "load16 (4096 + 2) p' = of_nat (Suc k)" by (simp add: p'_def device_use_def u)
  show "at + 2 \<le> 4096 \<Longrightarrow> load16 at p' = load16 at p" by (simp add: p'_def device_use_def u load16_other)
  show "(load32 (4096 + 4 + j * 8) p', load32 (4096 + 4 + j * 8 + 4) p') =
         (if j = k mod num then e else (load32 (4096 + 4 + j * 8) p, load32 (4096 + 4 + j * 8 + 4) p))"
  proof (cases "j = k mod num")
    case True
    then show ?thesis by (simp add: p'_def device_use_def u load32_other)
  next
    case False
    then have "j + 1 \<le> k mod num \<or> k mod num + 1 \<le> j" by auto
    then show ?thesis using False by (auto simp: p'_def device_use_def u load32_other)
  qed
qed

section \<open>The invariant\<close>

definition vq_inv :: "nat \<Rightarrow> vsys \<Rightarrow> bool" where
  "vq_inv num s \<longleftrightarrow>
     (let q = vs_q s; p = vq_page q
      in vq_size q = num \<and> vs_seen s \<le> length (vs_used s) \<and> length (vs_used s) \<le> vs_taken s \<and> vs_taken s \<le> length (vs_pub s) \<and>
         length (vs_pub s) \<le> vs_seen s + num \<and>
         vq_next_avail q = of_nat (length (vs_pub s)) \<and> load16 (avail_offset num + 2) p = of_nat (length (vs_pub s)) \<and>
         vq_last_used q = of_nat (vs_seen s) \<and> load16 (4096 + 2) p = of_nat (length (vs_used s)) \<and>
         (\<forall>k. vs_seen s \<le> k \<longrightarrow> k < length (vs_pub s) \<longrightarrow> load16 (avail_offset num + 2 * (2 + k mod num)) p = vs_pub s ! k) \<and>
         (\<forall>k. vs_seen s \<le> k \<longrightarrow> k < length (vs_used s) \<longrightarrow> (load32 (4096 + 4 + k mod num * 8) p, load32 (4096 + 4 + k mod num * 8 + 4) p) = vs_used s ! k))"

lemma publish_keeps:
  assumes inv: "vq_inv num s" and n: "0 < num" "num \<le> kQueueSize" "num dvd 65536" and room: "length (vs_pub s) < vs_seen s + num" and h: "unat head + length bufs \<le> num"
  shows "vq_inv num (s\<lparr>vs_q := publish head bufs (vs_q s), vs_pub := vs_pub s @ [head]\<rparr>)"
proof -
  let ?q = "vs_q s" let ?q' = "publish head bufs ?q" let ?m = "length (vs_pub s)"
  have i: "vq_size ?q = num" "vs_seen s \<le> length (vs_used s)" "length (vs_used s) \<le> vs_taken s" "vs_taken s \<le> ?m" "vq_next_avail ?q = of_nat ?m"
      "vq_last_used ?q = of_nat (vs_seen s)" "load16 (4096 + 2) (vq_page ?q) = of_nat (length (vs_used s))"
    using inv by (simp_all add: vq_inv_def Let_def)
  have av: "vs_seen s \<le> k \<Longrightarrow> k < ?m \<Longrightarrow> load16 (avail_offset num + 2 * (2 + k mod num)) (vq_page ?q) = vs_pub s ! k"
    and us: "vs_seen s \<le> k \<Longrightarrow> k < length (vs_used s) \<Longrightarrow> (load32 (4096 + 4 + k mod num * 8) (vq_page ?q), load32 (4096 + 4 + k mod num * 8 + 4) (vq_page ?q)) = vs_used s ! k" for k
    using inv unfolding vq_inv_def Let_def by blast+
  note pg = publish_page [OF n(1,2) i(1) h]
  have place: "unat (vq_next_avail ?q) mod num = ?m mod num" unfolding i(5) by (rule ring_place [OF n(3)])
  have "load16 (avail_offset num + 2 * (2 + k mod num)) (vq_page ?q') = (vs_pub s @ [head]) ! k" if k: "vs_seen s \<le> k" "k < Suc ?m" for k
  proof (cases "k = ?m")
    case True
    then show ?thesis using pg(2) [of "k mod num"] place n(1) by simp
  next
    case False
    then have "k mod num \<noteq> ?m mod num" using k room by (intro ring_apart) auto
    then show ?thesis using pg(2) [of "k mod num"] place n(1) av [of k] k False by (simp add: nth_append)
  qed
  moreover have keep: "4096 \<le> a \<Longrightarrow> load16 a (vq_page ?q') = load16 a (vq_page ?q) \<and> load32 a (vq_page ?q') = load32 a (vq_page ?q)" for a
    using pg(3) [of 0 a] n(1) by simp
  have "(load32 (4096 + 4 + k mod num * 8) (vq_page ?q'), load32 (4096 + 4 + k mod num * 8 + 4) (vq_page ?q')) = vs_used s ! k"
    if "vs_seen s \<le> k" "k < length (vs_used s)" for k
    using us [OF that] keep [of "4096 + 4 + k mod num * 8"] keep [of "4096 + 4 + k mod num * 8 + 4"] by simp
  moreover have "load16 (4096 + 2) (vq_page ?q') = of_nat (length (vs_used s))" using keep [of "4096 + 2"] i(7) by simp
  moreover have "load16 (avail_offset num + 2) (vq_page ?q') = of_nat (Suc ?m)" using pg(1) [of 0] n(1) i(5) by (simp add: add.commute)
  moreover have "vq_size ?q' = num" "vq_next_avail ?q' = of_nat (Suc ?m)" "vq_last_used ?q' = of_nat (vs_seen s)"
    using i(1,5,6) by (simp_all add: publish_def add.commute)
  ultimately show ?thesis using i(2-4) room unfolding vq_inv_def Let_def by simp
qed

lemma use_keeps:
  assumes inv: "vq_inv num s" and n: "0 < num" "num \<le> kQueueSize" and taken: "length (vs_used s) < vs_taken s"
  shows "vq_inv num (s\<lparr>vs_q := (vs_q s)\<lparr>vq_page := device_use num (length (vs_used s)) e (vq_page (vs_q s))\<rparr>, vs_used := vs_used s @ [e]\<rparr>)"
proof -
  let ?p = "vq_page (vs_q s)" let ?m = "length (vs_used s)" let ?p' = "device_use num ?m e ?p"
  have i: "vs_taken s \<le> length (vs_pub s)" "length (vs_pub s) \<le> vs_seen s + num" using inv by (simp_all add: vq_inv_def Let_def)
  have us: "vs_seen s \<le> k \<Longrightarrow> k < ?m \<Longrightarrow> (load32 (4096 + 4 + k mod num * 8) ?p, load32 (4096 + 4 + k mod num * 8 + 4) ?p) = vs_used s ! k" for k
    using inv unfolding vq_inv_def Let_def by blast
  note dp = device_page [OF n]
  have "(load32 (4096 + 4 + k mod num * 8) ?p', load32 (4096 + 4 + k mod num * 8 + 4) ?p') = (vs_used s @ [e]) ! k" if k: "vs_seen s \<le> k" "k < Suc ?m" for k
  proof (cases "k = ?m")
    case True
    then show ?thesis using dp(2) [of "k mod num" ?m e ?p] n(1) by simp
  next
    case False
    then have "k mod num \<noteq> ?m mod num" using k i taken by (intro ring_apart) auto
    then show ?thesis using dp(2) [of "k mod num" ?m e ?p] n(1) us [of k] k False by (simp add: nth_append)
  qed
  moreover have "load16 (avail_offset num + 2) ?p' = load16 (avail_offset num + 2) ?p" "k < num \<Longrightarrow> load16 (avail_offset num + 2 * (2 + k)) ?p' = load16 (avail_offset num + 2 * (2 + k)) ?p" for k
    by (rule dp(3) [of 0], use n in \<open>simp_all add: avail_offset_def kQueueSize_def\<close>)+
  moreover have "load16 (4096 + 2) ?p' = of_nat (Suc ?m)" using dp(1) [of 0] n(1) by simp
  ultimately show ?thesis using inv taken n(1) unfolding vq_inv_def Let_def by simp
qed

lemma harvest_exact:
  assumes inv: "vq_inv num s" and n: "0 < num" "num \<le> kQueueSize" "num dvd 65536" and h: "harvest status interrupt (vs_q s) = (q', r)"
  shows "ur_completed r \<longleftrightarrow> vs_seen s < length (vs_used s)" and "ur_completed r \<Longrightarrow> (ur_head r, ur_bytes r) = vs_used s ! vs_seen s"
    and "q' = (vs_q s)\<lparr>vq_last_used := of_nat (if ur_completed r then Suc (vs_seen s) else vs_seen s)\<rparr>"
proof -
  let ?q = "vs_q s"
  have i: "vq_size ?q = num" "vs_seen s \<le> length (vs_used s)" "length (vs_used s) < vs_seen s + 65536" "vq_last_used ?q = of_nat (vs_seen s)"
      "load16 (4096 + 2) (vq_page ?q) = of_nat (length (vs_used s))"
    using inv n(2) by (simp_all add: vq_inv_def Let_def kQueueSize_def)
  have us: "vs_seen s < length (vs_used s) \<Longrightarrow> (load32 (4096 + 4 + vs_seen s mod num * 8) (vq_page ?q), load32 (4096 + 4 + vs_seen s mod num * 8 + 4) (vq_page ?q)) = vs_used s ! vs_seen s"
    using inv unfolding vq_inv_def Let_def by blast
  have u: "used_offset num = 4096" by (rule used_offset_fixed [OF n(1,2)])
  have place: "unat (vq_last_used ?q) mod num = vs_seen s mod num" unfolding i(4) by (rule ring_place [OF n(3)])
  have e: "load16 (4096 + 2) (vq_page ?q) = vq_last_used ?q \<longleftrightarrow> vs_seen s = length (vs_used s)"
    unfolding i(4,5) using counts_equal [OF i(2,3)] by auto
  show c: "ur_completed r \<longleftrightarrow> vs_seen s < length (vs_used s)" using h e i(1,2) by (auto simp: harvest_def Let_def u split: if_splits)
  show "ur_completed r \<Longrightarrow> (ur_head r, ur_bytes r) = vs_used s ! vs_seen s"
    using h e us i(1) place c by (auto simp: harvest_def Let_def u split: if_splits)
  show "q' = (vs_q s)\<lparr>vq_last_used := of_nat (if ur_completed r then Suc (vs_seen s) else vs_seen s)\<rparr>"
    using h i(1,4) by (auto simp: harvest_def Let_def u add.commute split: if_splits)
qed

lemma harvest_keeps:
  assumes inv: "vq_inv num s" and n: "0 < num" "num \<le> kQueueSize" "num dvd 65536" and h: "harvest status interrupt (vs_q s) = (q', r)"
  shows "vq_inv num (s\<lparr>vs_q := q', vs_seen := (if ur_completed r then Suc (vs_seen s) else vs_seen s)\<rparr>)"
proof -
  note x = harvest_exact [OF assms]
  have "ur_completed r \<Longrightarrow> Suc (vs_seen s) \<le> length (vs_used s)" using x(1) by simp
  then show ?thesis using inv unfolding x(3) vq_inv_def Let_def by simp
qed

lemma vq_reach_inv:
  assumes n: "0 < num" "num \<le> kQueueSize" "num dvd 65536"
  shows "vq_reach num s \<Longrightarrow> vq_inv num s"
proof (induction rule: vq_reach.induct)
  case (start q)
  then show ?case by (simp add: vq_inv_def Let_def used_offset_fixed [OF n(1,2)])
next
  case (publishes s head bufs)
  then show ?case using publish_keeps n by blast
next
  case (takes s)
  then show ?case by (simp add: vq_inv_def Let_def)
next
  case (uses s e)
  then show ?case using use_keeps n(1,2) by blast
next
  case (harvests s status interrupt q' r)
  then show ?case using harvest_keeps n by blast
qed

text \<open>The stores of a publication before the last leave the index and the chains that are out alone.\<close>

lemma stored_untouched: "\<forall>s\<in>set ss. at + 2 \<le> fst s \<or> fst s + length (snd s) \<le> at \<Longrightarrow> load16 at (stored ss p) = load16 at p"
  by (induction ss arbitrary: p) (auto simp: load16_other)

lemma early_stores:
  assumes st: "publish_stores q head bufs = xs @ ys" "ys \<noteq> []" and h: "unat head + length bufs \<le> vq_size q" and x: "x \<in> set xs"
  shows "fst x + length (snd x) \<le> avail_offset (vq_size q) + 2 \<or> fst x = avail_offset (vq_size q) + 2 * (2 + unat (vq_next_avail q) mod vq_size q) \<and> length (snd x) = 2"
proof -
  have "butlast (publish_stores q head bufs) = xs @ butlast ys" using st by (simp add: butlast_append)
  then have "x \<in> set (butlast (publish_stores q head bufs))" using x by simp
  then consider "x \<in> set (chain_stores (unat head) bufs)" | "x = (avail_offset (vq_size q), bytes16 0)"
    | "x = (avail_offset (vq_size q) + 2 * (2 + unat (vq_next_avail q) mod vq_size q), bytes16 head)"
    by (auto simp: publish_stores_def ring_stores_def butlast_append)
  then show ?thesis using chain_stores_below [OF h] by cases fastforce+
qed

lemma publish_early:
  assumes inv: "vq_inv num s" and n: "num dvd 65536" and room: "length (vs_pub s) < vs_seen s + num" and h: "unat head + length bufs \<le> num"
    and st: "publish_stores (vs_q s) head bufs = xs @ ys" "ys \<noteq> []"
  shows "load16 (avail_offset num + 2) (stored xs (vq_page (vs_q s))) = of_nat (length (vs_pub s))"
    and "vs_seen s \<le> k \<Longrightarrow> k < length (vs_pub s) \<Longrightarrow> load16 (avail_offset num + 2 * (2 + k mod num)) (stored xs (vq_page (vs_q s))) = vs_pub s ! k"
proof -
  let ?q = "vs_q s" let ?m = "length (vs_pub s)"
  have i: "vq_size ?q = num" "vq_next_avail ?q = of_nat ?m" "load16 (avail_offset num + 2) (vq_page ?q) = of_nat ?m" using inv by (simp_all add: vq_inv_def Let_def)
  have h': "unat head + length bufs \<le> vq_size ?q" using h i(1) by simp
  have e: "x \<in> set xs \<Longrightarrow> fst x + length (snd x) \<le> avail_offset num + 2 \<or> fst x = avail_offset num + 2 * (2 + ?m mod num) \<and> length (snd x) = 2" for x
    using early_stores [OF st h', of x] unfolding i(1,2) ring_place [OF n] .
  show "load16 (avail_offset num + 2) (stored xs (vq_page ?q)) = of_nat ?m"
    unfolding i(3) [symmetric] by (rule stored_untouched) (use e in fastforce)
  assume k: "vs_seen s \<le> k" "k < ?m"
  then have "k mod num \<noteq> ?m mod num" using room by (intro ring_apart) auto
  then have "k mod num + 1 \<le> ?m mod num \<or> ?m mod num + 1 \<le> k mod num" by auto
  then have "load16 (avail_offset num + 2 * (2 + k mod num)) (stored xs (vq_page ?q)) = load16 (avail_offset num + 2 * (2 + k mod num)) (vq_page ?q)"
    by (intro stored_untouched) (use e in fastforce)
  then show "load16 (avail_offset num + 2 * (2 + k mod num)) (stored xs (vq_page ?q)) = vs_pub s ! k" using inv k by (simp add: vq_inv_def Let_def)
qed

section \<open>The properties\<close>

text \<open>
  C38. Used entries are harvested in order, each exactly once. In every interleaving of a driver and a device over
  a queue whose size is a power of two up to the largest the layout holds, a harvest completes exactly when the
  device has used an entry the driver has not seen, and then it answers the oldest such entry; the 16-bit
  counters may wrap as often as they like.
\<close>

theorem harvest_in_order:
  assumes "vq_reach num s" and "0 < num" and "num \<le> kQueueSize" and "num dvd 65536" and "harvest status interrupt (vs_q s) = (q', r)"
  shows "(ur_completed r \<longleftrightarrow> vs_seen s < length (vs_used s)) \<and> (ur_completed r \<longrightarrow> (ur_head r, ur_bytes r) = vs_used s ! vs_seen s)"
  using harvest_exact [OF vq_reach_inv [OF assms(2-4,1)] assms(2-5)] by blast

text \<open>
  C39. A chain becomes visible all at once, and in order. At every moment of a publication before its last store the
  device reads the index it read before and every chain that is out is still in its place of the ring; after the
  last store the index is one higher and the new chain is in the next place.
\<close>

theorem publish_at_once:
  assumes "vq_reach num s" and "0 < num" and "num \<le> kQueueSize" and "num dvd 65536" and "length (vs_pub s) < vs_seen s + num" and "unat head + length bufs \<le> num"
    and "publish_stores (vs_q s) head bufs = xs @ ys" and "p = stored xs (vq_page (vs_q s))"
  shows "load16 (avail_offset num + 2) p = of_nat (length (vs_pub s) + (if ys = [] then 1 else 0)) \<and>
    (\<forall>k. vs_seen s \<le> k \<longrightarrow> k < length (vs_pub s) + (if ys = [] then 1 else 0) \<longrightarrow> load16 (avail_offset num + 2 * (2 + k mod num)) p = (vs_pub s @ [head]) ! k)"
proof (cases "ys = []")
  case True
  note inv = vq_reach_inv [OF assms(2-4,1)]
  have "p = vq_page (publish head bufs (vs_q s))" using True assms(7,8) by (simp add: publish_def)
  then show ?thesis using publish_keeps [OF inv assms(2-6)] True unfolding vq_inv_def Let_def by simp
next
  case False
  note inv = vq_reach_inv [OF assms(2-4,1)]
  show ?thesis using publish_early [OF inv assms(4-7) False] False assms(8) by (simp add: nth_append)
qed

text \<open>
  The rings lie apart. Whatever size the device keeps of the one asked for, the descriptors, the available ring
  and the used ring with their event fields follow one another without overlap inside the two pages of a queue.
\<close>

lemma rings_apart:
  "let n = vq_size (fst (set_up a index (of_nat kQueueSize) q))
   in n * 16 \<le> avail_offset n \<and> avail_offset n + 4 + 2 * n + 2 \<le> used_offset n \<and> used_offset n + 4 + 8 * n + 2 \<le> kQueueBytes"
proof -
  let ?n = "vq_size (fst (set_up a index (of_nat kQueueSize) q))"
  have "unat (of_nat kQueueSize :: u32) = kQueueSize" by (simp add: kQueueSize_def)
  then have n: "?n \<le> kQueueSize" by (auto simp: set_up_def Let_def queue_size_def word_less_nat_alt)
  have "used_offset ?n = 4096" using used_offset_fixed [OF _ n] by (cases "?n = 0") (simp_all add: used_offset_def kPageBytes_def)
  then show ?thesis using n by (simp add: Let_def avail_offset_def kQueueSize_def kQueueBytes_def)
qed

section \<open>The properties at concrete inputs\<close>

definition ex_queue :: vqueue where
  "ex_queue = \<lparr>vq_page = (\<lambda>_. 0), vq_physical = 0x80000000, vq_index = 0, vq_size = 8, vq_next_avail = 0, vq_last_used = 0\<rparr>"

definition ex_start :: vsys where
  "ex_start = \<lparr>vs_q = ex_queue, vs_pub = [], vs_taken = 0, vs_used = [], vs_seen = 0\<rparr>"

definition ex_buf :: chain_buf where
  "ex_buf = \<lparr>cb_physical = 0x80002000, cb_bytes = 512, cb_writes = True\<rparr>"

lemma ex_start_reach: "vq_reach 8 ex_start"
  unfolding ex_start_def by (rule vq_reach.start) (simp_all add: ex_queue_def load16_def upt_rec)

definition ex_published :: vsys where
  "ex_published = ex_start\<lparr>vs_q := publish 0 [ex_buf] (vs_q ex_start), vs_pub := vs_pub ex_start @ [0]\<rparr>"

definition ex_taken :: vsys where
  "ex_taken = ex_published\<lparr>vs_taken := 1\<rparr>"

definition ex_used :: vsys where
  "ex_used = ex_taken\<lparr>vs_q := (vs_q ex_taken)\<lparr>vq_page := device_use 8 0 (0, 512) (vq_page (vs_q ex_taken))\<rparr>, vs_used := [(0, 512)]\<rparr>"

lemma ex_used_reach: "vq_reach 8 ex_used"
proof -
  have "vq_reach 8 ex_published" unfolding ex_published_def by (rule vq_reach.publishes [OF ex_start_reach]) (simp_all add: ex_start_def)
  then have "vq_reach 8 ex_taken" using vq_reach.takes [of 8 ex_published] by (simp add: ex_taken_def ex_published_def ex_start_def)
  then show ?thesis using vq_reach.uses [of 8 ex_taken "(0, 512)"] by (simp add: ex_used_def ex_taken_def ex_published_def ex_start_def)
qed

theorem harvest_in_order_witness:
  "\<exists>q' r. harvest 0 0 (vs_q ex_used) = (q', r) \<and> ur_completed r \<and> (ur_head r, ur_bytes r) = (0, 512)"
proof -
  obtain q' r where h: "harvest 0 0 (vs_q ex_used) = (q', r)" by (rule prod.exhaust)
  have s: "vs_seen ex_used = 0" "vs_used ex_used = [(0, 512)]" by (simp_all add: ex_used_def ex_taken_def ex_published_def ex_start_def)
  show ?thesis using harvest_in_order [OF ex_used_reach _ _ _ h] h s by (simp add: kQueueSize_def)
qed

theorem publish_at_once_witness:
  "load16 (avail_offset 8 + 2) (stored (publish_stores ex_queue 0 [ex_buf]) (vq_page ex_queue)) = 1 \<and>
   load16 (avail_offset 8 + 4) (stored (publish_stores ex_queue 0 [ex_buf]) (vq_page ex_queue)) = 0"
proof -
  have s: "vs_q ex_start = ex_queue" "vs_pub ex_start = []" "vs_seen ex_start = 0" by (simp_all add: ex_start_def)
  show ?thesis
    using publish_at_once [OF ex_start_reach, of 0 "[ex_buf]" "publish_stores ex_queue 0 [ex_buf]" "[]" "stored (publish_stores ex_queue 0 [ex_buf]) (vq_page ex_queue)"]
    unfolding s by (auto simp: kQueueSize_def)
qed

end
