(* ===== verification/Gpt_Table.thy ===== *)
theory Gpt_Table
  imports Aegir_Prelude
begin

text \<open>
  The partition table of a disk: the words of a GUID partition table,
  \<^verbatim>\<open>src/apps/freestanding/aegir-partmgr/src/gpt.cc\<close>, and the walk of the partition manager over its entries in
  window-sized runs of sectors, \<^verbatim>\<open>src/apps/freestanding/aegir-partmgr/src/main.cc\<close>. The disk is a parameter: its
  bytes, and which reads it refuses.
\<close>

section \<open>The words on disk\<close>

definition word64 :: "u8 list \<Rightarrow> nat \<Rightarrow> u64" where
  "word64 s at = of_nat (le_nat (bslice at 8 s))"

definition word32 :: "u8 list \<Rightarrow> nat \<Rightarrow> u32" where
  "word32 s at = of_nat (le_nat (bslice at 4 s))"

record gpt_partition =
  gp_type :: "u8 list"
  gp_first_lba :: u64
  gp_last_lba :: u64
  gp_name :: "u8 list"

definition kAegirSystem :: "u8 list" where
  "kAegirSystem = [0x11, 0x88, 0xd5, 0x5c, 0xf5, 0x9b, 0xf3, 0x4a, 0x86, 0x82, 0x9b, 0x76, 0xed, 0xce, 0x35, 0x35]"

definition system_volume :: "gpt_partition \<Rightarrow> bool" where
  "system_volume p \<longleftrightarrow> gp_type p = kAegirSystem"

definition protective_mbr :: "u8 list \<Rightarrow> bool" where
  "protective_mbr s \<longleftrightarrow> s ! 510 = 0x55 \<and> s ! 511 = 0xaa \<and> list_ex (\<lambda>e. s ! (446 + e * 16 + 4) = 0xee) [0..<4]"

definition kSignature :: "u8 list" where
  "kSignature = [0x45, 0x46, 0x49, 0x20, 0x50, 0x41, 0x52, 0x54]"

definition gpt_header :: "u8 list \<Rightarrow> (u64 \<times> u32 \<times> u32) option" where
  "gpt_header s = (if bslice 0 8 s \<noteq> kSignature then None else Some (word64 s 72, word32 s 80, word32 s 84))"

text \<open>The name: code units of 16 bits, up to the first that is zero or not a single byte, at most 36.\<close>

definition gpt_name :: "u8 list \<Rightarrow> u8 list" where
  "gpt_name raw = map (\<lambda>i. raw ! (56 + i * 2)) (takeWhile (\<lambda>i. raw ! (56 + i * 2 + 1) = 0 \<and> raw ! (56 + i * 2) \<noteq> 0) [0..<36])"

definition gpt_entry :: "u8 list \<Rightarrow> nat \<Rightarrow> gpt_partition option" where
  "gpt_entry raw bytes =
     (if bytes < 128 \<or> list_all (\<lambda>b. b = 0) (bslice 0 16 raw) then None
      else Some \<lparr>gp_type = bslice 0 16 raw, gp_first_lba = word64 raw 32, gp_last_lba = word64 raw 40, gp_name = gpt_name raw\<rparr>)"

section \<open>The walk\<close>

text \<open>The disk by bytes, and the sectors a read is asked for: 48 bits of the first and 16 of the number.\<close>

record disk =
  dk_byte :: "nat \<Rightarrow> u8"
  dk_refuses :: "nat \<Rightarrow> bool"

definition pack_read :: "u64 \<Rightarrow> u32 \<Rightarrow> u64" where
  "pack_read first n = (first AND 0xffffffffffff) OR push_bit 48 (ucast (n - 1))"

definition read_first :: "u64 \<Rightarrow> u64" where
  "read_first packed = packed AND 0xffffffffffff"

definition disk_read :: "disk \<Rightarrow> nat \<Rightarrow> nat \<Rightarrow> u8 list option" where
  "disk_read d first n = (if dk_refuses d first then None else Some (map (dk_byte d) [first * 512..<(first + n) * 512]))"

definition walkable :: "nat \<Rightarrow> bool" where
  "walkable eb \<longleftrightarrow> eb \<ge> 128 \<and> (if eb \<le> 512 then 512 mod eb = 0 else eb mod 512 = 0)"

definition entries_per_chunk :: "nat \<Rightarrow> nat \<Rightarrow> nat" where
  "entries_per_chunk window eb =
     (if walkable eb then if eb \<le> 512 then window * (512 div eb) mod 2 ^ 32 else window div (eb div 512) else 0)"

text \<open>The entries of one run of sectors, with their numbers.\<close>

definition chunk_entries :: "u8 list \<Rightarrow> nat \<Rightarrow> nat \<Rightarrow> nat \<Rightarrow> (nat \<times> gpt_partition) list" where
  "chunk_entries shared eb base here =
     List.map_filter (\<lambda>e. map_option (Pair (base + e)) (gpt_entry (drop (e * eb) shared) eb)) [0..<here]"

definition chunk_sectors :: "nat \<Rightarrow> nat \<Rightarrow> nat" where
  "chunk_sectors here eb = (here * eb + 511) div 512 mod 2 ^ 32"

definition chunk_first :: "u64 \<Rightarrow> nat \<Rightarrow> nat \<Rightarrow> nat" where
  "chunk_first lba base eb = unat (read_first (lba + of_nat (base * eb) div 512))"

text \<open>
  The loop over the runs; a read that is refused ends it with what was found. The counter is of 32 bits, so the
  fuel bounds the loop and \<open>None\<close> is a walk that does not end.
\<close>

fun gpt_walk :: "nat \<Rightarrow> disk \<Rightarrow> nat \<Rightarrow> u64 \<Rightarrow> nat \<Rightarrow> nat \<Rightarrow> nat \<Rightarrow> (nat \<times> gpt_partition) list option" where
  "gpt_walk fuel d window lba num eb base =
     (if entries_per_chunk window eb = 0 \<or> num \<le> base then Some []
      else
        let here = min (num - base) (entries_per_chunk window eb)
        in case disk_read d (chunk_first lba base eb) (chunk_sectors here eb) of
             None \<Rightarrow> Some []
           | Some shared \<Rightarrow>
               (case fuel of
                  0 \<Rightarrow> None
                | Suc n \<Rightarrow> map_option ((@) (chunk_entries shared eb base here))
                             (gpt_walk n d window lba num eb ((base + entries_per_chunk window eb) mod 2 ^ 32))))"

declare gpt_walk.simps [simp del]

section \<open>Entries read back\<close>

definition encode_entry :: "gpt_partition \<Rightarrow> u8 list" where
  "encode_entry p = gp_type p @ replicate 16 0 @ nat_le 8 (unat (gp_first_lba p)) @ nat_le 8 (unat (gp_last_lba p)) @ replicate 8 0 @
     concat (map (\<lambda>b. [b, 0]) (gp_name p)) @ replicate (72 - 2 * length (gp_name p)) 0"

definition partition_ok :: "gpt_partition \<Rightarrow> bool" where
  "partition_ok p \<longleftrightarrow> length (gp_type p) = 16 \<and> \<not> list_all (\<lambda>b. b = 0) (gp_type p) \<and> length (gp_name p) \<le> 36 \<and> 0 \<notin> set (gp_name p)"

lemma units_nth: "i < length bs \<Longrightarrow> concat (map (\<lambda>b. [b, 0]) bs) ! (2 * i) = bs ! i \<and> concat (map (\<lambda>b. [b, 0]) bs) ! (2 * i + 1) = (0 :: u8)"
proof (induction bs arbitrary: i)
  case (Cons b bs)
  then show ?case by (cases i) auto
qed simp

lemma units_length: "length (concat (map (\<lambda>b. [b, 0 :: u8]) bs)) = 2 * length bs"
  by (induction bs) auto

lemma gpt_le_nat_word: "le_nat (nat_le 8 (unat v)) = unat v" for v :: u64
  using unsigned_less [where 'a = nat, of v] by (simp add: le_nat_nat_le)

lemma takeWhile_prefix: "n \<le> m \<Longrightarrow> (\<And>i. i < n \<Longrightarrow> P i) \<Longrightarrow> (n < m \<Longrightarrow> \<not> P n) \<Longrightarrow> takeWhile P [0..<m] = [0..<n]"
proof -
  assume a: "n \<le> m" "\<And>i. i < n \<Longrightarrow> P i" "n < m \<Longrightarrow> \<not> P n"
  have "[0..<m] = [0..<n] @ [n..<m]" using a(1) upt_add_eq_append [of 0 n "m - n"] by simp
  moreover have "takeWhile P [n..<m] = []" using a(3) by (cases "n < m") (simp_all add: upt_conv_Cons)
  ultimately show ?thesis using a(2) takeWhile_append2 [of "[0..<n]" P "[n..<m]"] by simp
qed

text \<open>An entry written in the format of the disk reads back as the partition it describes.\<close>

lemma entry_roundtrip:
  assumes "partition_ok p"
  shows "gpt_entry (encode_entry p) 128 = Some p"
proof -
  let ?n = "gp_name p" let ?raw = "encode_entry p" let ?u = "concat (map (\<lambda>b. [b, 0]) ?n)"
  have ok: "length (gp_type p) = 16" "length ?n \<le> 36" "0 \<notin> set ?n" using assms by (auto simp: partition_ok_def)
  have slices: "bslice 0 16 ?raw = gp_type p" "bslice 32 8 ?raw = nat_le 8 (unat (gp_first_lba p))" "bslice 40 8 ?raw = nat_le 8 (unat (gp_last_lba p))"
    using ok(1) by (simp_all add: bslice_def encode_entry_def)
  have at: "?raw ! (56 + j) = (?u @ replicate (72 - 2 * length ?n) 0) ! j" for j
    using ok(1) by (simp add: encode_entry_def nth_append)
  have unit: "i < length ?n \<Longrightarrow> ?raw ! (56 + i * 2) = ?n ! i \<and> ?raw ! (56 + i * 2 + 1) = 0" for i
    using at [of "i * 2"] at [of "i * 2 + 1"] units_nth [of i ?n] units_length [of ?n] by (simp add: nth_append mult.commute)
  have stop: "length ?n < 36 \<Longrightarrow> ?raw ! (56 + length ?n * 2) = 0"
    using at [of "length ?n * 2"] units_length [of ?n] by (simp add: nth_append mult.commute)
  have "takeWhile (\<lambda>i. ?raw ! (56 + i * 2 + 1) = 0 \<and> ?raw ! (56 + i * 2) \<noteq> 0) [0..<36] = [0..<length ?n]"
    using ok unit stop by (intro takeWhile_prefix) (auto simp: in_set_conv_nth)
  then have "gpt_name ?raw = map (\<lambda>i. ?n ! i) [0..<length ?n]" unfolding gpt_name_def using unit by (auto intro!: map_cong)
  then have "gpt_name ?raw = ?n" by (simp add: map_nth)
  then show ?thesis using assms slices by (simp add: gpt_entry_def partition_ok_def word64_def gpt_le_nat_word)
qed

section \<open>The walk finds every partition\<close>

definition disk_entry :: "disk \<Rightarrow> nat \<Rightarrow> nat \<Rightarrow> nat \<Rightarrow> gpt_partition option" where
  "disk_entry d lba eb i = gpt_entry (map (dk_byte d) [lba * 512 + i * eb..<lba * 512 + i * eb + eb]) eb"

lemma gpt_entry_take:
  assumes "128 \<le> n" and "n \<le> length raw"
  shows "gpt_entry raw b = gpt_entry (take n raw) b"
proof -
  have "bslice at k (take n raw) = bslice at k raw" if "at + k \<le> n" for at k using that by (simp add: bslice_def drop_take min_def)
  moreover have "gpt_name (take n raw) = gpt_name raw"
  proof -
    have "takeWhile (\<lambda>i. take n raw ! (56 + i * 2 + 1) = 0 \<and> take n raw ! (56 + i * 2) \<noteq> 0) [0..<36] = takeWhile (\<lambda>i. raw ! (56 + i * 2 + 1) = 0 \<and> raw ! (56 + i * 2) \<noteq> 0) [0..<36]"
      using assms by (intro takeWhile_cong) auto
    moreover have "take n raw ! (56 + i * 2) = raw ! (56 + i * 2)" if "i \<in> set (takeWhile P [0..<36])" for i P
      using set_takeWhileD [OF that] assms by simp
    ultimately show ?thesis unfolding gpt_name_def by (metis (no_types, lifting) map_cong)
  qed
  ultimately show ?thesis using assms(1) by (simp add: gpt_entry_def word64_def)
qed

text \<open>The sectors of a run begin where its first entry does and hold all of its entries.\<close>

lemma chunk_bytes:
  assumes w: "walkable eb" and base: "base * eb mod 512 = 0" and b: "unat lba * 512 + base * eb < 2 ^ 57"
  shows "chunk_first lba base eb * 512 = unat lba * 512 + base * eb"
proof -
  obtain q where q: "base * eb = 512 * q" using base by (auto simp: mod_eq_0_iff_dvd)
  have small: "unat lba + q < 2 ^ 48" using b q by simp
  have "unat (of_nat (base * eb) :: u64) = 512 * q" unfolding q by (rule unat_of_nat_u64) (use small in simp)
  then have "unat (of_nat (base * eb) div 512 :: u64) = q" by (simp only: unat_div) simp
  then have "unat (lba + of_nat (base * eb) div 512) = unat lba + q" using small by (simp add: unat_word_ariths)
  moreover have "unat (x AND 0xffffffffffff) = unat x" if "unat x < 2 ^ 48" for x :: u64
  proof -
    have "(0xffffffffffff :: u64) = mask 48" by (simp add: mask_eq_exp_minus_1)
    then have "x AND 0xffffffffffff = take_bit 48 x" by (simp add: take_bit_eq_mask)
    then show ?thesis using that by (simp add: unsigned_take_bit_eq [of 48 x, unfolded take_bit_eq_mod] take_bit_eq_mod unat_mod)
  qed
  ultimately show ?thesis using small q by (simp add: chunk_first_def read_first_def)
qed

lemma map_filter_of_map: "List.map_filter f (map g xs) = List.map_filter (\<lambda>x. f (g x)) xs"
  by (induction xs) (auto simp: List.map_filter_simps split: option.splits)

lemma map_filter_agree: "(\<And>x. x \<in> set xs \<Longrightarrow> f x = g x) \<Longrightarrow> List.map_filter f xs = List.map_filter g xs"
  by (induction xs) (auto simp: List.map_filter_simps split: option.splits)

lemma map_filter_append: "List.map_filter f (xs @ ys) = List.map_filter f xs @ List.map_filter f ys"
  by (induction xs) (auto simp: List.map_filter_simps split: option.splits)

lemma chunk_exact:
  assumes w: "walkable eb" and base: "base * eb mod 512 = 0" and b: "unat lba * 512 + base * eb < 2 ^ 57"
    and room: "(here * eb + 511) div 512 < 2 ^ 32" and r: "disk_read d (chunk_first lba base eb) (chunk_sectors here eb) = Some shared"
  shows "chunk_entries shared eb base here = List.map_filter (\<lambda>i. map_option (Pair i) (disk_entry d (unat lba) eb i)) [base..<base + here]"
proof -
  let ?at = "unat lba * 512 + base * eb"
  have eb: "128 \<le> eb" using w by (simp add: walkable_def)
  have cs: "chunk_sectors here eb = (here * eb + 511) div 512" using room by (simp add: chunk_sectors_def)
  have sh: "shared = map (dk_byte d) [?at..<?at + chunk_sectors here eb * 512]"
    using r chunk_bytes [OF w base b] by (auto simp: disk_read_def add_mult_distrib split: if_splits)
  have len: "here * eb \<le> chunk_sectors here eb * 512" unfolding cs by linarith
  have e: "gpt_entry (drop (e * eb) shared) eb = disk_entry d (unat lba) eb (base + e)" if e: "e < here" for e
  proof -
    have le: "e * eb + eb \<le> here * eb" using e by (metis Suc_leI add.commute mult_Suc mult_le_mono1)
    then have "take eb (drop (e * eb) shared) = map (dk_byte d) [?at + e * eb..<?at + e * eb + eb]"
      using len unfolding sh by (simp add: drop_map take_map take_upt)
    then have "gpt_entry (take eb (drop (e * eb) shared)) eb = disk_entry d (unat lba) eb (base + e)" by (simp add: disk_entry_def algebra_simps)
    moreover have "eb \<le> length (drop (e * eb) shared)" using le len unfolding sh by simp
    ultimately show ?thesis using gpt_entry_take [OF eb, of "drop (e * eb) shared" eb] by simp
  qed
  have "[base..<base + here] = map (\<lambda>e. base + e) [0..<here]" using map_add_upt [of base here] by (simp add: add.commute)
  then have "List.map_filter (\<lambda>i. map_option (Pair i) (disk_entry d (unat lba) eb i)) [base..<base + here] =
      List.map_filter (\<lambda>e. map_option (Pair (base + e)) (disk_entry d (unat lba) eb (base + e))) [0..<here]"
    by (simp only: map_filter_of_map)
  also have "\<dots> = chunk_entries shared eb base here" unfolding chunk_entries_def using e by (intro map_filter_agree) simp
  finally show ?thesis by simp
qed

lemma walk_aligned:
  assumes "walkable eb" and "window * (512 div eb) < 2 ^ 32"
  shows "k * entries_per_chunk window eb * eb mod 512 = 0" and "entries_per_chunk window eb * eb \<le> window * 512"
proof -
  have "k * entries_per_chunk window eb * eb mod 512 = 0 \<and> entries_per_chunk window eb * eb \<le> window * 512"
  proof (cases "eb \<le> 512")
    case True
    then have "512 div eb * eb = 512" using assms(1) by (auto simp: walkable_def split: if_splits)
    then have e: "x * (512 div eb) * eb = x * 512" for x by (simp only: mult.assoc)
    have per: "entries_per_chunk window eb = window * (512 div eb)" using True assms by (simp add: entries_per_chunk_def)
    have "k * (window * (512 div eb)) * eb = k * window * 512" using e [of "k * window"] by (simp only: mult.assoc)
    then show ?thesis unfolding per e by (simp only: mod_mult_self2_is_0 order_refl simp_thms)
  next
    case False
    then have m: "eb mod 512 = 0" using assms(1) by (simp add: walkable_def)
    then obtain q where q: "eb = 512 * q" by (auto simp: mod_eq_0_iff_dvd)
    have "window div q * (512 * q) \<le> window * 512" using div_times_less_eq_dividend [of window q] by (simp add: mult.assoc mult.commute mult.left_commute)
    then show ?thesis using False assms(1) q by (simp add: entries_per_chunk_def)
  qed
  then show "k * entries_per_chunk window eb * eb mod 512 = 0" "entries_per_chunk window eb * eb \<le> window * 512" by auto
qed

lemma walk_from:
  assumes w: "walkable eb" "window * (512 div eb) < 2 ^ 32" "window < 2 ^ 32" and per: "0 < entries_per_chunk window eb" "num + entries_per_chunk window eb \<le> 2 ^ 32"
    and b: "unat lba * 512 + num * eb < 2 ^ 57" and ok: "\<forall>s. \<not> dk_refuses d s"
  shows "num - base \<le> fuel \<Longrightarrow> base = k * entries_per_chunk window eb \<Longrightarrow>
    gpt_walk fuel d window lba num eb base = Some (List.map_filter (\<lambda>i. map_option (Pair i) (disk_entry d (unat lba) eb i)) [base..<num])"
proof (induction fuel arbitrary: base k)
  case 0
  then show ?case by (simp add: gpt_walk.simps List.map_filter_simps)
next
  case (Suc fuel)
  let ?per = "entries_per_chunk window eb" let ?here = "min (num - base) ?per" let ?f = "\<lambda>i. map_option (Pair i) (disk_entry d (unat lba) eb i)"
  show ?case
  proof (cases "num \<le> base")
    case True
    then show ?thesis by (simp add: gpt_walk.simps List.map_filter_simps)
  next
    case False
    obtain shared where r: "disk_read d (chunk_first lba base eb) (chunk_sectors ?here eb) = Some shared" using ok by (simp add: disk_read_def)
    have "?here * eb \<le> window * 512" using walk_aligned(2) [OF w(1,2)] by (meson le_trans min.cobounded2 mult_le_mono1)
    then have room: "(?here * eb + 511) div 512 < 2 ^ 32" using w(3) by linarith
    have lt: "unat lba * 512 + base * eb < 2 ^ 57" using b False by (meson add_le_mono le_less_trans le_refl mult_le_mono1 nat_le_linear)
    have c: "chunk_entries shared eb base ?here = List.map_filter ?f [base..<base + ?here]"
      by (rule chunk_exact [OF w(1) _ lt room r]) (use walk_aligned(1) [OF w(1,2)] Suc.prems(2) in simp)
    have nxt: "(base + ?per) mod 2 ^ 32 = base + ?per" using False per(2) by simp
    have "gpt_walk (Suc fuel) d window lba num eb base = map_option ((@) (List.map_filter ?f [base..<base + ?here])) (gpt_walk fuel d window lba num eb (base + ?per))"
      using False per(1) r c nxt by (simp add: gpt_walk.simps [of "Suc fuel"] Let_def)
    also have "gpt_walk fuel d window lba num eb (base + ?per) = Some (List.map_filter ?f [base + ?per..<num])"
      using Suc.prems per(1) by (intro Suc.IH [of _ "Suc k"]) simp_all
    finally have g: "gpt_walk (Suc fuel) d window lba num eb base = Some (List.map_filter ?f [base..<base + ?here] @ List.map_filter ?f [base + ?per..<num])" by simp
    have "[base..<num] = [base..<base + ?here] @ [base + ?per..<num]"
      using False upt_add_eq_append [of base "base + ?per" "num - (base + ?per)"] by (cases "num - base \<le> ?per") (simp_all add: min_def)
    then show ?thesis unfolding g by (simp add: map_filter_append)
  qed
qed


text \<open>A disk with one partition, the second entry of a table of four, read through a window of one sector.\<close>

definition ex_partition :: gpt_partition where
  "ex_partition = \<lparr>gp_type = kAegirSystem, gp_first_lba = 2048, gp_last_lba = 4095, gp_name = [0x53, 0x79, 0x73]\<rparr>"

definition ex_disk :: disk where
  "ex_disk = \<lparr>dk_byte = (\<lambda>a. if 1152 \<le> a \<and> a < 1280 then encode_entry ex_partition ! (a - 1152) else 0), dk_refuses = (\<lambda>_. False)\<rparr>"

lemma ex_partition_ok: "partition_ok ex_partition"
  by (simp add: partition_ok_def ex_partition_def kAegirSystem_def)

lemma ex_disk_entry: "disk_entry ex_disk 2 128 1 = Some ex_partition"
proof -
  have len: "length (encode_entry ex_partition) = 128" by (simp add: encode_entry_def ex_partition_def kAegirSystem_def)
  have "map (\<lambda>a. if at \<le> a \<and> a < at + length xs then xs ! (a - at) else 0) [at..<at + length xs] = xs" for at and xs :: "u8 list"
    by (rule nth_equalityI) auto
  from this [of 1152 "encode_entry ex_partition"]
  have "map (dk_byte ex_disk) [1152..<1280] = encode_entry ex_partition" unfolding len by (simp add: ex_disk_def del: upt_rec_numeral)
  then show ?thesis using entry_roundtrip [OF ex_partition_ok] by (simp add: disk_entry_def)
qed


end
