(* ===== verification/Bfs_Writer_Base.thy ===== *)
theory Bfs_Writer_Base
  imports Bfs_Allocator
begin

text \<open>
  The streams of the writing half of the Be File System library,
  \<^verbatim>\<open>src/libs/freestanding/aegir-bfs/src/writer.cc\<close>: counting, growing, cutting and freeing the runs of a
  stream. The state is the writer's own (the buffers that keep a value from one call to the next, and the
  allocator) beside the volume, the journal and the device. Of the buffers, \<^verbatim>\<open>inode_\<close>, \<^verbatim>\<open>stream_\<close>, \<^verbatim>\<open>hdr_\<close>, \<^verbatim>\<open>node_\<close> and
  \<^verbatim>\<open>parent_\<close> are fields; \<^verbatim>\<open>work_\<close>, \<^verbatim>\<open>fresh_\<close>, \<^verbatim>\<open>split_src_\<close>, \<^verbatim>\<open>attr_\<close>, \<^verbatim>\<open>tree_\<close> and \<^verbatim>\<open>zero_\<close> are filled where they are used and
  never read after a call that could fill them again, and are values.
\<close>

section \<open>The state and its operations\<close>

record writer =
  bw_alloc :: allocator
  bw_inode :: "u8 list"
  bw_stream :: "u8 list"
  bw_hdr :: "u8 list"
  bw_node :: "u8 list"
  bw_parent :: "u8 list"
  bw_type :: u32
  bw_edit :: nat

text \<open>An operation answers \<open>None\<close> where the source returns false, with the state it leaves.\<close>

type_synonym 'a wop = "writer \<times> fs \<Rightarrow> (writer \<times> fs) \<times> 'a option"

definition give :: "'a \<Rightarrow> 'a wop" where
  "give x s = (s, Some x)"

definition refuse :: "'a wop" where
  "refuse s = (s, None)"

definition bindw :: "'a wop \<Rightarrow> ('a \<Rightarrow> 'b wop) \<Rightarrow> 'b wop" where
  "bindw m f s = (case m s of (s', None) \<Rightarrow> (s', None) | (s', Some x) \<Rightarrow> f x s')"

text \<open>A call whose answer the caller looks at, or throws away.\<close>

definition attempt :: "'a wop \<Rightarrow> 'a option wop" where
  "attempt m s = (case m s of (s', r) \<Rightarrow> (s', Some r))"

definition demand :: "bool \<Rightarrow> unit wop" where
  "demand b = (if b then give () else refuse)"

definition asks :: "(writer \<Rightarrow> volume \<Rightarrow> 'a) \<Rightarrow> 'a wop" where
  "asks f s = (s, Some (f (fst s) (fst (snd s))))"

definition changes :: "(writer \<Rightarrow> writer) \<Rightarrow> unit wop" where
  "changes f s = ((f (fst s), snd s), Some ())"

definition on_disk :: "'a wr \<Rightarrow> 'a wop" where
  "on_disk m s = (case m (snd s) of (fs', r) \<Rightarrow> ((fst s, fs'), r))"

text \<open>A loop that stops at the first refusal, without and with a value carried along.\<close>

fun each :: "('a \<Rightarrow> unit wop) \<Rightarrow> 'a list \<Rightarrow> unit wop" where
  "each f [] = give ()"
| "each f (x # xs) = bindw (f x) (\<lambda>_. each f xs)"

fun carry :: "('b \<Rightarrow> 'a \<Rightarrow> 'b wop) \<Rightarrow> 'b \<Rightarrow> 'a list \<Rightarrow> 'b wop" where
  "carry f acc [] = give acc"
| "carry f acc (x # xs) = bindw (f acc x) (\<lambda>acc'. carry f acc' xs)"

text \<open>A block into a scratch buffer, a block into \<^verbatim>\<open>node_\<close>, and a block through the journal.\<close>

definition fetch_block :: "nat \<Rightarrow> u8 list wop" where
  "fetch_block block = on_disk (reading (\<lambda>jo. rd_block jo (wrap64 block)))"

definition keep_node :: "u8 list \<Rightarrow> unit wop" where
  "keep_node b = changes (\<lambda>w. w\<lparr>bw_node := bsplice 0 b (bw_node w)\<rparr>)"

definition load_block :: "nat \<Rightarrow> u8 list wop" where
  "load_block block = bindw (fetch_block block) (\<lambda>b. bindw (keep_node b) (\<lambda>_. give b))"

definition store_block :: "nat \<Rightarrow> u8 list \<Rightarrow> unit wop" where
  "store_block block b = on_disk (put_block False (wrap64 block) b)"

definition alloc_run :: "nat \<Rightarrow> nat \<Rightarrow> run wop" where
  "alloc_run most least s =
     (case allocate most least (bw_alloc (fst s), snd s) of
        ((a, fs'), res) \<Rightarrow>
          (((fst s)\<lparr>bw_alloc := a\<rparr>, fs'), case res of Given r \<Rightarrow> Some r | NoRun \<Rightarrow> None | OutOfBuffer \<Rightarrow> None))"

definition release_run :: "run \<Rightarrow> unit wop" where
  "release_run r s =
     (case free_run r (bw_alloc (fst s), snd s) of
        ((a, fs'), ok) \<Rightarrow> (((fst s)\<lparr>bw_alloc := a\<rparr>, fs'), if ok then Some () else None))"

text \<open>Giving back what was allocated on the way out of a failure.\<close>

definition give_back :: "run list \<Rightarrow> 'a wop" where
  "give_back rs = bindw (each (\<lambda>r. bindw (attempt (release_run r)) (\<lambda>_. give ())) rs) (\<lambda>_. refuse)"

text \<open>\<open>m\<close>, and what was allocated given back when it refuses.\<close>

definition or_give_back :: "'a wop \<Rightarrow> run list \<Rightarrow> 'a wop" where
  "or_give_back m rs = bindw (attempt m) (\<lambda>r. case r of None \<Rightarrow> give_back rs | Some x \<Rightarrow> give x)"

definition zero_blocks :: "run \<Rightarrow> unit wop" where
  "zero_blocks r =
     bindw (asks (\<lambda>w v. (to_block v r, vol_block_size v)))
       (\<lambda>(at, bs). each (\<lambda>b. store_block (at + b) (replicate bs 0)) [0..<unat (run_len r)])"

section \<open>Counting the blocks of a stream\<close>

definition kNumArrayBlocks :: nat where "kNumArrayBlocks = 4"
definition kDoubleIndirectArraySize :: nat where "kDoubleIndirectArraySize = 4096"
definition ds_kMaxDirectRange :: nat where "ds_kMaxDirectRange = 96"
definition ds_kMaxIndirectRange :: nat where "ds_kMaxIndirectRange = 112"
definition ds_kMaxDoubleIndirectRange :: nat where "ds_kMaxDoubleIndirectRange = 128"

definition zero_run :: run where "zero_run = run_make 0 0 0"

definition blocks_for :: "nat \<Rightarrow> nat \<Rightarrow> nat" where
  "blocks_for bytes block_size = wrap32 (wrap64 (bytes + block_size - 1) div block_size)"

definition double_indirect_blocks :: "volume \<Rightarrow> nat" where
  "double_indirect_blocks v =
     (if vol_block_size v > kDoubleIndirectArraySize then 1 else kDoubleIndirectArraySize div vol_block_size v)"

definition run_total :: "run list \<Rightarrow> nat" where
  "run_total rs = sum_list (map (\<lambda>r. unat (run_len r)) rs)"

text \<open>
  The array blocks from \<open>at\<close> on, \<open>n\<close> of them. \<open>Inl\<close> is the end of the stream, a zero run or a block that cannot
  be read; \<open>Inr\<close> is arrays full to the last slot.
\<close>

fun count_arrays :: "(nat \<Rightarrow> u8 list wop) \<Rightarrow> nat \<Rightarrow> nat \<Rightarrow> nat \<Rightarrow> (nat + nat) wop" where
  "count_arrays get at 0 covered = give (Inr covered)"
| "count_arrays get at (Suc n) covered =
     bindw (attempt (get at))
       (\<lambda>res. case res of
          None \<Rightarrow> give (Inl covered)
        | Some b \<Rightarrow>
            bindw (asks (\<lambda>w v. runs_per_block v))
              (\<lambda>per. let rs = runs_in b 0 per; sum = covered + run_total rs
                in if length rs < per then give (Inl sum) else count_arrays get (at + 1) n sum))"

fun count_array_runs :: "run list \<Rightarrow> nat \<Rightarrow> (nat + nat) wop" where
  "count_array_runs [] covered = give (Inr covered)"
| "count_array_runs (a # as) covered =
     bindw (asks (\<lambda>w v. to_block v a))
       (\<lambda>at. bindw (count_arrays fetch_block at (unat (run_len a)) covered)
         (\<lambda>res. case res of Inl c \<Rightarrow> give (Inl c) | Inr c \<Rightarrow> count_array_runs as c))"

fun count_double :: "nat \<Rightarrow> nat \<Rightarrow> nat \<Rightarrow> nat wop" where
  "count_double at 0 covered = give covered"
| "count_double at (Suc n) covered =
     bindw (attempt (load_block at))
       (\<lambda>res. case res of
          None \<Rightarrow> give covered
        | Some b \<Rightarrow>
            bindw (asks (\<lambda>w v. runs_per_block v))
              (\<lambda>per. let arrays = runs_in b 0 per
                in bindw (count_array_runs arrays covered)
                     (\<lambda>res. case res of
                        Inl c \<Rightarrow> give c
                      | Inr c \<Rightarrow> if length arrays < per then give c else count_double (at + 1) n c)))"

definition stream_blocks :: "u8 list \<Rightarrow> nat wop" where
  "stream_blocks stream =
     (let rs = runs_in stream ds_kDirect ds_kDirectCount;
          indirect = le_run stream ds_kIndirect; double = le_run stream ds_kDoubleIndirect
      in if length rs < ds_kDirectCount then give (run_total rs)
         else
           bindw (asks (\<lambda>w v. (to_block v indirect, to_block v double)))
             (\<lambda>(at, at2).
                bindw (count_arrays load_block at (unat (run_len indirect)) (run_total rs))
                  (\<lambda>res. case res of
                     Inl c \<Rightarrow> give c
                   | Inr c \<Rightarrow> count_double at2 (unat (run_len double)) c)))"

section \<open>Adding a run\<close>

text \<open>The run joined to the one before slot \<open>slot\<close>, or put into the slot; the length is sixteen bits.\<close>

definition place_run :: "u8 list \<Rightarrow> nat \<Rightarrow> nat \<Rightarrow> run \<Rightarrow> u8 list" where
  "place_run buf base slot r =
     (let before = le_run buf (base + (slot - 1) * 8)
      in if slot > 0 \<and> runs_contiguous before r
         then put_run buf (base + (slot - 1) * 8) (before\<lparr>run_len := run_len before + run_len r\<rparr>)
         else put_run buf (base + slot * 8) r)"

definition widen :: "nat \<Rightarrow> run \<Rightarrow> nat \<Rightarrow> u8 list \<Rightarrow> u8 list" where
  "widen field r block_size stream =
     put_le64 stream field (le64 stream field + of_nat (unat (run_len r) * block_size))"

text \<open>The first free slot of the indirect arrays; whether there was one.\<close>

fun append_indirect :: "run \<Rightarrow> nat \<Rightarrow> nat \<Rightarrow> bool wop" where
  "append_indirect r at 0 = give False"
| "append_indirect r at (Suc n) =
     bindw (load_block at)
       (\<lambda>b. bindw (asks (\<lambda>w v. runs_per_block v))
         (\<lambda>per. let j = length (runs_in b 0 per)
           in if j < per
              then bindw (keep_node (place_run b 0 j r))
                     (\<lambda>_. bindw (store_block at (place_run b 0 j r)) (\<lambda>_. give True))
              else append_indirect r (at + 1) n))"

text \<open>The pieces of one unit each that one array block takes, of the \<open>n\<close> that are left.\<close>

fun fill_pieces :: "nat \<Rightarrow> nat \<Rightarrow> u8 list \<Rightarrow> nat \<Rightarrow> run \<Rightarrow> nat \<Rightarrow> u8 list \<times> nat \<times> run \<times> nat" where
  "fill_pieces unit per work index r 0 = (work, index, r, 0)"
| "fill_pieces unit per work index r (Suc n) =
     (let work' = put_run work (index mod per * 8) (r\<lparr>run_len := of_nat unit\<rparr>);
          r' = r\<lparr>run_start := run_start r + of_nat unit, run_len := run_len r - of_nat unit\<rparr>
      in if Suc index mod per \<noteq> 0 then fill_pieces unit per work' (Suc index) r' n
         else (work', Suc index, r', n))"

text \<open>An array of runs for slot \<open>slot_at\<close> of \<^verbatim>\<open>node_\<close>, allocated when there is none.\<close>

definition array_of_slot :: "nat \<Rightarrow> nat \<Rightarrow> (run \<times> bool) wop" where
  "array_of_slot unit slot_at =
     bindw (asks (\<lambda>w v. le_run (bw_node w) slot_at))
       (\<lambda>slot.
          if \<not> run_is_zero slot then give (slot, False)
          else
            bindw (alloc_run unit unit)
              (\<lambda>array.
                 if unat (run_len array) < unit then give_back (if run_len array = 0 then [] else [array])
                 else
                   bindw (or_give_back (zero_blocks array) [array])
                     (\<lambda>_. bindw (changes (\<lambda>w. w\<lparr>bw_node := put_run (bw_node w) slot_at array\<rparr>))
                       (\<lambda>_. give (array, True)))))"

text \<open>
  The two loops of \<^verbatim>\<open>append_double\<close>. Every round places a piece, so the pieces left bound both. The inner one
  answers the index, the run and the pieces left, and whether \<^verbatim>\<open>node_\<close> has a new array.
\<close>

fun fill_array :: "nat \<Rightarrow> nat \<Rightarrow> nat \<Rightarrow> nat \<Rightarrow> nat \<Rightarrow> run \<Rightarrow> nat \<Rightarrow> bool \<Rightarrow> (nat \<times> run \<times> nat \<times> bool) wop" where
  "fill_array 0 unit per slot_at index r n wrote = give (index, r, n, wrote)"
| "fill_array (Suc fuel) unit per slot_at index r n wrote =
     bindw (array_of_slot unit slot_at)
       (\<lambda>(slot, fresh).
          bindw (asks (\<lambda>w v. to_block v slot + index div per))
            (\<lambda>data_block.
               bindw (fetch_block data_block)
                 (\<lambda>work.
                    case fill_pieces unit per work index r n of (work', index', r', n') \<Rightarrow>
                      bindw (store_block data_block work')
                        (\<lambda>_. if index' mod (per * unit) \<noteq> 0 \<and> n' \<noteq> 0
                              then fill_array fuel unit per slot_at index' r' n' (wrote \<or> fresh)
                              else give (index', r', n', wrote \<or> fresh)))))"

fun fill_double :: "nat \<Rightarrow> nat \<Rightarrow> nat \<Rightarrow> run \<Rightarrow> bool \<Rightarrow> nat \<Rightarrow> nat \<Rightarrow> run \<Rightarrow> nat \<Rightarrow> unit wop" where
  "fill_double 0 unit per double loaded indirect_index index r n = give ()"
| "fill_double (Suc fuel) unit per double loaded indirect_index index r n =
     (if n = 0 then give ()
      else if indirect_index div per \<ge> unat (run_len double) then refuse
      else
        bindw (asks (\<lambda>w v. to_block v double + indirect_index div per))
          (\<lambda>array_block.
             bindw (if loaded then give () else bindw (load_block array_block) (\<lambda>_. give ()))
               (\<lambda>_. bindw (fill_array n unit per (indirect_index mod per * 8) index r n False)
                 (\<lambda>(index', r', n', wrote).
                    bindw (if wrote then bindw (asks (\<lambda>w v. take (vol_block_size v) (bw_node w))) (store_block array_block)
                           else give ())
                      (\<lambda>_. let index2 = (if index' = per * unit then 0 else index'); next_index = Suc indirect_index
                            in if next_index mod per = 0 then fill_double fuel unit per double False next_index 0 r' n'
                               else fill_double fuel unit per double True next_index index2 r' n')))))"

text \<open>
  A stream whose double indirect range ends before its indirect range is corrupt; the code computes negative
  indices from it, and the model refuses.
\<close>

definition append_double :: "u8 list \<Rightarrow> run \<Rightarrow> u8 list wop" where
  "append_double stream r =
     bindw (asks (\<lambda>w v. (double_indirect_blocks v, runs_per_block v, vol_block_size v)))
       (\<lambda>(unit, per, bs).
          let double = le_run stream ds_kDoubleIndirect;
              max_indirect = sint (le64 stream ds_kMaxIndirectRange);
              max_double = sint (le64 stream ds_kMaxDoubleIndirectRange);
              start = nat (max_double - max_indirect);
              direct_size = unit * bs; indirect_size = unit * direct_size * per;
              n = unat (run_len r) div unit
          in if direct_size = 0 \<or> indirect_size = 0 \<or> max_double < max_indirect then refuse
             else
               bindw (fill_double (Suc n) unit per double False (start div indirect_size)
                        (start mod indirect_size div direct_size) r n)
                 (\<lambda>_. give (widen ds_kMaxDoubleIndirectRange r bs stream)))"

text \<open>The stream after, and the blocks at the end of the run it has no place for.\<close>

definition append_run :: "u8 list \<Rightarrow> run \<Rightarrow> (u8 list \<times> nat) wop" where
  "append_run stream r =
     bindw (asks (\<lambda>w v. (vol_block_size v, double_indirect_blocks v)))
       (\<lambda>(bs, unit).
          let slot = length (runs_in stream ds_kDirect ds_kDirectCount)
          in if slot < ds_kDirectCount
             then give (widen ds_kMaxDirectRange r bs (place_run stream ds_kDirect slot r), 0)
             else
               bindw (if \<not> run_is_zero (le_run stream ds_kIndirect) then give stream
                      else
                        bindw (alloc_run kNumArrayBlocks 1)
                          (\<lambda>array. if run_len array = 0 then refuse
                             else bindw (or_give_back (zero_blocks array) [array])
                                    (\<lambda>_. give (put_le64 (put_run stream ds_kIndirect array) ds_kMaxIndirectRange
                                                 (le64 stream ds_kMaxDirectRange)))))
                 (\<lambda>stream1. let indirect = le_run stream1 ds_kIndirect
                   in bindw (asks (\<lambda>w v. to_block v indirect))
                     (\<lambda>at. bindw (append_indirect r at (unat (run_len indirect)))
                       (\<lambda>found.
                          if found then give (widen ds_kMaxIndirectRange r bs stream1, 0)
                          else
                            bindw (if \<not> run_is_zero (le_run stream1 ds_kDoubleIndirect) then give stream1
                                   else
                                     bindw (alloc_run unit unit)
                                       (\<lambda>array.
                                          if unat (run_len array) < unit
                                          then give_back (if run_len array = 0 then [] else [array])
                                          else bindw (or_give_back (zero_blocks array) [array])
                                                 (\<lambda>_. give (put_le64 (put_run stream1 ds_kDoubleIndirect array)
                                                       ds_kMaxDoubleIndirectRange (le64 stream1 ds_kMaxIndirectRange)))))
                              (\<lambda>stream2.
                                 let len = unat (run_len r); usable = len div unit * unit
                                 in if unit \<noteq> 0 \<and> len mod unit \<noteq> 0
                                    then if usable = 0 then give (stream2, len)
                                         else bindw (append_double stream2 (r\<lparr>run_len := of_nat usable\<rparr>))
                                                (\<lambda>s. give (s, len - usable))
                                    else bindw (append_double stream2 r) (\<lambda>s. give (s, 0)))))))"

section \<open>Growing\<close>

text \<open>A fresh block is zeroed in its place, past the journal.\<close>

definition zero_now :: "run \<Rightarrow> unit wop" where
  "zero_now r =
     bindw (asks (\<lambda>w v. (to_block v r, vol_block_size v)))
       (\<lambda>(at, bs). each (\<lambda>b. on_disk (put_block True (wrap64 (at + b)) (replicate bs 0))) [0..<unat (run_len r)])"

text \<open>
  The runs until \<open>needed\<close> blocks are covered. A round that adds nothing raises \<^verbatim>\<open>min_unit\<close>, and the next one
  then adds something, so twice the missing blocks bound the rounds.
\<close>

fun grow_rounds :: "nat \<Rightarrow> nat \<Rightarrow> u8 list \<Rightarrow> nat \<Rightarrow> nat \<Rightarrow> (u8 list \<times> nat) wop" where
  "grow_rounds 0 min_unit stream needed covered = refuse"
| "grow_rounds (Suc fuel) min_unit stream needed covered =
     (if covered \<ge> needed then give (stream, covered)
      else
        bindw (alloc_run (min 65535 (max min_unit (needed - covered))) min_unit)
          (\<lambda>r.
             if min_unit > 1 \<and> unat (run_len r) < min_unit then give_back [r]
             else
               bindw (or_give_back (zero_now r) [r])
                 (\<lambda>_. bindw (or_give_back (append_run stream r) [r])
                   (\<lambda>(stream', rest).
                      let len = unat (run_len r);
                          tail = r\<lparr>run_start := run_start r + of_nat (len - rest), run_len := of_nat rest\<rparr>
                      in bindw (if rest \<noteq> 0 then bindw (attempt (release_run tail)) (\<lambda>_. give ()) else give ())
                           (\<lambda>_. bindw (asks (\<lambda>w v. if rest \<noteq> 0 then double_indirect_blocks v else 1))
                             (\<lambda>unit. grow_rounds fuel unit stream' needed (covered + (len - rest))))))))"

definition grow_to :: "u8 list \<Rightarrow> nat \<Rightarrow> nat \<Rightarrow> (u8 list \<times> nat) wop" where
  "grow_to stream needed covered = grow_rounds (2 * (needed - covered) + 1) 1 stream needed covered"

function zero_range :: "u8 list \<Rightarrow> nat \<Rightarrow> nat \<Rightarrow> unit wop" where
  "zero_range stream pos to =
     (if pos < to then
        let chunk = min (to - pos) kMaxBlockSize
        in bindw (on_disk (write_stream_direct stream pos (replicate chunk 0)))
             (\<lambda>_. zero_range stream (pos + chunk) to)
      else give ())"
  by pat_completeness auto
termination by (relation "measure (\<lambda>(stream, pos, to). to - pos)") (auto simp: kMaxBlockSize_def)

declare zero_range.simps [simp del]

section \<open>Freeing and cutting\<close>

fun free_arrays :: "nat \<Rightarrow> nat \<Rightarrow> (nat \<Rightarrow> u8 list wop) \<Rightarrow> unit wop" where
  "free_arrays at 0 get = give ()"
| "free_arrays at (Suc n) get =
     bindw (get at)
       (\<lambda>b. bindw (asks (\<lambda>w v. runs_per_block v))
         (\<lambda>per. bindw (each release_run (runs_in b 0 per)) (\<lambda>_. free_arrays (at + 1) n get)))"

text \<open>The arrays of a double indirect block, each freed after what it holds, by the call \<open>finally\<close>.\<close>

definition free_array_run :: "(run \<Rightarrow> unit wop) \<Rightarrow> run \<Rightarrow> unit wop" where
  "free_array_run finally a =
     bindw (asks (\<lambda>w v. to_block v a))
       (\<lambda>at. bindw (free_arrays at (unat (run_len a)) fetch_block) (\<lambda>_. finally a))"

fun free_double_blocks :: "(run \<Rightarrow> unit wop) \<Rightarrow> nat \<Rightarrow> nat \<Rightarrow> unit wop" where
  "free_double_blocks finally at 0 = give ()"
| "free_double_blocks finally at (Suc n) =
     bindw (load_block at)
       (\<lambda>b. bindw (asks (\<lambda>w v. runs_per_block v))
         (\<lambda>per. bindw (each (free_array_run finally) (runs_in b 0 per))
           (\<lambda>_. free_double_blocks finally (at + 1) n)))"

definition release_any :: "run \<Rightarrow> unit wop" where
  "release_any r = bindw (attempt (release_run r)) (\<lambda>_. give ())"

definition free_stream :: "u8 list \<Rightarrow> unit wop" where
  "free_stream stream =
     (let indirect = le_run stream ds_kIndirect; double = le_run stream ds_kDoubleIndirect
      in bindw (each release_run (runs_in stream ds_kDirect ds_kDirectCount))
           (\<lambda>_. bindw (asks (\<lambda>w v. (to_block v indirect, to_block v double)))
             (\<lambda>(at, at2).
                bindw (if run_is_zero indirect then give ()
                       else bindw (free_arrays at (unat (run_len indirect)) load_block) (\<lambda>_. release_any indirect))
                  (\<lambda>_. if run_is_zero double then give ()
                        else bindw (free_double_blocks release_any at2 (unat (run_len double)))
                               (\<lambda>_. release_any double)))))"

definition free_double :: "u8 list \<Rightarrow> u8 list wop" where
  "free_double stream =
     (let double = le_run stream ds_kDoubleIndirect
      in if run_is_zero double then give stream
         else
           bindw (asks (\<lambda>w v. to_block v double))
             (\<lambda>at. bindw (free_double_blocks release_run at (unat (run_len double)))
               (\<lambda>_. bindw (release_run double) (\<lambda>_. give (put_run stream ds_kDoubleIndirect zero_run)))))"

text \<open>
  The runs of one array cut to \<open>new_blocks\<close> blocks, of which \<open>logical\<close> are kept before it: the runs after, the
  blocks kept, and whether a run changed.
\<close>

fun cut_runs :: "nat \<Rightarrow> nat \<Rightarrow> run list \<Rightarrow> (run list \<times> nat \<times> bool) wop" where
  "cut_runs new_blocks logical [] = give ([], logical, False)"
| "cut_runs new_blocks logical (r # rs) =
     (if logical \<ge> new_blocks then
        bindw (release_run r)
          (\<lambda>_. bindw (cut_runs new_blocks logical rs) (\<lambda>(rs', l, _). give (zero_run # rs', l, True)))
      else if logical + unat (run_len r) \<le> new_blocks then
        bindw (cut_runs new_blocks (logical + unat (run_len r)) rs) (\<lambda>(rs', l, c). give (r # rs', l, c))
      else
        let kept = wrap32 (new_blocks - logical);
            tail = r\<lparr>run_start := run_start r + of_nat kept, run_len := run_len r - of_nat kept\<rparr>
        in bindw (release_run tail)
             (\<lambda>_. bindw (cut_runs new_blocks (logical + kept) rs)
               (\<lambda>(rs', l, _). give (r\<lparr>run_len := of_nat kept\<rparr> # rs', l, True))))"

fun store_runs :: "u8 list \<Rightarrow> nat \<Rightarrow> run list \<Rightarrow> u8 list" where
  "store_runs buf at [] = buf"
| "store_runs buf at (r # rs) = store_runs (put_run buf at r) (at + 8) rs"

fun cut_arrays :: "nat \<Rightarrow> nat \<Rightarrow> nat \<Rightarrow> nat \<Rightarrow> nat wop" where
  "cut_arrays new_blocks logical at 0 = give logical"
| "cut_arrays new_blocks logical at (Suc n) =
     bindw (load_block at)
       (\<lambda>b. bindw (asks (\<lambda>w v. runs_per_block v))
         (\<lambda>per. bindw (cut_runs new_blocks logical (runs_in b 0 per))
           (\<lambda>(rs, l, changed).
              let b' = store_runs b 0 rs
              in bindw (if changed then bindw (keep_node b') (\<lambda>_. store_block at b') else give ())
                   (\<lambda>_. cut_arrays new_blocks l (at + 1) n))))"

definition trim_stream :: "u8 list \<Rightarrow> nat \<Rightarrow> u8 list wop" where
  "trim_stream stream new_blocks =
     bindw (cut_runs new_blocks 0 (runs_in stream ds_kDirect ds_kDirectCount))
       (\<lambda>(rs, logical, _).
          let s1 = store_runs stream ds_kDirect rs; indirect = le_run s1 ds_kIndirect
          in bindw (asks (\<lambda>w v. (to_block v indirect, vol_block_size v)))
               (\<lambda>(at, bs).
                  bindw (if run_is_zero indirect then give (s1, logical)
                         else
                           bindw (cut_arrays new_blocks logical at (unat (run_len indirect)))
                             (\<lambda>l. if l \<le> unat (le64 s1 ds_kMaxDirectRange) div bs
                                  then bindw (release_run indirect)
                                         (\<lambda>_. give (put_le64 (put_run s1 ds_kIndirect zero_run) ds_kMaxIndirectRange 0, l))
                                  else give (s1, l)))
                    (\<lambda>(s2, l).
                       bindw (if run_is_zero (le_run s2 ds_kDoubleIndirect) then give s2
                              else if new_blocks > l then refuse
                              else bindw (free_double s2) (\<lambda>s. give (put_le64 s ds_kMaxDoubleIndirectRange 0)))
                         (\<lambda>s3.
                            let left = runs_in s3 ds_kDirect ds_kDirectCount;
                                s4 = put_le64 s3 ds_kMaxDirectRange (of_nat (run_total left * bs))
                            in give (if run_is_zero (le_run s4 ds_kIndirect) then put_le64 s4 ds_kMaxIndirectRange 0 else s4)))))"

end
