(* ===== verification/Bfs_Writer_Tree.thy ===== *)
theory Bfs_Writer_Tree
  imports Bfs_Writer_Base
begin

text \<open>
  The trees of the writing half of the library, \<^verbatim>\<open>src/libs/freestanding/aegir-bfs/src/writer.cc\<close>: building nodes,
  inserting with splits up to a new root, removing, and the indices with their chains of duplicates. The
  buffers \<^verbatim>\<open>node_\<close> and \<^verbatim>\<open>parent_\<close> belong to the writer and not to a call, and are modelled as such: a call that
  fills one changes it for its caller.
\<close>

section \<open>Building nodes\<close>

definition kTreeNodeSize :: nat where "kTreeNodeSize = 4096"
definition kMaxNodeEntries :: nat where "kMaxNodeEntries = (kTreeNodeSize - 28) div (2 + 8)"

definition build_frame :: "u64 \<Rightarrow> u64 \<Rightarrow> u64 \<Rightarrow> u16 \<Rightarrow> u16 \<Rightarrow> u8 list" where
  "build_frame left right overflow cnt all =
     put_le16 (put_le16 (put_le64 (put_le64 (put_le64 (replicate kMaxBlockSize 0)
       nd_kLeftLink left) nd_kRightLink right) nd_kOverflowLink overflow) nd_kKeyCount cnt) nd_kAllKeyLength all"

text \<open>
  The buffer has the size of the largest block, and a node the first \<open>node_size\<close> bytes of it: what does not fit is
  written behind them. The two loops over lengths and values write apart and are one here.
\<close>

definition build_node :: "nat \<Rightarrow> bool \<Rightarrow> u64 \<Rightarrow> u64 \<Rightarrow> u64 \<Rightarrow> (u8 list \<times> u64) list \<Rightarrow> u8 list" where
  "build_node node_size leaf left right overflow es =
     (let all = key_bytes es;
          frame = build_frame left right (if leaf then kNullLink else overflow) (of_nat (length es)) (of_nat all);
          lengths = unat (key_align (of_nat (nd_kFixed + all)))
      in take node_size
           (put_entries (bsplice nd_kFixed (concat (map fst es)) frame) lengths (lengths + length es * 2) 0 0 es))"

definition fresh_header :: tree_header where
  "fresh_header =
     \<lparr>th_node_size = of_nat kTreeNodeSize, th_max_levels = 1, th_data_type = kTreeStringType,
      th_root = of_nat kTreeNodeSize, th_free_node = kNullLink, th_maximum = of_nat (kTreeNodeSize * 2)\<rparr>"

definition build_dir_tree :: "u64 \<Rightarrow> u64 \<Rightarrow> u8 list" where
  "build_dir_tree self_block parent_block =
     (let node0 = put_le16 (put_le16 (put_le64 (put_le64 (put_le64 (replicate kTreeNodeSize 0)
                    nd_kLeftLink kNullLink) nd_kRightLink kNullLink) nd_kOverflowLink kNullLink) nd_kKeyCount 2) nd_kAllKeyLength 3;
          node1 = bsplice nd_kFixed [0x2e, 0x2e, 0x2e] node0;
          lengths = unat (key_align (of_nat (nd_kFixed + 3)));
          node2 = put_le16 (put_le16 node1 lengths 1) (lengths + 2) 3
      in tree_header_build (replicate kTreeNodeSize 0) fresh_header @
         put_le64 (put_le64 node2 (lengths + 2 * 2) self_block) (lengths + 2 * 2 + 8) parent_block)"

definition build_empty_tree :: "u8 list" where
  "build_empty_tree =
     tree_header_build (replicate kTreeNodeSize 0) fresh_header @
     put_le16 (put_le64 (put_le64 (put_le64 (replicate kTreeNodeSize 0)
       nd_kLeftLink kNullLink) nd_kRightLink kNullLink) nd_kOverflowLink kNullLink) nd_kKeyCount 0"

text \<open>The entries of a node, and its overflow link.\<close>

definition gather :: "u8 list \<Rightarrow> nat \<Rightarrow> ((u8 list \<times> u64) list \<times> u64) option" where
  "gather node node_size =
     (case node_info node node_size of
        None \<Rightarrow> None
      | Some info \<Rightarrow>
          let cnt = ni_count info
          in if cnt > kMaxNodeEntries then None
             else Some (map (\<lambda>i. case key_at node cnt i of
                                   None \<Rightarrow> ([], 0)
                                 | Some (key, len) \<Rightarrow> (bslice key len node, node_value node cnt i)) [0..<cnt],
                        ni_overflow info))"

section \<open>Halving a full node\<close>

text \<open>The new entry goes before the first key that is greater.\<close>

definition split_place :: "u32 \<Rightarrow> u8 list \<Rightarrow> (u8 list \<times> u64) list \<Rightarrow> nat" where
  "split_place data_type name es = length (takeWhile (\<lambda>e. \<not> key_compare_typed data_type name (fst e) < 0) es)"

definition combined :: "u32 \<Rightarrow> u8 list \<Rightarrow> u64 \<Rightarrow> (u8 list \<times> u64) list \<Rightarrow> (u8 list \<times> u64) list" where
  "combined data_type name val es =
     (let pos = split_place data_type name es in take pos es @ (name, val) # drop pos es)"

text \<open>
  The left image, the right image and the separator. A full leaf with no entry at all, which only a key no node
  can hold makes, leaves nothing for the left and is \<open>None\<close>.
\<close>

definition leaf_halves ::
  "u32 \<Rightarrow> nat \<Rightarrow> u8 list \<Rightarrow> u64 \<Rightarrow> u64 \<Rightarrow> u8 list \<Rightarrow> u64 \<Rightarrow> (u8 list \<times> u64) list \<Rightarrow> (u8 list \<times> u8 list \<times> u8 list) option" where
  "leaf_halves data_type node_size node offset other name val es =
     (let all = combined data_type name val es; m = length all div 2
      in if m = 0 then None
         else Some (build_node node_size True (le64 node nd_kLeftLink) other kNullLink (take m all),
                    build_node node_size True offset (le64 node nd_kRightLink) kNullLink (drop m all),
                    fst (all ! (m - 1))))"

definition internal_halves ::
  "u32 \<Rightarrow> nat \<Rightarrow> u8 list \<Rightarrow> u64 \<Rightarrow> u64 \<Rightarrow> u8 list \<Rightarrow> u64 \<Rightarrow> u64 \<Rightarrow> (u8 list \<times> u64) list \<Rightarrow> u64 \<Rightarrow> u8 list \<times> u8 list \<times> u8 list" where
  "internal_halves data_type node_size node offset other name val replace_with es overflow =
     (let all0 = combined data_type name val es; pos = split_place data_type name es; total = length all0;
          all1 = (if pos + 1 \<le> total - 1 then all0[pos + 1 := (fst (all0 ! (pos + 1)), replace_with)] else all0);
          overflow1 = (if pos + 1 \<le> total - 1 then overflow else replace_with);
          j0 = total div 2; j1 = (if j0 < 1 then 1 else j0); j = (if j1 \<ge> total then total - 1 else j1)
      in (build_node node_size False (le64 node nd_kLeftLink) other (snd (all1 ! j)) (take j all1),
          build_node node_size False offset (le64 node nd_kRightLink) overflow1 (drop (j + 1) all1),
          fst (all1 ! j)))"

section \<open>Access to the open tree\<close>

definition inode_view :: "u8 list \<Rightarrow> inode" where
  "inode_view b =
     \<lparr>i_mode = le32 b in_kMode, i_uid = 0, i_gid = 0, i_type = 0, i_size = le64 b (in_kData + ds_kSize),
      i_mtime = le64 b in_kLastModified, i_run = le_run b in_kInodeNum, i_parent = le_run b in_kParent,
      i_attributes = zero_run, i_name = [], i_data = inode_get_stream b\<rparr>"

definition read_inode_block :: "nat \<Rightarrow> u8 list wop" where
  "read_inode_block block =
     bindw (fetch_block block)
       (\<lambda>b. bindw (changes (\<lambda>w. w\<lparr>bw_inode := b\<rparr>))
         (\<lambda>_. if le32 b in_kMagic1 = kInodeMagic1 \<and> le32 b in_kFlags AND kInodeInUse \<noteq> 0 then give b else refuse))"

definition from_stream :: "inode \<Rightarrow> nat \<Rightarrow> nat \<Rightarrow> u8 list wop" where
  "from_stream i offset len = on_disk (reading (\<lambda>jo. read_stream jo i offset len))"

definition node_read :: "nat \<Rightarrow> nat \<Rightarrow> u8 list wop" where
  "node_read offset node_size = bindw (asks (\<lambda>w v. inode_view (bw_inode w))) (\<lambda>i. from_stream i offset node_size)"

definition load_node :: "nat \<Rightarrow> nat \<Rightarrow> u8 list wop" where
  "load_node offset node_size = bindw (node_read offset node_size) (\<lambda>b. bindw (keep_node b) (\<lambda>_. give b))"

definition node_write :: "nat \<Rightarrow> nat \<Rightarrow> u8 list \<Rightarrow> unit wop" where
  "node_write offset node_size node =
     bindw (asks (\<lambda>w v. bw_stream w)) (\<lambda>stream. on_disk (write_stream_raw stream offset (take node_size node)))"

definition header_write :: "unit wop" where
  "header_write = bindw (asks (\<lambda>w v. (bw_stream w, bw_hdr w))) (\<lambda>(stream, hdr). on_disk (write_stream_raw stream 0 hdr))"

text \<open>Node size, root and end of the tree of an inode, which becomes the open one.\<close>

definition writer_header :: "nat \<Rightarrow> (nat \<times> nat \<times> nat) wop" where
  "writer_header parent_block =
     bindw (read_inode_block parent_block)
       (\<lambda>b. bindw (changes (\<lambda>w. w\<lparr>bw_stream := inode_get_stream b\<rparr>))
         (\<lambda>_. bindw (from_stream (inode_view b) 0 th_kBytes)
           (\<lambda>hdr. bindw (changes (\<lambda>w. w\<lparr>bw_hdr := hdr\<rparr>))
             (\<lambda>_. case tree_header_parse hdr of
                     None \<Rightarrow> refuse
                   | Some h \<Rightarrow>
                       bindw (changes (\<lambda>w. w\<lparr>bw_type := th_data_type h\<rparr>))
                         (\<lambda>_. give (unat (th_node_size h), unat (th_root h), unat (th_maximum h)))))))"

text \<open>A node more at the end of the stream. Counting and growing the stream use \<^verbatim>\<open>node_\<close>.\<close>

definition append_node :: "nat \<Rightarrow> nat \<Rightarrow> nat wop" where
  "append_node parent_block node_size =
     bindw (asks (\<lambda>w v. (unat (le64 (bw_hdr w) th_kMaximumSize), bw_stream w, vol_block_size v)))
       (\<lambda>(offset, stream, bs).
          let fin = wrap64 (offset + node_size); needed = blocks_for fin bs
          in bindw (stream_blocks stream)
               (\<lambda>covered. bindw (if needed > covered then bindw (grow_to stream needed covered) (\<lambda>(st, c). give st) else give stream)
                 (\<lambda>stream'.
                    bindw (changes (\<lambda>w. w\<lparr>bw_stream := stream', bw_hdr := put_le64 (bw_hdr w) th_kMaximumSize (of_nat fin),
                                         bw_inode := inode_set_stream (bw_inode w) stream' (of_nat fin) (inode_mtime (bw_inode w))\<rparr>))
                      (\<lambda>_. bindw (asks (\<lambda>w v. bw_inode w))
                        (\<lambda>i. bindw (store_block parent_block i)
                          (\<lambda>_. bindw header_write (\<lambda>_. give offset)))))))"

section \<open>Inserting\<close>

record tree_split =
  ts_separator :: "u8 list"
  ts_left :: nat
  ts_right :: nat

text \<open>The neighbour on the right learns of the node before it.\<close>

definition relink :: "u64 \<Rightarrow> nat \<Rightarrow> nat \<Rightarrow> unit wop" where
  "relink old_right other node_size =
     (if old_right \<noteq> kNullLink \<and> old_right \<noteq> kFreeLink
      then bindw (load_node (unat old_right) node_size)
             (\<lambda>b. let b' = put_le64 b nd_kLeftLink (of_nat other)
                  in bindw (keep_node b') (\<lambda>_. node_write (unat old_right) node_size b'))
      else give ())"

definition split_leaf :: "u8 list \<Rightarrow> nat \<Rightarrow> nat \<Rightarrow> u8 list \<Rightarrow> u64 \<Rightarrow> tree_split wop" where
  "split_leaf node node_size offset name val =
     (case gather node node_size of
        None \<Rightarrow> refuse
      | Some (es, _) \<Rightarrow>
          if length es + 1 > kMaxNodeEntries then refuse
          else
            bindw (asks (\<lambda>w v. (bw_edit w, bw_type w)))
              (\<lambda>(parent, ty).
                 bindw (append_node parent node_size)
                   (\<lambda>other. case leaf_halves ty node_size node (of_nat offset) (of_nat other) name val es of
                      None \<Rightarrow> refuse
                    | Some (fresh, work, sep) \<Rightarrow>
                        bindw (node_write offset node_size fresh)
                          (\<lambda>_. bindw (node_write other node_size work)
                            (\<lambda>_. bindw (relink (le64 node nd_kRightLink) other node_size)
                              (\<lambda>_. give \<lparr>ts_separator = sep, ts_left = offset, ts_right = other\<rparr>))))))"

definition split_internal :: "u8 list \<Rightarrow> nat \<Rightarrow> nat \<Rightarrow> u8 list \<Rightarrow> nat \<Rightarrow> nat \<Rightarrow> tree_split wop" where
  "split_internal node node_size offset name val replace_with =
     (case gather node node_size of
        None \<Rightarrow> refuse
      | Some (es, overflow) \<Rightarrow>
          if length es + 1 > kMaxNodeEntries then refuse
          else
            bindw (asks (\<lambda>w v. (bw_edit w, bw_type w)))
              (\<lambda>(parent, ty).
                 bindw (append_node parent node_size)
                   (\<lambda>other. case internal_halves ty node_size node (of_nat offset) (of_nat other) name (of_nat val)
                                    (of_nat replace_with) es overflow of
                      (fresh, work, sep) \<Rightarrow>
                        bindw (node_write offset node_size fresh)
                          (\<lambda>_. bindw (node_write other node_size work)
                            (\<lambda>_. bindw (relink (le64 node nd_kRightLink) other node_size)
                              (\<lambda>_. give \<lparr>ts_separator = sep, ts_left = offset, ts_right = other\<rparr>))))))"

text \<open>The child to follow: the first key the name is not greater than, or the overflow child.\<close>

fun find_child :: "u32 \<Rightarrow> u8 list \<Rightarrow> nat \<Rightarrow> u8 list \<Rightarrow> nat \<Rightarrow> nat \<Rightarrow> (nat \<times> u64) option" where
  "find_child data_type node node_size name i 0 = Some (i, le64 node nd_kOverflowLink)"
| "find_child data_type node node_size name i (Suc n) =
     (case node_entry node node_size i of
        None \<Rightarrow> None
      | Some (key, child) \<Rightarrow>
          if key_compare_typed data_type name key \<le> 0 then Some (i, child)
          else find_child data_type node node_size name (Suc i) n)"

text \<open>The separator's node with the pointer after it turned to the new right node.\<close>

definition point_right :: "u8 list \<Rightarrow> nat \<Rightarrow> nat \<Rightarrow> u8 list" where
  "point_right work child_index right =
     (let cnt = unat (le16 work nd_kKeyCount)
      in if child_index + 1 < cnt
         then put_le64 work (values_at work cnt + (child_index + 1) * 8) (of_nat right)
         else put_le64 work nd_kOverflowLink (of_nat right))"

text \<open>
  The descent has no bound in the code. A descent through more nodes than the tree has goes round in a circle
  and never returns; it is a refusal here.
\<close>

fun insert_into :: "nat \<Rightarrow> nat \<Rightarrow> nat \<Rightarrow> u8 list \<Rightarrow> u64 \<Rightarrow> tree_split option wop" where
  "insert_into 0 offset node_size name val = refuse"
| "insert_into (Suc fuel) offset node_size name val =
     bindw (load_node offset node_size)
       (\<lambda>node. bindw (asks (\<lambda>w v. bw_type w))
         (\<lambda>ty. case node_info node node_size of
            None \<Rightarrow> refuse
          | Some info \<Rightarrow>
              if ni_overflow info = kNullLink then
                (case node_insert node_size ty node name val of
                   None \<Rightarrow> bindw (split_leaf node node_size offset name val) (\<lambda>s. give (Some s))
                 | Some (work, existed) \<Rightarrow> bindw (node_write offset node_size work) (\<lambda>_. give None))
              else
                bindw (changes (\<lambda>w. w\<lparr>bw_parent := bsplice 0 node (bw_parent w)\<rparr>))
                  (\<lambda>_. case find_child ty node node_size name 0 (ni_count info) of
                          None \<Rightarrow> refuse
                        | Some (child_index, child) \<Rightarrow>
                            bindw (insert_into fuel (unat child) node_size name val)
                              (\<lambda>res. case res of
                                 None \<Rightarrow> give None
                               | Some sp \<Rightarrow>
                                   bindw (asks (\<lambda>w v. take node_size (bw_parent w)))
                                     (\<lambda>parent. case node_insert node_size ty parent (ts_separator sp) (of_nat (ts_left sp)) of
                                        Some (work, existed) \<Rightarrow>
                                          bindw (node_write offset node_size (point_right work child_index (ts_right sp)))
                                            (\<lambda>_. give None)
                                      | None \<Rightarrow>
                                          bindw (split_internal parent node_size offset (ts_separator sp) (ts_left sp) (ts_right sp))
                                            (\<lambda>s. give (Some s)))))))"

definition write_new_root :: "tree_split \<Rightarrow> nat \<Rightarrow> unit wop" where
  "write_new_root sp node_size =
     bindw (asks (\<lambda>w v. bw_edit w))
       (\<lambda>parent. bindw (append_node parent node_size)
         (\<lambda>new_root.
            bindw (node_write new_root node_size
                     (build_node node_size False kNullLink kNullLink (of_nat (ts_right sp)) [(ts_separator sp, of_nat (ts_left sp))]))
              (\<lambda>_. bindw (changes (\<lambda>w. w\<lparr>bw_hdr := put_le32 (put_le64 (bw_hdr w) th_kRootNode (of_nat new_root))
                                                 th_kMaxLevels (le32 (bw_hdr w) th_kMaxLevels + 1)\<rparr>))
                (\<lambda>_. header_write))))"

section \<open>Removing, and the edit of a directory\<close>

text \<open>Whether the name was there.\<close>

fun remove_into :: "nat \<Rightarrow> nat \<Rightarrow> nat \<Rightarrow> u8 list \<Rightarrow> bool wop" where
  "remove_into 0 offset node_size name = refuse"
| "remove_into (Suc fuel) offset node_size name =
     bindw (load_node offset node_size)
       (\<lambda>node. bindw (asks (\<lambda>w v. bw_type w))
         (\<lambda>ty. case node_info node node_size of
            None \<Rightarrow> refuse
          | Some info \<Rightarrow>
              if ni_overflow info = kNullLink then
                (case node_remove node_size ty node name of
                   None \<Rightarrow> refuse
                 | Some (work, present) \<Rightarrow>
                     if \<not> present then give False
                     else bindw (node_write offset node_size work) (\<lambda>_. give True))
              else
                (case find_child ty node node_size name 0 (ni_count info) of
                   None \<Rightarrow> refuse
                 | Some (child_index, child) \<Rightarrow> remove_into fuel (unat child) node_size name)))"

definition insert_from_root :: "nat \<Rightarrow> nat \<Rightarrow> nat \<Rightarrow> u8 list \<Rightarrow> u64 \<Rightarrow> unit wop" where
  "insert_from_root fuel root node_size name val =
     bindw (insert_into fuel root node_size name val)
       (\<lambda>res. case res of None \<Rightarrow> give () | Some sp \<Rightarrow> write_new_root sp node_size)"

text \<open>Whether the name was there before.\<close>

definition tree_edit :: "nat \<Rightarrow> u8 list \<Rightarrow> u64 \<Rightarrow> bool \<Rightarrow> bool wop" where
  "tree_edit parent_block name val inserting =
     bindw (writer_header parent_block)
       (\<lambda>(node_size, root, maximum).
          if node_size > kMaxBlockSize \<or> wrap64 (root + node_size) > maximum then refuse
          else
            bindw (changes (\<lambda>w. w\<lparr>bw_edit := parent_block\<rparr>))
              (\<lambda>_. let fuel = maximum div node_size + 1
                    in if inserting then
                         bindw (asks (\<lambda>w v. inode_view (bw_inode w)))
                           (\<lambda>i. bindw (attempt (on_disk (reading (\<lambda>jo. dir_find jo i name))))
                             (\<lambda>found. if found \<noteq> None then give True
                                      else bindw (insert_from_root fuel root node_size name val) (\<lambda>_. give False)))
                       else remove_into fuel root node_size name))"

end
