(* ===== verification/Bfs_Writer.thy ===== *)
theory Bfs_Writer
  imports Bfs_Writer_Tree
begin

text \<open>
  The operations of the writing half of the library, \<^verbatim>\<open>src/libs/freestanding/aegir-bfs/src/writer.cc\<close>: the indices
  kept beside the inodes, making, removing and renaming files and directories, writing and truncating,
  attributes, and the transaction around each of them.
\<close>

section \<open>Indices\<close>

text \<open>The leaf a key belongs to; its place and value there when it has one.\<close>

fun find_key :: "u32 \<Rightarrow> u8 list \<Rightarrow> nat \<Rightarrow> u8 list \<Rightarrow> nat \<Rightarrow> nat \<Rightarrow> (nat \<times> u64) option option" where
  "find_key data_type node node_size key i 0 = Some None"
| "find_key data_type node node_size key i (Suc n) =
     (case node_entry node node_size i of
        None \<Rightarrow> None
      | Some (k, val) \<Rightarrow>
          if key_compare_typed data_type key k = 0 then Some (Some (i, val))
          else find_key data_type node node_size key (Suc i) n)"

fun index_leaf :: "nat \<Rightarrow> nat \<Rightarrow> nat \<Rightarrow> u8 list \<Rightarrow> (nat \<times> (nat \<times> u64) option) wop" where
  "index_leaf 0 offset node_size key = refuse"
| "index_leaf (Suc depth) offset node_size key =
     bindw (load_node offset node_size)
       (\<lambda>node. bindw (asks (\<lambda>w v. bw_type w))
         (\<lambda>ty. case node_info node node_size of
            None \<Rightarrow> refuse
          | Some info \<Rightarrow>
              if ni_overflow info = kNullLink then
                (case find_key ty node node_size key 0 (ni_count info) of
                   None \<Rightarrow> refuse
                 | Some found \<Rightarrow> give (offset, found))
              else
                (case find_child ty node node_size key 0 (ni_count info) of
                   None \<Rightarrow> refuse
                 | Some (child_index, child) \<Rightarrow> index_leaf depth (unat child) node_size key)))"

definition duplicates :: "u8 list \<Rightarrow> nat \<Rightarrow> u64 list" where
  "duplicates node node_size =
     map (\<lambda>i. le64 node (nd_kOverflowLink + 8 + i * 8)) [0..<duplicate_count node node_size]"

definition put_duplicates :: "u8 list \<Rightarrow> u64 list \<Rightarrow> u8 list" where
  "put_duplicates node vals = put_le64 (put_values node 0 vals) nd_kOverflowLink (of_nat (length vals))"

text \<open>
  Adding to a chain of duplicate nodes. Where the chain has to grow, the full node is written back from
  \<^verbatim>\<open>node_\<close> after the stream has grown.
\<close>

fun add_duplicate :: "nat \<Rightarrow> nat \<Rightarrow> nat \<Rightarrow> u64 \<Rightarrow> unit wop" where
  "add_duplicate 0 offset node_size val = refuse"
| "add_duplicate (Suc depth) offset node_size val =
     bindw (load_node offset node_size)
       (\<lambda>node. let vals = duplicates node node_size; right = le64 node nd_kRightLink
         in if length vals < duplicate_capacity node_size then
              let (small, large) = (takeWhile (\<lambda>x. \<not> x > val) vals, dropWhile (\<lambda>x. \<not> x > val) vals);
                  node' = put_duplicates node (small @ val # large)
              in bindw (keep_node node') (\<lambda>_. node_write offset node_size node')
            else if right = kNullLink then
              bindw (asks (\<lambda>w v. bw_edit w))
                (\<lambda>parent. bindw (append_node parent node_size)
                  (\<lambda>fresh. bindw (asks (\<lambda>w v. put_le64 (bw_node w) nd_kRightLink (of_nat fresh)))
                    (\<lambda>node'. bindw (keep_node node')
                      (\<lambda>_. bindw (node_write offset node_size node')
                        (\<lambda>_. node_write fresh node_size (duplicate_build node_size (of_nat offset) kNullLink [val]))))))
            else if right = kFreeLink then refuse
            else add_duplicate depth (unat right) node_size val)"

definition index_add_value :: "nat \<Rightarrow> nat \<Rightarrow> u64 \<Rightarrow> u64 \<Rightarrow> nat \<Rightarrow> unit wop" where
  "index_add_value leaf index old_value val node_size =
     (if link_is_duplicate old_value then
        if link_type old_value \<noteq> kDuplicateNode then refuse
        else add_duplicate 4096 (unat (link_offset old_value)) node_size val
      else
        bindw (asks (\<lambda>w v. bw_edit w))
          (\<lambda>parent. bindw (append_node parent node_size)
            (\<lambda>fresh.
               bindw (node_write fresh node_size
                        (duplicate_build node_size kNullLink kNullLink
                           (if old_value > val then [val, old_value] else [old_value, val])))
                 (\<lambda>_. bindw (load_node leaf node_size)
                   (\<lambda>node. case node_set_value node_size node index (make_link kDuplicateNode (of_nat fresh)) of
                      None \<Rightarrow> refuse
                    | Some work \<Rightarrow> node_write leaf node_size work)))))"

definition free_tree_node :: "nat \<Rightarrow> nat \<Rightarrow> unit wop" where
  "free_tree_node offset node_size =
     bindw (node_read offset node_size)
       (\<lambda>work. bindw (asks (\<lambda>w v. le64 (bw_hdr w) th_kFreeNode))
         (\<lambda>free. bindw (node_write offset node_size
                          (put_le64 (put_le64 work nd_kLeftLink free) nd_kOverflowLink kFreeLink))
           (\<lambda>_. bindw (changes (\<lambda>w. w\<lparr>bw_hdr := put_le64 (bw_hdr w) th_kFreeNode (of_nat offset)\<rparr>))
             (\<lambda>_. header_write))))"

definition set_leaf_value :: "nat \<Rightarrow> nat \<Rightarrow> nat \<Rightarrow> u64 \<Rightarrow> unit wop" where
  "set_leaf_value leaf node_size index val =
     bindw (load_node leaf node_size)
       (\<lambda>node. case node_set_value node_size node index val of
          None \<Rightarrow> refuse
        | Some work \<Rightarrow> node_write leaf node_size work)"

definition patch_node :: "nat \<Rightarrow> nat \<Rightarrow> nat \<Rightarrow> u64 \<Rightarrow> unit wop" where
  "patch_node offset node_size field val =
     bindw (node_read offset node_size) (\<lambda>b. node_write offset node_size (put_le64 b field val))"

text \<open>The node at \<open>offset\<close> has run empty: it leaves its chain, and the leaf when it was the whole of it.\<close>

definition unlink_empty :: "nat \<Rightarrow> nat \<Rightarrow> nat \<Rightarrow> u8 list \<Rightarrow> nat \<Rightarrow> nat \<Rightarrow> u64 \<Rightarrow> u64 \<Rightarrow> unit wop" where
  "unlink_empty leaf index node_size key offset previous left right =
     (if left = kNullLink then
        bindw (load_node leaf node_size)
          (\<lambda>node.
             if right = kNullLink then
               bindw (asks (\<lambda>w v. bw_type w))
                 (\<lambda>ty. case node_remove node_size ty node key of
                    None \<Rightarrow> refuse
                  | Some (work, present) \<Rightarrow> if \<not> present then give () else node_write leaf node_size work)
             else
               bindw (patch_node (unat right) node_size nd_kLeftLink kNullLink)
                 (\<lambda>_. case node_set_value node_size node index (make_link kDuplicateNode right) of
                    None \<Rightarrow> refuse
                  | Some work \<Rightarrow> bindw (node_write leaf node_size work) (\<lambda>_. free_tree_node offset node_size)))
      else
        bindw (patch_node previous node_size nd_kRightLink right)
          (\<lambda>_. bindw (if right \<noteq> kNullLink then patch_node (unat right) node_size nd_kLeftLink left else give ())
            (\<lambda>_. free_tree_node offset node_size)))"

text \<open>Whether the value was there.\<close>

fun drop_duplicate :: "nat \<Rightarrow> nat \<Rightarrow> nat \<Rightarrow> nat \<Rightarrow> u8 list \<Rightarrow> nat \<Rightarrow> nat \<Rightarrow> u64 \<Rightarrow> bool wop" where
  "drop_duplicate 0 leaf index node_size key offset previous val = refuse"
| "drop_duplicate (Suc depth) leaf index node_size key offset previous val =
     bindw (load_node offset node_size)
       (\<lambda>node. let vals = duplicates node node_size; left = le64 node nd_kLeftLink; right = le64 node nd_kRightLink;
                   at = length (takeWhile (\<lambda>x. x \<noteq> val) vals)
         in if at = length vals then
              if right = kNullLink then give False
              else drop_duplicate depth leaf index node_size key (unat right) offset val
            else
              let vals' = take at vals @ drop (Suc at) vals; node' = put_duplicates node vals'
              in bindw (if left = kNullLink \<and> right = kNullLink \<and> length vals' = 1
                        then bindw (set_leaf_value leaf node_size index (hd vals')) (\<lambda>_. free_tree_node offset node_size)
                        else if vals' = [] then unlink_empty leaf index node_size key offset previous left right
                        else bindw (keep_node node') (\<lambda>_. node_write offset node_size node'))
                   (\<lambda>_. give True))"

definition open_index :: "nat \<Rightarrow> u8 list \<Rightarrow> (nat \<times> nat \<times> nat) wop" where
  "open_index index_block key =
     bindw (demand (key \<noteq> [] \<and> length key \<le> kMaxKeyLength))
       (\<lambda>_. bindw (writer_header index_block)
         (\<lambda>(node_size, root, maximum).
            bindw (demand (\<not> wrap64 (root + node_size) > maximum))
              (\<lambda>_. bindw (changes (\<lambda>w. w\<lparr>bw_edit := index_block\<rparr>)) (\<lambda>_. give (node_size, root, maximum)))))"

definition index_insert_blocks :: "nat \<Rightarrow> u8 list \<Rightarrow> u64 \<Rightarrow> unit wop" where
  "index_insert_blocks index_block key val =
     bindw (open_index index_block key)
       (\<lambda>(node_size, root, maximum).
          bindw (index_leaf 32 root node_size key)
            (\<lambda>(leaf, found). case found of
               None \<Rightarrow> insert_from_root (maximum div node_size + 1) root node_size key val
             | Some (index, old_value) \<Rightarrow> index_add_value leaf index old_value val node_size))"

definition index_remove_blocks :: "nat \<Rightarrow> u8 list \<Rightarrow> u64 \<Rightarrow> bool wop" where
  "index_remove_blocks index_block key val =
     bindw (open_index index_block key)
       (\<lambda>(node_size, root, maximum).
          bindw (index_leaf 32 root node_size key)
            (\<lambda>(leaf, found). case found of
               None \<Rightarrow> give False
             | Some (index, old_value) \<Rightarrow>
                 if \<not> link_is_duplicate old_value then
                   if old_value \<noteq> val then give False
                   else
                     bindw (load_node leaf node_size)
                       (\<lambda>node. bindw (asks (\<lambda>w v. bw_type w))
                         (\<lambda>ty. case node_remove node_size ty node key of
                            None \<Rightarrow> refuse
                          | Some (work, present) \<Rightarrow>
                              if \<not> present then give False
                              else bindw (node_write leaf node_size work) (\<lambda>_. give True)))
                 else if link_type old_value \<noteq> kDuplicateNode then refuse
                 else drop_duplicate 4096 leaf index node_size key (unat (link_offset old_value)) (unat kNullLink) val))"

text \<open>A volume without the index directory or the index is left alone.\<close>

definition index_add :: "u8 list \<Rightarrow> u8 list \<Rightarrow> u64 \<Rightarrow> unit wop" where
  "index_add index key val =
     bindw (attempt (on_disk (reading (\<lambda>jo. index_inode jo index))))
       (\<lambda>found. case found of None \<Rightarrow> give () | Some block \<Rightarrow> index_insert_blocks (unat block) key val)"

definition index_drop :: "u8 list \<Rightarrow> u8 list \<Rightarrow> u64 \<Rightarrow> unit wop" where
  "index_drop index key val =
     bindw (attempt (on_disk (reading (\<lambda>jo. index_inode jo index))))
       (\<lambda>found. case found of
          None \<Rightarrow> give ()
        | Some block \<Rightarrow> bindw (index_remove_blocks (unat block) key val) (\<lambda>_. give ()))"

definition ascii :: "string \<Rightarrow> u8 list" where
  "ascii s = map (\<lambda>c. of_nat (of_char c)) s"

definition kModeRegular :: u32 where "kModeRegular = 0x8000"
definition kModeIndexDir :: u32 where "kModeIndexDir = 0x20000000"
definition kModeStrIndex :: u32 where "kModeStrIndex = 0x01000000"
definition kInodeAttrInode :: u32 where "kInodeAttrInode = 4"

definition is_regular_node :: "u32 \<Rightarrow> bool" where
  "is_regular_node mode \<longleftrightarrow> mode AND (kModeAttrDir OR kModeAttr OR kModeIndexDir) = 0"

definition is_indexed_file :: "u32 \<Rightarrow> bool" where
  "is_indexed_file mode \<longleftrightarrow> mode AND (kModeTypeMask OR kModeAttrDir OR kModeAttr OR kModeIndexDir) = kModeRegular"

definition key64 :: "u64 \<Rightarrow> u8 list" where
  "key64 x = nat_le 8 (unat x)"

definition index_on_create :: "nat \<Rightarrow> u8 list \<Rightarrow> u32 \<Rightarrow> u64 \<Rightarrow> u64 \<Rightarrow> unit wop" where
  "index_on_create block name mode sz time =
     bindw (if is_regular_node mode then index_add (ascii ''name'') name (of_nat block) else give ())
       (\<lambda>_. if is_indexed_file mode
             then bindw (index_add (ascii ''size'') (key64 sz) (of_nat block))
                    (\<lambda>_. index_add (ascii ''last_modified'') (key64 time) (of_nat block))
             else give ())"

definition index_on_remove :: "nat \<Rightarrow> u8 list \<Rightarrow> u32 \<Rightarrow> u64 \<Rightarrow> u64 \<Rightarrow> unit wop" where
  "index_on_remove block name mode sz time =
     bindw (if is_regular_node mode then index_drop (ascii ''name'') name (of_nat block) else give ())
       (\<lambda>_. if is_indexed_file mode
             then bindw (index_drop (ascii ''size'') (key64 sz) (of_nat block))
                    (\<lambda>_. index_drop (ascii ''last_modified'') (key64 time) (of_nat block))
             else give ())"

definition index_on_rename :: "nat \<Rightarrow> u8 list \<Rightarrow> u8 list \<Rightarrow> unit wop" where
  "index_on_rename block from to =
     bindw (index_drop (ascii ''name'') from (of_nat block)) (\<lambda>_. index_add (ascii ''name'') to (of_nat block))"

definition index_on_resize :: "nat \<Rightarrow> u32 \<Rightarrow> u64 \<Rightarrow> u64 \<Rightarrow> unit wop" where
  "index_on_resize block mode old_size new_size =
     (if old_size = new_size \<or> \<not> is_indexed_file mode then give ()
      else bindw (index_drop (ascii ''size'') (key64 old_size) (of_nat block))
             (\<lambda>_. index_add (ascii ''size'') (key64 new_size) (of_nat block)))"

definition index_on_time :: "nat \<Rightarrow> u32 \<Rightarrow> u64 \<Rightarrow> u64 \<Rightarrow> unit wop" where
  "index_on_time block mode old_time new_time =
     (if old_time = new_time \<or> \<not> is_indexed_file mode then give ()
      else bindw (index_drop (ascii ''last_modified'') (key64 old_time) (of_nat block))
             (\<lambda>_. index_add (ascii ''last_modified'') (key64 new_time) (of_nat block)))"

section \<open>Transactions\<close>

definition writer_open :: "unit wop" where
  "writer_open s =
     (case s of (w, v, jo, d) \<Rightarrow>
        if \<not> v_valid v \<or> \<not> v_write v then (s, None)
        else (case allocator_open v (bw_alloc w) of (a, ok) \<Rightarrow>
          if \<not> ok then ((w\<lparr>bw_alloc := a\<rparr>, v, jo, d), None)
          else (case jo of
                  None \<Rightarrow> ((w\<lparr>bw_alloc := a\<rparr>, v, jo, d), None)
                | Some j \<Rightarrow>
                    (case journal_open v j of (j', ok2) \<Rightarrow>
                       if \<not> ok2 then ((w\<lparr>bw_alloc := a\<rparr>, v, Some j', d), None)
                       else (case replay v j' d of (v', d', ok3) \<Rightarrow>
                         ((w\<lparr>bw_alloc := a\<rparr>, v', Some j', d'), if ok3 then Some () else None))))))"

definition abandon :: "journal \<Rightarrow> writer \<times> fs \<Rightarrow> writer \<times> fs" where
  "abandon j s =
     (case s of (w, v, jo, d) \<Rightarrow> case journal_abort v j of (v', j') \<Rightarrow>
        case drop_discards (bw_alloc w, v', Some j', d) of (a, fs') \<Rightarrow> (w\<lparr>bw_alloc := a\<rparr>, fs'))"

text \<open>The end of a transaction, for the answer of what was done in it.\<close>

definition finish :: "'a option \<Rightarrow> 'a wop" where
  "finish res s =
     (case s of (w, v, jo, d) \<Rightarrow>
        (case jo of
           None \<Rightarrow> (s, None)
         | Some j \<Rightarrow>
             (case res of
                None \<Rightarrow> (abandon j s, None)
              | Some x \<Rightarrow>
                  (case commit v j d of (v', j', d', ok) \<Rightarrow>
                     if \<not> ok then (abandon j' (w, v', Some j', d'), None)
                     else (case flush_discards (bw_alloc w, v', Some j', d') of (a, fs') \<Rightarrow> ((w\<lparr>bw_alloc := a\<rparr>, fs'), Some x))))))"

text \<open>One public operation: refused inside another, else its blocks between the begin and the end.\<close>

definition transact :: "'a wop \<Rightarrow> 'a wop" where
  "transact m s =
     (case s of (w, v, jo, d) \<Rightarrow>
        (case jo of
           None \<Rightarrow> (s, None)
         | Some j \<Rightarrow>
             if j_active j then (s, None)
             else (case m (w, v, Some (journal_begin v j), d) of (s', res) \<Rightarrow> finish res s')))"

section \<open>Files and directories\<close>

definition fresh_tree_stream :: "run \<Rightarrow> u8 list" where
  "fresh_tree_stream tree_run =
     put_le64 (put_run (replicate ds_kBytes 0) ds_kDirect tree_run) ds_kMaxDirectRange (of_nat (kTreeNodeSize * 2))"

definition alloc_tree :: "run \<Rightarrow> run wop" where
  "alloc_tree inode_run =
     bindw (asks (\<lambda>w v. blocks_for (kTreeNodeSize * 2) (vol_block_size v)))
       (\<lambda>n. bindw (or_give_back (alloc_run n n) [inode_run])
         (\<lambda>tree_run. if unat (run_len tree_run) < n
            then give_back ((if run_len tree_run \<noteq> 0 then [tree_run] else []) @ [inode_run])
            else give tree_run))"

definition keep_inode :: "u8 list \<Rightarrow> unit wop" where
  "keep_inode b = changes (\<lambda>w. w\<lparr>bw_inode := b\<rparr>)"

definition create_blocks :: "nat \<Rightarrow> u8 list \<Rightarrow> u32 \<Rightarrow> u32 \<Rightarrow> u32 \<Rightarrow> u64 \<Rightarrow> nat wop" where
  "create_blocks parent_block name mode0 uid gid time =
     bindw (demand (name \<noteq> [] \<and> length name \<le> kMaxName))
       (\<lambda>_. bindw (read_inode_block parent_block)
         (\<lambda>pb. let parent_run = le_run pb in_kInodeNum; directory = mode_is_directory mode0;
                    mode = (if directory then mode0 OR kModeStrIndex else mode0)
           in bindw (alloc_run 1 1)
             (\<lambda>inode_run. bindw (asks (\<lambda>w v. (to_block v inode_run, to_block v parent_run, vol_block_size v)))
               (\<lambda>(block, above, bs).
                  bindw (if directory then bindw (alloc_tree inode_run) (\<lambda>r. give (Some r)) else give None)
                    (\<lambda>tree. let b0 = inode_build bs inode_run parent_run mode uid gid time name;
                                 b = (case tree of None \<Rightarrow> b0
                                      | Some r \<Rightarrow> inode_set_stream b0 (fresh_tree_stream r) (of_nat (kTreeNodeSize * 2)) time);
                                 runs = (case tree of None \<Rightarrow> [] | Some r \<Rightarrow> [r]) @ [inode_run]
                       in bindw (keep_inode b)
                         (\<lambda>_. bindw (case tree of None \<Rightarrow> give () | Some r \<Rightarrow> changes (\<lambda>w. w\<lparr>bw_stream := fresh_tree_stream r\<rparr>))
                         (\<lambda>_. bindw (or_give_back (store_block block b) runs)
                           (\<lambda>_. bindw (case tree of None \<Rightarrow> give ()
                                       | Some r \<Rightarrow> or_give_back (on_disk (write_stream_raw (fresh_tree_stream r) 0
                                                        (build_dir_tree (of_nat block) (of_nat above)))) runs)
                             (\<lambda>_. bindw (or_give_back (tree_edit parent_block name (of_nat block) True) runs)
                               (\<lambda>existed. if existed then give_back runs
                                  else bindw (index_on_create block name mode 0 time) (\<lambda>_. give block)))))))))))"

definition create :: "nat \<Rightarrow> u8 list \<Rightarrow> u32 \<Rightarrow> u32 \<Rightarrow> u32 \<Rightarrow> u64 \<Rightarrow> nat wop" where
  "create parent_block name mode uid gid time = transact (create_blocks parent_block name mode uid gid time)"

definition set_owner_mode_blocks :: "nat \<Rightarrow> u32 \<Rightarrow> u32 \<Rightarrow> u32 \<Rightarrow> unit wop" where
  "set_owner_mode_blocks inode_block uid gid mode =
     bindw (read_inode_block inode_block)
       (\<lambda>b. let b' = inode_set_mode (inode_set_owner b uid gid) mode
            in bindw (keep_inode b') (\<lambda>_. store_block inode_block b'))"

definition set_owner_mode :: "nat \<Rightarrow> u32 \<Rightarrow> u32 \<Rightarrow> u32 \<Rightarrow> unit wop" where
  "set_owner_mode inode_block uid gid mode = transact (set_owner_mode_blocks inode_block uid gid mode)"

text \<open>
  The entries of the leaves from \<open>offset\<close> on: how many, and whether all of them are dot and dotdot. The walk is
  bounded by the nodes the stream can hold.
\<close>

fun leaf_names :: "u8 list \<Rightarrow> nat \<Rightarrow> nat \<Rightarrow> nat \<Rightarrow> bool option" where
  "leaf_names node node_size i 0 = Some True"
| "leaf_names node node_size i (Suc n) =
     (case node_entry node node_size i of
        None \<Rightarrow> None
      | Some (key, _) \<Rightarrow> map_option (\<lambda>ok. (key = [0x2e] \<or> key = [0x2e, 0x2e]) \<and> ok) (leaf_names node node_size (Suc i) n))"

fun count_entries :: "nat \<Rightarrow> inode \<Rightarrow> nat \<Rightarrow> nat \<Rightarrow> nat \<Rightarrow> nat \<Rightarrow> bool \<Rightarrow> (nat \<times> bool) wop" where
  "count_entries 0 dir node_size maximum offset entries ok = give (entries, ok)"
| "count_entries (Suc n) dir node_size maximum offset entries ok =
     (if wrap64 (offset + node_size) > maximum then give (entries, ok)
      else
        bindw (from_stream dir offset node_size)
          (\<lambda>node. let cnt = unat (le16 node nd_kKeyCount); right = le64 node nd_kRightLink
            in if le64 node nd_kOverflowLink \<noteq> kNullLink then refuse
               else (case leaf_names node node_size 0 cnt of
                       None \<Rightarrow> refuse
                     | Some plain \<Rightarrow>
                         if right = kNullLink \<or> right = kFreeLink then give (entries + cnt, ok \<and> plain)
                         else count_entries n dir node_size maximum (unat right) (entries + cnt) (ok \<and> plain))))"

definition dir_is_empty :: "nat \<Rightarrow> unit wop" where
  "dir_is_empty dir_block =
     bindw (read_inode_block dir_block)
       (\<lambda>b. bindw (changes (\<lambda>w. w\<lparr>bw_stream := inode_get_stream b\<rparr>))
         (\<lambda>_. bindw (from_stream (inode_view b) 0 th_kBytes)
           (\<lambda>hdr. case tree_header_parse hdr of
              None \<Rightarrow> refuse
            | Some h \<Rightarrow>
                let node_size = unat (th_node_size h); maximum = unat (th_maximum h)
                in bindw (on_disk (reading (\<lambda>jo. leftmost jo (inode_view b) node_size maximum (unat (th_root h)) 16)))
                     (\<lambda>offset. bindw (count_entries (maximum div node_size + 2) (inode_view b) node_size maximum offset 0 True)
                       (\<lambda>(entries, ok). demand (ok \<and> entries = 2))))))"

definition destroy :: "nat \<Rightarrow> unit wop" where
  "destroy block =
     bindw (read_inode_block block)
       (\<lambda>b. bindw (changes (\<lambda>w. w\<lparr>bw_stream := inode_get_stream b\<rparr>))
         (\<lambda>_. bindw (free_stream (inode_get_stream b)) (\<lambda>_. release_run (le_run b in_kInodeNum))))"

definition write_blocks_at :: "nat \<Rightarrow> nat \<Rightarrow> u8 list \<Rightarrow> u64 \<Rightarrow> unit wop" where
  "write_blocks_at inode_block offset bytes time =
     bindw (read_inode_block inode_block)
       (\<lambda>b. let stream = inode_get_stream b; mode = inode_mode b; old_size = unat (inode_size b); old_time = inode_mtime b;
                 fin = wrap64 (offset + length bytes); new_size = (if fin < old_size then old_size else fin)
         in bindw (asks (\<lambda>w v. vol_block_size v))
           (\<lambda>bs. let needed = wrap64 (fin + bs - 1) div bs
             in bindw (stream_blocks stream)
               (\<lambda>covered. bindw (if needed > covered then bindw (grow_to stream needed covered) (\<lambda>(st, c). give st) else give stream)
                 (\<lambda>stream'. bindw (if offset > old_size then zero_range stream' old_size offset else give ())
                   (\<lambda>_. bindw (on_disk (write_stream_direct stream' offset bytes))
                     (\<lambda>_. let b' = inode_set_stream b stream' (of_nat new_size) time
                       in bindw (changes (\<lambda>w. w\<lparr>bw_stream := stream', bw_inode := b'\<rparr>))
                         (\<lambda>_. bindw (store_block inode_block b')
                           (\<lambda>_. bindw (index_on_resize inode_block mode (of_nat old_size) (of_nat new_size))
                             (\<lambda>_. index_on_time inode_block mode old_time time)))))))))"

definition write_file :: "nat \<Rightarrow> nat \<Rightarrow> u8 list \<Rightarrow> u64 \<Rightarrow> unit wop" where
  "write_file inode_block offset bytes time = transact (write_blocks_at inode_block offset bytes time)"

definition truncate_blocks :: "nat \<Rightarrow> nat \<Rightarrow> u64 \<Rightarrow> unit wop" where
  "truncate_blocks inode_block sz time =
     bindw (read_inode_block inode_block)
       (\<lambda>b. let stream = inode_get_stream b; mode = inode_mode b; old_size = unat (inode_size b); old_time = inode_mtime b
         in bindw (asks (\<lambda>w v. vol_block_size v))
           (\<lambda>bs. let new_blocks = wrap64 (sz + bs - 1) div bs
             in bindw (stream_blocks stream)
               (\<lambda>covered. bindw (if new_blocks < covered then trim_stream stream new_blocks else give stream)
                 (\<lambda>stream'. bindw (if sz > old_size
                                   then bindw (stream_blocks stream')
                                          (\<lambda>c. let hi = min sz (wrap64 (c * bs))
                                               in if old_size < hi then zero_range stream' old_size hi else give ())
                                   else give ())
                   (\<lambda>_. let b' = inode_set_stream b stream' (of_nat sz) time
                     in bindw (changes (\<lambda>w. w\<lparr>bw_stream := stream', bw_inode := b'\<rparr>))
                       (\<lambda>_. bindw (store_block inode_block b')
                         (\<lambda>_. bindw (index_on_resize inode_block mode (of_nat old_size) (of_nat sz))
                           (\<lambda>_. index_on_time inode_block mode old_time time))))))))"

definition truncate :: "nat \<Rightarrow> nat \<Rightarrow> u64 \<Rightarrow> unit wop" where
  "truncate inode_block sz time = transact (truncate_blocks inode_block sz time)"

definition find_name_in :: "inode \<Rightarrow> u8 list \<Rightarrow> u64 wop" where
  "find_name_in dir name = on_disk (reading (\<lambda>jo. dir_find jo dir name))"

definition remove_blocks :: "nat \<Rightarrow> u8 list \<Rightarrow> unit wop" where
  "remove_blocks parent_block name =
     bindw (read_inode_block parent_block)
       (\<lambda>pb. bindw (find_name_in (inode_view pb) name)
         (\<lambda>child. bindw (read_inode_block (unat child))
           (\<lambda>b. let mode = inode_mode b
             in bindw (if mode_is_directory mode then dir_is_empty (unat child) else give ())
               (\<lambda>_. bindw (tree_edit parent_block name 0 False)
                 (\<lambda>present. bindw (demand present)
                   (\<lambda>_. bindw (index_on_remove (unat child) name mode (inode_size b) (inode_mtime b))
                     (\<lambda>_. destroy (unat child))))))))"

definition remove :: "nat \<Rightarrow> u8 list \<Rightarrow> unit wop" where
  "remove parent_block name = transact (remove_blocks parent_block name)"

definition rename_blocks :: "nat \<Rightarrow> u8 list \<Rightarrow> u8 list \<Rightarrow> unit wop" where
  "rename_blocks parent_block from to =
     bindw (read_inode_block parent_block)
       (\<lambda>pb. bindw (find_name_in (inode_view pb) from)
         (\<lambda>child. bindw (attempt (find_name_in (inode_view pb) to))
           (\<lambda>existing. bindw (demand (existing = None))
             (\<lambda>_. bindw (tree_edit parent_block from 0 False)
               (\<lambda>present. bindw (demand present)
                 (\<lambda>_. bindw (attempt (tree_edit parent_block to child True))
                   (\<lambda>res. if res = Some False then index_on_rename (unat child) from to
                          else bindw (attempt (tree_edit parent_block from child True)) (\<lambda>_. refuse))))))))"

definition rename :: "nat \<Rightarrow> u8 list \<Rightarrow> u8 list \<Rightarrow> unit wop" where
  "rename parent_block from to = transact (rename_blocks parent_block from to)"

section \<open>Attributes\<close>

definition attr_dir :: "nat \<Rightarrow> u64 \<Rightarrow> nat wop" where
  "attr_dir inode_block time =
     bindw (read_inode_block inode_block)
       (\<lambda>b. let attributes = le_run b in_kAttributes; owner_run = le_run b in_kInodeNum
         in if \<not> run_is_zero attributes then asks (\<lambda>w v. to_block v attributes)
            else
              bindw (alloc_run 1 1)
                (\<lambda>inode_run. bindw (alloc_tree inode_run)
                  (\<lambda>tree_run. bindw (asks (\<lambda>w v. (to_block v inode_run, vol_block_size v)))
                    (\<lambda>(block, bs).
                       let mode = kModeAttrDir OR kModeDirectory OR kModeStrIndex OR 0x1b6;
                           stream = fresh_tree_stream tree_run; runs = [tree_run, inode_run];
                           i = inode_set_stream (inode_build bs inode_run owner_run mode 0 0 time []) stream
                                 (of_nat (kTreeNodeSize * 2)) time
                       in bindw (changes (\<lambda>w. w\<lparr>bw_inode := i, bw_stream := stream\<rparr>))
                         (\<lambda>_. bindw (or_give_back (store_block block i) runs)
                           (\<lambda>_. bindw (or_give_back (on_disk (write_stream_raw stream 0 build_empty_tree)) runs)
                             (\<lambda>_. bindw (read_inode_block inode_block)
                               (\<lambda>b2. let b3 = put_run b2 in_kAttributes inode_run
                                 in bindw (keep_inode b3)
                                   (\<lambda>_. bindw (or_give_back (store_block inode_block b3) runs) (\<lambda>_. give block))))))))))"

definition attr_inode_create :: "nat \<Rightarrow> u8 list \<Rightarrow> u32 \<Rightarrow> u64 \<Rightarrow> nat wop" where
  "attr_inode_create dir_block name ty time =
     bindw (read_inode_block dir_block)
       (\<lambda>db. bindw (alloc_run 1 1)
         (\<lambda>inode_run. bindw (asks (\<lambda>w v. (to_block v inode_run, vol_block_size v)))
           (\<lambda>(block, bs).
              let i = put_le32 (inode_set_type (inode_build bs inode_run (le_run db in_kInodeNum)
                         (kModeAttr OR kModeRegular OR 0x1b6) 0 0 time []) ty) in_kFlags (kInodeInUse OR kInodeAttrInode)
              in bindw (keep_inode i)
                (\<lambda>_. bindw (or_give_back (store_block block i) [inode_run])
                  (\<lambda>_. bindw (or_give_back (tree_edit dir_block name (of_nat block) True) [inode_run])
                    (\<lambda>existed. if existed then give_back [inode_run] else give block))))))"

text \<open>
  The value after a write into an attribute that is kept in the inode. The length and the place of the bytes
  are cut to 32 bits; a place outside the buffer, which the language leaves undefined, is \<open>None\<close> as a value too
  long for it is.
\<close>

definition patched_value :: "u8 list \<Rightarrow> nat \<Rightarrow> u8 list \<Rightarrow> u8 list option" where
  "patched_value old offset bytes =
     (let fin = wrap64 (offset + length bytes);
          new_length = wrap32 (if fin > length old then fin else length old)
      in if new_length > kMaxBlockSize \<or> wrap32 offset + length bytes > kMaxBlockSize then None
         else Some (take new_length (bsplice (wrap32 offset) bytes (old @ replicate (kMaxBlockSize - length old) 0))))"

definition move_out :: "nat \<Rightarrow> u8 list \<Rightarrow> u32 \<Rightarrow> nat \<Rightarrow> u8 list \<Rightarrow> u64 \<Rightarrow> unit wop" where
  "move_out inode_block name ty offset bytes time =
     bindw (attr_dir inode_block time)
       (\<lambda>dir_block. bindw (attr_inode_create dir_block name ty time)
         (\<lambda>attr_block. write_blocks_at attr_block offset bytes time))"

text \<open>The attribute inode of the name, where the inode has an attribute directory.\<close>

definition outer_attribute :: "u8 list \<Rightarrow> u8 list \<Rightarrow> nat wop" where
  "outer_attribute b name =
     (if run_is_zero (le_run b in_kAttributes) then refuse
      else
        bindw (asks (\<lambda>w v. to_block v (le_run b in_kAttributes)))
          (\<lambda>dir_block. bindw (on_disk (reading (\<lambda>jo. read_inode jo dir_block)))
            (\<lambda>dir. bindw (find_name_in dir name) (\<lambda>found. give (unat found)))))"

text \<open>The number of bytes written.\<close>

definition attr_write_impl :: "nat \<Rightarrow> u8 list \<Rightarrow> u32 \<Rightarrow> nat \<Rightarrow> u8 list \<Rightarrow> u64 \<Rightarrow> nat wop" where
  "attr_write_impl inode_block name ty offset bytes time =
     bindw (demand (name \<noteq> [] \<and> length name \<le> kMaxName \<and> \<not> wrap64 (offset + length bytes) < offset))
       (\<lambda>_. bindw (read_inode_block inode_block)
         (\<lambda>b. let isize = unat (le32 b in_kInodeSize)
           in case small_find b isize name of
                Some entry \<Rightarrow>
                  if sa_type entry \<noteq> ty then refuse
                  else (case patched_value (sa_data entry) offset bytes of
                          None \<Rightarrow> refuse
                        | Some val \<Rightarrow>
                            (case small_set b isize ty name val of
                               Some b' \<Rightarrow>
                                 bindw (keep_inode b') (\<lambda>_. bindw (store_block inode_block b') (\<lambda>_. give (length bytes)))
                             | None \<Rightarrow>
                                 bindw (move_out inode_block name ty 0 val time)
                                   (\<lambda>_. bindw (read_inode_block inode_block)
                                     (\<lambda>b2. case small_remove b2 isize name of
                                        None \<Rightarrow> refuse
                                      | Some b3 \<Rightarrow>
                                          bindw (keep_inode b3)
                                            (\<lambda>_. bindw (store_block inode_block b3) (\<lambda>_. give (length bytes)))))))
              | None \<Rightarrow>
                  bindw (attempt (outer_attribute b name))
                    (\<lambda>found. case found of
                       Some attr_block \<Rightarrow>
                         bindw (on_disk (reading (\<lambda>jo. read_inode jo attr_block)))
                           (\<lambda>a. if i_type a \<noteq> ty then refuse
                                else bindw (write_blocks_at attr_block offset bytes time) (\<lambda>_. give (length bytes)))
                     | None \<Rightarrow>
                         let fin = wrap64 (offset + length bytes);
                             inner = (if fin \<le> kMaxBlockSize
                                      then small_set b isize ty name (bsplice offset bytes (replicate fin 0)) else None)
                         in (case inner of
                               Some b' \<Rightarrow>
                                 bindw (keep_inode b') (\<lambda>_. bindw (store_block inode_block b') (\<lambda>_. give (length bytes)))
                             | None \<Rightarrow>
                                 bindw (move_out inode_block name ty offset bytes time) (\<lambda>_. give (length bytes))))))"

definition kMaxIndexKey :: nat where "kMaxIndexKey = 255"
definition kAppSigIndex :: "u8 list" where "kAppSigIndex = ascii ''BEOS:APP_SIG''"

definition is_app_sig :: "u8 list \<Rightarrow> bool" where
  "is_app_sig name \<longleftrightarrow> name = kAppSigIndex"

definition attribute_key :: "nat \<Rightarrow> u8 list \<Rightarrow> u8 list wop" where
  "attribute_key inode_block name =
     on_disk (reading (\<lambda>jo. and_then (read_inode jo inode_block)
       (\<lambda>i. and_then (attr_stat jo i name)
         (\<lambda>(ty, sz). let want = min kMaxIndexKey sz
            in if want = 0 then rd_return [] else attr_read jo i name 0 want))))"

definition attr_write_blocks :: "nat \<Rightarrow> u8 list \<Rightarrow> u32 \<Rightarrow> nat \<Rightarrow> u8 list \<Rightarrow> u64 \<Rightarrow> nat wop" where
  "attr_write_blocks inode_block name ty offset bytes time =
     (let indexed = (offset = 0 \<and> is_app_sig name)
      in bindw (if indexed then attempt (attribute_key inode_block name) else give None)
           (\<lambda>old. bindw (attr_write_impl inode_block name ty offset bytes time)
             (\<lambda>written. if \<not> indexed then give written
                else
                  bindw (attempt (attribute_key inode_block name))
                    (\<lambda>new. if old = new then give written
                       else
                         bindw (case old of None \<Rightarrow> give () | Some k \<Rightarrow> index_drop kAppSigIndex k (of_nat inode_block))
                           (\<lambda>_. bindw (case new of None \<Rightarrow> give () | Some k \<Rightarrow> index_add kAppSigIndex k (of_nat inode_block))
                             (\<lambda>_. give written))))))"

definition attr_write :: "nat \<Rightarrow> u8 list \<Rightarrow> u32 \<Rightarrow> nat \<Rightarrow> u8 list \<Rightarrow> u64 \<Rightarrow> nat wop" where
  "attr_write inode_block name ty offset bytes time = transact (attr_write_blocks inode_block name ty offset bytes time)"

definition attr_remove_impl :: "nat \<Rightarrow> u8 list \<Rightarrow> unit wop" where
  "attr_remove_impl inode_block name =
     bindw (demand (name \<noteq> [] \<and> length name \<le> kMaxName))
       (\<lambda>_. bindw (read_inode_block inode_block)
         (\<lambda>b. let isize = unat (le32 b in_kInodeSize)
           in if small_find b isize name \<noteq> None then
                (case small_remove b isize name of
                   None \<Rightarrow> refuse
                 | Some b' \<Rightarrow> bindw (keep_inode b') (\<lambda>_. store_block inode_block b'))
              else
                bindw (outer_attribute b name)
                  (\<lambda>attr_block. bindw (asks (\<lambda>w v. to_block v (le_run b in_kAttributes)))
                    (\<lambda>dir_block. bindw (tree_edit dir_block name 0 False)
                      (\<lambda>existed. bindw (demand existed) (\<lambda>_. destroy attr_block))))))"

definition attr_remove_blocks :: "nat \<Rightarrow> u8 list \<Rightarrow> unit wop" where
  "attr_remove_blocks inode_block name =
     bindw (if is_app_sig name then attempt (attribute_key inode_block name) else give None)
       (\<lambda>old. bindw (attr_remove_impl inode_block name)
         (\<lambda>_. case old of None \<Rightarrow> give () | Some k \<Rightarrow> index_drop kAppSigIndex k (of_nat inode_block)))"

definition attr_remove :: "nat \<Rightarrow> u8 list \<Rightarrow> unit wop" where
  "attr_remove inode_block name = transact (attr_remove_blocks inode_block name)"

definition index_insert :: "nat \<Rightarrow> u8 list \<Rightarrow> u64 \<Rightarrow> unit wop" where
  "index_insert index_block key val = transact (index_insert_blocks index_block key val)"

definition index_remove :: "nat \<Rightarrow> u8 list \<Rightarrow> u64 \<Rightarrow> bool wop" where
  "index_remove index_block key val = transact (index_remove_blocks index_block key val)"

end
