(* ===== verification/Writer_Steps.thy ===== *)
theory Writer_Steps
  imports Bfs_Writer
begin

text \<open>
  What every operation of the writer keeps. The locale \<open>fs_steps\<close> has the few ways an operation touches volume,
  journal and device, as laws of a relation between the states before and after; inside it the relation is
  carried through every operation that stays behind the journal. \<open>fs_direct\<close> adds the writes past the journal
  and covers the rest. Two interpretations give the two facts wanted: an operation behind the journal writes
  nothing to the disk, and no operation overfills the transaction or puts a block into it twice.
\<close>

named_theorems calm_rules
named_theorems step_rules

section \<open>Reading changes nothing but the cache\<close>

definition calm :: "volume \<times> device \<Rightarrow> (volume \<times> device) \<times> 'a option \<Rightarrow> bool" where
  "calm s res \<longleftrightarrow> same_disk s (fst res)"

lemma calm_return [calm_rules]: "calm s (rd_return x s)" "calm s (rd_fail s)"
  by (simp_all add: calm_def rd_return_def rd_fail_def)

lemma calm_then [calm_rules]:
  assumes "calm s (m s)" and "\<And>x s'. calm s' (f x s')"
  shows "calm s (and_then m f s)"
  using assms unfolding calm_def and_then_def
  by (auto split: prod.split option.split intro: same_disk_trans)

lemma calm_split [calm_rules]:
  "(c \<Longrightarrow> calm s (f s)) \<Longrightarrow> (\<not> c \<Longrightarrow> calm s (g s)) \<Longrightarrow> calm s ((if c then f else g) s)"
  "(c \<Longrightarrow> calm s x) \<Longrightarrow> (\<not> c \<Longrightarrow> calm s y) \<Longrightarrow> calm s (if c then x else y)"
  "calm s (f s) \<Longrightarrow> (\<And>x. calm s (h x s)) \<Longrightarrow> calm s ((case r of None \<Rightarrow> f | Some x \<Rightarrow> h x) s)"
  "(\<And>a b. calm s (k a b s)) \<Longrightarrow> calm s ((case p of (a, b) \<Rightarrow> k a b) s)"
  "(\<And>a b. calm s (q a b)) \<Longrightarrow> calm s (case p of (a, b) \<Rightarrow> q a b)"
  by (auto split: option.split prod.split)

lemma read_block_calm: "read_block v jo d block = (v', d', r) \<Longrightarrow> same_disk (v, d) (v', d')"
proof -
  assume a: "read_block v jo d block = (v', d', r)"
  have same: "same_disk (v, d) (v\<lparr>v_cache := c\<rparr>, d\<lparr>dev_clock := k\<rparr>)" for c k
    unfolding same_disk_def by auto
  have keep: "same_disk (v, d) (v, d\<lparr>dev_clock := k\<rparr>)" for k using same [of "v_cache v" k] by simp
  show ?thesis
    using a same keep
    by (auto simp: read_block_def read_block_now_def dev_read_def Let_def split: option.splits if_splits prod.splits outcome.splits)
qed

lemma calm_primitives [calm_rules]: "calm s (rd_block jo block s)" "calm s (rd_sectors sector n s)"
proof -
  show "calm s (rd_block jo block s)"
    using read_block_calm [of "fst s" jo "snd s" block]
    by (cases "read_block (fst s) jo (snd s) block") (simp add: calm_def rd_block_def)
  have "same_disk s (fst s, (snd s)\<lparr>dev_clock := k\<rparr>)" for k
    unfolding same_disk_def by (rule exI [of _ "v_cache (fst s)"], rule exI [of _ k]) simp
  then show "calm s (rd_sectors sector n s)" by (simp add: calm_def rd_sectors_def dev_read_def)
qed

lemma calm_read_bytes [calm_rules]: "calm s (read_bytes jo byte left s)"
proof (induction jo byte left s rule: read_bytes.induct)
  case (1 jo byte left s)
  show ?case
    using 1 by (subst read_bytes.simps) (auto simp: Let_def intro!: calm_rules)
qed

lemma calm_streams [calm_rules]:
  "calm s (read_part jo r skip len s)" "calm s (read_handle jo offset len r pos out s)"
  by (auto simp: read_part_def read_handle_def Let_def intro!: calm_rules)

lemma calm_read_runs [calm_rules]: "calm s (read_runs jo offset len rs pos out s)"
  by (induction rs arbitrary: pos out s) (auto intro!: calm_rules)

lemma calm_read_arrays [calm_rules]: "calm s (read_arrays jo offset len at n pos out s)"
  by (induction n arbitrary: at pos out s) (auto intro!: calm_rules)

lemma calm_read_array_runs [calm_rules]: "calm s (read_array_runs jo offset len rs pos out s)"
  by (induction rs arbitrary: pos out s) (auto intro!: calm_rules)

lemma calm_read_double [calm_rules]: "calm s (read_double jo offset len at n pos out s)"
  by (induction n arbitrary: at pos out s) (auto intro!: calm_rules)

lemma calm_read_stream [calm_rules]: "calm s (read_stream jo i offset len s)"
  by (auto simp: read_stream_def Let_def intro!: calm_rules)

lemma calm_inode [calm_rules]:
  "calm s (read_inode jo block s)" "calm s (node_header jo dir s)"
  by (auto simp: read_inode_def node_header_def Let_def intro!: calm_rules)

lemma calm_dir_find [calm_rules]: "calm s (dir_find jo dir name s)"
proof -
  have "calm s (dir_find_loop jo dir name node_size maximum offset n s)" for node_size maximum offset n s
    by (induction n arbitrary: offset s) (auto simp: Let_def intro!: calm_rules)
  then show ?thesis by (auto simp: dir_find_def intro!: calm_rules)
qed

lemma calm_leftmost [calm_rules]: "calm s (leftmost jo dir node_size maximum offset n s)"
  by (induction n arbitrary: offset s) (auto simp: Let_def intro!: calm_rules)

lemma calm_attributes [calm_rules]:
  "calm s (index_inode jo name s)" "calm s (inode_raw jo i s)" "calm s (attr_dir_inode jo i s)" "calm s (attr_inode jo i name s)"
  by (auto simp: index_inode_def inode_raw_def attr_dir_inode_def attr_inode_def Let_def intro!: calm_rules)

lemma calm_small_try [calm_rules]: "calm s (small_try jo i name s)"
  using calm_attributes(2) [of s jo i] by (auto simp: small_try_def calm_def split: prod.splits option.splits)

lemma calm_attr_access [calm_rules]: "calm s (attr_stat jo i name s)" "calm s (attr_read jo i name offset len s)"
  by (auto simp: attr_stat_def attr_read_def Let_def intro!: calm_rules)

section \<open>A relation carried through the operations\<close>

definition goes :: "(fs \<Rightarrow> fs \<Rightarrow> bool) \<Rightarrow> fs \<Rightarrow> fs \<times> 'a option \<Rightarrow> bool" where
  "goes R s res \<longleftrightarrow> R s (fst res)"

definition steps :: "(fs \<Rightarrow> fs \<Rightarrow> bool) \<Rightarrow> 'a wop \<Rightarrow> bool" where
  "steps R m \<longleftrightarrow> (\<forall>s. R (snd s) (snd (fst (m s))))"

definition allowed :: "(fs \<Rightarrow> fs \<Rightarrow> bool) \<Rightarrow> bool \<Rightarrow> bool" where
  "allowed R direct \<longleftrightarrow> (\<forall>block b s. R s (fst (put_block direct block b s)))"

locale fs_steps =
  fixes R :: "fs \<Rightarrow> fs \<Rightarrow> bool"
  assumes R_refl: "R s s"
    and R_trans: "R s t \<Longrightarrow> R t u \<Longrightarrow> R s u"
    and R_read: "same_disk (v, d) (v', d') \<Longrightarrow> R (v, jo, d) (v', jo, d')"
    and R_log: "allowed R False"
    and R_count: "R (v, jo, d) (set_used_blocks n v, jo, fst (flush_superblock (set_used_blocks n v) jo d))"
begin

lemma goes_basic [step_rules]: "goes R s (wr_return x s)" "goes R s (wr_fail s)"
  by (simp_all add: goes_def wr_return_def wr_fail_def R_refl)

lemma goes_then [step_rules]:
  assumes "goes R s (m s)" and "\<And>x s'. goes R s' (f x s')"
  shows "goes R s (wr_then m f s)"
  using assms unfolding goes_def wr_then_def
  by (auto split: prod.split option.split intro: R_trans)

lemma goes_split [step_rules]:
  "(c \<Longrightarrow> goes R s (f s)) \<Longrightarrow> (\<not> c \<Longrightarrow> goes R s (g s)) \<Longrightarrow> goes R s ((if c then f else g) s)"
  "(c \<Longrightarrow> goes R s x) \<Longrightarrow> (\<not> c \<Longrightarrow> goes R s y) \<Longrightarrow> goes R s (if c then x else y)"
  "(\<And>a. goes R s (h a s)) \<Longrightarrow> (\<And>b. goes R s (k b s)) \<Longrightarrow> goes R s ((case z of Inl a \<Rightarrow> h a | Inr b \<Rightarrow> k b) s)"
  "(\<And>a b. goes R s (l a b s)) \<Longrightarrow> goes R s ((case p of (a, b) \<Rightarrow> l a b) s)"
  "(\<And>a b. goes R s (q a b)) \<Longrightarrow> goes R s (case p of (a, b) \<Rightarrow> q a b)"
  by (auto split: sum.split prod.split)

lemma goes_reading [step_rules]:
  assumes "\<And>jo s. calm s (m jo s)"
  shows "goes R s (reading m s)"
proof -
  obtain v jo d where s: "s = (v, jo, d)" by (cases s)
  obtain v' d' r where m: "m jo (v, d) = ((v', d'), r)" by (metis surj_pair)
  have "same_disk (v, d) (v', d')" using assms [of "(v, d)" jo] m by (simp add: calm_def)
  then show ?thesis using R_read s m by (simp add: goes_def reading_def)
qed

lemma goes_put [step_rules]: "allowed R direct \<Longrightarrow> goes R s (put_block direct block b s)"
  unfolding goes_def allowed_def by blast

lemma goes_write_bytes [step_rules]:
  assumes "allowed R direct"
  shows "goes R s (write_bytes direct byte src s)"
  using assms
proof (induction direct byte src s rule: write_bytes.induct)
  case (1 direct byte src s)
  show ?case
    using 1 by (subst write_bytes.simps) (auto simp: Let_def intro!: step_rules calm_rules)
qed

lemma goes_write_handle [step_rules]:
  "allowed R direct \<Longrightarrow> goes R s (write_handle direct offset src r pos progress s)"
  by (auto simp: write_handle_def write_part_def Let_def intro!: step_rules)

lemma goes_write_runs [step_rules]:
  "allowed R direct \<Longrightarrow> goes R s (write_runs direct offset src rs pos progress s)"
  by (induction rs arbitrary: pos progress s) (auto intro!: step_rules)

lemma goes_write_block_runs [step_rules]:
  "allowed R direct \<Longrightarrow> goes R s (write_block_runs direct offset src buf base n pos progress s)"
  by (auto simp: write_block_runs_def Let_def intro!: step_rules)

lemma goes_write_arrays [step_rules]:
  "allowed R direct \<Longrightarrow> goes R s (write_arrays direct offset src at n pos progress s)"
  by (induction n arbitrary: at pos progress s) (auto intro!: step_rules calm_rules)

lemma goes_write_array_runs [step_rules]:
  "allowed R direct \<Longrightarrow> goes R s (write_array_runs direct offset src rs pos progress s)"
  by (induction rs arbitrary: pos progress s) (auto intro!: step_rules)

lemma goes_write_double [step_rules]:
  "allowed R direct \<Longrightarrow> goes R s (write_double direct offset src at n pos progress s)"
  by (induction n arbitrary: at pos progress s) (auto simp: Let_def intro!: step_rules calm_rules)

lemma goes_write_stream [step_rules]:
  "allowed R direct \<Longrightarrow> goes R s (write_stream_impl direct stream offset src s)"
  by (auto simp: write_stream_impl_def Let_def intro!: step_rules)

lemma goes_write_raw [step_rules]: "goes R s (write_stream_raw stream offset src s)"
  by (simp add: write_stream_raw_def goes_write_stream R_log)

end

context fs_steps
begin

lemma steps_basic [step_rules]:
  "steps R (give x)" "steps R refuse" "steps R (demand c)" "steps R (asks q)" "steps R (changes g)"
  by (simp_all add: steps_def give_def refuse_def demand_def asks_def changes_def R_refl)

lemma steps_bind [step_rules]:
  assumes "steps R m" and "\<And>x. steps R (f x)"
  shows "steps R (bindw m f)"
  unfolding steps_def
proof
  fix s
  obtain s1 r where m: "m s = (s1, r)" by (cases "m s")
  have "R (snd s) (snd s1)" using assms(1) m unfolding steps_def by (metis fst_conv)
  moreover have "R (snd s1) (snd (fst (f x s1)))" for x using assms(2) unfolding steps_def by blast
  ultimately show "R (snd s) (snd (fst (bindw m f s)))"
    using m by (auto simp: bindw_def split: option.split intro: R_trans)
qed

lemma steps_attempt [step_rules]: "steps R m \<Longrightarrow> steps R (attempt m)"
  unfolding steps_def attempt_def by (simp add: case_prod_beta)

lemma steps_on_disk [step_rules]:
  assumes "\<And>s. goes R s (m s)"
  shows "steps R (on_disk m)"
  using assms unfolding steps_def on_disk_def goes_def by (simp add: case_prod_beta)

lemma steps_split [step_rules]:
  "(c \<Longrightarrow> steps R f) \<Longrightarrow> (\<not> c \<Longrightarrow> steps R g) \<Longrightarrow> steps R (if c then f else g)"
  "steps R f \<Longrightarrow> (\<And>x. steps R (h x)) \<Longrightarrow> steps R (case r of None \<Rightarrow> f | Some x \<Rightarrow> h x)"
  "(\<And>a. steps R (i a)) \<Longrightarrow> (\<And>b. steps R (k b)) \<Longrightarrow> steps R (case z of Inl a \<Rightarrow> i a | Inr b \<Rightarrow> k b)"
  "(\<And>a b. steps R (l a b)) \<Longrightarrow> steps R (case p of (a, b) \<Rightarrow> l a b)"
  by (auto split: option.split sum.split prod.split)

lemma steps_each [step_rules]: "(\<And>x. steps R (f x)) \<Longrightarrow> steps R (each f xs)"
  by (induction xs) (auto intro!: step_rules)

lemma R_block:
  "read_block v jo d block = (v', d', r) \<Longrightarrow> R (v, jo, d) (v', jo, d')"
  "write_block v jo d block b = (v', jo', d', ok) \<Longrightarrow> R (v, jo, d) (v', jo', d')"
proof -
  show "R (v, jo, d) (v', jo, d')" if "read_block v jo d block = (v', d', r)" using R_read read_block_calm [OF that] by blast
  show "R (v, jo, d) (v', jo', d')" if "write_block v jo d block b = (v', jo', d', ok)"
  proof -
    have "R (v, jo, d) (fst (put_block False block b (v, jo, d)))" using R_log unfolding allowed_def by blast
    then show ?thesis using that by (simp add: put_block_def)
  qed
qed

lemma R_try_block: "R (snd st) (snd (fst (try_block maximum minimum grp index st)))"
proof -
  obtain a v jo d where st: "st = (a, v, jo, d)" by (metis surj_pair)
  let ?at = "bitmap_block a grp index"
  obtain v1 d1 r where read: "read_block v jo d ?at = (v1, d1, r)" by (metis surj_pair)
  note one = R_block(1) [OF read]
  have two: "R (v, jo, d) (set_used_blocks n v2, jo2, fst (flush_superblock (set_used_blocks n v2) jo2 d2))" "R (v, jo, d) (v2, jo2, d2)"
    if "write_block v1 jo d1 ?at x = (v2, jo2, d2, ok)" for n v2 jo2 d2 ok x
    using R_trans [OF one R_block(2) [OF that]] R_trans [OF _ R_count] by blast+
  show ?thesis
    using R_refl one two
    by (simp add: try_block_def st Let_def read split: option.split prod.split)
qed

lemma R_allocate: "R (snd st) (snd (fst (allocate most least st)))"
proof -
  have loop: "R (snd st) (snd (fst (try_blocks maximum minimum order st)))" for maximum minimum order st
  proof (induction order arbitrary: st)
    case Nil
    then show ?case by (simp add: R_refl)
  next
    case (Cons p order)
    obtain grp index where p: "p = (grp, index)" by (cases p)
    obtain st' res where t: "try_block maximum minimum grp index st = (st', res)" by (cases "try_block maximum minimum grp index st")
    have "R (snd st) (snd st')" using R_try_block [of st maximum minimum grp index] t by simp
    then show ?case using Cons.IH [of st'] p t by (auto split: option.split intro: R_trans)
  qed
  obtain a v jo d where "st = (a, v, jo, d)" by (metis surj_pair)
  then show ?thesis
    using loop [of st "min most kMaxRun" "min least (min most kMaxRun)" "bitmap_order v a"] by (simp add: allocate_def Let_def R_refl)
qed

lemma R_free_run: "R (snd st) (snd (fst (free_run r st)))"
proof -
  have loop: "R (snd st) (snd (fst (free_blocks_from grp loc n st)))" for grp loc n st
  proof (induction n arbitrary: loc st)
    case 0
    then show ?case by (simp add: R_refl)
  next
    case (Suc n)
    obtain a v jo d where st: "st = (a, v, jo, d)" by (metis surj_pair)
    let ?at = "bitmap_block a grp (loc div bits_per_block a)"
    obtain v1 d1 res where read: "read_block v jo d ?at = (v1, d1, res)" by (metis surj_pair)
    note one = R_block(1) [OF read]
    have two: "R (v, jo, d) (v2, jo2, d2)" if "write_block v1 jo d1 ?at x = (v2, jo2, d2, ok)" for v2 jo2 d2 ok x
      using R_trans [OF one R_block(2) [OF that]] .
    have three: "R (v, jo, d) (snd (fst (free_blocks_from grp (loc + 1) n (b, v2, jo2, d2))))"
      if "write_block v1 jo d1 ?at x = (v2, jo2, d2, ok)" for b v2 jo2 d2 ok x
      using R_trans [OF two [OF that]] Suc.IH [of "(b, v2, jo2, d2)" "loc + 1"] by simp
    show ?case
      using R_refl one two three by (simp add: st free_blocks_from.simps Let_def read split: option.split prod.split)
  qed
  have discard: "snd (queue_discard r q) = snd q" for q
    by (auto simp: queue_discard_def flush_discards_def split: prod.split option.split)
  obtain a v jo d ok where l: "free_blocks_from (unat (run_ag r)) (unat (run_start r)) (unat (run_len r)) st = ((a, v, jo, d), ok)"
    by (metis surj_pair)
  have "R (snd st) (v, jo, d)" using loop [of st] l by (metis fst_conv snd_conv)
  then show ?thesis
    using R_refl R_trans [OF _ R_count] by (auto simp: free_run_def l Let_def discard split: bool.split)
qed

lemma steps_runs [step_rules]: "steps R (alloc_run most least)" "steps R (release_run r)"
proof -
  show "steps R (alloc_run most least)"
    unfolding steps_def
  proof
    fix s :: "writer \<times> fs"
    show "R (snd s) (snd (fst (alloc_run most least s)))"
      using R_allocate [of "(bw_alloc (fst s), snd s)" most least] by (simp add: alloc_run_def case_prod_beta)
  qed
  show "steps R (release_run r)"
    unfolding steps_def
  proof
    fix s :: "writer \<times> fs"
    show "R (snd s) (snd (fst (release_run r s)))"
      using R_free_run [of "(bw_alloc (fst s), snd s)" r] by (simp add: release_run_def case_prod_beta)
  qed
qed

end

section \<open>The operations behind the journal\<close>

context fs_steps
begin

lemma steps_blocks [step_rules]:
  "steps R (fetch_block b)" "steps R (keep_node x)" "steps R (store_block b x)"
  by (auto simp: fetch_block_def keep_node_def store_block_def R_log intro!: step_rules calm_rules)

lemma steps_load [step_rules]: "steps R (load_block b)"
  by (auto simp: load_block_def intro!: step_rules)

lemma steps_give_back [step_rules]: "steps R (give_back rs)"
  by (auto simp: give_back_def intro!: step_rules)

lemma steps_or_give_back [step_rules]: "steps R m \<Longrightarrow> steps R (or_give_back m rs)"
  by (auto simp: or_give_back_def intro!: step_rules)

lemma steps_release_any [step_rules]: "steps R (release_any r)"
  by (auto simp: release_any_def intro!: step_rules)

lemma steps_zero_blocks [step_rules]: "steps R (zero_blocks r)"
  by (auto simp: zero_blocks_def intro!: step_rules)

lemma steps_count_arrays [step_rules]: "(\<And>b. steps R (get b)) \<Longrightarrow> steps R (count_arrays get at n covered)"
  by (induction n arbitrary: at covered) (auto simp: Let_def intro!: step_rules)

lemma steps_count_array_runs [step_rules]: "steps R (count_array_runs rs covered)"
  by (induction rs arbitrary: covered) (auto intro!: step_rules)

lemma steps_count_double [step_rules]: "steps R (count_double at n covered)"
  by (induction n arbitrary: at covered) (auto simp: Let_def intro!: step_rules)

lemma steps_stream_blocks [step_rules]: "steps R (stream_blocks stream)"
  by (auto simp: stream_blocks_def Let_def intro!: step_rules)

lemma steps_append_indirect [step_rules]: "steps R (append_indirect r at n)"
  by (induction n arbitrary: at) (auto simp: Let_def intro!: step_rules)

lemma steps_array_of_slot [step_rules]: "steps R (array_of_slot unit slot_at)"
  by (auto simp: array_of_slot_def intro!: step_rules)

lemma steps_fill_array [step_rules]: "steps R (fill_array fuel unit per slot_at index r n wrote)"
  by (induction fuel arbitrary: index r n wrote) (auto intro!: step_rules)

lemma steps_fill_double [step_rules]: "steps R (fill_double fuel unit per double loaded indirect_index index r n)"
  by (induction fuel arbitrary: loaded indirect_index index r n) (auto simp: Let_def intro!: step_rules)

lemma steps_append_double [step_rules]: "steps R (append_double stream r)"
  by (auto simp: append_double_def Let_def intro!: step_rules)

lemma steps_append_run [step_rules]: "steps R (append_run stream r)"
  by (auto simp: append_run_def Let_def intro!: step_rules)

lemma steps_free_arrays [step_rules]: "(\<And>b. steps R (get b)) \<Longrightarrow> steps R (free_arrays at n get)"
  by (induction n arbitrary: at) (auto intro!: step_rules)

lemma steps_free_double_blocks [step_rules]:
  "(\<And>r. steps R (fin r)) \<Longrightarrow> steps R (free_double_blocks fin at n)"
  by (induction n arbitrary: at) (auto simp: free_array_run_def intro!: step_rules)

lemma steps_free [step_rules]: "steps R (free_stream stream)" "steps R (free_double stream)"
  by (auto simp: free_stream_def free_double_def Let_def intro!: step_rules)

lemma steps_cut_runs [step_rules]: "steps R (cut_runs new_blocks logical rs)"
  by (induction rs arbitrary: logical) (auto simp: Let_def intro!: step_rules)

lemma steps_cut_arrays [step_rules]: "steps R (cut_arrays new_blocks logical at n)"
  by (induction n arbitrary: logical at) (auto simp: Let_def intro!: step_rules)

lemma steps_trim_stream [step_rules]: "steps R (trim_stream stream new_blocks)"
  by (auto simp: trim_stream_def Let_def intro!: step_rules)

lemma steps_inode [step_rules]: "steps R (read_inode_block b)" "steps R (keep_inode i)"
  by (auto simp: read_inode_block_def keep_inode_def intro!: step_rules)

lemma steps_from_stream [step_rules]: "steps R (from_stream i offset len)" "steps R (node_read offset node_size)"
  by (auto simp: from_stream_def node_read_def intro!: step_rules calm_rules)

lemma steps_node [step_rules]:
  "steps R (load_node offset node_size)" "steps R (node_write offset node_size node)" "steps R header_write"
  by (auto simp: load_node_def node_write_def header_write_def intro!: step_rules)

lemma steps_writer_header [step_rules]: "steps R (writer_header b)"
  by (auto simp: writer_header_def intro!: step_rules)

lemma steps_remove_into [step_rules]: "steps R (remove_into fuel offset node_size name)"
  by (induction fuel arbitrary: offset) (auto intro!: step_rules)

lemma steps_tree_remove [step_rules]: "steps R (tree_edit parent_block name val False)"
  by (auto simp: tree_edit_def Let_def intro!: step_rules)

lemma steps_index_leaf [step_rules]: "steps R (index_leaf depth offset node_size key)"
  by (induction depth arbitrary: offset) (auto intro!: step_rules)

lemma steps_chain [step_rules]:
  "steps R (free_tree_node offset node_size)" "steps R (set_leaf_value leaf node_size index val)"
  "steps R (patch_node offset node_size field val)"
  by (auto simp: free_tree_node_def set_leaf_value_def patch_node_def intro!: step_rules)

lemma steps_unlink_empty [step_rules]: "steps R (unlink_empty leaf index node_size key offset previous left right)"
  by (auto simp: unlink_empty_def intro!: step_rules)

lemma steps_drop_duplicate [step_rules]: "steps R (drop_duplicate depth leaf index node_size key offset previous val)"
  by (induction depth arbitrary: offset previous) (auto simp: Let_def intro!: step_rules)

lemma steps_open_index [step_rules]: "steps R (open_index index_block key)"
  by (auto simp: open_index_def intro!: step_rules)

lemma steps_index_remove [step_rules]: "steps R (index_remove_blocks index_block key val)"
  by (auto simp: index_remove_blocks_def intro!: step_rules)

lemma steps_index_drop [step_rules]: "steps R (index_drop index key val)"
  by (auto simp: index_drop_def intro!: step_rules calm_rules)

lemma steps_index_on_remove [step_rules]: "steps R (index_on_remove block name mode sz time)"
  by (auto simp: index_on_remove_def intro!: step_rules)

lemma steps_count_entries [step_rules]: "steps R (count_entries n dir node_size maximum offset entries ok)"
  by (induction n arbitrary: offset entries ok) (auto simp: Let_def intro!: step_rules)

lemma steps_dir_is_empty [step_rules]: "steps R (dir_is_empty b)"
  by (auto simp: dir_is_empty_def Let_def intro!: step_rules calm_rules)

lemma steps_destroy [step_rules]: "steps R (destroy b)"
  by (auto simp: destroy_def intro!: step_rules)

lemma steps_find_name [step_rules]: "steps R (find_name_in dir name)" "steps R (outer_attribute b name)"
  by (auto simp: find_name_in_def outer_attribute_def intro!: step_rules calm_rules)

lemma steps_attribute_key [step_rules]: "steps R (attribute_key b name)"
  by (auto simp: attribute_key_def Let_def intro!: step_rules calm_rules)

lemma steps_remove_blocks [step_rules]: "steps R (remove_blocks parent_block name)"
  by (auto simp: remove_blocks_def Let_def intro!: step_rules)

lemma steps_set_owner_mode [step_rules]: "steps R (set_owner_mode_blocks b uid gid mode)"
  by (auto simp: set_owner_mode_blocks_def Let_def intro!: step_rules)

lemma steps_attr_remove [step_rules]: "steps R (attr_remove_blocks b name)"
  by (auto simp: attr_remove_blocks_def attr_remove_impl_def Let_def intro!: step_rules)

end

section \<open>The operations that also write past it\<close>

locale fs_direct = fs_steps +
  assumes R_now: "allowed R True"
begin

lemma steps_now [step_rules]: "steps R (zero_now r)" "goes R s (write_stream_direct stream offset src s)"
  by (auto simp: zero_now_def write_stream_direct_def R_now intro!: step_rules)

lemma steps_grow [step_rules]: "steps R (grow_to stream needed covered)"
proof -
  have "steps R (grow_rounds fuel min_unit stream needed covered)" for fuel min_unit stream covered
    by (induction fuel arbitrary: min_unit stream covered) (auto simp: Let_def intro!: step_rules)
  then show ?thesis unfolding grow_to_def by this
qed

lemma steps_zero_range [step_rules]: "steps R (zero_range stream pos to)"
proof (induction stream pos to rule: zero_range.induct)
  case (1 stream pos to)
  then show ?case by (subst zero_range.simps) (auto simp: Let_def intro!: step_rules)
qed

lemma steps_append_node [step_rules]: "steps R (append_node parent_block node_size)"
  by (auto simp: append_node_def Let_def intro!: step_rules)

lemma steps_relink [step_rules]: "steps R (relink old_right other node_size)"
  by (auto simp: relink_def Let_def intro!: step_rules)

lemma steps_splits [step_rules]:
  "steps R (split_leaf node node_size offset name val)"
  "steps R (split_internal node node_size offset name old replace_with)"
  by (auto simp: split_leaf_def split_internal_def intro!: step_rules)

lemma steps_insert_into [step_rules]: "steps R (insert_into fuel offset node_size name val)"
  by (induction fuel arbitrary: offset) (auto intro!: step_rules)

lemma steps_insert_from_root [step_rules]: "steps R (insert_from_root fuel root node_size name val)"
  by (auto simp: insert_from_root_def write_new_root_def intro!: step_rules)

lemma steps_tree_edit [step_rules]: "steps R (tree_edit parent_block name val inserting)"
  by (auto simp: tree_edit_def Let_def intro!: step_rules calm_rules)

lemma steps_add_duplicate [step_rules]: "steps R (add_duplicate depth offset node_size val)"
  by (induction depth arbitrary: offset) (auto simp: Let_def intro!: step_rules)

lemma steps_index_insert [step_rules]: "steps R (index_insert_blocks index_block key val)"
  by (auto simp: index_insert_blocks_def index_add_value_def intro!: step_rules)

lemma steps_index_add [step_rules]: "steps R (index_add index key val)"
  by (auto simp: index_add_def intro!: step_rules calm_rules)

lemma steps_index_on [step_rules]:
  "steps R (index_on_create block name mode sz time)" "steps R (index_on_rename block name name')"
  "steps R (index_on_resize block mode old_size new_size)" "steps R (index_on_time block mode old_time new_time)"
  by (auto simp: index_on_create_def index_on_rename_def index_on_resize_def index_on_time_def intro!: step_rules)

lemma steps_alloc_tree [step_rules]: "steps R (alloc_tree inode_run)"
  by (auto simp: alloc_tree_def intro!: step_rules)

lemma steps_create_blocks [step_rules]: "steps R (create_blocks parent_block name mode uid gid time)"
  by (auto simp: create_blocks_def Let_def intro!: step_rules)

lemma steps_write_blocks [step_rules]: "steps R (write_blocks_at inode_block offset bytes time)"
  by (auto simp: write_blocks_at_def Let_def intro!: step_rules)

lemma steps_truncate_blocks [step_rules]: "steps R (truncate_blocks inode_block sz time)"
  by (auto simp: truncate_blocks_def Let_def intro!: step_rules)

lemma steps_rename_blocks [step_rules]: "steps R (rename_blocks parent_block name name')"
  by (auto simp: rename_blocks_def intro!: step_rules)

lemma steps_attr_dir [step_rules]: "steps R (attr_dir inode_block time)"
  by (auto simp: attr_dir_def Let_def intro!: step_rules)

lemma steps_move_out [step_rules]: "steps R (move_out inode_block name ty offset bytes time)"
  by (auto simp: move_out_def attr_inode_create_def Let_def intro!: step_rules)

lemma steps_attr_write [step_rules]: "steps R (attr_write_blocks inode_block name ty offset bytes time)"
  by (auto simp: attr_write_blocks_def attr_write_impl_def Let_def intro!: step_rules calm_rules)

end

end
