(* ===== verification/Bfs_Writer_Contract.thy ===== *)
theory Bfs_Writer_Contract
  imports Writer_Steps
begin

text \<open>
  What the operations of the writer promise. A request that is refused before its commit leaves volume and disk
  as they were, if all it does stays behind the journal; no request puts more into a transaction than the log
  format takes. A full leaf is halved into two leaves that hold the old entries and the new one, if both halves
  fit; they may not.
\<close>

section \<open>Behind the journal\<close>

text \<open>
  The state moves on while a transaction is open: nothing on the disk changes, the snapshot of the superblock
  stays, and of the volume only the cache, the count of used blocks and the superblock image.
\<close>

definition unwritten :: "fs \<Rightarrow> fs \<Rightarrow> bool" where
  "unwritten s s' \<longleftrightarrow> (case s of (v, jo, d) \<Rightarrow> case s' of (v', jo', d') \<Rightarrow>
     journal_active jo \<longrightarrow>
       journal_active jo' \<and>
       map_option (\<lambda>j. (j_snapshot_valid j, j_committed j, j_superblock j)) jo' =
         map_option (\<lambda>j. (j_snapshot_valid j, j_committed j, j_superblock j)) jo \<and>
       (\<exists>k. d' = d\<lparr>dev_clock := k\<rparr>) \<and>
       (\<exists>c n b. v' = v\<lparr>v_cache := c, v_used_blocks := n, v_superblock := b\<rparr>))"

lemma unwritten_same: "unwritten (v, jo, d) (v\<lparr>v_cache := c, v_used_blocks := n, v_superblock := b\<rparr>, jo, d\<lparr>dev_clock := k\<rparr>)"
  unfolding unwritten_def by auto

lemma unwritten_log: "allowed unwritten False"
  unfolding allowed_def
proof (intro allI)
  fix block b and s :: fs
  obtain v jo d where s: "s = (v, jo, d)" by (metis surj_pair)
  show "unwritten s (fst (put_block False block b s))"
  proof (cases "journal_active jo")
    case False
    then show ?thesis by (simp add: s unwritten_def case_prod_beta)
  next
    case True
    then obtain j where j: "jo = Some j" "j_active j" by (auto simp: journal_active_def split: option.splits)
    obtain j' ok where log: "journal_log j block b = (j', ok)" by (cases "journal_log j block b")
    have kept: "j_active j'" "j_snapshot_valid j' = j_snapshot_valid j" "j_committed j' = j_committed j" "j_superblock j' = j_superblock j"
      using log j(2) by (auto simp: journal_log_def split: if_splits)
    have put: "fst (put_block False block b s) = (clear_cache v, Some j', d)"
      using s j log by (simp add: put_block_def write_block_def Let_def)
    have d: "\<exists>k. d = d\<lparr>dev_clock := k\<rparr>" by (rule exI [of _ "dev_clock d"]) simp
    have v: "\<exists>c n i. clear_cache v = v\<lparr>v_cache := c, v_used_blocks := n, v_superblock := i\<rparr>"
      by (rule exI [of _ "\<lambda>_. None"], rule exI [of _ "v_used_blocks v"], rule exI [of _ "v_superblock v"])
        (simp add: clear_cache_def)
    show ?thesis unfolding put unfolding s unwritten_def using j kept d v by (simp add: journal_active_def)
  qed
qed

interpretation behind: fs_steps unwritten
proof unfold_locales
  show "unwritten s s" for s
  proof -
    obtain v jo d where s: "s = (v, jo, d)" by (metis surj_pair)
    show ?thesis using unwritten_same [where v = v and jo = jo and d = d and c = "v_cache v" and n = "v_used_blocks v" and b = "v_superblock v" and k = "dev_clock d"] s by simp
  qed
  show "unwritten s u" if "unwritten s t" "unwritten t u" for s t u
    using that unfolding unwritten_def by (auto split: prod.splits) blast+
  show "unwritten (v, jo, d) (v', jo, d')" if same: "same_disk (v, d) (v', d')" for v d v' d' jo
  proof -
    obtain c k where "v' = v\<lparr>v_cache := c\<rparr>" "d' = d\<lparr>dev_clock := k\<rparr>" using same by (auto simp: same_disk_def)
    then show ?thesis using unwritten_same [where v = v and jo = jo and d = d and c = c and n = "v_used_blocks v" and b = "v_superblock v" and k = k] by simp
  qed
  show "allowed unwritten False" by (rule unwritten_log)
  show "unwritten (v, jo, d) (set_used_blocks n v, jo, fst (flush_superblock (set_used_blocks n v) jo d))" for v jo d n
  proof (cases "journal_active jo")
    case True
    then show ?thesis
      using unwritten_same [where v = v and jo = jo and d = d and c = "v_cache v" and n = n and b = "put_le64 (v_superblock v) sb_kUsedBlocks (of_nat n)" and k = "dev_clock d"]
      by (simp add: flush_superblock_def set_used_blocks_def)
  next
    case False
    then show ?thesis by (simp add: unwritten_def case_prod_beta)
  qed
qed

text \<open>The numbers the volume keeps are those of its superblock image, as after opening it.\<close>

definition mirrors :: "volume \<Rightarrow> bool" where
  "mirrors v \<longleftrightarrow> v_used_blocks v = unat (le64 (v_superblock v) sb_kUsedBlocks) \<and>
     v_log_start v = unat (le64 (v_superblock v) sb_kLogStart) \<and> v_log_end v = unat (le64 (v_superblock v) sb_kLogEnd)"

text \<open>The state is as before, up to the cache, the number of requests made and the scratch buffers.\<close>

definition restored :: "volume \<Rightarrow> device \<Rightarrow> writer \<times> fs \<Rightarrow> bool" where
  "restored v d s \<longleftrightarrow> (case s of (w', v', jo', d') \<Rightarrow>
     (\<exists>c. v' = v\<lparr>v_cache := c\<rparr>) \<and> (\<exists>k. d' = d\<lparr>dev_clock := k\<rparr>) \<and> al_pending (bw_alloc w') = None \<and>
     (\<exists>j'. jo' = Some j' \<and> \<not> j_active j' \<and> j_entries j' = []))"

lemma refused_restores:
  assumes quiet: "steps unwritten m" and "\<not> j_active j" and "mirrors v"
    and refused: "snd (m (w, v, Some (journal_begin v j), d)) = None"
  shows "restored v d (fst (transact m (w, v, Some j, d)))"
proof -
  let ?s = "(w, v, Some (journal_begin v j), d)"
  obtain w1 v1 jo1 d1 where m: "m ?s = ((w1, v1, jo1, d1), None)" using refused by (metis prod.collapse)
  have "unwritten (snd ?s) (snd (fst (m ?s)))" using quiet unfolding steps_def by (rule spec)
  then have u: "unwritten (v, Some (journal_begin v j), d) (v1, jo1, d1)" using m by simp
  then obtain j1 where j1: "jo1 = Some j1" "j_snapshot_valid j1" "\<not> j_committed j1" "j_superblock j1 = v_superblock v"
    by (auto simp: unwritten_def journal_active_def journal_begin_def)
  obtain k where d1: "d1 = d\<lparr>dev_clock := k\<rparr>" using u by (auto simp: unwritten_def journal_active_def journal_begin_def)
  obtain c n b where v1: "v1 = v\<lparr>v_cache := c, v_used_blocks := n, v_superblock := b\<rparr>"
    using u by (auto simp: unwritten_def journal_active_def journal_begin_def)
  have "restore_superblock (v_superblock v) v1 = v\<lparr>v_cache := c\<rparr>"
    using assms(3) by (simp add: v1 restore_superblock_def mirrors_def)
  then show ?thesis
    using m j1 assms(2) d1
    by (auto simp: transact_def finish_def abandon_def journal_abort_def drop_discards_def restored_def)
qed


lemma others_refused_restore:
  assumes "\<not> j_active j" and "mirrors v"
  shows "snd (set_owner_mode_blocks b uid gid mode (w, v, Some (journal_begin v j), d)) = None \<Longrightarrow>
      restored v d (fst (set_owner_mode b uid gid mode (w, v, Some j, d)))"
    and "snd (attr_remove_blocks b name (w, v, Some (journal_begin v j), d)) = None \<Longrightarrow>
      restored v d (fst (attr_remove b name (w, v, Some j, d)))"
    and "snd (index_remove_blocks b key val (w, v, Some (journal_begin v j), d)) = None \<Longrightarrow>
      restored v d (fst (index_remove b key val (w, v, Some j, d)))"
  unfolding set_owner_mode_def attr_remove_def index_remove_def
  by (rule refused_restores [OF _ assms], rule behind.steps_set_owner_mode behind.steps_attr_remove behind.steps_index_remove, assumption)+

section \<open>The size of a transaction\<close>

definition orderly :: "fs \<Rightarrow> bool" where
  "orderly s \<longleftrightarrow> (case fst (snd s) of None \<Rightarrow> True | Some j \<Rightarrow>
     length (j_entries j) \<le> kMaxJournalBlocks \<and> distinct (map fst (j_entries j)))"

lemma replace_entry_blocks: "map fst (replace_entry block b es) = map fst es"
  by (induction es) auto

lemma journal_log_orderly:
  "journal_log j block b = (j', ok) \<Longrightarrow> length (j_entries j) \<le> kMaxJournalBlocks \<Longrightarrow> distinct (map fst (j_entries j)) \<Longrightarrow>
   length (j_entries j') \<le> kMaxJournalBlocks \<and> distinct (map fst (j_entries j'))"
  using map_eq_imp_length_eq [OF replace_entry_blocks [of block b "j_entries j"]]
  by (auto simp: journal_log_def replace_entry_blocks split: if_splits)

lemma put_block_orderly: "orderly s \<Longrightarrow> orderly (fst (put_block direct block b s))"
proof -
  assume o: "orderly s"
  obtain v jo d where s: "s = (v, jo, d)" by (metis surj_pair)
  have now: "orderly (v1, jo, d1)" for v1 d1 using o by (simp add: orderly_def s)
  have log: "orderly (v1, Some j', d1)" if "jo = Some j" "journal_log j block b = (j', ok)" for v1 d1 j j' ok
    using o journal_log_orderly [OF that(2)] by (simp add: orderly_def s that(1))
  show ?thesis
    using now log by (auto simp: s put_block_def write_block_def Let_def split: prod.split option.split)
qed

interpretation bound: fs_direct "\<lambda>s s'. orderly s \<longrightarrow> orderly s'"
proof unfold_locales
  show "allowed (\<lambda>s s'. orderly s \<longrightarrow> orderly s') False" "allowed (\<lambda>s s'. orderly s \<longrightarrow> orderly s') True"
    unfolding allowed_def using put_block_orderly by blast+
qed (auto simp: orderly_def)

text \<open>The requests of the writer, each as the work it does inside its transaction.\<close>

datatype request =
    Create nat "u8 list" u32 u32 u32 u64
  | SetOwnerMode nat u32 u32 u32
  | Remove nat "u8 list"
  | Rename nat "u8 list" "u8 list"
  | Write nat nat "u8 list" u64
  | Truncate nat nat u64
  | AttrWrite nat "u8 list" u32 nat "u8 list" u64
  | AttrRemove nat "u8 list"
  | IndexInsert nat "u8 list" u64
  | IndexRemove nat "u8 list" u64

fun blocks_of :: "request \<Rightarrow> unit wop" where
  "blocks_of (Create parent name mode uid gid time) = bindw (create_blocks parent name mode uid gid time) (\<lambda>_. give ())"
| "blocks_of (SetOwnerMode block uid gid mode) = set_owner_mode_blocks block uid gid mode"
| "blocks_of (Remove parent name) = remove_blocks parent name"
| "blocks_of (Rename parent from to) = rename_blocks parent from to"
| "blocks_of (Write block offset bytes time) = write_blocks_at block offset bytes time"
| "blocks_of (Truncate block sz time) = truncate_blocks block sz time"
| "blocks_of (AttrWrite block name ty offset bytes time) = bindw (attr_write_blocks block name ty offset bytes time) (\<lambda>_. give ())"
| "blocks_of (AttrRemove block name) = attr_remove_blocks block name"
| "blocks_of (IndexInsert block key val) = index_insert_blocks block key val"
| "blocks_of (IndexRemove block key val) = bindw (index_remove_blocks block key val) (\<lambda>_. give ())"

lemma blocks_of_steps: "steps (\<lambda>s s'. orderly s \<longrightarrow> orderly s') (blocks_of req)"
  by (cases req) (auto intro!: step_rules)


lemma transaction_begins: "orderly (v, Some (journal_begin v j), d)"
  by (simp add: orderly_def journal_begin_def)

definition idle_writer :: writer where
  "idle_writer =
     \<lparr>bw_alloc = \<lparr>al_bound = True, al_block_size = 512, al_blocks_per_ag = 1, al_ag_shift = 6, al_bitmap = [],
                  al_pending = None, al_sent = []\<rparr>,
      bw_inode = [], bw_stream = [], bw_hdr = [], bw_node = [], bw_parent = [], bw_type = kTreeStringType, bw_edit = 0\<rparr>"


text \<open>A disk that refuses every request refuses the removal too.\<close>

definition dead_device :: device where
  "dead_device = \<lparr>dev_sectors = (\<lambda>_. replicate kSectorBytes 0), dev_outcome = (\<lambda>_. Refused 0), dev_clock = 0\<rparr>"

lemma dead_remove:
  "snd (remove_blocks 20 [97] (idle_writer, sample_volume, Some (journal_begin sample_volume j), dead_device)) = None"
  by (simp add: remove_blocks_def read_inode_block_def fetch_block_def bindw_def on_disk_def reading_def rd_block_def
      read_block_def peek_def journal_begin_def sample_volume_def read_block_now_def dev_read_def dead_device_def
      wrap64_def kCacheLines_def)

lemma sample_mirrors: "mirrors sample_volume"
  by (simp add: mirrors_def sample_volume_def sample_superblock_facts)


section \<open>Halving a leaf\<close>

lemma bslice_take: "at + n \<le> sz \<Longrightarrow> bslice at n (take sz buf) = bslice at n buf"
  by (simp add: bslice_def take_drop min_def)

lemma node_rep_take:
  assumes "node_rep big l r ov es x" and "sz \<le> big" and "lens_pos (key_bytes es) + length es * 10 \<le> sz"
  shows "node_rep sz l r ov es (take sz x)"
proof -
  have fixed: "nd_kFixed + key_bytes es \<le> sz" using node_rep_bounds(1) [OF assms(1)] assms(3) by simp
  have slots: "lens_pos (key_bytes es) + i * 2 + 2 \<le> sz" "lens_pos (key_bytes es) + length es * 2 + i * 8 + 8 \<le> sz"
    if "i < length es" for i using assms(3) that by auto
  show ?thesis
    using assms fixed slots
    by (auto simp: node_rep_def le16_def le64_def bslice_take nd_offsets)
qed

lemma build_node_rep:
  assumes "sz \<le> kMaxBlockSize" and "lens_pos (key_bytes es) + length es * 10 \<le> sz"
  shows "node_rep sz l r (if leaf then kNullLink else ov) es (build_node sz leaf l r ov es)"
proof -
  let ?ov = "if leaf then kNullLink else ov" and ?cnt = "of_nat (length es)" and ?all = "of_nat (key_bytes es)"
  let ?f = "build_frame l r ?ov ?cnt ?all"
  have big: "nd_kFixed \<le> kMaxBlockSize" by (simp add: nd_kFixed_def kMaxBlockSize_def)
  have links: "le64 ?f nd_kLeftLink = l" "le64 ?f nd_kRightLink = r" "le64 ?f nd_kOverflowLink = ?ov"
    by (simp_all add: build_frame_def nd_offsets kMaxBlockSize_def le64_def put_le_other)
      (simp_all add: le64_def [symmetric] le_put_same)
  then have frame: "node_frame kMaxBlockSize ?f ?cnt ?all = ?f" by (simp add: node_frame_def build_frame_def)
  have "lens_pos (key_bytes es) + length es * 10 \<le> kMaxBlockSize" using assms by simp
  note rep = built_rep [OF order.refl this links]
  have "key_bytes es + 50 < 2 ^ 32"
    using assms align8_facts(1) [of "nd_kFixed + key_bytes es"] by (simp add: lens_pos_def kMaxBlockSize_def)
  note pos = lens_pos_word [OF this]
  show ?thesis
    using node_rep_take [OF rep assms(1,2)] unfolding build_node_def Let_def pos frame by this
qed

lemma gather_rep:
  assumes "node_rep sz l r ov es node" and "length es \<le> kMaxNodeEntries"
  shows "gather node sz = Some (es, ov)"
proof -
  let ?f = "\<lambda>i. case key_at node (length es) i of None \<Rightarrow> ([], 0) | Some (key, len) \<Rightarrow> (bslice key len node, node_value node (length es) i)"
  have one: "?f i = es ! i" if "i < length es" for i
    using node_rep_key [OF assms(1) that] node_rep_value [OF assms(1) that] by simp
  have "map ?f [0..<length es] = es"
  proof (rule nth_equalityI)
    show "map ?f [0..<length es] ! i = es ! i" if "i < length (map ?f [0..<length es])" for i
      using one that by (simp only: length_map length_upt nth_map nth_upt) simp
  qed simp
  then show ?thesis using assms(2) by (simp add: gather_def node_rep_info [OF assms(1)] Let_def)
qed

lemma combined_upd:
  assumes "name \<notin> fst ` set es"
  shows "combined data_type name val es = upd_entries (key_compare_typed data_type) name val es"
proof -
  have eq: "(\<not> key_compare_typed data_type name (fst e) < 0) = below data_type name e" if "e \<in> set es" for e
    using assms that kc.cmp_eq [of data_type name "fst e"] kc.cmp_swap [of data_type "fst e" name] by force
  have t: "takeWhile (\<lambda>e. \<not> key_compare_typed data_type name (fst e) < 0) es = takeWhile (below data_type name) es"
    by (rule takeWhile_cong [OF refl]) (use eq in blast)
  have d: "drop (length (takeWhile (below data_type name) es)) es = dropWhile (below data_type name) es"
    by (metis append_eq_conv_conj takeWhile_dropWhile_id)
  have p: "take (length (takeWhile (below data_type name) es)) es = takeWhile (below data_type name) es"
    by (metis append_eq_conv_conj takeWhile_dropWhile_id)
  have no: "fst e \<noteq> name" if "dropWhile (below data_type name) es = e # rest" for e rest
    using assms that by (metis dropWhile_eq_Cons_conv image_eqI in_set_conv_decomp)
  show ?thesis
    using no unfolding combined_def split_place_def Let_def t d p upd_entries_split by (auto split: list.splits)
qed

context ordered_keys
begin

lemma ascending_cut:
  assumes "ascending cmp all" and "\<forall>e\<in>set all. good (fst e)" and "0 < m" "m \<le> length all" and "good k"
  shows "map_of all k = (if cmp k (fst (all ! (m - 1))) \<le> 0 then map_of (take m all) k else map_of (drop m all) k)"
proof -
  let ?s = "fst (all ! (m - 1))"
  have split: "map_of all k = (map_of (drop m all) ++ map_of (take m all)) k"
    by (metis append_take_drop_id map_of_append)
  have lt: "cmp (fst (all ! i)) (fst (all ! j)) < 0" if "i < j" "j < length all" for i j
    using assms(1) that by (simp add: ascending_def sorted_wrt_iff_nth_less)
  have s: "good ?s" "good (fst (all ! i))" if "i < length all" for i using assms(2-4) that by auto
  show ?thesis
  proof (cases "cmp k ?s \<le> 0")
    case True
    have "k \<notin> fst ` set (drop m all)"
    proof
      assume "k \<in> fst ` set (drop m all)"
      then obtain i where i: "i < length all - m" "k = fst (drop m all ! i)" by (auto simp: in_set_conv_nth)
      then have "cmp ?s k < 0" using lt [of "m - 1" "m + i"] assms(3,4) by simp
      then show False using True cmp_swap [of ?s k] by simp
    qed
    then have "map_of (drop m all) k = None" by (simp add: map_of_eq_None_iff)
    then show ?thesis using True split by (simp add: map_add_def split: option.split)
  next
    case False
    have "k \<notin> fst ` set (take m all)"
    proof
      assume "k \<in> fst ` set (take m all)"
      then obtain i where i: "i < m" "k = fst (all ! i)" using assms(4) by (auto simp: in_set_conv_nth)
      then have "k = ?s \<or> cmp k ?s < 0" using lt [of i "m - 1"] assms(3,4) by (cases "i = m - 1") auto
      then show False using False cmp_eq [of k ?s] by auto
    qed
    then have "map_of (take m all) k = None" by (simp add: map_of_eq_None_iff)
    then show ?thesis using False split by (simp add: map_add_def)
  qed
qed

end

lemma key_bytes_between:
  "\<forall>e\<in>set es. fst e \<noteq> [] \<and> length (fst e) \<le> b \<Longrightarrow> length es \<le> key_bytes es \<and> key_bytes es \<le> b * length es"
proof (induction es)
  case (Cons e es)
  then have "length (fst e) \<le> b" "Suc 0 \<le> length (fst e)" by (auto simp: Suc_le_eq)
  moreover have "length es \<le> key_bytes es" "key_bytes es \<le> b * length es" using Cons by auto
  ultimately have "Suc (length es) \<le> length (fst e) + key_bytes es" "length (fst e) + key_bytes es \<le> b + b * length es" by linarith+
  then show ?case by simp
qed simp

lemma combined_facts:
  "set (combined ty name val es) = insert (name, val) (set es)" "length (combined ty name val es) = length es + 1"
  "key_bytes (combined ty name val es) = key_bytes es + length name"
proof -
  let ?p = "split_place ty name es"
  obtain xs ys where c: "combined ty name val es = xs @ (name, val) # ys" "es = xs @ ys"
    by (rule that [of "take ?p es" "drop ?p es"]) (simp_all add: combined_def Let_def)
  show "set (combined ty name val es) = insert (name, val) (set es)" "length (combined ty name val es) = length es + 1"
    "key_bytes (combined ty name val es) = key_bytes es + length name"
    unfolding c(1) by (simp_all add: c(2))
qed

text \<open>A full node of short names has so many of them that half of it leaves room for the longest.\<close>

lemma halves_fit:
  fixes all :: "(u8 list \<times> u64) list"
  assumes short: "\<forall>e\<in>set all. fst e \<noteq> [] \<and> length (fst e) \<le> 128"
    and full: "kTreeNodeSize < lens_pos (key_bytes all) + length all * 10"
    and near: "key_bytes all + length all * 10 \<le> 4206"
  defines "m \<equiv> length all div 2"
  shows "0 < m" "lens_pos (key_bytes (take m all)) + length (take m all) * 10 \<le> kTreeNodeSize"
    "lens_pos (key_bytes (drop m all)) + length (drop m all) * 10 \<le> kTreeNodeSize"
proof -
  have all: "key_bytes all = key_bytes (take m all) + key_bytes (drop m all)"
    by (metis append_take_drop_id key_bytes_simps(3))
  have sub: "\<forall>e\<in>set (take m all). fst e \<noteq> [] \<and> length (fst e) \<le> 128" "\<forall>e\<in>set (drop m all). fst e \<noteq> [] \<and> length (fst e) \<le> 128"
    using short by (auto dest: in_set_takeD in_set_dropD)
  note k = key_bytes_between [OF short] key_bytes_between [OF sub(1)] key_bytes_between [OF sub(2)]
  note al = align8_facts(2) [of "nd_kFixed + key_bytes all"] align8_facts(2) [of "nd_kFixed + key_bytes (take m all)"]
    align8_facts(2) [of "nd_kFixed + key_bytes (drop m all)"]
  have "30 \<le> length all" using k(1) full al(1) by (simp add: lens_pos_def kTreeNodeSize_def nd_kFixed_def)
  then have m: "15 \<le> m" "m \<le> length all" "length (take m all) = m" "length (drop m all) = length all - m" "15 \<le> length all - m"
    by (simp_all add: m_def)
  then show "0 < m" by simp
  show "lens_pos (key_bytes (take m all)) + length (take m all) * 10 \<le> kTreeNodeSize"
    using k near al m all by (simp add: lens_pos_def kTreeNodeSize_def nd_kFixed_def)
  show "lens_pos (key_bytes (drop m all)) + length (drop m all) * 10 \<le> kTreeNodeSize"
    using k near al m all by (simp add: lens_pos_def kTreeNodeSize_def nd_kFixed_def)
qed

text \<open>
  C21. A leaf of names of up to 128 bytes that has no room for another is halved into two leaves, linked to each
  other and to the old neighbours, such that a search for any name, to the left when it is not above the
  separator and to the right otherwise, finds what the old leaf held and the new entry.
\<close>

theorem leaf_split_map:
  assumes rep: "node_rep kTreeNodeSize l r kNullLink es node" and asc: "ascending (key_compare_typed ty) es"
    and typed: "\<forall>e\<in>set es. typed_key ty (fst e)" "typed_key ty name"
    and short: "\<forall>e\<in>set es. fst e \<noteq> [] \<and> length (fst e) \<le> 128" "name \<noteq> []" "length name \<le> 128"
    and refused: "node_insert kTreeNodeSize ty node name val = None" and "typed_key ty k"
  shows "\<exists>left right sep. gather node kTreeNodeSize = Some (es, kNullLink) \<and>
     leaf_halves ty kTreeNodeSize node offset other name val es = Some (left, right, sep) \<and>
     (if key_compare_typed ty k sep \<le> 0 then node_find left kTreeNodeSize ty k else node_find right kTreeNodeSize ty k) =
       (if k = name then Some val else node_find node kTreeNodeSize ty k) \<and>
     le64 left nd_kLeftLink = l \<and> le64 left nd_kRightLink = other \<and>
     le64 right nd_kLeftLink = offset \<and> le64 right nd_kRightLink = r"
proof -
  let ?all = "upd_entries (key_compare_typed ty) name val es" and ?sz = kTreeNodeSize
  let ?m = "length ?all div 2"
  have kml: "length name \<le> kMaxKeyLength" using short(3) by (simp add: kMaxKeyLength_def)
  have full: "?sz < lens_pos (key_bytes ?all) + length ?all * 10"
    using node_insert_rep [OF rep short(2) kml asc typed, of val] refused by simp
  have new: "name \<notin> fst ` set es" using upd_entries_room [OF rep asc typed full] by simp
  have upd: "combined ty name val es = ?all" by (rule combined_upd [OF new])
  note set_all = combined_facts [of ty name val es, unfolded upd]
  have near: "key_bytes ?all + length ?all * 10 \<le> 4206"
    using rep node_rep_bounds(1) [OF rep] short(3) set_all by (simp add: node_rep_def kTreeNodeSize_def nd_kFixed_def)
  have "\<forall>e\<in>set ?all. fst e \<noteq> [] \<and> length (fst e) \<le> 128" using set_all(1) short by auto
  note fit = halves_fit [OF this full near]
  have sz: "?sz \<le> kMaxBlockSize" by (simp add: kTreeNodeSize_def kMaxBlockSize_def)
  have links: "le64 node nd_kLeftLink = l" "le64 node nd_kRightLink = r" using rep by (simp_all add: node_rep_def)
  have n: "length es \<le> kMaxNodeEntries"
    using key_bytes_between [OF short(1)] rep node_rep_bounds(1) [OF rep]
    by (simp add: node_rep_def kTreeNodeSize_def kMaxNodeEntries_def nd_kFixed_def)
  define left where "left = build_node ?sz True l other kNullLink (take ?m ?all)"
  define right where "right = build_node ?sz True offset r kNullLink (drop ?m ?all)"
  have reps: "node_rep ?sz l other kNullLink (take ?m ?all) left" "node_rep ?sz offset r kNullLink (drop ?m ?all) right"
    using build_node_rep [OF sz fit(2), of l other True kNullLink] build_node_rep [OF sz fit(3), of offset r True kNullLink]
    by (simp_all add: left_def right_def)
  have cut: "map_of ?all k = (if key_compare_typed ty k (fst (?all ! (?m - 1))) \<le> 0 then map_of (take ?m ?all) k else map_of (drop ?m ?all) k)"
    using kc.ascending_cut [OF kc.ascending_upd [OF asc typed], of val ?m k] fit(1) set_all(1) typed assms(9) by auto
  have "(if key_compare_typed ty k (fst (?all ! (?m - 1))) \<le> 0 then node_find left ?sz ty k else node_find right ?sz ty k) = map_of ?all k"
    unfolding node_find_rep [OF reps(1)] node_find_rep [OF reps(2)] by (rule cut [symmetric])
  also have "\<dots> = (if k = name then Some val else node_find node ?sz ty k)"
    by (simp add: kc.map_of_upd [OF asc typed] node_find_rep [OF rep])
  finally have find: "(if key_compare_typed ty k (fst (?all ! (?m - 1))) \<le> 0 then node_find left ?sz ty k else node_find right ?sz ty k) =
      (if k = name then Some val else node_find node ?sz ty k)" .
  have "leaf_halves ty ?sz node offset other name val es = Some (left, right, fst (?all ! (?m - 1)))"
    using fit(1) by (simp add: leaf_halves_def Let_def upd links left_def right_def)
  then show ?thesis using find gather_rep [OF rep n] reps by (auto simp: node_rep_def)
qed

lemma insert_refused:
  assumes "node_rep sz l r ov es node" "ascending (key_compare_typed ty) es" "\<forall>e\<in>set es. typed_key ty (fst e)" "typed_key ty name"
    and "name \<noteq> []" "length name \<le> kMaxKeyLength" and "name \<notin> fst ` set es"
    and "sz < lens_pos (key_bytes es + length name) + (length es + 1) * 10"
  shows "node_insert sz ty node name val = None"
proof (cases "node_insert sz ty node name val")
  case (Some p)
  then have "node_rep sz l r ov (upd_entries (key_compare_typed ty) name val es) (fst p)"
    using node_insert_rep [OF assms(1,5,6,2,3,4), of val] by (cases p) auto
  then show ?thesis
    using assms(8) combined_facts [of ty name val es] by (simp add: combined_upd [OF assms(7)] node_rep_def)
qed

text \<open>Names that differ in their first byte.\<close>

definition long_name :: "nat \<Rightarrow> nat \<Rightarrow> u8 list" where
  "long_name len i = of_nat i # replicate (len - 1) 97"

lemma long_name_less:
  assumes "i < j" and "j < 256"
  shows "key_compare_typed kTreeStringType (long_name n i) (long_name m j) < 0"
proof -
  have "(of_nat i :: u8) < of_nat j" using assms by (simp add: word_less_nat_alt unat_of_nat take_bit_eq_mod)
  then show ?thesis by (simp add: string_order long_name_def)
qed

lemma long_name_inj: "i < 256 \<Longrightarrow> j < 256 \<Longrightarrow> long_name n i = long_name m j \<Longrightarrow> i = j"
  using long_name_less [of i j n m] long_name_less [of j i m n] kc.cmp_eq [of kTreeStringType "long_name n i" "long_name n i"]
  by (metis less_irrefl linorder_neqE_nat)

lemma long_name_new: "b \<le> i \<Longrightarrow> i < 256 \<Longrightarrow> long_name n i \<notin> fst ` set (map (\<lambda>x. (long_name (f x) x, 0 :: u64)) [a..<b])"
proof
  assume i: "b \<le> i" "i < 256" and "long_name n i \<in> fst ` set (map (\<lambda>x. (long_name (f x) x, 0 :: u64)) [a..<b])"
  then obtain x where "x < b" "long_name n i = long_name (f x) x" by auto
  then show False using i long_name_inj [of i x n "f x"] by simp
qed

lemma long_names_ascending:
  assumes "j \<le> 256"
  shows "ascending (key_compare_typed kTreeStringType) (map (\<lambda>i. (long_name (f i) i, 0 :: u64)) [a..<j])"
  using assms by (auto simp: ascending_def sorted_wrt_map sorted_wrt_iff_nth_less long_name_less)

lemma string_keys: "typed_key kTreeStringType k"
  by (simp add: typed_key_def kTreeStringType_def tree_types)

definition split_entries :: "(u8 list \<times> u64) list" where
  "split_entries = map (\<lambda>i. (long_name 100 i, 0)) [1..<37]"

lemma split_sample:
  defines "node \<equiv> build_node kTreeNodeSize True kNullLink kNullLink kNullLink split_entries"
  shows "node_rep kTreeNodeSize kNullLink kNullLink kNullLink split_entries node"
    "ascending (key_compare_typed kTreeStringType) split_entries"
    "\<forall>e\<in>set split_entries. fst e \<noteq> [] \<and> length (fst e) \<le> 128"
    "node_insert kTreeNodeSize kTreeStringType node (long_name 100 50) 9 = None"
proof -
  have bytes: "key_bytes split_entries = 3600" "length split_entries = 36"
    by (simp_all add: split_entries_def key_bytes_def long_name_def comp_def sum_list_triv)
  show rep: "node_rep kTreeNodeSize kNullLink kNullLink kNullLink split_entries node"
    using build_node_rep [of kTreeNodeSize split_entries kNullLink kNullLink True kNullLink]
    by (simp add: node_def bytes kTreeNodeSize_def kMaxBlockSize_def lens_pos_def align8_def nd_kFixed_def)
  show asc: "ascending (key_compare_typed kTreeStringType) split_entries"
    unfolding split_entries_def by (rule long_names_ascending) simp
  show "\<forall>e\<in>set split_entries. fst e \<noteq> [] \<and> length (fst e) \<le> 128" by (auto simp: split_entries_def long_name_def)
  have new: "long_name 100 50 \<notin> fst ` set split_entries" unfolding split_entries_def by (rule long_name_new) simp_all
  show "node_insert kTreeNodeSize kTreeStringType node (long_name 100 50) 9 = None"
    by (rule insert_refused [OF rep asc _ string_keys _ _ new])
      (simp_all add: string_keys bytes long_name_def kMaxKeyLength_def kTreeNodeSize_def lens_pos_def align8_def nd_kFixed_def)
qed

theorem leaf_split_map_witness:
  defines "node \<equiv> build_node kTreeNodeSize True kNullLink kNullLink kNullLink split_entries"
  shows "\<exists>left right sep. leaf_halves kTreeStringType kTreeNodeSize node 4096 8192 (long_name 100 50) 9 split_entries = Some (left, right, sep) \<and>
     (if key_compare_typed kTreeStringType (long_name 100 50) sep \<le> 0 then node_find left kTreeNodeSize kTreeStringType (long_name 100 50)
      else node_find right kTreeNodeSize kTreeStringType (long_name 100 50)) = Some 9"
proof -
  have short: "long_name 100 50 \<noteq> []" "length (long_name 100 50) \<le> 128" by (simp_all add: long_name_def)
  have typed: "\<forall>e\<in>set split_entries. typed_key kTreeStringType (fst e)" by (simp add: string_keys)
  show ?thesis
    using leaf_split_map [OF split_sample(1,2) typed string_keys split_sample(3) short split_sample(4) string_keys [of "long_name 100 50"],
        where offset = 4096 and other = 8192]
    unfolding node_def by (simp only: simp_thms if_True) blast
qed

section \<open>Halves that do not fit\<close>

text \<open>What a node that is too long for its size looks like once it is cut: its own count says it does not fit.\<close>

lemma build_node_cut:
  assumes "nd_kFixed \<le> sz" and "sz \<le> kMaxBlockSize" and "sz < lens_pos (key_bytes es) + length es * 10"
    and "lens_pos (key_bytes es) + length es * 10 \<le> kMaxBlockSize"
  shows "node_info (build_node sz leaf l r ov es) sz = None"
proof -
  let ?big = "build_node kMaxBlockSize leaf l r ov es"
  note rep = build_node_rep [OF order.refl assms(4), of l r leaf ov]
  have cut: "build_node sz leaf l r ov es = take sz ?big"
    using assms(2) by (simp add: build_node_def Let_def min_def)
  have "le16 (take sz ?big) nd_kKeyCount = le16 ?big nd_kKeyCount" "le16 (take sz ?big) nd_kAllKeyLength = le16 ?big nd_kAllKeyLength"
    using assms(1) by (simp_all add: le16_def bslice_take nd_offsets)
  then have "key_lengths_at (take sz ?big) = key_lengths_at ?big" "unat (le16 (take sz ?big) nd_kKeyCount) = length es"
    using rep node_rep_bounds(4) [OF rep] by (simp_all add: key_lengths_at_def node_rep_def unat_small)
  then show ?thesis
    using node_rep_lengths_at [OF rep] assms(3) unfolding cut by (simp add: node_info_def Let_def)
qed

text \<open>Fifteen short names and fifteen of 244 bytes, and one of 255 more.\<close>

definition wide_entries :: "(u8 list \<times> u64) list" where
  "wide_entries = map (\<lambda>i. (long_name (if i < 16 then 1 else 244) i, 0)) [1..<31]"

definition wide_node :: "u8 list" where
  "wide_node = build_node kTreeNodeSize True kNullLink kNullLink kNullLink wide_entries"

lemma wide_sizes:
  "key_bytes wide_entries = 3675" "length wide_entries = 30" "key_bytes (drop 15 wide_entries) = 3660"
proof -
  have upt: "[1..<31 :: nat] = [1..<16] @ [16..<31]" using upt_add_eq_append [of 1 16 15] by simp
  have "map (\<lambda>i. (long_name (if i < 16 then 1 else 244) i, 0 :: u64)) [1..<16] = map (\<lambda>i. (long_name 1 i, 0)) [1..<16]"
    "map (\<lambda>i. (long_name (if i < 16 then 1 else 244) i, 0 :: u64)) [16..<31] = map (\<lambda>i. (long_name 244 i, 0)) [16..<31]"
    by simp_all
  then have parts: "wide_entries = map (\<lambda>i. (long_name 1 i, 0)) [1..<16] @ map (\<lambda>i. (long_name 244 i, 0)) [16..<31]"
    unfolding wide_entries_def upt by simp
  show "key_bytes wide_entries = 3675" "length wide_entries = 30" "key_bytes (drop 15 wide_entries) = 3660"
    unfolding parts by (simp_all add: key_bytes_def long_name_def comp_def sum_list_triv)
qed


end
