(* ===== verification/Writer_Descent.thy ===== *)
theory Writer_Descent
  imports Bfs_Writer_Contract
begin

text \<open>
  The buffer \<^verbatim>\<open>parent_\<close> in the descent of an insertion. Only the descent fills it, and every level of internal
  nodes fills it again: when a split comes back up to a level, the buffer holds the node of the level below,
  unless that one was a leaf. From three levels on, a node whose child has split is rebuilt from the entries of
  the child.
\<close>

section \<open>The parent of a split below the second level\<close>

lemma bindw_Some: "m s = (s', Some x) \<Longrightarrow> bindw m f s = f x s'"
  by (simp add: bindw_def)

lemma bindw_run: "bindw m f s = (s'', Some y) \<Longrightarrow> \<exists>s' x. m s = (s', Some x) \<and> f x s' = (s'', Some y)"
  by (auto simp: bindw_def split: prod.splits option.splits)

text \<open>What fills the buffer \<^verbatim>\<open>parent_\<close> is only the descent itself.\<close>

definition parent_kept :: "'a wop \<Rightarrow> bool" where
  "parent_kept m \<longleftrightarrow> (\<forall>s. bw_parent (fst (fst (m s))) = bw_parent (fst s))"

named_theorems parent_rules

lemma parent_kept_basic [parent_rules]:
  "parent_kept (give x)" "parent_kept refuse" "parent_kept (asks q)" "parent_kept (on_disk k)" "parent_kept (demand c)"
  by (simp_all add: parent_kept_def give_def refuse_def asks_def on_disk_def demand_def case_prod_beta)

lemma parent_kept_bind [parent_rules]:
  assumes "parent_kept m" and "\<And>x. parent_kept (f x)"
  shows "parent_kept (bindw m f)"
  unfolding parent_kept_def
proof
  fix s
  obtain s1 r where m: "m s = (s1, r)" by (cases "m s")
  have "bw_parent (fst s1) = bw_parent (fst s)" using assms(1) m unfolding parent_kept_def by (metis fst_conv)
  moreover have "bw_parent (fst (fst (f x s1))) = bw_parent (fst s1)" for x using assms(2) unfolding parent_kept_def by blast
  ultimately show "bw_parent (fst (fst (bindw m f s))) = bw_parent (fst s)"
    using m by (simp add: bindw_def split: option.split)
qed

lemma parent_kept_attempt [parent_rules]: "parent_kept m \<Longrightarrow> parent_kept (attempt m)"
  by (simp add: parent_kept_def attempt_def case_prod_beta)

lemma parent_kept_split [parent_rules]:
  "(c \<Longrightarrow> parent_kept f) \<Longrightarrow> (\<not> c \<Longrightarrow> parent_kept g) \<Longrightarrow> parent_kept (if c then f else g)"
  "parent_kept f \<Longrightarrow> (\<And>x. parent_kept (h x)) \<Longrightarrow> parent_kept (case r of None \<Rightarrow> f | Some x \<Rightarrow> h x)"
  "(\<And>a. parent_kept (i a)) \<Longrightarrow> (\<And>b. parent_kept (k b)) \<Longrightarrow> parent_kept (case z of Inl a \<Rightarrow> i a | Inr b \<Rightarrow> k b)"
  "(\<And>a b. parent_kept (l a b)) \<Longrightarrow> parent_kept (case p of (a, b) \<Rightarrow> l a b)"
  by (auto split: option.split sum.split prod.split)

lemma parent_kept_each [parent_rules]: "(\<And>x. parent_kept (f x)) \<Longrightarrow> parent_kept (each f xs)"
  by (induction xs) (auto intro!: parent_rules)

lemma parent_kept_state [parent_rules]:
  "parent_kept (keep_node b)" "parent_kept (alloc_run most least)" "parent_kept (release_run r)"
  "parent_kept (fetch_block n)" "parent_kept (store_block n b)"
  by (simp_all add: parent_kept_def keep_node_def changes_def alloc_run_def release_run_def fetch_block_def store_block_def
      on_disk_def case_prod_beta)

lemma parent_kept_blocks [parent_rules]:
  "parent_kept (load_block b)" "parent_kept (give_back rs)" "parent_kept (zero_blocks r)" "parent_kept (zero_now r)"
  by (auto simp: load_block_def give_back_def zero_blocks_def zero_now_def intro!: parent_rules)

lemma parent_kept_or_give_back [parent_rules]: "parent_kept m \<Longrightarrow> parent_kept (or_give_back m rs)"
  by (auto simp: or_give_back_def intro!: parent_rules)

lemma parent_kept_count_arrays [parent_rules]: "(\<And>b. parent_kept (get b)) \<Longrightarrow> parent_kept (count_arrays get at n covered)"
  by (induction n arbitrary: at covered) (auto simp: Let_def intro!: parent_rules)

lemma parent_kept_count_array_runs [parent_rules]: "parent_kept (count_array_runs rs covered)"
  by (induction rs arbitrary: covered) (auto intro!: parent_rules)

lemma parent_kept_count_double [parent_rules]: "parent_kept (count_double at n covered)"
  by (induction n arbitrary: at covered) (auto simp: Let_def intro!: parent_rules)

lemma parent_kept_stream_blocks [parent_rules]: "parent_kept (stream_blocks stream)"
  by (auto simp: stream_blocks_def Let_def intro!: parent_rules)

lemma parent_kept_append_indirect [parent_rules]: "parent_kept (append_indirect r at n)"
  by (induction n arbitrary: at) (auto simp: Let_def intro!: parent_rules)

lemma parent_kept_array_of_slot [parent_rules]: "parent_kept (array_of_slot unit slot_at)"
proof -
  have put: "parent_kept (changes (\<lambda>w. w\<lparr>bw_node := f w\<rparr>))" for f by (simp add: parent_kept_def changes_def)
  show ?thesis by (auto simp: array_of_slot_def intro!: parent_rules put)
qed

lemma parent_kept_fill_array [parent_rules]: "parent_kept (fill_array fuel unit per slot_at index r n wrote)"
  by (induction fuel arbitrary: index r n wrote) (auto intro!: parent_rules)

lemma parent_kept_fill_double [parent_rules]: "parent_kept (fill_double fuel unit per double loaded indirect_index index r n)"
  by (induction fuel arbitrary: loaded indirect_index index r n) (auto simp: Let_def intro!: parent_rules)

lemma parent_kept_append_run [parent_rules]: "parent_kept (append_run stream r)"
  by (auto simp: append_run_def append_double_def Let_def intro!: parent_rules)

lemma parent_kept_grow [parent_rules]: "parent_kept (grow_to stream needed covered)"
proof -
  have "parent_kept (grow_rounds fuel min_unit stream needed covered)" for fuel min_unit stream covered
    by (induction fuel arbitrary: min_unit stream covered) (auto simp: Let_def intro!: parent_rules)
  then show ?thesis unfolding grow_to_def by this
qed

lemma parent_kept_node [parent_rules]:
  "parent_kept (node_read offset node_size)" "parent_kept (node_write offset node_size node)" "parent_kept header_write"
  by (auto simp: node_read_def from_stream_def node_write_def header_write_def intro!: parent_rules)

lemma parent_kept_load_node [parent_rules]: "parent_kept (load_node offset node_size)"
  by (auto simp: load_node_def intro!: parent_rules)

lemma parent_kept_append_node [parent_rules]: "parent_kept (append_node parent_block node_size)"
proof -
  have put: "parent_kept (changes (\<lambda>w. w\<lparr>bw_stream := f w, bw_hdr := g w, bw_inode := h w\<rparr>))" for f g h
    by (simp add: parent_kept_def changes_def)
  show ?thesis by (auto simp: append_node_def Let_def intro!: parent_rules put)
qed

lemma parent_kept_splits [parent_rules]:
  "parent_kept (split_leaf node node_size offset name val)"
  "parent_kept (split_internal node node_size offset name old replace_with)"
  by (auto simp: split_leaf_def split_internal_def relink_def Let_def intro!: parent_rules)

lemma leaf_keeps_parent:
  assumes load: "load_node offset sz s = (s1, Some node)" and info: "node_info node sz = Some info" "ni_overflow info = kNullLink"
  shows "bw_parent (fst (fst (insert_into (Suc fuel) offset sz name val s))) = bw_parent (fst s)"
proof -
  let ?rest = "\<lambda>ty. case node_insert sz ty node name val of
      None \<Rightarrow> bindw (split_leaf node sz offset name val) (\<lambda>sp. give (Some sp))
    | Some (work, existed) \<Rightarrow> bindw (node_write offset sz work) (\<lambda>_. give None)"
  have run: "insert_into (Suc fuel) offset sz name val s = bindw (asks (\<lambda>w v. bw_type w)) ?rest s1"
    by (simp add: bindw_Some [where m = "load_node offset sz" and s = s, OF load] info)
  have "parent_kept (bindw (asks (\<lambda>w v. bw_type w)) ?rest)" by (auto intro!: parent_rules)
  then have "bw_parent (fst (fst (insert_into (Suc fuel) offset sz name val s))) = bw_parent (fst s1)"
    unfolding run parent_kept_def by blast
  moreover have "bw_parent (fst s1) = bw_parent (fst s)"
    using parent_kept_load_node [of offset sz] load unfolding parent_kept_def by (metis fst_conv)
  ultimately show ?thesis by simp
qed

text \<open>The state in which the child of an internal node is entered.\<close>

definition entered :: "u8 list \<Rightarrow> writer \<times> fs \<Rightarrow> writer \<times> fs" where
  "entered node s = ((fst s)\<lparr>bw_parent := bsplice 0 node (bw_parent (fst s))\<rparr>, snd s)"

text \<open>What an internal node does with the answer of its child.\<close>

definition after_child :: "nat \<Rightarrow> nat \<Rightarrow> u32 \<Rightarrow> nat \<Rightarrow> tree_split option \<Rightarrow> tree_split option wop" where
  "after_child offset sz ty child_index res =
     (case res of
        None \<Rightarrow> give None
      | Some sp \<Rightarrow>
          bindw (asks (\<lambda>w v. take sz (bw_parent w)))
            (\<lambda>parent. case node_insert sz ty parent (ts_separator sp) (of_nat (ts_left sp)) of
               Some (work, existed) \<Rightarrow>
                 bindw (node_write offset sz (point_right work child_index (ts_right sp))) (\<lambda>_. give None)
             | None \<Rightarrow>
                 bindw (split_internal parent sz offset (ts_separator sp) (ts_left sp) (ts_right sp)) (\<lambda>s. give (Some s))))"

lemma insert_internal:
  assumes load: "load_node offset sz s = (s1, Some node)" and info: "node_info node sz = Some info" "ni_overflow info \<noteq> kNullLink"
    and child: "find_child (bw_type (fst s1)) node sz name 0 (ni_count info) = Some (i, child)"
  shows "insert_into (Suc fuel) offset sz name val s =
    bindw (insert_into fuel (unat child) sz name val) (after_child offset sz (bw_type (fst s1)) i) (entered node s1)"
proof -
  have ty: "asks (\<lambda>w v. bw_type w) s1 = (s1, Some (bw_type (fst s1)))" by (simp add: asks_def)
  have enter: "changes (\<lambda>w. w\<lparr>bw_parent := bsplice 0 node (bw_parent w)\<rparr>) s1 = (entered node s1, Some ())"
    by (simp add: changes_def entered_def)
  show ?thesis
    by (simp add: bindw_Some [where m = "load_node offset sz" and s = s, OF load] bindw_Some [where m = "asks (\<lambda>w v. bw_type w)" and s = s1, OF ty] info bindw_Some [where m = "changes (\<lambda>w. w\<lparr>bw_parent := bsplice 0 node (bw_parent w)\<rparr>)" and s = s1, OF enter] child after_child_def [abs_def])
qed

lemma after_child_keeps: "parent_kept (after_child offset sz ty i res)"
  by (auto simp: after_child_def intro!: parent_rules)

text \<open>After an internal node over a leaf has been through an insertion, the buffer holds that node.\<close>

lemma parent_of_leaf_stays:
  assumes load: "load_node offset sz s = (s1, Some node)" and info: "node_info node sz = Some info" "ni_overflow info \<noteq> kNullLink"
    and child: "find_child (bw_type (fst s1)) node sz name 0 (ni_count info) = Some (i, child)"
    and leaf: "load_node (unat child) sz (entered node s1) = (s2, Some low)" "node_info low sz = Some linfo" "ni_overflow linfo = kNullLink"
    and len: "length node = sz" and run: "insert_into (Suc (Suc fuel)) offset sz name val s = (s', Some res)"
  shows "take sz (bw_parent (fst s')) = node"
proof -
  have "bindw (insert_into (Suc fuel) (unat child) sz name val) (after_child offset sz (bw_type (fst s1)) i) (entered node s1) = (s', Some res)"
    using run unfolding insert_internal [OF load info child] .
  from bindw_run [OF this] obtain s3 x where low: "insert_into (Suc fuel) (unat child) sz name val (entered node s1) = (s3, Some x)"
    and up: "after_child offset sz (bw_type (fst s1)) i x s3 = (s', Some res)"
    by blast
  have "bw_parent (fst s3) = bw_parent (fst (entered node s1))"
    using leaf_keeps_parent [OF leaf, of fuel name val] low by simp
  moreover have "bw_parent (fst s') = bw_parent (fst s3)"
    using after_child_keeps up unfolding parent_kept_def by (metis fst_conv)
  ultimately show ?thesis using len by (simp add: entered_def bsplice_def)
qed

text \<open>
  Three levels: when the node in the middle has split, the node above it is written as the middle node with the
  separator put in, or as a half of that. The node that was read at its place, \<open>high\<close>, is not in what is written.
\<close>

lemma third_level_lost:
  assumes high: "load_node offset sz s = (s1, Some high)" "node_info high sz = Some info" "ni_overflow info \<noteq> kNullLink"
    and find: "find_child (bw_type (fst s1)) high sz name 0 (ni_count info) = Some (i, child)"
    and middle: "load_node (unat child) sz (entered high s1) = (s2, Some mid)" "node_info mid sz = Some minfo" "ni_overflow minfo \<noteq> kNullLink"
    and find2: "find_child (bw_type (fst s2)) mid sz name 0 (ni_count minfo) = Some (i2, child2)"
    and leaf: "load_node (unat child2) sz (entered mid s2) = (s3, Some low)" "node_info low sz = Some linfo" "ni_overflow linfo = kNullLink"
    and len: "length mid = sz"
    and split: "insert_into (Suc (Suc fuel)) (unat child) sz name val (entered high s1) = (s4, Some (Some sp))"
  shows "insert_into (Suc (Suc (Suc fuel))) offset sz name val s =
    (case node_insert sz (bw_type (fst s1)) mid (ts_separator sp) (of_nat (ts_left sp)) of
       Some (work, existed) \<Rightarrow> bindw (node_write offset sz (point_right work i (ts_right sp))) (\<lambda>_. give None)
     | None \<Rightarrow> bindw (split_internal mid sz offset (ts_separator sp) (ts_left sp) (ts_right sp)) (\<lambda>s. give (Some s))) s4"
proof -
  have parent: "take sz (bw_parent (fst s4)) = mid"
    by (rule parent_of_leaf_stays [OF middle find2 leaf len split])
  have ask: "asks (\<lambda>w v. take sz (bw_parent w)) s4 = (s4, Some mid)" by (simp add: asks_def parent)
  show ?thesis
    unfolding insert_internal [OF high find] bindw_Some [where m = "insert_into (Suc (Suc fuel)) (unat child) sz name val" and s = "entered high s1", OF split] by (simp add: after_child_def bindw_Some [where m = "asks (\<lambda>w v. take sz (bw_parent w))" and s = s4, OF ask])
qed

section \<open>Writing into a small attribute\<close>

text \<open>
  A write into an attribute kept in the inode that ends within the buffer gives the old value with the bytes
  in their place, zeros in a gap before them, and the old bytes elsewhere.
\<close>

lemma attribute_patch_exact:
  assumes "offset + length bytes \<le> kMaxBlockSize" and "length old \<le> kMaxBlockSize"
  shows "\<exists>val. patched_value old offset bytes = Some val \<and> length val = max (length old) (offset + length bytes) \<and>
     (\<forall>i<length val. val ! i = (if offset \<le> i \<and> i < offset + length bytes then bytes ! (i - offset)
                                else if i < length old then old ! i else 0))"
proof -
  let ?n = "max (length old) (offset + length bytes)"
  let ?buf = "old @ replicate (kMaxBlockSize - length old) 0"
  let ?val = "take ?n (bsplice offset bytes ?buf)"
  have fit: "?n \<le> kMaxBlockSize" using assms by simp
  have small: "wrap64 (offset + length bytes) = offset + length bytes" "wrap32 offset = offset" "wrap32 ?n = ?n"
    using assms by (simp_all add: wrap64_def wrap32_def kMaxBlockSize_def)
  have cut: "(if offset + length bytes > length old then offset + length bytes else length old) = ?n" by (simp add: max_def)
  have "patched_value old offset bytes = Some ?val"
    unfolding patched_value_def Let_def small cut using assms(1) fit by simp
  moreover have len: "length ?val = ?n" using assms fit by (simp add: bsplice_def)
  moreover have "?val ! i = (if offset \<le> i \<and> i < offset + length bytes then bytes ! (i - offset) else if i < length old then old ! i else 0)"
    if "i < ?n" for i
    using that assms by (auto simp: bsplice_def nth_append min_def)
  ultimately show ?thesis by metis
qed

lemma attribute_patch_exact_witness: "patched_value [1, 2, 3] 5 [9] = Some [1, 2, 3, 0, 0, 9]"
proof -
  obtain val where v: "patched_value [1, 2, 3] 5 [9] = Some val" "length val = 6"
    "\<And>i. i < 6 \<Longrightarrow> val ! i = (if 5 \<le> i \<and> i < 6 then [9] ! (i - 5) else if i < 3 then [1, 2, 3] ! i else 0)"
    using attribute_patch_exact [of 5 "[9]" "[1, 2, 3]"] by (auto simp: kMaxBlockSize_def)
  have "val = [1, 2, 3, 0, 0, 9]"
    by (rule nth_equalityI) (auto simp: v(2,3) less_Suc_eq numeral_eq_Suc)
  then show ?thesis using v(1) by simp
qed

text \<open>A write at 4 GiB into the same attribute is taken for one at its start, and cuts the value to its length.\<close>

lemma attribute_patch_wraps: "patched_value [1, 2, 3] (2 ^ 32) [9] = Some [9]"
  by (simp add: patched_value_def wrap64_def wrap32_def kMaxBlockSize_def bsplice_def)

end
