(* ===== verification/Spec2Isabelle.thy ===== *)
theory Spec2Isabelle
  imports Process_Registry Slot_Pool Resource_Limits Pattern Posix_Path Bfs_Query Bfs_Allocator Pipe_Contract Memory_Contract Heap_Contract Shell_Lines Command_Args Virtio_Contract Gpt_Table Writer_Descent
begin

text \<open>
  A verification library for Aegir, an operating system in user space on the seL4 microkernel
  (\<^verbatim>\<open>src/\<close>). A director starts services; each service owns ports and answers requests that carry words and
  capabilities, and knows its caller by the badge the kernel reports. The parts modelled here are the ones
  with the most logic of their own: who may signal whom (the process table and the registry service), where
  memory and capability slots come from (the slot pool, the untyped allocator, the memory service and its
  limits, the free regions of a process heap), how names are read (the pattern matcher, the POSIX view of
  paths), how command files run (the script library, the shell that drives it and the argument templates
  of the commands), the byte pipes, the queue a driver shares with a device, the partition table of a disk, and the Be
  File System library from its on-disk structures up to the reading and the writing of a volume, with the block
  allocator, the journal and the query language.

  \<^bold>\<open>The theories and the code.\<close> Every definition that models code keeps the name of the code where that is
  free; the state of a component is a record, its operations are functions on it, an operation that can fail
  answers an option or a flag as the code does, and machine integers are words or numbers with the
  wrap-around written out.

  \<^item> \<open>Aegir_Prelude\<close>: word types, little-endian byte strings, list updates, linked chains, ASCII folding.
  \<^item> \<open>Ipc_Badge\<close> (\<^verbatim>\<open>libs/freestanding/aegir-ipc/.../badge.h\<close>, \<^verbatim>\<open>nmspace.h\<close>): badges decode to what they were made from.
  \<^item> \<open>Process_Table\<close> (\<^verbatim>\<open>aegir-process/src/process_table.cc\<close>), \<open>Process_Registry\<close> (\<^verbatim>\<open>apps/freestanding/aegir-process-registry\<close>):
    the table as a map from pids (locale \<open>keyed_rows\<close>, interpreted on the table), the authority of a break,
    and the break sources kept beside the rows.
  \<^item> \<open>Slot_Pool\<close> (\<^verbatim>\<open>aegir-mem/.../slot_pool.h\<close>): the locale \<open>slot_source\<close> is what a client relies on; slots are given out once.
  \<^item> \<open>Untyped_Alloc\<close> (\<^verbatim>\<open>aegir-mem/src/allocator.cc\<close>): nodes, free lists, splitting, carving, objects, runs of frames,
    freeing and merging, over a kernel that answers what it likes. \<open>Untyped_Proofs\<close> has the lists as chains
    and what a split does to the memory in them, \<open>Untyped_Serve\<close> the allocations and sequences of requests,
    \<open>Untyped_Contract\<close> what follows: allocations are disjoint and end; releases in some orders break the lists.
  \<^item> \<open>Resource_Limits\<close> (\<^verbatim>\<open>aegir-limits/src/limits.cc\<close>): the limits file, the amounts, the precedence of its rules.
  \<^item> \<open>Memory_Service\<close>, \<open>Memory_Contract\<close> (\<^verbatim>\<open>apps/freestanding/aegir-memory\<close>): the chunk table, allocation under a user's
    limits, release by badge, and the configuration, over any pool; the untyped allocator is one.
  \<^item> \<open>Heap_Regions\<close>, \<open>Regions_Proofs\<close>, \<open>Heap_Contract\<close> (\<^verbatim>\<open>libs/hosted/aegir-heap/src/regions.h\<close>): the list of released spans in
    the nodes a heap provides, as a set of free addresses; the locale \<open>span_store\<close> is what the heap relies on,
    interpreted on the list: memory that is out is never handed out again.
  \<^item> \<open>Pattern\<close> (\<^verbatim>\<open>aegir-pattern/src/pattern.cc\<close>): the matcher decides the language its pattern denotes.
  \<^item> \<open>Posix_Path\<close> (\<^verbatim>\<open>libs/aegir-posix/.../path.h\<close>): the translation between POSIX and native paths.
  \<^item> \<open>Script_Library\<close>, \<open>Script_Frames\<close> (\<^verbatim>\<open>libs/hosted/aegir-script\<close>, and the control words of \<^verbatim>\<open>apps/hosted/aegir-shell\<close>):
    the lines of command files, substitution, aliases, conditions and the jumps of the stack of files.
    \<open>Script_Proofs\<close> and \<open>Script_Contract\<close> show that the jumps run the nested program a file is written as, that
    templates and aliases mean what they say, and that a control line loses the return code. \<open>Shell_Lines\<close> has
    the redirections, pipelines, aliases, paths and file commands of the shell.
  \<^item> \<open>Command_Args\<close> (\<^verbatim>\<open>libs/freestanding/aegir-args\<close>): the words of a command line against a template of keywords,
    switches and one argument that takes what the others leave.
  \<^item> \<open>Virtio_Queue\<close>, \<open>Virtio_Contract\<close> (\<^verbatim>\<open>libs/freestanding/aegir-virtio/src/queue.cc\<close>): the shared pages of a queue and the
    stores a publication makes, in their order; what driver and device see in every interleaving with a device
    that only appends to its ring, with counters that wrap.
  \<^item> \<open>Gpt_Table\<close> (\<^verbatim>\<open>apps/freestanding/aegir-partmgr\<close>, \<^verbatim>\<open>gpt.cc\<close> and the walk of \<^verbatim>\<open>main.cc\<close>): the words of a partition table and
    the walk over its entries in runs that fit a window.
  \<^item> \<open>Pipe_Service\<close> (\<^verbatim>\<open>apps/freestanding/aegir-fs-pipe\<close>): the whole service, from \<^verbatim>\<open>memory_init\<close> to the receive loop.
    \<open>Pipe_Heap\<close> has its memory as linked lists, \<open>Pipe_Proofs\<close> the invariant every request keeps, and
    \<open>Pipe_Contract\<close> the locale \<open>byte_pipe\<close>, interpreted on the service, and what a writer and a reader may rely on.
  \<^item> \<open>Bfs_Layout\<close>, \<open>Bfs_Volume\<close>, \<open>Bfs_Journal\<close>, \<open>Bfs_Tree\<close>, \<open>Bfs_Inode\<close>, \<open>Bfs_Stream\<close>, \<open>Bfs_Read\<close>, \<open>Bfs_Query\<close>, \<open>Bfs_Allocator\<close>
    (\<^verbatim>\<open>libs/freestanding/aegir-bfs\<close>): the structures of \<^verbatim>\<open>layout.h\<close>; a volume over a block device that may fail any
    request part of the way (locale \<open>block_store\<close>); the journal, whose commit is all or nothing whatever request
    the device fails; the nodes of a B+tree as maps from keys (locale \<open>ordered_keys\<close>); inodes and the attributes
    kept in them; streams read through direct, indirect and double indirect runs; directories; the query
    language; first-fit allocation and discards.
  \<^item> \<open>Bfs_Writer_Base\<close>, \<open>Bfs_Writer_Tree\<close>, \<open>Bfs_Writer\<close> (\<^verbatim>\<open>aegir-bfs/src/writer.cc\<close>): the streams of a file grown, cut
    and freed; the nodes of a tree split, filled and emptied; creation, writing, truncation, removal, renaming,
    attributes and indices, each inside its transaction. \<open>Writer_Steps\<close> has the locales \<open>fs_steps\<close> and \<open>fs_direct\<close>,
    which carry a relation between the states of the file system through every operation; \<open>Bfs_Writer_Contract\<close>
    interprets them twice: a removal that is refused leaves the disk as it was, and no request overfills the
    transaction. It also shows that a full leaf of names of up to 128 bytes is halved rightly, and that longer
    ones make a half no reader accepts. \<open>Writer_Descent\<close> shows that a split below the second internal level is
    recorded in the wrong node, and what a write into a small attribute does.

  \<^bold>\<open>Loops.\<close> Loops that walk memory end by a measure where the code has one. Where a loop follows links that only
  an invariant makes finite (the chains of the pipe service, the free lists of the untyped allocator and of the
  heap, the walk of a directory's leaves) the definition takes fuel, running out of it is the value \<open>None\<close>, and the invariant
  gives the fuel that is enough: the number of chunks for a pipe's chain, the number of nodes for a free list,
  the number of lines for a command file without a \<^verbatim>\<open>Skip\<close>, the number of entries for a
  partition table, the number of nodes its size allows plus one for the descent into a tree of the writer,
  which a tree whose links form a circle would exhaust, twice the missing blocks plus one for the growth of a file,
  since after a round that adds nothing the next asks for a longer run, and for a refill 64 levels plus the bytes that are free, since every round that starts over
  has lost a piece for good.

  \<^bold>\<open>Parameters.\<close> The kernel is not part of the repository: its answers to retypes, and the slots it refuses, are
  arguments of the definitions that call it, and the properties hold for all of them. So are the block device
  (which requests it fails, and after how many sectors), the files the memory service finds, and the arena it
  maps them into, the node source of the heap, and what the session answers the shell (variables, files, whether
  a path exists, the return codes of commands), the bytes of a disk and the reads
  it refuses, and what a device writes into its ring and answers in its registers.

  \<^bold>\<open>Not modelled.\<close> The volume service over the BFS library, the FAT volume, the namespace service, authentication, the director and the spawn path, the network, the
  devices and the desktop. They are left for the plan or are mostly calls on the kernel; the commands and
  tests are programs over the libraries, and the C library is vendored. Of the untyped allocator, the slot
  cursor, the growth of a two-level CSpace, the node and untyped sources and device memory are left out.
  Of the virtqueue,
  waiting for the interrupt is left out, and of the partition manager what is done with a partition it found.
  Debug output is left out everywhere.
\<close>

end
